(* ===== verification/Prelude.thy ===== *)
theory Prelude
  imports Main "HOL-Library.Word" "HOL-Library.AList" "HOL-Library.Multiset"
    "HOL-Library.List_Lexorder"
begin

text \<open>
  What the components share: the byte type and the little- and big-endian memory images of
  machine words, association lists kept in key order (the model of \<open>std::map\<close>), association
  lists in an unspecified order (the model of \<open>std::unordered_map\<close>, from \<^theory_text>\<open>HOL-Library.AList\<close>),
  the ASCII case functions of \<open>std::tolower\<close> and \<open>std::toupper\<close> in the "C" locale, and the
  lookup-table contract that several components provide, as a locale.
\<close>

unbundle bit_operations_syntax

named_theorems word_bytes \<open>sizes and values of the byte images of words\<close>
named_theorems table_simps \<open>lookup after an update or a removal\<close>

subsection \<open>Bytes\<close>

type_synonym byte = "8 word"
type_synonym bytes = "byte list"

text \<open>The bytes of a word as they lie in memory on the little-endian hosts the program targets.\<close>

fun le_bytes :: "nat \<Rightarrow> 'a::len word \<Rightarrow> bytes" where
  "le_bytes 0 w = []"
| "le_bytes (Suc n) w = ucast w # le_bytes n (drop_bit 8 w)"

definition be_bytes :: "nat \<Rightarrow> 'a::len word \<Rightarrow> bytes" where
  "be_bytes n w = rev (le_bytes n w)"

fun le_nat :: "bytes \<Rightarrow> nat" where
  "le_nat [] = 0"
| "le_nat (b # bs) = unat b + 256 * le_nat bs"

lemma le_bytes_numeral:
  "le_bytes (numeral k) w = ucast w # le_bytes (pred_numeral k) (drop_bit 8 w)"
  by (simp add: numeral_eq_Suc)

lemma length_le_bytes [simp, word_bytes]: "length (le_bytes n w) = n"
  by (induction n arbitrary: w) auto

lemma length_be_bytes [simp, word_bytes]: "length (be_bytes n w) = n"
  by (simp add: be_bytes_def)

lemma unat_lt2p: "unat (w :: 'a::len word) < 2 ^ LENGTH('a)"
  by (rule unsigned_less)

lemma word_add_unat:
  fixes a b :: "'a::len word"
  assumes "unat a + unat b < 2 ^ LENGTH('a)"
  shows "unat (a + b) = unat a + unat b"
  using assms by (simp add: unat_word_ariths)

lemma unat_ucast_byte: "unat (ucast (w :: 'a::len word) :: byte) = unat w mod 256"
  by (simp add: unsigned_ucast_eq take_bit_eq_mod)

lemma unat_drop_bit_word: "unat (drop_bit n (w :: 'a::len word)) = unat w div 2 ^ n"
  by (simp add: unat_drop_bit_eq drop_bit_eq_div [where ?'a = nat])

lemma le_nat_le_bytes [word_bytes]: "le_nat (le_bytes n w) = unat w mod 256 ^ n"
  by (induction n arbitrary: w)
    (auto simp: unat_ucast_byte unat_drop_bit_word mod_mult2_eq)

lemma le_nat_word:
  fixes w :: "'a::len word"
  assumes "LENGTH('a) \<le> 8 * n"
  shows "word_of_nat (le_nat (le_bytes n w)) = w"
proof -
  have "unat w < 2 ^ LENGTH('a)" by simp
  also have "(2::nat) ^ LENGTH('a) \<le> 2 ^ (8 * n)" using assms by (intro power_increasing) auto
  also have "(2::nat) ^ (8 * n) = 256 ^ n" by (simp add: power_mult)
  finally show ?thesis by (simp add: le_nat_le_bytes)
qed

lemma le_bytes_inject:
  fixes v w :: "'a::len word"
  assumes "LENGTH('a) \<le> 8 * n"
  shows "le_bytes n v = le_bytes n w \<longleftrightarrow> v = w"
  using le_nat_word [OF assms] by metis


subsection \<open>Ordered maps: association lists in strictly increasing key order\<close>

text \<open>\<open>omap_put\<close> is \<open>m[k] = v\<close> (insertion at the key's place, or assignment),
  \<open>omap_del\<close> is \<open>erase(k)\<close>; lookup is \<open>map_of\<close>.\<close>

abbreviation sorted_map :: "('k::linorder \<times> 'v) list \<Rightarrow> bool" where
  "sorted_map m \<equiv> sorted_wrt (<) (map fst m)"

fun omap_put :: "'k::linorder \<Rightarrow> 'v \<Rightarrow> ('k \<times> 'v) list \<Rightarrow> ('k \<times> 'v) list" where
  "omap_put k v [] = [(k, v)]"
| "omap_put k v ((k', v') # m) =
     (if k < k' then (k, v) # (k', v') # m
      else if k = k' then (k, v) # m
      else (k', v') # omap_put k v m)"

definition omap_del :: "'k \<Rightarrow> ('k \<times> 'v) list \<Rightarrow> ('k \<times> 'v) list" where
  "omap_del k m = filter (\<lambda>e. fst e \<noteq> k) m"

lemma map_of_omap_put [simp, table_simps]: "map_of (omap_put k v m) = (map_of m)(k \<mapsto> v)"
  by (induction k v m rule: omap_put.induct) (auto simp: fun_eq_iff)

lemma map_of_omap_del [simp, table_simps]: "map_of (omap_del k m) = (map_of m)(k := None)"
  by (induction m) (auto simp: omap_del_def fun_eq_iff)

lemma keys_omap_put [simp]: "set (map fst (omap_put k v m)) = insert k (set (map fst m))"
  by (induction k v m rule: omap_put.induct) auto

lemma sorted_omap_put [simp]: "sorted_map m \<Longrightarrow> sorted_map (omap_put k v m)"
proof (induction k v m rule: omap_put.induct)
  case (2 k v k' v' m)
  have "set (map fst (omap_put k v m)) = insert k (set (map fst m))" by (rule keys_omap_put)
  with 2 show ?case by (auto simp: not_less)
qed simp

lemma sorted_omap_del [simp]: "sorted_map m \<Longrightarrow> sorted_map (omap_del k m)"
  by (induction m) (auto simp: omap_del_def)

lemma sorted_map_distinct [simp]: "sorted_map m \<Longrightarrow> distinct (map fst m)"
  by (simp add: strict_sorted_iff)

text \<open>Inserting a key above all others appends it.\<close>

lemma omap_put_snoc: "\<forall>e \<in> set m. fst e < k \<Longrightarrow> omap_put k v m = m @ [(k, v)]"
  by (induction k v m rule: omap_put.induct) auto

lemma map_of_above: "\<forall>e \<in> set m. k < fst e \<Longrightarrow> map_of m (k :: 'k::order) = None"
  by (auto simp: map_of_eq_None_iff)

lemma map_of_all: "distinct (map fst m) \<Longrightarrow> (k, v) \<in> set m \<longleftrightarrow> map_of m k = Some v"
  by (simp add: map_of_eq_Some_iff)

subsection \<open>Characters\<close>

text \<open>\<open>std::tolower\<close> and \<open>std::toupper\<close> in the "C" locale.\<close>

definition tolower :: "char \<Rightarrow> char" where
  "tolower c = (let n = of_char c :: nat in if 65 \<le> n \<and> n \<le> 90 then char_of (n + 32) else c)"

definition toupper :: "char \<Rightarrow> char" where
  "toupper c = (let n = of_char c :: nat in if 97 \<le> n \<and> n \<le> 122 then char_of (n - 32) else c)"

abbreviation lower :: "string \<Rightarrow> string" where
  "lower s \<equiv> map tolower s"

lemma tolower_idem [simp]: "tolower (tolower c) = tolower c"
  by (simp add: tolower_def Let_def)

lemma tolower_comp [simp]: "tolower \<circ> tolower = tolower"
  by (rule ext) simp

lemma lower_idem: "lower (lower s) = lower s"
  by simp

subsection \<open>Computations that may fail\<close>

text \<open>Sequencing in \<open>error + result\<close>: an error ends the computation, as an exception does.\<close>

definition chain :: "'e + 'a \<Rightarrow> ('a \<Rightarrow> 'e + 'b) \<Rightarrow> 'e + 'b" where
  "chain x f = (case x of Inl e \<Rightarrow> Inl e | Inr a \<Rightarrow> f a)"

lemma chain_simps [simp]: "chain (Inl e) f = Inl e" "chain (Inr a) f = f a"
  by (simp_all add: chain_def)

lemma chain_Inr: "chain x f = Inr b \<longleftrightarrow> (\<exists>a. x = Inr a \<and> f a = Inr b)"
  by (cases x) auto

lemma chain_cong [fundef_cong]: "x = y \<Longrightarrow> (\<And>a. y = Inr a \<Longrightarrow> f a = g a) \<Longrightarrow> chain x f = chain y g"
  by (cases y) auto

fun fold_chain :: "('a \<Rightarrow> 's \<Rightarrow> 'e + 's) \<Rightarrow> 'a list \<Rightarrow> 's \<Rightarrow> 'e + 's" where
  "fold_chain f [] s = Inr s"
| "fold_chain f (x # xs) s = chain (f x s) (fold_chain f xs)"

text \<open>A property that every step keeps is kept by the loop.\<close>

lemma fold_chain_inv:
  "fold_chain f xs s = Inr s' \<Longrightarrow> P s \<Longrightarrow> (\<And>x s s'. x \<in> set xs \<Longrightarrow> f x s = Inr s' \<Longrightarrow> P s \<Longrightarrow> P s') \<Longrightarrow> P s'"
proof (induction xs arbitrary: s)
  case (Cons x xs)
  then obtain s1 where s1: "f x s = Inr s1" "fold_chain f xs s1 = Inr s'" by (auto simp: chain_Inr)
  show ?case by (rule Cons.IH [OF s1(2)]) (use Cons.prems s1(1) in auto)
qed simp

lemma fold_chain_app: "fold_chain f (xs @ ys) s = chain (fold_chain f xs s) (fold_chain f ys)"
  by (induction xs arbitrary: s) (auto simp: chain_def split: sum.splits)

subsection \<open>Decimal numerals\<close>

text \<open>\<open>std::to_string\<close> and \<open>std::format("{}", n)\<close> of a natural number.\<close>

fun decimal :: "nat \<Rightarrow> string" where
  "decimal n = (if n < 10 then [char_of (48 + n)] else decimal (n div 10) @ [char_of (48 + n mod 10)])"

declare decimal.simps [simp del]

definition undecimal :: "string \<Rightarrow> nat" where
  "undecimal s = foldl (\<lambda>n c. 10 * n + (of_char c - 48)) 0 s"

lemma undecimal_decimal [simp]: "undecimal (decimal n) = n"
proof (induction n rule: decimal.induct)
  case (1 n)
  then show ?case
    by (subst decimal.simps) (auto simp: undecimal_def of_char_of [where ?'a = nat])
qed

lemma decimal_inject: "decimal m = decimal n \<longleftrightarrow> m = n"
  using undecimal_decimal by metis

lemma decimal_digits: "c \<in> set (decimal n) \<Longrightarrow> 48 \<le> (of_char c :: nat) \<and> (of_char c :: nat) \<le> 57"
proof (induction n rule: decimal.induct)
  case (1 n)
  then show ?case
    by (subst (asm) (2) decimal.simps) (auto simp: of_char_of [where ?'a = nat] split: if_splits)
qed

subsection \<open>The lookup-table contract\<close>

text \<open>
  What a table of named entries promises its clients, whatever it is built on: a lookup after an
  insertion finds the new entry and leaves the others, a lookup after a removal finds nothing
  under the key, and both keep the provider's invariant.
\<close>

locale table =
  fixes get :: "'m \<Rightarrow> 'k \<Rightarrow> 'v option"
    and put :: "'k \<Rightarrow> 'v \<Rightarrow> 'm \<Rightarrow> 'm"
    and remove :: "'k \<Rightarrow> 'm \<Rightarrow> 'm"
    and inv :: "'m \<Rightarrow> bool"
  assumes get_put: "inv m \<Longrightarrow> get (put k v m) k' = (if k' = k then Some v else get m k')"
    and get_remove: "inv m \<Longrightarrow> get (remove k m) k' = (if k' = k then None else get m k')"
    and inv_put: "inv m \<Longrightarrow> inv (put k v m)"
    and inv_remove: "inv m \<Longrightarrow> inv (remove k m)"
begin

lemma get_put_same: "inv m \<Longrightarrow> get (put k v m) k = Some v"
  by (simp add: get_put)

lemma put_put: "inv m \<Longrightarrow> get (put k v (put k w m)) k' = get (put k v m) k'"
  by (simp add: get_put inv_put)

lemma remove_put: "inv m \<Longrightarrow> get m k = None \<Longrightarrow> get (remove k (put k v m)) k' = get m k'"
  by (simp add: get_put get_remove inv_put)

text \<open>A run of insertions: the last one under a key wins.\<close>

lemma inv_fold_put: "inv m \<Longrightarrow> inv (fold (\<lambda>(k, v). put k v) es m)"
  by (induction es arbitrary: m) (auto simp: inv_put)

lemma get_fold_put:
  "inv m \<Longrightarrow> get (fold (\<lambda>(k, v). put k v) es m) k
     = (case map_of (rev es) k of Some v \<Rightarrow> Some v | None \<Rightarrow> get m k)"
proof (induction es arbitrary: m)
  case (Cons e es)
  obtain k' v' where e: "e = (k', v')" by (cases e)
  have "inv (put k' v' m)" using Cons.prems by (rule inv_put)
  from Cons.IH [OF this] show ?case
    using Cons.prems by (auto simp: e get_put map_add_def split: option.splits)
qed simp

end

interpretation omap: table map_of omap_put omap_del sorted_map
  by unfold_locales auto

end
