(* ===== verification/Binary_Stream.thy ===== *)
theory Binary_Stream
  imports Prelude
begin

text \<open>
  The packet byte stream of \<open>src/bedrock/core/utility/binary_stream.{h,cpp}\<close>: the bounds-checked
  reader \<open>ReadOnlyBinaryStream\<close> and the writer \<open>BinaryStream\<close>, with the variable-length
  integers. A stream owns its buffer, and \<open>view\<close> is the value of \<open>view_\<close> when it was last
  assigned. \<open>float\<close> and \<open>double\<close> arguments are their bit patterns. The shift by a count of 32 or
  more that \<open>getUnsignedVarInt\<close> performs on an over-long encoding is undefined in C++; the model
  ends such a run with the outcome \<open>Undefined_Shift\<close>.
\<close>

subsection \<open>The reader\<close>

datatype stream_error = Invalid_Seek | Undefined_Shift

record binary_stream =
  owned_buffer :: bytes
  view :: bytes
  read_pointer :: "64 word"
  has_overflowed :: bool

type_synonym 'a stream_result = "(stream_error + 'a) \<times> binary_stream"

definition ReadOnlyBinaryStream :: "bytes \<Rightarrow> bool \<Rightarrow> binary_stream" where
  "ReadOnlyBinaryStream buffer copy_buffer =
     \<lparr>owned_buffer = (if copy_buffer then buffer else []), view = buffer, read_pointer = 0,
      has_overflowed = False\<rparr>"

definition read :: "64 word \<Rightarrow> binary_stream \<Rightarrow> bytes stream_result" where
  "read num s =
     (if has_overflowed s then (Inl Invalid_Seek, s)
      else if num = 0 then (Inr [], s)
      else let checked_number = read_pointer s + num in
        if checked_number < read_pointer s \<or> unat checked_number > length (view s)
        then (Inl Invalid_Seek, s\<lparr>has_overflowed := True\<rparr>)
        else (Inr (take (unat num) (drop (unat (read_pointer s)) (view s))),
              s\<lparr>read_pointer := read_pointer s + num\<rparr>))"

definition setReadPointer :: "64 word \<Rightarrow> binary_stream \<Rightarrow> binary_stream" where
  "setReadPointer p s = s\<lparr>read_pointer := p\<rparr>"

definition getReadPointer :: "binary_stream \<Rightarrow> 64 word" where
  "getReadPointer s = read_pointer s"

definition getLength :: "binary_stream \<Rightarrow> 64 word" where
  "getLength s = of_nat (length (view s))"

definition getUnreadLength :: "binary_stream \<Rightarrow> 64 word" where
  "getUnreadLength s = of_nat (length (view s)) - read_pointer s"

definition getView :: "binary_stream \<Rightarrow> bytes" where
  "getView s = view s"

definition hasOverflowed :: "binary_stream \<Rightarrow> bool" where
  "hasOverflowed s = has_overflowed s"

definition getByte :: "binary_stream \<Rightarrow> byte stream_result" where
  "getByte s = (case read 1 s of
       (Inl e, s') \<Rightarrow> (Inl e, s')
     | (Inr bs, s') \<Rightarrow> (Inr (hd bs), s'))"

function getUnsignedVarInt_loop :: "32 word \<Rightarrow> nat \<Rightarrow> binary_stream \<Rightarrow> 32 word stream_result" where
  "getUnsignedVarInt_loop v i s = (case getByte s of
       (Inl e, s') \<Rightarrow> (Inl e, s')
     | (Inr b, s') \<Rightarrow>
         if 32 \<le> i then (Inl Undefined_Shift, s')
         else let v' = v OR push_bit i (ucast (b AND 0x7F)) in
           if b AND 0x80 = 0 then (Inr v', s')
           else getUnsignedVarInt_loop v' (i + 7) s')"
  by pat_completeness auto
termination
  by (relation "measure (\<lambda>(v, i, s). 40 - i)") auto

declare getUnsignedVarInt_loop.simps [simp del]

definition getUnsignedVarInt :: "binary_stream \<Rightarrow> 32 word stream_result" where
  "getUnsignedVarInt s = getUnsignedVarInt_loop 0 0 s"

subsection \<open>The writer\<close>

definition BinaryStream :: binary_stream where
  "BinaryStream = \<lparr>owned_buffer = [], view = [], read_pointer = 0, has_overflowed = False\<rparr>"

definition getBuffer :: "binary_stream \<Rightarrow> bytes" where
  "getBuffer s = owned_buffer s"

definition reset :: "binary_stream \<Rightarrow> binary_stream" where
  "reset s = setReadPointer 0 (s\<lparr>owned_buffer := [], view := []\<rparr>)"

definition write_data :: "bytes \<Rightarrow> binary_stream \<Rightarrow> binary_stream" where
  "write_data data s = (let b = (if 0 < length data then owned_buffer s @ data else owned_buffer s)
     in s\<lparr>owned_buffer := b, view := b\<rparr>)"

definition writeByte :: "byte \<Rightarrow> binary_stream \<Rightarrow> binary_stream" where
  "writeByte v s = write_data (le_bytes 1 v) s"

definition writeBool :: "bool \<Rightarrow> binary_stream \<Rightarrow> binary_stream" where
  "writeBool v s = writeByte (if v then 1 else 0) s"

definition writeSignedByte :: "byte \<Rightarrow> binary_stream \<Rightarrow> binary_stream" where
  "writeSignedByte v s = write_data (le_bytes 1 v) s"

definition writeUnsignedChar :: "byte \<Rightarrow> binary_stream \<Rightarrow> binary_stream" where
  "writeUnsignedChar v s = write_data (le_bytes 1 v) s"

definition writeUnsignedShort :: "16 word \<Rightarrow> binary_stream \<Rightarrow> binary_stream" where
  "writeUnsignedShort v s = write_data (le_bytes 2 v) s"

definition writeSignedShort :: "16 word \<Rightarrow> binary_stream \<Rightarrow> binary_stream" where
  "writeSignedShort v s = write_data (le_bytes 2 v) s"

definition writeUnsignedInt :: "32 word \<Rightarrow> binary_stream \<Rightarrow> binary_stream" where
  "writeUnsignedInt v s = write_data (le_bytes 4 v) s"

definition writeSignedBigEndianInt :: "32 word \<Rightarrow> binary_stream \<Rightarrow> binary_stream" where
  "writeSignedBigEndianInt v s = write_data (be_bytes 4 v) s"

definition writeSignedInt :: "32 word \<Rightarrow> binary_stream \<Rightarrow> binary_stream" where
  "writeSignedInt v s = write_data (le_bytes 4 v) s"

definition writeUnsignedInt64 :: "64 word \<Rightarrow> binary_stream \<Rightarrow> binary_stream" where
  "writeUnsignedInt64 v s = write_data (le_bytes 8 v) s"

definition writeSignedInt64 :: "64 word \<Rightarrow> binary_stream \<Rightarrow> binary_stream" where
  "writeSignedInt64 v s = write_data (le_bytes 8 v) s"

definition writeDouble :: "64 word \<Rightarrow> binary_stream \<Rightarrow> binary_stream" where
  "writeDouble v s = write_data (le_bytes 8 v) s"

definition writeFloat :: "32 word \<Rightarrow> binary_stream \<Rightarrow> binary_stream" where
  "writeFloat v s = write_data (le_bytes 4 v) s"

lemma drop_bit_7_less:
  assumes "drop_bit 7 (v :: 'a::len word) \<noteq> 0"
  shows "unat (drop_bit 7 v) < unat v"
proof -
  have "unat v \<noteq> 0" using assms by (metis drop_bit_of_0 unat_eq_zero)
  then show ?thesis by (simp add: unat_drop_bit_word)
qed

function var_uint_loop :: "'a::len word \<Rightarrow> binary_stream \<Rightarrow> binary_stream" where
  "var_uint_loop v s =
     (let b = ucast (v AND 0x7F) :: byte;
          v' = drop_bit 7 v;
          s' = (if v' \<noteq> 0 then writeByte (b OR 0x80) s else writeByte b s)
      in if v' \<noteq> 0 then var_uint_loop v' s' else s')"
  by pat_completeness auto
termination
  by (relation "measure (\<lambda>(v, s). unat v)") (auto simp: drop_bit_7_less)

declare var_uint_loop.simps [simp del]

definition writeUnsignedVarInt :: "32 word \<Rightarrow> binary_stream \<Rightarrow> binary_stream" where
  "writeUnsignedVarInt v s = var_uint_loop v s"

definition writeUnsignedVarInt64 :: "64 word \<Rightarrow> binary_stream \<Rightarrow> binary_stream" where
  "writeUnsignedVarInt64 v s = var_uint_loop v s"

definition writeVarInt :: "32 word \<Rightarrow> binary_stream \<Rightarrow> binary_stream" where
  "writeVarInt v s = writeUnsignedVarInt (signed_drop_bit 31 v XOR push_bit 1 v) s"

definition writeVarInt64 :: "64 word \<Rightarrow> binary_stream \<Rightarrow> binary_stream" where
  "writeVarInt64 v s = writeUnsignedVarInt64 (signed_drop_bit 63 v XOR push_bit 1 v) s"

definition writeString :: "bytes \<Rightarrow> binary_stream \<Rightarrow> binary_stream" where
  "writeString v s = write_data v (writeUnsignedVarInt (of_nat (length v)) s)"

definition writeIf ::
  "bool \<Rightarrow> (binary_stream \<Rightarrow> binary_stream) \<Rightarrow> (binary_stream \<Rightarrow> binary_stream) option
   \<Rightarrow> binary_stream \<Rightarrow> binary_stream" where
  "writeIf control_value write_if_true write_if_false s =
     (if control_value then write_if_true s
      else case write_if_false of Some f \<Rightarrow> f s | None \<Rightarrow> s)"

fun writeConditional ::
  "(bool \<times> (binary_stream \<Rightarrow> binary_stream)) list \<Rightarrow> (binary_stream \<Rightarrow> binary_stream) option
   \<Rightarrow> binary_stream \<Rightarrow> binary_stream" where
  "writeConditional [] write_default s = (case write_default of Some f \<Rightarrow> f s | None \<Rightarrow> s)"
| "writeConditional ((control_value, write_condition) # conditions) write_default s =
     (if control_value then write_condition s else writeConditional conditions write_default s)"

definition writeArray ::
  "(binary_stream \<Rightarrow> binary_stream) \<Rightarrow> (binary_stream \<Rightarrow> binary_stream) \<Rightarrow> binary_stream \<Rightarrow> binary_stream"
where
  "writeArray size_writer writer s = writer (size_writer s)"

definition writeVectorList ::
  "('a \<Rightarrow> binary_stream \<Rightarrow> binary_stream) \<Rightarrow> 'a list \<Rightarrow> binary_stream \<Rightarrow> binary_stream" where
  "writeVectorList serialize xs s =
     writeArray (writeUnsignedVarInt (of_nat (length xs))) (fold serialize xs) s"

definition writeRawBytes :: "bytes \<Rightarrow> binary_stream \<Rightarrow> binary_stream" where
  "writeRawBytes span s = write_data span s"

text \<open>
  \<open>writeStream\<close> appends the unread part of another stream. \<open>substr\<close> throws
  \<open>std::out_of_range\<close> when the read pointer lies beyond the view (\<open>None\<close>); unlike every other
  writer it goes past \<open>write\<close> (\<open>write_data\<close> here), and \<open>view_\<close> keeps its old value.
\<close>

definition writeStream :: "binary_stream \<Rightarrow> binary_stream \<Rightarrow> binary_stream option" where
  "writeStream stream s =
     (if unat (read_pointer stream) > length (view stream) then None
      else Some (s\<lparr>owned_buffer := owned_buffer s @
        take (unat (getUnreadLength stream)) (drop (unat (read_pointer stream)) (view stream))\<rparr>))"


subsection \<open>What the writer appends\<close>

text \<open>The encoding as a list, least significant group of seven bits first.\<close>

function varint_bytes :: "'a::len word \<Rightarrow> bytes" where
  "varint_bytes v =
     (let b = ucast (v AND 0x7F) :: byte; v' = drop_bit 7 v
      in if v' \<noteq> 0 then (b OR 0x80) # varint_bytes v' else [b])"
  by pat_completeness auto
termination
  by (relation "measure unat") (auto simp: drop_bit_7_less)

declare varint_bytes.simps [simp del]

definition unread :: "binary_stream \<Rightarrow> bytes" where
  "unread s = drop (unat (read_pointer s)) (view s)"

lemma write_data_eq:
  "write_data d s = s\<lparr>owned_buffer := owned_buffer s @ d, view := owned_buffer s @ d\<rparr>"
  by (simp add: write_data_def Let_def)

lemma write_data_write_data: "write_data d' (write_data d s) = write_data (d @ d') s"
  by (simp add: write_data_eq)

lemma writeByte_eq: "writeByte b s = write_data [b] s"
  by (simp add: writeByte_def numeral_eq_Suc)

lemma var_uint_loop_eq: "var_uint_loop v s = write_data (varint_bytes v) s"
proof (induction v s rule: var_uint_loop.induct)
  case (1 v s)
  then show ?case
    by (simp add: var_uint_loop.simps [of v] varint_bytes.simps [of v] Let_def writeByte_eq
        write_data_write_data)
qed

lemmas stream_writes =
  writeBool_def writeSignedByte_def writeUnsignedChar_def writeUnsignedShort_def
  writeSignedShort_def writeUnsignedInt_def writeSignedBigEndianInt_def writeSignedInt_def
  writeUnsignedInt64_def writeSignedInt64_def writeDouble_def writeFloat_def
  writeUnsignedVarInt_def writeUnsignedVarInt64_def writeVarInt_def writeVarInt64_def
  writeString_def writeRawBytes_def writeByte_eq var_uint_loop_eq write_data_write_data

lemma drop_7_eq_0: "drop_bit 7 (v :: 'a::len word) = 0 \<longleftrightarrow> unat v < 128"
proof -
  have "drop_bit 7 v = 0 \<longleftrightarrow> unat (drop_bit 7 v) = 0" by (simp only: unat_eq_zero)
  also have "\<dots> \<longleftrightarrow> unat v < 128" by (simp add: unat_drop_bit_word div_eq_0_iff)
  finally show ?thesis .
qed

lemma length_varint_bytes_le:
  "unat v < 128 ^ n \<Longrightarrow> 0 < n \<Longrightarrow> length (varint_bytes v) \<le> n"
proof (induction v arbitrary: n rule: varint_bytes.induct)
  case (1 v)
  show ?case
  proof (cases "drop_bit 7 v = 0")
    case True
    with "1.prems" show ?thesis by (simp add: varint_bytes.simps [of v] Let_def)
  next
    case False
    then have "128 \<le> unat v" by (simp add: drop_7_eq_0)
    then have "n \<noteq> 1" using "1.prems" by auto
    then obtain m where n: "n = Suc m" and m: "0 < m"
      using "1.prems"(2) by (metis One_nat_def gr0_conv_Suc neq0_conv)
    have "unat (drop_bit 7 v) < 128 ^ m"
      using "1.prems" n by (simp add: unat_drop_bit_word less_mult_imp_div_less mult.commute)
    with "1.IH" False m have "length (varint_bytes (drop_bit 7 v)) \<le> m" by simp
    with False n show ?thesis by (simp add: varint_bytes.simps [of v] Let_def)
  qed
qed


lemma length_varint_bytes_gt: "128 ^ n \<le> unat v \<Longrightarrow> n < length (varint_bytes v)"
proof (induction v arbitrary: n rule: varint_bytes.induct)
  case (1 v)
  show ?case
  proof (cases n)
    case 0
    then show ?thesis by (simp add: varint_bytes.simps [of v] Let_def)
  next
    case (Suc m)
    then have "128 ^ m \<le> unat (drop_bit 7 v)"
      using "1.prems" by (simp add: unat_drop_bit_word less_eq_div_iff_mult_less_eq mult.commute)
    moreover from this have "drop_bit 7 v \<noteq> 0"
      by (metis le_zero_eq power_not_zero unat_0 zero_neq_numeral)
    ultimately show ?thesis
      using "1.IH" Suc by (simp add: varint_bytes.simps [of v] Let_def)
  qed
qed

lemma varint_bytes_nonempty: "varint_bytes v \<noteq> []"
  by (simp add: varint_bytes.simps [of v] Let_def)

lemma length_varint_32: "length (varint_bytes (v :: 32 word)) \<le> 5"
proof -
  have "unat v < 2 ^ 32" using unat_lt2p [of v] by simp
  then show ?thesis by (intro length_varint_bytes_le) auto
qed

subsection \<open>Reading\<close>

lemma read_check:
  fixes p num :: "64 word"
  assumes "n < 2 ^ 64"
  shows "(p + num < p \<or> n < unat (p + num)) \<longleftrightarrow> n < unat p + unat num"
proof (cases "unat p + unat num < 2 ^ 64")
  case True
  then have "unat (p + num) = unat p + unat num" by (intro word_add_unat) simp
  then show ?thesis by (simp add: word_less_nat_alt)
next
  case False
  then have "unat (p + num) = unat p + unat num - 2 ^ 64"
    using unat_lt2p [of p] unat_lt2p [of num] by (simp add: unat_word_ariths mod_if)
  then have "p + num < p"
    using False unat_lt2p [of num] by (simp add: word_less_nat_alt)
  then show ?thesis using False assms by simp
qed

lemma getByte_unread:
  assumes "\<not> has_overflowed s" "unread s = b # bs" "length (view s) < 2 ^ 64"
  shows "getByte s = (Inr b, s\<lparr>read_pointer := read_pointer s + 1\<rparr>)"
    and "unread (s\<lparr>read_pointer := read_pointer s + 1\<rparr>) = bs"
proof -
  let ?p = "read_pointer s"
  have lt: "unat ?p < length (view s)" using assms(2) by (auto simp: unread_def intro: ccontr)
  then have p1: "unat (?p + 1) = unat ?p + 1"
    using assms(3) by (intro trans [OF word_add_unat]) auto
  have chk: "\<not> (?p + 1 < ?p \<or> length (view s) < unat (?p + 1))"
    using lt read_check [OF assms(3), of ?p 1] by simp
  have "take 1 (drop (unat ?p) (view s)) = [b]" using assms(2) by (simp add: unread_def)
  with chk assms(1) show "getByte s = (Inr b, s\<lparr>read_pointer := ?p + 1\<rparr>)"
    by (simp add: getByte_def read_def Let_def)
  have "drop (Suc (unat ?p)) (view s) = tl (drop (unat ?p) (view s))"
    by (simp add: drop_Suc drop_tl)
  then show "unread (s\<lparr>read_pointer := ?p + 1\<rparr>) = bs"
    using assms(2) p1 by (simp add: unread_def)
qed

lemma read_unread:
  assumes "\<not> has_overflowed s" "unread s = d @ bs" "length (view s) < 2 ^ 64"
  shows "read (of_nat (length d)) s
           = (Inr d, s\<lparr>read_pointer := read_pointer s + of_nat (length d)\<rparr>)"
proof -
  let ?p = "read_pointer s"
  have len: "length (view s) - unat ?p = length d + length bs"
    using assms(2) by (metis unread_def length_append length_drop)
  then have "length d < 2 ^ 64" using assms(3) by simp
  then have ud: "unat (of_nat (length d) :: 64 word) = length d"
    by (simp add: unat_of_nat take_bit_eq_mod)
  have "d \<noteq> [] \<Longrightarrow> \<not> (?p + of_nat (length d) < ?p \<or> length (view s) < unat (?p + of_nat (length d)))"
    using read_check [OF assms(3), of ?p "of_nat (length d)"] len ud by (cases d) auto
  then show ?thesis
    using assms(1,2) ud by (cases "d = []") (auto simp: read_def Let_def unread_def)
qed


text \<open>One more group of seven bits: what the loop still has to add is the rest of the value.\<close>

text \<open>The simplifier reads the bits of a word numeral off the integer numeral.\<close>

lemma bit_0x7F: "bit (0x7F :: int) n \<longleftrightarrow> n < 7"
proof -
  have "(0x7F :: int) = mask 7" by (simp add: mask_eq_exp_minus_1)
  then show ?thesis by (simp only: bit_mask_iff) simp
qed

lemma bit_0x80: "bit (0x80 :: int) n \<longleftrightarrow> n = 7"
proof -
  have "(0x80 :: int) = 2 ^ 7" by simp
  then show ?thesis by (simp only: bit_exp_iff) auto
qed

lemma varint_group:
  fixes w acc :: "'a::len word"
  shows "(acc OR push_bit i (w AND 0x7F)) OR push_bit (i + 7) (drop_bit 7 w) = acc OR push_bit i w"
proof (rule bit_word_eqI)
  fix n
  assume n: "n < LENGTH('a)"
  have "7 + (n - (i + 7)) = n - i" if "i + 7 \<le> n" using that by simp
  then show "bit ((acc OR push_bit i (w AND 0x7F)) OR push_bit (i + 7) (drop_bit 7 w)) n
      \<longleftrightarrow> bit (acc OR push_bit i w) n"
    using n by (cases "i + 7 \<le> n") (auto simp: bit_simps bit_0x7F)
qed

lemma low_byte_bits:
  fixes w :: "'a::len word"
  shows "ucast ((ucast (w AND 0x7F) :: byte) AND 0x7F) = w AND 0x7F"
    and "ucast (((ucast (w AND 0x7F) :: byte) OR 0x80) AND 0x7F) = w AND 0x7F"
    and "(ucast (w AND 0x7F) :: byte) AND 0x80 = 0"
    and "((ucast (w AND 0x7F) :: byte) OR 0x80) AND 0x80 \<noteq> 0"
proof -
  show "ucast ((ucast (w AND 0x7F) :: byte) AND 0x7F) = w AND 0x7F"
    "ucast (((ucast (w AND 0x7F) :: byte) OR 0x80) AND 0x7F) = w AND 0x7F"
    "(ucast (w AND 0x7F) :: byte) AND 0x80 = 0"
    by (rule bit_word_eqI; auto simp: bit_simps bit_0x7F bit_0x80)+
  have "bit (((ucast (w AND 0x7F) :: byte) OR 0x80) AND 0x80) 7"
    by (simp add: bit_simps bit_0x80)
  then show "((ucast (w AND 0x7F) :: byte) OR 0x80) AND 0x80 \<noteq> 0"
    by fastforce
qed

lemma getUnsignedVarInt_loop_varint:
  assumes "\<not> has_overflowed s" "length (view s) < 2 ^ 64" "i < 32"
    and "unread s = varint_bytes w @ rest" "unat w < 2 ^ (32 - i)"
  shows "getUnsignedVarInt_loop acc i s
    = (Inr (acc OR push_bit i w),
       s\<lparr>read_pointer := read_pointer s + of_nat (length (varint_bytes w))\<rparr>)"
  using assms
proof (induction w arbitrary: acc i s rule: varint_bytes.induct)
  case (1 w)
  let ?s' = "s\<lparr>read_pointer := read_pointer s + 1\<rparr>"
  show ?case
  proof (cases "drop_bit 7 w = 0")
    case True
    let ?b = "ucast (w AND 0x7F) :: byte"
    from True have vb: "varint_bytes w = [?b]" by (simp add: varint_bytes.simps [of w] Let_def)
    note gb = getByte_unread [OF "1.prems"(1) _ "1.prems"(2), of ?b rest]
    have "acc OR push_bit i (w AND 0x7F) = acc OR push_bit i w"
      using varint_group [of acc i w] True by simp
    then show ?thesis
      using gb(1) "1.prems"(3,4) vb
      by (simp add: getUnsignedVarInt_loop.simps [of acc] low_byte_bits Let_def)
  next
    case False
    let ?b = "(ucast (w AND 0x7F) :: byte) OR 0x80"
    from False have vb: "varint_bytes w = ?b # varint_bytes (drop_bit 7 w)"
      by (simp add: varint_bytes.simps [of w] Let_def)
    note gb = getByte_unread [OF "1.prems"(1) _ "1.prems"(2), of ?b "varint_bytes (drop_bit 7 w) @ rest"]
    from False have "128 \<le> unat w" by (simp add: drop_7_eq_0)
    with "1.prems"(5) have "2 ^ 7 < (2::nat) ^ (32 - i)" by simp
    then have "7 < 32 - i" by (rule power_less_imp_less_exp [rotated]) simp
    then have i7: "i + 7 < 32" by simp
    then have "32 - i = (32 - (i + 7)) + 7" by simp
    then have "(2::nat) ^ (32 - i) = 2 ^ (32 - (i + 7)) * 128"
      by (simp only: power_add) simp
    with "1.prems"(5) have "unat (drop_bit 7 w) < 2 ^ (32 - (i + 7))"
      by (simp add: unat_drop_bit_word less_mult_imp_div_less)
    then have "getUnsignedVarInt_loop (acc OR push_bit i (w AND 0x7F)) (i + 7) ?s'
      = (Inr ((acc OR push_bit i (w AND 0x7F)) OR push_bit (i + 7) (drop_bit 7 w)),
         ?s'\<lparr>read_pointer := read_pointer ?s' + of_nat (length (varint_bytes (drop_bit 7 w)))\<rparr>)"
      using False i7 gb(2) "1.prems" vb by (intro "1.IH" [OF refl refl]) simp_all
    then have "getUnsignedVarInt_loop (acc OR push_bit i (w AND 0x7F)) (i + 7) ?s'
      = (Inr (acc OR push_bit i w),
         s\<lparr>read_pointer := read_pointer s + of_nat (length (varint_bytes w))\<rparr>)"
      unfolding varint_group using vb by (simp add: algebra_simps)
    then show ?thesis
      using gb(1) "1.prems"(3,4) vb
      by (simp add: getUnsignedVarInt_loop.simps [of acc] low_byte_bits Let_def
          del: push_bit_and)
  qed
qed


subsection \<open>Zigzag: signed values as small unsigned ones\<close>

lemma signed_drop_bit_top:
  fixes v :: "'a::len word"
  shows "signed_drop_bit (LENGTH('a) - 1) v = (if sint v < 0 then - 1 else 0)"
proof -
  have "sint v < 0 \<longleftrightarrow> bit v (LENGTH('a) - 1)"
    by (simp add: bit_last_iff)
  then show ?thesis
    by (cases "LENGTH('a)")
      (auto intro!: bit_word_eqI simp: bit_simps not_le le_Suc_eq split: if_splits)
qed

lemma zigzag_word:
  fixes v :: "'a::len word"
  shows "signed_drop_bit (LENGTH('a) - 1) v XOR push_bit 1 v
    = word_of_int (if sint v < 0 then - 2 * sint v - 1 else 2 * sint v)"
proof -
  have v: "word_of_int (2 * sint v) = push_bit 1 v"
    by (simp add: push_bit_eq_mult mult.commute)
  have "- 1 XOR push_bit 1 v = NOT (push_bit 1 v)"
    by (rule bit_word_eqI) (simp add: bit_simps)
  also have "\<dots> = - word_of_int (2 * sint v) - 1"
    unfolding v by (rule not_eq_complement)
  also have "\<dots> = word_of_int (- 2 * sint v - 1)"
    by simp
  finally show ?thesis
    by (cases "sint v < 0") (simp_all only: signed_drop_bit_top v if_True if_False xor.left_neutral)
qed

lemma unat_zigzag:
  fixes v :: "'a::len word"
  shows "unat (signed_drop_bit (LENGTH('a) - 1) v XOR push_bit 1 v)
    = nat (if sint v < 0 then - 2 * sint v - 1 else 2 * sint v)"
proof -
  let ?k = "if sint v < 0 then - 2 * sint v - 1 else 2 * sint v"
  have e: "(2::int) ^ LENGTH('a) = 2 * 2 ^ (LENGTH('a) - 1)"
    by (metis len_gt_0 power_minus_mult mult.commute)
  have "- (2 ^ (LENGTH('a) - 1)) \<le> sint v" "sint v < 2 ^ (LENGTH('a) - 1)"
    using sint_range_size [of v] by (simp_all add: word_size)
  then have "0 \<le> ?k" "?k < 2 ^ LENGTH('a)" unfolding e by auto
  then have "uint (word_of_int ?k :: 'a word) = ?k"
    by (simp only: uint_word_of_int mod_pos_pos_trivial)
  then show ?thesis unfolding zigzag_word unat_eq_nat_uint by simp
qed

subsection \<open>Over-long encodings and the stale view\<close>

lemma continuation_prefix:
  assumes "\<not> has_overflowed s" "length (view s) < 2 ^ 64" "unread s = bs @ rest"
    and "\<forall>b \<in> set bs. b AND 0x80 \<noteq> 0" "i + 7 * length bs < 39"
  shows "\<exists>acc'. getUnsignedVarInt_loop acc i s = getUnsignedVarInt_loop acc' (i + 7 * length bs)
      (s\<lparr>read_pointer := read_pointer s + of_nat (length bs)\<rparr>)
    \<and> unread (s\<lparr>read_pointer := read_pointer s + of_nat (length bs)\<rparr>) = rest"
  using assms
proof (induction bs arbitrary: acc i s)
  case Nil
  then show ?case by auto
next
  case (Cons b bs)
  let ?s' = "s\<lparr>read_pointer := read_pointer s + 1\<rparr>"
  note gb = getByte_unread [OF Cons.prems(1) _ Cons.prems(2), of b "bs @ rest"]
  have step: "getUnsignedVarInt_loop acc i s
      = getUnsignedVarInt_loop (acc OR push_bit i (ucast (b AND 0x7F))) (i + 7) ?s'"
    using gb(1) Cons.prems(3-5)
    by (subst getUnsignedVarInt_loop.simps) (simp add: Let_def del: push_bit_and)
  have "unread ?s' = bs @ rest" using gb(2) Cons.prems(3) by simp
  from Cons.IH [of ?s' "i + 7" "acc OR push_bit i (ucast (b AND 0x7F))", OF _ _ this]
  show ?case using Cons.prems unfolding step by (simp add: algebra_simps)
qed

text \<open>The append that skips \<open>view_\<close>: afterwards the view misses the bytes just written.\<close>

lemma writeStream_view:
  assumes "writeStream stream s = Some t"
  shows "getView t = getView s"
    and "unread stream \<noteq> [] \<Longrightarrow> length (view stream) < 2 ^ 64 \<Longrightarrow> getBuffer t \<noteq> getBuffer s"
proof -
  show "getView t = getView s"
    using assms by (auto simp: writeStream_def getView_def split: if_splits)
  assume ne: "unread stream \<noteq> []" and len: "length (view stream) < 2 ^ 64"
  let ?n = "length (view stream)" and ?p = "read_pointer stream"
  have lt: "unat ?p < ?n" using ne by (simp add: unread_def)
  then have "unat (of_nat ?n - ?p) = ?n - unat ?p"
    using len by (subst unat_sub) (auto simp: word_le_nat_alt unat_of_nat take_bit_eq_mod)
  then show "getBuffer t \<noteq> getBuffer s"
    using assms lt by (auto simp: writeStream_def getBuffer_def getUnreadLength_def split: if_splits)
qed

subsection \<open>Properties\<close>

text \<open>C6: A value written with \<open>writeUnsignedVarInt\<close> at the end of a stream is read back by
  \<open>getUnsignedVarInt\<close>, which leaves the read pointer right after it.\<close>

theorem varint_roundtrip:
  assumes "\<not> has_overflowed s" "unat (read_pointer s) = length (owned_buffer s)"
    and "length (owned_buffer s) + 5 < 2 ^ 64"
  shows "getUnsignedVarInt (writeUnsignedVarInt v s)
    = (Inr v, (writeUnsignedVarInt v s)
        \<lparr>read_pointer := of_nat (length (getBuffer (writeUnsignedVarInt v s)))\<rparr>)"
proof -
  let ?t = "write_data (varint_bytes v) s"
  have u: "unread ?t = varint_bytes v @ []"
    using assms(2) by (simp add: unread_def write_data_eq)
  have len: "length (view ?t) < 2 ^ 64"
    using assms(3) length_varint_32 [of v] by (simp add: write_data_eq)
  have rp: "read_pointer s = of_nat (length (owned_buffer s))"
    by (simp flip: assms(2))
  have "getUnsignedVarInt_loop 0 0 ?t
    = (Inr (0 OR push_bit 0 v), ?t\<lparr>read_pointer := read_pointer ?t + of_nat (length (varint_bytes v))\<rparr>)"
    using assms(1) len u unat_lt2p [of v]
    by (intro getUnsignedVarInt_loop_varint) (simp_all add: write_data_eq)
  then show ?thesis
    by (simp add: getUnsignedVarInt_def writeUnsignedVarInt_def var_uint_loop_eq write_data_eq
        getBuffer_def rp)
qed

theorem varint_roundtrip_witness:
  "getUnsignedVarInt (writeUnsignedVarInt 300 BinaryStream)
    = (Inr 300, (writeUnsignedVarInt 300 BinaryStream)
        \<lparr>read_pointer := of_nat (length (getBuffer (writeUnsignedVarInt 300 BinaryStream)))\<rparr>)"
  by (rule varint_roundtrip) (simp_all add: BinaryStream_def)

text \<open>C7: A bounds-checked read either returns exactly the requested bytes at the read pointer and
  advances it by their number, staying inside the view, or fails, sets the overflow flag and changes
  nothing else; it fails exactly when the flag is already set or a non-empty read would leave the
  view, wrap-around of the 64-bit sum included.\<close>

theorem read_safe:
  assumes "length (view s) < 2 ^ 64"
  shows "read num s =
    (if \<not> has_overflowed s \<and> (num = 0 \<or> unat (read_pointer s) + unat num \<le> length (view s))
     then (Inr (take (unat num) (unread s)), s\<lparr>read_pointer := read_pointer s + num\<rparr>)
     else (Inl Invalid_Seek, s\<lparr>has_overflowed := True\<rparr>))"
  using read_check [OF assms, of "read_pointer s" num]
  by (auto simp: read_def Let_def unread_def not_le)

theorem read_safe_witness:
  "read 2 (ReadOnlyBinaryStream [1, 2, 3] True)
    = (Inr [1, 2], (ReadOnlyBinaryStream [1, 2, 3] True)\<lparr>read_pointer := 2\<rparr>)"
  by (subst read_safe) (simp_all add: ReadOnlyBinaryStream_def unread_def)

text \<open>The signed encodings are zigzag: a non-negative \<open>k\<close> travels as \<open>2k\<close> and a negative one
  as \<open>-2k - 1\<close>, in both widths, so distinct values have distinct encodings and small magnitudes
  stay short.\<close>

theorem writeVarInt_zigzag:
  "writeVarInt v s = writeUnsignedVarInt
     (of_nat (nat (if sint v < 0 then - 2 * sint v - 1 else 2 * sint v))) s
   \<and> writeVarInt64 w s = writeUnsignedVarInt64
     (of_nat (nat (if sint w < 0 then - 2 * sint w - 1 else 2 * sint w))) s"
proof -
  have "signed_drop_bit 31 v XOR push_bit 1 v
      = of_nat (nat (if sint v < 0 then - 2 * sint v - 1 else 2 * sint v))"
    using unat_zigzag [of v, symmetric] by simp
  moreover have "signed_drop_bit 63 w XOR push_bit 1 w
      = of_nat (nat (if sint w < 0 then - 2 * sint w - 1 else 2 * sint w))"
    using unat_zigzag [of w, symmetric] by simp
  ultimately show ?thesis by (simp add: writeVarInt_def writeVarInt64_def)
qed


text \<open>\<open>getUnsignedVarInt\<close> puts no bound on the number of groups: six bytes of which the first
  five have the continuation bit make it shift by 35, which C++ leaves undefined.\<close>

theorem varint_unbounded_shift:
  assumes "\<not> has_overflowed s" "length (view s) < 2 ^ 64" "unread s = bs @ b # rest"
    and "length bs = 5" "\<forall>x \<in> set bs. x AND 0x80 \<noteq> 0"
  shows "fst (getUnsignedVarInt s) = Inl Undefined_Shift"
proof -
  let ?t = "s\<lparr>read_pointer := read_pointer s + 5\<rparr>"
  obtain acc where g: "getUnsignedVarInt s = getUnsignedVarInt_loop acc 35 ?t"
    and u: "unread ?t = b # rest"
    using continuation_prefix [OF assms(1-3,5), of 0 0] assms(4)
    by (auto simp: getUnsignedVarInt_def)
  have "getByte ?t = (Inr b, ?t\<lparr>read_pointer := read_pointer ?t + 1\<rparr>)"
    using assms(1,2) by (intro getByte_unread(1) [OF _ u]) simp_all
  then show ?thesis unfolding g by (subst getUnsignedVarInt_loop.simps) simp
qed

theorem varint_unbounded_shift_witness:
  "fst (getUnsignedVarInt (ReadOnlyBinaryStream [0xFF, 0xFF, 0xFF, 0xFF, 0xFF, 0] True))
    = Inl Undefined_Shift"
  by (rule varint_unbounded_shift [where bs = "[0xFF, 0xFF, 0xFF, 0xFF, 0xFF]" and b = 0])
    (simp_all add: ReadOnlyBinaryStream_def unread_def)

end
