(* ===== verification/Data_Io.thy ===== *)
theory Data_Io
  imports Prelude
begin

text \<open>
  The serialisation interfaces of \<open>src/bedrock/util/data_io.{h,cpp}\<close> and the two outputs of
  \<open>string_byte_output.{h,cpp}\<close>. An \<open>IDataOutput\<close> is a table of its virtual functions, each
  mapping the buffer to the buffer after the call; \<open>BytesDataOutput\<close> is built from the overriding
  functions it calls back. The \<open>IDataInput\<close> implementations are not part of the sources (they live
  in the game binary), so a table of readers over a state of any type is a parameter, and
  \<open>data_channel\<close> states what a reader that matches an output does. \<open>float\<close> and \<open>double\<close> are bit
  patterns.
\<close>

subsection \<open>Outputs\<close>

record data_output =
  out_string :: "bytes \<Rightarrow> bytes \<Rightarrow> bytes"
  out_long_string :: "bytes \<Rightarrow> bytes \<Rightarrow> bytes"
  out_float :: "32 word \<Rightarrow> bytes \<Rightarrow> bytes"
  out_double :: "64 word \<Rightarrow> bytes \<Rightarrow> bytes"
  out_byte :: "byte \<Rightarrow> bytes \<Rightarrow> bytes"
  out_short :: "16 word \<Rightarrow> bytes \<Rightarrow> bytes"
  out_int :: "32 word \<Rightarrow> bytes \<Rightarrow> bytes"
  out_long_long :: "64 word \<Rightarrow> bytes \<Rightarrow> bytes"
  out_bytes :: "bytes \<Rightarrow> bytes \<Rightarrow> bytes"

definition writeBytes :: "bytes \<Rightarrow> bytes \<Rightarrow> bytes" where
  "writeBytes data buffer = buffer @ data"

text \<open>\<open>BytesDataOutput::writeString\<close> and \<open>writeLongString\<close> call the virtual \<open>writeShort\<close>,
  \<open>writeInt\<close> and \<open>writeBytes\<close>.\<close>

definition bytes_writeString ::
  "(16 word \<Rightarrow> bytes \<Rightarrow> bytes) \<Rightarrow> (bytes \<Rightarrow> bytes \<Rightarrow> bytes) \<Rightarrow> bytes \<Rightarrow> bytes \<Rightarrow> bytes" where
  "bytes_writeString write_short write_bytes v buffer =
     (let n = (of_nat (length v) :: 64 word) AND 0x7FFF
      in write_bytes (take (unat n) v) (write_short (ucast n) buffer))"

definition bytes_writeLongString ::
  "(32 word \<Rightarrow> bytes \<Rightarrow> bytes) \<Rightarrow> (bytes \<Rightarrow> bytes \<Rightarrow> bytes) \<Rightarrow> bytes \<Rightarrow> bytes \<Rightarrow> bytes" where
  "bytes_writeLongString write_int write_bytes v buffer =
     write_bytes v (write_int (of_nat (length v)) buffer)"

definition bytes_writeFloat :: "32 word \<Rightarrow> bytes \<Rightarrow> bytes" where
  "bytes_writeFloat v = writeBytes (le_bytes 4 v)"

definition bytes_writeDouble :: "64 word \<Rightarrow> bytes \<Rightarrow> bytes" where
  "bytes_writeDouble v = writeBytes (le_bytes 8 v)"

definition bytes_writeByte :: "byte \<Rightarrow> bytes \<Rightarrow> bytes" where
  "bytes_writeByte v = writeBytes (le_bytes 1 v)"

definition bytes_writeShort :: "16 word \<Rightarrow> bytes \<Rightarrow> bytes" where
  "bytes_writeShort v = writeBytes (le_bytes 2 v)"

definition bytes_writeInt :: "32 word \<Rightarrow> bytes \<Rightarrow> bytes" where
  "bytes_writeInt v = writeBytes (le_bytes 4 v)"

definition bytes_writeLongLong :: "64 word \<Rightarrow> bytes \<Rightarrow> bytes" where
  "bytes_writeLongLong v = writeBytes (le_bytes 8 v)"

definition StringByteOutput :: data_output where
  "StringByteOutput =
     \<lparr>out_string = bytes_writeString bytes_writeShort writeBytes,
      out_long_string = bytes_writeLongString bytes_writeInt writeBytes,
      out_float = bytes_writeFloat, out_double = bytes_writeDouble, out_byte = bytes_writeByte,
      out_short = bytes_writeShort, out_int = bytes_writeInt, out_long_long = bytes_writeLongLong,
      out_bytes = writeBytes\<rparr>"

text \<open>The big-endian output writes byte by byte, the most significant first.\<close>

definition be_writeFloat :: "32 word \<Rightarrow> bytes \<Rightarrow> bytes" where
  "be_writeFloat p b = bytes_writeByte (ucast (p AND 0xff))
     (bytes_writeByte (ucast (drop_bit 8 p AND 0xff))
     (bytes_writeByte (ucast (drop_bit 16 p AND 0xff))
     (bytes_writeByte (ucast (drop_bit 24 p AND 0xff)) b)))"

definition be_writeDouble :: "64 word \<Rightarrow> bytes \<Rightarrow> bytes" where
  "be_writeDouble p b = bytes_writeByte (ucast (p AND 0xff))
     (bytes_writeByte (ucast (drop_bit 8 p AND 0xff))
     (bytes_writeByte (ucast (drop_bit 16 p AND 0xff))
     (bytes_writeByte (ucast (drop_bit 24 p AND 0xff))
     (bytes_writeByte (ucast (drop_bit 32 p AND 0xff))
     (bytes_writeByte (ucast (drop_bit 40 p AND 0xff))
     (bytes_writeByte (ucast (drop_bit 48 p AND 0xff))
     (bytes_writeByte (ucast (drop_bit 56 p AND 0xff)) b)))))))"

text \<open>\<open>v >> n\<close> on a signed value is the arithmetic shift.\<close>

definition be_writeShort :: "16 word \<Rightarrow> bytes \<Rightarrow> bytes" where
  "be_writeShort v b = bytes_writeByte (ucast (v AND 0xff))
     (bytes_writeByte (ucast (signed_drop_bit 8 v AND 0xff)) b)"

definition be_writeInt :: "32 word \<Rightarrow> bytes \<Rightarrow> bytes" where
  "be_writeInt v b = bytes_writeByte (ucast (v AND 0xff))
     (bytes_writeByte (ucast (signed_drop_bit 8 v AND 0xff))
     (bytes_writeByte (ucast (signed_drop_bit 16 v AND 0xff))
     (bytes_writeByte (ucast (signed_drop_bit 24 v AND 0xff)) b)))"

definition be_writeLongLong :: "64 word \<Rightarrow> bytes \<Rightarrow> bytes" where
  "be_writeLongLong v b = bytes_writeByte (ucast (v AND 0xff))
     (bytes_writeByte (ucast (signed_drop_bit 8 v AND 0xff))
     (bytes_writeByte (ucast (signed_drop_bit 16 v AND 0xff))
     (bytes_writeByte (ucast (signed_drop_bit 24 v AND 0xff))
     (bytes_writeByte (ucast (signed_drop_bit 32 v AND 0xff))
     (bytes_writeByte (ucast (signed_drop_bit 40 v AND 0xff))
     (bytes_writeByte (ucast (signed_drop_bit 48 v AND 0xff))
     (bytes_writeByte (ucast (signed_drop_bit 56 v AND 0xff)) b)))))))"

definition BigEndianStringByteOutput :: data_output where
  "BigEndianStringByteOutput =
     \<lparr>out_string = bytes_writeString be_writeShort writeBytes,
      out_long_string = bytes_writeLongString be_writeInt writeBytes,
      out_float = be_writeFloat, out_double = be_writeDouble, out_byte = bytes_writeByte,
      out_short = be_writeShort, out_int = be_writeInt, out_long_long = be_writeLongLong,
      out_bytes = writeBytes\<rparr>"

lemma bytes_writeByte_eq: "bytes_writeByte v b = b @ [v]"
  by (simp add: bytes_writeByte_def writeBytes_def numeral_eq_Suc)

lemma and_ff_byte: "(ucast (w AND 0xff) :: byte) = ucast (w :: 'a::len word)"
proof (rule bit_word_eqI)
  fix n
  assume n: "n < LENGTH(8)"
  have "(0xff :: int) = mask 8" by (simp add: mask_eq_exp_minus_1)
  then have "bit (0xff :: int) n" using n by (simp only: bit_mask_iff) simp
  then show "bit (ucast (w AND 0xff) :: byte) n \<longleftrightarrow> bit (ucast w :: byte) n"
    using n by (auto simp: bit_simps dest: bit_imp_le_length)
qed

lemma signed_drop_byte:
  "m + 8 \<le> LENGTH('a) \<Longrightarrow> (ucast (signed_drop_bit m (w :: 'a::len word)) :: byte) = ucast (drop_bit m w)"
  by (rule bit_word_eqI) (auto simp: bit_simps)

lemma be_write_eq:
  "be_writeFloat p b = b @ be_bytes 4 p"
  "be_writeDouble q b = b @ be_bytes 8 q"
  "be_writeShort v b = b @ be_bytes 2 v"
  "be_writeInt i b = b @ be_bytes 4 i"
  "be_writeLongLong l b = b @ be_bytes 8 l"
  by (simp_all add: be_writeFloat_def be_writeDouble_def be_writeShort_def be_writeInt_def
      be_writeLongLong_def bytes_writeByte_eq be_bytes_def and_ff_byte signed_drop_byte
      le_bytes_numeral)


subsection \<open>Inputs\<close>

datatype errc = Bad_Message | Read_Error

text \<open>\<open>in_bytes n\<close> is \<open>readBytesResult(target, n)\<close>: the error, if any, and what the target holds
  afterwards.\<close>

record 's data_input =
  in_string :: "'s \<Rightarrow> (errc + bytes) \<times> 's"
  in_float :: "'s \<Rightarrow> (errc + 32 word) \<times> 's"
  in_double :: "'s \<Rightarrow> (errc + 64 word) \<times> 's"
  in_byte :: "'s \<Rightarrow> (errc + byte) \<times> 's"
  in_short :: "'s \<Rightarrow> (errc + 16 word) \<times> 's"
  in_int :: "'s \<Rightarrow> (errc + 32 word) \<times> 's"
  in_long_long :: "'s \<Rightarrow> (errc + 64 word) \<times> 's"
  in_bytes :: "nat \<Rightarrow> 's \<Rightarrow> (errc option \<times> bytes) \<times> 's"
  bytes_left :: "'s \<Rightarrow> nat"

text \<open>
  A reader that matches an output: what the output appended can be read off the front of what is
  left, and \<open>numBytesLeft\<close> counts it. \<open>writeString\<close> masks the length with \<open>0x7fff\<close>, so the
  law for strings is for the shorter ones.
\<close>

text \<open>What one call of a write function appends to an empty buffer.\<close>

definition emit :: "('v \<Rightarrow> bytes \<Rightarrow> bytes) \<Rightarrow> 'v \<Rightarrow> bytes" where
  "emit w v = w v []"

locale data_channel =
  fixes out :: data_output
    and inp :: "'s data_input"
    and left :: "'s \<Rightarrow> bytes"
  assumes out_append:
      "out_string out v b = b @ emit (out_string out) v"
      "out_float out f b = b @ emit (out_float out) f"
      "out_double out d b = b @ emit (out_double out) d"
      "out_byte out y b = b @ emit (out_byte out) y"
      "out_short out h b = b @ emit (out_short out) h"
      "out_int out i b = b @ emit (out_int out) i"
      "out_long_long out l b = b @ emit (out_long_long out) l"
      "out_bytes out v b = b @ v"
    and out_byte_nonempty: "emit (out_byte out) y \<noteq> []"
    and bytes_left: "bytes_left inp s = length (left s)"
    and in_string: "left s = emit (out_string out) v @ r \<Longrightarrow> length v < 2 ^ 15 \<Longrightarrow>
      \<exists>s'. in_string inp s = (Inr v, s') \<and> left s' = r"
    and in_float: "left s = emit (out_float out) f @ r \<Longrightarrow> \<exists>s'. in_float inp s = (Inr f, s') \<and> left s' = r"
    and in_double: "left s = emit (out_double out) d @ r \<Longrightarrow> \<exists>s'. in_double inp s = (Inr d, s') \<and> left s' = r"
    and in_byte: "left s = emit (out_byte out) y @ r \<Longrightarrow> \<exists>s'. in_byte inp s = (Inr y, s') \<and> left s' = r"
    and in_short: "left s = emit (out_short out) h @ r \<Longrightarrow> \<exists>s'. in_short inp s = (Inr h, s') \<and> left s' = r"
    and in_int: "left s = emit (out_int out) i @ r \<Longrightarrow> \<exists>s'. in_int inp s = (Inr i, s') \<and> left s' = r"
    and in_long_long: "left s = emit (out_long_long out) l @ r \<Longrightarrow>
      \<exists>s'. in_long_long inp s = (Inr l, s') \<and> left s' = r"
    and in_bytes: "left s = v @ r \<Longrightarrow>
      \<exists>s'. in_bytes inp (length v) s = ((None, v), s') \<and> left s' = r"

subsection \<open>Both outputs have a matching reader\<close>

text \<open>The reader over the bytes still to come; \<open>ord\<close> turns the bytes of an integer into
  little-endian order.\<close>

definition word_reader :: "(bytes \<Rightarrow> bytes) \<Rightarrow> nat \<Rightarrow> bytes \<Rightarrow> (errc + 'a::len word) \<times> bytes" where
  "word_reader ord n s =
     (if length s < n then (Inl Read_Error, s)
      else (Inr (of_nat (le_nat (ord (take n s)))), drop n s))"

definition bytes_reader :: "nat \<Rightarrow> bytes \<Rightarrow> (errc option \<times> bytes) \<times> bytes" where
  "bytes_reader n s =
     (if length s < n then ((Some Read_Error, replicate n 0), s) else ((None, take n s), drop n s))"

definition string_reader :: "(bytes \<Rightarrow> bytes) \<Rightarrow> bytes \<Rightarrow> (errc + bytes) \<times> bytes" where
  "string_reader ord s = (case (word_reader ord 2 s :: (errc + 16 word) \<times> bytes) of
       (Inl e, s') \<Rightarrow> (Inl e, s')
     | (Inr n, s') \<Rightarrow> (case bytes_reader (unat n) s' of
           ((Some e, _), s'') \<Rightarrow> (Inl e, s'')
         | ((None, v), s'') \<Rightarrow> (Inr v, s'')))"

definition input_of :: "(bytes \<Rightarrow> bytes) \<Rightarrow> bytes data_input" where
  "input_of ord =
     \<lparr>in_string = string_reader ord, in_float = word_reader ord 4, in_double = word_reader ord 8,
      in_byte = word_reader ord 1, in_short = word_reader ord 2, in_int = word_reader ord 4,
      in_long_long = word_reader ord 8, in_bytes = bytes_reader, bytes_left = length\<rparr>"

lemma word_reader_le:
  "LENGTH('a) \<le> 8 * n \<Longrightarrow> word_reader id n (le_bytes n (w :: 'a::len word) @ r) = (Inr w, r)"
  by (simp add: word_reader_def le_nat_word)

lemma word_reader_be:
  "LENGTH('a) \<le> 8 * n \<Longrightarrow> word_reader rev n (be_bytes n (w :: 'a::len word) @ r) = (Inr w, r)"
  by (simp add: word_reader_def be_bytes_def le_nat_word)

lemma word_reader_byte:
  "word_reader id (Suc 0) ((y :: byte) # r) = (Inr y, r)"
  "word_reader rev (Suc 0) ((y :: byte) # r) = (Inr y, r)"
  by (simp_all add: word_reader_def)

lemma bytes_reader_append: "bytes_reader (length v) (v @ r) = ((None, v), r)"
  by (simp add: bytes_reader_def)

lemma string_length_mask:
  assumes "length v < 2 ^ 15"
  shows "(of_nat (length v) :: 64 word) AND 0x7FFF = of_nat (length v)"
    and "unat (of_nat (length v) :: 64 word) = length v"
    and "unat (ucast (of_nat (length v) :: 64 word) :: 16 word) = length v"
proof -
  have "(0x7FFF :: 64 word) = mask 15" by (simp add: mask_eq_exp_minus_1)
  then have "(of_nat (length v) :: 64 word) AND 0x7FFF = take_bit 15 (of_nat (length v))"
    by (simp only: take_bit_eq_mask)
  also have "\<dots> = of_nat (take_bit 15 (length v))"
    by (rule bit_word_eqI) (auto simp: bit_simps)
  finally show "(of_nat (length v) :: 64 word) AND 0x7FFF = of_nat (length v)"
    using assms by (simp add: take_bit_nat_eq_self)
  show u: "unat (of_nat (length v) :: 64 word) = length v"
    using assms by (simp add: unat_of_nat take_bit_nat_eq_self)
  show "unat (ucast (of_nat (length v) :: 64 word) :: 16 word) = length v"
    using assms by (simp add: unsigned_ucast_eq take_bit_nat_eq_self unat_of_nat)
qed

lemma bytes_writeString_short:
  "length v < 2 ^ 15 \<Longrightarrow> bytes_writeString ws writeBytes v b
     = ws (ucast (of_nat (length v) :: 64 word)) b @ v"
  by (simp add: bytes_writeString_def Let_def string_length_mask writeBytes_def)

lemmas bytes_writes = bytes_writeFloat_def bytes_writeDouble_def bytes_writeByte_def
  bytes_writeShort_def bytes_writeInt_def bytes_writeLongLong_def writeBytes_def

interpretation le_channel: data_channel StringByteOutput "input_of id" "\<lambda>s. s"
proof
  show "\<exists>s'. in_string (input_of id) s = (Inr v, s') \<and> s' = r"
    if "s = emit (out_string StringByteOutput) v @ r" "length v < 2 ^ 15" for s v r
    using that word_reader_le [where n = 2 and 'a = 16]
    by (simp add: emit_def input_of_def StringByteOutput_def bytes_writeString_short string_reader_def
        bytes_writeShort_def writeBytes_def string_length_mask bytes_reader_append)
qed (simp_all add: emit_def input_of_def StringByteOutput_def bytes_writes bytes_writeString_def Let_def
      word_reader_le word_reader_byte bytes_reader_append)

interpretation be_channel: data_channel BigEndianStringByteOutput "input_of rev" "\<lambda>s. s"
proof
  show "\<exists>s'. in_string (input_of rev) s = (Inr v, s') \<and> s' = r"
    if "s = emit (out_string BigEndianStringByteOutput) v @ r" "length v < 2 ^ 15" for s v r
    using that word_reader_be [where n = 2 and 'a = 16]
    by (simp add: emit_def input_of_def BigEndianStringByteOutput_def bytes_writeString_short string_reader_def
        be_write_eq string_length_mask bytes_reader_append)
qed (simp_all add: emit_def input_of_def BigEndianStringByteOutput_def be_write_eq bytes_writeByte_eq
      bytes_writeString_def Let_def writeBytes_def word_reader_be bytes_reader_append
      word_reader_byte)

end
