(* ===== verification/Nbt.thy ===== *)
theory Nbt
  imports Data_Io
begin

text \<open>
  The game's named binary tags (\<open>src/bedrock/nbt\<close>): the tag classes as a datatype, their \<open>write\<close>
  and \<open>load\<close> methods, \<open>NbtIo\<close>, and the operations of \<open>CompoundTag\<close> and \<open>ListTag\<close>. A compound's
  \<open>TagMap\<close> is an ordered map over byte-string keys. \<open>load\<close> is a method of a freshly created tag and
  returns the tag as it is left, the error of its \<open>Result\<close>, which every caller drops, and the input
  state; \<open>reserve\<close> with a negative count converted to \<open>size_t\<close> throws \<open>std::length_error\<close>.
\<close>

subsection \<open>Tags\<close>

datatype tag =
    End_Tag
  | Byte_Tag byte
  | Short_Tag "16 word"
  | Int_Tag "32 word"
  | Int64_Tag "64 word"
  | Float_Tag "32 word"
  | Double_Tag "64 word"
  | ByteArray_Tag bytes
  | String_Tag bytes
  | List_Tag byte "tag list"
  | Compound_Tag "(bytes \<times> tag) list"
  | IntArray_Tag "32 word list"

type_synonym tag_map = "(bytes \<times> tag) list"

text \<open>\<open>Tag::Type\<close>, an enumeration over \<open>uint8_t\<close> that any byte is cast to.\<close>

abbreviation "Type_End \<equiv> (0 :: byte)"
abbreviation "Type_Byte \<equiv> (1 :: byte)"
abbreviation "Type_Short \<equiv> (2 :: byte)"
abbreviation "Type_Int \<equiv> (3 :: byte)"
abbreviation "Type_Int64 \<equiv> (4 :: byte)"
abbreviation "Type_Float \<equiv> (5 :: byte)"
abbreviation "Type_Double \<equiv> (6 :: byte)"
abbreviation "Type_ByteArray \<equiv> (7 :: byte)"
abbreviation "Type_String \<equiv> (8 :: byte)"
abbreviation "Type_List \<equiv> (9 :: byte)"
abbreviation "Type_Compound \<equiv> (10 :: byte)"
abbreviation "Type_IntArray \<equiv> (11 :: byte)"
abbreviation "NumTagTypes \<equiv> (12 :: byte)"

fun getId :: "tag \<Rightarrow> byte" where
  "getId End_Tag = Type_End"
| "getId (Byte_Tag _) = Type_Byte"
| "getId (Short_Tag _) = Type_Short"
| "getId (Int_Tag _) = Type_Int"
| "getId (Int64_Tag _) = Type_Int64"
| "getId (Float_Tag _) = Type_Float"
| "getId (Double_Tag _) = Type_Double"
| "getId (ByteArray_Tag _) = Type_ByteArray"
| "getId (String_Tag _) = Type_String"
| "getId (List_Tag _ _) = Type_List"
| "getId (Compound_Tag _) = Type_Compound"
| "getId (IntArray_Tag _) = Type_IntArray"

definition newTag :: "byte \<Rightarrow> errc + tag" where
  "newTag ty =
     (if ty = Type_End then Inr End_Tag
      else if ty = Type_Byte then Inr (Byte_Tag 0)
      else if ty = Type_Short then Inr (Short_Tag 0)
      else if ty = Type_Int then Inr (Int_Tag 0)
      else if ty = Type_Int64 then Inr (Int64_Tag 0)
      else if ty = Type_Float then Inr (Float_Tag 0)
      else if ty = Type_Double then Inr (Double_Tag 0)
      else if ty = Type_ByteArray then Inr (ByteArray_Tag [])
      else if ty = Type_String then Inr (String_Tag [])
      else if ty = Type_List then Inr (List_Tag Type_End [])
      else if ty = Type_Compound then Inr (Compound_Tag [])
      else if ty = Type_IntArray then Inr (IntArray_Tag [])
      else Inl Bad_Message)"

definition getTagName :: "byte \<Rightarrow> string" where
  "getTagName ty =
     (if ty = Type_End then ''TAG_End''
      else if ty = Type_Byte then ''TAG_Byte''
      else if ty = Type_Short then ''TAG_Short''
      else if ty = Type_Int then ''TAG_Int''
      else if ty = Type_Int64 then ''TAG_Long''
      else if ty = Type_Float then ''TAG_Float''
      else if ty = Type_Double then ''TAG_Double''
      else if ty = Type_ByteArray then ''TAG_Byte_Array''
      else if ty = Type_String then ''TAG_String''
      else if ty = Type_List then ''TAG_List''
      else if ty = Type_Compound then ''TAG_Compound''
      else if ty = Type_IntArray then ''TAG_Int_Array''
      else ''UNKNOWN'')"

subsection \<open>Writing\<close>

fun write_tag :: "data_output \<Rightarrow> tag \<Rightarrow> bytes \<Rightarrow> bytes"
  and writeNamedTag :: "data_output \<Rightarrow> bytes \<Rightarrow> tag \<Rightarrow> bytes \<Rightarrow> bytes" where
  "write_tag out End_Tag b = b"
| "write_tag out (Byte_Tag d) b = out_byte out d b"
| "write_tag out (Short_Tag d) b = out_short out d b"
| "write_tag out (Int_Tag d) b = out_int out d b"
| "write_tag out (Int64_Tag d) b = out_long_long out d b"
| "write_tag out (Float_Tag d) b = out_float out d b"
| "write_tag out (Double_Tag d) b = out_double out d b"
| "write_tag out (ByteArray_Tag d) b = out_bytes out d (out_int out (of_nat (length d)) b)"
| "write_tag out (String_Tag d) b = out_string out d b"
| "write_tag out (List_Tag ty xs) b =
     fold (\<lambda>x. write_tag out x) xs (out_int out (of_nat (length xs)) (out_byte out ty b))"
| "write_tag out (Compound_Tag ts) b =
     out_byte out Type_End (fold (\<lambda>e. writeNamedTag out (fst e) (snd e)) ts b)"
| "write_tag out (IntArray_Tag d) b = fold (out_int out) d (out_int out (of_nat (length d)) b)"
| "writeNamedTag out name t b =
     (let b' = out_byte out (getId t) b
      in if getId t \<noteq> Type_End then write_tag out t (out_string out name b') else b')"


subsection \<open>Loading\<close>

text \<open>The outcome of a load: the fuel ran out, \<open>std::length_error\<close> was thrown, or it returned.\<close>

datatype 'a run = No_Fuel | Length_Error | Done 'a

definition load_scalar ::
  "('s \<Rightarrow> (errc + 'v) \<times> 's) \<Rightarrow> ('v \<Rightarrow> tag) \<Rightarrow> tag \<Rightarrow> 's \<Rightarrow> (tag \<times> errc option \<times> 's) run" where
  "load_scalar rd mk t s = (case rd s of
       (Inr v, s') \<Rightarrow> Done (mk v, None, s')
     | (Inl e, s') \<Rightarrow> Done (t, Some e, s'))"

definition load_byte_array :: "'s data_input \<Rightarrow> tag \<Rightarrow> 's \<Rightarrow> (tag \<times> errc option \<times> 's) run" where
  "load_byte_array inp t s = (case in_int inp s of
       (Inl e, s') \<Rightarrow> Done (t, Some e, s')
     | (Inr cnt, s') \<Rightarrow>
         if unat (scast cnt :: 64 word) > bytes_left inp s' then Done (t, Some Bad_Message, s')
         else (case in_bytes inp (unat cnt) s' of
             ((err, d), s'') \<Rightarrow> Done (ByteArray_Tag d, err, s'')))"

fun load_ints ::
  "'s data_input \<Rightarrow> nat \<Rightarrow> 32 word list \<Rightarrow> 's \<Rightarrow> 32 word list \<times> errc option \<times> 's" where
  "load_ints inp 0 d s = (d, None, s)"
| "load_ints inp (Suc n) d s = (case in_int inp s of
       (Inl e, s') \<Rightarrow> (d, Some e, s')
     | (Inr v, s') \<Rightarrow> load_ints inp n (d @ [v]) s')"

definition load_int_array :: "'s data_input \<Rightarrow> tag \<Rightarrow> 's \<Rightarrow> (tag \<times> errc option \<times> 's) run" where
  "load_int_array inp t s = (case in_int inp s of
       (Inl e, s') \<Rightarrow> Done (t, Some e, s')
     | (Inr cnt, s') \<Rightarrow>
         if sint cnt < 0 then Length_Error
         else (case load_ints inp (nat (sint cnt)) [] s' of
             (d, err, s'') \<Rightarrow> Done (IntArray_Tag d, err, s'')))"

text \<open>
  \<open>load\<close>, the loop of \<open>ListTag::load\<close> over the elements still to read, the loop of
  \<open>CompoundTag::load\<close>, and \<open>NbtIo::readNamedTag\<close> with its out-parameter \<open>name\<close>. The fuel
  bounds the nesting depth together with the number of entries of a compound.
\<close>

function (sequential) load :: "'s data_input \<Rightarrow> nat \<Rightarrow> tag \<Rightarrow> 's \<Rightarrow> (tag \<times> errc option \<times> 's) run"
  and load_list :: "'s data_input \<Rightarrow> nat \<Rightarrow> nat \<Rightarrow> byte \<Rightarrow> tag list \<Rightarrow> 's
    \<Rightarrow> (tag list \<times> errc option \<times> 's) run"
  and load_entries :: "'s data_input \<Rightarrow> nat \<Rightarrow> tag_map \<Rightarrow> 's \<Rightarrow> (tag_map \<times> errc option \<times> 's) run"
  and readNamedTag :: "'s data_input \<Rightarrow> nat \<Rightarrow> 's \<Rightarrow> bytes \<Rightarrow> ((errc + tag) \<times> bytes \<times> 's) run"
where
  "load inp 0 t s = No_Fuel"
| "load inp (Suc f) End_Tag s = Done (End_Tag, None, s)"
| "load inp (Suc f) (Byte_Tag d) s = load_scalar (in_byte inp) Byte_Tag (Byte_Tag d) s"
| "load inp (Suc f) (Short_Tag d) s = load_scalar (in_short inp) Short_Tag (Short_Tag d) s"
| "load inp (Suc f) (Int_Tag d) s = load_scalar (in_int inp) Int_Tag (Int_Tag d) s"
| "load inp (Suc f) (Int64_Tag d) s = load_scalar (in_long_long inp) Int64_Tag (Int64_Tag d) s"
| "load inp (Suc f) (Float_Tag d) s = load_scalar (in_float inp) Float_Tag (Float_Tag d) s"
| "load inp (Suc f) (Double_Tag d) s = load_scalar (in_double inp) Double_Tag (Double_Tag d) s"
| "load inp (Suc f) (ByteArray_Tag d) s = load_byte_array inp (ByteArray_Tag d) s"
| "load inp (Suc f) (String_Tag d) s = load_scalar (in_string inp) String_Tag (String_Tag d) s"
| "load inp (Suc f) (List_Tag ty xs) s = (case in_byte inp s of
       (Inl e, s1) \<Rightarrow> Done (List_Tag ty xs, Some e, s1)
     | (Inr ty', s1) \<Rightarrow>
         if ty' \<ge> NumTagTypes then Done (List_Tag ty' xs, Some Bad_Message, s1)
         else (case in_int inp s1 of
             (Inl e, s2) \<Rightarrow> Done (List_Tag ty' xs, Some e, s2)
           | (Inr cnt, s2) \<Rightarrow>
               if cnt = 0 \<or> ty' = Type_End then Done (List_Tag ty' [], Some Bad_Message, s2)
               else if sint cnt < 0 then Length_Error
               else (case load_list inp f (nat (sint cnt)) ty' [] s2 of
                   No_Fuel \<Rightarrow> No_Fuel
                 | Length_Error \<Rightarrow> Length_Error
                 | Done (ys, err, s3) \<Rightarrow> Done (List_Tag ty' ys, err, s3))))"
| "load inp (Suc f) (Compound_Tag ts) s = (case load_entries inp f [] s of
       No_Fuel \<Rightarrow> No_Fuel
     | Length_Error \<Rightarrow> Length_Error
     | Done (ts', err, s') \<Rightarrow> Done (Compound_Tag ts', err, s'))"
| "load inp (Suc f) (IntArray_Tag d) s = load_int_array inp (IntArray_Tag d) s"
| "load_list inp f 0 ty acc s = Done (acc, None, s)"
| "load_list inp f (Suc n) ty acc s = (case newTag ty of
       Inl e \<Rightarrow> Done (acc, Some e, s)
     | Inr t \<Rightarrow> (case load inp f t s of
           No_Fuel \<Rightarrow> No_Fuel
         | Length_Error \<Rightarrow> Length_Error
         | Done (t', _, s') \<Rightarrow> load_list inp f n ty (acc @ [t']) s'))"
| "load_entries inp 0 ts s = No_Fuel"
| "load_entries inp (Suc f) ts s =
     (if bytes_left inp s = 0 then Done (ts, None, s)
      else (case readNamedTag inp f s [] of
          No_Fuel \<Rightarrow> No_Fuel
        | Length_Error \<Rightarrow> Length_Error
        | Done (Inl e, _, s') \<Rightarrow> Done (ts, Some e, s')
        | Done (Inr t, name, s') \<Rightarrow>
            if getId t = Type_End then Done (ts, None, s')
            else load_entries inp f (omap_put name t ts) s'))"
| "readNamedTag inp f s name = (case in_byte inp s of
       (Inl e, s1) \<Rightarrow> Done (Inl e, name, s1)
     | (Inr ty, s1) \<Rightarrow>
         if ty = Type_End then Done (Inr End_Tag, name, s1)
         else (case in_string inp s1 of
             (Inl e, s2) \<Rightarrow> Done (Inl e, name, s2)
           | (Inr name', s2) \<Rightarrow> (case newTag ty of
                 Inl e \<Rightarrow> Done (Inl e, name', s2)
               | Inr t \<Rightarrow> (case load inp f t s2 of
                     No_Fuel \<Rightarrow> No_Fuel
                   | Length_Error \<Rightarrow> Length_Error
                   | Done (t', _, s3) \<Rightarrow> Done (Inr t', name', s3)))))"
  by pat_completeness auto
termination
  by (relation "measures [
      case_sum (case_sum (\<lambda>(_, f, _, _). f) (\<lambda>(_, f, _, _, _, _). f))
               (case_sum (\<lambda>(_, f, _, _). f) (\<lambda>(_, f, _, _). f)),
      case_sum (case_sum (\<lambda>_. 0) (\<lambda>(_, _, n, _, _, _). Suc n)) (case_sum (\<lambda>_. 0) (\<lambda>_. 1))]") auto

declare load.simps(1) [simp] readNamedTag.simps [simp del]

definition readNamedCompoundTag ::
  "'s data_input \<Rightarrow> nat \<Rightarrow> 's \<Rightarrow> bytes \<Rightarrow> ((errc + tag) \<times> bytes \<times> 's) run" where
  "readNamedCompoundTag inp f s name = (case in_byte inp s of
       (Inl e, s1) \<Rightarrow> Done (Inl e, name, s1)
     | (Inr ty, s1) \<Rightarrow>
         if ty \<noteq> Type_Compound then Done (Inl Bad_Message, name, s1)
         else (case in_string inp s1 of
             (Inl e, s2) \<Rightarrow> Done (Inl e, name, s2)
           | (Inr name', s2) \<Rightarrow> (case load inp f (Compound_Tag []) s2 of
                 No_Fuel \<Rightarrow> No_Fuel
               | Length_Error \<Rightarrow> Length_Error
               | Done (t', _, s3) \<Rightarrow> Done (Inr t', name', s3))))"

definition readOrGetEmpty :: "'s data_input \<Rightarrow> nat \<Rightarrow> 's \<Rightarrow> tag run" where
  "readOrGetEmpty inp f s = (case readNamedCompoundTag inp f s [] of
       No_Fuel \<Rightarrow> No_Fuel
     | Length_Error \<Rightarrow> Length_Error
     | Done (Inl _, _, _) \<Rightarrow> Done (Compound_Tag [])
     | Done (Inr t, _, _) \<Rightarrow> Done t)"


subsection \<open>Operations of \<open>CompoundTag\<close>\<close>

definition compound_put :: "bytes \<Rightarrow> tag \<Rightarrow> tag_map \<Rightarrow> tag_map" where
  "compound_put name t tags = omap_put name t tags"

text \<open>\<open>put(name, unique_ptr)\<close> ignores a null pointer.\<close>

definition compound_put_ptr :: "bytes \<Rightarrow> tag option \<Rightarrow> tag_map \<Rightarrow> tag_map" where
  "compound_put_ptr name t tags = (case t of None \<Rightarrow> tags | Some t \<Rightarrow> omap_put name t tags)"

definition putByte :: "bytes \<Rightarrow> byte \<Rightarrow> tag_map \<Rightarrow> tag_map" where
  "putByte name v tags = omap_put name (Byte_Tag v) tags"

definition putShort :: "bytes \<Rightarrow> 16 word \<Rightarrow> tag_map \<Rightarrow> tag_map" where
  "putShort name v tags = omap_put name (Short_Tag v) tags"

definition putInt :: "bytes \<Rightarrow> 32 word \<Rightarrow> tag_map \<Rightarrow> tag_map" where
  "putInt name v tags = omap_put name (Int_Tag v) tags"

definition putInt64 :: "bytes \<Rightarrow> 64 word \<Rightarrow> tag_map \<Rightarrow> tag_map" where
  "putInt64 name v tags = omap_put name (Int64_Tag v) tags"

definition putFloat :: "bytes \<Rightarrow> 32 word \<Rightarrow> tag_map \<Rightarrow> tag_map" where
  "putFloat name v tags = omap_put name (Float_Tag v) tags"

definition putDouble :: "bytes \<Rightarrow> 64 word \<Rightarrow> tag_map \<Rightarrow> tag_map" where
  "putDouble name v tags = omap_put name (Double_Tag v) tags"

definition putString :: "bytes \<Rightarrow> bytes \<Rightarrow> tag_map \<Rightarrow> tag_map" where
  "putString name v tags = omap_put name (String_Tag v) tags"

definition putCompound :: "bytes \<Rightarrow> tag_map \<Rightarrow> tag_map \<Rightarrow> tag_map" where
  "putCompound name v tags = omap_put name (Compound_Tag v) tags"

definition putBoolean :: "bytes \<Rightarrow> bool \<Rightarrow> tag_map \<Rightarrow> tag_map" where
  "putBoolean name v tags = omap_put name (Byte_Tag (if v then 1 else 0)) tags"

definition compound_get :: "tag_map \<Rightarrow> bytes \<Rightarrow> tag option" where
  "compound_get tags key = map_of tags key"

definition getByteTag :: "tag_map \<Rightarrow> bytes \<Rightarrow> byte option" where
  "getByteTag tags key = (case compound_get tags key of Some (Byte_Tag d) \<Rightarrow> Some d | _ \<Rightarrow> None)"

definition getShortTag :: "tag_map \<Rightarrow> bytes \<Rightarrow> 16 word option" where
  "getShortTag tags key = (case compound_get tags key of Some (Short_Tag d) \<Rightarrow> Some d | _ \<Rightarrow> None)"

definition getIntTag :: "tag_map \<Rightarrow> bytes \<Rightarrow> 32 word option" where
  "getIntTag tags key = (case compound_get tags key of Some (Int_Tag d) \<Rightarrow> Some d | _ \<Rightarrow> None)"

definition getInt64Tag :: "tag_map \<Rightarrow> bytes \<Rightarrow> 64 word option" where
  "getInt64Tag tags key = (case compound_get tags key of Some (Int64_Tag d) \<Rightarrow> Some d | _ \<Rightarrow> None)"

definition getByteValue :: "tag_map \<Rightarrow> bytes \<Rightarrow> byte" where
  "getByteValue tags key = (case getByteTag tags key of Some d \<Rightarrow> d | None \<Rightarrow> 0)"

definition getShortValue :: "tag_map \<Rightarrow> bytes \<Rightarrow> 16 word" where
  "getShortValue tags key = (case getShortTag tags key of Some d \<Rightarrow> d | None \<Rightarrow> 0)"

definition getIntValue :: "tag_map \<Rightarrow> bytes \<Rightarrow> 32 word" where
  "getIntValue tags key = (case getIntTag tags key of Some d \<Rightarrow> d | None \<Rightarrow> 0)"

definition getInt64Value :: "tag_map \<Rightarrow> bytes \<Rightarrow> 64 word" where
  "getInt64Value tags key = (case getInt64Tag tags key of Some d \<Rightarrow> d | None \<Rightarrow> 0)"

definition getStringValue :: "tag_map \<Rightarrow> bytes \<Rightarrow> bytes" where
  "getStringValue tags key = (case compound_get tags key of Some (String_Tag d) \<Rightarrow> d | _ \<Rightarrow> [])"

definition getCompound :: "tag_map \<Rightarrow> bytes \<Rightarrow> tag_map option" where
  "getCompound tags key = (case compound_get tags key of Some (Compound_Tag ts) \<Rightarrow> Some ts | _ \<Rightarrow> None)"

definition getList :: "tag_map \<Rightarrow> bytes \<Rightarrow> (byte \<times> tag list) option" where
  "getList tags key = (case compound_get tags key of Some (List_Tag ty xs) \<Rightarrow> Some (ty, xs) | _ \<Rightarrow> None)"

definition getBoolean :: "tag_map \<Rightarrow> bytes \<Rightarrow> bool" where
  "getBoolean tags key \<longleftrightarrow> getByteValue tags key \<noteq> 0"

definition compound_contains :: "tag_map \<Rightarrow> bytes \<Rightarrow> bool" where
  "compound_contains tags key \<longleftrightarrow> compound_get tags key \<noteq> None"

definition compound_contains_type :: "tag_map \<Rightarrow> bytes \<Rightarrow> byte \<Rightarrow> bool" where
  "compound_contains_type tags key ty =
     (case compound_get tags key of Some t \<Rightarrow> getId t = ty | None \<Rightarrow> False)"

definition compound_isEmpty :: "tag_map \<Rightarrow> bool" where
  "compound_isEmpty tags \<longleftrightarrow> tags = []"

definition compound_size :: "tag_map \<Rightarrow> nat" where
  "compound_size tags = length tags"

definition compound_remove :: "bytes \<Rightarrow> tag_map \<Rightarrow> bool \<times> tag_map" where
  "compound_remove name tags = (case map_of tags name of
       None \<Rightarrow> (False, tags)
     | Some _ \<Rightarrow> (True, omap_del name tags))"

text \<open>Copies are made node by node; \<open>deepCopy\<close> rebuilds the map key by key.\<close>

fun copy_tag :: "tag \<Rightarrow> tag" where
  "copy_tag (List_Tag ty xs) = List_Tag ty (map copy_tag xs)"
| "copy_tag (Compound_Tag ts) =
     Compound_Tag (fold (\<lambda>e. omap_put (fst e) (copy_tag (snd e))) ts [])"
| "copy_tag t = t"

text \<open>Equality of floats is the comparison of IEEE values, not of bit patterns.\<close>

definition float_eq :: "32 word \<Rightarrow> 32 word \<Rightarrow> bool" where
  "float_eq a b \<longleftrightarrow> (let mag = (\<lambda>x. x AND 0x7FFFFFFF) in
     mag a \<le> 0x7F800000 \<and> mag b \<le> 0x7F800000 \<and> (a = b \<or> mag a = 0 \<and> mag b = 0))"

definition double_eq :: "64 word \<Rightarrow> 64 word \<Rightarrow> bool" where
  "double_eq a b \<longleftrightarrow> (let mag = (\<lambda>x. x AND 0x7FFFFFFFFFFFFFFF) in
     mag a \<le> 0x7FF0000000000000 \<and> mag b \<le> 0x7FF0000000000000 \<and> (a = b \<or> mag a = 0 \<and> mag b = 0))"

lemma size_zip_fst: "p \<in> set (zip xs ys) \<Longrightarrow> size (fst p) < Suc (size_list size xs)"
proof -
  assume "p \<in> set (zip xs ys)"
  then have "fst p \<in> set xs" by (metis in_set_zipE prod.collapse)
  then have "size (fst p) \<le> size_list size xs" by (rule size_list_estimation') simp
  then show ?thesis by simp
qed

lemma size_entry: "e \<in> set ts \<Longrightarrow> size (snd e) < Suc (size_list (size_prod (\<lambda>_. 0) size) ts)"
proof -
  assume "e \<in> set ts"
  then have "size (snd e) \<le> size_list (size_prod (\<lambda>_. 0) size) ts"
    by (rule size_list_estimation') (cases e; simp)
  then show ?thesis by simp
qed

text \<open>Every override of \<open>equals\<close> first compares the ids, then casts.\<close>

function tag_equals :: "tag \<Rightarrow> tag \<Rightarrow> bool" where
  "tag_equals End_Tag u = (getId u = Type_End)"
| "tag_equals (Byte_Tag a) u = (case u of Byte_Tag b \<Rightarrow> a = b | _ \<Rightarrow> False)"
| "tag_equals (Short_Tag a) u = (case u of Short_Tag b \<Rightarrow> a = b | _ \<Rightarrow> False)"
| "tag_equals (Int_Tag a) u = (case u of Int_Tag b \<Rightarrow> a = b | _ \<Rightarrow> False)"
| "tag_equals (Int64_Tag a) u = (case u of Int64_Tag b \<Rightarrow> a = b | _ \<Rightarrow> False)"
| "tag_equals (Float_Tag a) u = (case u of Float_Tag b \<Rightarrow> float_eq a b | _ \<Rightarrow> False)"
| "tag_equals (Double_Tag a) u = (case u of Double_Tag b \<Rightarrow> double_eq a b | _ \<Rightarrow> False)"
| "tag_equals (ByteArray_Tag a) u = (case u of ByteArray_Tag b \<Rightarrow> a = b | _ \<Rightarrow> False)"
| "tag_equals (String_Tag a) u = (case u of String_Tag b \<Rightarrow> a = b | _ \<Rightarrow> False)"
| "tag_equals (IntArray_Tag a) u = (case u of IntArray_Tag b \<Rightarrow> a = b | _ \<Rightarrow> False)"
| "tag_equals (List_Tag ta xs) u = (case u of
       List_Tag tb ys \<Rightarrow> ta = tb \<and> length xs = length ys
         \<and> list_all (\<lambda>p. tag_equals (fst p) (snd p)) (zip xs ys)
     | _ \<Rightarrow> False)"
| "tag_equals (Compound_Tag xs) u = (case u of
       Compound_Tag ys \<Rightarrow> list_all (\<lambda>e. case compound_get ys (fst e) of
           None \<Rightarrow> False | Some t \<Rightarrow> tag_equals (snd e) t) xs
     | _ \<Rightarrow> False)"
  by pat_completeness auto
termination
  by (relation "measure (\<lambda>p. size (fst p))") (simp_all add: size_zip_fst size_entry)

subsection \<open>Operations of \<open>ListTag\<close>\<close>

type_synonym list_tag = "byte \<times> tag list"

definition list_add :: "tag \<Rightarrow> list_tag \<Rightarrow> list_tag" where
  "list_add t l = (getId t, snd l @ [t])"

text \<open>The index is an \<open>int\<close>; the comparison with \<open>size()\<close> is made after it was found not negative.\<close>

definition list_get :: "list_tag \<Rightarrow> int \<Rightarrow> tag option" where
  "list_get l i = (if i < 0 \<or> i \<ge> int (length (snd l)) then None else Some (snd l ! nat i))"

definition list_getInt :: "list_tag \<Rightarrow> int \<Rightarrow> 32 word" where
  "list_getInt l i = (case list_get l i of Some (Int_Tag d) \<Rightarrow> d | _ \<Rightarrow> 0)"

definition list_getFloat :: "list_tag \<Rightarrow> int \<Rightarrow> 32 word" where
  "list_getFloat l i = (case list_get l i of Some (Float_Tag d) \<Rightarrow> d | _ \<Rightarrow> 0)"

definition list_getDouble :: "list_tag \<Rightarrow> int \<Rightarrow> 64 word" where
  "list_getDouble l i = (case list_get l i of Some (Double_Tag d) \<Rightarrow> d | _ \<Rightarrow> 0)"

definition list_getString :: "list_tag \<Rightarrow> int \<Rightarrow> bytes" where
  "list_getString l i = (case list_get l i of Some (String_Tag d) \<Rightarrow> d | _ \<Rightarrow> [])"

definition list_getInt64 :: "list_tag \<Rightarrow> int \<Rightarrow> 64 word" where
  "list_getInt64 l i = (case list_get l i of Some (Int64_Tag d) \<Rightarrow> d | _ \<Rightarrow> 0)"

definition list_getShort :: "list_tag \<Rightarrow> int \<Rightarrow> 16 word" where
  "list_getShort l i = (case list_get l i of Some (Short_Tag d) \<Rightarrow> d | _ \<Rightarrow> 0)"

definition list_getByte :: "list_tag \<Rightarrow> int \<Rightarrow> byte" where
  "list_getByte l i = (case list_get l i of Some (Byte_Tag d) \<Rightarrow> d | _ \<Rightarrow> 0)"

definition list_getCompound :: "list_tag \<Rightarrow> int \<Rightarrow> tag_map option" where
  "list_getCompound l i = (case list_get l i of Some (Compound_Tag ts) \<Rightarrow> Some ts | _ \<Rightarrow> None)"

definition list_size :: "list_tag \<Rightarrow> nat" where
  "list_size l = length (snd l)"

definition copyList :: "list_tag \<Rightarrow> list_tag" where
  "copyList l = (fst l, map copy_tag (snd l))"

definition list_erase :: "int \<Rightarrow> list_tag \<Rightarrow> list_tag" where
  "list_erase i l = (if i < 0 \<or> i \<ge> int (length (snd l)) then l
     else (fst l, take (nat i) (snd l) @ drop (Suc (nat i)) (snd l)))"

definition forEachCompoundTag :: "(tag_map \<Rightarrow> 'a \<Rightarrow> 'a) \<Rightarrow> list_tag \<Rightarrow> 'a \<Rightarrow> 'a" where
  "forEachCompoundTag f l =
     fold (\<lambda>t. if getId t = Type_Compound then (case t of Compound_Tag ts \<Rightarrow> f ts | _ \<Rightarrow> id) else id) (snd l)"

subsection \<open>Which tags survive a round trip, and how much fuel they need\<close>

fun wf_tag :: "tag \<Rightarrow> bool" where
  "wf_tag (ByteArray_Tag d) \<longleftrightarrow> length d < 2 ^ 31"
| "wf_tag (String_Tag d) \<longleftrightarrow> length d < 2 ^ 15"
| "wf_tag (List_Tag ty xs) \<longleftrightarrow> ty < NumTagTypes \<and> length xs < 2 ^ 31 \<and> (xs \<noteq> [] \<longrightarrow> ty \<noteq> Type_End)
     \<and> (\<forall>x \<in> set xs. getId x = ty \<and> wf_tag x)"
| "wf_tag (Compound_Tag ts) \<longleftrightarrow> sorted_map ts
     \<and> (\<forall>e \<in> set ts. length (fst e) < 2 ^ 15 \<and> getId (snd e) \<noteq> Type_End \<and> wf_tag (snd e))"
| "wf_tag (IntArray_Tag d) \<longleftrightarrow> length d < 2 ^ 31"
| "wf_tag _ \<longleftrightarrow> True"

fun tag_fuel :: "tag \<Rightarrow> nat" where
  "tag_fuel (List_Tag ty xs) = Suc (sum_list (map tag_fuel xs))"
| "tag_fuel (Compound_Tag ts) = Suc (Suc (sum_list (map (\<lambda>e. Suc (tag_fuel (snd e))) ts)))"
| "tag_fuel _ = 1"

lemma sint_of_nat_32: "n < 2 ^ 31 \<Longrightarrow> sint (of_nat n :: 32 word) = int n"
  by (simp add: signed_of_nat signed_take_bit_int_eq_self)

lemma unat_of_nat_32: "n < 2 ^ 31 \<Longrightarrow> unat (of_nat n :: 32 word) = n"
  by (simp add: unat_of_nat take_bit_nat_eq_self)

lemma unat_scast_of_nat:
  assumes "n < 2 ^ 31"
  shows "unat (scast (of_nat n :: 32 word) :: 64 word) = n"
proof -
  have "(scast (of_nat n :: 32 word) :: 64 word) = of_nat n"
    by (simp only: scast_eq sint_of_nat_32 [OF assms] of_int_of_nat_eq)
  moreover have "n < 2 ^ 64" using assms by simp
  ultimately show ?thesis by (simp only: unat_of_nat) (simp add: take_bit_nat_eq_self)
qed

lemma of_nat_eq_0_32: "n < 2 ^ 31 \<Longrightarrow> of_nat n = (0 :: 32 word) \<longleftrightarrow> n = 0"
  by (auto simp: word_of_nat_eq_0_iff dest: dvd_imp_le)

lemma newTag_simps [simp]:
  "newTag 0 = Inr End_Tag" "newTag 1 = Inr (Byte_Tag 0)" "newTag 2 = Inr (Short_Tag 0)"
  "newTag 3 = Inr (Int_Tag 0)" "newTag 4 = Inr (Int64_Tag 0)" "newTag 5 = Inr (Float_Tag 0)"
  "newTag 6 = Inr (Double_Tag 0)" "newTag 7 = Inr (ByteArray_Tag [])" "newTag 8 = Inr (String_Tag [])"
  "newTag 9 = Inr (List_Tag 0 [])" "newTag 10 = Inr (Compound_Tag [])" "newTag 11 = Inr (IntArray_Tag [])"
  by (simp_all add: newTag_def)

lemma newTag_getId: "\<exists>t0. newTag (getId t) = Inr t0 \<and> getId t0 = getId t"
  by (cases t) simp_all

lemma fold_append_concat:
  "\<forall>x \<in> set xs. \<forall>b. f x b = b @ g x \<Longrightarrow> fold f xs b = b @ concat (map g xs)"
  by (induction xs arbitrary: b) simp_all

text \<open>A fresh tag of a type is loaded by that type's \<open>load\<close>.\<close>

lemma load_by_type:
  "getId t0 = Type_Byte \<Longrightarrow> load inp (Suc f) t0 s = load_scalar (in_byte inp) Byte_Tag t0 s"
  "getId t0 = Type_Short \<Longrightarrow> load inp (Suc f) t0 s = load_scalar (in_short inp) Short_Tag t0 s"
  "getId t0 = Type_Int \<Longrightarrow> load inp (Suc f) t0 s = load_scalar (in_int inp) Int_Tag t0 s"
  "getId t0 = Type_Int64 \<Longrightarrow> load inp (Suc f) t0 s = load_scalar (in_long_long inp) Int64_Tag t0 s"
  "getId t0 = Type_Float \<Longrightarrow> load inp (Suc f) t0 s = load_scalar (in_float inp) Float_Tag t0 s"
  "getId t0 = Type_Double \<Longrightarrow> load inp (Suc f) t0 s = load_scalar (in_double inp) Double_Tag t0 s"
  "getId t0 = Type_String \<Longrightarrow> load inp (Suc f) t0 s = load_scalar (in_string inp) String_Tag t0 s"
  by (cases t0; simp)+

definition emit_named :: "data_output \<Rightarrow> bytes \<times> tag \<Rightarrow> bytes" where
  "emit_named out e = writeNamedTag out (fst e) (snd e) []"

context data_channel
begin

lemma write_named_append:
  assumes "\<And>b. write_tag out t b = b @ emit (write_tag out) t"
  shows "writeNamedTag out n t b = b @ emit_named out (n, t)"
  by (simp add: emit_named_def Let_def assms out_append)

lemma write_append: "write_tag out t b = b @ emit (write_tag out) t"
proof (induction t arbitrary: b)
  case (List_Tag ty xs)
  then have "fold (\<lambda>x. write_tag out x) xs c = c @ concat (map (emit (write_tag out)) xs)" for c
    by (intro fold_append_concat) blast
  then show ?case
    by (simp add: emit_def [of _ "List_Tag ty xs"] out_append)
next
  case (Compound_Tag ts)
  then have "writeNamedTag out (fst e) (snd e) c = c @ emit_named out e" if "e \<in> set ts" for e c
    using that by (metis write_named_append prod.collapse snds.intros)
  then have "fold (\<lambda>e. writeNamedTag out (fst e) (snd e)) ts c = c @ concat (map (emit_named out) ts)" for c
    by (intro fold_append_concat) blast
  then show ?case
    by (simp add: emit_def [of _ "Compound_Tag ts"] out_append)
next
  case (IntArray_Tag d)
  have "fold (out_int out) d c = c @ concat (map (emit (out_int out)) d)" for c
    by (intro fold_append_concat) (simp add: out_append)
  then show ?case
    by (simp add: emit_def [of _ "IntArray_Tag d"] out_append)
qed (simp_all add: emit_def [of "write_tag out"] out_append)

lemma emit_list:
  "emit (write_tag out) (List_Tag ty xs) = emit (out_byte out) ty
     @ emit (out_int out) (of_nat (length xs)) @ concat (map (emit (write_tag out)) xs)"
proof -
  have "fold (\<lambda>x. write_tag out x) xs c = c @ concat (map (emit (write_tag out)) xs)" for c
    by (intro fold_append_concat) (simp add: write_append)
  then show ?thesis by (simp add: emit_def [of _ "List_Tag ty xs"] out_append)
qed

lemma emit_compound:
  "emit (write_tag out) (Compound_Tag ts)
     = concat (map (emit_named out) ts) @ emit (out_byte out) Type_End"
proof -
  have "fold (\<lambda>e. writeNamedTag out (fst e) (snd e)) ts c = c @ concat (map (emit_named out) ts)" for c
    by (intro fold_append_concat)
      (simp add: write_named_append write_append del: writeNamedTag.simps)
  then show ?thesis by (simp add: emit_def [of _ "Compound_Tag ts"] out_append)
qed

lemma emit_int_array:
  "emit (write_tag out) (IntArray_Tag d)
     = emit (out_int out) (of_nat (length d)) @ concat (map (emit (out_int out)) d)"
proof -
  have "fold (out_int out) d c = c @ concat (map (emit (out_int out)) d)" for c
    by (intro fold_append_concat) (simp add: out_append)
  then show ?thesis by (simp add: emit_def [of _ "IntArray_Tag d"] out_append)
qed

lemma emit_named_eq:
  "getId t \<noteq> Type_End \<Longrightarrow> emit_named out (n, t)
     = emit (out_byte out) (getId t) @ emit (out_string out) n @ emit (write_tag out) t"
  by (simp add: emit_named_def Let_def out_append write_append)

subsubsection \<open>Reading back\<close>

lemma load_scalar_ok:
  assumes "\<exists>s'. rd s = (Inr v, s') \<and> left s' = r"
  shows "\<exists>s'. load_scalar rd mk t s = Done (mk v, None, s') \<and> left s' = r"
  using assms by (auto simp: load_scalar_def)

lemma load_ints_ok:
  "left s = concat (map (emit (out_int out)) d) @ r \<Longrightarrow>
    \<exists>s'. load_ints inp (length d) acc s = (acc @ d, None, s') \<and> left s' = r"
proof (induction d arbitrary: acc s)
  case (Cons v d)
  then obtain s1 where "in_int inp s = (Inr v, s1)" "left s1 = concat (map (emit (out_int out)) d) @ r"
    using in_int [of s v] by auto
  with Cons.IH [of s1 "acc @ [v]"] show ?case by auto
qed simp

text \<open>\<open>loads f t\<close>: whatever fresh tag of its type the loader is given, \<open>t\<close> comes back.\<close>

definition loads :: "nat \<Rightarrow> tag \<Rightarrow> bool" where
  "loads f t \<longleftrightarrow> (\<forall>s r t0. getId t0 = getId t \<longrightarrow> left s = emit (write_tag out) t @ r
     \<longrightarrow> (\<exists>s' err. load inp f t0 s = Done (t, err, s') \<and> left s' = r))"

lemma loads_list:
  "\<forall>x \<in> set xs. loads f x \<and> getId x = ty \<Longrightarrow> left s = concat (map (emit (write_tag out)) xs) @ r \<Longrightarrow>
    \<exists>s'. load_list inp f (length xs) ty acc s = Done (acc @ xs, None, s') \<and> left s' = r"
proof (induction xs arbitrary: acc s)
  case (Cons x xs)
  obtain t0 where t0: "newTag ty = Inr t0" "getId t0 = getId x"
    using newTag_getId [of x] Cons.prems(1) by auto
  have "left s = emit (write_tag out) x @ concat (map (emit (write_tag out)) xs) @ r"
    using Cons.prems(2) by simp
  then obtain s1 err where s1: "load inp f t0 s = Done (x, err, s1)"
      "left s1 = concat (map (emit (write_tag out)) xs) @ r"
    using Cons.prems(1) t0(2) unfolding loads_def by (metis list.set_intros(1))
  from Cons.IH [OF _ s1(2), of "acc @ [x]"] Cons.prems(1) t0(1) s1(1)
  show ?case by auto
qed simp

lemma readNamedTag_ok:
  assumes "loads f t" "getId t \<noteq> Type_End" "length n < 2 ^ 15" "left s = emit_named out (n, t) @ r"
  shows "\<exists>s'. readNamedTag inp f s name = Done (Inr t, n, s') \<and> left s' = r"
proof -
  obtain s1 where s1: "in_byte inp s = (Inr (getId t), s1)"
      "left s1 = emit (out_string out) n @ emit (write_tag out) t @ r"
    using in_byte [of s "getId t"] assms(2,4) by (auto simp: emit_named_eq)
  obtain s2 where s2: "in_string inp s1 = (Inr n, s2)" "left s2 = emit (write_tag out) t @ r"
    using in_string [OF s1(2) assms(3)] by auto
  obtain t0 where t0: "newTag (getId t) = Inr t0" "getId t0 = getId t"
    using newTag_getId by blast
  obtain s3 err where "load inp f t0 s2 = Done (t, err, s3)" "left s3 = r"
    using assms(1) t0(2) s2(2) unfolding loads_def by blast
  with assms(2) s1(1) s2(1) t0(1) show ?thesis by (auto simp: readNamedTag.simps)
qed

lemma loads_entries:
  "\<forall>e \<in> set ts. (\<forall>g. fuel_of e \<le> g \<longrightarrow> loads g (snd e)) \<and> getId (snd e) \<noteq> Type_End \<and> length (fst e) < 2 ^ 15
      \<Longrightarrow> sorted_map (acc @ ts) \<Longrightarrow> Suc (sum_list (map (\<lambda>e. Suc (fuel_of e)) ts)) \<le> f
      \<Longrightarrow> left s = concat (map (emit_named out) ts) @ emit (out_byte out) Type_End @ r \<Longrightarrow>
    \<exists>s'. load_entries inp f acc s = Done (acc @ ts, None, s') \<and> left s' = r"
proof (induction ts arbitrary: acc f s)
  case Nil
  then obtain f' where f: "f = Suc f'" by (cases f) auto
  obtain s1 where "in_byte inp s = (Inr Type_End, s1)" "left s1 = r"
    using in_byte [of s Type_End] Nil by auto
  moreover have "bytes_left inp s \<noteq> 0"
    using Nil out_byte_nonempty by (auto simp: bytes_left)
  ultimately show ?case by (simp add: f readNamedTag.simps)
next
  case (Cons e ts)
  let ?rest = "concat (map (emit_named out) ts) @ emit (out_byte out) Type_End @ r"
  obtain f' where f: "f = Suc f'" and f': "fuel_of e \<le> f'" "Suc (sum_list (map (\<lambda>e. Suc (fuel_of e)) ts)) \<le> f'"
    using Cons.prems(3) by (cases f) auto
  obtain n t where e: "e = (n, t)" by (cases e)
  have "\<exists>s1. readNamedTag inp f' s [] = Done (Inr t, n, s1) \<and> left s1 = ?rest"
    using Cons.prems(1,4) f'(1) e by (intro readNamedTag_ok) auto
  then obtain s1 where s1: "readNamedTag inp f' s [] = Done (Inr t, n, s1)" "left s1 = ?rest"
    by blast
  have nz: "bytes_left inp s \<noteq> 0"
    using Cons.prems(1,4) out_byte_nonempty e by (auto simp: bytes_left emit_named_eq)
  have put: "omap_put n t acc = acc @ [(n, t)]"
    using Cons.prems(2) e by (intro omap_put_snoc) (auto simp: sorted_wrt_append)
  have "\<exists>s'. load_entries inp f' (acc @ [(n, t)]) s1 = Done ((acc @ [(n, t)]) @ ts, None, s') \<and> left s' = r"
    using Cons.prems(1,2) f'(2) s1(2) e by (intro Cons.IH) simp_all
  then show ?case
    using Cons.prems(1) s1(1) nz put by (simp add: f e)
qed


lemma loads_scalar:
  assumes "emit (write_tag out) t = e" "t = mk v"
    and "\<And>s r. left s = e @ r \<Longrightarrow> \<exists>s'. rd s = (Inr v, s') \<and> left s' = r"
    and "\<And>t0 s. getId t0 = getId t \<Longrightarrow> load inp (Suc f) t0 s = load_scalar rd mk t0 s"
  shows "loads (Suc f) t"
  unfolding loads_def
proof (intro allI impI)
  fix s r t0
  assume t0: "getId t0 = getId t" and "left s = emit (write_tag out) t @ r"
  then have "\<exists>s'. load_scalar rd mk t0 s = Done (mk v, None, s') \<and> left s' = r"
    by (intro load_scalar_ok assms(3)) (simp add: assms(1))
  then show "\<exists>s' err. load inp (Suc f) t0 s = Done (t, err, s') \<and> left s' = r"
    unfolding assms(4) [OF t0] assms(2) by blast
qed

lemma loads_scalars:
  "loads (Suc f) (Byte_Tag y)" "loads (Suc f) (Short_Tag h)" "loads (Suc f) (Int_Tag i)"
  "loads (Suc f) (Int64_Tag l)" "loads (Suc f) (Float_Tag g)" "loads (Suc f) (Double_Tag d)"
  subgoal
    by (rule loads_scalar [where mk = Byte_Tag and v = y, OF _ refl in_byte load_by_type(1)])
      (simp_all add: emit_def)
  subgoal
    by (rule loads_scalar [where mk = Short_Tag and v = h, OF _ refl in_short load_by_type(2)])
      (simp_all add: emit_def)
  subgoal
    by (rule loads_scalar [where mk = Int_Tag and v = i, OF _ refl in_int load_by_type(3)])
      (simp_all add: emit_def)
  subgoal
    by (rule loads_scalar [where mk = Int64_Tag and v = l, OF _ refl in_long_long load_by_type(4)])
      (simp_all add: emit_def)
  subgoal
    by (rule loads_scalar [where mk = Float_Tag and v = g, OF _ refl in_float load_by_type(5)])
      (simp_all add: emit_def)
  subgoal
    by (rule loads_scalar [where mk = Double_Tag and v = d, OF _ refl in_double load_by_type(6)])
      (simp_all add: emit_def)
  done

lemma loads_string:
  assumes "length d < 2 ^ 15"
  shows "loads (Suc f) (String_Tag d)"
  using assms
  by (intro loads_scalar [where mk = String_Tag and v = d, OF _ refl in_string load_by_type(7)])
    (simp_all add: emit_def)

lemma loads_end: "loads (Suc f) End_Tag"
  unfolding loads_def emit_def [of "write_tag out"]
proof (intro allI impI)
  fix s r t0
  assume "getId t0 = getId End_Tag" "left s = write_tag out End_Tag [] @ r"
  then show "\<exists>s' err. load inp (Suc f) t0 s = Done (End_Tag, err, s') \<and> left s' = r"
    by (cases t0) auto
qed

lemma loads_byte_array:
  assumes "length d < 2 ^ 31"
  shows "loads (Suc f) (ByteArray_Tag d)"
  unfolding loads_def
proof (intro allI impI)
  fix s r t0
  assume id: "getId t0 = getId (ByteArray_Tag d)" and l: "left s = emit (write_tag out) (ByteArray_Tag d) @ r"
  then obtain d0 where t0: "t0 = ByteArray_Tag d0" by (cases t0) auto
  obtain s1 where s1: "in_int inp s = (Inr (of_nat (length d)), s1)" "left s1 = d @ r"
    using in_int [of s "of_nat (length d)" "d @ r"] l
    by (auto simp: emit_def [of _ "ByteArray_Tag d"] out_append)
  then show "\<exists>s' err. load inp (Suc f) t0 s = Done (ByteArray_Tag d, err, s') \<and> left s' = r"
    using in_bytes [OF s1(2)] assms
    by (auto simp: t0 load_byte_array_def unat_scast_of_nat unat_of_nat_32 bytes_left)
qed

lemma loads_int_array:
  assumes "length d < 2 ^ 31"
  shows "loads (Suc f) (IntArray_Tag d)"
  unfolding loads_def
proof (intro allI impI)
  fix s r t0
  assume id: "getId t0 = getId (IntArray_Tag d)" and l: "left s = emit (write_tag out) (IntArray_Tag d) @ r"
  then obtain d0 where t0: "t0 = IntArray_Tag d0" by (cases t0) auto
  obtain s1 where s1: "in_int inp s = (Inr (of_nat (length d)), s1)"
      "left s1 = concat (map (emit (out_int out)) d) @ r"
    using in_int [of s "of_nat (length d)"] l by (auto simp: emit_int_array)
  then show "\<exists>s' err. load inp (Suc f) t0 s = Done (IntArray_Tag d, err, s') \<and> left s' = r"
    using load_ints_ok [OF s1(2), of "[]"] assms
    by (auto simp: t0 load_int_array_def sint_of_nat_32)
qed

lemma loads_list_tag:
  assumes "ty < NumTagTypes" "length xs < 2 ^ 31" "xs \<noteq> [] \<longrightarrow> ty \<noteq> Type_End"
    and "\<forall>x \<in> set xs. loads f x \<and> getId x = ty"
  shows "loads (Suc f) (List_Tag ty xs)"
  unfolding loads_def
proof (intro allI impI)
  fix s r t0
  assume id: "getId t0 = getId (List_Tag ty xs)" and l: "left s = emit (write_tag out) (List_Tag ty xs) @ r"
  then obtain ty0 xs0 where t0: "t0 = List_Tag ty0 xs0" by (cases t0) auto
  let ?n = "of_nat (length xs) :: 32 word"
  obtain s1 where s1: "in_byte inp s = (Inr ty, s1)"
      "left s1 = emit (out_int out) ?n @ concat (map (emit (write_tag out)) xs) @ r"
    using in_byte [of s ty] l by (auto simp: emit_list)
  obtain s2 where s2: "in_int inp s1 = (Inr ?n, s2)"
      "left s2 = concat (map (emit (write_tag out)) xs) @ r"
    using in_int [OF s1(2)] by auto
  have nle: "\<not> NumTagTypes \<le> ty" using assms(1) by (simp only: not_le)
  show "\<exists>s' err. load inp (Suc f) t0 s = Done (List_Tag ty xs, err, s') \<and> left s' = r"
  proof (cases "xs = []")
    case True
    with s1(1) s2 nle show ?thesis by (simp add: t0)
  next
    case False
    then have n: "?n \<noteq> 0" "\<not> sint ?n < 0" "nat (sint ?n) = length xs"
      using assms(2) by (simp_all add: of_nat_eq_0_32 sint_of_nat_32)
    obtain s3 where "load_list inp f (length xs) ty [] s2 = Done (xs, None, s3)" "left s3 = r"
      using loads_list [OF assms(4) s2(2), of "[]"] by auto
    with assms(3) nle False n s1(1) s2(1) show ?thesis by (simp add: t0)
  qed
qed

lemma loads_compound_tag:
  assumes "\<forall>e \<in> set ts. (\<forall>g. fuel_of e \<le> g \<longrightarrow> loads g (snd e)) \<and> getId (snd e) \<noteq> Type_End \<and> length (fst e) < 2 ^ 15"
    and "sorted_map ts" "Suc (sum_list (map (\<lambda>e. Suc (fuel_of e)) ts)) \<le> f"
  shows "loads (Suc f) (Compound_Tag ts)"
  unfolding loads_def
proof (intro allI impI)
  fix s r t0
  assume id: "getId t0 = getId (Compound_Tag ts)" and l: "left s = emit (write_tag out) (Compound_Tag ts) @ r"
  then obtain ts0 where t0: "t0 = Compound_Tag ts0" by (cases t0) auto
  have "\<exists>s'. load_entries inp f [] s = Done ([] @ ts, None, s') \<and> left s' = r"
    using assms l by (intro loads_entries) (simp_all add: emit_compound)
  then show "\<exists>s' err. load inp (Suc f) t0 s = Done (Compound_Tag ts, err, s') \<and> left s' = r"
    by (auto simp: t0)
qed


lemma loads_wf: "wf_tag t \<Longrightarrow> tag_fuel t \<le> f \<Longrightarrow> loads f t"
proof (induction t arbitrary: f)
  case (List_Tag ty xs)
  then obtain f' where f: "f = Suc f'" "sum_list (map tag_fuel xs) \<le> f'" by (cases f) auto
  have "loads f' x" if "x \<in> set xs" for x
    using List_Tag that f(2) member_le_sum_list [of "tag_fuel x" "map tag_fuel xs"] by fastforce
  with List_Tag.prems(1) show ?case unfolding f(1) by (intro loads_list_tag) auto
next
  case (Compound_Tag ts)
  then obtain f' where f: "f = Suc f'" by (cases f) auto
  have "loads g (snd e)" if "e \<in> set ts" "tag_fuel (snd e) \<le> g" for e g
    using Compound_Tag.IH [of e "snd e"] Compound_Tag.prems(1) that by (cases e) fastforce
  with Compound_Tag.prems show ?case
    unfolding f by (intro loads_compound_tag [where fuel_of = "\<lambda>e. tag_fuel (snd e)"]) auto
next
  case (ByteArray_Tag d)
  then show ?case by (cases f) (auto intro: loads_byte_array)
next
  case (IntArray_Tag d)
  then show ?case by (cases f) (auto intro: loads_int_array)
next
  case (String_Tag d)
  then show ?case by (cases f) (auto intro: loads_string)
qed (case_tac f; simp add: loads_scalars loads_end)+

lemma readOrGetEmpty_ok:
  assumes "wf_tag (Compound_Tag ts)" "length n < 2 ^ 15" "tag_fuel (Compound_Tag ts) \<le> f"
    and "left s = writeNamedTag out n (Compound_Tag ts) [] @ r"
  shows "readOrGetEmpty inp f s = Done (Compound_Tag ts)"
proof -
  have l: "left s = emit_named out (n, Compound_Tag ts) @ r" using assms(4) by (simp add: emit_named_def)
  obtain s1 where s1: "in_byte inp s = (Inr Type_Compound, s1)"
      "left s1 = emit (out_string out) n @ emit (write_tag out) (Compound_Tag ts) @ r"
    using in_byte [of s Type_Compound] l by (auto simp: emit_named_eq)
  obtain s2 where s2: "in_string inp s1 = (Inr n, s2)" "left s2 = emit (write_tag out) (Compound_Tag ts) @ r"
    using in_string [OF s1(2) assms(2)] by auto
  obtain s3 err where "load inp f (Compound_Tag []) s2 = Done (Compound_Tag ts, err, s3)"
    using loads_wf [OF assms(1,3)] s2(2) unfolding loads_def by (metis getId.simps(11))
  with s1(1) s2(1) show ?thesis by (simp add: readOrGetEmpty_def readNamedCompoundTag_def)
qed

end


subsection \<open>The compound as a table, copies and equality\<close>

interpretation compound: table compound_get compound_put "\<lambda>k m. snd (compound_remove k m)" sorted_map
  by unfold_locales
    (auto simp: compound_get_def compound_put_def compound_remove_def split: option.splits)

lemmas compound_puts = compound_put_def compound_put_ptr_def putByte_def putShort_def putInt_def
  putInt64_def putFloat_def putDouble_def putString_def putCompound_def putBoolean_def

lemmas compound_gets = getByteTag_def getShortTag_def getIntTag_def getInt64Tag_def
  getByteValue_def getShortValue_def getIntValue_def getInt64Value_def getStringValue_def
  getCompound_def getList_def getBoolean_def compound_contains_def compound_contains_type_def

text \<open>Compounds sorted at every depth, no NaN inside.\<close>

fun plain_tag :: "tag \<Rightarrow> bool" where
  "plain_tag (Float_Tag d) \<longleftrightarrow> float_eq d d"
| "plain_tag (Double_Tag d) \<longleftrightarrow> double_eq d d"
| "plain_tag (List_Tag ty xs) \<longleftrightarrow> (\<forall>x \<in> set xs. plain_tag x)"
| "plain_tag (Compound_Tag ts) \<longleftrightarrow> sorted_map ts \<and> (\<forall>e \<in> set ts. plain_tag (snd e))"
| "plain_tag _ \<longleftrightarrow> True"

lemma fold_put_sorted:
  "sorted_map (acc @ ts) \<Longrightarrow> \<forall>e \<in> set ts. g (snd e) = snd e \<Longrightarrow>
    fold (\<lambda>e. omap_put (fst e) (g (snd e))) ts acc = acc @ ts"
proof (induction ts arbitrary: acc)
  case (Cons e ts)
  have "omap_put (fst e) (snd e) acc = acc @ [(fst e, snd e)]"
    using Cons.prems(1) by (intro omap_put_snoc) (auto simp: sorted_wrt_append)
  with Cons show ?case by simp
qed simp

lemma copy_plain: "plain_tag t \<Longrightarrow> copy_tag t = t"
proof (induction t)
  case (List_Tag ty xs)
  then show ?case by (simp add: map_idI)
next
  case (Compound_Tag ts)
  then have "\<forall>e \<in> set ts. copy_tag (snd e) = snd e" by (fastforce simp: snds.simps)
  with Compound_Tag.prems fold_put_sorted [of "[]" ts copy_tag] show ?case by simp
qed simp_all

lemma equals_refl: "plain_tag t \<Longrightarrow> tag_equals t t"
proof (induction t)
  case (List_Tag ty xs)
  have "tag_equals (fst p) (snd p)" if "p \<in> set (zip xs xs)" for p
  proof -
    from that obtain x where "x \<in> set xs" "p = (x, x)" by (auto simp: zip_same_conv_map)
    then show ?thesis using List_Tag by simp
  qed
  then show ?case by (simp add: list_all_iff del: split_paired_All)
next
  case (Compound_Tag ts)
  have "case compound_get ts (fst e) of None \<Rightarrow> False | Some t \<Rightarrow> tag_equals (snd e) t" if "e \<in> set ts" for e
  proof -
    have "compound_get ts (fst e) = Some (snd e)"
      using that Compound_Tag.prems by (simp add: compound_get_def)
    moreover have "tag_equals (snd e) (snd e)"
      using Compound_Tag that by (metis plain_tag.simps(4) prod.collapse snds.intros)
    ultimately show ?thesis by simp
  qed
  then show ?case by (simp add: list_all_iff del: split_paired_All)
qed (simp_all add: float_eq_def double_eq_def)

subsection \<open>Properties\<close>

text \<open>C5: A named tag written by \<open>NbtIo::writeNamedTag\<close> is read back by \<open>NbtIo::readNamedTag\<close>
  through any input that matches the output, and exactly its bytes are consumed: for every tag whose
  strings are shorter than the 15-bit length field, whose lists are of one type and whose arrays fit
  the 32-bit count, with fuel \<open>tag_fuel\<close>.\<close>

theorem nbt_roundtrip:
  assumes "data_channel out inp left" "wf_tag t" "getId t \<noteq> Type_End" "length n < 2 ^ 15"
    and "tag_fuel t \<le> f" "left s = writeNamedTag out n t [] @ r"
  shows "\<exists>s'. readNamedTag inp f s name = Done (Inr t, n, s') \<and> left s' = r"
  using data_channel.readNamedTag_ok [OF assms(1) data_channel.loads_wf [OF assms(1,2,5)] assms(3,4)]
    assms(6) by (simp add: emit_named_def)

theorem nbt_roundtrip_witness:
  "\<exists>s'. readNamedTag (input_of rev) 5
      (writeNamedTag BigEndianStringByteOutput [104, 105] (Compound_Tag [([97], List_Tag Type_Int [Int_Tag 7])]) [] @ [42]) []
    = Done (Inr (Compound_Tag [([97], List_Tag Type_Int [Int_Tag 7])]), [104, 105], s') \<and> s' = [42]"
  by (rule nbt_roundtrip [OF be_channel.data_channel_axioms]) simp_all

text \<open>Both byte outputs of the sources, little- and big-endian, round-trip compounds through
  \<open>readOrGetEmpty\<close>.\<close>

theorem nbt_compound_roundtrip:
  assumes "wf_tag (Compound_Tag ts)" "length n < 2 ^ 15" "tag_fuel (Compound_Tag ts) \<le> f"
  shows "readOrGetEmpty (input_of id) f (writeNamedTag StringByteOutput n (Compound_Tag ts) [])
      = Done (Compound_Tag ts)
    \<and> readOrGetEmpty (input_of rev) f (writeNamedTag BigEndianStringByteOutput n (Compound_Tag ts) [])
      = Done (Compound_Tag ts)"
  using le_channel.readOrGetEmpty_ok [OF assms] be_channel.readOrGetEmpty_ok [OF assms]
  by (metis append_Nil2)

theorem nbt_compound_roundtrip_witness:
  "readOrGetEmpty (input_of id) 9 (writeNamedTag StringByteOutput [] (Compound_Tag [([97], String_Tag [1, 2])]) [])
      = Done (Compound_Tag [([97], String_Tag [1, 2])])
    \<and> readOrGetEmpty (input_of rev) 9
        (writeNamedTag BigEndianStringByteOutput [] (Compound_Tag [([97], String_Tag [1, 2])]) [])
      = Done (Compound_Tag [([97], String_Tag [1, 2])])"
  by (rule nbt_compound_roundtrip) simp_all

text \<open>The typed accessors of \<open>CompoundTag\<close> return what the matching \<open>put\<close> stored under the key,
  a \<open>put\<close> leaves every other key alone and keeps the key order, and a removal reports whether the
  key was there and makes it absent.\<close>

theorem compound_accessors:
  assumes "sorted_map tags"
  shows "(getByteValue (putByte k b tags) k = b \<and> getShortValue (putShort k h tags) k = h
      \<and> getIntValue (putInt k i tags) k = i \<and> getInt64Value (putInt64 k l tags) k = l
      \<and> getStringValue (putString k v tags) k = v \<and> getCompound (putCompound k c tags) k = Some c
      \<and> (getBoolean (putBoolean k q tags) k \<longleftrightarrow> q) \<and> getIntTag (putByte k b tags) k = None)
    \<and> (sorted_map (compound_put k t tags)
      \<and> compound_get (compound_put k t tags) k' = (if k' = k then Some t else compound_get tags k'))
    \<and> fst (compound_remove k tags) = compound_contains tags k
      \<and> sorted_map (snd (compound_remove k tags))
      \<and> compound_get (snd (compound_remove k tags)) k' = (if k' = k then None else compound_get tags k')"
  using compound.get_put [OF assms] compound.get_remove [OF assms] compound.inv_put [OF assms]
    compound.inv_remove [OF assms]
  by (auto simp: compound_puts compound_gets compound_get_def compound_remove_def
      split: option.splits)

theorem compound_accessors_witness:
  "getIntValue (putInt [120] 5 [([97], Byte_Tag 1)]) [120] = 5"
  using compound_accessors [where tags = "[([97], Byte_Tag 1)]" and k = "[120]" and i = 5] by simp

text \<open>A deep copy is the tag itself, and \<open>equals\<close> holds between a tag and its copy, for tags
  without NaN whose compounds are in key order.\<close>

theorem copy_equals:
  assumes "plain_tag t"
  shows "copy_tag t = t \<and> tag_equals t (copy_tag t)"
  using copy_plain [OF assms] equals_refl [OF assms] by simp

theorem copy_equals_witness:
  "copy_tag (Compound_Tag [([97], Float_Tag 0)]) = Compound_Tag [([97], Float_Tag 0)]
    \<and> tag_equals (Compound_Tag [([97], Float_Tag 0)]) (copy_tag (Compound_Tag [([97], Float_Tag 0)]))"
  by (rule copy_equals) (simp add: float_eq_def)

text \<open>\<open>CompoundTag::equals\<close> only asks that the other compound extend this one: a compound equals
  every compound that has its entries and more, so the relation is not symmetric.\<close>

theorem compound_equals_submap:
  assumes "plain_tag (Compound_Tag xs)" "map_of xs \<subseteq>\<^sub>m map_of ys"
  shows "tag_equals (Compound_Tag xs) (Compound_Tag ys)
    \<and> (tag_equals (Compound_Tag ys) (Compound_Tag xs) \<longrightarrow> dom (map_of ys) \<subseteq> dom (map_of xs))"
proof -
  have "case compound_get ys (fst e) of None \<Rightarrow> False | Some t \<Rightarrow> tag_equals (snd e) t" if "e \<in> set xs" for e
  proof -
    have "map_of xs (fst e) = Some (snd e)" using that assms(1) by simp
    then have "compound_get ys (fst e) = Some (snd e)"
      using assms(2) by (metis compound_get_def domI map_le_def)
    moreover have "tag_equals (snd e) (snd e)" using that assms(1) by (intro equals_refl) simp
    ultimately show ?thesis by simp
  qed
  moreover have "dom (map_of ys) \<subseteq> dom (map_of xs)" if eq: "tag_equals (Compound_Tag ys) (Compound_Tag xs)"
  proof
    fix k
    assume "k \<in> dom (map_of ys)"
    then obtain v where "(k, v) \<in> set ys" by (auto dest: map_of_SomeD)
    with eq show "k \<in> dom (map_of xs)"
      by (auto simp: list_all_iff compound_get_def split: option.splits)
  qed
  ultimately show ?thesis by (simp add: list_all_iff del: split_paired_All)
qed

theorem compound_equals_submap_witness:
  "tag_equals (Compound_Tag []) (Compound_Tag [([97], Byte_Tag 1)])
    \<and> \<not> tag_equals (Compound_Tag [([97], Byte_Tag 1)]) (Compound_Tag [])"
  using compound_equals_submap [of "[]" "[([97], Byte_Tag 1)]"] by (simp add: compound_get_def)

text \<open>\<open>readNamedTag\<close> drops the \<open>Result\<close> of the payload: once type and name are read, a payload
  that fails to load still yields a tag, left as the failed load left it, and no error.\<close>

theorem readNamedTag_drops_payload_error:
  assumes "in_byte inp s = (Inr ty, s1)" "ty \<noteq> Type_End" "in_string inp s1 = (Inr n, s2)"
    and "newTag ty = Inr t0" "load inp f t0 s2 = Done (t, Some e, s3)"
  shows "readNamedTag inp f s name = Done (Inr t, n, s3)"
  using assms by (simp add: readNamedTag.simps)

theorem readNamedTag_drops_payload_error_witness:
  "readNamedTag (input_of id) 1 [3, 0, 0, 9] [] = Done (Inr (Int_Tag 0), [], [9])"
  by (rule readNamedTag_drops_payload_error [where e = Read_Error and ty = 3 and n = "[]"
        and ?s1.0 = "[0, 0, 9]" and ?s2.0 = "[9]" and ?t0.0 = "Int_Tag 0"])
    (simp_all add: input_of_def word_reader_def string_reader_def bytes_reader_def load_scalar_def
      take_Cons' drop_Cons')

end
