(* ===== verification/Scheduler.thy ===== *)
theory Scheduler
  imports Prelude
begin

text \<open>
  The task scheduler of \<open>src/endstone/core/scheduler\<close>. Tasks are shared, mutable objects: they live in
  a store that only grows, and a \<open>shared_ptr\<close> is an index into it. \<open>tasks_\<close> (an unordered map) is an
  association list in some order, \<open>queue_\<close> (an ordered map from ticks to binary heaps) one in
  increasing order of ticks. The pending queue is first-in first-out. Ticks are 64-bit words and
  identifiers 32-bit words, wrap-around included.

  A callback acts on the scheduler through its public operations only, so its effect is a list of
  calls, which may depend on the state it starts in: the parameter \<open>script\<close>. An exception ends the
  list early; the heartbeat logs it and goes on.
\<close>

subsection \<open>Tasks\<close>

type_synonym task_id = "32 word"
type_synonym tick = "64 word"
type_synonym plugin_ref = nat
type_synonym task_ref = nat

record 'act task =
  task_id :: task_id
  owner :: "plugin_ref option"
  is_sync :: bool
  action :: 'act
  created_at :: nat
  period :: tick
  next_run :: tick
  cancelled :: bool
  workers :: "nat list"

record 'act scheduler =
  store :: "'act task list"
  ids :: task_id
  pending :: "task_ref list"
  tasks :: "(task_id \<times> task_ref) list"
  queue :: "(tick \<times> task_ref list) list"
  base_tick :: "tick option"
  current_tick :: tick
  current_task :: task_id
  has_cancelled_tasks :: bool
  executor :: "task_ref list"
  clock :: nat

definition EndstoneScheduler :: "'act scheduler" where
  "EndstoneScheduler = \<lparr>store = [], ids = 1, pending = [], tasks = [], queue = [], base_tick = None,
     current_tick = 0, current_task = 0, has_cancelled_tasks = False, executor = [], clock = 0\<rparr>"

definition update_task :: "task_ref \<Rightarrow> ('act task \<Rightarrow> 'act task) \<Rightarrow> 'act scheduler \<Rightarrow> 'act scheduler" where
  "update_task r f s = s\<lparr>store := (store s)[r := f (store s ! r)]\<rparr>"

definition isCancelled :: "'act scheduler \<Rightarrow> task_ref \<Rightarrow> bool" where
  "isCancelled s r \<longleftrightarrow> cancelled (store s ! r)"

definition isSync :: "'act scheduler \<Rightarrow> task_ref \<Rightarrow> bool" where
  "isSync s r \<longleftrightarrow> is_sync (store s ! r)"

subsection \<open>Identifiers\<close>

text \<open>The \<open>do \<dots> while\<close> loop of \<open>nextId\<close> tries identifiers until one is free; \<open>None\<close> when it found
  none within the given number of trials.\<close>

fun nextId_loop :: "nat \<Rightarrow> (task_id \<times> task_ref) list \<Rightarrow> task_id \<Rightarrow> (task_id \<times> task_id) option" where
  "nextId_loop 0 ts i = None"
| "nextId_loop (Suc n) ts i =
     (let i0 = (if i \<ge> 0xFFFFFFFF then 1 else i); i' = i0 + 1
      in if map_of ts i0 = None then Some (i0, i') else nextId_loop n ts i')"

definition nextId :: "'act scheduler \<Rightarrow> (task_id \<times> 'act scheduler) option" where
  "nextId s = (case nextId_loop (Suc (length (tasks s))) (tasks s) (ids s) of
       None \<Rightarrow> None
     | Some (i, i') \<Rightarrow> Some (i, s\<lparr>ids := i'\<rparr>))"

subsection \<open>Registering and cancelling\<close>

definition addTask :: "task_ref \<Rightarrow> 'act scheduler \<Rightarrow> 'act scheduler" where
  "addTask r s = s\<lparr>tasks := AList.update (task_id (store s ! r)) r (tasks s), pending := pending s @ [r]\<rparr>"

text \<open>\<open>make_shared\<close> of a task and \<open>setNextRun\<close>, on the freshly drawn identifier.\<close>

definition new_task ::
  "plugin_ref option \<Rightarrow> bool \<Rightarrow> 'act \<Rightarrow> tick \<Rightarrow> tick \<Rightarrow> task_id \<Rightarrow> 'act scheduler \<Rightarrow> task_ref \<times> 'act scheduler"
where
  "new_task own sync act delay per i s =
     (length (store s),
      s\<lparr>store := store s @ [\<lparr>task_id = i, owner = own, is_sync = sync, action = act,
          created_at = clock s, period = per, next_run = current_tick s + delay, cancelled = False,
          workers = []\<rparr>], clock := Suc (clock s)\<rparr>)"

text \<open>\<open>validate\<close>: the callback is not empty and the plugin is enabled.\<close>

definition validate :: "bool \<Rightarrow> 'act option \<Rightarrow> bool" where
  "validate enabled task \<longleftrightarrow> task \<noteq> None \<and> enabled"

text \<open>The result is \<open>None\<close> when \<open>nextId\<close> does not return; the inner \<open>None\<close> is the null pointer.\<close>

definition run_timer ::
  "bool \<Rightarrow> plugin_ref \<Rightarrow> bool \<Rightarrow> 'act option \<Rightarrow> tick \<Rightarrow> tick \<Rightarrow> 'act scheduler
   \<Rightarrow> (task_ref option \<times> 'act scheduler) option" where
  "run_timer sync plugin enabled task delay per s =
     (case task of
        None \<Rightarrow> Some (None, s)
      | Some act \<Rightarrow>
          if \<not> validate enabled task then Some (None, s)
          else (case nextId s of
              None \<Rightarrow> None
            | Some (i, s1) \<Rightarrow> (case new_task (Some plugin) sync act delay per i s1 of
                  (r, s2) \<Rightarrow> Some (Some r, addTask r s2))))"

definition runTaskTimer where
  "runTaskTimer plugin enabled task delay per s = run_timer True plugin enabled task delay per s"

definition runTaskLater where
  "runTaskLater plugin enabled task delay s = runTaskTimer plugin enabled task delay 0 s"

definition runTask where
  "runTask plugin enabled task s = runTaskLater plugin enabled task 0 s"

definition runTaskTimerAsync where
  "runTaskTimerAsync plugin enabled task delay per s = run_timer False plugin enabled task delay per s"

definition runTaskLaterAsync where
  "runTaskLaterAsync plugin enabled task delay s = runTaskTimerAsync plugin enabled task delay 0 s"

definition runTaskAsync where
  "runTaskAsync plugin enabled task s = runTaskLaterAsync plugin enabled task 0 s"

text \<open>The ownerless \<open>runTask\<close> of the server itself.\<close>

definition runServerTask ::
  "'act option \<Rightarrow> 'act scheduler \<Rightarrow> (task_ref option \<times> 'act scheduler) option" where
  "runServerTask task s = (case task of
       None \<Rightarrow> Some (None, s)
     | Some act \<Rightarrow> (case nextId s of
           None \<Rightarrow> None
         | Some (i, s1) \<Rightarrow> (case new_task None True act 0 0 i s1 of
               (r, s2) \<Rightarrow> Some (Some r, addTask r s2))))"

definition removeTask :: "task_id \<Rightarrow> 'act scheduler \<Rightarrow> 'act scheduler" where
  "removeTask i s = s\<lparr>tasks := AList.delete i (tasks s)\<rparr>"

text \<open>\<open>EndstoneTask::doCancel\<close>, and the override of the asynchronous task, which removes an idle task.\<close>

definition doCancel :: "task_ref \<Rightarrow> 'act scheduler \<Rightarrow> 'act scheduler" where
  "doCancel r s =
     (let s1 = update_task r (\<lambda>t. t\<lparr>cancelled := True\<rparr>) s
      in if isSync s r then s1
         else if workers (store s1 ! r) = [] then removeTask (task_id (store s1 ! r)) s1
         else s1)"

definition cancelTask :: "task_id \<Rightarrow> 'act scheduler \<Rightarrow> 'act scheduler" where
  "cancelTask i s = (case map_of (tasks s) i of
       None \<Rightarrow> s
     | Some r \<Rightarrow>
         (let s1 = (if isSync s r then s\<lparr>tasks := AList.delete i (tasks s)\<rparr> else s)
          in (doCancel r s1)\<lparr>has_cancelled_tasks := True\<rparr>))"

definition cancelTasks :: "plugin_ref \<Rightarrow> 'act scheduler \<Rightarrow> 'act scheduler" where
  "cancelTasks plugin s =
     (let mine = filter (\<lambda>e. owner (store s ! snd e) = Some plugin) (tasks s);
          s1 = s\<lparr>tasks := filter (\<lambda>e. \<not> (owner (store s ! snd e) = Some plugin \<and> isSync s (snd e))) (tasks s)\<rparr>
      in (fold (\<lambda>e. doCancel (snd e)) mine s1)\<lparr>has_cancelled_tasks := True\<rparr>)"

definition isRunning :: "'act scheduler \<Rightarrow> task_id \<Rightarrow> bool" where
  "isRunning s i = (case map_of (tasks s) i of
       None \<Rightarrow> False
     | Some r \<Rightarrow> if isSync s r then current_task s = i else workers (store s ! r) \<noteq> [])"

definition isQueued :: "'act scheduler \<Rightarrow> task_id \<Rightarrow> bool" where
  "isQueued s i \<longleftrightarrow> map_of (tasks s) i \<noteq> None"

definition getPendingTasks :: "'act scheduler \<Rightarrow> task_ref list" where
  "getPendingTasks s = filter (\<lambda>r. \<not> isCancelled s r) (map snd (tasks s))"

definition getActiveWorkers :: "'act scheduler \<Rightarrow> nat list" where
  "getActiveWorkers s =
     concat (map (\<lambda>r. workers (store s ! r)) (filter (\<lambda>r. \<not> isSync s r) (map snd (tasks s))))"


subsection \<open>Buckets: binary heaps in a vector\<close>

text \<open>\<open>TaskComparator\<close>: the heap's top is the task that is due first, the older one on a tie.\<close>

definition task_later :: "'act scheduler \<Rightarrow> task_ref \<Rightarrow> task_ref \<Rightarrow> bool" where
  "task_later s l r =
     (let a = store s ! l; b = store s ! r
      in if next_run a \<noteq> next_run b then next_run a > next_run b else created_at a > created_at b)"

text \<open>\<open>std::push_heap\<close> on a vector whose new element is the last one, and \<open>std::make_heap\<close>.\<close>

fun sift_up :: "('a \<Rightarrow> 'a \<Rightarrow> bool) \<Rightarrow> nat \<Rightarrow> 'a list \<Rightarrow> 'a list" where
  "sift_up lt i xs =
     (if i = 0 then xs
      else let p = (i - 1) div 2
        in if lt (xs ! p) (xs ! i) then sift_up lt p (xs[i := xs ! p, p := xs ! i]) else xs)"

declare sift_up.simps [simp del]

definition push_heap :: "('a \<Rightarrow> 'a \<Rightarrow> bool) \<Rightarrow> 'a list \<Rightarrow> 'a list" where
  "push_heap lt xs = sift_up lt (length xs - 1) xs"

function sift_down :: "('a \<Rightarrow> 'a \<Rightarrow> bool) \<Rightarrow> nat \<Rightarrow> 'a list \<Rightarrow> 'a list" where
  "sift_down lt i xs =
     (let l = 2 * i + 1; r = 2 * i + 2
      in if l \<ge> length xs then xs
         else let c = (if r < length xs \<and> lt (xs ! l) (xs ! r) then r else l)
           in if lt (xs ! i) (xs ! c) then sift_down lt c (xs[i := xs ! c, c := xs ! i]) else xs)"
  by pat_completeness auto
termination
  by (relation "measure (\<lambda>(lt, i, xs). length xs - i)") (auto split: if_splits)

declare sift_down.simps [simp del]

definition make_heap :: "('a \<Rightarrow> 'a \<Rightarrow> bool) \<Rightarrow> 'a list \<Rightarrow> 'a list" where
  "make_heap lt xs = fold (sift_down lt) (rev [0 ..< length xs div 2]) xs"

subsection \<open>The heartbeat\<close>

definition removeCancelledTasks :: "'act scheduler \<Rightarrow> 'act scheduler" where
  "removeCancelledTasks s =
     s\<lparr>pending := filter (\<lambda>r. \<not> isCancelled s r) (pending s),
       queue := filter (\<lambda>e. snd e \<noteq> [])
         (map (\<lambda>e. (fst e, let q = filter (\<lambda>r. \<not> isCancelled s r) (snd e)
                           in if q = [] then [] else make_heap (task_later s) q)) (queue s))\<rparr>"

definition bucket_of :: "tick \<Rightarrow> (tick \<times> task_ref list) list \<Rightarrow> task_ref list" where
  "bucket_of k q = (case map_of q k of None \<Rightarrow> [] | Some b \<Rightarrow> b)"

text \<open>The loop that moves the pending tasks into their buckets.\<close>

fun consume_pending :: "tick \<Rightarrow> task_ref list \<Rightarrow> 'act scheduler \<Rightarrow> 'act scheduler" where
  "consume_pending now [] s = s"
| "consume_pending now (r # rs) s =
     (if isCancelled s r then consume_pending now rs s
      else let k = max now (next_run (store s ! r));
               b = push_heap (task_later s) (bucket_of k (queue s) @ [r])
        in consume_pending now rs (s\<lparr>queue := omap_put k b (queue s)\<rparr>))"

text \<open>What a callback may do to the scheduler.\<close>

datatype 'act call =
    Register bool plugin_ref bool "'act option" tick tick
  | Register_Server "'act option"
  | Cancel_Task task_id
  | Cancel_Tasks plugin_ref

type_synonym 'act script = "'act \<Rightarrow> 'act scheduler \<Rightarrow> 'act call list"

fun perform :: "'act call \<Rightarrow> 'act scheduler \<Rightarrow> 'act scheduler option" where
  "perform (Register sync plugin enabled task delay per) s =
     map_option snd (run_timer sync plugin enabled task delay per s)"
| "perform (Register_Server task) s = map_option snd (runServerTask task s)"
| "perform (Cancel_Task i) s = Some (cancelTask i s)"
| "perform (Cancel_Tasks plugin) s = Some (cancelTasks plugin s)"

fun perform_all :: "'act call list \<Rightarrow> 'act scheduler \<Rightarrow> 'act scheduler option" where
  "perform_all [] s = Some s"
| "perform_all (c # cs) s = (case perform c s of None \<Rightarrow> None | Some s' \<Rightarrow> perform_all cs s')"

text \<open>\<open>EndstoneTask::run\<close>.\<close>

definition run_callback :: "'act script \<Rightarrow> task_ref \<Rightarrow> 'act scheduler \<Rightarrow> 'act scheduler option" where
  "run_callback script r s = perform_all (script (action (store s ! r)) s) s"

definition run_sync :: "'act script \<Rightarrow> task_ref \<Rightarrow> 'act scheduler \<Rightarrow> 'act scheduler option" where
  "run_sync script r s =
     (case run_callback script r (s\<lparr>current_task := task_id (store s ! r)\<rparr>) of
        None \<Rightarrow> None
      | Some s' \<Rightarrow> Some (s'\<lparr>current_task := 0\<rparr>))"

text \<open>One task of a due bucket; the second component records the tasks whose callback ran or was
  handed to the executor.\<close>

definition run_task :: "'act script \<Rightarrow> tick \<Rightarrow> task_ref \<Rightarrow> 'act scheduler
   \<Rightarrow> ('act scheduler \<times> task_ref list) option" where
  "run_task script now r s =
     (if isCancelled s r
      then Some (if isSync s r then removeTask (task_id (store s ! r)) s else s, [])
      else (case (if isSync s r then run_sync script r s else Some (s\<lparr>executor := executor s @ [r]\<rparr>)) of
          None \<Rightarrow> None
        | Some s1 \<Rightarrow>
            if \<not> isCancelled s1 r \<and> period (store s1 ! r) > 0
            then Some ((update_task r (\<lambda>t. t\<lparr>next_run := now + period t\<rparr>) s1)\<lparr>pending := pending s1 @ [r]\<rparr>, [r])
            else Some (if isSync s1 r then removeTask (task_id (store s1 ! r)) s1 else s1, [r])))"

fun run_bucket :: "'act script \<Rightarrow> tick \<Rightarrow> task_ref list \<Rightarrow> 'act scheduler
   \<Rightarrow> ('act scheduler \<times> task_ref list) option" where
  "run_bucket script now [] s = Some (s, [])"
| "run_bucket script now (r # rs) s =
     (case run_task script now r s of
        None \<Rightarrow> None
      | Some (s1, l1) \<Rightarrow> (case run_bucket script now rs s1 of
            None \<Rightarrow> None
          | Some (s2, l2) \<Rightarrow> Some (s2, l1 @ l2)))"

text \<open>The loop over the due buckets; no call of a callback touches \<open>queue_\<close>, so its first
  bucket is still the one being run when it is erased.\<close>

fun run_due :: "'act script \<Rightarrow> tick \<Rightarrow> (tick \<times> task_ref list) list \<Rightarrow> 'act scheduler
   \<Rightarrow> ('act scheduler \<times> task_ref list) option" where
  "run_due script now [] s = Some (s, [])"
| "run_due script now ((k, b) # q) s =
     (if k > now then Some (s, [])
      else (case run_bucket script now b s of
          None \<Rightarrow> None
        | Some (s1, l1) \<Rightarrow> (case run_due script now q (s1\<lparr>queue := tl (queue s1)\<rparr>) of
              None \<Rightarrow> None
            | Some (s2, l2) \<Rightarrow> Some (s2, l1 @ l2))))"

text \<open>The first three phases of the heartbeat: the session-relative tick, the removal of cancelled
  tasks when the flag is set, and the consumption of the pending queue.\<close>

definition heartbeat_tick :: "tick \<Rightarrow> 'act scheduler \<Rightarrow> 'act scheduler" where
  "heartbeat_tick server_tick s =
     (let b = (case base_tick s of None \<Rightarrow> server_tick | Some b \<Rightarrow> b)
      in s\<lparr>base_tick := Some b, current_tick := server_tick - b + 1\<rparr>)"

definition heartbeat_prepare :: "tick \<Rightarrow> 'act scheduler \<Rightarrow> 'act scheduler" where
  "heartbeat_prepare server_tick s =
     (let s1 = heartbeat_tick server_tick s;
          s2 = (if has_cancelled_tasks s1 then removeCancelledTasks (s1\<lparr>has_cancelled_tasks := False\<rparr>) else s1)
      in consume_pending (current_tick s2) (pending s2) (s2\<lparr>pending := []\<rparr>))"

definition mainThreadHeartbeat :: "'act script \<Rightarrow> tick \<Rightarrow> 'act scheduler
   \<Rightarrow> ('act scheduler \<times> task_ref list) option" where
  "mainThreadHeartbeat script server_tick s =
     (let s' = heartbeat_prepare server_tick s
      in run_due script (current_tick s') (queue s') s')"


subsection \<open>Heaps are permutations\<close>

lemma mset_sift_up: "i < length xs \<Longrightarrow> mset (sift_up lt i xs) = mset xs"
proof (induction lt i xs rule: sift_up.induct)
  case (1 lt i xs)
  then have "(i - 1) div 2 < length xs" by (simp add: div_le_dividend le_less_trans)
  with 1 show ?case
    by (subst sift_up.simps) (auto simp: Let_def mset_swap)
qed

lemma mset_push_heap [simp]: "mset (push_heap lt xs) = mset xs"
proof (cases "xs = []")
  case True
  then show ?thesis by (simp add: push_heap_def sift_up.simps)
next
  case False
  then show ?thesis unfolding push_heap_def by (intro mset_sift_up) simp
qed

lemma mset_sift_down: "mset (sift_down lt i xs) = mset xs"
proof (induction lt i xs rule: sift_down.induct)
  case (1 lt i xs)
  then show ?case
    by (subst sift_down.simps) (simp add: Let_def mset_swap del: One_nat_def)
qed

lemma mset_make_heap [simp]: "mset (make_heap lt xs) = mset xs"
proof -
  have "mset (fold (sift_down lt) is ys) = mset ys" for "is" ys
    by (induction "is" arbitrary: ys) (simp_all add: mset_sift_down)
  then show ?thesis by (simp add: make_heap_def)
qed

lemma set_push_heap [simp]: "set (push_heap lt xs) = set xs"
  and distinct_push_heap [simp]: "distinct (push_heap lt xs) = distinct xs"
  by (metis mset_push_heap set_mset_mset, metis mset_push_heap mset_eq_imp_distinct_iff)

lemma set_make_heap [simp]: "set (make_heap lt xs) = set xs"
  and distinct_make_heap [simp]: "distinct (make_heap lt xs) = distinct xs"
  by (metis mset_make_heap set_mset_mset, metis mset_make_heap mset_eq_imp_distinct_iff)

subsection \<open>How the calls of a callback change the scheduler\<close>

text \<open>The fields of a task no operation writes.\<close>

definition fixed_part :: "'act task \<Rightarrow> 'act task" where
  "fixed_part t = t\<lparr>next_run := 0, cancelled := False\<rparr>"

lemma fixed_part_eqD:
  assumes "fixed_part t = fixed_part u"
  shows "task_id t = task_id u" "is_sync t = is_sync u" "period t = period u" "owner t = owner u"
    "action t = action u" "created_at t = created_at u" "workers t = workers u"
  using assms by (cases t; cases u; simp add: fixed_part_def)+

lemma fixed_part_update [simp]:
  "fixed_part (t\<lparr>cancelled := c\<rparr>) = fixed_part t" "fixed_part (t\<lparr>next_run := n\<rparr>) = fixed_part t"
  by (simp_all add: fixed_part_def)

text \<open>
  \<open>evolves R s s'\<close>: objects are added, never removed; existing tasks keep their fixed part, are
  cancelled at most, and only those in \<open>R\<close> get a new \<open>next_run\<close>; the pending queue grows at its
  end, without repetition, by new tasks and tasks of \<open>R\<close>; the buckets and the tick stay.
\<close>

definition evolves :: "task_ref set \<Rightarrow> 'act scheduler \<Rightarrow> 'act scheduler \<Rightarrow> bool" where
  "evolves R s s' \<longleftrightarrow>
     length (store s) \<le> length (store s')
   \<and> (\<forall>r < length (store s). fixed_part (store s' ! r) = fixed_part (store s ! r)
        \<and> (cancelled (store s ! r) \<longrightarrow> cancelled (store s' ! r))
        \<and> (r \<notin> R \<longrightarrow> next_run (store s' ! r) = next_run (store s ! r)))
   \<and> queue s' = queue s \<and> current_tick s' = current_tick s \<and> base_tick s' = base_tick s
   \<and> (\<exists>new. pending s' = pending s @ new \<and> distinct new
        \<and> (\<forall>r \<in> set new. r < length (store s') \<and> (r < length (store s) \<longrightarrow> r \<in> R)))"

definition refs_ok :: "'act scheduler \<Rightarrow> bool" where
  "refs_ok s \<longleftrightarrow> (\<forall>e \<in> set (tasks s). snd e < length (store s))"

lemma evolves_refl: "evolves R s s"
  by (simp add: evolves_def)

lemma evolves_trans:
  assumes "evolves R s t" "evolves Q t u" "R \<inter> Q = {}" "\<forall>r \<in> Q. r < length (store s)"
  shows "evolves (R \<union> Q) s u"
proof -
  obtain n1 where n1: "pending t = pending s @ n1" "distinct n1"
      "\<forall>r \<in> set n1. r < length (store t) \<and> (r < length (store s) \<longrightarrow> r \<in> R)"
    using assms(1) unfolding evolves_def by blast
  obtain n2 where n2: "pending u = pending t @ n2" "distinct n2"
      "\<forall>r \<in> set n2. r < length (store u) \<and> (r < length (store t) \<longrightarrow> r \<in> Q)"
    using assms(2) unfolding evolves_def by blast
  have le: "length (store s) \<le> length (store t)" "length (store t) \<le> length (store u)"
    using assms(1,2) by (simp_all add: evolves_def)
  have "set n1 \<inter> set n2 = {}" using n1(3) n2(3) assms(3,4) by fastforce
  then have "pending u = pending s @ (n1 @ n2) \<and> distinct (n1 @ n2)
      \<and> (\<forall>r \<in> set (n1 @ n2). r < length (store u) \<and> (r < length (store s) \<longrightarrow> r \<in> R \<union> Q))"
    using n1 n2 le by fastforce
  moreover have "\<forall>r < length (store s). fixed_part (store u ! r) = fixed_part (store s ! r)
        \<and> (cancelled (store s ! r) \<longrightarrow> cancelled (store u ! r))
        \<and> (r \<notin> R \<union> Q \<longrightarrow> next_run (store u ! r) = next_run (store s ! r))"
    using assms(1,2) le unfolding evolves_def by auto
  ultimately show ?thesis using assms(1,2) le unfolding evolves_def by auto
qed

lemma evolves_trans_empty: "evolves {} s t \<Longrightarrow> evolves {} t u \<Longrightarrow> evolves {} s u"
  using evolves_trans [of "{}" s t "{}" u] by simp

lemma nextId_Some: "nextId s = Some (i, s1) \<Longrightarrow> \<exists>i'. s1 = s\<lparr>ids := i'\<rparr>"
  by (auto simp: nextId_def split: option.splits)

lemma set_AList_update: "set (AList.update k v al) \<subseteq> insert (k, v) (set al)"
  by (induction al) auto

lemma register_evolves:
  assumes "refs_ok s" "s2 = addTask r s1" "(r, s1) = new_task own sync act delay per i (s\<lparr>ids := i'\<rparr>)"
  shows "evolves {} s s2" "refs_ok s2"
proof -
  from assms(2,3) show "evolves {} s s2"
    by (auto simp: evolves_def new_task_def addTask_def nth_append intro: exI [of _ "[length (store s)]"])
  show "refs_ok s2"
    using assms set_AList_update [of "task_id (store s1 ! r)" r "tasks s"]
    by (fastforce simp: refs_ok_def new_task_def addTask_def)
qed

lemma run_timer_evolves:
  assumes "refs_ok s" "run_timer sync p en task delay per s = Some (ro, s')"
  shows "evolves {} s s'" "refs_ok s'"
  using assms register_evolves [OF assms(1)]
  by (auto simp: run_timer_def evolves_refl split: option.splits if_splits prod.splits
      dest!: nextId_Some dest: sym)

lemma runServerTask_evolves:
  assumes "refs_ok s" "runServerTask task s = Some (ro, s')"
  shows "evolves {} s s'" "refs_ok s'"
  using assms register_evolves [OF assms(1)]
  by (auto simp: runServerTask_def evolves_refl split: option.splits if_splits prod.splits
      dest!: nextId_Some dest: sym)

lemma removeTask_evolves: "evolves {} s (removeTask i s)"
  by (auto simp: evolves_def removeTask_def)

lemma set_AList_delete: "set (AList.delete k al) \<subseteq> set al"
  by (auto simp: AList.delete_eq)

lemma removeTask_refs: "refs_ok s \<Longrightarrow> refs_ok (removeTask i s)"
  using set_AList_delete by (fastforce simp: refs_ok_def removeTask_def)

lemma cancel_evolves:
  "r < length (store s) \<Longrightarrow> evolves {} s (update_task r (\<lambda>t. t\<lparr>cancelled := True\<rparr>) s)"
  by (auto simp: evolves_def update_task_def nth_list_update)

lemma doCancel_evolves:
  assumes "r < length (store s)" "refs_ok s"
  shows "evolves {} s (doCancel r s)" "refs_ok (doCancel r s)"
proof -
  let ?s1 = "update_task r (\<lambda>t. t\<lparr>cancelled := True\<rparr>) s"
  have 1: "evolves {} s ?s1" "refs_ok ?s1"
    using assms cancel_evolves by (auto simp: refs_ok_def update_task_def)
  then show "evolves {} s (doCancel r s)"
    using evolves_trans_empty [OF 1(1) removeTask_evolves] by (simp add: doCancel_def Let_def)
  show "refs_ok (doCancel r s)" using 1 by (simp add: doCancel_def Let_def removeTask_refs)
qed

lemma evolves_flag: "evolves R s s' \<Longrightarrow> evolves R s (s'\<lparr>has_cancelled_tasks := b\<rparr>)"
  and refs_flag: "refs_ok s' \<Longrightarrow> refs_ok (s'\<lparr>has_cancelled_tasks := b\<rparr>)"
  by (simp_all add: evolves_def refs_ok_def)

lemma drop_tasks_evolves: "set ts \<subseteq> set (tasks s) \<Longrightarrow> evolves {} s (s\<lparr>tasks := ts\<rparr>)"
  and drop_tasks_refs: "set ts \<subseteq> set (tasks s) \<Longrightarrow> refs_ok s \<Longrightarrow> refs_ok (s\<lparr>tasks := ts\<rparr>)"
  by (auto simp: evolves_def refs_ok_def)

lemma cancelTask_evolves:
  assumes "refs_ok s"
  shows "evolves {} s (cancelTask i s)" "refs_ok (cancelTask i s)"
proof -
  show "evolves {} s (cancelTask i s)" "refs_ok (cancelTask i s)"
  proof (atomize (full), cases "map_of (tasks s) i")
    case None
    then show "evolves {} s (cancelTask i s) \<and> refs_ok (cancelTask i s)"
      using assms by (simp add: cancelTask_def evolves_refl)
  next
    case (Some r)
    let ?s1 = "if isSync s r then s\<lparr>tasks := AList.delete i (tasks s)\<rparr> else s"
    have r: "r < length (store ?s1)" using Some assms by (fastforce simp: refs_ok_def dest: map_of_SomeD)
    have 1: "evolves {} s ?s1" "refs_ok ?s1"
      using assms by (simp_all add: drop_tasks_evolves drop_tasks_refs evolves_refl set_AList_delete)
    then have "evolves {} s (doCancel r ?s1)" "refs_ok (doCancel r ?s1)"
      using doCancel_evolves [OF r 1(2)] evolves_trans_empty by blast+
    then show "evolves {} s (cancelTask i s) \<and> refs_ok (cancelTask i s)"
      by (simp add: cancelTask_def Some Let_def evolves_flag refs_flag)
  qed
qed

lemma fold_doCancel_evolves:
  "refs_ok s \<Longrightarrow> \<forall>e \<in> set es. snd e < length (store s) \<Longrightarrow>
    evolves {} s (fold (\<lambda>e. doCancel (snd e)) es s) \<and> refs_ok (fold (\<lambda>e. doCancel (snd e)) es s)"
proof (induction es arbitrary: s)
  case (Cons e es)
  let ?s1 = "doCancel (snd e) s"
  have 1: "evolves {} s ?s1" "refs_ok ?s1" using Cons.prems by (simp_all add: doCancel_evolves)
  then have "\<forall>e \<in> set es. snd e < length (store ?s1)"
    using Cons.prems(2) by (fastforce simp: evolves_def)
  from Cons.IH [OF 1(2) this] 1(1) show ?case using evolves_trans_empty by auto
qed (simp add: evolves_refl)

lemma cancelTasks_evolves:
  assumes "refs_ok s"
  shows "evolves {} s (cancelTasks p s)" "refs_ok (cancelTasks p s)"
proof -
  let ?s1 = "s\<lparr>tasks := filter (\<lambda>e. \<not> (owner (store s ! snd e) = Some p \<and> isSync s (snd e))) (tasks s)\<rparr>"
  let ?mine = "filter (\<lambda>e. owner (store s ! snd e) = Some p) (tasks s)"
  have 1: "evolves {} s ?s1" "refs_ok ?s1"
    using assms by (auto intro!: drop_tasks_evolves drop_tasks_refs)
  have "evolves {} ?s1 (fold (\<lambda>e. doCancel (snd e)) ?mine ?s1)
      \<and> refs_ok (fold (\<lambda>e. doCancel (snd e)) ?mine ?s1)"
    using 1(2) assms by (intro fold_doCancel_evolves) (auto simp: refs_ok_def)
  then have "evolves {} s (fold (\<lambda>e. doCancel (snd e)) ?mine ?s1)"
      "refs_ok (fold (\<lambda>e. doCancel (snd e)) ?mine ?s1)"
    using evolves_trans_empty [OF 1(1)] by blast+
  then show "evolves {} s (cancelTasks p s)" "refs_ok (cancelTasks p s)"
    by (simp_all add: cancelTasks_def Let_def evolves_flag refs_flag)
qed

lemma perform_evolves:
  assumes "refs_ok s" "perform c s = Some s'"
  shows "evolves {} s s' \<and> refs_ok s'"
proof (cases c)
  case (Register sync p en task delay per)
  with assms(2) obtain ro where "run_timer sync p en task delay per s = Some (ro, s')" by auto
  with assms(1) show ?thesis by (simp add: run_timer_evolves)
next
  case (Register_Server task)
  with assms(2) obtain ro where "runServerTask task s = Some (ro, s')" by auto
  with assms(1) show ?thesis by (simp add: runServerTask_evolves)
qed (use assms in \<open>auto simp: cancelTask_evolves cancelTasks_evolves\<close>)

lemma perform_all_evolves:
  "refs_ok s \<Longrightarrow> perform_all cs s = Some s' \<Longrightarrow> evolves {} s s' \<and> refs_ok s'"
proof (induction cs arbitrary: s)
  case (Cons c cs)
  then obtain s1 where s1: "perform c s = Some s1" "perform_all cs s1 = Some s'"
    by (auto split: option.splits)
  with perform_evolves [OF Cons.prems(1)] Cons.IH [of s1] show ?case
    using evolves_trans_empty by blast
qed (simp add: evolves_refl)


subsection \<open>Running the due buckets\<close>

lemma run_sync_evolves:
  assumes "refs_ok s" "run_sync script r s = Some s'"
  shows "evolves {} s s'" "refs_ok s'"
proof -
  let ?s0 = "s\<lparr>current_task := task_id (store s ! r)\<rparr>"
  obtain s1 where "perform_all (script (action (store ?s0 ! r)) ?s0) ?s0 = Some s1" "s' = s1\<lparr>current_task := 0\<rparr>"
    using assms(2) by (auto simp: run_sync_def run_callback_def split: option.splits)
  moreover have "refs_ok ?s0" using assms(1) by (simp add: refs_ok_def)
  ultimately have "evolves {} ?s0 s1 \<and> refs_ok s1" using perform_all_evolves by blast
  then show "evolves {} s s'" "refs_ok s'"
    using \<open>s' = _\<close> by (simp_all add: evolves_def refs_ok_def)
qed

lemma requeue_evolves:
  assumes "evolves {} s s1" "r < length (store s)" "refs_ok s1"
    and s': "s' = (update_task r (\<lambda>t. t\<lparr>next_run := now + period t\<rparr>) s1)\<lparr>pending := pending s1 @ [r]\<rparr>"
  shows "evolves {r} s s'" "refs_ok s'"
proof -
  have "r < length (store s1)" using assms(1,2) by (simp add: evolves_def)
  then have "evolves {r} s1 s'"
    by (auto simp: s' evolves_def update_task_def nth_list_update intro: exI [of _ "[r]"])
  with evolves_trans [of "{}" s s1 "{r}" s'] assms(1,2) show "evolves {r} s s'" by simp
  show "refs_ok s'" using assms(3) by (simp add: s' refs_ok_def update_task_def)
qed

lemma evolves_mono: "evolves R s s' \<Longrightarrow> R \<subseteq> Q \<Longrightarrow> evolves Q s s'"
  unfolding evolves_def by blast

lemma run_task_spec:
  assumes "refs_ok s" "r < length (store s)" "run_task script now r s = Some (s', l)"
  shows "evolves {r} s s'" "refs_ok s'" "l = (if isCancelled s r then [] else [r])"
proof -
  have rm: "evolves {} s t \<Longrightarrow> refs_ok t \<Longrightarrow> evolves {r} s (removeTask i t) \<and> refs_ok (removeTask i t)" for t i
    using evolves_trans_empty [OF _ removeTask_evolves] by (metis evolves_mono empty_subsetI removeTask_refs)
  have "evolves {r} s s' \<and> refs_ok s' \<and> l = (if isCancelled s r then [] else [r])"
  proof (cases "isCancelled s r")
    case True
    with assms rm [OF evolves_refl] evolves_refl show ?thesis by (auto simp: run_task_def)
  next
    case False
    then obtain s1 where s1: "(if isSync s r then run_sync script r s else Some (s\<lparr>executor := executor s @ [r]\<rparr>)) = Some s1"
      using assms(3) by (auto simp: run_task_def split: option.splits)
    have "evolves {} s (s\<lparr>executor := x\<rparr>)" "refs_ok (s\<lparr>executor := x\<rparr>)" for x
      using assms(1) by (simp_all add: evolves_def refs_ok_def)
    with s1 have e1: "evolves {} s s1" "refs_ok s1"
      using run_sync_evolves [OF assms(1)] by (auto split: if_splits)
    show ?thesis
      using assms(3) False s1 rm [OF e1] e1 requeue_evolves [OF e1(1) assms(2) e1(2) refl, of now]
      by (auto simp: run_task_def intro: evolves_mono split: if_splits)
  qed
  then show "evolves {r} s s'" "refs_ok s'" "l = (if isCancelled s r then [] else [r])" by auto
qed

lemma evolves_length: "evolves R s s' \<Longrightarrow> r < length (store s) \<Longrightarrow> r < length (store s')"
  by (auto simp: evolves_def)

lemma evolves_cancelled:
  "evolves R s s' \<Longrightarrow> r < length (store s) \<Longrightarrow> isCancelled s r \<Longrightarrow> isCancelled s' r"
  by (auto simp: evolves_def isCancelled_def)

lemma run_bucket_spec:
  assumes "refs_ok s" "distinct rs" "\<forall>r \<in> set rs. r < length (store s)"
    and "run_bucket script now rs s = Some (s', l)"
  shows "evolves (set rs) s s' \<and> refs_ok s' \<and> set l \<subseteq> set rs \<and> distinct l
    \<and> (\<forall>r \<in> set l. \<not> isCancelled s r) \<and> (\<forall>r \<in> set rs. \<not> isCancelled s' r \<longrightarrow> r \<in> set l)"
  using assms
proof (induction rs arbitrary: s l)
  case (Cons r rs)
  obtain s1 l1 l2 where s1: "run_task script now r s = Some (s1, l1)"
    and s2: "run_bucket script now rs s1 = Some (s', l2)" and l: "l = l1 @ l2"
    using Cons.prems(4) by (auto split: option.splits)
  note t = run_task_spec [OF Cons.prems(1) _ s1]
  have r: "r < length (store s)" using Cons.prems(3) by simp
  have ih: "evolves (set rs) s1 s' \<and> refs_ok s' \<and> set l2 \<subseteq> set rs \<and> distinct l2
      \<and> (\<forall>q \<in> set l2. \<not> isCancelled s1 q) \<and> (\<forall>q \<in> set rs. \<not> isCancelled s' q \<longrightarrow> q \<in> set l2)"
    using Cons.prems(2,3) evolves_length [OF t(1) [OF r]] by (intro Cons.IH [OF t(2) [OF r] _ _ s2]) auto
  have ev: "evolves ({r} \<union> set rs) s s'"
    using evolves_trans [OF t(1) [OF r], of "set rs" s'] ih Cons.prems(2,3) by auto
  have "\<not> isCancelled s q" if "q \<in> set l2" for q
    using that ih evolves_cancelled [OF t(1) [OF r]] Cons.prems(3) by (metis list.set_intros(2) subsetD)
  moreover have "r \<in> set l" if "\<not> isCancelled s' r"
    using that evolves_cancelled [OF ev r] t(3) [OF r] l by auto
  ultimately show ?case
    using ev ih t(3) [OF r] Cons.prems(2) l by (auto split: if_splits)
qed (simp add: evolves_refl)

abbreviation refs_of :: "(tick \<times> task_ref list) list \<Rightarrow> task_ref list" where
  "refs_of q \<equiv> concat (map snd q)"

lemma run_due_spec:
  assumes "refs_ok s" "distinct (refs_of q)" "\<forall>r \<in> set (refs_of q). r < length (store s)"
    and "queue s = q" "run_due script now q s = Some (s', l)"
  defines "due \<equiv> refs_of (takeWhile (\<lambda>e. fst e \<le> now) q)"
  shows "evolves (set due) s (s'\<lparr>queue := queue s\<rparr>) \<and> refs_ok s'
    \<and> queue s' = dropWhile (\<lambda>e. fst e \<le> now) q \<and> set l \<subseteq> set due \<and> distinct l
    \<and> (\<forall>r \<in> set l. \<not> isCancelled s r) \<and> (\<forall>r \<in> set due. \<not> isCancelled s' r \<longrightarrow> r \<in> set l)"
  using assms(1-5) unfolding due_def
proof (induction q arbitrary: s l)
  case Nil
  then have "s' = s" by simp
  with Nil show ?case by (simp add: evolves_def)
next
  case (Cons e q)
  obtain k b where e: "e = (k, b)" by (cases e)
  show ?case
  proof (cases "k > now")
    case True
    with Cons.prems e have "s' = s" by simp
    with Cons.prems True e show ?thesis by (simp add: evolves_def)
  next
    case False
    obtain s1 l1 l2 where s1: "run_bucket script now b s = Some (s1, l1)"
      and s2: "run_due script now q (s1\<lparr>queue := tl (queue s1)\<rparr>) = Some (s', l2)" and l: "l = l1 @ l2"
      using Cons.prems(5) e False by (auto split: option.splits)
    let ?s1 = "s1\<lparr>queue := tl (queue s1)\<rparr>"
    define d where "d = refs_of (takeWhile (\<lambda>e. fst e \<le> now) q)"
    have b: "evolves (set b) s s1 \<and> refs_ok s1 \<and> set l1 \<subseteq> set b \<and> distinct l1
        \<and> (\<forall>r \<in> set l1. \<not> isCancelled s r) \<and> (\<forall>r \<in> set b. \<not> isCancelled s1 r \<longrightarrow> r \<in> set l1)"
      using Cons.prems(1-3) e by (intro run_bucket_spec [OF _ _ _ s1]) auto
    then have q1: "queue s1 = (k, b) # q" using Cons.prems(4) e by (simp add: evolves_def)
    have dq: "set d \<subseteq> set (refs_of q)" by (auto simp: d_def dest: set_takeWhileD)
    have ih: "evolves (set d) ?s1 (s'\<lparr>queue := queue ?s1\<rparr>) \<and> refs_ok s'
        \<and> queue s' = dropWhile (\<lambda>e. fst e \<le> now) q \<and> set l2 \<subseteq> set d \<and> distinct l2
        \<and> (\<forall>r \<in> set l2. \<not> isCancelled ?s1 r) \<and> (\<forall>r \<in> set d. \<not> isCancelled s' r \<longrightarrow> r \<in> set l2)"
      unfolding d_def using Cons.prems(1-3) b q1 s2 e evolves_length [of "set b" s s1]
      by (intro Cons.IH) (auto simp: refs_ok_def)
    then have ev2: "evolves (set d) s1 (s'\<lparr>queue := queue s1\<rparr>)"
      by (simp add: evolves_def)
    have disj: "set b \<inter> set d = {}" using Cons.prems(2) e dq by fastforce
    have qs: "\<forall>r \<in> set (refs_of q). r < length (store s)" using Cons.prems(3) by simp
    have ds: "\<forall>r \<in> set d. r < length (store s)" using qs dq by (meson subsetD)
    with evolves_trans [OF _ ev2 disj] b q1 Cons.prems(4) e
    have ev: "evolves (set b \<union> set d) s (s'\<lparr>queue := queue s\<rparr>)" by (metis)
    have "\<not> isCancelled s r" if "r \<in> set l2" for r
    proof -
      have "r \<in> set d" "\<not> isCancelled s1 r" using that ih by (auto simp: isCancelled_def)
      moreover have "r < length (store s)" using \<open>r \<in> set d\<close> ds by blast
      ultimately show ?thesis using evolves_cancelled b by blast
    qed
    moreover have "r \<in> set l1" if "r \<in> set b" "\<not> isCancelled s' r" for r
    proof -
      have "r < length (store s)" using that(1) Cons.prems(3) e by simp
      then have "r < length (store s1)" using b evolves_length by blast
      then have "\<not> isCancelled s1 r"
        using evolves_cancelled [OF ev2] that(2) by (auto simp: isCancelled_def)
      then show ?thesis using b that(1) by blast
    qed
    moreover have du: "refs_of (takeWhile (\<lambda>e. fst e \<le> now) (e # q)) = b @ d"
      using e False by (simp add: d_def not_less)
    ultimately show ?thesis
      unfolding du using ev ih b disj False e l by auto
  qed
qed

subsection \<open>Membership in the buckets\<close>

definition queued :: "(tick \<times> task_ref list) list \<Rightarrow> tick \<Rightarrow> task_ref \<Rightarrow> bool" where
  "queued q k r \<longleftrightarrow> r \<in> set (bucket_of k q)"

lemma queued_iff: "sorted_map q \<Longrightarrow> queued q k r \<longleftrightarrow> (\<exists>b. (k, b) \<in> set q \<and> r \<in> set b)"
proof -
  assume "sorted_map q"
  then have "(k, b) \<in> set q \<longleftrightarrow> map_of q k = Some b" for b by (metis map_of_all sorted_map_distinct)
  then show ?thesis by (cases "map_of q k") (simp_all add: queued_def bucket_of_def)
qed

lemma queued_put [simp]: "queued (omap_put k b q) k' r \<longleftrightarrow> (if k' = k then r \<in> set b else queued q k' r)"
  by (simp add: queued_def bucket_of_def)

lemma refs_of_iff: "sorted_map q \<Longrightarrow> r \<in> set (refs_of q) \<longleftrightarrow> (\<exists>k. queued q k r)"
proof -
  assume "sorted_map q"
  then have "(\<exists>k. queued q k r) \<longleftrightarrow> (\<exists>k b. (k, b) \<in> set q \<and> r \<in> set b)" using queued_iff by blast
  also have "\<dots> \<longleftrightarrow> r \<in> set (refs_of q)" by force
  finally show ?thesis by blast
qed

lemma mset_refs_put:
  "sorted_map q \<Longrightarrow> mset b = add_mset r (mset (bucket_of k q))
    \<Longrightarrow> mset (refs_of (omap_put k b q)) = add_mset r (mset (refs_of q))"
proof (induction k b q rule: omap_put.induct)
  case step: (2 k b k' b' q)
  consider "k < k'" | "k = k'" | "k' < k" by (metis linorder_neqE)
  then show ?case
  proof cases
    case 1
    then have "map_of ((k', b') # q) k = None" using step.prems(1) by (intro map_of_above) auto
    with 1 step.prems(2) show ?thesis by (simp add: bucket_of_def)
  next
    case 2
    with step.prems show ?thesis by (simp add: bucket_of_def)
  next
    case 3
    with step show ?thesis by (auto simp: bucket_of_def)
  qed
qed (simp add: bucket_of_def)

lemma consume_pending_spec:
  assumes "sorted_map (queue s)" "distinct (rs @ refs_of (queue s))"
  shows "\<exists>q. consume_pending now rs s = s\<lparr>queue := q\<rparr> \<and> sorted_map q \<and> distinct (refs_of q)
    \<and> (\<forall>k r. queued q k r \<longleftrightarrow> queued (queue s) k r
          \<or> r \<in> set rs \<and> \<not> isCancelled s r \<and> k = max now (next_run (store s ! r)))"
  using assms
proof (induction rs arbitrary: s)
  case Nil
  then show ?case by (auto intro!: exI [of _ "queue s"])
next
  case (Cons r rs)
  show ?case
  proof (cases "isCancelled s r")
    case True
    with Cons.IH [OF Cons.prems(1)] Cons.prems(2) show ?thesis by auto
  next
    case False
    define k where "k = max now (next_run (store s ! r))"
    define b where "b = push_heap (task_later s) (bucket_of k (queue s) @ [r])"
    let ?s = "s\<lparr>queue := omap_put k b (queue s)\<rparr>"
    have b: "mset b = add_mset r (mset (bucket_of k (queue s)))" by (simp add: b_def)
    have m: "mset (refs_of (omap_put k b (queue s))) = mset (r # refs_of (queue s))"
      using mset_refs_put [OF Cons.prems(1) b] by simp
    then have "distinct (refs_of (omap_put k b (queue s)))"
      "set (refs_of (omap_put k b (queue s))) = insert r (set (refs_of (queue s)))"
      using mset_eq_imp_distinct_iff [OF m] mset_eq_setD [OF m] Cons.prems(2) by auto
    then have d: "distinct (rs @ refs_of (queue ?s))" using Cons.prems(2) by auto
    have s: "sorted_map (queue ?s)" using Cons.prems(1) by simp
    obtain q where q: "consume_pending now rs ?s = ?s\<lparr>queue := q\<rparr>" "sorted_map q" "distinct (refs_of q)"
      "\<forall>k r. queued q k r \<longleftrightarrow> queued (queue ?s) k r
          \<or> r \<in> set rs \<and> \<not> isCancelled ?s r \<and> k = max now (next_run (store ?s ! r))"
      using Cons.IH [OF s d] by blast
    have sb: "set b = insert r (set (bucket_of k (queue s)))" using mset_eq_setD [of b "r # _"] b by simp
    have "consume_pending now (r # rs) s = s\<lparr>queue := q\<rparr>"
      using False q(1) by (simp add: k_def b_def Let_def)
    moreover have "queued q k' r' \<longleftrightarrow> queued (queue s) k' r'
          \<or> r' \<in> set (r # rs) \<and> \<not> isCancelled s r' \<and> k' = max now (next_run (store s ! r'))" for k' r'
      using q(4) False by (auto simp: sb isCancelled_def k_def) (auto simp: queued_def)
    ultimately show ?thesis using q(2,3) by blast
  qed
qed

lemma removeCancelledTasks_spec:
  assumes "sorted_map (queue s)" "distinct (pending s @ refs_of (queue s))"
  shows "\<exists>q. removeCancelledTasks s = s\<lparr>pending := filter (\<lambda>r. \<not> isCancelled s r) (pending s), queue := q\<rparr>
    \<and> sorted_map q \<and> distinct (refs_of q)
    \<and> (\<forall>k r. queued q k r \<longleftrightarrow> queued (queue s) k r \<and> \<not> isCancelled s r)"
proof -
  define f where "f b = (let q = filter (\<lambda>r. \<not> isCancelled s r) b
      in if q = [] then [] else make_heap (task_later s) q)" for b
  define q where "q = filter (\<lambda>e. snd e \<noteq> []) (map (\<lambda>e. (fst e, f (snd e))) (queue s))"
  have f: "mset (f b) = mset (filter (\<lambda>r. \<not> isCancelled s r) b)" for b by (auto simp: f_def Let_def filter_empty_conv)
  then have fs: "set (f b) = set b \<inter> {r. \<not> isCancelled s r}" for b
    using mset_eq_setD [OF f [of b]] by auto
  have mq: "mset (refs_of (filter (\<lambda>e. snd e \<noteq> []) (map (\<lambda>e. (fst e, f (snd e))) m)))
      = mset (filter (\<lambda>r. \<not> isCancelled s r) (refs_of m))" for m :: "(tick \<times> task_ref list) list"
  proof (induction m)
    case (Cons e m)
    have "mset (if snd e' = [] then [] else snd e') = mset (f (snd e))" if "e' = (fst e, f (snd e))" for e'
      using that by simp
    with Cons.IH f [of "snd e"] show ?case by (cases "f (snd e) = []") simp_all
  qed simp
  have d: "distinct (refs_of q)"
    unfolding q_def mset_eq_imp_distinct_iff [OF mq] using assms(2) by (intro distinct_filter) simp
  have srt: "sorted_map (filter P (map (\<lambda>e. (fst e, g (snd e))) m))"
    if "sorted_map m" for P g and m :: "(tick \<times> task_ref list) list"
    using that unfolding sorted_wrt_map by (intro sorted_wrt_filter) (simp add: sorted_wrt_map)
  have "queued q k r \<longleftrightarrow> queued (queue s) k r \<and> \<not> isCancelled s r" for k r
  proof -
    have "queued q k r \<longleftrightarrow> (\<exists>b. (k, b) \<in> set q \<and> r \<in> set b)"
      unfolding q_def by (rule queued_iff [OF srt [OF assms(1)]])
    also have "\<dots> \<longleftrightarrow> (\<exists>b. (k, b) \<in> set (queue s) \<and> r \<in> set (f b))"
    proof -
      have "(k, b) \<in> set q \<longleftrightarrow> b \<noteq> [] \<and> (\<exists>c. (k, c) \<in> set (queue s) \<and> b = f c)" for b
        by (force simp: q_def image_iff)
      then show ?thesis by (metis empty_iff empty_set)
    qed
    also have "\<dots> \<longleftrightarrow> queued (queue s) k r \<and> \<not> isCancelled s r"
      by (auto simp: queued_iff [OF assms(1)] fs)
    finally show ?thesis .
  qed
  moreover have "removeCancelledTasks s = s\<lparr>pending := filter (\<lambda>r. \<not> isCancelled s r) (pending s), queue := q\<rparr>"
    by (simp add: removeCancelledTasks_def q_def f_def)
  moreover have "sorted_map q" unfolding q_def by (rule srt [OF assms(1)])
  ultimately show ?thesis using d by blast
qed

subsection \<open>The heartbeat\<close>

definition sched_inv :: "'act scheduler \<Rightarrow> bool" where
  "sched_inv s \<longleftrightarrow> refs_ok s \<and> sorted_map (queue s) \<and> distinct (pending s @ refs_of (queue s))
     \<and> (\<forall>r \<in> set (pending s @ refs_of (queue s)). r < length (store s))"

text \<open>The tick of a heartbeat, and the tasks that are due at it.\<close>

definition tick_of :: "tick \<Rightarrow> 'act scheduler \<Rightarrow> tick" where
  "tick_of server_tick s = current_tick (heartbeat_tick server_tick s)"

definition due :: "tick \<Rightarrow> 'act scheduler \<Rightarrow> task_ref \<Rightarrow> bool" where
  "due now s r \<longleftrightarrow> (\<exists>k \<le> now. queued (queue s) k r) \<or> r \<in> set (pending s) \<and> next_run (store s ! r) \<le> now"

lemma refs_of_takeWhile:
  assumes "sorted_map q"
  shows "r \<in> set (refs_of (takeWhile (\<lambda>e. fst e \<le> now) q)) \<longleftrightarrow> (\<exists>k \<le> now. queued q k r)"
proof -
  have "set (takeWhile (\<lambda>e. fst e \<le> now) q) = {e \<in> set q. fst e \<le> now}"
    using assms by (induction q) (auto simp: not_le dest: order.strict_trans2)
  then have "r \<in> set (refs_of (takeWhile (\<lambda>e. fst e \<le> now) q)) \<longleftrightarrow> (\<exists>k \<le> now. \<exists>b. (k, b) \<in> set q \<and> r \<in> set b)"
    by force
  then show ?thesis using queued_iff [OF assms] by simp
qed

lemma dropWhile_above:
  assumes "sorted_map q" "queued (dropWhile (\<lambda>e. fst e \<le> now) q) k r"
  shows "now < k \<and> queued q k r"
proof -
  have "\<forall>e \<in> set (dropWhile (\<lambda>e. fst e \<le> now) q). now < fst e"
    using assms(1) by (induction q) (auto simp: not_le)
  moreover have "(k, bucket_of k (dropWhile (\<lambda>e. fst e \<le> now) q)) \<in> set (dropWhile (\<lambda>e. fst e \<le> now) q)"
    using assms(2) by (auto simp: queued_def bucket_of_def dest: map_of_SomeD split: option.splits)
  ultimately show ?thesis
    using assms queued_iff [OF assms(1)] by (fastforce simp: queued_def dest: set_dropWhileD)
qed

lemma distinct_append_mono:
  "distinct (a @ b) \<Longrightarrow> distinct a' \<Longrightarrow> distinct b' \<Longrightarrow> set a' \<subseteq> set a \<Longrightarrow> set b' \<subseteq> set b
    \<Longrightarrow> distinct (a' @ b')"
  by auto

lemma sorted_dropWhile: "sorted_map q \<Longrightarrow> sorted_map (dropWhile P q)"
  by (induction q) auto

lemma heartbeat_prepare_spec:
  fixes server_tick :: tick
  assumes "sched_inv s"
  defines "p \<equiv> heartbeat_prepare server_tick s"
  shows "store p = store s \<and> tasks p = tasks s \<and> current_tick p = tick_of server_tick s
     \<and> base_tick p = base_tick (heartbeat_tick server_tick s)
     \<and> pending p = [] \<and> sorted_map (queue p) \<and> distinct (refs_of (queue p))
     \<and> (\<forall>k r. queued (queue p) k r \<longrightarrow> queued (queue s) k r
          \<or> r \<in> set (pending s) \<and> k = max (tick_of server_tick s) (next_run (store s ! r)))
     \<and> (\<forall>k r. (queued (queue s) k r
          \<or> r \<in> set (pending s) \<and> k = max (tick_of server_tick s) (next_run (store s ! r)))
          \<and> \<not> isCancelled s r \<longrightarrow> queued (queue p) k r)"
proof -
  let ?now = "tick_of server_tick s"
  define s1 where "s1 = heartbeat_tick server_tick s"
  have s1: "store s1 = store s" "tasks s1 = tasks s" "pending s1 = pending s" "queue s1 = queue s" "current_tick s1 = ?now"
    "base_tick s1 = base_tick (heartbeat_tick server_tick s)"
    by (simp_all add: s1_def heartbeat_tick_def tick_of_def Let_def)
  define s2 where "s2 = (if has_cancelled_tasks s1 then removeCancelledTasks (s1\<lparr>has_cancelled_tasks := False\<rparr>) else s1)"
  have inv: "sorted_map (queue s)" "distinct (pending s @ refs_of (queue s))"
    using assms(1) by (simp_all add: sched_inv_def)
  have s2: "store s2 = store s \<and> tasks s2 = tasks s \<and> current_tick s2 = ?now \<and> sorted_map (queue s2)
    \<and> base_tick s2 = base_tick (heartbeat_tick server_tick s)
    \<and> distinct (pending s2 @ refs_of (queue s2))
    \<and> set (pending s2) \<subseteq> set (pending s) \<and> (\<forall>r \<in> set (pending s). \<not> isCancelled s r \<longrightarrow> r \<in> set (pending s2))
    \<and> (\<forall>k r. queued (queue s2) k r \<longrightarrow> queued (queue s) k r)
    \<and> (\<forall>k r. queued (queue s) k r \<and> \<not> isCancelled s r \<longrightarrow> queued (queue s2) k r)"
  proof (cases "has_cancelled_tasks s1")
    case True
    let ?s = "s1\<lparr>has_cancelled_tasks := False\<rparr>"
    obtain q where q: "removeCancelledTasks ?s = ?s\<lparr>pending := filter (\<lambda>r. \<not> isCancelled ?s r) (pending ?s), queue := q\<rparr>"
      "sorted_map q" "distinct (refs_of q)"
      "\<forall>k r. queued q k r \<longleftrightarrow> queued (queue ?s) k r \<and> \<not> isCancelled ?s r"
      using removeCancelledTasks_spec [of ?s] inv s1 by auto
    have sub: "set (refs_of q) \<subseteq> set (refs_of (queue s))"
      unfolding subset_iff refs_of_iff [OF q(2)] refs_of_iff [OF inv(1)] using q(4) s1 by auto
    have "queue s2 = q" "pending s2 = filter (\<lambda>r. \<not> isCancelled s r) (pending s)"
        "store s2 = store s" "tasks s2 = tasks s" "current_tick s2 = ?now"
        "base_tick s2 = base_tick (heartbeat_tick server_tick s)"
      using q True s1 by (simp_all add: s2_def isCancelled_def)
    moreover from this have "distinct (pending s2 @ refs_of (queue s2))"
      using inv(2) q(3) sub by (intro distinct_append_mono [OF inv(2)]) auto
    ultimately show ?thesis using q(2,4) s1 by (simp add: isCancelled_def)
  next
    case False
    then show ?thesis using inv s1 by (simp add: s2_def)
  qed
  have p: "p = consume_pending ?now (pending s2) (s2\<lparr>pending := []\<rparr>)"
    using s2 unfolding p_def heartbeat_prepare_def Let_def s1_def [symmetric] s2_def [symmetric] by simp
  obtain q where q: "p = s2\<lparr>pending := [], queue := q\<rparr>" "sorted_map q" "distinct (refs_of q)"
    "\<forall>k r. queued q k r \<longleftrightarrow> queued (queue s2) k r
          \<or> r \<in> set (pending s2) \<and> \<not> isCancelled s r \<and> k = max ?now (next_run (store s ! r))"
    using consume_pending_spec [of "s2\<lparr>pending := []\<rparr>" "pending s2" ?now] s2 p
    by (auto simp: isCancelled_def)
  show ?thesis using q s2 by auto
qed

text \<open>A repeating task that ran and was not cancelled waits for its next turn.\<close>

definition requeued :: "tick \<Rightarrow> 'act scheduler \<Rightarrow> task_ref \<Rightarrow> bool" where
  "requeued now s r \<longleftrightarrow> (\<not> isCancelled s r \<and> period (store s ! r) > 0
     \<longrightarrow> r \<in> set (pending s) \<and> next_run (store s ! r) = now + period (store s ! r))"

lemma run_task_requeued:
  assumes "refs_ok s" "r < length (store s)" "run_task script now r s = Some (s', l)" "q \<in> set l"
  shows "requeued now s' q"
proof -
  have q: "q = r" "\<not> isCancelled s r" using run_task_spec(3) [OF assms(1-3)] assms(4) by (auto split: if_splits)
  then obtain s1 where s1: "(if isSync s r then run_sync script r s else Some (s\<lparr>executor := executor s @ [r]\<rparr>)) = Some s1"
    using assms(3) by (auto simp: run_task_def split: option.splits)
  have "evolves {} s s1"
    using s1 run_sync_evolves(1) [OF assms(1)] by (auto simp: evolves_def split: if_splits)
  then have "r < length (store s1)" using assms(2) by (simp add: evolves_def)
  then show ?thesis
    using assms(3) q s1
    by (auto simp: run_task_def requeued_def update_task_def removeTask_def isCancelled_def split: if_splits)
qed

lemma requeued_evolves:
  assumes "requeued now s r" "evolves R s s'" "r < length (store s)" "r \<notin> R"
  shows "requeued now s' r"
proof -
  have "fixed_part (store s' ! r) = fixed_part (store s ! r)" "next_run (store s' ! r) = next_run (store s ! r)"
    "cancelled (store s ! r) \<longrightarrow> cancelled (store s' ! r)" "set (pending s) \<subseteq> set (pending s')"
    using assms(2-4) unfolding evolves_def by auto
  with assms(1) fixed_part_eqD(3) [of "store s' ! r" "store s ! r"]
  show ?thesis by (auto simp: requeued_def isCancelled_def)
qed

lemma run_bucket_requeued:
  assumes "refs_ok s" "distinct rs" "\<forall>r \<in> set rs. r < length (store s)"
    and "run_bucket script now rs s = Some (s', l)" "q \<in> set l"
  shows "requeued now s' q"
  using assms
proof (induction rs arbitrary: s l)
  case (Cons r rs)
  obtain s1 l1 l2 where s1: "run_task script now r s = Some (s1, l1)"
    and s2: "run_bucket script now rs s1 = Some (s', l2)" and l: "l = l1 @ l2"
    using Cons.prems(4) by (auto split: option.splits)
  have r: "r < length (store s)" using Cons.prems(3) by simp
  note t = run_task_spec [OF Cons.prems(1) r s1]
  have rs: "distinct rs" "\<forall>r \<in> set rs. r < length (store s1)"
    using Cons.prems(2,3) evolves_length [OF t(1)] by simp_all
  show ?case
  proof (cases "q \<in> set l2")
    case True
    with Cons.IH [OF t(2) rs s2] show ?thesis by blast
  next
    case False
    then have "q \<in> set l1" using l Cons.prems(5) by simp
    then have "q = r" "requeued now s1 q"
      using t(3) run_task_requeued [OF Cons.prems(1) r s1] by (auto split: if_splits)
    moreover have "evolves (set rs) s1 s'" using run_bucket_spec [OF t(2) rs s2] by blast
    ultimately show ?thesis
      using requeued_evolves [of now s1 q "set rs" s'] evolves_length [OF t(1) r] Cons.prems(2) by simp
  qed
qed simp

lemma run_due_requeued:
  assumes "refs_ok s" "distinct (refs_of q)" "\<forall>r \<in> set (refs_of q). r < length (store s)"
    and "queue s = q" "run_due script now q s = Some (s', l)" "x \<in> set l"
  shows "requeued now s' x"
  using assms
proof (induction q arbitrary: s l)
  case (Cons e q)
  obtain k b where e: "e = (k, b)" by (cases e)
  with Cons.prems(5,6) have k: "\<not> k > now" by auto
  obtain s1 l1 l2 where s1: "run_bucket script now b s = Some (s1, l1)"
    and s2: "run_due script now q (s1\<lparr>queue := tl (queue s1)\<rparr>) = Some (s', l2)" and l: "l = l1 @ l2"
    using Cons.prems(5) e k by (auto split: option.splits)
  let ?s1 = "s1\<lparr>queue := tl (queue s1)\<rparr>"
  have db: "distinct b" "\<forall>r \<in> set b. r < length (store s)" using Cons.prems(2,3) e by auto
  note b = run_bucket_spec [OF Cons.prems(1) db s1]
  have q1: "queue ?s1 = q" "refs_ok ?s1" using b Cons.prems(4) e by (simp_all add: evolves_def refs_ok_def)
  have dq: "distinct (refs_of q)" "\<forall>r \<in> set (refs_of q). r < length (store ?s1)"
  proof -
    show "\<forall>r \<in> set (refs_of q). r < length (store ?s1)"
    proof
      fix r
      assume "r \<in> set (refs_of q)"
      then have "r < length (store s)" using Cons.prems(3) e by simp
      then show "r < length (store ?s1)" using b evolves_length [of "set b" s s1 r] by simp
    qed
    show "distinct (refs_of q)" using Cons.prems(2) e by simp
  qed
  show ?case
  proof (cases "x \<in> set l2")
    case True
    with Cons.IH [OF q1(2) dq q1(1) s2] show ?thesis by blast
  next
    case False
    then have x: "x \<in> set b" "requeued now s1 x"
      using l Cons.prems(6) b run_bucket_requeued [OF Cons.prems(1) db s1] by auto
    then have 1: "requeued now ?s1 x" by (simp add: requeued_def isCancelled_def)
    let ?d = "set (refs_of (takeWhile (\<lambda>e. fst e \<le> now) q))"
    have 2: "evolves ?d ?s1 (s'\<lparr>queue := queue ?s1\<rparr>)"
      using run_due_spec [OF q1(2) dq q1(1) s2] by blast
    have "?d \<subseteq> set (refs_of q)" by (auto dest: set_takeWhileD)
    then have 3: "x \<notin> ?d" using x(1) Cons.prems(2) e by fastforce
    have "x < length (store ?s1)" using b x(1) db(2) by (auto simp: evolves_def)
    from requeued_evolves [OF 1 2 this 3] show ?thesis by (simp add: requeued_def isCancelled_def)
  qed
qed simp


text \<open>One heartbeat, whatever the callbacks do.\<close>

lemma heartbeat_spec:
  assumes "sched_inv s" "mainThreadHeartbeat script server_tick s = Some (s', executed)"
  shows "sched_inv s' \<and> current_tick s' = tick_of server_tick s \<and> distinct executed
    \<and> base_tick s' = base_tick (heartbeat_tick server_tick s)
    \<and> (\<forall>r \<in> set executed. due (tick_of server_tick s) s r \<and> \<not> isCancelled s r)
    \<and> (\<forall>r. due (tick_of server_tick s) s r \<and> \<not> isCancelled s' r \<longrightarrow> r \<in> set executed)
    \<and> (\<forall>k r. queued (queue s') k r \<longrightarrow> tick_of server_tick s < k)
    \<and> (\<forall>r \<in> set executed. requeued (tick_of server_tick s) s' r)
    \<and> (\<forall>k r. k > tick_of server_tick s \<and> \<not> isCancelled s r
          \<and> (queued (queue s) k r \<or> r \<in> set (pending s) \<and> next_run (store s ! r) = k)
          \<longrightarrow> queued (queue s') k r)
    \<and> (\<forall>r < length (store s). r < length (store s') \<and> fixed_part (store s' ! r) = fixed_part (store s ! r)
          \<and> (isCancelled s r \<longrightarrow> isCancelled s' r)
          \<and> (\<not> due (tick_of server_tick s) s r \<longrightarrow> next_run (store s' ! r) = next_run (store s ! r)))"
proof -
  define p where "p = heartbeat_prepare server_tick s"
  define now where "now = tick_of server_tick s"
  define d where "d = refs_of (takeWhile (\<lambda>e. fst e \<le> now) (queue p))"
  note p = heartbeat_prepare_spec [OF assms(1), of server_tick, folded p_def now_def]
  have run: "run_due script now (queue p) p = Some (s', executed)"
    using assms(2) p by (simp add: mainThreadHeartbeat_def p_def [symmetric] Let_def)
  have sp: "sorted_map (queue p)" "distinct (refs_of (queue p))" and ss: "sorted_map (queue s)"
    using p assms(1) by (simp_all add: sched_inv_def)
  have rp: "refs_ok p" using p assms(1) by (simp add: sched_inv_def refs_ok_def)
  have inq: "r \<in> set (pending s @ refs_of (queue s))" if "r \<in> set (refs_of (queue p))" for r
  proof -
    obtain k where "queued (queue p) k r" using \<open>r \<in> _\<close> refs_of_iff [OF sp(1)] by blast
    then have "queued (queue s) k r \<or> r \<in> set (pending s)" using p by blast
    then show ?thesis unfolding set_append Un_iff refs_of_iff [OF ss] by blast
  qed
  then have lp: "\<forall>r \<in> set (refs_of (queue p)). r < length (store p)"
    using assms(1) p unfolding sched_inv_def by metis
  have run_spec: "evolves (set d) p (s'\<lparr>queue := queue p\<rparr>)" "refs_ok s'"
    "queue s' = dropWhile (\<lambda>e. fst e \<le> now) (queue p)" "set executed \<subseteq> set d" "distinct executed"
    "\<forall>r \<in> set executed. \<not> isCancelled p r" "\<forall>r \<in> set d. \<not> isCancelled s' r \<longrightarrow> r \<in> set executed"
    using run_due_spec [OF rp sp(2) lp refl run] unfolding d_def by blast+
  have d: "r \<in> set d \<longleftrightarrow> (\<exists>k \<le> now. queued (queue p) k r)" for r
    unfolding d_def by (rule refs_of_takeWhile [OF sp(1)])
  have canc: "isCancelled p r = isCancelled s r" for r using p by (simp add: isCancelled_def)
  have dd: "r \<in> set d \<Longrightarrow> due now s r" for r using p d by (fastforce simp: due_def max_def split: if_splits)
  have inr: "r < length (store p)" if "due now s r" for r
  proof -
    have "r \<in> set (pending s @ refs_of (queue s))"
      using that by (auto simp: due_def refs_of_iff [OF ss] simp del: set_concat)
    then show ?thesis using assms(1) p unfolding sched_inv_def by metis
  qed
  have executed: "r \<in> set executed" if "due now s r" "\<not> isCancelled s' r" for r
  proof -
    have "\<not> isCancelled p r"
      using that(2) inr [OF that(1)] run_spec(1) by (auto simp: evolves_def isCancelled_def)
    then have "r \<in> set d" using p that(1) canc by (auto simp: d due_def max_def)
    with run_spec(7) that(2) show ?thesis by blast
  qed
  have split: "refs_of (queue p) = d @ refs_of (queue s')"
    unfolding d_def run_spec(3) by (metis concat_append map_append takeWhile_dropWhile_id)
  obtain new where new: "pending s' = new" "distinct new"
    "\<forall>r \<in> set new. r < length (store s') \<and> (r < length (store p) \<longrightarrow> r \<in> set d)"
    using run_spec(1) p unfolding evolves_def by auto
  have len: "length (store p) \<le> length (store s')" using run_spec(1) by (simp add: evolves_def)
  have rest: "\<forall>r \<in> set (refs_of (queue s')). r < length (store p) \<and> r \<notin> set d"
    using sp(2) lp unfolding split by auto
  then have "set new \<inter> set (refs_of (queue s')) = {}" using new(3) by blast
  then have "sched_inv s'"
    using run_spec(2,3) sp new len rest split sorted_dropWhile
    by (auto simp: sched_inv_def simp del: set_concat dest: less_le_trans)
  moreover have "current_tick s' = now" "base_tick s' = base_tick (heartbeat_tick server_tick s)"
    using run_spec(1) p by (simp_all add: evolves_def)
  moreover have "queued (queue s') k r \<Longrightarrow> now < k" for k r
    using dropWhile_above [OF sp(1)] run_spec(3) by simp
  moreover have "queued (queue s') k r" if "k > now" "queued (queue p) k r" for k r
    using that sp(1) sorted_dropWhile [OF sp(1)] unfolding run_spec(3)
    by (auto simp: queued_iff) (metis (mono_tags, lifting) UnE fst_conv leD set_append set_takeWhileD takeWhile_dropWhile_id)
  moreover have "queued (queue p) k r"
    if "k > now" "\<not> isCancelled s r" "queued (queue s) k r \<or> r \<in> set (pending s) \<and> next_run (store s ! r) = k" for k r
  proof -
    have "max now k = k" using that(1) by (simp add: max_def less_imp_le)
    with p that(2,3) show ?thesis by metis
  qed
  moreover have "\<forall>r \<in> set executed. requeued now s' r" using run_due_requeued [OF rp sp(2) lp refl run] by blast
  moreover have "\<forall>r < length (store s). r < length (store s') \<and> fixed_part (store s' ! r) = fixed_part (store s ! r)
          \<and> (isCancelled s r \<longrightarrow> isCancelled s' r)
          \<and> (\<not> due now s r \<longrightarrow> next_run (store s' ! r) = next_run (store s ! r))"
    using run_spec(1) p dd len by (auto simp: evolves_def isCancelled_def)
  ultimately show ?thesis
    using run_spec(4-6) executed dd canc unfolding now_def [symmetric] by blast
qed

subsection \<open>The invariant in every reachable state\<close>

lemma evolves_inv:
  assumes "sched_inv s" "evolves {} s s'" "refs_ok s'"
  shows "sched_inv s'"
proof -
  obtain new where new: "pending s' = pending s @ new" "distinct new"
    "\<forall>r \<in> set new. r < length (store s') \<and> \<not> r < length (store s)"
    using assms(2) unfolding evolves_def by blast
  have q: "queue s' = queue s" and len: "length (store s) \<le> length (store s')"
    using assms(2) by (simp_all add: evolves_def)
  have old: "\<forall>r \<in> set (pending s @ refs_of (queue s)). r < length (store s)"
    "distinct (pending s @ refs_of (queue s))" using assms(1) by (simp_all add: sched_inv_def)
  define rs where "rs = refs_of (queue s)"
  have "distinct (pending s' @ rs)" "\<forall>r \<in> set (pending s' @ rs). r < length (store s')"
    using old new len unfolding rs_def [symmetric] by (auto dest: less_le_trans)
  then show ?thesis using assms(1,3) q unfolding sched_inv_def rs_def by simp
qed

lemma inv_init: "sched_inv EndstoneScheduler"
  by (simp add: sched_inv_def EndstoneScheduler_def refs_ok_def)

lemma inv_perform: "sched_inv s \<Longrightarrow> perform c s = Some s' \<Longrightarrow> sched_inv s'"
  using evolves_inv perform_evolves unfolding sched_inv_def by metis

subsection \<open>Identifiers\<close>

abbreviation id_count :: nat where
  "id_count \<equiv> 4294967294"

lemma nextId_step:
  fixes i :: task_id
  assumes "1 \<le> unat i"
  defines "i0 \<equiv> (if i \<ge> 0xFFFFFFFF then 1 else i)"
  shows "unat i0 = (unat i - 1) mod id_count + 1" "unat (i0 + 1) = unat i0 + 1"
proof -
  have i: "unat i < 2 ^ 32" using unat_lt2p [of i] by simp
  show i0: "unat i0 = (unat i - 1) mod id_count + 1"
  proof (cases "i \<ge> 0xFFFFFFFF")
    case True
    then have "4294967295 \<le> unat i" by (simp add: word_le_nat_alt)
    with i have "unat i = 4294967295" by simp
    with True show ?thesis by (simp add: i0_def)
  next
    case False
    then have "unat i < 4294967295" by (simp add: word_le_nat_alt)
    then have "(unat i - 1) mod id_count = unat i - 1" by (intro mod_less) arith
    with False assms(1) show ?thesis by (simp add: i0_def)
  qed
  then have "unat i0 \<le> id_count" by (simp add: Suc_leI)
  then show "unat (i0 + 1) = unat i0 + 1" by (subst word_add_unat) simp_all
qed

lemma nextId_loop_None:
  assumes "nextId_loop n ts i = None" "1 \<le> unat i" "j < n"
  shows "map_of ts (word_of_nat ((unat i - 1 + j) mod id_count + 1)) \<noteq> None"
  using assms
proof (induction n arbitrary: i j)
  case (Suc n)
  define i0 where "i0 = (if i \<ge> 0xFFFFFFFF then 1 else i)"
  note u = nextId_step [OF Suc.prems(2), folded i0_def]
  have l: "map_of ts i0 \<noteq> None" "nextId_loop n ts (i0 + 1) = None"
    using Suc.prems(1) by (simp_all add: i0_def [symmetric] Let_def split: if_splits)
  show ?case
  proof (cases j)
    case 0
    have "i0 = word_of_nat ((unat i - 1) mod id_count + 1)" unfolding u(1) [symmetric] by simp
    with 0 l(1) show ?thesis by simp
  next
    case (Suc m)
    have "(unat (i0 + 1) - 1 + m) mod id_count = ((unat i - 1) mod id_count + Suc m) mod id_count"
      using u by simp
    also have "\<dots> = (unat i - 1 + j) mod id_count" by (simp only: mod_add_left_eq Suc)
    finally show ?thesis
      using Suc.IH [OF l(2), of m] Suc u(2) Suc.prems(3) by simp
  qed
qed simp

lemma nextId_loop_Some:
  "nextId_loop n ts i = Some (k, i') \<Longrightarrow> 1 \<le> unat i
    \<Longrightarrow> map_of ts k = None \<and> 1 \<le> unat k \<and> unat k \<le> id_count \<and> 1 \<le> unat i'"
proof (induction n arbitrary: i)
  case (Suc n)
  define i0 where "i0 = (if i \<ge> 0xFFFFFFFF then 1 else i)"
  note u = nextId_step [OF Suc.prems(2), folded i0_def]
  have "(unat i - 1) mod id_count < id_count" by simp
  then have "unat i0 \<le> id_count" using u(1) by linarith
  with Suc u show ?case by (auto simp: i0_def [symmetric] Let_def split: if_splits)
qed simp

lemma mod_shift_inj:
  fixes a c x y :: nat
  assumes "x < c" "y < c" "(a + x) mod c = (a + y) mod c"
  shows "x = y"
proof -
  have "x = y" if "x \<le> y" "x < c" "y < c" "(a + x) mod c = (a + y) mod c" for x y :: nat
  proof -
    have "c dvd (a + y) - (a + x)" using that(1,4) by (metis add_le_cancel_left mod_eq_dvd_iff_nat)
    then have "c dvd y - x" by simp
    with that(1,3) show "x = y" using dvd_imp_le [of c "y - x"] by (cases "x = y") auto
  qed
  from this [of x y] this [of y x] assms show ?thesis by (cases "x \<le> y") simp_all
qed

lemma word_of_nat_inj_on: "inj_on (word_of_nat :: nat \<Rightarrow> 'a::len word) {..< 2 ^ LENGTH('a)}"
  by (rule inj_onI) (metis lessThan_iff of_nat_inverse)

lemma id_inj:
  assumes "n \<le> id_count"
  shows "inj_on (\<lambda>j. word_of_nat ((a + j) mod id_count + 1) :: task_id) {..< n}"
proof (rule inj_onI)
  fix x y
  assume xy: "x \<in> {..< n}" "y \<in> {..< n}"
    and eq: "(word_of_nat ((a + x) mod id_count + 1) :: task_id) = word_of_nat ((a + y) mod id_count + 1)"
  have r: "(a + j) mod id_count + 1 \<in> {..< 2 ^ LENGTH(32)}" for j
    using mod_less_divisor [of id_count "a + j"] by simp
  have "(a + x) mod id_count + 1 = (a + y) mod id_count + 1"
    by (rule inj_onD [OF word_of_nat_inj_on eq r r])
  then have m: "(a + x) mod id_count = (a + y) mod id_count" by (rule add_right_imp_eq)
  have "x < id_count" "y < id_count" using xy assms by (simp_all only: lessThan_iff)
  then show "x = y" using m by (rule mod_shift_inj)
qed

lemma pigeon_free_key:
  assumes "inj_on f {..< Suc (length ts)}"
  shows "\<exists>j < Suc (length ts). map_of ts (f j) = None"
proof (rule ccontr)
  assume "\<not> ?thesis"
  then have "f ` {..< Suc (length ts)} \<subseteq> fst ` set ts"
    by (auto simp: map_of_eq_None_iff)
  then have "card (f ` {..< Suc (length ts)}) \<le> card (fst ` set ts)" by (simp add: card_mono)
  moreover have "card (fst ` set ts) \<le> length ts" by (metis card_length length_map set_map)
  ultimately show False using card_image [OF assms] by simp
qed

text \<open>C4: As long as fewer than \<open>2\<^sup>3\<^sup>2 - 2\<close> tasks are registered, \<open>nextId\<close> returns, within as many
  trials as there are tasks plus one, an identifier that no registered task has, and which is neither
  0 (the value of \<open>current_task_\<close> when no task runs) nor the largest one.\<close>

theorem nextId_fresh:
  assumes "length (tasks s) < id_count" "1 \<le> unat (ids s)"
  shows "\<exists>i s'. nextId s = Some (i, s') \<and> map_of (tasks s) i = None \<and> 1 \<le> unat i \<and> unat i \<le> id_count
    \<and> 1 \<le> unat (ids s')"
proof (cases "nextId_loop (Suc (length (tasks s))) (tasks s) (ids s)")
  case None
  have "Suc (length (tasks s)) \<le> id_count" using assms(1) by (rule Suc_leI)
  from pigeon_free_key [OF id_inj [OF this]] nextId_loop_None [OF None assms(2)]
  show ?thesis by blast
next
  case (Some p)
  then show ?thesis
    using nextId_loop_Some [OF _ assms(2)] by (cases p) (fastforce simp: nextId_def)
qed

subsection \<open>Runs of the main thread\<close>

text \<open>The main thread performs calls and heartbeats in any order; the log holds, for each heartbeat,
  its tick and the tasks it ran or handed to the executor.\<close>

datatype 'act event = Call "'act call" | Heartbeat tick

fun execute :: "'act script \<Rightarrow> 'act event list \<Rightarrow> 'act scheduler
   \<Rightarrow> ('act scheduler \<times> (tick \<times> task_ref list) list) option" where
  "execute script [] s = Some (s, [])"
| "execute script (Call c # es) s =
     (case perform c s of None \<Rightarrow> None | Some s1 \<Rightarrow> execute script es s1)"
| "execute script (Heartbeat t # es) s =
     (case mainThreadHeartbeat script t s of
        None \<Rightarrow> None
      | Some (s1, e) \<Rightarrow> (case execute script es s1 of
            None \<Rightarrow> None
          | Some (s2, l) \<Rightarrow> Some (s2, (current_tick s1, e) # l)))"

lemma execute_ConsE:
  assumes "execute script (ev # es) s = Some (s', l)"
  obtains c s1 where "ev = Call c" "perform c s = Some s1" "execute script es s1 = Some (s', l)"
  | t s1 e l1 where "ev = Heartbeat t" "mainThreadHeartbeat script t s = Some (s1, e)"
      "execute script es s1 = Some (s', l1)" "l = (current_tick s1, e) # l1"
  using assms by (cases ev) (auto split: option.splits)

text \<open>What a whole heartbeat does to the existing tasks.\<close>

lemma heartbeat_evolves:
  assumes "sched_inv s" "mainThreadHeartbeat script t s = Some (s', e)" "r < length (store s)"
  shows "r < length (store s')" "isCancelled s r \<Longrightarrow> isCancelled s' r"
    and "fixed_part (store s' ! r) = fixed_part (store s ! r)"
    and "\<not> due (tick_of t s) s r \<Longrightarrow> next_run (store s' ! r) = next_run (store s ! r)"
  using heartbeat_spec [OF assms(1,2)] assms(3) by blast+

lemma execute_inv:
  "sched_inv s \<Longrightarrow> execute script es s = Some (s', l) \<Longrightarrow>
    sched_inv s' \<and> (\<forall>r < length (store s). r < length (store s') \<and> (isCancelled s r \<longrightarrow> isCancelled s' r))"
proof (induction es arbitrary: s l)
  case (Cons ev es)
  from Cons.prems(2) show ?case
  proof (cases rule: execute_ConsE)
    case (1 c s1)
    have "evolves {} s s1" using perform_evolves 1(2) Cons.prems(1) by (auto simp: sched_inv_def)
    with Cons.IH [OF inv_perform [OF Cons.prems(1) 1(2)] 1(3)] show ?thesis
      by (auto simp: evolves_length evolves_cancelled)
  next
    case (2 t s1 e l1)
    have "sched_inv s1" using heartbeat_spec [OF Cons.prems(1) 2(2)] by blast
    from Cons.IH [OF this 2(3)] heartbeat_evolves [OF Cons.prems(1) 2(2)] show ?thesis by blast
  qed
qed simp

text \<open>A cancelled task does not run.\<close>

lemma cancelled_never_runs:
  "sched_inv s \<Longrightarrow> execute script es s = Some (s', l) \<Longrightarrow> r < length (store s) \<Longrightarrow> isCancelled s r
    \<Longrightarrow> \<forall>e \<in> set l. r \<notin> set (snd e)"
proof (induction es arbitrary: s l)
  case (Cons ev es)
  from Cons.prems(2) show ?case
  proof (cases rule: execute_ConsE)
    case (1 c s1)
    have "evolves {} s s1" using perform_evolves 1(2) Cons.prems(1) by (auto simp: sched_inv_def)
    with Cons.IH [OF inv_perform [OF Cons.prems(1) 1(2)] 1(3)] Cons.prems(3,4) show ?thesis
      by (simp add: evolves_length evolves_cancelled)
  next
    case (2 t s1 e l1)
    note h = heartbeat_spec [OF Cons.prems(1) 2(2)] heartbeat_evolves [OF Cons.prems(1) 2(2) Cons.prems(3)]
    have "\<forall>e \<in> set l1. r \<notin> set (snd e)"
      using Cons.IH [OF _ 2(3)] h Cons.prems(4) by blast
    moreover have "r \<notin> set e" using h(1) Cons.prems(4) by blast
    ultimately show ?thesis by (simp add: 2(4))
  qed
qed simp

lemma cancelTask_cancels:
  assumes "refs_ok s" "map_of (tasks s) i = Some r"
  shows "r < length (store (cancelTask i s))" "isCancelled (cancelTask i s) r" "\<not> isQueued (cancelTask i s) i \<or> \<not> isSync s r"
proof -
  have r: "r < length (store s)" using assms by (fastforce simp: refs_ok_def dest: map_of_SomeD)
  then show "r < length (store (cancelTask i s))" "isCancelled (cancelTask i s) r"
    using assms(2) by (simp_all add: cancelTask_def Let_def doCancel_def isCancelled_def update_task_def removeTask_def isSync_def)
  show "\<not> isQueued (cancelTask i s) i \<or> \<not> isSync s r"
    using assms(2) by (auto simp: cancelTask_def Let_def doCancel_def isQueued_def isSync_def update_task_def removeTask_def delete_conv)
qed

text \<open>A task that is cancelled while it is registered is never run again, by whatever sequence of
  calls and heartbeats follows, and it stays cancelled; a synchronous one is unregistered at once.\<close>

theorem cancelTask_stops:
  assumes "execute script0 es0 EndstoneScheduler = Some (s, l0)" "map_of (tasks s) i = Some r"
    and "execute script es (cancelTask i s) = Some (s', l)"
  shows "(\<forall>e \<in> set l. r \<notin> set (snd e)) \<and> isCancelled s' r \<and> (\<not> isQueued (cancelTask i s) i \<or> \<not> isSync s r)"
proof -
  have inv: "sched_inv s" using execute_inv [OF inv_init assms(1)] by blast
  then have inv': "sched_inv (cancelTask i s)" using inv_perform [of s "Cancel_Task i"] by simp
  have "refs_ok s" using inv by (simp add: sched_inv_def)
  note c = cancelTask_cancels [OF this assms(2)]
  show ?thesis using cancelled_never_runs [OF inv' assms(3) c(1,2)] execute_inv [OF inv' assms(3)] c by blast
qed

subsection \<open>The delay contract\<close>

definition waiting :: "tick \<Rightarrow> task_ref \<Rightarrow> 'act scheduler \<Rightarrow> bool" where
  "waiting k r s \<longleftrightarrow> r < length (store s)
     \<and> (r \<in> set (pending s) \<and> next_run (store s ! r) = k \<or> queued (queue s) k r)"

lemma queued_in: "queued q k r \<Longrightarrow> r \<in> set (refs_of q)"
  by (cases "map_of q k") (force simp: queued_def bucket_of_def dest: map_of_SomeD)+

lemma queued_unique:
  "distinct (refs_of q) \<Longrightarrow> queued q k r \<Longrightarrow> queued q k' r \<Longrightarrow> k = k'"
proof (induction q)
  case (Cons e q)
  have "queued (e # q) j r \<longleftrightarrow> (if j = fst e then r \<in> set (snd e) else queued q j r)" for j
    by (simp add: queued_def bucket_of_def)
  then show ?case using Cons queued_in [of q _ r] by (auto split: if_splits simp del: set_concat)
qed (simp add: queued_def bucket_of_def)

lemma waiting_not_due:
  assumes "sched_inv s" "waiting k r s" "now < k"
  shows "\<not> due now s r"
proof -
  have d: "distinct (refs_of (queue s))" "r \<in> set (pending s) \<Longrightarrow> r \<notin> set (refs_of (queue s))"
    using assms(1) unfolding sched_inv_def distinct_append by blast+
  show ?thesis
    using assms(2,3) d queued_in queued_unique [OF d(1)] unfolding waiting_def due_def
    by (metis leD)
qed

lemma waiting_call:
  assumes "sched_inv s" "perform c s = Some s'" "waiting k r s"
  shows "waiting k r s'"
proof -
  have e: "evolves {} s s'" using perform_evolves assms(1,2) by (auto simp: sched_inv_def)
  then show ?thesis using assms(3) by (auto simp: waiting_def evolves_def)
qed

lemma waiting_heartbeat:
  assumes "sched_inv s" "mainThreadHeartbeat script t s = Some (s', e)" "waiting k r s"
  shows "tick_of t s < k \<Longrightarrow> r \<notin> set e \<and> (\<not> isCancelled s r \<longrightarrow> waiting k r s')"
    and "k \<le> tick_of t s \<Longrightarrow> \<not> isCancelled s' r \<Longrightarrow> r \<in> set e"
proof -
  note h = heartbeat_spec [OF assms(1,2)]
  show "r \<notin> set e \<and> (\<not> isCancelled s r \<longrightarrow> waiting k r s')" if "tick_of t s < k"
    using waiting_not_due [OF assms(1,3) that] h that assms(3) unfolding waiting_def by blast
  assume k: "k \<le> tick_of t s" "\<not> isCancelled s' r"
  then have "due (tick_of t s) s r" using assms(3) by (auto simp: waiting_def due_def)
  with h k(2) show "r \<in> set e" by blast
qed

lemma waiting_runs_on_time:
  "sched_inv s \<Longrightarrow> waiting k r s \<Longrightarrow> execute script es s = Some (s', l) \<Longrightarrow> \<not> isCancelled s' r
   \<Longrightarrow> (\<forall>(t, e) \<in> set (takeWhile (\<lambda>(t, e). t < k) l). r \<notin> set e)
     \<and> (\<forall>t e l'. dropWhile (\<lambda>(t, e). t < k) l = (t, e) # l' \<longrightarrow> r \<in> set e)"
proof (induction es arbitrary: s l)
  case (Cons ev es)
  from Cons.prems(3) show ?case
  proof (cases rule: execute_ConsE)
    case (1 c s1)
    from Cons.IH [OF inv_perform [OF Cons.prems(1) 1(2)] waiting_call [OF Cons.prems(1) 1(2) Cons.prems(2)] 1(3) Cons.prems(4)]
    show ?thesis .
  next
    case (2 t s1 e l1)
    note h = heartbeat_spec [OF Cons.prems(1) 2(2)]
    have inv: "sched_inv s1" and tick: "current_tick s1 = tick_of t s" using h by blast+
    have r: "r < length (store s)" using Cons.prems(2) by (simp add: waiting_def)
    have "r < length (store s1)" using h r by blast
    then have c: "\<not> isCancelled s1 r" using execute_inv [OF inv 2(3)] Cons.prems(4) by blast
    then have c0: "\<not> isCancelled s r" using h r by blast
    note w = waiting_heartbeat [OF Cons.prems(1) 2(2) Cons.prems(2)]
    show ?thesis
    proof (cases "tick_of t s < k")
      case True
      with Cons.IH [OF inv _ 2(3) Cons.prems(4)] w(1) [OF True] c0 show ?thesis
        by (simp add: 2(4) tick)
    next
      case False
      then have "r \<in> set e" using w(2) [OF _ c] by (simp add: not_less)
      with False show ?thesis by (simp add: 2(4) tick)
    qed
  qed
qed simp

lemma run_timer_waiting:
  assumes "run_timer sync p en task delay per s = Some (Some r, s')"
  shows "waiting (current_tick s + delay) r s' \<and> r = length (store s)"
proof -
  obtain act i s1 where "task = Some act" and s1: "nextId s = Some (i, s1)"
    and r: "r = fst (new_task (Some p) sync act delay per i s1)"
    "s' = addTask r (snd (new_task (Some p) sync act delay per i s1))"
    using assms by (auto simp: run_timer_def split: option.splits if_splits prod.splits)
  obtain i' where "s1 = s\<lparr>ids := i'\<rparr>" using nextId_Some [OF s1] by blast
  with r show ?thesis by (simp add: new_task_def addTask_def waiting_def nth_append)
qed

text \<open>C1: The delay contract. A task registered at tick \<open>c\<close> with delay \<open>d\<close>, synchronous or not, in any
  reachable state, is not run by the heartbeats whose ticks are below \<open>c + d\<close> (a 64-bit sum), and is
  run by the first heartbeat whose tick is not, whatever calls come before, between and after,
  provided it is never cancelled.\<close>

theorem delay_contract:
  assumes "execute script0 es0 EndstoneScheduler = Some (s, l0)"
    and "run_timer sync plugin enabled task delay per s = Some (Some r, s1)"
    and "execute script es s1 = Some (s', l)" "\<not> isCancelled s' r"
  shows "(\<forall>(t, e) \<in> set (takeWhile (\<lambda>(t, e). t < current_tick s + delay) l). r \<notin> set e)
    \<and> (\<forall>t e l'. dropWhile (\<lambda>(t, e). t < current_tick s + delay) l = (t, e) # l' \<longrightarrow> r \<in> set e)"
proof -
  have inv: "sched_inv s" using execute_inv [OF inv_init assms(1)] by blast
  have "perform (Register sync plugin enabled task delay per) s = Some s1" using assms(2) by simp
  from inv_perform [OF inv this] run_timer_waiting [OF assms(2)] show ?thesis
    using waiting_runs_on_time [OF _ _ assms(3,4)] by blast
qed

text \<open>C2: What a heartbeat does in any reachable state: it runs every task that is due at its tick and
  is not cancelled by the end, each at most once, and no other; no bucket at or before the tick is
  left; a repeating task that ran waits with its next run one period later; a waiting task that is
  not due and not cancelled is in the bucket of its own tick.\<close>

theorem heartbeat_runs_due:
  assumes "execute script0 es0 EndstoneScheduler = Some (s, l0)"
    and "mainThreadHeartbeat script server_tick s = Some (s', executed)"
  shows "current_tick s' = tick_of server_tick s \<and> distinct executed
    \<and> (\<forall>r \<in> set executed. due (tick_of server_tick s) s r \<and> \<not> isCancelled s r)
    \<and> (\<forall>r. due (tick_of server_tick s) s r \<and> \<not> isCancelled s' r \<longrightarrow> r \<in> set executed)
    \<and> (\<forall>k r. queued (queue s') k r \<longrightarrow> tick_of server_tick s < k)
    \<and> (\<forall>r \<in> set executed. requeued (tick_of server_tick s) s' r)
    \<and> (\<forall>k r. k > tick_of server_tick s \<and> \<not> isCancelled s r
          \<and> (queued (queue s) k r \<or> r \<in> set (pending s) \<and> next_run (store s ! r) = k)
          \<longrightarrow> queued (queue s') k r)"
proof -
  have "sched_inv s" using execute_inv [OF inv_init assms(1)] by blast
  from heartbeat_spec [OF this assms(2)] show ?thesis by blast
qed

text \<open>Ticks are relative to the first heartbeat: it has tick 1 whatever the server tick is, and a
  heartbeat \<open>n\<close> server ticks later has tick \<open>n + 1\<close>.\<close>

theorem ticks_relative:
  assumes "mainThreadHeartbeat script t s = Some (s1, e1)" "base_tick s = None" "sched_inv s"
    and "mainThreadHeartbeat script' (t + n) s1 = Some (s2, e2)"
  shows "current_tick s1 = 1 \<and> current_tick s2 = n + 1"
proof -
  have "base_tick s1 = base_tick (heartbeat_tick t s)" "current_tick s1 = tick_of t s" and inv: "sched_inv s1"
    using heartbeat_spec [OF assms(3,1)] by blast+
  then have 1: "current_tick s1 = 1" "base_tick s1 = Some t"
    using assms(2) by (simp_all add: tick_of_def heartbeat_tick_def)
  have "current_tick s2 = tick_of (t + n) s1" using heartbeat_spec [OF inv assms(4)] by blast
  then show ?thesis using 1 by (simp add: tick_of_def heartbeat_tick_def)
qed

subsection \<open>Concrete runs\<close>

definition idle :: "nat script" where
  "idle a s = []"

definition demo_start :: "nat scheduler" where
  "demo_start = snd (the (run_timer True 7 True (Some 0) 2 0 EndstoneScheduler))"

definition demo_end :: "nat scheduler" where
  "demo_end = fst (the (execute idle [Heartbeat 40, Heartbeat 41] demo_start))"

lemma demo_register: "run_timer True 7 True (Some 0) 2 0 EndstoneScheduler = Some (Some 0, demo_start)"
  by code_simp

lemma demo_run: "execute idle [Heartbeat 40, Heartbeat 41] demo_start = Some (demo_end, [(1, []), (2, [0])])"
  by code_simp

theorem delay_contract_witness:
  "\<exists>e1 e2. execute idle [Heartbeat 40, Heartbeat 41] demo_start = Some (demo_end, [(1, e1), (2, e2)])
    \<and> 0 \<notin> set e1 \<and> 0 \<in> set e2"
proof -
  have c: "\<not> isCancelled demo_end 0" by code_simp
  have t: "current_tick (EndstoneScheduler :: nat scheduler) = 0" by (simp add: EndstoneScheduler_def)
  show ?thesis
    using delay_contract [OF _ demo_register demo_run c, of idle "[]" "[]"] demo_run unfolding t by simp
qed

theorem heartbeat_runs_due_witness:
  "current_tick demo_end = 2"
proof -
  define s where "s = fst (the (execute idle [Heartbeat 40] demo_start))"
  have 1: "execute idle [Call (Register True 7 True (Some 0) 2 0), Heartbeat 40] EndstoneScheduler = Some (s, [(1, [])])"
    unfolding s_def by code_simp
  have 2: "mainThreadHeartbeat idle 41 s = Some (demo_end, [0])" unfolding s_def by code_simp
  have 3: "tick_of 41 s = 2" unfolding s_def by code_simp
  show ?thesis using heartbeat_runs_due [OF 1 2] unfolding 3 by blast
qed

theorem cancelTask_stops_witness:
  "isCancelled (fst (the (execute idle [Heartbeat 40, Heartbeat 41] (cancelTask 1 demo_start)))) 0"
proof -
  define s' where "s' = fst (the (execute idle [Heartbeat 40, Heartbeat 41] (cancelTask 1 demo_start)))"
  have 1: "execute idle [Call (Register True 7 True (Some 0) 2 0)] EndstoneScheduler = Some (demo_start, [])"
    by code_simp
  have 2: "map_of (tasks demo_start) 1 = Some 0" by code_simp
  have 3: "execute idle [Heartbeat 40, Heartbeat 41] (cancelTask 1 demo_start) = Some (s', [(1, []), (2, [])])"
    unfolding s'_def by code_simp
  show ?thesis using cancelTask_stops [OF 1 2 3] unfolding s'_def by blast
qed

theorem ticks_relative_witness: "current_tick demo_end = 1 + 1"
proof -
  define s where "s = fst (the (execute idle [Heartbeat 40] demo_start))"
  have 1: "mainThreadHeartbeat idle 40 demo_start = Some (s, [])" unfolding s_def by code_simp
  have 2: "mainThreadHeartbeat idle (40 + 1) s = Some (demo_end, [0])" unfolding s_def by code_simp
  have 3: "base_tick demo_start = None" "current_tick demo_end = 2" by code_simp+
  have 4: "sched_inv demo_start" using inv_perform [OF inv_init, of "Register True 7 True (Some 0) 2 0"] demo_register by auto
  show ?thesis using ticks_relative [OF 1 3(1) 4 2] by blast
qed

theorem nextId_fresh_witness:
  "\<exists>i s'. nextId demo_start = Some (i, s') \<and> map_of (tasks demo_start) i = None \<and> 1 \<le> unat i \<and> unat i \<le> id_count
    \<and> 1 \<le> unat (ids s')"
proof -
  have "length (tasks demo_start) = 1" "ids demo_start = 2" by code_simp+
  then show ?thesis by (intro nextId_fresh) simp_all
qed

text \<open>Tasks of one tick run in the order of the bucket's array, which is a heap but not sorted: here
  task 2 runs before the older task 1 that is due at the same tick.\<close>

lemma same_tick_not_in_order:
  "map_option snd (execute idle
     [Call (Register True 7 True (Some 0) 0 2), Call (Register True 7 True (Some 1) 3 0),
      Call (Register True 7 True (Some 2) 3 0), Heartbeat 5, Heartbeat 6, Heartbeat 7] EndstoneScheduler)
   = Some [(1, [0]), (2, []), (3, [0, 2, 1])]"
  by code_simp

end
