(* ===== verification/Async_Task.thy ===== *)
theory Async_Task
  imports Prelude
begin

text \<open>
  One asynchronous task (\<open>src/endstone/core/scheduler/async_task.cpp\<close>) under concurrency: worker threads
  that run it, threads that cancel it, and the main thread that submits it. The steps are the regions
  between two synchronisations: what is done under the task's mutex is one step, since every other
  access to \<open>workers_\<close> takes the mutex too; \<open>cancelled_\<close> is atomic and may be set between any two
  steps; \<open>removeTask\<close> is a step of its own, outside the mutex. Threads are numbered; a thread that
  runs the task a second time counts as a new one.
\<close>

subsection \<open>States and steps\<close>

datatype worker = Absent | Submitted | Running | Leaving bool | Done

datatype canceller = Outside | Found | Checking | Removing | Finished

record async_task =
  repeating :: bool
  cancelled :: bool
  registered :: bool
  workers :: "nat list"
  worker_at :: "nat \<Rightarrow> worker"
  canceller_at :: "nat \<Rightarrow> canceller"

definition new_async :: "bool \<Rightarrow> async_task" where
  "new_async rep = \<lparr>repeating = rep, cancelled = False, registered = True, workers = [],
     worker_at = (\<lambda>_. Absent), canceller_at = (\<lambda>_. Outside)\<rparr>"

text \<open>The first mutex region of \<open>run\<close>: give up if cancelled, else enter the worker list.\<close>

definition run_enter :: "nat \<Rightarrow> async_task \<Rightarrow> async_task" where
  "run_enter i t =
     (if cancelled t then t\<lparr>worker_at := (worker_at t)(i := Done)\<rparr>
      else t\<lparr>workers := workers t @ [i], worker_at := (worker_at t)(i := Running)\<rparr>)"

text \<open>The second one: leave the worker list and decide whether this worker removes the task. The callback has ended by then, normally or with an
  exception of the standard library; one of another type passes the handler and leaves the worker in the list, which is left out here.\<close>

definition run_leave :: "nat \<Rightarrow> async_task \<Rightarrow> async_task" where
  "run_leave i t =
     (let ws = remove1 i (workers t); finished = (ws = [] \<and> (\<not> repeating t \<or> cancelled t))
      in t\<lparr>workers := ws, worker_at := (worker_at t)(i := Leaving finished)\<rparr>)"

text \<open>The mutex region of \<open>doCancel\<close>.\<close>

definition cancel_check :: "nat \<Rightarrow> async_task \<Rightarrow> async_task" where
  "cancel_check c t = t\<lparr>canceller_at := (canceller_at t)(c := if workers t = [] then Removing else Finished)\<rparr>"

inductive async_step :: "async_task \<Rightarrow> async_task \<Rightarrow> bool" where
  submit: "worker_at t i = Absent \<Longrightarrow> repeating t \<or> (\<forall>j. worker_at t j = Absent) \<Longrightarrow>
    async_step t (t\<lparr>worker_at := (worker_at t)(i := Submitted)\<rparr>)"
| enter: "worker_at t i = Submitted \<Longrightarrow> async_step t (run_enter i t)"
| leave: "worker_at t i = Running \<Longrightarrow> async_step t (run_leave i t)"
| worker_end: "worker_at t i = Leaving f \<Longrightarrow>
    async_step t (t\<lparr>worker_at := (worker_at t)(i := Done), registered := registered t \<and> \<not> f\<rparr>)"
| cancel_find: "canceller_at t c = Outside \<Longrightarrow> registered t \<Longrightarrow>
    async_step t (t\<lparr>canceller_at := (canceller_at t)(c := Found)\<rparr>)"
| cancel_store: "canceller_at t c = Found \<Longrightarrow>
    async_step t (t\<lparr>cancelled := True, canceller_at := (canceller_at t)(c := Checking)\<rparr>)"
| cancel_region: "canceller_at t c = Checking \<Longrightarrow> async_step t (cancel_check c t)"
| cancel_remove: "canceller_at t c = Removing \<Longrightarrow>
    async_step t (t\<lparr>canceller_at := (canceller_at t)(c := Finished), registered := False\<rparr>)"

inductive async_reachable :: "bool \<Rightarrow> async_task \<Rightarrow> bool" for rep where
  start: "async_reachable rep (new_async rep)"
| step: "async_reachable rep t \<Longrightarrow> async_step t t' \<Longrightarrow> async_reachable rep t'"

inductive_cases async_stepE: "async_step t t'"

text \<open>No thread is inside \<open>run\<close> or \<open>doCancel\<close>.\<close>

definition quiescent :: "async_task \<Rightarrow> bool" where
  "quiescent t \<longleftrightarrow> (\<forall>i. worker_at t i \<in> {Absent, Done}) \<and> (\<forall>c. canceller_at t c \<in> {Outside, Finished})"

subsection \<open>The invariant\<close>

text \<open>Some thread has decided to remove the task; some thread has got beyond the start of \<open>run\<close>; some
  thread is about to look whether the task is idle.\<close>

definition removing :: "(nat \<Rightarrow> worker) \<Rightarrow> (nat \<Rightarrow> canceller) \<Rightarrow> bool" where
  "removing w c \<longleftrightarrow> (\<exists>i. w i = Leaving True) \<or> (\<exists>i. c i = Removing)"

definition begun :: "(nat \<Rightarrow> worker) \<Rightarrow> bool" where
  "begun w \<longleftrightarrow> (\<exists>i. w i \<notin> {Absent, Submitted})"

definition in_check :: "(nat \<Rightarrow> canceller) \<Rightarrow> bool" where
  "in_check c \<longleftrightarrow> (\<exists>i. c i = Checking)"

text \<open>A one-shot task is submitted once; a canceller that has stored the flag is seen; the worker list
  holds the running threads.\<close>

definition submitted_once :: "(nat \<Rightarrow> worker) \<Rightarrow> bool" where
  "submitted_once w \<longleftrightarrow> (\<forall>i j. w i \<noteq> Absent \<longrightarrow> w j \<noteq> Absent \<longrightarrow> i = j)"

definition stored :: "(nat \<Rightarrow> canceller) \<Rightarrow> bool" where
  "stored c \<longleftrightarrow> (\<exists>i. c i \<in> {Checking, Removing, Finished})"

definition workers_exact :: "nat list \<Rightarrow> (nat \<Rightarrow> worker) \<Rightarrow> bool" where
  "workers_exact ws w \<longleftrightarrow> distinct ws \<and> set ws = {i. w i = Running}"

text \<open>Registered exactly until the task is over or its removal is under way.\<close>

definition async_inv :: "async_task \<Rightarrow> bool" where
  "async_inv t \<longleftrightarrow> workers_exact (workers t) (worker_at t)
     \<and> (stored (canceller_at t) \<longrightarrow> cancelled t)
     \<and> (repeating t \<or> submitted_once (worker_at t))
     \<and> (\<not> registered t \<or> removing (worker_at t) (canceller_at t) \<longrightarrow>
          workers t = [] \<and> (cancelled t \<or> \<not> repeating t \<and> begun (worker_at t)))
     \<and> (cancelled t \<or> \<not> repeating t \<and> begun (worker_at t) \<longrightarrow>
          \<not> registered t \<or> removing (worker_at t) (canceller_at t) \<or> workers t \<noteq> [] \<or> in_check (canceller_at t))"

lemma async_inv_start: "async_inv (new_async rep)"
  by (simp add: async_inv_def new_async_def removing_def begun_def in_check_def workers_exact_def
      stored_def submitted_once_def)

text \<open>How a change of one program counter shows in these predicates.\<close>

lemma worker_update:
  "w i \<noteq> Leaving True \<Longrightarrow> removing (w(i := x)) c \<longleftrightarrow> x = Leaving True \<or> removing w c"
  "x \<notin> {Absent, Submitted} \<Longrightarrow> begun (w(i := x))"
  "w i \<in> {Absent, Submitted} \<Longrightarrow> x \<in> {Absent, Submitted} \<Longrightarrow> begun (w(i := x)) = begun w"
  "w i \<notin> {Absent, Submitted} \<Longrightarrow> begun w"
  "w i = Leaving True \<Longrightarrow> removing w c"
  unfolding removing_def begun_def by auto

lemma canceller_update:
  "c i \<noteq> Removing \<Longrightarrow> removing w (c(i := x)) \<longleftrightarrow> x = Removing \<or> removing w c"
  "c i \<noteq> Checking \<Longrightarrow> in_check (c(i := x)) \<longleftrightarrow> x = Checking \<or> in_check c"
  "c i \<in> {Checking, Removing, Finished} \<Longrightarrow> stored c"
  "c i = Removing \<Longrightarrow> removing w c"
  unfolding removing_def in_check_def stored_def by auto

lemma stored_update:
  assumes "c i \<in> {Outside, Found}"
  shows "stored (c(i := x)) \<longleftrightarrow> x \<in> {Checking, Removing, Finished} \<or> stored c"
proof -
  have "(c(i := x)) j = (if j = i then x else c j)" for j by simp
  then show ?thesis using assms unfolding stored_def by (metis (no_types, opaque_lifting) canceller.distinct insert_iff singletonD)
qed

lemma submitted_update:
  "submitted_once w \<Longrightarrow> w i \<noteq> Absent \<Longrightarrow> submitted_once (w(i := x))"
  "\<forall>j. w j = Absent \<Longrightarrow> submitted_once (w(i := x))"
  unfolding submitted_once_def by auto

lemma exact_update:
  "workers_exact ws w \<Longrightarrow> w i \<noteq> Running \<Longrightarrow> x \<noteq> Running \<Longrightarrow> workers_exact ws (w(i := x))"
  "workers_exact ws w \<Longrightarrow> w i \<noteq> Running \<Longrightarrow> workers_exact (ws @ [i]) (w(i := Running))"
  "workers_exact ws w \<Longrightarrow> w i = Running \<Longrightarrow> x \<noteq> Running \<Longrightarrow> workers_exact (remove1 i ws) (w(i := x))"
  "workers_exact ws w \<Longrightarrow> w i = Running \<Longrightarrow> ws \<noteq> []"
  unfolding workers_exact_def by auto

lemmas pc_updates = worker_update canceller_update stored_update submitted_update exact_update

lemma inv_submit:
  assumes "async_inv t" "worker_at t i = Absent" "repeating t \<or> (\<forall>j. worker_at t j = Absent)"
  shows "async_inv (t\<lparr>worker_at := (worker_at t)(i := Submitted)\<rparr>)"
  using assms by (auto simp: async_inv_def pc_updates)

lemma not_begun_yet:
  assumes "submitted_once w" "w i = Submitted"
  shows "\<not> begun w"
  using assms unfolding submitted_once_def begun_def by (metis insertCI worker.distinct(1))

lemma inv_enter:
  assumes "async_inv t" "worker_at t i = Submitted"
  shows "async_inv (run_enter i t)"
proof (cases "cancelled t")
  case True
  with assms show ?thesis by (auto simp: async_inv_def run_enter_def pc_updates)
next
  case False
  with assms not_begun_yet [of "worker_at t" i] show ?thesis
    by (auto simp: async_inv_def run_enter_def pc_updates)
qed

lemma inv_leave:
  assumes "async_inv t" "worker_at t i = Running"
  shows "async_inv (run_leave i t)"
proof -
  have "workers t \<noteq> []" using assms exact_update(4) by (auto simp: async_inv_def)
  with assms show ?thesis by (auto simp: async_inv_def run_leave_def Let_def pc_updates)
qed

lemma inv_worker_end:
  assumes "async_inv t" "worker_at t i = Leaving f"
  shows "async_inv (t\<lparr>worker_at := (worker_at t)(i := Done), registered := registered t \<and> \<not> f\<rparr>)"
proof -
  have "begun (worker_at t)" using assms(2) worker_update(4) [of "worker_at t" i] by simp
  moreover have "f \<Longrightarrow> removing (worker_at t) (canceller_at t)"
    using assms(2) worker_update(5) [of "worker_at t" i] by simp
  ultimately show ?thesis using assms by (cases f) (auto simp: async_inv_def pc_updates)
qed

lemma inv_cancel_find:
  "async_inv t \<Longrightarrow> canceller_at t c = Outside \<Longrightarrow> async_inv (t\<lparr>canceller_at := (canceller_at t)(c := Found)\<rparr>)"
  by (auto simp: async_inv_def pc_updates)

lemma inv_cancel_store:
  "async_inv t \<Longrightarrow> canceller_at t c = Found \<Longrightarrow>
    async_inv (t\<lparr>cancelled := True, canceller_at := (canceller_at t)(c := Checking)\<rparr>)"
  by (auto simp: async_inv_def pc_updates)

lemma inv_cancel_check:
  assumes "async_inv t" "canceller_at t c = Checking"
  shows "async_inv (cancel_check c t)"
proof -
  have "cancelled t" using assms canceller_update(3) [of "canceller_at t" c] by (simp add: async_inv_def)
  with assms show ?thesis by (auto simp: async_inv_def cancel_check_def pc_updates)
qed

lemma inv_cancel_remove:
  assumes "async_inv t" "canceller_at t c = Removing"
  shows "async_inv (t\<lparr>canceller_at := (canceller_at t)(c := Finished), registered := False\<rparr>)"
proof -
  have "cancelled t" "removing (worker_at t) (canceller_at t)"
    using assms canceller_update(3,4) [of "canceller_at t" c] by (simp_all add: async_inv_def)
  with assms show ?thesis by (auto simp: async_inv_def)
qed

lemma async_inv_step:
  assumes "async_step t t'" "async_inv t"
  shows "async_inv t'"
  using assms(1)
  by (cases rule: async_stepE)
    (use assms(2) inv_submit inv_enter inv_leave inv_worker_end inv_cancel_find inv_cancel_store
      inv_cancel_check inv_cancel_remove in \<open>blast+\<close>)

lemma async_reachable_inv: "async_reachable rep t \<Longrightarrow> async_inv t \<and> repeating t = rep"
proof (induction rule: async_reachable.induct)
  case start
  show ?case using async_inv_start by (simp add: new_async_def)
next
  case (step t t')
  have "repeating t' = repeating t"
    using step(2) by (cases rule: async_stepE) (auto simp: run_enter_def run_leave_def cancel_check_def Let_def split: if_splits)
  with step async_inv_step show ?case by blast
qed

subsection \<open>Cancellation races\<close>

text \<open>C3: Whatever the interleaving of submissions, runs and cancellations, when no thread is inside
  \<open>run\<close> or \<open>doCancel\<close> any more the worker list is empty, and a task that was cancelled, or a one-shot task
  that was picked up, is no longer registered with the scheduler; a task is unregistered for no other
  reason.\<close>

theorem async_quiescent_unregistered:
  assumes "async_reachable rep t" "quiescent t"
  shows "workers t = [] \<and> (registered t \<longleftrightarrow> \<not> cancelled t \<and> (rep \<or> \<not> begun (worker_at t)))"
proof -
  note inv = async_reachable_inv [OF assms(1)]
  have "worker_at t i \<noteq> Leaving True" "canceller_at t i \<noteq> Removing" "canceller_at t i \<noteq> Checking" for i
    using assms(2) unfolding quiescent_def by (metis worker.distinct canceller.distinct insert_iff singletonD)+
  then have none: "\<not> removing (worker_at t) (canceller_at t)" "\<not> in_check (canceller_at t)"
    unfolding removing_def in_check_def by simp_all
  have "worker_at t i \<noteq> Running" for i
    using assms(2) unfolding quiescent_def by (metis worker.distinct insert_iff singletonD)
  then have "workers t = []" using inv by (simp add: async_inv_def workers_exact_def)
  then show ?thesis using inv none unfolding async_inv_def by auto
qed

text \<open>The worker list holds exactly the threads that are running the callback, and while there is
  one the task is registered, so that \<open>getActiveWorkers\<close> sees every running asynchronous task.\<close>

theorem async_workers_visible:
  assumes "async_reachable rep t"
  shows "distinct (workers t) \<and> set (workers t) = {i. worker_at t i = Running}
    \<and> ((\<exists>i. worker_at t i = Running) \<longrightarrow> registered t)"
  using async_reachable_inv [OF assms] unfolding async_inv_def workers_exact_def by auto

text \<open>A repeating task that is cancelled while a worker runs it.\<close>

definition race_end :: async_task where
  "race_end = \<lparr>repeating = True, cancelled = True, registered = False, workers = [],
     worker_at = (\<lambda>_. Absent)(0 := Done), canceller_at = (\<lambda>_. Outside)(0 := Finished)\<rparr>"

definition race_mid :: async_task where
  "race_mid = \<lparr>repeating = True, cancelled = True, registered = True, workers = [0],
     worker_at = (\<lambda>_. Absent)(0 := Running), canceller_at = (\<lambda>_. Outside)(0 := Finished)\<rparr>"

lemma race_mid_reachable: "async_reachable True race_mid"
proof -
  have "async_reachable True (run_enter 0 ((new_async True)\<lparr>worker_at := (\<lambda>_. Absent)(0 := Submitted)\<rparr>))"
    using step [OF step [OF start submit [of _ 0]] enter [of _ 0]] by (simp add: new_async_def)
  from step [OF this cancel_find [of _ 0]]
  have "async_reachable True ((run_enter 0 ((new_async True)\<lparr>worker_at := (\<lambda>_. Absent)(0 := Submitted)\<rparr>))
      \<lparr>canceller_at := (\<lambda>_. Outside)(0 := Found)\<rparr>)" by (simp add: new_async_def run_enter_def)
  from step [OF step [OF this cancel_store [of _ 0]] cancel_region [of _ 0]]
  show ?thesis by (simp add: new_async_def run_enter_def cancel_check_def race_mid_def)
qed

lemma race_end_reachable: "async_reachable True race_end"
proof -
  have "async_reachable True (run_leave 0 race_mid)"
    by (rule step [OF race_mid_reachable leave]) (simp add: race_mid_def)
  from step [OF this worker_end [of _ 0 True]]
  show ?thesis by (simp add: race_mid_def race_end_def run_leave_def)
qed

theorem async_quiescent_unregistered_witness:
  "workers race_end = [] \<and> \<not> registered race_end"
proof -
  have "quiescent race_end" "cancelled race_end" by (simp_all add: race_end_def quiescent_def)
  with async_quiescent_unregistered [OF race_end_reachable] show ?thesis by blast
qed

theorem async_workers_visible_witness:
  "distinct (workers race_mid) \<and> set (workers race_mid) = {i. worker_at race_mid i = Running}
    \<and> registered race_mid"
proof -
  have "worker_at race_mid 0 = Running" by (simp add: race_mid_def)
  with async_workers_visible [OF race_mid_reachable] show ?thesis by blast
qed

end
