(* ===== verification/Events.thy ===== *)
theory Events
  imports Prelude "HOL-Library.Sublist"
begin

text \<open>
  Events: \<open>HandlerList\<close>, \<open>EventHandler\<close> and \<open>Event\<close> (\<open>include/endstone/event\<close>), and the event part of
  the plugin manager (\<open>src/endstone/core/plugin/plugin_manager.cpp\<close>). A handler is owned by exactly one
  list and referred to by pointers elsewhere; its address is the number \<open>handler_id\<close>. A list caches the
  handlers in calling order (\<open>baked\<close>), and \<open>valid\<close> says whether the cache is current.
\<close>

subsection \<open>Priorities and handlers\<close>

datatype event_priority = Lowest | Low | Normal | High | Highest | Monitor

fun priority_value :: "event_priority \<Rightarrow> nat" where
  "priority_value Lowest = 0"
| "priority_value Low = 1"
| "priority_value Normal = 2"
| "priority_value High = 3"
| "priority_value Highest = 4"
| "priority_value Monitor = 5"

lemma priority_value_inject: "priority_value p = priority_value q \<longleftrightarrow> p = q"
  by (cases p; cases q; simp)

instantiation event_priority :: linorder
begin

definition less_eq_event_priority :: "event_priority \<Rightarrow> event_priority \<Rightarrow> bool" where
  "less_eq_event_priority p q \<longleftrightarrow> priority_value p \<le> priority_value q"

definition less_event_priority :: "event_priority \<Rightarrow> event_priority \<Rightarrow> bool" where
  "less_event_priority p q \<longleftrightarrow> priority_value p < priority_value q"

instance
  by standard (auto simp: less_eq_event_priority_def less_event_priority_def priority_value_inject)

end

type_synonym plugin_ref = nat
type_synonym handler_ref = nat

record handler =
  handler_id :: handler_ref
  event_type :: string
  priority :: event_priority
  plugin :: plugin_ref
  ignore_cancelled :: bool

subsection \<open>Handler lists\<close>

record handler_list =
  list_event :: string
  handlers :: "(event_priority \<times> handler list) list"
  baked :: "handler list"
  valid :: bool

definition HandlerList :: "string \<Rightarrow> handler_list" where
  "HandlerList e = \<lparr>list_event = e, handlers = [], baked = [], valid = False\<rparr>"

definition slot :: "event_priority \<Rightarrow> handler_list \<Rightarrow> handler list" where
  "slot p l = (case map_of (handlers l) p of None \<Rightarrow> [] | Some v \<Rightarrow> v)"

text \<open>The result is the registered handler's address, \<open>None\<close> for the null pointer.\<close>

definition registerHandler :: "handler \<Rightarrow> handler_list \<Rightarrow> handler_ref option \<times> handler_list" where
  "registerHandler h l =
     (if event_type h \<noteq> list_event l then (None, l)
      else (Some (handler_id h),
        l\<lparr>valid := False, handlers := omap_put (priority h) (slot (priority h) l @ [h]) (handlers l)\<rparr>))"

fun remove_first :: "('a \<Rightarrow> bool) \<Rightarrow> 'a list \<Rightarrow> 'a list" where
  "remove_first P [] = []"
| "remove_first P (x # xs) = (if P x then xs else x # remove_first P xs)"

definition unregister_handler :: "handler \<Rightarrow> handler_list \<Rightarrow> handler_list" where
  "unregister_handler h l =
     (let v = slot (priority h) l; l1 = l\<lparr>handlers := omap_put (priority h) v (handlers l)\<rparr>
      in if \<exists>x \<in> set v. handler_id x = handler_id h
         then l1\<lparr>valid := False,
                 handlers := omap_put (priority h) (remove_first (\<lambda>x. handler_id x = handler_id h) v) (handlers l)\<rparr>
         else l1)"

definition unregister_plugin :: "plugin_ref \<Rightarrow> handler_list \<Rightarrow> handler_list" where
  "unregister_plugin p l =
     l\<lparr>handlers := map (\<lambda>(k, v). (k, filter (\<lambda>h. plugin h \<noteq> p) v)) (handlers l),
       valid := (if handlers l = [] then valid l else False)\<rparr>"

definition bake :: "handler_list \<Rightarrow> handler_list" where
  "bake l = (if valid l then l else l\<lparr>baked := concat (map snd (handlers l)), valid := True\<rparr>)"

definition getHandlers :: "handler_list \<Rightarrow> handler list \<times> handler_list" where
  "getHandlers l = (let l1 = (if \<not> valid l then bake l else l) in (baked l1, l1))"

subsection \<open>The event manager\<close>

record event =
  event_name :: string
  async :: bool
  cancellable :: bool
  event_cancelled :: bool

text \<open>\<open>event_handlers_\<close>, which plugins are enabled, and the address of the next handler.\<close>

record manager =
  event_handlers :: "(string \<times> handler_list) list"
  enabled :: "plugin_ref set"
  next_handler :: handler_ref

definition list_of :: "string \<Rightarrow> manager \<Rightarrow> handler_list" where
  "list_of e m = (case map_of (event_handlers m) e of None \<Rightarrow> HandlerList e | Some l \<Rightarrow> l)"

definition put_list :: "string \<Rightarrow> handler_list \<Rightarrow> manager \<Rightarrow> manager" where
  "put_list e l m = m\<lparr>event_handlers := AList.update e l (event_handlers m)\<rparr>"

definition registerEvent :: "string \<Rightarrow> event_priority \<Rightarrow> plugin_ref \<Rightarrow> bool \<Rightarrow> manager \<Rightarrow> manager" where
  "registerEvent e prio p ign m =
     (if p \<notin> enabled m then m
      else (case registerHandler \<lparr>handler_id = next_handler m, event_type = e, priority = prio, plugin = p,
                 ignore_cancelled = ign\<rparr> (list_of e m) of
          (_, l) \<Rightarrow> (put_list e l m)\<lparr>next_handler := Suc (next_handler m)\<rparr>))"

text \<open>The part of \<open>disablePlugin\<close> on handlers; \<open>setEnabled\<close> has already cleared the flag when
  \<open>onDisable\<close> runs or throws.\<close>

definition drop_handlers :: "plugin_ref \<Rightarrow> manager \<Rightarrow> manager" where
  "drop_handlers p m = m\<lparr>event_handlers := map (\<lambda>(e, l). (e, unregister_plugin p l)) (event_handlers m)\<rparr>"

definition disable_plugin :: "plugin_ref \<Rightarrow> manager \<Rightarrow> manager" where
  "disable_plugin p m = (if p \<in> enabled m then drop_handlers p (m\<lparr>enabled := enabled m - {p}\<rparr>) else m)"

definition enable_plugin :: "plugin_ref \<Rightarrow> manager \<Rightarrow> manager" where
  "enable_plugin p m = (if p \<notin> enabled m then m\<lparr>enabled := insert p (enabled m)\<rparr> else m)"

text \<open>What a handler's executor does: it may set the cancelled flag of a cancellable event and use the
  manager; an exception, caught by \<open>callEvent\<close>, ends its list of actions early.\<close>

datatype action =
    Set_Cancelled bool
  | Register_Event string event_priority plugin_ref bool
  | Disable_Plugin plugin_ref
  | Enable_Plugin plugin_ref

type_synonym executor = "handler \<Rightarrow> event \<Rightarrow> manager \<Rightarrow> action list"

fun act :: "action \<Rightarrow> event \<times> manager \<Rightarrow> event \<times> manager" where
  "act (Set_Cancelled b) (e, m) = (if cancellable e then e\<lparr>event_cancelled := b\<rparr> else e, m)"
| "act (Register_Event n prio p ign) (e, m) = (e, registerEvent n prio p ign m)"
| "act (Disable_Plugin p) (e, m) = (e, disable_plugin p m)"
| "act (Enable_Plugin p) (e, m) = (e, enable_plugin p m)"

text \<open>\<open>EventHandler::callEvent\<close>; the last component says whether the executor was called.\<close>

definition handler_callEvent ::
  "executor \<Rightarrow> handler \<Rightarrow> event \<Rightarrow> manager \<Rightarrow> event \<times> manager \<times> bool" where
  "handler_callEvent ex h e m =
     (if event_name e \<noteq> event_type h then (e, m, False)
      else if cancellable e \<and> event_cancelled e \<and> ignore_cancelled h then (e, m, False)
      else (case fold act (ex h e m) (e, m) of (e', m') \<Rightarrow> (e', m', True)))"

definition live_handlers :: "manager \<Rightarrow> handler list" where
  "live_handlers m = concat (map (\<lambda>(e, l). concat (map snd (handlers l))) (event_handlers m))"

definition live :: "manager \<Rightarrow> handler \<Rightarrow> bool" where
  "live m h \<longleftrightarrow> h \<in> set (live_handlers m)"

text \<open>The loop over the copied pointers; \<open>None\<close> when a pointer to a destroyed handler is followed.\<close>

fun call_handlers :: "executor \<Rightarrow> handler list \<Rightarrow> event \<Rightarrow> manager \<Rightarrow> (event \<times> manager \<times> handler list) option" where
  "call_handlers ex [] e m = Some (e, m, [])"
| "call_handlers ex (h # hs) e m =
     (if \<not> live m h then None
      else if plugin h \<notin> enabled m then call_handlers ex hs e m
      else (case handler_callEvent ex h e m of
          (e1, m1, called) \<Rightarrow> (case call_handlers ex hs e1 m1 of
              None \<Rightarrow> None
            | Some (e2, m2, l) \<Rightarrow> Some (e2, m2, (if called then [h] else []) @ l))))"

definition callEvent :: "executor \<Rightarrow> bool \<Rightarrow> event \<Rightarrow> manager \<Rightarrow> (event \<times> manager \<times> handler list) option" where
  "callEvent ex primary e m =
     (if async e \<and> primary then Some (e, m, [])
      else if \<not> async e \<and> \<not> primary then Some (e, m, [])
      else (case getHandlers (list_of (event_name e) m) of
          (hs, l) \<Rightarrow> call_handlers ex hs e (put_list (event_name e) l m)))"

definition EventManager :: manager where
  "EventManager = \<lparr>event_handlers = [], enabled = {}, next_handler = 0\<rparr>"

subsection \<open>A handler list is its registration log, stably sorted by priority\<close>

datatype list_call = Register handler | Unregister handler | Unregister_All plugin_ref | Get

fun list_op :: "list_call \<Rightarrow> handler_list \<Rightarrow> handler_list" where
  "list_op (Register h) l = snd (registerHandler h l)"
| "list_op (Unregister h) l = unregister_handler h l"
| "list_op (Unregister_All p) l = unregister_plugin p l"
| "list_op Get l = snd (getHandlers l)"

text \<open>The specification: a plain list of the live handlers in the order of their registration.\<close>

fun log_op :: "string \<Rightarrow> list_call \<Rightarrow> handler list \<Rightarrow> handler list" where
  "log_op e (Register h) xs = (if event_type h = e then xs @ [h] else xs)"
| "log_op e (Unregister h) xs = remove_first (\<lambda>x. priority x = priority h \<and> handler_id x = handler_id h) xs"
| "log_op e (Unregister_All p) xs = filter (\<lambda>h. plugin h \<noteq> p) xs"
| "log_op e Get xs = xs"

definition refines :: "string \<Rightarrow> handler_list \<Rightarrow> handler list \<Rightarrow> bool" where
  "refines e l xs \<longleftrightarrow> list_event l = e \<and> sorted_map (handlers l)
     \<and> (\<forall>p. slot p l = filter (\<lambda>h. priority h = p) xs)
     \<and> (valid l \<longrightarrow> baked l = concat (map snd (handlers l)))"

lemma slot_eq: "handlers l = m \<Longrightarrow> slot p l = (case map_of m p of None \<Rightarrow> [] | Some v \<Rightarrow> v)"
  by (simp add: slot_def)

lemma filter_concat_slots:
  fixes m :: "(event_priority \<times> handler list) list"
  assumes "sorted_map m" "\<forall>(p, v) \<in> set m. \<forall>h \<in> set v. priority h = p"
  shows "filter (\<lambda>h. priority h = k) (concat (map snd m)) = (case map_of m k of None \<Rightarrow> [] | Some v \<Rightarrow> v)"
  using assms
proof (induction m)
  case (Cons e m)
  obtain p v where e: "e = (p, v)" by (cases e)
  show ?case
  proof (cases "k = p")
    case True
    have "map_of m k = None" using Cons.prems(1) e True by (intro map_of_above) auto
    with Cons e True show ?thesis by (auto simp: filter_id_conv)
  next
    case False
    then have "filter (\<lambda>h. priority h = k) v = []" using Cons.prems(2) e by (auto simp: filter_empty_conv)
    with Cons e False show ?thesis by simp
  qed
qed simp

lemma sorted_concat_slots:
  fixes m :: "(event_priority \<times> handler list) list"
  assumes "sorted_map m" "\<forall>(p, v) \<in> set m. \<forall>h \<in> set v. priority h = p"
  shows "sorted (map priority (concat (map snd m)))"
  using assms
proof (induction m)
  case (Cons e m)
  obtain p v where e: "e = (p, v)" by (cases e)
  have v: "map priority v = replicate (length v) p" using Cons.prems(2) e by (auto intro: replicate_eqI)
  have "\<forall>h \<in> set (concat (map snd m)). p \<le> priority h"
    using Cons.prems e by (fastforce simp: less_imp_le)
  moreover have "sorted (map priority (concat (map snd m)))" using Cons by simp
  ultimately show ?case by (simp add: e v sorted_append sorted_replicate del: set_concat)
qed simp

lemma mset_eq_by_filter:
  assumes "\<And>k. filter (\<lambda>x. f x = k) xs = filter (\<lambda>x. f x = k) ys"
  shows "mset xs = mset ys"
proof (rule multiset_eqI)
  fix a
  have "count (mset zs) a = count (mset (filter (\<lambda>x. f x = f a) zs)) a" for zs by simp
  with assms show "count (mset xs) a = count (mset ys) a" by metis
qed

lemma refines_handlers:
  assumes "refines e l xs"
  shows "concat (map snd (handlers l)) = sort_key priority xs"
proof -
  let ?m = "handlers l"
  have s: "sorted_map ?m" using assms by (simp add: refines_def)
  have sl: "slot p l = filter (\<lambda>h. priority h = p) xs" for p using assms by (simp add: refines_def)
  have own: "\<forall>(p, v) \<in> set ?m. \<forall>h \<in> set v. priority h = p"
  proof clarify
    fix p v h
    assume "(p, v) \<in> set ?m" "h \<in> set v"
    then have "map_of ?m p = Some v" using s map_of_all sorted_map_distinct by metis
    with sl [of p] have "v = filter (\<lambda>h. priority h = p) xs" by (simp add: slot_def)
    with \<open>h \<in> set v\<close> show "priority h = p" by simp
  qed
  have f: "filter (\<lambda>h. priority h = k) (concat (map snd ?m)) = filter (\<lambda>h. priority h = k) xs" for k
    using filter_concat_slots [OF s own] sl [of k] by (simp add: slot_def)
  show ?thesis
  proof (rule properties_for_sort_key [symmetric])
    show "mset (concat (map snd ?m)) = mset xs" by (rule mset_eq_by_filter [OF f])
    show "filter (\<lambda>x. priority k = priority x) (concat (map snd ?m)) = filter (\<lambda>x. priority k = priority x) xs" for k
      using f [of "priority k"] by (simp add: eq_commute)
    show "sorted (map priority (concat (map snd ?m)))" by (rule sorted_concat_slots [OF s own])
  qed
qed

lemma refines_put:
  assumes "refines e l xs" "handlers l' = omap_put p v (handlers l)" "list_event l' = list_event l"
    "v = filter (\<lambda>h. priority h = p) ys" "\<forall>k. k \<noteq> p \<longrightarrow> filter (\<lambda>h. priority h = k) ys = filter (\<lambda>h. priority h = k) xs"
    "valid l' \<longrightarrow> baked l' = concat (map snd (handlers l'))"
  shows "refines e l' ys"
  using assms by (auto simp: refines_def slot_def)

lemma filter_remove_first:
  "filter P (remove_first Q xs) =
     (if \<forall>x \<in> set xs. Q x \<longrightarrow> P x then remove_first Q (filter P xs)
      else filter P (remove_first Q xs))"
  by (induction xs) auto

lemma filter_remove_other: "\<forall>x \<in> set xs. Q x \<longrightarrow> \<not> P x \<Longrightarrow> filter P (remove_first Q xs) = filter P xs"
  by (induction xs) auto

lemma remove_first_none: "\<forall>x \<in> set xs. \<not> Q x \<Longrightarrow> remove_first Q xs = xs"
  by (induction xs) auto

lemma remove_first_cong: "(\<And>x. x \<in> set xs \<Longrightarrow> P x = Q x) \<Longrightarrow> remove_first P xs = remove_first Q xs"
  by (induction xs) auto

lemma refines_register: "refines e l xs \<Longrightarrow> refines e (list_op (Register h) l) (log_op e (Register h) xs)"
  by (auto simp: registerHandler_def refines_def slot_def)

lemma omap_put_same_concat:
  "sorted_map m \<Longrightarrow> v = (case map_of m k of None \<Rightarrow> [] | Some v \<Rightarrow> v)
    \<Longrightarrow> concat (map snd (omap_put k v m)) = concat (map snd m)"
proof (induction k v m rule: omap_put.induct)
  case step: (2 k v k' v' m)
  then have "k < k' \<Longrightarrow> map_of m k = None" by (intro map_of_above) auto
  with step show ?case by auto
qed simp

lemma refines_unregister:
  assumes "refines e l xs"
  shows "refines e (list_op (Unregister h) l) (log_op e (Unregister h) xs)"
proof -
  let ?p = "priority h" and ?i = "\<lambda>x. handler_id x = handler_id h"
  let ?ys = "log_op e (Unregister h) xs"
  have v: "slot ?p l = filter (\<lambda>x. priority x = ?p) xs" using assms by (simp add: refines_def)
  have other: "\<forall>k. k \<noteq> ?p \<longrightarrow> filter (\<lambda>x. priority x = k) ?ys = filter (\<lambda>x. priority x = k) xs"
    by (auto intro: filter_remove_other)
  have "filter (\<lambda>x. priority x = ?p) ?ys
      = remove_first (\<lambda>x. priority x = ?p \<and> ?i x) (filter (\<lambda>x. priority x = ?p) xs)"
    using filter_remove_first [of "\<lambda>x. priority x = ?p" "\<lambda>x. priority x = ?p \<and> ?i x" xs] by simp
  also have "\<dots> = remove_first ?i (slot ?p l)" unfolding v by (rule remove_first_cong) simp
  finally have same: "remove_first ?i (slot ?p l) = filter (\<lambda>x. priority x = ?p) ?ys" by (rule sym)
  show ?thesis
  proof (cases "\<exists>x \<in> set (slot ?p l). ?i x")
    case True
    then show ?thesis using same other
      by (intro refines_put [OF assms, of _ ?p]) (simp_all add: unregister_handler_def Let_def)
  next
    case False
    then have "remove_first ?i (slot ?p l) = slot ?p l" by (intro remove_first_none) blast
    from this [symmetric] same have s: "slot ?p l = filter (\<lambda>x. priority x = ?p) ?ys" by (rule trans)
    have b: "valid l \<longrightarrow> baked l = concat (map snd (omap_put ?p (slot ?p l) (handlers l)))"
      using assms omap_put_same_concat [of "handlers l" "slot ?p l" ?p] by (simp add: refines_def slot_def)
    have u: "unregister_handler h l = l\<lparr>handlers := omap_put ?p (slot ?p l) (handlers l)\<rparr>"
      using False by (simp add: unregister_handler_def Let_def)
    show ?thesis unfolding list_op.simps u by (rule refines_put [OF assms _ _ s other]) (simp_all add: b)
  qed
qed

lemma refines_unregister_all:
  assumes "refines e l xs"
  shows "refines e (list_op (Unregister_All p) l) (log_op e (Unregister_All p) xs)"
proof -
  define l' where "l' = unregister_plugin p l"
  have m: "map fst (handlers l') = map fst (handlers l)"
    by (simp add: l'_def unregister_plugin_def comp_def case_prod_beta)
  have s: "slot k l' = filter (\<lambda>h. priority h = k) (filter (\<lambda>h. plugin h \<noteq> p) xs)" for k
  proof -
    have "slot k l' = filter (\<lambda>h. plugin h \<noteq> p) (slot k l)"
      by (simp add: l'_def slot_def unregister_plugin_def map_of_map split: option.split)
    also have "\<dots> = filter (\<lambda>h. priority h = k) (filter (\<lambda>h. plugin h \<noteq> p) xs)"
      using assms by (simp add: refines_def conj_commute)
    finally show ?thesis .
  qed
  have v: "valid l' \<longrightarrow> baked l' = concat (map snd (handlers l'))" "list_event l' = e"
    using assms by (auto simp: l'_def unregister_plugin_def refines_def)
  have "sorted_map (handlers l')" unfolding m using assms by (simp add: refines_def)
  with s v show ?thesis unfolding refines_def list_op.simps log_op.simps l'_def [symmetric] by blast
qed

lemma refines_get: "refines e l xs \<Longrightarrow> refines e (list_op Get l) (log_op e Get xs)"
  by (auto simp: getHandlers_def bake_def Let_def refines_def slot_def)

lemma refines_op: "refines e l xs \<Longrightarrow> refines e (list_op a l) (log_op e a xs)"
  by (cases a) (use refines_register refines_unregister refines_unregister_all refines_get in blast)+

lemma refines_ops: "refines e l xs \<Longrightarrow> refines e (fold list_op ops l) (fold (log_op e) ops xs)"
  by (induction ops arbitrary: l xs) (simp_all add: refines_op)

lemma refines_new: "refines e (HandlerList e) []"
  by (simp add: refines_def HandlerList_def slot_def)

lemma refines_getHandlers: "refines e l xs \<Longrightarrow> fst (getHandlers l) = sort_key priority xs"
  using refines_handlers [of e l xs] by (auto simp: getHandlers_def bake_def Let_def refines_def)

text \<open>C8: Whatever sequence of registrations, removals, plugin removals and cached reads a list has seen,
  \<open>getHandlers\<close> returns the live handlers stably sorted by priority: by priority first, in the order
  of registration within one priority. The cache is never stale.\<close>

theorem getHandlers_sorted:
  "fst (getHandlers (fold list_op ops (HandlerList e))) = sort_key priority (fold (log_op e) ops [])"
  by (rule refines_getHandlers [OF refines_ops [OF refines_new]])

subsection \<open>The invariant of the manager\<close>

definition list_inv :: "string \<Rightarrow> handler_list \<Rightarrow> bool" where
  "list_inv e l \<longleftrightarrow> (\<exists>xs. refines e l xs \<and> (\<forall>h \<in> set xs. event_type h = e))"

definition manager_inv :: "manager \<Rightarrow> bool" where
  "manager_inv m \<longleftrightarrow> distinct (map fst (event_handlers m)) \<and> (\<forall>(e, l) \<in> set (event_handlers m). list_inv e l)"

lemma list_inv_new: "list_inv e (HandlerList e)"
  using refines_new unfolding list_inv_def by fastforce

lemma set_remove_first: "x \<in> set (remove_first P ys) \<Longrightarrow> x \<in> set ys"
  by (induction ys) (auto split: if_splits)

lemma list_inv_op: "list_inv e l \<Longrightarrow> list_inv e (list_op a l)"
proof -
  assume "list_inv e l"
  then obtain xs where xs: "refines e l xs" "\<forall>h \<in> set xs. event_type h = e" unfolding list_inv_def by blast
  then have "\<forall>h \<in> set (log_op e a xs). event_type h = e" by (cases a) (auto dest: set_remove_first)
  with refines_op [OF xs(1)] show ?thesis unfolding list_inv_def by blast
qed

lemma list_of_inv: "manager_inv m \<Longrightarrow> list_inv e (list_of e m)"
  using list_inv_new by (auto simp: manager_inv_def list_of_def split: option.split dest: map_of_SomeD)

lemma put_list_inv: "manager_inv m \<Longrightarrow> list_inv e l \<Longrightarrow> manager_inv (put_list e l m)"
proof -
  assume m: "manager_inv m" "list_inv e l"
  have "set (AList.update e l al) \<subseteq> insert (e, l) (set al)" for al :: "(string \<times> handler_list) list"
    by (induction al) auto
  with m show ?thesis by (fastforce simp: manager_inv_def put_list_def distinct_update)
qed

lemma manager_inv_fields [simp]:
  "manager_inv (m\<lparr>next_handler := n\<rparr>) = manager_inv m" "manager_inv (m\<lparr>enabled := E\<rparr>) = manager_inv m"
  by (simp_all add: manager_inv_def)

lemma registerEvent_inv: "manager_inv m \<Longrightarrow> manager_inv (registerEvent e prio p ign m)"
proof -
  assume m: "manager_inv m"
  define h where "h = \<lparr>handler_id = next_handler m, event_type = e, priority = prio, plugin = p, ignore_cancelled = ign\<rparr>"
  have "list_inv e (snd (registerHandler h (list_of e m)))"
    using list_inv_op [OF list_of_inv [OF m, of e], of "Register h"] by simp
  from put_list_inv [OF m this] m show ?thesis
    by (simp add: registerEvent_def h_def [symmetric] split: prod.split) (metis snd_conv)
qed

lemma drop_handlers_inv: "manager_inv m \<Longrightarrow> manager_inv (drop_handlers p m)"
proof -
  assume m: "manager_inv m"
  have k: "map fst (event_handlers (drop_handlers p m)) = map fst (event_handlers m)"
    by (simp add: drop_handlers_def comp_def case_prod_beta)
  have "list_inv e (unregister_plugin p l)" if "(e, l) \<in> set (event_handlers m)" for e l
    using list_inv_op [of e l "Unregister_All p"] m that by (auto simp: manager_inv_def)
  then have "\<forall>x \<in> set (event_handlers (drop_handlers p m)). list_inv (fst x) (snd x)"
    by (auto simp: drop_handlers_def)
  then show ?thesis using m unfolding manager_inv_def k by (simp add: case_prod_beta)
qed

lemma act_inv: "manager_inv m \<Longrightarrow> act a (e, m) = (e', m') \<Longrightarrow> manager_inv m'"
  by (cases a) (auto simp: registerEvent_inv disable_plugin_def enable_plugin_def drop_handlers_inv split: if_splits)

lemma acts_inv: "manager_inv m \<Longrightarrow> fold act as (e, m) = (e', m') \<Longrightarrow> manager_inv m'"
proof (induction "as" arbitrary: e m)
  case (Cons a as')
  obtain e1 m1 where "act a (e, m) = (e1, m1)" by (cases "act a (e, m)")
  with Cons act_inv [OF Cons.prems(1) this] show ?case by simp
qed simp

lemma handler_callEvent_inv:
  "manager_inv m \<Longrightarrow> handler_callEvent ex h e m = (e', m', c) \<Longrightarrow> manager_inv m'"
  by (auto simp: handler_callEvent_def acts_inv split: if_splits prod.splits)

lemma call_handlers_inv:
  "manager_inv m \<Longrightarrow> call_handlers ex hs e m = Some (e', m', l) \<Longrightarrow> manager_inv m'"
proof (induction hs arbitrary: e m l)
  case (Cons h hs)
  then show ?case
    by (auto split: if_splits option.splits prod.splits dest: handler_callEvent_inv)
qed simp

lemma callEvent_inv: "manager_inv m \<Longrightarrow> callEvent ex primary e m = Some (e', m', l) \<Longrightarrow> manager_inv m'"
proof -
  assume m: "manager_inv m" and c: "callEvent ex primary e m = Some (e', m', l)"
  have "list_inv (event_name e) (snd (getHandlers (list_of (event_name e) m)))"
    using list_inv_op [OF list_of_inv [OF m], of "event_name e" Get] by simp
  from put_list_inv [OF m this] c m show ?thesis
    by (auto simp: callEvent_def call_handlers_inv split: if_splits prod.splits)
qed

text \<open>The states of the manager: plugins act on it, and events are called, in any order.\<close>

inductive manager_reachable :: "manager \<Rightarrow> bool" where
  reach_start: "manager_reachable EventManager"
| reach_act: "manager_reachable m \<Longrightarrow> act a (e, m) = (e', m') \<Longrightarrow> manager_reachable m'"
| reach_call: "manager_reachable m \<Longrightarrow> callEvent ex primary e m = Some (e', m', l) \<Longrightarrow> manager_reachable m'"

lemma manager_reachable_inv: "manager_reachable m \<Longrightarrow> manager_inv m"
proof (induction rule: manager_reachable.induct)
  case reach_start
  show ?case by (simp add: manager_inv_def EventManager_def)
qed (use act_inv callEvent_inv in blast)+

subsection \<open>Calling an event\<close>

lemma live_iff: "live m h \<longleftrightarrow> (\<exists>(e, l) \<in> set (event_handlers m). h \<in> set (concat (map snd (handlers l))))"
  by (auto simp: live_def live_handlers_def)

lemma live_list_of:
  assumes "manager_inv m"
  shows "live m h \<longleftrightarrow> (\<exists>e. h \<in> set (concat (map snd (handlers (list_of e m)))))"
proof -
  have "distinct (map fst (event_handlers m))" using assms by (simp add: manager_inv_def)
  then have "(e, l) \<in> set (event_handlers m) \<longleftrightarrow> map_of (event_handlers m) e = Some l" for e l
    by (rule map_of_all)
  then have "live m h \<longleftrightarrow> (\<exists>e l. map_of (event_handlers m) e = Some l \<and> h \<in> set (concat (map snd (handlers l))))"
    unfolding live_iff by blast
  also have "\<dots> \<longleftrightarrow> (\<exists>e. h \<in> set (concat (map snd (handlers (list_of e m)))))"
  proof -
    have "h \<in> set (concat (map snd (handlers (list_of e m)))) \<longleftrightarrow>
        (\<exists>l. map_of (event_handlers m) e = Some l \<and> h \<in> set (concat (map snd (handlers l))))" for e
      by (cases "map_of (event_handlers m) e") (simp_all add: list_of_def HandlerList_def)
    then show ?thesis by blast
  qed
  finally show ?thesis .
qed

lemma list_of_put [simp]: "list_of e (put_list e' l m) = (if e = e' then l else list_of e m)"
  by (simp add: list_of_def put_list_def update_conv)

text \<open>Steps of an executor that neither disables nor enables a plugin.\<close>

fun keeps_plugins :: "action \<Rightarrow> bool" where
  "keeps_plugins (Disable_Plugin p) = False"
| "keeps_plugins (Enable_Plugin p) = False"
| "keeps_plugins _ = True"

definition mild :: "executor \<Rightarrow> bool" where
  "mild ex \<longleftrightarrow> (\<forall>h e m. \<forall>a \<in> set (ex h e m). keeps_plugins a)"

lemma list_of_next [simp]: "list_of d (m\<lparr>next_handler := n\<rparr>) = list_of d m"
  by (simp add: list_of_def)

lemma list_of_registerEvent:
  "list_of d (registerEvent e prio p ign m) =
     (if p \<in> enabled m \<and> d = e
      then snd (registerHandler \<lparr>handler_id = next_handler m, event_type = e, priority = prio, plugin = p,
        ignore_cancelled = ign\<rparr> (list_of e m))
      else list_of d m)"
  by (auto simp: registerEvent_def split: prod.split)

lemma enabled_registerEvent [simp]: "enabled (registerEvent e prio p ign m) = enabled m"
  by (simp add: registerEvent_def put_list_def split: prod.split)

lemma registered_stays:
  assumes "manager_inv m" "live m h"
  shows "live (registerEvent e prio p ign m) h"
proof -
  let ?h = "\<lparr>handler_id = next_handler m, event_type = e, priority = prio, plugin = p, ignore_cancelled = ign\<rparr>"
  let ?m = "registerEvent e prio p ign m"
  obtain xs where xs: "refines e (list_of e m) xs" using list_of_inv [OF assms(1)] unfolding list_inv_def by blast
  obtain d where d: "h \<in> set (concat (map snd (handlers (list_of d m))))"
    using assms live_list_of by blast
  have "list_of d ?m = list_of d m \<or> d = e \<and> list_of d ?m = snd (registerHandler ?h (list_of e m))"
    by (simp add: list_of_registerEvent)
  moreover have "set (concat (map snd (handlers (snd (registerHandler ?h (list_of e m))))))
      = set (log_op e (Register ?h) xs)"
    using refines_handlers [OF refines_register [OF xs, of ?h]] by (simp del: set_concat)
  moreover have "set (concat (map snd (handlers (list_of e m)))) = set xs"
    using refines_handlers [OF xs] by (simp del: set_concat)
  ultimately have "h \<in> set (concat (map snd (handlers (list_of d ?m))))"
    using d by (auto simp del: set_concat)
  then show ?thesis using live_list_of [OF registerEvent_inv [OF assms(1)]] by blast
qed

lemma keeps_act:
  assumes "manager_inv m" "keeps_plugins a" "act a (e, m) = (e', m')"
  shows "enabled m' = enabled m \<and> (\<forall>h. live m h \<longrightarrow> live m' h) \<and> event_name e' = event_name e
    \<and> cancellable e' = cancellable e \<and> (cancellable e \<or> e' = e)"
proof (cases a)
  case (Register_Event n prio p ign)
  with assms(3) have "m' = registerEvent n prio p ign m" "e' = e" by simp_all
  then show ?thesis using registered_stays [OF assms(1)] by simp
qed (use assms in \<open>auto split: if_splits\<close>)

lemma keeps_acts:
  "manager_inv m \<Longrightarrow> \<forall>a \<in> set as. keeps_plugins a \<Longrightarrow> fold act as (e, m) = (e', m') \<Longrightarrow>
    enabled m' = enabled m \<and> (\<forall>h. live m h \<longrightarrow> live m' h) \<and> event_name e' = event_name e
    \<and> cancellable e' = cancellable e \<and> (cancellable e \<or> e' = e)"
proof (induction "as" arbitrary: e m)
  case (Cons a as')
  obtain e1 m1 where 1: "act a (e, m) = (e1, m1)" by (cases "act a (e, m)")
  have a: "keeps_plugins a" using Cons.prems(2) by simp
  have "fold act as' (e1, m1) = (e', m')" "\<forall>a \<in> set as'. keeps_plugins a" using Cons.prems 1 by simp_all
  with Cons.IH [OF act_inv [OF Cons.prems(1) 1]] keeps_act [OF Cons.prems(1) a 1] show ?case by metis
qed simp


lemma sorted_subseq_map: "sorted (map f ys) \<Longrightarrow> subseq xs ys \<Longrightarrow> sorted (map f xs)"
proof -
  assume "subseq xs ys" "sorted (map f ys)"
  then have "set xs \<subseteq> set ys \<and> sorted (map f xs)"
    by (induction rule: list_emb.induct) auto
  then show ?thesis ..
qed

lemma enabled_put [simp]: "enabled (put_list e l m) = enabled m"
  by (simp add: put_list_def)

lemma sort_handlers_of:
  assumes "manager_inv m"
  shows "fst (getHandlers (list_of e m)) = concat (map snd (handlers (list_of e m)))"
    "\<forall>h \<in> set (fst (getHandlers (list_of e m))). event_type h = e"
    "sorted (map priority (fst (getHandlers (list_of e m))))"
    "handlers (snd (getHandlers (list_of e m))) = handlers (list_of e m)"
proof -
  obtain xs where xs: "refines e (list_of e m) xs" "\<forall>h \<in> set xs. event_type h = e"
    using list_of_inv [OF assms] unfolding list_inv_def by blast
  show "fst (getHandlers (list_of e m)) = concat (map snd (handlers (list_of e m)))"
    using refines_getHandlers [OF xs(1)] refines_handlers [OF xs(1)] by simp
  show "\<forall>h \<in> set (fst (getHandlers (list_of e m))). event_type h = e"
    "sorted (map priority (fst (getHandlers (list_of e m))))"
    using refines_getHandlers [OF xs(1)] xs(2) by simp_all
  show "handlers (snd (getHandlers (list_of e m))) = handlers (list_of e m)" by (simp add: getHandlers_def bake_def Let_def)
qed

lemma handler_keeps:
  assumes "manager_inv m" "mild ex"
    and "handler_callEvent ex h e m = (e1, m1, c)"
  shows "enabled m1 = enabled m \<and> (\<forall>h. live m h \<longrightarrow> live m1 h) \<and> event_name e1 = event_name e
      \<and> cancellable e1 = cancellable e \<and> (cancellable e \<or> e1 = e)"
proof (cases "c")
  case True
  then have "fold act (ex h e m) (e, m) = (e1, m1)"
    using assms(3) by (auto simp: handler_callEvent_def split: if_splits prod.splits)
  moreover have "\<forall>a \<in> set (ex h e m). keeps_plugins a" using assms(2) by (simp add: mild_def)
  ultimately show ?thesis using keeps_acts [OF assms(1)] by blast
next
  case False
  then have "e1 = e" "m1 = m" using assms(3) by (auto simp: handler_callEvent_def split: if_splits prod.splits)
  then show ?thesis by simp
qed

lemma call_handlers_delivers:
  assumes "mild ex"
  shows "manager_inv m \<Longrightarrow> \<forall>h \<in> set hs. live m h \<and> event_type h = event_name e \<Longrightarrow>
    \<exists>e' m' called. call_handlers ex hs e m = Some (e', m', called) \<and> subseq called hs
      \<and> (\<forall>h \<in> set called. plugin h \<in> enabled m)
      \<and> (\<forall>h \<in> set hs. plugin h \<in> enabled m \<and> \<not> ignore_cancelled h \<longrightarrow> h \<in> set called)
      \<and> (\<not> cancellable e \<longrightarrow> called = filter (\<lambda>h. plugin h \<in> enabled m) hs \<and> e' = e)"
proof (induction hs arbitrary: e m)
  case (Cons h hs)
  have h: "live m h" "event_type h = event_name e" using Cons.prems(2) by simp_all
  show ?case
  proof (cases "plugin h \<in> enabled m")
    case False
    have "\<forall>h \<in> set hs. live m h \<and> event_type h = event_name e" using Cons.prems(2) by simp
    from Cons.IH [OF Cons.prems(1) this] h False show ?thesis by auto
  next
    case True
    obtain e1 m1 c where 1: "handler_callEvent ex h e m = (e1, m1, c)" by (cases "handler_callEvent ex h e m")
    then have c: "c \<longleftrightarrow> \<not> (cancellable e \<and> event_cancelled e \<and> ignore_cancelled h)"
      using h by (auto simp: handler_callEvent_def split: if_splits prod.splits)
    have k: "enabled m1 = enabled m \<and> (\<forall>h. live m h \<longrightarrow> live m1 h) \<and> event_name e1 = event_name e
      \<and> cancellable e1 = cancellable e \<and> (cancellable e \<or> e1 = e)"
      using handler_keeps [OF Cons.prems(1) assms 1] .
    have "\<forall>h \<in> set hs. live m1 h \<and> event_type h = event_name e1" using Cons.prems(2) k by simp
    from Cons.IH [OF handler_callEvent_inv [OF Cons.prems(1) 1] this]
    obtain e' m' called where r: "call_handlers ex hs e1 m1 = Some (e', m', called)" "subseq called hs"
      "\<forall>h \<in> set called. plugin h \<in> enabled m"
      "\<forall>h \<in> set hs. plugin h \<in> enabled m \<and> \<not> ignore_cancelled h \<longrightarrow> h \<in> set called"
      "\<not> cancellable e \<longrightarrow> called = filter (\<lambda>h. plugin h \<in> enabled m) hs \<and> e' = e"
      using k by auto
    define cs where "cs = (if c then [h] else []) @ called"
    have "call_handlers ex (h # hs) e m = Some (e', m', cs)" using h True 1 r(1) by (simp add: cs_def)
    moreover have "subseq cs (h # hs)" using r(2) by (simp add: cs_def list_emb_Cons)
    moreover have "\<forall>x \<in> set cs. plugin x \<in> enabled m" using r(3) True by (auto simp: cs_def)
    moreover have "\<forall>x \<in> set (h # hs). plugin x \<in> enabled m \<and> \<not> ignore_cancelled x \<longrightarrow> x \<in> set cs"
      using r(4) c by (simp add: cs_def)
    moreover have "\<not> cancellable e \<longrightarrow> cs = filter (\<lambda>x. plugin x \<in> enabled m) (h # hs) \<and> e' = e"
      using r(5) c True by (simp add: cs_def)
    ultimately show ?thesis by blast
  qed
qed simp

text \<open>C9: In every reachable state, calling an event on the right thread returns, follows no dangling
  pointer and calls the handlers in order of priority, each at most once and only those of enabled
  plugins; every handler of an enabled plugin that accepts cancelled events is called, and for an event that cannot be
  cancelled these are exactly the handlers of the enabled plugins. This holds for executors that change
  the event and register new handlers (which wait for the next event) but enable and disable no plugin.\<close>

theorem callEvent_delivers:
  assumes "manager_reachable m" "mild ex" "async e \<noteq> primary"
  shows "\<exists>e' m' called. callEvent ex primary e m = Some (e', m', called)
      \<and> subseq called (fst (getHandlers (list_of (event_name e) m)))
      \<and> sorted (map priority called)
      \<and> (\<forall>h \<in> set called. plugin h \<in> enabled m)
      \<and> (\<forall>h \<in> set (fst (getHandlers (list_of (event_name e) m))).
            plugin h \<in> enabled m \<and> \<not> ignore_cancelled h \<longrightarrow> h \<in> set called)
      \<and> (\<not> cancellable e \<longrightarrow>
            called = filter (\<lambda>h. plugin h \<in> enabled m) (fst (getHandlers (list_of (event_name e) m))) \<and> e' = e)"
proof -
  note inv = manager_reachable_inv [OF assms(1)]
  let ?n = "event_name e"
  define hs where "hs = fst (getHandlers (list_of ?n m))"
  let ?m = "put_list ?n (snd (getHandlers (list_of ?n m))) m"
  note s = sort_handlers_of [OF inv, of ?n, folded hs_def]
  have inv': "manager_inv ?m"
    using put_list_inv [OF inv] list_inv_op [OF list_of_inv [OF inv], of ?n Get] by simp
  have "live ?m h" if "h \<in> set hs" for h
    using that s(1) s(4) live_list_of [OF inv'] by (metis list_of_put)
  then have "\<forall>h \<in> set hs. live ?m h \<and> event_type h = ?n" using s(2) by blast
  from call_handlers_delivers [OF assms(2) inv' this] obtain e' m' called where
    r: "call_handlers ex hs e ?m = Some (e', m', called)" "subseq called hs"
      "\<forall>h \<in> set called. plugin h \<in> enabled m"
      "\<forall>h \<in> set hs. plugin h \<in> enabled m \<and> \<not> ignore_cancelled h \<longrightarrow> h \<in> set called"
      "\<not> cancellable e \<longrightarrow> called = filter (\<lambda>h. plugin h \<in> enabled m) hs \<and> e' = e"
    by (auto simp: enabled_put)
  have "callEvent ex primary e m = Some (e', m', called)"
    using r(1) assms(3) by (auto simp: callEvent_def hs_def split: prod.split)
  moreover have "sorted (map priority called)" using s(3) r(2) by (rule sorted_subseq_map)
  ultimately show ?thesis using r(2-5) unfolding hs_def by blast
qed

subsection \<open>Disabling a plugin\<close>

lemma list_of_drop:
  assumes "manager_inv m"
  shows "fst (getHandlers (list_of e (drop_handlers p m))) = filter (\<lambda>h. plugin h \<noteq> p) (fst (getHandlers (list_of e m)))"
proof (cases "map_of (event_handlers m) e")
  case None
  have "map_of (event_handlers (drop_handlers p m)) e = None"
    using None by (simp add: drop_handlers_def map_of_map)
  with None show ?thesis by (simp add: list_of_def getHandlers_def bake_def HandlerList_def)
next
  case (Some l)
  have "map_of (event_handlers (drop_handlers p m)) e = Some (unregister_plugin p l)"
    using Some by (simp add: drop_handlers_def map_of_map)
  then have l: "list_of e (drop_handlers p m) = unregister_plugin p l" "list_of e m = l"
    using Some by (simp_all add: list_of_def)
  obtain xs where xs: "refines e l xs" using list_of_inv [OF assms, of e] l unfolding list_inv_def by auto
  show ?thesis
    unfolding l using refines_getHandlers [OF xs] refines_getHandlers [OF refines_unregister_all [OF xs, of p]]
    by (simp add: filter_sort)
qed

definition all_enabled :: "manager \<Rightarrow> bool" where
  "all_enabled m \<longleftrightarrow> (\<forall>e. \<forall>h \<in> set (fst (getHandlers (list_of e m))). plugin h \<in> enabled m)"

lemma getHandlers_register:
  assumes "manager_inv m"
  shows "set (fst (getHandlers (list_of d (registerEvent e prio p ign m)))) \<subseteq>
     set (fst (getHandlers (list_of d m)))
     \<union> (if p \<in> enabled m then {\<lparr>handler_id = next_handler m, event_type = e, priority = prio, plugin = p, ignore_cancelled = ign\<rparr>} else {})"
proof (cases "p \<in> enabled m \<and> d = e")
  case True
  let ?h = "\<lparr>handler_id = next_handler m, event_type = e, priority = prio, plugin = p, ignore_cancelled = ign\<rparr>"
  obtain xs where xs: "refines e (list_of e m) xs" using list_of_inv [OF assms] unfolding list_inv_def by blast
  show ?thesis
    using True refines_getHandlers [OF xs] refines_getHandlers [OF refines_register [OF xs, of ?h]]
    by (simp add: list_of_registerEvent)
next
  case False
  then have "list_of d (registerEvent e prio p ign m) = list_of d m" by (auto simp: list_of_registerEvent)
  then show ?thesis by simp
qed

lemma act_enabled:
  assumes "manager_inv m" "all_enabled m" "act a (e, m) = (e', m')"
  shows "all_enabled m'"
proof (cases a)
  case (Register_Event n prio p ign)
  then have m': "m' = registerEvent n prio p ign m" using assms(3) by simp
  show ?thesis
    using getHandlers_register [OF assms(1), of _ n prio p ign] assms(2)
    unfolding all_enabled_def m' by (fastforce split: if_splits)
next
  case (Disable_Plugin p)
  have "list_of d (drop_handlers p (m\<lparr>enabled := E\<rparr>)) = list_of d (drop_handlers p m)" for d E
    by (simp add: drop_handlers_def list_of_def)
  then show ?thesis
    using assms(2,3) Disable_Plugin list_of_drop [OF assms(1), of _ p]
    by (auto simp: all_enabled_def disable_plugin_def drop_handlers_def [of _ "m\<lparr>enabled := _\<rparr>"] split: if_splits)
next
  case (Enable_Plugin p)
  then show ?thesis using assms(2,3)
    by (auto simp: all_enabled_def enable_plugin_def list_of_def split: if_splits)
next
  case (Set_Cancelled b)
  then show ?thesis using assms(2,3) by simp
qed

lemma acts_enabled:
  "manager_inv m \<Longrightarrow> all_enabled m \<Longrightarrow> fold act as (e, m) = (e', m') \<Longrightarrow> all_enabled m'"
proof (induction "as" arbitrary: e m)
  case (Cons a as')
  obtain e1 m1 where 1: "act a (e, m) = (e1, m1)" by (cases "act a (e, m)")
  have "fold act as' (e1, m1) = (e', m')" using Cons.prems(3) 1 by simp
  with Cons.IH act_inv [OF Cons.prems(1) 1] act_enabled [OF Cons.prems(1,2) 1] show ?case by blast
qed simp

lemma handler_callEvent_enabled:
  "manager_inv m \<Longrightarrow> all_enabled m \<Longrightarrow> handler_callEvent ex h e m = (e', m', c) \<Longrightarrow> all_enabled m'"
  by (auto simp: handler_callEvent_def acts_enabled split: if_splits prod.splits)

lemma call_handlers_enabled:
  "manager_inv m \<Longrightarrow> all_enabled m \<Longrightarrow> call_handlers ex hs e m = Some (e', m', l) \<Longrightarrow> all_enabled m'"
proof (induction hs arbitrary: e m l)
  case (Cons h hs)
  show ?case
  proof (cases "plugin h \<in> enabled m")
    case False
    then show ?thesis using Cons.IH [OF Cons.prems(1,2)] Cons.prems(3) by (simp split: if_splits)
  next
    case True
    obtain e1 m1 c where 1: "handler_callEvent ex h e m = (e1, m1, c)" by (cases "handler_callEvent ex h e m")
    then obtain l1 where "call_handlers ex hs e1 m1 = Some (e', m', l1)"
      using Cons.prems(3) True by (auto split: if_splits option.splits)
    with Cons.IH handler_callEvent_inv [OF Cons.prems(1) 1] handler_callEvent_enabled [OF Cons.prems(1,2) 1]
    show ?thesis by blast
  qed
qed simp

lemma callEvent_enabled:
  assumes "manager_inv m" "all_enabled m" "callEvent ex primary e m = Some (e', m', l)"
  shows "all_enabled m'"
proof -
  let ?n = "event_name e"
  let ?m = "put_list ?n (snd (getHandlers (list_of ?n m))) m"
  have "manager_inv ?m"
    using put_list_inv [OF assms(1)] list_inv_op [OF list_of_inv [OF assms(1)], of ?n Get] by simp
  moreover have "fst (getHandlers (snd (getHandlers k))) = fst (getHandlers k)" for k
    by (simp add: getHandlers_def bake_def Let_def)
  then have "all_enabled ?m" using assms(2) by (simp add: all_enabled_def)
  moreover have "m' = m \<or> call_handlers ex (fst (getHandlers (list_of ?n m))) e ?m = Some (e', m', l)"
    using assms(3) by (auto simp: callEvent_def split: if_splits prod.splits)
  ultimately show ?thesis using assms(2) call_handlers_enabled by blast
qed

lemma reachable_enabled: "manager_reachable m \<Longrightarrow> all_enabled m"
proof (induction rule: manager_reachable.induct)
  case reach_start
  show ?case by (simp add: all_enabled_def EventManager_def list_of_def getHandlers_def bake_def HandlerList_def)
qed (use act_enabled callEvent_enabled manager_reachable_inv in blast)+

lemma list_of_disable:
  assumes "manager_reachable m"
  shows "fst (getHandlers (list_of e (disable_plugin p m))) = filter (\<lambda>h. plugin h \<noteq> p) (fst (getHandlers (list_of e m)))"
proof -
  have "\<forall>h \<in> set (fst (getHandlers (list_of e m))). plugin h \<in> enabled m"
    using reachable_enabled [OF assms] by (simp add: all_enabled_def)
  then have "filter (\<lambda>h. plugin h \<noteq> p) (fst (getHandlers (list_of e m))) = fst (getHandlers (list_of e m))"
    if "p \<notin> enabled m" using that by (intro filter_True) auto
  moreover have "list_of e (drop_handlers p (m\<lparr>enabled := E\<rparr>)) = list_of e (drop_handlers p m)" for E
    by (simp add: drop_handlers_def list_of_def)
  ultimately show ?thesis
    using list_of_drop [OF manager_reachable_inv [OF assms], of e p] by (simp add: disable_plugin_def)
qed

text \<open>In every reachable state only enabled plugins have handlers; disabling a plugin, whatever was
  registered and called before, removes its handlers from every list, and leaves the calling order of the others
  as it was.\<close>

theorem disable_plugin_silences:
  assumes "manager_reachable m"
  shows "p \<notin> enabled (disable_plugin p m)
    \<and> fst (getHandlers (list_of e (disable_plugin p m))) = filter (\<lambda>h. plugin h \<noteq> p) (fst (getHandlers (list_of e m)))
    \<and> set (map plugin (fst (getHandlers (list_of e m)))) \<subseteq> enabled m"
  using list_of_disable [OF assms] reachable_enabled [OF assms]
  by (auto simp: disable_plugin_def drop_handlers_def all_enabled_def)

subsection \<open>Concrete runs\<close>

text \<open>Two enabled plugins with a handler each, of different priorities.\<close>

definition two_plugins :: manager where
  "two_plugins = registerEvent ''E'' Low 1 True (registerEvent ''E'' Normal 2 False
     (enable_plugin 2 (enable_plugin 1 EventManager)))"

definition an_event :: event where
  "an_event = \<lparr>event_name = ''E'', async = False, cancellable = True, event_cancelled = False\<rparr>"

lemma two_plugins_reachable: "manager_reachable two_plugins"
proof -
  have a: "manager_reachable m \<Longrightarrow> manager_reachable (snd (act a (an_event, m)))" for a m
    using reach_act [of m a an_event] by (cases "act a (an_event, m)") simp
  from a [OF a [OF a [OF a [OF reach_start, of "Enable_Plugin 1"], of "Enable_Plugin 2"],
        of "Register_Event ''E'' Normal 2 False"], of "Register_Event ''E'' Low 1 True"]
  show ?thesis by (simp add: two_plugins_def)
qed

theorem disable_plugin_silences_witness:
  "fst (getHandlers (list_of ''E'' (disable_plugin 1 two_plugins))) =
     filter (\<lambda>h. plugin h \<noteq> 1) (fst (getHandlers (list_of ''E'' two_plugins)))"
  using disable_plugin_silences [OF two_plugins_reachable] by blast

theorem callEvent_delivers_witness:
  "\<exists>e' m' called. callEvent (\<lambda>h e m. []) True an_event two_plugins = Some (e', m', called)
     \<and> sorted (map priority called)"
proof -
  have "mild (\<lambda>h e m. [])" "async an_event \<noteq> True" by (simp_all add: mild_def an_event_def)
  from callEvent_delivers [OF two_plugins_reachable this] show ?thesis by blast
qed

text \<open>A handler that disables another plugin during an event makes \<open>callEvent\<close> follow a pointer to
  a destroyed handler: the vector of pointers was copied before, and the disabled plugin's handlers are
  destroyed when they are unregistered.\<close>

theorem callEvent_dangling:
  "callEvent (\<lambda>h e m. [Disable_Plugin 2]) True an_event two_plugins = None
    \<and> map_option (\<lambda>(e, m, l). map handler_id l) (callEvent (\<lambda>h e m. []) True an_event two_plugins) = Some [1, 0]"
proof
  show "callEvent (\<lambda>h e m. [Disable_Plugin 2]) True an_event two_plugins = None"
    by code_simp
  show "map_option (\<lambda>(e, m, l). map handler_id l) (callEvent (\<lambda>h e m. []) True an_event two_plugins) = Some [1, 0]"
    by code_simp
qed

end
