(* ===== verification/Plugins.thy ===== *)
theory Plugins
  imports Prelude
begin

text \<open>
  Loading plugins: the loader part of \<open>src/endstone/core/plugin/plugin_manager.cpp\<close> and
  \<open>include/endstone/plugin\<close>. A plugin is its address and its description. \<open>lookup_names_\<close> and the maps of
  \<open>loadPlugins\<close> are unordered maps: association lists in some order. \<open>onLoad\<close> is the parameter
  \<open>on_load\<close>: whether it returns or throws. What a regular expression matches is a parameter, too.
\<close>

subsection \<open>Descriptions and the loaded plugins\<close>

record plugin =
  address :: nat
  pname :: string
  prefix :: string
  provides :: "string list"
  depend :: "string list"
  soft_depend :: "string list"
  load_before :: "string list"

record plugin_manager =
  plugins :: "plugin list"
  lookup_names :: "(string \<times> plugin) list"

definition PluginManager :: plugin_manager where
  "PluginManager = \<lparr>plugins = [], lookup_names = []\<rparr>"

definition getPlugin :: "plugin_manager \<Rightarrow> string \<Rightarrow> plugin option" where
  "getPlugin s n = map_of (lookup_names s) n"

definition getPlugins :: "plugin_manager \<Rightarrow> plugin list" where
  "getPlugins s = plugins s"

definition isPluginEnabled :: "(plugin \<Rightarrow> bool) \<Rightarrow> plugin_manager \<Rightarrow> plugin option \<Rightarrow> bool" where
  "isPluginEnabled enabled s p = (case p of None \<Rightarrow> False | Some p \<Rightarrow> p \<in> set (plugins s) \<and> enabled p)"

text \<open>The constructor of a description replaces blanks in the name.\<close>

definition PluginDescription_name :: "string \<Rightarrow> string" where
  "PluginDescription_name n = map (\<lambda>c. if c = CHR '' '' then CHR ''_'' else c) n"

text \<open>\<open>initPlugin\<close>: the prefix of the logger.\<close>

fun toCamelCase_loop :: "bool \<Rightarrow> string \<Rightarrow> string" where
  "toCamelCase_loop cap [] = []"
| "toCamelCase_loop cap (c # cs) =
     (if c = CHR ''_'' then toCamelCase_loop True cs
      else if cap then toupper c # toCamelCase_loop False cs
      else c # toCamelCase_loop cap cs)"

definition toCamelCase :: "string \<Rightarrow> string" where
  "toCamelCase s = toCamelCase_loop True s"

definition initPlugin :: "plugin \<Rightarrow> string" where
  "initPlugin p = (if prefix p = [] then toCamelCase (pname p) else prefix p)"

subsection \<open>Loading one plugin\<close>

definition name_char :: "char \<Rightarrow> bool" where
  "name_char c \<longleftrightarrow> (let n = of_char c :: nat in 97 \<le> n \<and> n \<le> 122 \<or> 48 \<le> n \<and> n \<le> 57 \<or> c = CHR ''_'')"

definition valid_name :: "string \<Rightarrow> bool" where
  "valid_name n \<longleftrightarrow> n \<noteq> [] \<and> list_all name_char n"

definition starts_with :: "string \<Rightarrow> string \<Rightarrow> bool" where
  "starts_with p s \<longleftrightarrow> take (length p) s = p"

definition restricted_name :: "string \<Rightarrow> bool" where
  "restricted_name n \<longleftrightarrow> lower n \<in> {''endstone'', ''minecraft'', ''mojang''}"

definition loadPlugin :: "(plugin \<Rightarrow> bool) \<Rightarrow> plugin \<Rightarrow> plugin_manager \<Rightarrow> plugin option \<times> plugin_manager" where
  "loadPlugin on_load p s =
     (if \<not> valid_name (pname p) then (None, s)
      else if starts_with ''endstone'' (pname p) then (None, s)
      else if restricted_name (pname p) then (None, s)
      else if map_of (lookup_names s) (pname p) \<noteq> None then (None, s)
      else if \<exists>d \<in> set (depend p). getPlugin s d = None then (None, s)
      else if \<not> on_load p then (None, s)
      else (Some p, s\<lparr>plugins := plugins s @ [p],
        lookup_names := fold (\<lambda>n m. if map_of m n = None then AList.update n p m else m) (provides p)
          (AList.update (pname p) p (lookup_names s))\<rparr>))"

subsection \<open>Collecting the candidates\<close>

record resolver =
  todo :: "(string \<times> plugin) list"
  provided :: "(string \<times> string) list"
  deps :: "(string \<times> string list) list"
  softs :: "(string \<times> string list) list"
  loaded :: "string list"
  result_list :: "plugin list"
  manager :: plugin_manager

abbreviation has :: "('a \<times> 'b) list \<Rightarrow> 'a \<Rightarrow> bool" where
  "has m k \<equiv> map_of m k \<noteq> None"

definition entry :: "('a \<times> 'b list) list \<Rightarrow> 'a \<Rightarrow> 'b list" where
  "entry m k = (case map_of m k of None \<Rightarrow> [] | Some v \<Rightarrow> v)"

definition add_provided :: "plugin \<Rightarrow> (string \<times> plugin) list \<Rightarrow> string \<Rightarrow> (string \<times> string) list \<Rightarrow> (string \<times> string) list"
where
  "add_provided p ps n pr = (if has ps n then pr else AList.update n (pname p) pr)"

definition append_deps :: "string \<Rightarrow> string list \<Rightarrow> (string \<times> string list) list \<Rightarrow> (string \<times> string list) list" where
  "append_deps n ds m = (if ds = [] then m else AList.update n (entry m n @ ds) m)"

text \<open>\<open>load_before\<close> as it is written: a target that already has an entry gets its own name.\<close>

definition add_load_before :: "plugin \<Rightarrow> string \<Rightarrow> (string \<times> string list) list \<Rightarrow> (string \<times> string list) list" where
  "add_load_before p t m =
     (case map_of m t of
        Some v \<Rightarrow> AList.update t (v @ [t]) m
      | None \<Rightarrow> AList.update t [pname p] m)"

definition collect :: "plugin \<Rightarrow> resolver \<Rightarrow> resolver" where
  "collect p r =
     (let ps = AList.update (pname p) p (todo r);
          pr = AList.delete (pname p) (provided r)
      in r\<lparr>todo := ps,
           provided := fold (add_provided p ps) (provides p) pr,
           softs := fold (add_load_before p) (load_before p) (append_deps (pname p) (soft_depend p) (softs r)),
           deps := append_deps (pname p) (depend p) (deps r)\<rparr>)"

subsection \<open>Resolving the dependencies\<close>

text \<open>The loop over the hard dependencies; the flag reports an unknown one.\<close>

fun check_deps :: "string list \<Rightarrow> (string \<Rightarrow> bool) \<Rightarrow> string list \<Rightarrow> string list \<times> bool" where
  "check_deps ld known [] = ([], False)"
| "check_deps ld known (d # ds) =
     (if d \<in> set ld then check_deps ld known ds
      else if \<not> known d then (d # ds, True)
      else (case check_deps ld known ds of (ds', u) \<Rightarrow> (d # ds', u)))"

definition known :: "resolver \<Rightarrow> string \<Rightarrow> bool" where
  "known r d \<longleftrightarrow> has (todo r) d \<or> has (provided r) d"

definition put_or_drop :: "string \<Rightarrow> string list \<Rightarrow> (string \<times> string list) list \<Rightarrow> (string \<times> string list) list" where
  "put_or_drop n ds m = (if ds = [] then AList.delete n m else AList.update n ds m)"

definition load_entry :: "(plugin \<Rightarrow> bool) \<Rightarrow> string \<Rightarrow> plugin \<Rightarrow> resolver \<Rightarrow> resolver" where
  "load_entry on_load n p r =
     (case loadPlugin on_load p (manager r) of
        (None, s) \<Rightarrow> r\<lparr>manager := s\<rparr>
      | (Some q, s) \<Rightarrow> r\<lparr>manager := s, result_list := result_list r @ [q], loaded := loaded r @ n # provides q\<rparr>)"

text \<open>One plugin of the first pass; the flag says that it was clear to load.\<close>

definition visit :: "(plugin \<Rightarrow> bool) \<Rightarrow> string \<Rightarrow> plugin \<Rightarrow> resolver \<Rightarrow> resolver \<times> bool" where
  "visit on_load n p r =
     (let c = (if has (deps r) n then check_deps (loaded r) (known r) (entry (deps r) n) else ([], False));
          r1 = (if has (deps r) n then r\<lparr>deps := put_or_drop n (fst c) (deps r)\<rparr> else r)
      in if snd c
         then (r1\<lparr>softs := AList.delete n (softs r1), deps := AList.delete n (deps r1), todo := AList.delete n (todo r1)\<rparr>, False)
         else let r2 = (if has (softs r1) n
                then r1\<lparr>softs := put_or_drop n (filter (known r1) (entry (softs r1) n)) (softs r1)\<rparr> else r1)
           in if \<not> has (deps r2) n \<and> \<not> has (softs r2) n \<and> has (todo r2) n
              then ((load_entry on_load n p r2)\<lparr>todo := AList.delete n (todo r2)\<rparr>, True)
              else (r2, False))"

fun pass :: "(plugin \<Rightarrow> bool) \<Rightarrow> (string \<times> plugin) list \<Rightarrow> resolver \<Rightarrow> resolver \<times> bool" where
  "pass on_load [] r = (r, False)"
| "pass on_load ((n, p) # ps) r =
     (case visit on_load n p r of (r1, b1) \<Rightarrow> (case pass on_load ps r1 of (r2, b2) \<Rightarrow> (r2, b1 \<or> b2)))"

text \<open>The second pass loads the first plugin without hard dependencies; \<open>None\<close> if there is none.\<close>

fun second_pass :: "(plugin \<Rightarrow> bool) \<Rightarrow> (string \<times> plugin) list \<Rightarrow> resolver \<Rightarrow> resolver option" where
  "second_pass on_load [] r = None"
| "second_pass on_load ((n, p) # ps) r =
     (if \<not> has (deps r) n
      then Some ((load_entry on_load n p (r\<lparr>softs := AList.delete n (softs r)\<rparr>))\<lparr>todo := AList.delete n (todo r)\<rparr>)
      else second_pass on_load ps r)"

definition give_up :: "resolver \<Rightarrow> resolver" where
  "give_up r = r\<lparr>softs := [], deps := [], todo := []\<rparr>"

subsection \<open>The passes make progress\<close>

lemma length_delete_le: "length (AList.delete k m) \<le> length m"
  by (simp add: AList.delete_eq)

lemma length_delete_less: "has m k \<Longrightarrow> length (AList.delete k m) < length m"
proof -
  assume "has m k"
  then obtain v where "(k, v) \<in> set m" by (auto dest: map_of_SomeD)
  then show ?thesis unfolding AList.delete_eq by (rule length_filter_less) simp
qed

lemma load_entry_todo [simp]: "todo (load_entry on_load n p r) = todo r"
  by (simp add: load_entry_def split: prod.split option.split)

lemma visit_todo:
  assumes "visit on_load n p r = (r', b)"
  shows "length (todo r') \<le> length (todo r)" "b \<Longrightarrow> length (todo r') < length (todo r)"
proof -
  have "todo r' = todo r \<or> todo r' = AList.delete n (todo r)" "b \<Longrightarrow> todo r' = AList.delete n (todo r) \<and> has (todo r) n"
    using assms by (auto simp: visit_def Let_def split: if_splits)
  then show "length (todo r') \<le> length (todo r)" "b \<Longrightarrow> length (todo r') < length (todo r)"
    using length_delete_le [of n "todo r"] length_delete_less [of "todo r" n] by auto
qed

lemma pass_todo:
  "pass on_load ps r = (r', b) \<Longrightarrow> length (todo r') \<le> length (todo r) \<and> (b \<longrightarrow> length (todo r') < length (todo r))"
proof (induction ps arbitrary: r b)
  case (Cons e ps)
  obtain n p where e: "e = (n, p)" by (cases e)
  obtain r1 b1 b2 where 1: "visit on_load n p r = (r1, b1)" "pass on_load ps r1 = (r', b2)" "b = (b1 \<or> b2)"
    using Cons.prems e by (auto split: prod.splits)
  from Cons.IH [OF 1(2)] visit_todo [OF 1(1)] 1(3) show ?case by auto
qed simp

lemma second_pass_todo:
  "second_pass on_load ps r = Some r' \<Longrightarrow> set ps \<subseteq> set (todo r) \<Longrightarrow> length (todo r') < length (todo r)"
proof (induction ps)
  case (Cons e ps)
  obtain n p where e: "e = (n, p)" by (cases e)
  have "(n, p) \<in> set (todo r)" using Cons.prems(2) e by simp
  then have "has (todo r) n" using weak_map_of_SomeI [of n p "todo r"] by auto
  then show ?case using Cons e length_delete_less [of "todo r" n] by (auto split: if_splits)
qed simp

function resolve :: "(plugin \<Rightarrow> bool) \<Rightarrow> resolver \<Rightarrow> resolver" where
  "resolve on_load r =
     (if todo r = [] then r
      else case pass on_load (todo r) r of (r1, progress) \<Rightarrow>
        if progress then resolve on_load r1
        else (case second_pass on_load (todo r1) r1 of
            Some r2 \<Rightarrow> resolve on_load r2
          | None \<Rightarrow> give_up r1))"
  by pat_completeness auto
termination
proof (relation "measure (\<lambda>(on_load, r). length (todo r))", simp, goal_cases)
  case (1 on_load r r1 progress)
  then show ?case using pass_todo [of on_load "todo r" r r1 progress] by simp
next
  case (2 on_load r r1 progress r2)
  then show ?case
    using pass_todo [of on_load "todo r" r r1 progress] second_pass_todo [of on_load "todo r1" r1 r2] by simp
qed

declare resolve.simps [simp del]

text \<open>\<open>loadPlugins\<close>: \<open>order\<close> is the order in which the unordered map of candidates is iterated.\<close>

definition start :: "plugin list \<Rightarrow> plugin_manager \<Rightarrow> resolver" where
  "start candidates s = fold collect candidates
     \<lparr>todo = [], provided = [], deps = [], softs = [], loaded = [], result_list = [], manager = s\<rparr>"

definition loadPlugins ::
  "((string \<times> plugin) list \<Rightarrow> (string \<times> plugin) list) \<Rightarrow> (plugin \<Rightarrow> bool) \<Rightarrow> plugin list \<Rightarrow> plugin_manager
   \<Rightarrow> plugin list \<times> plugin_manager" where
  "loadPlugins order on_load candidates s =
     (let r0 = start candidates s; r = resolve on_load (r0\<lparr>todo := order (todo r0)\<rparr>)
      in (result_list r, manager r))"

subsection \<open>The invariant of the loaded plugins\<close>

text \<open>Every dependency of a loaded plugin is the name of, or provided by, a plugin loaded before it; names
  are valid and distinct, and looking up the name of a loaded plugin gives that plugin.\<close>

definition supplies :: "plugin \<Rightarrow> string \<Rightarrow> bool" where
  "supplies q n \<longleftrightarrow> n = pname q \<or> n \<in> set (provides q)"

definition depends_ok :: "plugin list \<Rightarrow> bool" where
  "depends_ok ps \<longleftrightarrow> (\<forall>i < length ps. \<forall>d \<in> set (depend (ps ! i)). \<exists>j < i. supplies (ps ! j) d)"

definition plugins_inv :: "plugin_manager \<Rightarrow> bool" where
  "plugins_inv s \<longleftrightarrow> depends_ok (plugins s) \<and> distinct (map pname (plugins s))
     \<and> (\<forall>p \<in> set (plugins s). valid_name (pname p) \<and> \<not> starts_with ''endstone'' (pname p)
          \<and> \<not> restricted_name (pname p) \<and> getPlugin s (pname p) = Some p)
     \<and> (\<forall>n q. getPlugin s n = Some q \<longrightarrow> q \<in> set (plugins s) \<and> supplies q n)"

lemma lookup_provides:
  "map_of (fold (\<lambda>n m. if map_of m n = None then AList.update n p m else m) ns m) k =
     (case map_of m k of Some q \<Rightarrow> Some q | None \<Rightarrow> if k \<in> set ns then Some p else None)"
  by (induction ns arbitrary: m) (auto simp: update_conv split: option.splits)

lemma loadPlugin_None: "loadPlugin on_load p s = (None, s') \<Longrightarrow> s' = s"
  by (auto simp: loadPlugin_def split: if_splits)

lemma loadPlugin_Some:
  assumes "loadPlugin on_load p s = (Some q, s')"
  shows "q = p \<and> valid_name (pname p) \<and> \<not> starts_with ''endstone'' (pname p) \<and> \<not> restricted_name (pname p)
    \<and> getPlugin s (pname p) = None \<and> (\<forall>d \<in> set (depend p). getPlugin s d \<noteq> None) \<and> on_load p
    \<and> plugins s' = plugins s @ [p]
    \<and> (\<forall>n. getPlugin s' n = (if n = pname p then Some p else case getPlugin s n of Some q \<Rightarrow> Some q
          | None \<Rightarrow> if n \<in> set (provides p) then Some p else None))"
  using assms by (auto simp: loadPlugin_def getPlugin_def lookup_provides update_conv split: if_splits option.splits)

lemma depends_snoc:
  "depends_ok ps \<Longrightarrow> \<forall>d \<in> set (depend p). \<exists>q \<in> set ps. supplies q d \<Longrightarrow> depends_ok (ps @ [p])"
proof -
  assume o: "depends_ok ps" and n: "\<forall>d \<in> set (depend p). \<exists>q \<in> set ps. supplies q d"
  have "\<exists>j < i. supplies ((ps @ [p]) ! j) d" if il: "i < Suc (length ps)" and dd: "d \<in> set (depend ((ps @ [p]) ! i))" for i d
  proof (cases "i < length ps")
    case True
    then obtain j where "j < i" "supplies (ps ! j) d" using o dd by (auto simp: depends_ok_def nth_append)
    then show ?thesis using True by (intro exI [of _ j]) (simp add: nth_append)
  next
    case False
    then have i: "i = length ps" using il by simp
    then obtain q where "q \<in> set ps" "supplies q d" using n dd by auto
    then obtain j where "j < length ps" "supplies (ps ! j) d" by (auto simp: in_set_conv_nth)
    then show ?thesis using i by (intro exI [of _ j]) (simp add: nth_append)
  qed
  then show ?thesis by (simp add: depends_ok_def)
qed

lemma loadPlugin_inv:
  assumes "plugins_inv s"
  shows "plugins_inv (snd (loadPlugin on_load p s))"
proof (cases "fst (loadPlugin on_load p s)")
  case None
  then have "snd (loadPlugin on_load p s) = s" using loadPlugin_None by (metis prod.collapse)
  with assms show ?thesis by simp
next
  case (Some q)
  define s' where "s' = snd (loadPlugin on_load p s)"
  have "loadPlugin on_load p s = (Some q, s')" using Some by (simp add: s'_def prod_eq_iff)
  note l = loadPlugin_Some [OF this]
  have d: "depends_ok (plugins s @ [p])"
  proof (rule depends_snoc)
    show "\<forall>d \<in> set (depend p). \<exists>q \<in> set (plugins s). supplies q d"
    proof
      fix d
      assume "d \<in> set (depend p)"
      then obtain q where "getPlugin s d = Some q" using l by blast
      then show "\<exists>q \<in> set (plugins s). supplies q d" using assms unfolding plugins_inv_def by blast
    qed
  qed (use assms in \<open>simp add: plugins_inv_def\<close>)
  have fresh: "pname p \<notin> pname ` set (plugins s)"
    using assms l by (auto simp: plugins_inv_def)
  have look: "getPlugin s' (pname q) = Some q" if "q \<in> set (plugins s)" for q
  proof -
    have "getPlugin s (pname q) = Some q" using assms that by (simp add: plugins_inv_def)
    moreover have "pname q \<noteq> pname p" using fresh that by (metis imageI)
    ultimately show ?thesis using l by simp
  qed
  have own: "getPlugin s' n = Some q \<Longrightarrow> q \<in> set (plugins s @ [p]) \<and> supplies q n" for n q
    using l assms by (auto simp: plugins_inv_def supplies_def split: if_splits option.splits)
  have self: "getPlugin s' (pname p) = Some p" using l by simp
  have "plugins_inv s'"
    using assms d fresh look own self l unfolding plugins_inv_def by (auto simp: supplies_def)
  then show ?thesis by (simp add: s'_def)
qed

subsection \<open>The resolver loads plugins one after another\<close>

definition resolver_inv :: "plugin_manager \<Rightarrow> plugin list \<Rightarrow> resolver \<Rightarrow> bool" where
  "resolver_inv s0 cs r \<longleftrightarrow> plugins_inv (manager r) \<and> plugins (manager r) = plugins s0 @ result_list r
     \<and> set (result_list r) \<subseteq> set cs \<and> (\<forall>(n, p) \<in> set (todo r). p \<in> set cs \<and> n = pname p)"

lemma resolver_inv_fields [simp]:
  "resolver_inv s0 cs (r\<lparr>deps := d\<rparr>) = resolver_inv s0 cs r"
  "resolver_inv s0 cs (r\<lparr>softs := d\<rparr>) = resolver_inv s0 cs r"
  "resolver_inv s0 cs (r\<lparr>loaded := ld\<rparr>) = resolver_inv s0 cs r"
  by (simp_all add: resolver_inv_def)

lemma set_delete: "x \<in> set (AList.delete k m) \<Longrightarrow> x \<in> set m"
  by (simp add: AList.delete_eq)

lemma resolver_inv_delete: "resolver_inv s0 cs r \<Longrightarrow> resolver_inv s0 cs (r\<lparr>todo := AList.delete n (todo r)\<rparr>)"
  by (auto simp: resolver_inv_def dest: set_delete)

lemma load_entry_inv:
  assumes "resolver_inv s0 cs r" "p \<in> set cs"
  shows "resolver_inv s0 cs (load_entry on_load n p r)"
proof (cases "loadPlugin on_load p (manager r)")
  case (Pair q s)
  have i: "plugins_inv s" using loadPlugin_inv [of "manager r" on_load p] assms(1) Pair by (simp add: resolver_inv_def)
  show ?thesis
  proof (cases q)
    case None
    then show ?thesis using loadPlugin_None [of on_load p "manager r" s] Pair assms(1) by (simp add: load_entry_def)
  next
    case (Some q')
    with loadPlugin_Some [of on_load p "manager r" q' s] Pair assms i show ?thesis
      by (simp add: load_entry_def resolver_inv_def)
  qed
qed

lemma visit_inv:
  assumes "resolver_inv s0 cs r" "p \<in> set cs" "visit on_load n p r = (r', b)"
  shows "resolver_inv s0 cs r'"
proof -
  have d: "resolver_inv s0 cs (t\<lparr>todo := AList.delete n td\<rparr>)" if "resolver_inv s0 cs t" "td = todo t" for t td
    using resolver_inv_delete that by blast
  show ?thesis
    using assms by (auto simp: visit_def Let_def load_entry_inv split: if_splits intro!: d)
qed

lemma pass_inv:
  "resolver_inv s0 cs r \<Longrightarrow> \<forall>(n, p) \<in> set ps. p \<in> set cs \<Longrightarrow> pass on_load ps r = (r', b) \<Longrightarrow> resolver_inv s0 cs r'"
  by (induction ps arbitrary: r b) (auto split: prod.splits dest: visit_inv)

lemma second_pass_inv:
  "resolver_inv s0 cs r \<Longrightarrow> \<forall>(n, p) \<in> set ps. p \<in> set cs \<Longrightarrow> second_pass on_load ps r = Some r' \<Longrightarrow> resolver_inv s0 cs r'"
proof (induction ps)
  case (Cons e ps)
  obtain n p where e: "e = (n, p)" by (cases e)
  let ?r = "load_entry on_load n p (r\<lparr>softs := AList.delete n (softs r)\<rparr>)"
  have "resolver_inv s0 cs ?r" using Cons.prems e by (intro load_entry_inv) simp_all
  from resolver_inv_delete [OF this, of n] Cons e show ?case by (auto split: if_splits)
qed simp

lemma resolve_inv: "resolver_inv s0 cs r \<Longrightarrow> resolver_inv s0 cs (resolve on_load r)"
proof (induction on_load r rule: resolve.induct)
  case (1 on_load r)
  show ?case
  proof (cases "todo r = []")
    case True
    then show ?thesis using "1.prems" by (simp add: resolve.simps)
  next
    case False
    obtain r1 b where p: "pass on_load (todo r) r = (r1, b)" by (cases "pass on_load (todo r) r")
    have td: "\<forall>(n, p) \<in> set (todo r). p \<in> set cs" if "resolver_inv s0 cs r" for r
      using that by (auto simp: resolver_inv_def)
    have i: "resolver_inv s0 cs r1" by (rule pass_inv [OF "1.prems" td [OF "1.prems"] p])
    show ?thesis
    proof (cases b)
      case True
      with 1 False p i show ?thesis by (subst resolve.simps) simp
    next
      case nb: False
      show ?thesis
      proof (cases "second_pass on_load (todo r1) r1")
        case None
        with False p nb i show ?thesis by (subst resolve.simps) (simp add: give_up_def resolver_inv_def)
      next
        case (Some r2)
        have "resolver_inv s0 cs r2" by (rule second_pass_inv [OF i td [OF i] Some])
        with 1 False p nb Some show ?thesis by (subst resolve.simps) simp
      qed
    qed
  qed
qed

lemma collect_todo:
  "todo (fold collect cs r) = fold (\<lambda>p m. AList.update (pname p) p m) cs (todo r)"
  "manager (fold collect cs r) = manager r" "result_list (fold collect cs r) = result_list r"
  "loaded (fold collect cs r) = loaded r"
  by (induction cs arbitrary: r) (simp_all add: collect_def Let_def)

lemma set_fold_update:
  "(n, p) \<in> set (fold (\<lambda>p m. AList.update (pname p) p m) cs m) \<Longrightarrow> (n, p) \<in> set m \<or> p \<in> set cs \<and> n = pname p"
proof (induction cs arbitrary: m)
  case (Cons c cs)
  have "set (AList.update (pname c) c m) \<subseteq> insert (pname c, c) (set m)" by (induction m) auto
  with Cons show ?case by fastforce
qed simp

lemma start_inv:
  assumes "plugins_inv s" "\<And>xs. set (order xs) = set xs"
  shows "resolver_inv s cs ((start cs s)\<lparr>todo := order (todo (start cs s))\<rparr>)"
  using assms set_fold_update [of _ _ cs "[]"] by (auto simp: start_def collect_todo resolver_inv_def)

subsection \<open>Everything that can be loaded is loaded\<close>

text \<open>A set of candidates without \<open>provides\<close> whose hard dependencies are candidates and acyclic.\<close>

definition loadable :: "(plugin \<Rightarrow> bool) \<Rightarrow> (string \<Rightarrow> nat) \<Rightarrow> plugin list \<Rightarrow> bool" where
  "loadable on_load rank cs \<longleftrightarrow> distinct (map pname cs)
     \<and> (\<forall>p \<in> set cs. valid_name (pname p) \<and> \<not> starts_with ''endstone'' (pname p) \<and> \<not> restricted_name (pname p)
          \<and> on_load p \<and> provides p = []
          \<and> (\<forall>d \<in> set (depend p). d \<in> pname ` set cs \<and> rank d < rank (pname p)))"

definition on_track :: "plugin list \<Rightarrow> resolver \<Rightarrow> bool" where
  "on_track cs r \<longleftrightarrow> provided r = [] \<and> distinct (map fst (todo r))
     \<and> (\<forall>(n, p) \<in> set (todo r). p \<in> set cs \<and> n = pname p \<and> n \<notin> set (loaded r)
          \<and> set (entry (deps r) n) \<subseteq> set (depend p) \<and> set (depend p) \<subseteq> set (loaded r) \<union> set (entry (deps r) n))
     \<and> (\<forall>p \<in> set cs. (pname p, p) \<in> set (todo r) \<or> p \<in> set (result_list r) \<and> pname p \<in> set (loaded r))
     \<and> (\<forall>n. getPlugin (manager r) n \<noteq> None \<longleftrightarrow> n \<in> set (loaded r))"

lemma on_track_clear:
  assumes "on_track cs r" "(n, p) \<in> set (todo r)" "\<not> has (deps r) n"
  shows "set (depend p) \<subseteq> set (loaded r)"
proof -
  have "entry (deps r) n = []" using assms(3) by (simp add: entry_def)
  moreover have "set (depend p) \<subseteq> set (loaded r) \<union> set (entry (deps r) n)"
    using assms(1,2) unfolding on_track_def by blast
  ultimately show ?thesis by simp
qed

lemma has_iff: "has m k \<longleftrightarrow> (\<exists>v. (k, v) \<in> set m)"
  by (auto dest: map_of_SomeD weak_map_of_SomeI)

lemma check_deps_known:
  assumes "\<forall>d \<in> set ds. d \<in> set ld \<or> kn d"
  shows "check_deps ld kn ds = (filter (\<lambda>d. d \<notin> set ld) ds, False)"
  using assms by (induction ds) auto

lemma loadable_loads:
  assumes "loadable on_load rank cs" "p \<in> set cs" "getPlugin s (pname p) = None"
    "\<forall>d \<in> set (depend p). getPlugin s d \<noteq> None"
  shows "\<exists>s'. loadPlugin on_load p s = (Some p, s') \<and> (\<forall>n. getPlugin s' n = (if n = pname p then Some p else getPlugin s n))"
proof -
  have "provides p = []" using assms(1,2) by (simp add: loadable_def)
  with assms show ?thesis by (auto simp: loadPlugin_def loadable_def getPlugin_def update_conv)
qed

lemma load_entry_on_track:
  assumes "loadable on_load rank cs" "on_track cs r" "(n, p) \<in> set (todo r)" "set (depend p) \<subseteq> set (loaded r)"
  shows "on_track cs ((load_entry on_load n p r)\<lparr>todo := AList.delete n (todo r)\<rparr>)"
proof -
  have p: "p \<in> set cs" "n = pname p" "n \<notin> set (loaded r)" using assms(2,3) by (auto simp: on_track_def)
  have look: "getPlugin (manager r) k \<noteq> None \<longleftrightarrow> k \<in> set (loaded r)" for k
    using assms(2) unfolding on_track_def by blast
  obtain s' where s': "loadPlugin on_load p (manager r) = (Some p, s')"
    "\<forall>k. getPlugin s' k = (if k = pname p then Some p else getPlugin (manager r) k)"
    using loadable_loads [OF assms(1) p(1), of "manager r"] look assms(4) p by blast
  have pr: "provides p = []" using assms(1) p(1) by (simp add: loadable_def)
  let ?r = "(load_entry on_load n p r)\<lparr>todo := AList.delete n (todo r)\<rparr>"
  have r: "manager ?r = s'" "result_list ?r = result_list r @ [p]" "loaded ?r = loaded r @ [n]"
    "todo ?r = AList.delete n (todo r)" "deps ?r = deps r" "provided ?r = provided r"
    using s'(1) pr by (simp_all add: load_entry_def)
  have td: "(k, q) \<in> set (todo ?r) \<longleftrightarrow> (k, q) \<in> set (todo r) \<and> k \<noteq> n" for k q
    unfolding r by (auto simp: AList.delete_eq)
  have a: "provided ?r = []" "distinct (map fst (todo ?r))"
    using assms(2) unfolding r on_track_def by (simp_all add: distinct_delete)
  have b: "q \<in> set cs \<and> k = pname q \<and> k \<notin> set (loaded ?r) \<and> set (entry (deps ?r) k) \<subseteq> set (depend q)
      \<and> set (depend q) \<subseteq> set (loaded ?r) \<union> set (entry (deps ?r) k)" if "(k, q) \<in> set (todo ?r)" for k q
    using that assms(2) unfolding td r(3,5) on_track_def by fastforce
  have c: "(pname q, q) \<in> set (todo ?r) \<or> q \<in> set (result_list ?r) \<and> pname q \<in> set (loaded ?r)" if "q \<in> set cs" for q
  proof (cases "pname q = n")
    case True
    then have "q = p" using assms(1) p that by (auto simp: loadable_def distinct_map inj_on_def)
    then show ?thesis using True unfolding r by simp
  next
    case False
    then show ?thesis using assms(2) that unfolding td r(2,3) on_track_def by auto
  qed
  have d: "getPlugin (manager ?r) k \<noteq> None \<longleftrightarrow> k \<in> set (loaded ?r)" for k
    using s'(2) look [of k] p(2) unfolding r by auto
  show ?thesis unfolding on_track_def using a b c d by blast
qed

text \<open>What a visit does on the way.\<close>

lemma on_track_fields [simp]: "on_track cs (r\<lparr>softs := x\<rparr>) = on_track cs r"
  by (simp add: on_track_def)

lemma entry_put_or_drop: "entry (put_or_drop n ds m) k = (if k = n then ds else entry m k)"
  by (simp add: put_or_drop_def entry_def update_conv delete_conv)

lemma has_put_or_drop: "has (put_or_drop n ds m) k \<longleftrightarrow> (if k = n then ds \<noteq> [] else has m k)"
  by (auto simp: put_or_drop_def update_conv delete_conv)

lemma on_track_deps:
  assumes "on_track cs r" "(n, p) \<in> set (todo r)"
  shows "on_track cs (r\<lparr>deps := put_or_drop n (filter (\<lambda>d. d \<notin> set (loaded r)) (entry (deps r) n)) (deps r)\<rparr>)"
proof -
  let ?ds = "put_or_drop n (filter (\<lambda>d. d \<notin> set (loaded r)) (entry (deps r) n)) (deps r)"
  have "q \<in> set cs \<and> k = pname q \<and> k \<notin> set (loaded r) \<and> set (entry ?ds k) \<subseteq> set (depend q)
      \<and> set (depend q) \<subseteq> set (loaded r) \<union> set (entry ?ds k)" if "(k, q) \<in> set (todo r)" for k q
  proof -
    have "q \<in> set cs \<and> k = pname q \<and> k \<notin> set (loaded r) \<and> set (entry (deps r) k) \<subseteq> set (depend q)
      \<and> set (depend q) \<subseteq> set (loaded r) \<union> set (entry (deps r) k)"
      using assms(1) that unfolding on_track_def by blast
    then show ?thesis by (auto simp: entry_put_or_drop)
  qed
  then have "\<forall>(k, q) \<in> set (todo r). q \<in> set cs \<and> k = pname q \<and> k \<notin> set (loaded r) \<and> set (entry ?ds k) \<subseteq> set (depend q)
      \<and> set (depend q) \<subseteq> set (loaded r) \<union> set (entry ?ds k)" by blast
  then show ?thesis using assms(1) unfolding on_track_def by (elim conjE, intro conjI) simp_all
qed

lemma depend_known:
  assumes "loadable on_load rank cs" "on_track cs r" "p \<in> set cs" "d \<in> set (depend p)"
  shows "d \<in> set (loaded r) \<or> known r d"
proof -
  obtain q where q: "q \<in> set cs" "d = pname q" using assms(1,3,4) by (auto simp: loadable_def)
  then have "(pname q, q) \<in> set (todo r) \<or> pname q \<in> set (loaded r)" using assms(2) by (auto simp: on_track_def)
  then show ?thesis using q(2) weak_map_of_SomeI [of "pname q" q "todo r"] by (auto simp: known_def)
qed

lemma visit_on_track:
  assumes l: "loadable on_load rank cs" and t: "on_track cs r" and n: "(n, p) \<in> set (todo r)"
    and v: "visit on_load n p r = (r', b)"
  shows "on_track cs r' \<and> (\<forall>e \<in> set (todo r). fst e \<noteq> n \<longrightarrow> e \<in> set (todo r'))
    \<and> (\<not> b \<longrightarrow> todo r' = todo r \<and> loaded r' = loaded r
         \<and> (\<forall>k. \<not> has (deps r) k \<longrightarrow> \<not> has (deps r') k)
         \<and> (set (depend p) \<subseteq> set (loaded r) \<longrightarrow> \<not> has (deps r') n))"
proof -
  let ?ds = "filter (\<lambda>d. d \<notin> set (loaded r)) (entry (deps r) n)"
  define r1 where "r1 = (if has (deps r) n then r\<lparr>deps := put_or_drop n ?ds (deps r)\<rparr> else r)"
  have p: "p \<in> set cs" "set (entry (deps r) n) \<subseteq> set (depend p)"
    "set (depend p) \<subseteq> set (loaded r) \<union> set (entry (deps r) n)" using t n by (auto simp: on_track_def)
  have "\<forall>d \<in> set (entry (deps r) n). d \<in> set (loaded r) \<or> known r d"
    using depend_known [OF l t p(1)] p(2) by blast
  note c = check_deps_known [OF this]
  have t1: "on_track cs r1" using on_track_deps [OF t n] t by (simp add: r1_def)
  define r2 where "r2 = (if has (softs r1) n
      then r1\<lparr>softs := put_or_drop n (filter (known r1) (entry (softs r1) n)) (softs r1)\<rparr> else r1)"
  have t2: "on_track cs r2" using t1 by (simp add: r2_def)
  have eq: "todo r2 = todo r" "loaded r2 = loaded r" "deps r2 = deps r1" by (simp_all add: r1_def r2_def)
  have v': "(r', b) = (if \<not> has (deps r2) n \<and> \<not> has (softs r2) n \<and> has (todo r2) n
      then ((load_entry on_load n p r2)\<lparr>todo := AList.delete n (todo r2)\<rparr>, True) else (r2, False))"
  proof -
    have 1: "snd (if has (deps r) n then check_deps (loaded r) (known r) (entry (deps r) n) else ([], False)) = False"
      using c by simp
    have 2: "(if has (deps r) n then r\<lparr>deps := put_or_drop n (fst (if has (deps r) n
        then check_deps (loaded r) (known r) (entry (deps r) n) else ([], False))) (deps r)\<rparr> else r) = r1"
      using c by (simp add: r1_def)
    show ?thesis using v unfolding visit_def Let_def 1 2 r2_def [symmetric] by simp
  qed
  have drop: "\<not> has (deps r1) n" if "set (depend p) \<subseteq> set (loaded r)"
  proof -
    have "?ds = []" using that p(2) by (auto simp: filter_empty_conv)
    then show ?thesis using has_put_or_drop [of n "[]" "deps r" n] by (simp add: r1_def)
  qed
  have keep: "\<not> has (deps r) k \<Longrightarrow> \<not> has (deps r1) k" for k
    using has_put_or_drop [of n ?ds "deps r" k] by (auto simp: r1_def split: if_splits)
  show ?thesis
  proof (cases b)
    case True
    then have r': "r' = (load_entry on_load n p r2)\<lparr>todo := AList.delete n (todo r2)\<rparr>" "\<not> has (deps r2) n"
      using v' by (auto split: if_splits)
    have "set (depend p) \<subseteq> set (loaded r2)" using on_track_clear [OF t2 _ r'(2)] n eq by simp
    then have "on_track cs r'" unfolding r' using n eq by (intro load_entry_on_track [OF l t2]) simp_all
    moreover have "\<forall>e \<in> set (todo r). fst e \<noteq> n \<longrightarrow> e \<in> set (todo r')"
      unfolding r' using eq by (auto simp: AList.delete_eq)
    ultimately show ?thesis using True by simp
  next
    case False
    then have "r' = r2" using v' by (auto split: if_splits)
    then show ?thesis using t2 eq drop keep False by simp
  qed
qed


lemma pass_on_track:
  assumes l: "loadable on_load rank cs"
  shows "on_track cs r \<Longrightarrow> set ps \<subseteq> set (todo r) \<Longrightarrow> distinct (map fst ps) \<Longrightarrow> pass on_load ps r = (r', b) \<Longrightarrow>
    on_track cs r' \<and> (\<not> b \<longrightarrow> todo r' = todo r \<and> loaded r' = loaded r
      \<and> (\<forall>k. \<not> has (deps r) k \<longrightarrow> \<not> has (deps r') k)
      \<and> (\<forall>(n, p) \<in> set ps. set (depend p) \<subseteq> set (loaded r) \<longrightarrow> \<not> has (deps r') n))"
proof (induction ps arbitrary: r b)
  case (Cons e ps)
  obtain n p where e: "e = (n, p)" by (cases e)
  obtain r1 b1 b2 where 1: "visit on_load n p r = (r1, b1)" "pass on_load ps r1 = (r', b2)" "b = (b1 \<or> b2)"
    using Cons.prems(4) e by (auto split: prod.splits)
  have n: "(n, p) \<in> set (todo r)" using Cons.prems(2) e by simp
  note v = visit_on_track [OF l Cons.prems(1) n 1(1)]
  have "\<forall>x \<in> set ps. fst x \<noteq> n" using Cons.prems(3) e by auto
  then have "set ps \<subseteq> set (todo r1)" using v Cons.prems(2) by auto
  moreover have "distinct (map fst ps)" using Cons.prems(3) by simp
  ultimately have ih: "on_track cs r' \<and> (\<not> b2 \<longrightarrow> todo r' = todo r1 \<and> loaded r' = loaded r1
      \<and> (\<forall>k. \<not> has (deps r1) k \<longrightarrow> \<not> has (deps r') k)
      \<and> (\<forall>(n, p) \<in> set ps. set (depend p) \<subseteq> set (loaded r1) \<longrightarrow> \<not> has (deps r') n))"
    using Cons.IH v 1(2) by blast
  show ?case
  proof (cases b)
    case True
    then show ?thesis using ih by simp
  next
    case False
    with 1(3) have "\<not> b1" "\<not> b2" by simp_all
    with ih v show ?thesis unfolding e by auto
  qed
qed simp

lemma second_pass_Some:
  "(n, p) \<in> set ps \<Longrightarrow> \<not> has (deps r) n \<Longrightarrow>
    \<exists>k q. second_pass on_load ps r =
        Some ((load_entry on_load k q (r\<lparr>softs := AList.delete k (softs r)\<rparr>))\<lparr>todo := AList.delete k (todo r)\<rparr>)
      \<and> (k, q) \<in> set ps \<and> \<not> has (deps r) k"
proof (induction ps)
  case (Cons e ps)
  obtain k q where e: "e = (k, q)" by (cases e)
  show ?case
  proof (cases "has (deps r) k")
    case True
    then have "(n, p) \<in> set ps" using Cons.prems e by auto
    with Cons.IH Cons.prems(2) True show ?thesis unfolding e by auto
  next
    case False
    then show ?thesis unfolding e by auto
  qed
qed simp

lemma least_ready:
  assumes "loadable on_load rank cs" "on_track cs r" "todo r \<noteq> []"
  obtains n p where "(n, p) \<in> set (todo r)" "set (depend p) \<subseteq> set (loaded r)"
proof -
  obtain e where e: "e \<in> set (todo r)" "\<forall>x \<in> set (todo r). rank (fst e) \<le> rank (fst x)"
    using ex_min_if_finite [of "(\<lambda>x. rank (fst x)) ` set (todo r)"] assms(3)
    by (auto simp: not_less)
  obtain n p where np: "e = (n, p)" by (cases e)
  have p: "p \<in> set cs" "n = pname p" using assms(2) e(1) np by (auto simp: on_track_def)
  have "d \<in> set (loaded r)" if dd: "d \<in> set (depend p)" for d
  proof -
    have "d \<in> pname ` set cs" "rank d < rank (pname p)" using assms(1) p(1) dd unfolding loadable_def by blast+
    then obtain q where q: "q \<in> set cs" "d = pname q" "rank d < rank n" using p(2) by blast
    then have "(pname q, q) \<notin> set (todo r)" using e(2) np by fastforce
    then show ?thesis using assms(2) q(1,2) by (auto simp: on_track_def)
  qed
  then show thesis using that e(1) np by blast
qed

lemma resolve_on_track:
  "loadable on_load rank cs \<Longrightarrow> on_track cs r \<Longrightarrow> on_track cs (resolve on_load r) \<and> todo (resolve on_load r) = []"
proof (induction on_load r rule: resolve.induct)
  case (1 on_load r)
  note l = "1.prems"(1)
  show ?case
  proof (cases "todo r = []")
    case True
    then show ?thesis using "1.prems" by (simp add: resolve.simps)
  next
    case False
    obtain r1 b where p: "pass on_load (todo r) r = (r1, b)" by (cases "pass on_load (todo r) r")
    have d: "distinct (map fst (todo r))" using "1.prems"(2) by (simp add: on_track_def)
    note pt = pass_on_track [OF l "1.prems"(2) subset_refl d p]
    show ?thesis
    proof (cases b)
      case True
      with 1 False p pt show ?thesis by (subst (1 2) resolve.simps) simp
    next
      case nb: False
      have t1: "todo r1 \<noteq> []" "on_track cs r1" using pt nb False by simp_all
      obtain n q where "(n, q) \<in> set (todo r1)" "set (depend q) \<subseteq> set (loaded r1)"
        using least_ready [OF l t1(2,1)] by blast
      then have "\<not> has (deps r1) n" "(n, q) \<in> set (todo r1)" using pt nb by auto
      then obtain k p' r2 where s: "second_pass on_load (todo r1) r1 = Some r2" "(k, p') \<in> set (todo r1)" "\<not> has (deps r1) k"
        "r2 = (load_entry on_load k p' (r1\<lparr>softs := AList.delete k (softs r1)\<rparr>))\<lparr>todo := AList.delete k (todo r1)\<rparr>"
        using second_pass_Some [of n q "todo r1" r1 on_load] by blast
      have "set (depend p') \<subseteq> set (loaded r1)" by (rule on_track_clear [OF t1(2) s(2,3)])
      then have "on_track cs r2"
        unfolding s(4) using load_entry_on_track [OF l, of "r1\<lparr>softs := AList.delete k (softs r1)\<rparr>" k p'] t1(2) s(2) by simp
      with 1 False p nb s(1) show ?thesis by (subst (1 2) resolve.simps) simp
    qed
  qed
qed


lemma fold_add_provided [simp]: "provides p = [] \<Longrightarrow> fold (add_provided p ps) (provides p) m = m"
  by simp

lemma collect_loadable:
  "distinct (map pname cs) \<Longrightarrow> \<forall>p \<in> set cs. provides p = [] \<Longrightarrow> provided r = [] \<Longrightarrow>
    \<forall>p \<in> set cs. pname p \<notin> set (map fst (todo r)) \<and> entry (deps r) (pname p) = [] \<Longrightarrow>
    provided (fold collect cs r) = [] \<and> todo (fold collect cs r) = todo r @ map (\<lambda>p. (pname p, p)) cs
    \<and> (\<forall>p \<in> set cs. entry (deps (fold collect cs r)) (pname p) = depend p)
    \<and> (\<forall>n. n \<notin> pname ` set cs \<longrightarrow> entry (deps (fold collect cs r)) n = entry (deps r) n)"
proof (induction cs arbitrary: r)
  case (Cons c cs)
  let ?r = "collect c r"
  have upd: "k \<notin> set (map fst m) \<Longrightarrow> AList.update k v m = m @ [(k, v)]" for k v and m :: "(string \<times> plugin) list"
    by (induction m) auto
  have c: "provided ?r = []" "todo ?r = todo r @ [(pname c, c)]"
    using Cons.prems upd by (simp_all add: collect_def Let_def)
  have e: "entry (deps ?r) n = (if n = pname c then depend c else entry (deps r) n)" for n
    using Cons.prems(4) by (auto simp: collect_def Let_def append_deps_def entry_def update_conv)
  have 1: "distinct (map pname cs)" "\<forall>p \<in> set cs. provides p = []" "pname c \<notin> pname ` set cs"
    using Cons.prems(1,2) by simp_all
  have "\<forall>p \<in> set cs. pname p \<notin> set (map fst (todo ?r)) \<and> entry (deps ?r) (pname p) = []"
    using Cons.prems(4) 1(3) c(2) e by (auto simp: image_iff)
  from Cons.IH [OF 1(1,2) c(1) this] c(2) e 1(3) show ?case by auto
qed simp

lemma start_on_track:
  assumes "loadable on_load rank cs" "\<And>xs. mset (order xs) = mset xs"
  shows "on_track cs ((start cs PluginManager)\<lparr>todo := order (todo (start cs PluginManager))\<rparr>)"
proof -
  define r where "r = start cs PluginManager"
  have l: "distinct (map pname cs)" "\<forall>p \<in> set cs. provides p = []" using assms(1) by (auto simp: loadable_def)
  have "provided r = [] \<and> todo r = map (\<lambda>p. (pname p, p)) cs
    \<and> (\<forall>p \<in> set cs. entry (deps r) (pname p) = depend p)"
    using collect_loadable [OF l, of "\<lparr>todo = [], provided = [], deps = [], softs = [], loaded = [],
      result_list = [], manager = PluginManager\<rparr>"] by (simp add: r_def start_def entry_def [of "[]"])
  moreover have "manager r = PluginManager" "result_list r = []" "loaded r = []"
    by (simp_all add: r_def start_def collect_todo)
  moreover have "set (order (todo r)) = set (todo r)" using assms(2) mset_eq_setD by blast
  moreover have "distinct (map fst (order (todo r)))"
  proof -
    have "mset (map fst (order (todo r))) = mset (map fst (todo r))" using assms(2) by simp
    then have "distinct (map fst (order (todo r))) = distinct (map fst (todo r))" by (rule mset_eq_imp_distinct_iff)
    then show ?thesis using l(1) calculation(1) by (simp add: comp_def)
  qed
  ultimately have "on_track cs (r\<lparr>todo := order (todo r)\<rparr>)"
    by (auto simp: on_track_def PluginManager_def getPlugin_def)
  then show ?thesis by (simp add: r_def)
qed


text \<open>C12: Loading plugins keeps the invariant, whatever the candidates are and in whatever order the unordered map
  is iterated: afterwards every dependency of a loaded plugin is supplied by a plugin loaded before it,
  names are valid, unrestricted and distinct, the lookup finds each plugin by its name, and the plugins
  returned are candidates, appended to the list of loaded plugins in that order.\<close>

theorem loadPlugins_ordered:
  assumes "plugins_inv s" "\<And>xs. mset (order xs) = mset xs"
    and "loadPlugins order on_load candidates s = (res, s')"
  shows "plugins_inv s' \<and> plugins s' = plugins s @ res \<and> set res \<subseteq> set candidates"
proof -
  have "set (order xs) = set xs" for xs using assms(2) mset_eq_setD by blast
  from resolve_inv [OF start_inv [OF assms(1) this, of candidates], of on_load]
  show ?thesis using assms(3) by (auto simp: loadPlugins_def Let_def resolver_inv_def)
qed

text \<open>C13: If the hard dependencies of the candidates are candidates and acyclic, the names are valid and
  distinct, nothing else is provided and no \<open>onLoad\<close> throws, then every candidate is loaded into an empty manager, for every
  iteration order and whatever soft dependencies and \<open>load_before\<close> entries there are.\<close>

theorem loadPlugins_complete:
  assumes "loadable on_load rank candidates" "\<And>xs. mset (order xs) = mset xs"
  shows "set (fst (loadPlugins order on_load candidates PluginManager)) = set candidates"
proof -
  let ?r0 = "(start candidates PluginManager)\<lparr>todo := order (todo (start candidates PluginManager))\<rparr>"
  have s: "set (order xs) = set xs" for xs using assms(2) mset_eq_setD by blast
  have 0: "plugins_inv PluginManager"
    by (simp add: plugins_inv_def PluginManager_def depends_ok_def getPlugin_def)
  have 1: "resolver_inv PluginManager candidates (resolve on_load ?r0)"
    by (rule resolve_inv [OF start_inv [OF 0 s]])
  have 2: "on_track candidates (resolve on_load ?r0)" "todo (resolve on_load ?r0) = []"
    using resolve_on_track [OF assms(1) start_on_track [OF assms]] by blast+
  show ?thesis using 1 2 by (auto simp: loadPlugins_def Let_def resolver_inv_def on_track_def)
qed

subsection \<open>Concrete runs\<close>

definition plain :: "nat \<Rightarrow> string \<Rightarrow> string list \<Rightarrow> string list \<Rightarrow> string list \<Rightarrow> plugin" where
  "plain i n d sd lb = \<lparr>address = i, pname = n, prefix = [], provides = [], depend = d, soft_depend = sd, load_before = lb\<rparr>"

theorem loadPlugins_complete_witness:
  "set (fst (loadPlugins rev (\<lambda>_. True) [plain 0 ''a'' [''b''] [] [], plain 1 ''b'' [] [''a''] []] PluginManager))
    = set [plain 0 ''a'' [''b''] [] [], plain 1 ''b'' [] [''a''] []]"
  by (rule loadPlugins_complete [where rank = "\<lambda>n. if n = ''a'' then 1 else 0"])
    (simp_all add: loadable_def plain_def valid_name_def name_char_def starts_with_def restricted_name_def tolower_def)

theorem loadPlugins_ordered_witness:
  "plugins_inv (snd (loadPlugins id (\<lambda>_. True) [plain 0 ''a'' [''b''] [] [], plain 1 ''b'' [] [''a''] []] PluginManager))"
proof -
  have 0: "plugins_inv PluginManager"
    by (simp add: plugins_inv_def PluginManager_def depends_ok_def getPlugin_def)
  have "mset (id xs) = mset xs" for xs :: "(string \<times> plugin) list" by simp
  from loadPlugins_ordered [OF 0 this prod.collapse [symmetric]] show ?thesis by blast
qed

text \<open>\<open>load_before\<close> is lost when its target already has a soft dependency: the target then gets its
  own name as a soft dependency instead of the requesting plugin's, so that it is only loaded by the
  second pass, which ignores soft dependencies. Here \<open>s\<close> is loaded before its soft dependency \<open>c\<close> although
  the order \<open>b\<close>, \<open>a\<close>, \<open>c\<close>, \<open>s\<close> meets every wish, and such an order results when \<open>c\<close> is collected after \<open>a\<close>.\<close>

theorem load_before_self_dependency:
  "softs (start [plain 0 ''c'' [] [''b''] [], plain 1 ''b'' [] [] [], plain 2 ''a'' [] [] [''c'']] PluginManager)
     = [(''c'', [''b'', ''c''])]
   \<and> map pname (fst (loadPlugins id (\<lambda>_. True) [plain 3 ''s'' [] [''c''] [], plain 0 ''c'' [] [''b''] [],
        plain 1 ''b'' [] [] [], plain 2 ''a'' [] [] [''c'']] PluginManager)) = [''b'', ''a'', ''s'', ''c'']
   \<and> map pname (fst (loadPlugins id (\<lambda>_. True) [plain 3 ''s'' [] [''c''] [], plain 2 ''a'' [] [] [''c''],
        plain 0 ''c'' [] [''b''] [], plain 1 ''b'' [] [] []] PluginManager)) = [''a'', ''b'', ''c'', ''s'']"
  by code_simp

end
