(* ===== verification/Permissions.thy ===== *)
theory Permissions
  imports Prelude
begin

text \<open>
  Permissions: \<open>include/endstone/permissions\<close>, \<open>src/endstone/core/permissions\<close> and the permission part
  of \<open>src/endstone/core/plugin/plugin_manager.cpp\<close>. A \<open>Permission *\<close> is a number, its object is in the
  store as long as \<open>permissions_\<close> owns it; following a pointer to a destroyed permission is the error
  \<open>Dangling\<close>. A permissible is a number, too. Subscriber sets are lists without repetition, in some order.
  The recursion over child permissions has a bound on its depth; beyond it, it is \<open>Stack_Overflow\<close>.
\<close>

subsection \<open>Defaults and levels\<close>

datatype permission_default = Default_True | Default_False | Default_Operator | Default_NotOperator | Default_Console

datatype permission_level = Level_Default | Level_Operator | Level_Console

fun level_value :: "permission_level \<Rightarrow> nat" where
  "level_value Level_Default = 0"
| "level_value Level_Operator = 1"
| "level_value Level_Console = 2"

text \<open>\<open>PermissibleBase::hasPermission(PermissionDefault, PermissionLevel)\<close>.\<close>

fun default_allows :: "permission_default \<Rightarrow> permission_level \<Rightarrow> bool" where
  "default_allows Default_True l = True"
| "default_allows Default_False l = False"
| "default_allows Default_Operator l = (level_value l \<ge> level_value Level_Operator)"
| "default_allows Default_NotOperator l = (l = Level_Default)"
| "default_allows Default_Console l = (l = Level_Console)"

subsection \<open>The state\<close>

type_synonym permission_ref = nat
type_synonym permissible_ref = nat
type_synonym attachment_ref = nat

record permission =
  perm_name :: string
  perm_default :: permission_default
  children :: "(string \<times> bool) list"

record attachment =
  attachment_id :: attachment_ref
  att_plugin :: nat
  att_permissions :: "(string \<times> bool) list"

record permissible =
  level :: permission_level
  attachments :: "attachment list"
  effective :: "(string \<times> (attachment_ref option \<times> bool)) list"

record perm_state =
  perm_store :: "permission_ref \<Rightarrow> permission option"
  registered :: "(string \<times> permission_ref) list"
  default_perms :: "permission_level \<Rightarrow> permission_ref list"
  perm_subs :: "string \<Rightarrow> permissible_ref list"
  def_subs :: "permission_level \<Rightarrow> permissible_ref list"
  permissible_at :: "permissible_ref \<Rightarrow> permissible"
  next_address :: nat

datatype perm_error = Dangling | Stack_Overflow | Already_Defined

definition empty_state :: "(permissible_ref \<Rightarrow> permission_level) \<Rightarrow> perm_state" where
  "empty_state lv = \<lparr>perm_store = (\<lambda>_. None), registered = [], default_perms = (\<lambda>_. []), perm_subs = (\<lambda>_. []),
     def_subs = (\<lambda>_. []), permissible_at = (\<lambda>p. \<lparr>level = lv p, attachments = [], effective = []\<rparr>), next_address = 0\<rparr>"

definition link_add :: "'a \<Rightarrow> 'a list \<Rightarrow> 'a list" where
  "link_add x xs = (if x \<in> set xs then xs else xs @ [x])"

subsection \<open>Subscriptions\<close>

definition subscribeToPermission :: "string \<Rightarrow> permissible_ref \<Rightarrow> perm_state \<Rightarrow> perm_state" where
  "subscribeToPermission n p s = s\<lparr>perm_subs := (perm_subs s)(lower n := link_add p (perm_subs s (lower n)))\<rparr>"

definition unsubscribeFromPermission :: "string \<Rightarrow> permissible_ref \<Rightarrow> perm_state \<Rightarrow> perm_state" where
  "unsubscribeFromPermission n p s = s\<lparr>perm_subs := (perm_subs s)(lower n := removeAll p (perm_subs s (lower n)))\<rparr>"

definition getPermissionSubscriptions :: "string \<Rightarrow> perm_state \<Rightarrow> permissible_ref list" where
  "getPermissionSubscriptions n s = perm_subs s (lower n)"

definition subscribeToDefaultPerms :: "permission_level \<Rightarrow> permissible_ref \<Rightarrow> perm_state \<Rightarrow> perm_state" where
  "subscribeToDefaultPerms l p s = s\<lparr>def_subs := (def_subs s)(l := link_add p (def_subs s l))\<rparr>"

definition unsubscribeFromDefaultPerms :: "permission_level \<Rightarrow> permissible_ref \<Rightarrow> perm_state \<Rightarrow> perm_state" where
  "unsubscribeFromDefaultPerms l p s = s\<lparr>def_subs := (def_subs s)(l := removeAll p (def_subs s l))\<rparr>"

definition getDefaultPermSubscriptions :: "permission_level \<Rightarrow> perm_state \<Rightarrow> permissible_ref list" where
  "getDefaultPermSubscriptions l s = def_subs s l"

subsection \<open>Effective permissions\<close>

definition getPermission :: "perm_state \<Rightarrow> string \<Rightarrow> permission_ref option" where
  "getPermission s n = map_of (registered s) (lower n)"

definition getDefaultPermissions :: "permission_level \<Rightarrow> perm_state \<Rightarrow> permission_ref list" where
  "getDefaultPermissions l s = default_perms s l"

definition put_permissible :: "permissible_ref \<Rightarrow> permissible \<Rightarrow> perm_state \<Rightarrow> perm_state" where
  "put_permissible p h s = s\<lparr>permissible_at := (permissible_at s)(p := h)\<rparr>"

definition clearPermissions :: "permissible_ref \<Rightarrow> perm_state \<Rightarrow> perm_state" where
  "clearPermissions p s =
     (let h = permissible_at s p;
          s1 = fold (\<lambda>e. unsubscribeFromPermission (fst e) p) (effective h) s;
          s2 = unsubscribeFromDefaultPerms Level_Console p
                 (unsubscribeFromDefaultPerms Level_Operator p (unsubscribeFromDefaultPerms Level_Default p s1))
      in put_permissible p (h\<lparr>effective := []\<rparr>) s2)"

text \<open>Setting one effective permission and subscribing to it.\<close>

definition grant :: "string \<Rightarrow> attachment_ref option \<Rightarrow> bool \<Rightarrow> permissible_ref \<Rightarrow> perm_state \<Rightarrow> perm_state" where
  "grant n a v p s =
     (let h = permissible_at s p
      in subscribeToPermission n p (put_permissible p (h\<lparr>effective := AList.update n (a, v) (effective h)\<rparr>) s))"

definition children_of :: "perm_state \<Rightarrow> permission_ref \<Rightarrow> (string \<times> bool) list" where
  "children_of s r = (case perm_store s r of None \<Rightarrow> [] | Some q \<Rightarrow> children q)"

fun calculateChildPermissions ::
  "nat \<Rightarrow> (string \<times> bool) list \<Rightarrow> bool \<Rightarrow> attachment_ref option \<Rightarrow> permissible_ref \<Rightarrow> perm_state
   \<Rightarrow> perm_error + perm_state" where
  "calculateChildPermissions f [] invert a p s = Inr s"
| "calculateChildPermissions 0 (e # es) invert a p s = Inl Stack_Overflow"
| "calculateChildPermissions (Suc f) ((n, b) # es) invert a p s =
     (let v = (b \<noteq> invert); s1 = grant (lower n) a v p s
      in case (case getPermission s n of
            None \<Rightarrow> Inr s1
          | Some r \<Rightarrow> calculateChildPermissions f (children_of s r) (\<not> v) a p s1) of
        Inl x \<Rightarrow> Inl x
      | Inr s2 \<Rightarrow> calculateChildPermissions (Suc f) es invert a p s2)"

fun apply_defaults :: "nat \<Rightarrow> permission_ref list \<Rightarrow> permissible_ref \<Rightarrow> perm_state \<Rightarrow> perm_error + perm_state" where
  "apply_defaults f [] p s = Inr s"
| "apply_defaults f (r # rs) p s =
     (case perm_store s r of
        None \<Rightarrow> Inl Dangling
      | Some q \<Rightarrow> (case calculateChildPermissions f (children q) False None p (grant (lower (perm_name q)) None True p s) of
            Inl x \<Rightarrow> Inl x
          | Inr s1 \<Rightarrow> apply_defaults f rs p s1))"

fun apply_attachments :: "nat \<Rightarrow> attachment list \<Rightarrow> permissible_ref \<Rightarrow> perm_state \<Rightarrow> perm_error + perm_state" where
  "apply_attachments f [] p s = Inr s"
| "apply_attachments f (a # as) p s =
     (case calculateChildPermissions f (att_permissions a) False (Some (attachment_id a)) p s of
        Inl x \<Rightarrow> Inl x
      | Inr s1 \<Rightarrow> apply_attachments f as p s1)"

definition recalculatePermissions :: "nat \<Rightarrow> permissible_ref \<Rightarrow> perm_state \<Rightarrow> perm_error + perm_state" where
  "recalculatePermissions f p s =
     (let s1 = clearPermissions p s; l = level (permissible_at s p);
          defaults = getDefaultPermissions l s1; s2 = subscribeToDefaultPerms l p s1
      in case apply_defaults f defaults p s2 of
        Inl x \<Rightarrow> Inl x
      | Inr s3 \<Rightarrow> apply_attachments f (attachments (permissible_at s p)) p s3)"

fun recalculate_all :: "nat \<Rightarrow> permissible_ref list \<Rightarrow> perm_state \<Rightarrow> perm_error + perm_state" where
  "recalculate_all f [] s = Inr s"
| "recalculate_all f (p # ps) s =
     (case recalculatePermissions f p s of Inl x \<Rightarrow> Inl x | Inr s1 \<Rightarrow> recalculate_all f ps s1)"

definition isPermissionSet :: "perm_state \<Rightarrow> permissible_ref \<Rightarrow> string \<Rightarrow> bool" where
  "isPermissionSet s p n \<longleftrightarrow> map_of (effective (permissible_at s p)) (lower n) \<noteq> None"

definition hasPermission :: "perm_state \<Rightarrow> permissible_ref \<Rightarrow> string \<Rightarrow> bool" where
  "hasPermission s p n =
     (case map_of (effective (permissible_at s p)) (lower n) of
        Some (a, v) \<Rightarrow> v
      | None \<Rightarrow> (case getPermission s (lower n) of
            Some r \<Rightarrow> (case perm_store s r of
                Some q \<Rightarrow> default_allows (perm_default q) (level (permissible_at s p))
              | None \<Rightarrow> False)
          | None \<Rightarrow> default_allows Default_Operator (level (permissible_at s p))))"

subsection \<open>Attachments\<close>

definition update_attachment ::
  "permissible_ref \<Rightarrow> attachment_ref \<Rightarrow> ((string \<times> bool) list \<Rightarrow> (string \<times> bool) list) \<Rightarrow> perm_state \<Rightarrow> perm_state"
where
  "update_attachment p a g s = put_permissible p ((permissible_at s p)\<lparr>attachments :=
     map (\<lambda>t. if attachment_id t = a then t\<lparr>att_permissions := g (att_permissions t)\<rparr> else t)
       (attachments (permissible_at s p))\<rparr>) s"

definition setPermission ::
  "nat \<Rightarrow> permissible_ref \<Rightarrow> attachment_ref \<Rightarrow> string \<Rightarrow> bool \<Rightarrow> perm_state \<Rightarrow> perm_error + perm_state" where
  "setPermission f p a n v s = recalculatePermissions f p (update_attachment p a (AList.update (lower n) v) s)"

definition unsetPermission ::
  "nat \<Rightarrow> permissible_ref \<Rightarrow> attachment_ref \<Rightarrow> string \<Rightarrow> perm_state \<Rightarrow> perm_error + perm_state" where
  "unsetPermission f p a n s = recalculatePermissions f p (update_attachment p a (AList.delete (lower n)) s)"

text \<open>The result is the attachment, \<open>None\<close> for the null pointer.\<close>

definition addAttachment_plugin ::
  "nat \<Rightarrow> bool \<Rightarrow> nat \<Rightarrow> permissible_ref \<Rightarrow> perm_state \<Rightarrow> perm_error + (attachment_ref option \<times> perm_state)" where
  "addAttachment_plugin f enabled plugin p s =
     (if \<not> enabled then Inr (None, s)
      else let a = next_address s; h = permissible_at s p;
               s1 = (put_permissible p (h\<lparr>attachments := attachments h
                  @ [\<lparr>attachment_id = a, att_plugin = plugin, att_permissions = []\<rparr>]\<rparr>) s)\<lparr>next_address := Suc a\<rparr>
        in case recalculatePermissions f p s1 of Inl x \<Rightarrow> Inl x | Inr s2 \<Rightarrow> Inr (Some a, s2))"

definition addAttachment ::
  "nat \<Rightarrow> bool \<Rightarrow> nat \<Rightarrow> string \<Rightarrow> bool \<Rightarrow> permissible_ref \<Rightarrow> perm_state
   \<Rightarrow> perm_error + (attachment_ref option \<times> perm_state)" where
  "addAttachment f enabled plugin n v p s =
     (if n = [] then Inr (None, s)
      else (case addAttachment_plugin f enabled plugin p s of
          Inl x \<Rightarrow> Inl x
        | Inr (None, s1) \<Rightarrow> Inr (None, s1)
        | Inr (Some a, s1) \<Rightarrow> (case setPermission f p a n v s1 of
              Inl x \<Rightarrow> Inl x
            | Inr s2 \<Rightarrow> (case recalculatePermissions f p s2 of Inl x \<Rightarrow> Inl x | Inr s3 \<Rightarrow> Inr (Some a, s3)))))"

text \<open>A removal callback runs first; what it calls are operations before this one.\<close>

definition removeAttachment ::
  "nat \<Rightarrow> permissible_ref \<Rightarrow> attachment_ref \<Rightarrow> perm_state \<Rightarrow> perm_error + (bool \<times> perm_state)" where
  "removeAttachment f p a s =
     (let h = permissible_at s p
      in if \<exists>t \<in> set (attachments h). attachment_id t = a
         then (case recalculatePermissions f p
               (put_permissible p (h\<lparr>attachments := filter (\<lambda>t. attachment_id t \<noteq> a) (attachments h)\<rparr>) s) of
             Inl x \<Rightarrow> Inl x | Inr s1 \<Rightarrow> Inr (True, s1))
         else Inr (False, s))"

subsection \<open>The registry\<close>

definition dirtyPermissibles :: "nat \<Rightarrow> permission_level \<Rightarrow> perm_state \<Rightarrow> perm_error + perm_state" where
  "dirtyPermissibles f l s = recalculate_all f (getDefaultPermSubscriptions l s) s"

definition emplace_default :: "permission_level \<Rightarrow> permission_ref \<Rightarrow> perm_state \<Rightarrow> perm_state" where
  "emplace_default l r s = s\<lparr>default_perms := (default_perms s)(l := link_add r (default_perms s l))\<rparr>"

text \<open>The levels whose default permissions a permission belongs to, in the order of the switch.\<close>

fun default_levels :: "permission_default \<Rightarrow> permission_level list" where
  "default_levels Default_Console = [Level_Console]"
| "default_levels Default_Operator = [Level_Operator, Level_Console]"
| "default_levels Default_NotOperator = [Level_Default]"
| "default_levels Default_True = [Level_Default, Level_Operator, Level_Console]"
| "default_levels Default_False = []"

fun dirty_all :: "nat \<Rightarrow> permission_level list \<Rightarrow> perm_state \<Rightarrow> perm_error + perm_state" where
  "dirty_all f [] s = Inr s"
| "dirty_all f (l # ls) s = (case dirtyPermissibles f l s of Inl x \<Rightarrow> Inl x | Inr s1 \<Rightarrow> dirty_all f ls s1)"

definition calculatePermissionDefault :: "nat \<Rightarrow> permission_ref \<Rightarrow> perm_state \<Rightarrow> perm_error + perm_state" where
  "calculatePermissionDefault f r s =
     (case perm_store s r of
        None \<Rightarrow> Inl Dangling
      | Some q \<Rightarrow> (let ls = default_levels (perm_default q)
          in dirty_all f ls (fold (\<lambda>l. emplace_default l r) ls s)))"

definition addPermission :: "nat \<Rightarrow> permission \<Rightarrow> perm_state \<Rightarrow> perm_error + (permission_ref \<times> perm_state)" where
  "addPermission f q s =
     (let n = lower (perm_name q)
      in if map_of (registered s) n \<noteq> None then Inl Already_Defined
         else let r = next_address s;
                  s1 = s\<lparr>perm_store := (perm_store s)(r := Some q), next_address := Suc r,
                         registered := AList.update n r (registered s)\<rparr>
           in case calculatePermissionDefault f r s1 of Inl x \<Rightarrow> Inl x | Inr s2 \<Rightarrow> Inr (r, s2))"

text \<open>The permission is destroyed; the pointers in \<open>default_perms_\<close> stay.\<close>

definition removePermission :: "string \<Rightarrow> perm_state \<Rightarrow> perm_state" where
  "removePermission n s =
     (case map_of (registered s) (lower n) of
        None \<Rightarrow> s
      | Some r \<Rightarrow> s\<lparr>registered := AList.delete (lower n) (registered s), perm_store := (perm_store s)(r := None)\<rparr>)"

definition recalculatePermissionDefaults :: "nat \<Rightarrow> permission_ref \<Rightarrow> perm_state \<Rightarrow> perm_error + perm_state" where
  "recalculatePermissionDefaults f r s =
     (case perm_store s r of
        None \<Rightarrow> Inl Dangling
      | Some q \<Rightarrow>
          if getPermission s (perm_name q) \<noteq> None
          then calculatePermissionDefault f r (s\<lparr>default_perms := (\<lambda>l. removeAll r (default_perms s l))\<rparr>)
          else Inr s)"

text \<open>\<open>Permission::recalculatePermissibles\<close>, \<open>setDefault\<close> and \<open>addParent\<close>, for a registered permission.\<close>

definition recalculatePermissibles :: "nat \<Rightarrow> permission_ref \<Rightarrow> perm_state \<Rightarrow> perm_error + perm_state" where
  "recalculatePermissibles f r s =
     (case perm_store s r of
        None \<Rightarrow> Inl Dangling
      | Some q \<Rightarrow> (let ps = getPermissionSubscriptions (perm_name q) s
          in case recalculatePermissionDefaults f r s of Inl x \<Rightarrow> Inl x | Inr s1 \<Rightarrow> recalculate_all f ps s1))"

definition update_permission :: "permission_ref \<Rightarrow> (permission \<Rightarrow> permission) \<Rightarrow> perm_state \<Rightarrow> perm_state" where
  "update_permission r g s = s\<lparr>perm_store := (perm_store s)(r := map_option g (perm_store s r))\<rparr>"

definition setDefault :: "nat \<Rightarrow> permission_ref \<Rightarrow> permission_default \<Rightarrow> perm_state \<Rightarrow> perm_error + perm_state" where
  "setDefault f r d s = recalculatePermissibles f r (update_permission r (\<lambda>q. q\<lparr>perm_default := d\<rparr>) s)"

definition set_child :: "permission_ref \<Rightarrow> string \<Rightarrow> bool \<Rightarrow> perm_state \<Rightarrow> perm_state" where
  "set_child parent n v s = update_permission parent (\<lambda>q. q\<lparr>children := AList.update n v (children q)\<rparr>) s"

definition addParent :: "nat \<Rightarrow> permission_ref \<Rightarrow> permission_ref \<Rightarrow> bool \<Rightarrow> perm_state \<Rightarrow> perm_error + perm_state" where
  "addParent f r parent v s =
     (case perm_store s r of
        None \<Rightarrow> Inl Dangling
      | Some q \<Rightarrow> recalculatePermissibles f parent (set_child parent (perm_name q) v s))"

subsection \<open>Recalculation as a list of writes\<close>

type_synonym perm_write = "string \<times> attachment_ref option \<times> bool"

definition grants :: "perm_write list \<Rightarrow> permissible_ref \<Rightarrow> perm_state \<Rightarrow> perm_state" where
  "grants ws p s = fold (\<lambda>(n, a, v). grant n a v p) ws s"

text \<open>The names and values a map of child permissions stands for, in the order they are written.\<close>

fun child_writes :: "nat \<Rightarrow> perm_state \<Rightarrow> attachment_ref option \<Rightarrow> (string \<times> bool) list \<Rightarrow> bool \<Rightarrow> perm_write list option" where
  "child_writes f s a [] invert = Some []"
| "child_writes 0 s a (e # es) invert = None"
| "child_writes (Suc f) s a ((n, b) # es) invert =
     (case (case getPermission s n of None \<Rightarrow> Some [] | Some r \<Rightarrow> child_writes f s a (children_of s r) (b = invert)) of
        None \<Rightarrow> None
      | Some ws \<Rightarrow> (case child_writes (Suc f) s a es invert of
            None \<Rightarrow> None
          | Some ws' \<Rightarrow> Some ((lower n, a, b \<noteq> invert) # ws @ ws')))"

fun default_writes :: "nat \<Rightarrow> perm_state \<Rightarrow> permission_ref list \<Rightarrow> perm_error + perm_write list" where
  "default_writes f s [] = Inr []"
| "default_writes f s (r # rs) =
     (case perm_store s r of
        None \<Rightarrow> Inl Dangling
      | Some q \<Rightarrow> (case child_writes f s None (children q) False of
            None \<Rightarrow> Inl Stack_Overflow
          | Some ws \<Rightarrow> (case default_writes f s rs of
                Inl x \<Rightarrow> Inl x
              | Inr ws' \<Rightarrow> Inr ((lower (perm_name q), None, True) # ws @ ws'))))"

fun attachment_writes :: "nat \<Rightarrow> perm_state \<Rightarrow> attachment list \<Rightarrow> perm_error + perm_write list" where
  "attachment_writes f s [] = Inr []"
| "attachment_writes f s (a # as) =
     (case child_writes f s (Some (attachment_id a)) (att_permissions a) False of
        None \<Rightarrow> Inl Stack_Overflow
      | Some ws \<Rightarrow> (case attachment_writes f s as of Inl x \<Rightarrow> Inl x | Inr ws' \<Rightarrow> Inr (ws @ ws')))"

definition recalc_writes :: "nat \<Rightarrow> permissible_ref \<Rightarrow> perm_state \<Rightarrow> perm_error + perm_write list" where
  "recalc_writes f p s =
     (case default_writes f s (default_perms s (level (permissible_at s p))) of
        Inl x \<Rightarrow> Inl x
      | Inr ws \<Rightarrow> (case attachment_writes f s (attachments (permissible_at s p)) of
            Inl x \<Rightarrow> Inl x | Inr ws' \<Rightarrow> Inr (ws @ ws')))"

definition same_registry :: "perm_state \<Rightarrow> perm_state \<Rightarrow> bool" where
  "same_registry s t \<longleftrightarrow> perm_store t = perm_store s \<and> registered t = registered s \<and> default_perms t = default_perms s
     \<and> next_address t = next_address s"

lemma same_registry_refl: "same_registry s s"
  by (simp add: same_registry_def)

lemma same_registry_trans: "same_registry s t \<Longrightarrow> same_registry t u \<Longrightarrow> same_registry s u"
  by (simp add: same_registry_def)

lemma child_writes_registry: "same_registry s t \<Longrightarrow> child_writes f t a es i = child_writes f s a es i"
proof (induction f s a es i rule: child_writes.induct)
  case (3 f s a n b es invert)
  have g: "getPermission t k = getPermission s k" "children_of t r = children_of s r" for k r
    using 3(3) by (simp_all add: same_registry_def getPermission_def children_of_def)
  show ?case using 3 by (simp add: g split: option.splits)
qed simp_all

lemma default_writes_registry: "same_registry s t \<Longrightarrow> default_writes f t rs = default_writes f s rs"
proof (induction rs)
  case (Cons r rs)
  have "perm_store t = perm_store s" using Cons.prems by (simp add: same_registry_def)
  then show ?case using Cons.IH [OF Cons.prems] child_writes_registry [OF Cons.prems]
    by (simp split: option.split)
qed simp

lemma attachment_writes_registry: "same_registry s t \<Longrightarrow> attachment_writes f t as = attachment_writes f s as"
proof (induction "as")
  case (Cons a as')
  show ?case using Cons.IH [OF Cons.prems] child_writes_registry [OF Cons.prems] by (simp split: option.split)
qed simp

lemma grant_registry: "same_registry s (grant n a v p s)"
  by (simp add: grant_def subscribeToPermission_def put_permissible_def same_registry_def Let_def)

lemma grants_registry: "same_registry s (grants ws p s)"
proof (induction ws arbitrary: s)
  case (Cons w ws)
  obtain n a v where w: "w = (n, a, v)" by (cases w)
  have "same_registry s (grants ws p (grant n a v p s))"
    using Cons.IH [of "grant n a v p s"] grant_registry [of s n a v p] same_registry_trans by blast
  then show ?case by (simp add: grants_def w)
qed (simp add: grants_def same_registry_refl)

lemma grants_append: "grants (ws @ ws') p s = grants ws' p (grants ws p s)"
  by (simp add: grants_def)

lemma calculate_writes:
  "calculateChildPermissions f es i a p s =
     (case child_writes f s a es i of None \<Rightarrow> Inl Stack_Overflow | Some ws \<Rightarrow> Inr (grants ws p s))"
proof (induction f es i a p s rule: calculateChildPermissions.induct)
  case (3 f n b es invert a p s)
  let ?v = "b \<noteq> invert"
  define s1 where "s1 = grant (lower n) a ?v p s"
  have r1: "same_registry s s1" unfolding s1_def by (rule grant_registry)
  define sub where "sub = (case getPermission s n of None \<Rightarrow> Some []
      | Some r \<Rightarrow> child_writes f s a (children_of s r) (b = invert))"
  have first: "(case getPermission s n of None \<Rightarrow> Inr s1
        | Some r \<Rightarrow> calculateChildPermissions f (children_of s r) (\<not> ?v) a p s1)
      = (case sub of None \<Rightarrow> Inl Stack_Overflow | Some ws \<Rightarrow> Inr (grants ws p s1))"
  proof (cases "getPermission s n")
    case None
    then show ?thesis by (simp add: sub_def grants_def)
  next
    case (Some r)
    with "3.IH"(1) [OF refl s1_def Some] child_writes_registry [OF r1] show ?thesis by (simp add: sub_def)
  qed
  show ?case
  proof (cases sub)
    case None
    have "calculateChildPermissions (Suc f) ((n, b) # es) invert a p s = Inl Stack_Overflow"
      unfolding calculateChildPermissions.simps Let_def s1_def [symmetric] first None by simp
    moreover have "child_writes (Suc f) s a ((n, b) # es) invert = None"
      unfolding child_writes.simps sub_def [symmetric] None by simp
    ultimately show ?thesis by simp
  next
    case (Some ws)
    have r2: "same_registry s (grants ws p s1)" using r1 grants_registry same_registry_trans by blast
    have step: "calculateChildPermissions (Suc f) ((n, b) # es) invert a p s
        = calculateChildPermissions (Suc f) es invert a p (grants ws p s1)"
      unfolding calculateChildPermissions.simps Let_def s1_def [symmetric] first Some by simp
    have ih: "calculateChildPermissions (Suc f) es invert a p (grants ws p s1) =
        (case child_writes (Suc f) (grants ws p s1) a es invert of None \<Rightarrow> Inl Stack_Overflow
         | Some ws' \<Rightarrow> Inr (grants ws' p (grants ws p s1)))"
      by (rule "3.IH"(2) [OF refl s1_def first [unfolded Some option.case]])
    have "grants ((lower n, a, ?v) # ws @ ws') p s = grants ws' p (grants ws p s1)" for ws'
      by (simp add: grants_def s1_def)
    then show ?thesis
      unfolding step ih child_writes_registry [OF r2] child_writes.simps sub_def [symmetric] Some
      by (simp split: option.split)
  qed
qed (simp_all add: grants_def)

lemma apply_defaults_writes:
  "apply_defaults f rs p s = (case default_writes f s rs of Inl x \<Rightarrow> Inl x | Inr ws \<Rightarrow> Inr (grants ws p s))"
proof (induction rs arbitrary: s)
  case (Cons r rs)
  show ?case
  proof (cases "perm_store s r")
    case (Some q)
    let ?n = "lower (perm_name q)"
    let ?g = "grant ?n None True p s"
    have r1: "same_registry s ?g" by (rule grant_registry)
    show ?thesis
    proof (cases "child_writes f s None (children q) False")
      case None
      then show ?thesis using Some by (simp add: calculate_writes child_writes_registry [OF r1])
    next
      case ws: (Some ws)
      have r2: "same_registry s (grants ws p ?g)" using r1 grants_registry same_registry_trans by blast
      have "grants ((?n, None, True) # ws @ ws') p s = grants ws' p (grants ws p ?g)" for ws'
        by (simp add: grants_def)
      then show ?thesis
        using Some ws Cons.IH [of "grants ws p ?g"]
        by (simp add: calculate_writes child_writes_registry [OF r1] default_writes_registry [OF r2] split: sum.split)
    qed
  qed simp
qed (simp add: grants_def)

lemma apply_attachments_writes:
  "apply_attachments f as p s = (case attachment_writes f s as of Inl x \<Rightarrow> Inl x | Inr ws \<Rightarrow> Inr (grants ws p s))"
proof (induction "as" arbitrary: s)
  case (Cons a as')
  show ?case
  proof (cases "child_writes f s (Some (attachment_id a)) (att_permissions a) False")
    case None
    then show ?thesis by (simp add: calculate_writes)
  next
    case (Some ws)
    have r: "same_registry s (grants ws p s)" by (rule grants_registry)
    show ?thesis
      using Some Cons.IH [of "grants ws p s"]
      by (simp add: calculate_writes attachment_writes_registry [OF r] grants_append split: sum.split)
  qed
qed (simp add: grants_def)

subsection \<open>The subscriptions mirror the effective permissions\<close>

definition subs_inv :: "perm_state \<Rightarrow> bool" where
  "subs_inv s \<longleftrightarrow> (\<forall>p n. p \<in> set (perm_subs s n) \<longleftrightarrow> map_of (effective (permissible_at s p)) n \<noteq> None)
     \<and> (\<forall>p n. map_of (effective (permissible_at s p)) n \<noteq> None \<longrightarrow> lower n = n)"

lemma set_link_add [simp]: "set (link_add x xs) = insert x (set xs)"
  by (auto simp: link_add_def)

lemma grant_effective:
  "map_of (effective (permissible_at (grant n a v p s) p)) = (map_of (effective (permissible_at s p)))(n \<mapsto> (a, v))"
  "q \<noteq> p \<Longrightarrow> permissible_at (grant n a v p s) q = permissible_at s q"
  "level (permissible_at (grant n a v p s) q) = level (permissible_at s q)"
  "attachments (permissible_at (grant n a v p s) q) = attachments (permissible_at s q)"
  "set (perm_subs (grant n a v p s) k) = (if k = lower n then insert p (set (perm_subs s k)) else set (perm_subs s k))"
  "def_subs (grant n a v p s) = def_subs s"
  by (simp_all add: grant_def subscribeToPermission_def put_permissible_def Let_def update_conv')

lemma grant_inv: "subs_inv s \<Longrightarrow> lower n = n \<Longrightarrow> subs_inv (grant n a v p s)"
  unfolding subs_inv_def grant_effective(5)
  by (metis (no_types, lifting) grant_effective(1,2) fun_upd_apply insert_iff option.distinct(1))

definition lower_writes :: "perm_write list \<Rightarrow> bool" where
  "lower_writes ws \<longleftrightarrow> (\<forall>(n, a, v) \<in> set ws. lower n = n)"

lemma grants_spec:
  "subs_inv s \<Longrightarrow> lower_writes ws \<Longrightarrow> subs_inv (grants ws p s)
    \<and> map_of (effective (permissible_at (grants ws p s) p)) n
        = (case map_of (rev ws) n of Some e \<Rightarrow> Some e | None \<Rightarrow> map_of (effective (permissible_at s p)) n)
    \<and> (\<forall>q. q \<noteq> p \<longrightarrow> permissible_at (grants ws p s) q = permissible_at s q)
    \<and> level (permissible_at (grants ws p s) p) = level (permissible_at s p)
    \<and> attachments (permissible_at (grants ws p s) p) = attachments (permissible_at s p)
    \<and> def_subs (grants ws p s) = def_subs s"
proof (induction ws arbitrary: s)
  case (Cons w ws)
  obtain k a v where w: "w = (k, a, v)" by (cases w)
  let ?g = "grant k a v p s"
  have l: "lower k = k" "lower_writes ws" using Cons.prems(2) by (auto simp: w lower_writes_def)
  have g: "grants (w # ws) p s = grants ws p ?g" by (simp add: grants_def w)
  have m: "map_of (rev (w # ws)) n = (case map_of (rev ws) n of Some e \<Rightarrow> Some e | None \<Rightarrow> if n = k then Some (a, v) else None)"
    by (simp add: w map_add_def split: option.split)
  show ?case
    unfolding g m using Cons.IH [OF grant_inv [OF Cons.prems(1) l(1)] l(2), of a v p]
    by (auto simp: grant_effective split: option.split)
qed (simp add: grants_def)


lemma child_writes_lower: "child_writes f s a es i = Some ws \<Longrightarrow> lower_writes ws"
proof (induction f s a es i arbitrary: ws rule: child_writes.induct)
  case (3 f s a n b es invert)
  obtain us where us: "(case getPermission s n of None \<Rightarrow> Some []
      | Some r \<Rightarrow> child_writes f s a (children_of s r) (b = invert)) = Some us"
    using "3.prems" by (auto split: option.splits)
  obtain vs where vs: "child_writes (Suc f) s a es invert = Some vs" and ws: "ws = (lower n, a, b \<noteq> invert) # us @ vs"
    using "3.prems" unfolding child_writes.simps us by (auto split: option.splits)
  have "lower_writes us"
    using us "3.IH"(1) by (cases "getPermission s n") (auto simp: lower_writes_def)
  moreover have "lower_writes vs" using "3.IH"(2) [OF us vs] .
  ultimately show ?case unfolding ws by (auto simp: lower_writes_def)
qed (simp_all add: lower_writes_def)

lemma default_writes_lower: "default_writes f s rs = Inr ws \<Longrightarrow> lower_writes ws"
proof (induction rs arbitrary: ws)
  case (Cons r rs)
  obtain q us vs where q: "perm_store s r = Some q" "child_writes f s None (children q) False = Some us"
    "default_writes f s rs = Inr vs" "ws = (lower (perm_name q), None, True) # us @ vs"
    using Cons.prems by (auto split: option.splits sum.splits)
  have "lower_writes us" "lower_writes vs" using child_writes_lower [OF q(2)] Cons.IH [OF q(3)] by simp_all
  then show ?case unfolding q(4) by (auto simp: lower_writes_def)
qed (simp add: lower_writes_def)

lemma attachment_writes_lower: "attachment_writes f s as = Inr ws \<Longrightarrow> lower_writes ws"
proof (induction "as" arbitrary: ws)
  case (Cons a as')
  obtain us vs where q: "child_writes f s (Some (attachment_id a)) (att_permissions a) False = Some us"
    "attachment_writes f s as' = Inr vs" "ws = us @ vs"
    using Cons.prems by (auto split: option.splits sum.splits)
  have "lower_writes us" "lower_writes vs" using child_writes_lower [OF q(1)] Cons.IH [OF q(2)] by simp_all
  then show ?case unfolding q(3) by (auto simp: lower_writes_def)
qed (simp add: lower_writes_def)

lemma recalc_writes_lower: "recalc_writes f p s = Inr ws \<Longrightarrow> lower_writes ws"
proof -
  assume "recalc_writes f p s = Inr ws"
  then obtain us vs where "default_writes f s (default_perms s (level (permissible_at s p))) = Inr us"
    "attachment_writes f s (attachments (permissible_at s p)) = Inr vs" "ws = us @ vs"
    by (auto simp: recalc_writes_def split: sum.splits)
  then show ?thesis using default_writes_lower attachment_writes_lower by (fastforce simp: lower_writes_def)
qed

lemma unsubscribe_fold:
  "perm_subs (fold (\<lambda>e. unsubscribeFromPermission (fst e) p) es s) n =
     (if n \<in> set (map (\<lambda>e. lower (fst e)) es) then removeAll p (perm_subs s n) else perm_subs s n)"
  "permissible_at (fold (\<lambda>e. unsubscribeFromPermission (fst e) p) es s) = permissible_at s"
  "def_subs (fold (\<lambda>e. unsubscribeFromPermission (fst e) p) es s) = def_subs s"
  "same_registry s (fold (\<lambda>e. unsubscribeFromPermission (fst e) p) es s)"
  by (induction es arbitrary: s) (auto simp: unsubscribeFromPermission_def same_registry_def)

lemma clear_fields:
  "permissible_at (clearPermissions p s) = (permissible_at s)(p := (permissible_at s p)\<lparr>effective := []\<rparr>)"
  "def_subs (clearPermissions p s) l = removeAll p (def_subs s l)"
  "perm_subs (clearPermissions p s) n =
     (if n \<in> set (map (\<lambda>e. lower (fst e)) (effective (permissible_at s p))) then removeAll p (perm_subs s n) else perm_subs s n)"
  "same_registry s (clearPermissions p s)"
proof -
  let ?u = "fold (\<lambda>e. unsubscribeFromPermission (fst e) p) (effective (permissible_at s p)) s"
  note u = unsubscribe_fold [where p = p and es = "effective (permissible_at s p)" and s = s]
  show "permissible_at (clearPermissions p s) = (permissible_at s)(p := (permissible_at s p)\<lparr>effective := []\<rparr>)"
    by (simp add: clearPermissions_def Let_def put_permissible_def unsubscribeFromDefaultPerms_def u)
  show "def_subs (clearPermissions p s) l = removeAll p (def_subs s l)"
    by (cases l) (simp_all add: clearPermissions_def Let_def put_permissible_def unsubscribeFromDefaultPerms_def u)
  show "perm_subs (clearPermissions p s) n =
     (if n \<in> set (map (\<lambda>e. lower (fst e)) (effective (permissible_at s p))) then removeAll p (perm_subs s n) else perm_subs s n)"
    by (simp add: clearPermissions_def Let_def put_permissible_def unsubscribeFromDefaultPerms_def u del: set_map)
  show "same_registry s (clearPermissions p s)"
    using u(4) by (simp add: clearPermissions_def Let_def put_permissible_def unsubscribeFromDefaultPerms_def same_registry_def)
qed

lemma clear_inv:
  assumes "subs_inv s"
  shows "subs_inv (clearPermissions p s)"
proof -
  have k: "n \<in> set (map (\<lambda>e. lower (fst e)) (effective (permissible_at s p))) \<longleftrightarrow> p \<in> set (perm_subs s n)" for n
  proof -
    have l: "lower k = k" if "k \<in> fst ` set (effective (permissible_at s p))" for k
      using assms that unfolding subs_inv_def map_of_eq_None_iff by blast
    have "n \<in> set (map (\<lambda>e. lower (fst e)) (effective (permissible_at s p)))
        \<longleftrightarrow> n \<in> fst ` set (effective (permissible_at s p))"
      using l by (force simp: image_iff)
    also have "\<dots> \<longleftrightarrow> p \<in> set (perm_subs s n)" using assms by (simp add: subs_inv_def map_of_eq_None_iff)
    finally show ?thesis .
  qed
  have s: "set (perm_subs (clearPermissions p s) n) = set (perm_subs s n) - {p}" for n
    unfolding clear_fields(3) k by auto
  have e: "map_of (effective (permissible_at (clearPermissions p s) q)) n
      = (if q = p then None else map_of (effective (permissible_at s q)) n)" for q n
    by (simp add: clear_fields(1))
  show ?thesis using assms unfolding subs_inv_def s e by auto
qed

text \<open>What a recalculation does, in terms of its writes.\<close>

lemma recalculate_spec:
  assumes "subs_inv s"
  shows "(case recalc_writes f p s of
      Inl x \<Rightarrow> recalculatePermissions f p s = Inl x
    | Inr ws \<Rightarrow> \<exists>s'. recalculatePermissions f p s = Inr s' \<and> subs_inv s' \<and> same_registry s s'
        \<and> (\<forall>n. map_of (effective (permissible_at s' p)) n = map_of (rev ws) n)
        \<and> (\<forall>q. q \<noteq> p \<longrightarrow> permissible_at s' q = permissible_at s q)
        \<and> level (permissible_at s' p) = level (permissible_at s p)
        \<and> attachments (permissible_at s' p) = attachments (permissible_at s p)
        \<and> (\<forall>l. p \<in> set (def_subs s' l) \<longleftrightarrow> l = level (permissible_at s p)))"
proof -
  let ?l = "level (permissible_at s p)"
  define s2 where "s2 = subscribeToDefaultPerms ?l p (clearPermissions p s)"
  have p2: "permissible_at s2 = permissible_at (clearPermissions p s)" "perm_subs s2 = perm_subs (clearPermissions p s)"
    "p \<in> set (def_subs s2 l) \<longleftrightarrow> l = ?l" for l
    by (simp_all add: s2_def subscribeToDefaultPerms_def clear_fields(2))
  have i2: "subs_inv s2" using clear_inv [OF assms, of p] by (simp add: subs_inv_def p2)
  have r2: "same_registry s s2"
    using clear_fields(4) [of s p] by (simp add: s2_def subscribeToDefaultPerms_def same_registry_def)
  have dp: "default_perms (clearPermissions p s) = default_perms s" using clear_fields(4) [of s p] by (simp add: same_registry_def)
  have att: "attachment_writes f (grants us p s2) as = attachment_writes f s as" for us as
    using attachment_writes_registry same_registry_trans [OF r2 grants_registry] by blast
  have run: "recalculatePermissions f p s = (case recalc_writes f p s of Inl x \<Rightarrow> Inl x | Inr ws \<Rightarrow> Inr (grants ws p s2))"
    unfolding recalculatePermissions_def recalc_writes_def Let_def getDefaultPermissions_def dp s2_def [symmetric]
      apply_defaults_writes default_writes_registry [OF r2]
    by (simp add: apply_attachments_writes att grants_append split: sum.split)
  show ?thesis
  proof (cases "recalc_writes f p s")
    case (Inl x)
    then show ?thesis using run by simp
  next
    case (Inr ws)
    note g = grants_spec [OF i2 recalc_writes_lower [OF Inr], of p]
    have "same_registry s (grants ws p s2)" using r2 grants_registry same_registry_trans by blast
    moreover have "map_of (effective (permissible_at (grants ws p s2) p)) n = map_of (rev ws) n" for n
      using g [of n] by (simp add: p2 clear_fields(1) split: option.split)
    ultimately show ?thesis using g run Inr p2 by (simp add: clear_fields(1))
  qed
qed

subsection \<open>A permission is not among its own descendants when a calculation ends\<close>

fun child_names :: "nat \<Rightarrow> perm_state \<Rightarrow> (string \<times> bool) list \<Rightarrow> string list option" where
  "child_names f s [] = Some []"
| "child_names 0 s (e # es) = None"
| "child_names (Suc f) s ((n, b) # es) =
     (case (case getPermission s n of None \<Rightarrow> Some [] | Some r \<Rightarrow> child_names f s (children_of s r)) of
        None \<Rightarrow> None
      | Some ns \<Rightarrow> (case child_names (Suc f) s es of
            None \<Rightarrow> None
          | Some ns' \<Rightarrow> Some (lower n # ns @ ns')))"

lemma child_writes_names: "map_option (map fst) (child_writes f s a es i) = child_names f s es"
proof (induction f s a es i rule: child_writes.induct)
  case (3 f s a n b es invert)
  show ?case
  proof (cases "getPermission s n")
    case None
    then have "child_names (Suc f) s es = map_option (map fst) (child_writes (Suc f) s a es invert)"
      using 3(2) by simp
    then show ?thesis using None by (simp split: option.split)
  next
    case (Some r)
    have "child_names f s (children_of s r) = map_option (map fst) (child_writes f s a (children_of s r) (b = invert))"
      using 3(1) [OF Some] by simp
    moreover have "child_names (Suc f) s es = map_option (map fst) (child_writes (Suc f) s a es invert)"
      if "child_writes f s a (children_of s r) (b = invert) = Some us" for us
      using 3(2) [of us] Some that by simp
    ultimately show ?thesis using Some by (simp split: option.split)
  qed
qed simp_all

lemma child_names_Suc: "child_names f s es = Some ns \<Longrightarrow> child_names (Suc f) s es = Some ns"
proof (induction f s es arbitrary: ns rule: child_names.induct)
  case (3 f s n b es)
  obtain us where us: "(case getPermission s n of None \<Rightarrow> Some [] | Some r \<Rightarrow> child_names f s (children_of s r)) = Some us"
    using "3.prems" by (auto split: option.splits)
  obtain vs where vs: "child_names (Suc f) s es = Some vs" and ns: "ns = lower n # us @ vs"
    using "3.prems" unfolding child_names.simps us by (auto split: option.splits)
  have "(case getPermission s n of None \<Rightarrow> Some [] | Some r \<Rightarrow> child_names (Suc f) s (children_of s r)) = Some us"
    using us "3.IH"(1) by (cases "getPermission s n") auto
  moreover have "child_names (Suc (Suc f)) s es = Some vs" by (rule "3.IH"(2) [OF us vs])
  ultimately show ?case unfolding child_names.simps(3) [of "Suc f"] ns by simp
qed simp_all

lemma child_names_mono: "child_names f s es = Some ns \<Longrightarrow> f \<le> g \<Longrightarrow> child_names g s es = Some ns"
  by (induction g) (auto simp: le_Suc_eq child_names_Suc)

lemma getPermission_lower [simp]: "getPermission s (lower n) = getPermission s n"
  by (simp add: getPermission_def)

lemma child_names_descend:
  "child_names f s es = Some ns \<Longrightarrow> k \<in> set ns \<Longrightarrow> getPermission s k = Some r \<Longrightarrow>
    \<exists>g < f. child_names g s (children_of s r) \<noteq> None"
proof (induction f s es arbitrary: ns rule: child_names.induct)
  case (3 f s n b es)
  obtain us where us: "(case getPermission s n of None \<Rightarrow> Some [] | Some r \<Rightarrow> child_names f s (children_of s r)) = Some us"
    using "3.prems"(1) by (auto split: option.splits)
  obtain vs where vs: "child_names (Suc f) s es = Some vs" and ns: "ns = lower n # us @ vs"
    using "3.prems"(1) unfolding child_names.simps us by (auto split: option.splits)
  consider "k = lower n" | "k \<in> set us" | "k \<in> set vs" using "3.prems"(2) ns by auto
  then show ?case
  proof cases
    case 1
    then have "child_names f s (children_of s r) = Some us" using us "3.prems"(3) by simp
    then show ?thesis by (intro exI [of _ f]) simp
  next
    case 2
    then obtain q where q: "getPermission s n = Some q" "child_names f s (children_of s q) = Some us"
      using us by (cases "getPermission s n") auto
    from "3.IH"(1) [OF q(1,2) 2 "3.prems"(3)] show ?thesis using less_SucI by blast
  next
    case c3: 3
    from "3.IH"(2) [OF us vs c3 "3.prems"(3)] show ?thesis .
  qed
qed simp_all

lemma not_own_descendant:
  assumes "getPermission s n = Some r" "child_names f s (children_of s r) = Some ns"
  shows "lower n \<notin> set ns"
proof
  assume "lower n \<in> set ns"
  let ?P = "\<lambda>g. child_names g s (children_of s r) \<noteq> None"
  have P: "?P f" using assms(2) by simp
  define g where "g = (LEAST g. ?P g)"
  have "?P g" unfolding g_def by (rule LeastI [of ?P, OF P])
  then obtain ms where ms: "child_names g s (children_of s r) = Some ms" by blast
  have "g \<le> f" unfolding g_def by (rule Least_le [of ?P, OF P])
  with child_names_mono [OF ms this] assms(2) have "ms = ns" by simp
  with \<open>lower n \<in> set ns\<close> child_names_descend [OF ms, of "lower n" r] assms(1)
  obtain h where "h < g" "?P h" by auto
  then show False using not_less_Least [of h ?P] unfolding g_def by blast
qed

subsection \<open>What plugins can do\<close>

datatype perm_op =
    Add_Permission permission
  | Remove_Permission string
  | Set_Default permission_ref permission_default
  | Add_Parent permission_ref permission_ref bool
  | Add_Attachment permissible_ref bool nat string bool
  | Set_Permission permissible_ref attachment_ref string bool
  | Unset_Permission permissible_ref attachment_ref string
  | Remove_Attachment permissible_ref attachment_ref
  | Set_Level permissible_ref permission_level

text \<open>\<open>Set_Level\<close> is the change of the permission level of a sender, which is followed by a recalculation.\<close>

definition discard :: "perm_error + ('a \<times> perm_state) \<Rightarrow> perm_error + perm_state" where
  "discard x = (case x of Inl e \<Rightarrow> Inl e | Inr (a, s) \<Rightarrow> Inr s)"

fun perm_step :: "nat \<Rightarrow> perm_op \<Rightarrow> perm_state \<Rightarrow> perm_error + perm_state" where
  "perm_step f (Add_Permission q) s = discard (addPermission f q s)"
| "perm_step f (Remove_Permission n) s = Inr (removePermission n s)"
| "perm_step f (Set_Default r d) s = setDefault f r d s"
| "perm_step f (Add_Parent r p v) s = addParent f r p v s"
| "perm_step f (Add_Attachment p en pl n v) s = discard (addAttachment f en pl n v p s)"
| "perm_step f (Set_Permission p a n v) s = setPermission f p a n v s"
| "perm_step f (Unset_Permission p a n) s = unsetPermission f p a n s"
| "perm_step f (Remove_Attachment p a) s = discard (removeAttachment f p a s)"
| "perm_step f (Set_Level p l) s =
     recalculatePermissions f p (put_permissible p ((permissible_at s p)\<lparr>level := l\<rparr>) s)"

fun perm_run :: "nat \<Rightarrow> perm_op list \<Rightarrow> perm_state \<Rightarrow> perm_error + perm_state" where
  "perm_run f [] s = Inr s"
| "perm_run f (c # cs) s = (case perm_step f c s of Inl x \<Rightarrow> Inl x | Inr s1 \<Rightarrow> perm_run f cs s1)"

lemma recalculate_inv: "subs_inv s \<Longrightarrow> recalculatePermissions f p s = Inr s' \<Longrightarrow> subs_inv s'"
  using recalculate_spec [of s f p] by (auto split: sum.splits)

lemma recalculate_all_inv: "subs_inv s \<Longrightarrow> recalculate_all f ps s = Inr s' \<Longrightarrow> subs_inv s'"
  by (induction ps arbitrary: s) (auto split: sum.splits dest: recalculate_inv)

lemma dirty_all_inv: "subs_inv s \<Longrightarrow> dirty_all f ls s = Inr s' \<Longrightarrow> subs_inv s'"
  by (induction ls arbitrary: s) (auto simp: dirtyPermissibles_def split: sum.splits dest: recalculate_all_inv)

lemma emplace_fields [simp]:
  "permissible_at (fold (\<lambda>l. emplace_default l r) ls s) = permissible_at s"
  "perm_subs (fold (\<lambda>l. emplace_default l r) ls s) = perm_subs s"
  "perm_store (fold (\<lambda>l. emplace_default l r) ls s) = perm_store s"
  by (induction ls arbitrary: s) (simp_all add: emplace_default_def)

lemma subs_inv_cong: "permissible_at t = permissible_at s \<Longrightarrow> perm_subs t = perm_subs s \<Longrightarrow> subs_inv s \<Longrightarrow> subs_inv t"
  by (simp add: subs_inv_def)

lemma calculateDefault_inv: "subs_inv s \<Longrightarrow> calculatePermissionDefault f r s = Inr s' \<Longrightarrow> subs_inv s'"
proof -
  assume s: "subs_inv s" "calculatePermissionDefault f r s = Inr s'"
  obtain q where "perm_store s r = Some q"
    using s(2) by (cases "perm_store s r") (auto simp: calculatePermissionDefault_def)
  then have "dirty_all f (default_levels (perm_default q))
      (fold (\<lambda>l. emplace_default l r) (default_levels (perm_default q)) s) = Inr s'"
    using s(2) by (simp add: calculatePermissionDefault_def Let_def)
  moreover have "subs_inv (fold (\<lambda>l. emplace_default l r) ls s)" for ls
    using s(1) by (rule subs_inv_cong [rotated 2]) simp_all
  ultimately show "subs_inv s'" using dirty_all_inv by blast
qed

lemma put_same_effective:
  "subs_inv s \<Longrightarrow> effective h = effective (permissible_at s p) \<Longrightarrow> subs_inv (put_permissible p h s)"
  by (auto simp: subs_inv_def put_permissible_def)

lemma recalculatePermissibles_inv:
  assumes "subs_inv s" "recalculatePermissibles f r s = Inr s'"
  shows "subs_inv s'"
proof -
  obtain q where q: "perm_store s r = Some q"
    using assms(2) by (cases "perm_store s r") (auto simp: recalculatePermissibles_def)
  then obtain s1 where s1: "recalculatePermissionDefaults f r s = Inr s1"
    "recalculate_all f (getPermissionSubscriptions (perm_name q) s) s1 = Inr s'"
    using assms(2) by (auto simp: recalculatePermissibles_def Let_def split: sum.splits)
  have "subs_inv (s\<lparr>default_perms := d\<rparr>)" for d using assms(1) by (auto intro: subs_inv_cong [of _ s])
  then have "subs_inv s1"
    using s1(1) assms(1) by (auto simp: recalculatePermissionDefaults_def split: option.splits if_splits dest: calculateDefault_inv)
  with s1(2) show ?thesis by (auto dest: recalculate_all_inv)
qed

lemma update_permission_inv: "subs_inv s \<Longrightarrow> subs_inv (update_permission r g s)"
  by (auto simp: update_permission_def intro: subs_inv_cong [of _ s])

lemma update_attachment_inv: "subs_inv s \<Longrightarrow> subs_inv (update_attachment p a g s)"
  by (simp add: update_attachment_def put_same_effective)

lemma next_address_inv [simp]: "subs_inv (s\<lparr>next_address := n\<rparr>) = subs_inv s"
  by (simp add: subs_inv_def)

lemma addAttachment_plugin_inv:
  assumes "subs_inv s" "addAttachment_plugin f en pl p s = Inr (a, s')"
  shows "subs_inv s'"
proof (cases en)
  case True
  then show ?thesis
    using assms put_same_effective [OF assms(1)]
    by (auto simp: addAttachment_plugin_def Let_def split: sum.splits dest!: recalculate_inv [rotated])
next
  case False
  with assms show ?thesis by (simp add: addAttachment_plugin_def)
qed

lemma setPermission_inv: "subs_inv s \<Longrightarrow> setPermission f p a n v s = Inr s' \<Longrightarrow> subs_inv s'"
  by (simp add: setPermission_def) (metis recalculate_inv update_attachment_inv)

lemma addAttachment_inv:
  assumes "subs_inv s" "addAttachment f en pl n v p s = Inr (a, s')"
  shows "subs_inv s'"
  using assms
  by (auto simp: addAttachment_def split: if_splits sum.splits option.splits
      dest!: recalculate_inv [rotated] setPermission_inv [rotated] addAttachment_plugin_inv [rotated])

lemma addPermission_inv:
  assumes "subs_inv s" "addPermission f q s = Inr (r, s')"
  shows "subs_inv s'"
proof -
  let ?s1 = "s\<lparr>perm_store := (perm_store s)(next_address s := Some q), next_address := Suc (next_address s),
    registered := AList.update (lower (perm_name q)) (next_address s) (registered s)\<rparr>"
  have "calculatePermissionDefault f (next_address s) ?s1 = Inr s'"
    using assms(2) by (auto simp: addPermission_def Let_def split: if_splits sum.splits)
  moreover have "subs_inv ?s1" using assms(1) by (rule subs_inv_cong [rotated 2]) simp_all
  ultimately show ?thesis using calculateDefault_inv by blast
qed

lemma removePermission_inv: "subs_inv s \<Longrightarrow> subs_inv (removePermission n s)"
  by (auto simp: removePermission_def intro: subs_inv_cong [of _ s] split: option.split)

lemma removeAttachment_inv: "subs_inv s \<Longrightarrow> removeAttachment f p a s = Inr (b, s') \<Longrightarrow> subs_inv s'"
  using put_same_effective [of s _ p]
  by (auto simp: removeAttachment_def Let_def split: if_splits sum.splits dest!: recalculate_inv [rotated])

lemma perm_step_inv: "subs_inv s \<Longrightarrow> perm_step f c s = Inr s' \<Longrightarrow> subs_inv s'"
proof (cases c)
  case (Set_Level p l)
  assume "subs_inv s" "perm_step f c s = Inr s'"
  with Set_Level recalculate_inv [of "put_permissible p ((permissible_at s p)\<lparr>level := l\<rparr>) s"]
  show ?thesis by (simp add: put_same_effective)
next
  case (Add_Parent r p v)
  assume "subs_inv s" "perm_step f c s = Inr s'"
  with Add_Parent update_permission_inv show ?thesis
    by (auto simp: addParent_def set_child_def split: option.splits dest!: recalculatePermissibles_inv [rotated])
next
  case (Unset_Permission p a n)
  assume "subs_inv s" "perm_step f c s = Inr s'"
  with Unset_Permission show ?thesis by (auto simp: unsetPermission_def dest: recalculate_inv [OF update_attachment_inv])
qed (auto simp: discard_def setDefault_def addPermission_inv removePermission_inv split: sum.splits
    dest: addPermission_inv addAttachment_inv setPermission_inv removeAttachment_inv
      recalculatePermissibles_inv [OF update_permission_inv])

lemma perm_run_inv: "subs_inv s \<Longrightarrow> perm_run f cs s = Inr s' \<Longrightarrow> subs_inv s'"
  by (induction cs arbitrary: s) (auto split: sum.splits dest: perm_step_inv)

lemma empty_state_inv: "subs_inv (empty_state lv)"
  by (simp add: subs_inv_def empty_state_def)

subsection \<open>Core permissions\<close>

definition registerPermission :: "nat \<Rightarrow> permission \<Rightarrow> perm_state \<Rightarrow> perm_error + (permission_ref \<times> perm_state)" where
  "registerPermission f q s =
     (case getPermission s (perm_name q) of Some r \<Rightarrow> Inr (r, s) | None \<Rightarrow> addPermission f q s)"

text \<open>The overloads without and with a parent; the default of the former is \<open>False\<close>.\<close>

definition registerPermission_root :: "nat \<Rightarrow> string \<Rightarrow> perm_state \<Rightarrow> perm_error + (permission_ref \<times> perm_state)" where
  "registerPermission_root f n s = registerPermission f \<lparr>perm_name = n, perm_default = Default_False, children = []\<rparr> s"

definition registerPermission_child ::
  "nat \<Rightarrow> string \<Rightarrow> permission_default \<Rightarrow> permission_ref \<Rightarrow> perm_state \<Rightarrow> perm_error + (permission_ref \<times> perm_state)"
where
  "registerPermission_child f n d parent s =
     (case registerPermission f \<lparr>perm_name = n, perm_default = d, children = []\<rparr> s of
        Inl x \<Rightarrow> Inl x
      | Inr (r, s1) \<Rightarrow> (case perm_store s1 r of
            None \<Rightarrow> Inl Dangling
          | Some q \<Rightarrow> Inr (r, set_child parent (perm_name q) True s1)))"

definition BroadcastPermissions_registerPermissions ::
  "nat \<Rightarrow> permission_ref \<Rightarrow> perm_state \<Rightarrow> perm_error + (permission_ref \<times> perm_state)" where
  "BroadcastPermissions_registerPermissions f parent s =
     (case registerPermission_root f ''endstone.broadcast'' s of
        Inl x \<Rightarrow> Inl x
      | Inr (broadcasts, s1) \<Rightarrow>
      (case registerPermission_child f ''endstone.broadcast.admin'' Default_Operator parent s1 of
        Inl x \<Rightarrow> Inl x
      | Inr (_, s2) \<Rightarrow>
      (case registerPermission_child f ''endstone.broadcast.user'' Default_True parent s2 of
        Inl x \<Rightarrow> Inl x
      | Inr (_, s3) \<Rightarrow>
      (case recalculatePermissibles f broadcasts s3 of
        Inl x \<Rightarrow> Inl x
      | Inr s4 \<Rightarrow> Inr (broadcasts, s4)))))"

subsection \<open>The last attachment decides\<close>

lemma recalculate_Inr:
  assumes "subs_inv s" "recalculatePermissions f p s = Inr s'"
  obtains ws where "recalc_writes f p s = Inr ws" "subs_inv s'"
    "\<forall>n. map_of (effective (permissible_at s' p)) n = map_of (rev ws) n"
    "\<forall>q. q \<noteq> p \<longrightarrow> permissible_at s' q = permissible_at s q"
    "level (permissible_at s' p) = level (permissible_at s p)"
    "attachments (permissible_at s' p) = attachments (permissible_at s p)"
  using recalculate_spec [OF assms(1), of f p] assms(2) by (auto split: sum.splits)

lemma attachment_writes_snoc:
  "attachment_writes f s (as @ [b]) = Inr ws \<Longrightarrow>
    \<exists>us vs. child_writes f s (Some (attachment_id b)) (att_permissions b) False = Some vs \<and> ws = us @ vs"
proof (induction "as" arbitrary: ws)
  case Nil
  then show ?case by (auto split: option.splits)
next
  case (Cons a as')
  then obtain us ws' where w: "attachment_writes f s (as' @ [b]) = Inr ws'" "ws = us @ ws'"
    by (auto split: option.splits sum.splits)
  from Cons.IH [OF w(1)] obtain us' vs where
    "child_writes f s (Some (attachment_id b)) (att_permissions b) False = Some vs" "ws' = us' @ vs" by blast
  with w(2) show ?case by (intro exI [of _ "us @ us'"] exI [of _ vs]) simp
qed

lemma single_writes:
  assumes "child_writes f s at [(lower n, v)] False = Some vs"
  obtains us where "vs = (lower n, at, v) # us" "lower n \<notin> fst ` set us"
proof -
  obtain g where f: "f = Suc g" using assms by (cases f) auto
  show ?thesis
  proof (cases "getPermission s n")
    case None
    then have "vs = [(lower n, at, v)]" using assms f by simp
    then show ?thesis using that by simp
  next
    case (Some r)
    then obtain us where us: "child_writes g s at (children_of s r) (v = False) = Some us" "vs = (lower n, at, v) # us"
      using assms f by (auto split: option.splits)
    have "child_names g s (children_of s r) = Some (map fst us)"
      using child_writes_names [of g s at "children_of s r" "v = False"] us(1) by simp
    from not_own_descendant [OF Some this] us(2) that show ?thesis by simp
  qed
qed

lemma last_attachment_decides:
  assumes "subs_inv s" "recalculatePermissions f p s = Inr s'"
    and "attachments (permissible_at s p) = as @ [b]" "att_permissions b = [(lower n, v)]"
  shows "map_of (effective (permissible_at s' p)) (lower n) = Some (Some (attachment_id b), v)"
proof -
  obtain ws where ws: "recalc_writes f p s = Inr ws"
    "\<forall>k. map_of (effective (permissible_at s' p)) k = map_of (rev ws) k"
    using recalculate_Inr [OF assms(1,2)] by metis
  obtain ds aws where "attachment_writes f s (as @ [b]) = Inr aws" "ws = ds @ aws"
    using ws(1) unfolding recalc_writes_def assms(3) by (auto split: sum.splits)
  then obtain us vs where v: "child_writes f s (Some (attachment_id b)) (att_permissions b) False = Some vs" "ws = us @ vs"
    using attachment_writes_snoc [of f s "as" b aws] by auto
  obtain xs where "vs = (lower n, Some (attachment_id b), v) # xs" "lower n \<notin> fst ` set xs"
    using single_writes [OF v(1) [unfolded assms(4)]] .
  then have "map_of (rev ws) (lower n) = Some (Some (attachment_id b), v)"
    using v(2) map_of_eq_None_iff [of "rev xs" "lower n"] by (simp add: map_add_def split: option.split)
  with ws(2) show ?thesis by simp
qed

subsection \<open>Properties\<close>

text \<open>C11: In every state reached from the empty one by registering and removing permissions, changing
  defaults, parents, levels and attachments, the permissibles subscribed to a permission are exactly
  those that have it among their effective permissions, under its lower-case name; so a destroyed permissible, whose
  effective permissions are cleared, is in no subscription list.\<close>

theorem subscriptions_mirror:
  assumes "perm_run f ops (empty_state lv) = Inr s"
  shows "(p \<in> set (getPermissionSubscriptions n s) \<longleftrightarrow> isPermissionSet s p n)
    \<and> p \<notin> set (getPermissionSubscriptions n (clearPermissions p s))
    \<and> p \<notin> set (getDefaultPermSubscriptions l (clearPermissions p s))"
proof -
  have inv: "subs_inv s" by (rule perm_run_inv [OF empty_state_inv assms])
  have "map_of (effective (permissible_at (clearPermissions p s) p)) k = None" for k
    by (simp add: clear_fields(1))
  then have "p \<notin> set (perm_subs (clearPermissions p s) (lower n))"
    using clear_inv [OF inv, of p] by (simp add: subs_inv_def)
  then show ?thesis
    using inv by (simp add: subs_inv_def getPermissionSubscriptions_def isPermissionSet_def
        getDefaultPermSubscriptions_def clear_fields(2))
qed

text \<open>C10: A successful \<open>addAttachment(plugin, name, value)\<close> decides \<open>hasPermission(name)\<close>: whatever the
  defaults, the other attachments and the permission's own descendants say, and in whatever case the
  name is written, the answer is the value; the permission levels and the other permissibles keep
  their state.\<close>

theorem addAttachment_wins:
  assumes "perm_run f ops (empty_state lv) = Inr s" "addAttachment f True plugin n v p s = Inr (Some a, s')"
  shows "hasPermission s' p n = v \<and> hasPermission s' p (lower n) = v
    \<and> (\<forall>q. q \<noteq> p \<longrightarrow> permissible_at s' q = permissible_at s q) \<and> level (permissible_at s' p) = level (permissible_at s p)"
proof -
  note inv = perm_run_inv [OF empty_state_inv assms(1)]
  let ?h = "permissible_at s p"
  define s0 where "s0 = (put_permissible p (?h\<lparr>attachments := attachments ?h
      @ [\<lparr>attachment_id = next_address s, att_plugin = plugin, att_permissions = []\<rparr>]\<rparr>) s)\<lparr>next_address := Suc (next_address s)\<rparr>"
  have i0: "subs_inv s0" using put_same_effective [OF inv] by (simp add: s0_def)
  have p0: "permissible_at s0 q = (if q = p then ?h\<lparr>attachments := attachments ?h
      @ [\<lparr>attachment_id = next_address s, att_plugin = plugin, att_permissions = []\<rparr>]\<rparr> else permissible_at s q)" for q
    by (simp add: s0_def put_permissible_def)
  obtain s1 s2 where run: "a = next_address s" "recalculatePermissions f p s0 = Inr s1"
    "setPermission f p a n v s1 = Inr s2" "recalculatePermissions f p s2 = Inr s'"
    using assms(2) unfolding addAttachment_def addAttachment_plugin_def Let_def s0_def [symmetric]
    by (auto split: if_splits sum.splits option.splits)
  obtain ws1 where 1: "subs_inv s1" "\<forall>q. q \<noteq> p \<longrightarrow> permissible_at s1 q = permissible_at s0 q"
    "level (permissible_at s1 p) = level ?h"
    "attachments (permissible_at s1 p) = attachments ?h @ [\<lparr>attachment_id = a, att_plugin = plugin, att_permissions = []\<rparr>]"
    using recalculate_Inr [OF i0 run(2)] run(1) p0 by auto
  define t where "t = update_attachment p a (AList.update (lower n) v) s1"
  have it: "subs_inv t" using update_attachment_inv [OF 1(1)] by (simp add: t_def)
  obtain old where t: "attachments (permissible_at t p)
      = old @ [\<lparr>attachment_id = a, att_plugin = plugin, att_permissions = [(lower n, v)]\<rparr>]"
    "\<forall>q. q \<noteq> p \<longrightarrow> permissible_at t q = permissible_at s1 q" "level (permissible_at t p) = level ?h"
    using 1(3,4) by (simp add: t_def update_attachment_def put_permissible_def)
  have rt: "recalculatePermissions f p t = Inr s2" using run(3) by (simp add: setPermission_def t_def)
  obtain ws2 where 2: "subs_inv s2" "\<forall>q. q \<noteq> p \<longrightarrow> permissible_at s2 q = permissible_at t q"
    "level (permissible_at s2 p) = level ?h" "attachments (permissible_at s2 p) = attachments (permissible_at t p)"
    using recalculate_Inr [OF it rt] t(3) by metis
  obtain ws3 where 3: "\<forall>q. q \<noteq> p \<longrightarrow> permissible_at s' q = permissible_at s2 q"
    "level (permissible_at s' p) = level ?h"
    using recalculate_Inr [OF 2(1) run(4)] 2(3) by metis
  have "map_of (effective (permissible_at s' p)) (lower n) = Some (Some a, v)"
    using last_attachment_decides [OF 2(1) run(4) 2(4) [unfolded t(1)]] by simp
  then have "hasPermission s' p n = v" "hasPermission s' p (lower n) = v" by (simp_all add: hasPermission_def)
  then show ?thesis using 1(2) t(2) 2(2) 3 p0 by simp
qed

text \<open>The levels at which a permission is in the list of default permissions are those at which its
  default allows it.\<close>

theorem default_levels_correct:
  "set (default_levels d) = {l. default_allows d l}"
proof -
  have "l \<in> set (default_levels d) \<longleftrightarrow> default_allows d l" for l by (cases d; cases l) simp_all
  then show ?thesis by blast
qed

text \<open>Removing a permission that is a default one leaves its pointer in \<open>default_perms_\<close>; the next
  recalculation of a permissible of that level follows it.\<close>

theorem removed_default_dangles:
  "(case perm_run 5 [Add_Permission \<lparr>perm_name = ''a.b'', perm_default = Default_True, children = []\<rparr>,
        Remove_Permission ''A.B''] (empty_state (\<lambda>_. Level_Operator)) of
      Inl x \<Rightarrow> None
    | Inr s \<Rightarrow> Some (getPermission s ''a.b'', getDefaultPermissions Level_Operator s,
        case recalculatePermissions 5 7 s of Inl x \<Rightarrow> Some x | Inr s' \<Rightarrow> None))
   = Some (None, [0], Some Dangling)"
  by code_simp

text \<open>Two permissions that are children of each other make every calculation that reaches them recurse
  for ever: no bound on the depth is enough.\<close>

theorem cyclic_children_overflow:
  assumes "getPermission s ''a'' = Some r" "getPermission s ''b'' = Some q"
    "children_of s r = [(''b'', True)]" "children_of s q = [(''a'', True)]"
  shows "calculateChildPermissions f [(''a'', True)] invert at p s = Inl Stack_Overflow"
proof -
  have "child_names f s [(''a'', True)] = None \<and> child_names f s [(''b'', True)] = None"
    by (induction f) (simp_all add: assms)
  then have "child_writes f s at [(''a'', True)] invert = None"
    using child_writes_names [of f s at "[(''a'', True)]" invert] by simp
  then show ?thesis by (simp add: calculate_writes)
qed

text \<open>The permission \<open>endstone.broadcast\<close>, described as giving all broadcast messages, is registered
  without children: both broadcast permissions become children of \<open>endstone\<close> instead.\<close>

theorem broadcast_has_no_children:
  "(case registerPermission_root 5 ''endstone'' (empty_state (\<lambda>_. Level_Default)) of
      Inl x \<Rightarrow> None
    | Inr (root, s) \<Rightarrow> (case BroadcastPermissions_registerPermissions 5 root s of
        Inl x \<Rightarrow> None
      | Inr (b, s') \<Rightarrow> Some (children_of s' b, children_of s' root)))
   = Some ([], [(''endstone.broadcast.admin'', True), (''endstone.broadcast.user'', True)])"
  by code_simp

subsection \<open>Concrete runs\<close>

definition op_start :: perm_state where
  "op_start = empty_state (\<lambda>_. Level_Operator)"

definition kick :: permission where
  "kick = \<lparr>perm_name = ''Kick'', perm_default = Default_True, children = [(''Warn'', True)]\<rparr>"

theorem subscriptions_mirror_witness:
  "\<exists>s. perm_run 5 [Add_Permission kick, Set_Level 7 Level_Default] op_start = Inr s
     \<and> isPermissionSet s 7 ''WARN'' \<and> 7 \<in> set (getPermissionSubscriptions ''WARN'' s)"
proof -
  let ?x = "perm_run 5 [Add_Permission kick, Set_Level 7 Level_Default] op_start"
  have x: "?x = Inr (projr ?x)" by (rule sum.collapse(2) [symmetric]) code_simp
  have "isPermissionSet (projr ?x) 7 ''WARN''" by code_simp
  moreover have "7 \<in> set (getPermissionSubscriptions ''WARN'' (projr ?x))"
    using subscriptions_mirror [OF x [unfolded op_start_def], of 7 "''WARN''"] calculation by (simp add: op_start_def)
  ultimately show ?thesis using x by auto
qed

theorem addAttachment_wins_witness:
  "\<exists>s'. addAttachment 5 True 3 ''Warn'' False 7 op_start = Inr (Some 0, s') \<and> \<not> hasPermission s' 7 ''Warn''"
proof -
  let ?x = "addAttachment 5 True 3 ''Warn'' False 7 op_start"
  have "?x = Inr (projr ?x)" by (rule sum.collapse(2) [symmetric]) code_simp
  moreover have "fst (projr ?x) = Some 0" by code_simp
  ultimately have x: "?x = Inr (Some 0, snd (projr ?x))" by (metis prod.collapse)
  have "perm_run 5 [] (empty_state (\<lambda>_. Level_Operator)) = Inr op_start" by (simp add: op_start_def)
  from addAttachment_wins [OF this x] show ?thesis using x by blast
qed

theorem cyclic_children_overflow_witness:
  "calculateChildPermissions 100 [(''a'', True)] False None 7 (op_start\<lparr>registered := [(''a'', 0), (''b'', 1)],
     perm_store := [0 \<mapsto> \<lparr>perm_name = ''a'', perm_default = Default_True, children = [(''b'', True)]\<rparr>,
       1 \<mapsto> \<lparr>perm_name = ''b'', perm_default = Default_True, children = [(''a'', True)]\<rparr>]\<rparr>) = Inl Stack_Overflow"
  by (rule cyclic_children_overflow [where r = 0 and q = 1]) (simp_all add: getPermission_def children_of_def tolower_def)

end
