(* ===== verification/Plugin_Host.thy ===== *)
theory Plugin_Host
  imports Plugins Events Permissions Scheduler
begin

text \<open>
  The plugin manager as a whole (\<open>src/endstone/core/plugin/plugin_manager.cpp\<close>): the operations that
  touch the loaded plugins, their event handlers, the scheduler and the permissions together. A plugin's
  address is its identity in all four.
\<close>

subsection \<open>Operations\<close>

record 'act host =
  events :: manager
  loaded_plugins :: plugin_manager
  tasks_of :: "'act scheduler"
  perms :: perm_state

definition host_enabled :: "plugin_ref \<Rightarrow> 'act host \<Rightarrow> bool" where
  "host_enabled p h \<longleftrightarrow> p \<in> enabled (events h)"

text \<open>\<open>enablePlugin\<close> goes through the plugin's loader; what \<open>onEnable\<close> does and the event that follows are
  further operations.\<close>

definition enablePlugin :: "plugin_ref \<Rightarrow> 'act host \<Rightarrow> 'act host" where
  "enablePlugin p h = (if \<not> host_enabled p h then h\<lparr>events := enable_plugin p (events h)\<rparr> else h)"

definition enablePlugins :: "'act host \<Rightarrow> 'act host" where
  "enablePlugins h = fold (\<lambda>p. enablePlugin (address p)) (plugins (loaded_plugins h)) h"

text \<open>Once the flag is cleared, and before the tasks and handlers are dropped, \<open>onDisable\<close> and the listeners of the disabling run; what they
  call is left out.\<close>

definition disablePlugin :: "plugin_ref \<Rightarrow> 'act host \<Rightarrow> 'act host" where
  "disablePlugin p h =
     (if host_enabled p h
      then h\<lparr>tasks_of := cancelTasks p (tasks_of h), events := disable_plugin p (events h)\<rparr>
      else h)"

definition disablePlugins :: "'act host \<Rightarrow> 'act host" where
  "disablePlugins h = fold (\<lambda>p. disablePlugin (address p)) (rev (plugins (loaded_plugins h))) h"

definition clearPlugins :: "'act host \<Rightarrow> 'act host" where
  "clearPlugins h =
     (let h1 = disablePlugins h
      in h1\<lparr>loaded_plugins := (loaded_plugins h1)\<lparr>plugins := [], lookup_names := []\<rparr>,
            events := (events h1)\<lparr>event_handlers := []\<rparr>,
            perms := (perms h1)\<lparr>registered := [], perm_store := (\<lambda>_. None), default_perms := (\<lambda>_. [])\<rparr>\<rparr>)"

subsection \<open>Cancelling the tasks of a plugin\<close>

lemma isCancelled_doCancel:
  "r < length (store s) \<Longrightarrow> isCancelled (doCancel r s) q \<longleftrightarrow> q = r \<or> isCancelled s q"
  by (cases "q = r") (simp_all add: doCancel_def Let_def isCancelled_def update_task_def removeTask_def)

lemma length_doCancel [simp]: "length (store (doCancel r s)) = length (store s)"
  by (simp add: doCancel_def Let_def update_task_def removeTask_def)

lemma isCancelled_fold:
  "\<forall>e \<in> set es. snd e < length (store s) \<Longrightarrow>
    isCancelled (fold (\<lambda>e. doCancel (snd e)) es s) q \<longleftrightarrow> q \<in> snd ` set es \<or> isCancelled s q"
  by (induction es arbitrary: s) (auto simp: isCancelled_doCancel)

lemma length_fold_doCancel [simp]: "length (store (fold (\<lambda>e. doCancel (snd e)) es s)) = length (store s)"
  by (induction es arbitrary: s) simp_all

lemma isCancelled_cancelTasks:
  assumes "refs_ok s"
  shows "isCancelled (cancelTasks p s) r \<longleftrightarrow>
     isCancelled s r \<or> (\<exists>i. (i, r) \<in> set (tasks s) \<and> owner (store s ! r) = Some p)"
proof -
  let ?s = "s\<lparr>tasks := filter (\<lambda>e. \<not> (owner (store s ! snd e) = Some p \<and> isSync s (snd e))) (tasks s)\<rparr>"
  let ?es = "filter (\<lambda>e. owner (store s ! snd e) = Some p) (tasks s)"
  have "isCancelled (fold (\<lambda>e. doCancel (snd e)) ?es ?s) r \<longleftrightarrow> r \<in> snd ` set ?es \<or> isCancelled ?s r"
    using assms by (intro isCancelled_fold) (auto simp: refs_ok_def)
  then show ?thesis by (auto simp: cancelTasks_def isCancelled_def image_iff)
qed

lemma length_cancelTasks [simp]: "length (store (cancelTasks p s)) = length (store s)"
  by (simp add: cancelTasks_def Let_def)

text \<open>C14: Disabling an enabled plugin stops it, whatever it did before: it is no longer enabled, no list has
  a handler of it, every task it has registered is cancelled and is not run by any calls and heartbeats that
  follow; the tasks and handlers of the other plugins are left alone.\<close>

theorem disablePlugin_stops:
  assumes "host_enabled p h" "manager_reachable (events h)"
    and "execute script0 es0 EndstoneScheduler = Some (tasks_of h, l0)"
    and "execute script es (tasks_of (disablePlugin p h)) = Some (s', l)"
  shows "\<not> host_enabled p (disablePlugin p h)
    \<and> fst (getHandlers (list_of e (events (disablePlugin p h))))
        = filter (\<lambda>x. plugin x \<noteq> p) (fst (getHandlers (list_of e (events h))))
    \<and> (\<forall>(i, r) \<in> set (tasks (tasks_of h)). owner (store (tasks_of h) ! r) = Some p \<longrightarrow> (\<forall>x \<in> set l. r \<notin> set (snd x)))
    \<and> (\<forall>r. isCancelled (tasks_of (disablePlugin p h)) r \<longleftrightarrow> isCancelled (tasks_of h) r
          \<or> (\<exists>i. (i, r) \<in> set (tasks (tasks_of h)) \<and> owner (store (tasks_of h) ! r) = Some p))"
proof -
  let ?s = "tasks_of h"
  have inv: "sched_inv ?s" using execute_inv [OF inv_init assms(3)] by blast
  then have refs: "refs_ok ?s" by (simp add: sched_inv_def)
  have d: "tasks_of (disablePlugin p h) = cancelTasks p ?s" "events (disablePlugin p h) = disable_plugin p (events h)"
    using assms(1) by (simp_all add: disablePlugin_def)
  have inv': "sched_inv (cancelTasks p ?s)" using inv_perform [OF inv, of "Cancel_Tasks p"] by simp
  have never: "\<forall>x \<in> set l. r \<notin> set (snd x)" if "(i, r) \<in> set (tasks ?s)" "owner (store ?s ! r) = Some p" for i r
  proof (rule cancelled_never_runs [OF inv' assms(4) [unfolded d]])
    show "r < length (store (cancelTasks p ?s))" using refs that(1) by (fastforce simp: refs_ok_def)
    show "isCancelled (cancelTasks p ?s) r" using that by (auto simp: isCancelled_cancelTasks [OF refs])
  qed
  have "p \<notin> enabled (disable_plugin p (events h))" by (auto simp: disable_plugin_def drop_handlers_def)
  moreover have "fst (getHandlers (list_of e (disable_plugin p (events h))))
      = filter (\<lambda>x. plugin x \<noteq> p) (fst (getHandlers (list_of e (events h))))"
    using list_of_disable [OF assms(2)] .
  ultimately show ?thesis
    using never isCancelled_cancelTasks [OF refs] unfolding d host_enabled_def by auto
qed


lemma enabled_disable: "host_enabled q (disablePlugin p h) \<longleftrightarrow> q \<noteq> p \<and> host_enabled q h"
  by (auto simp: disablePlugin_def host_enabled_def disable_plugin_def drop_handlers_def)

lemma loaded_disable [simp]: "loaded_plugins (disablePlugin p h) = loaded_plugins h" "perms (disablePlugin p h) = perms h"
  by (simp_all add: disablePlugin_def)

lemma enabled_fold_disable:
  "host_enabled q (fold (\<lambda>p. disablePlugin (address p)) ps h) \<longleftrightarrow> q \<notin> address ` set ps \<and> host_enabled q h"
  by (induction ps arbitrary: h) (auto simp: enabled_disable)

text \<open>Clearing the plugins, as a reload does first, disables every loaded plugin and leaves no loaded plugin, no
  lookup name, no event handler and no permission; in particular no pointer to a destroyed permission is left
  among the default permissions. Plugins that are enabled but not in the list are not touched.\<close>

theorem clearPlugins_clears:
  "plugins (loaded_plugins (clearPlugins h)) = [] \<and> getPlugin (loaded_plugins (clearPlugins h)) n = None
    \<and> live_handlers (events (clearPlugins h)) = []
    \<and> getPermission (perms (clearPlugins h)) n = None \<and> getDefaultPermissions lv (perms (clearPlugins h)) = []
    \<and> (host_enabled q (clearPlugins h) \<longleftrightarrow> q \<notin> address ` set (plugins (loaded_plugins h)) \<and> host_enabled q h)"
proof -
  have "host_enabled q (disablePlugins h) \<longleftrightarrow> q \<notin> address ` set (plugins (loaded_plugins h)) \<and> host_enabled q h"
    by (simp add: disablePlugins_def enabled_fold_disable)
  then show ?thesis
    by (simp add: clearPlugins_def Let_def getPlugin_def live_handlers_def getPermission_def getDefaultPermissions_def
        host_enabled_def)
qed

subsection \<open>A concrete run\<close>

definition one_task :: "nat scheduler" where
  "one_task = snd (the (run_timer True 1 True (Some 0) 2 0 EndstoneScheduler))"

definition demo_host :: "nat host" where
  "demo_host = \<lparr>events = two_plugins, loaded_plugins = PluginManager, tasks_of = one_task, perms = op_start\<rparr>"

theorem disablePlugin_stops_witness:
  "\<exists>s'. execute idle [Heartbeat 40, Heartbeat 41] (tasks_of (disablePlugin 1 demo_host)) = Some (s', [(1, []), (2, [])])
    \<and> \<not> host_enabled 1 (disablePlugin 1 demo_host) \<and> isCancelled (tasks_of (disablePlugin 1 demo_host)) 0"
proof -
  define s' where "s' = fst (the (execute idle [Heartbeat 40, Heartbeat 41] (tasks_of (disablePlugin 1 demo_host))))"
  have 1: "host_enabled 1 demo_host" by code_simp
  have 2: "manager_reachable (events demo_host)" by (simp add: demo_host_def two_plugins_reachable)
  have 3: "execute idle [Call (Register True 1 True (Some 0) 2 0)] EndstoneScheduler = Some (tasks_of demo_host, [])"
    by code_simp
  have 4: "execute idle [Heartbeat 40, Heartbeat 41] (tasks_of (disablePlugin 1 demo_host)) = Some (s', [(1, []), (2, [])])"
    unfolding s'_def by code_simp
  have "(1, 0) \<in> set (tasks (tasks_of demo_host))" "owner (store (tasks_of demo_host) ! 0) = Some 1" by code_simp+
  with 4 disablePlugin_stops [OF 1 2 3 4, of "''E''"] show ?thesis by blast
qed

end
