(* ===== verification/Command_Usage.thy ===== *)
theory Command_Usage
  imports Prelude
begin

text \<open>
  The usage strings of commands: the lexer (\<open>src/endstone/core/command/command_lexer.cpp\<close> and
  \<open>command_lexer.h\<close>) and the recursive-descent parser (\<open>command_usage_parser.cpp\<close>) that turns a usage
  such as \<open>/give <who: player> (a|b)[item: Item]\<close> into parameters. The lexer is the text and a position,
  as in the code; a functional view of it on the remaining text carries the proofs. The main results are
  that printing parameters and parsing them is the identity, and that every accepted usage yields
  well-formed parameters.
\<close>

subsection \<open>The lexer\<close>

datatype token_type =
  Number | Identifier | LeftParen | RightParen | LeftSquare | RightSquare | LeftCurly | RightCurly
| LessThan | GreaterThan | Equal | Plus | Minus | Asterisk | Slash | Hash | Dot | Comma | Colon
| Semicolon | SingleQuote | DoubleQuote | Pipe | End | Unexpected

record token =
  token_type :: token_type
  token_text :: string

record lexer =
  source :: string
  position :: nat

definition CommandLexer :: "string \<Rightarrow> lexer" where
  "CommandLexer v = \<lparr>source = v, position = 0\<rparr>"

definition reset_lexer :: "lexer \<Rightarrow> lexer" where
  "reset_lexer l = l\<lparr>position := 0\<rparr>"

definition peekChar :: "lexer \<Rightarrow> char" where
  "peekChar l = (if length (source l) \<le> position l then CHR 0x00 else source l ! position l)"

text \<open>No caller uses the character \<open>getChar\<close> returns.\<close>

definition getChar :: "lexer \<Rightarrow> lexer" where
  "getChar l = (if length (source l) \<le> position l then l else l\<lparr>position := Suc (position l)\<rparr>)"

definition isSpace :: "char \<Rightarrow> bool" where
  "isSpace c \<longleftrightarrow> c = CHR '' '' \<or> c = CHR 0x09 \<or> c = CHR 0x0D \<or> c = CHR 0x0A"

definition char_between :: "char \<Rightarrow> char \<Rightarrow> char \<Rightarrow> bool" where
  "char_between lo hi c \<longleftrightarrow> (of_char lo :: nat) \<le> of_char c \<and> (of_char c :: nat) \<le> of_char hi"

definition isDigit :: "char \<Rightarrow> bool" where
  "isDigit c \<longleftrightarrow> char_between CHR ''0'' CHR ''9'' c"

definition isIdentifierCharacter :: "char \<Rightarrow> bool" where
  "isIdentifierCharacter c \<longleftrightarrow>
     char_between CHR ''a'' CHR ''z'' c \<or> char_between CHR ''A'' CHR ''Z'' c \<or> isDigit c
     \<or> c = CHR ''_'' \<or> c = CHR ''-''"

text \<open>
  The loop \<open>while (P(peekChar())) getChar()\<close>. The guard on the position stops it at the end of the text,
  where \<open>peekChar\<close> is the NUL character, which is in none of the classes (\<open>scan_unfold\<close>).
\<close>

function scan :: "(char \<Rightarrow> bool) \<Rightarrow> lexer \<Rightarrow> lexer" where
  "scan P l = (if P (peekChar l) \<and> position l < length (source l) then scan P (getChar l) else l)"
  by pat_completeness auto
termination
  by (relation "measure (\<lambda>(_, l). length (source l) - position l)") (auto simp: getChar_def)

declare scan.simps [simp del]

definition substr :: "lexer \<Rightarrow> nat \<Rightarrow> nat \<Rightarrow> string" where
  "substr l start n = take n (drop start (source l))"

definition next_as :: "token_type \<Rightarrow> lexer \<Rightarrow> token \<times> lexer" where
  "next_as t l = (\<lparr>token_type = t, token_text = substr l (position l) 1\<rparr>, l\<lparr>position := Suc (position l)\<rparr>)"

definition nextIdentifier :: "lexer \<Rightarrow> token \<times> lexer" where
  "nextIdentifier l =
     (let l1 = scan isIdentifierCharacter (getChar l)
      in (\<lparr>token_type = Identifier, token_text = substr l (position l) (position l1 - position l)\<rparr>, l1))"

definition nextNumber :: "lexer \<Rightarrow> token \<times> lexer" where
  "nextNumber l =
     (let l1 = scan isDigit (getChar l)
      in (\<lparr>token_type = Number, token_text = substr l (position l) (position l1 - position l)\<rparr>, l1))"

text \<open>The cases of the switch, in order; every other character is unexpected.\<close>

definition punctuation :: "(char \<times> token_type) list" where
  "punctuation =
     [(CHR ''('', LeftParen), (CHR '')'', RightParen), (CHR ''['', LeftSquare), (CHR '']'', RightSquare),
      (CHR 0x7B, LeftCurly), (CHR 0x7D, RightCurly), (CHR ''<'', LessThan), (CHR ''>'', GreaterThan),
      (CHR ''='', Equal), (CHR ''+'', Plus), (CHR ''-'', Minus), (CHR ''*'', Asterisk), (CHR ''/'', Slash),
      (CHR ''#'', Hash), (CHR ''.'', Dot), (CHR '','', Comma), (CHR '':'', Colon), (CHR '';'', Semicolon),
      (CHR 0x27, SingleQuote), (CHR 0x22, DoubleQuote), (CHR 0x7C, Pipe)]"

definition punctuation_type :: "char \<Rightarrow> token_type" where
  "punctuation_type c = (case map_of punctuation c of Some t \<Rightarrow> t | None \<Rightarrow> Unexpected)"

definition next_token :: "lexer \<Rightarrow> token \<times> lexer" where
  "next_token l =
     (let l1 = scan isSpace l; c = peekChar l1
      in if isIdentifierCharacter c \<and> \<not> isDigit c then nextIdentifier l1
         else if isDigit c then nextNumber l1
         else if c = CHR 0x00 then (\<lparr>token_type = End, token_text = []\<rparr>, l1)
         else next_as (punctuation_type c) l1)"

definition peek :: "lexer \<Rightarrow> token \<times> lexer" where
  "peek l = (let (t, l1) = next_token l in (t, l1\<lparr>position := position l\<rparr>))"

subsection \<open>The parser\<close>

record parameter =
  param_name :: string
  param_type :: string
  optional :: bool
  is_enum :: bool
  param_values :: "string list"

record usage =
  command_name :: string
  parameters :: "parameter list"

definition Parameter :: parameter where
  "Parameter = \<lparr>param_name = [], param_type = [], optional = False, is_enum = False, param_values = []\<rparr>"

text \<open>
  \<open>Syntax Error: expect 'e', got 'g' at position n.\<close> is \<open>Syntax_Error e g n\<close>. A parsing function takes
  the lexer and returns the error or its result and the lexer after it.
\<close>

datatype syntax_error = Syntax_Error string string nat

type_synonym 'a parsed = "syntax_error + 'a \<times> lexer"

definition syntax_error :: "string \<Rightarrow> token \<Rightarrow> lexer \<Rightarrow> 'a parsed" where
  "syntax_error what t l = Inl (Syntax_Error what (token_text t) (position l))"

fun capitalize :: "string \<Rightarrow> string" where
  "capitalize [] = []"
| "capitalize (c # cs) = toupper c # cs"

fun join :: "string \<Rightarrow> string list \<Rightarrow> string" where
  "join sep [] = []"
| "join sep [v] = v"
| "join sep (v # vs) = v @ sep @ join sep vs"

definition generateNameAndType :: "string \<Rightarrow> parameter \<Rightarrow> parameter" where
  "generateNameAndType cmd p =
     (if \<not> is_enum p then p
      else p\<lparr>param_name := join ''_'' (param_values p),
             param_type := capitalize cmd @ concat (map capitalize (param_values p))\<rparr>)"

definition parseToken :: "token_type \<Rightarrow> string \<Rightarrow> lexer \<Rightarrow> string parsed" where
  "parseToken ty what l =
     (let (t, l1) = next_token l
      in if token_type t \<noteq> ty then syntax_error what t l1 else Inr (token_text t, l1))"

definition parseIdentifier :: "string \<Rightarrow> lexer \<Rightarrow> string parsed" where
  "parseIdentifier what l = parseToken Identifier what l"

definition parseSingleUnnamedEnum :: "string \<Rightarrow> lexer \<Rightarrow> parameter parsed" where
  "parseSingleUnnamedEnum cmd l =
     (case parseIdentifier ''enum value'' l of
        Inl e \<Rightarrow> Inl e
      | Inr (v, l1) \<Rightarrow>
          Inr (generateNameAndType cmd (Parameter\<lparr>is_enum := True, optional := False, param_values := [v]\<rparr>), l1))"

subsection \<open>The functional view of the lexer\<close>

definition rest :: "lexer \<Rightarrow> string" where
  "rest l = drop (position l) (source l)"

lemma peekChar_rest: "peekChar l = (case rest l of [] \<Rightarrow> CHR 0x00 | c # _ \<Rightarrow> c)"
  by (auto simp: peekChar_def rest_def Cons_nth_drop_Suc [symmetric] not_le)

lemma rest_getChar [simp]: "rest (getChar l) = tl (rest l)"
  by (simp add: rest_def getChar_def drop_Suc tl_drop)

lemma source_getChar [simp]: "source (getChar l) = source l"
  by (simp add: getChar_def)

lemma position_less: "position l < length (source l) \<longleftrightarrow> rest l \<noteq> []"
  by (simp add: rest_def not_le)

lemma scan_rest: "rest (scan P l) = dropWhile P (rest l) \<and> source (scan P l) = source l"
proof (induction P l rule: scan.induct)
  case (1 P l)
  show ?case
    by (subst (1 2) scan.simps) (use 1 in \<open>auto simp: position_less peekChar_rest split: list.splits\<close>)
qed

lemma scan_unfold:
  "\<not> P (CHR 0x00) \<Longrightarrow> scan P l = (if P (peekChar l) then scan P (getChar l) else l)"
  by (subst scan.simps) (auto simp: peekChar_def not_le)

lemma scan_position: "position l \<le> position (scan P l)"
proof (induction P l rule: scan.induct)
  case (1 P l)
  show ?case
    by (subst scan.simps) (use 1 in \<open>auto simp: getChar_def split: if_splits\<close>)
qed

lemma scan_taken: "substr l (position l) (position (scan P l) - position l) = takeWhile P (rest l)"
proof (induction P l rule: scan.induct)
  case (1 P l)
  show ?case
  proof (cases "P (peekChar l) \<and> position l < length (source l)")
    case True
    have "position (getChar l) = Suc (position l)" using True by (simp add: getChar_def)
    moreover have "position (getChar l) \<le> position (scan P (getChar l))" by (rule scan_position)
    ultimately have "position (scan P (getChar l)) - position l
        = Suc (position (scan P (getChar l)) - Suc (position l))" by simp
    then show ?thesis
      using 1 True by (subst (1) scan.simps)
        (auto simp: substr_def rest_def getChar_def peekChar_def Cons_nth_drop_Suc [symmetric])
  next
    case False
    then show ?thesis
      by (subst scan.simps) (auto simp: substr_def position_less peekChar_rest split: list.splits)
  qed
qed

definition end_token :: token where
  "end_token = \<lparr>token_type = End, token_text = []\<rparr>"

definition lex :: "string \<Rightarrow> token \<times> string" where
  "lex s =
     (case dropWhile isSpace s of
        [] \<Rightarrow> (end_token, [])
      | c # cs \<Rightarrow>
          if isIdentifierCharacter c \<and> \<not> isDigit c
          then (\<lparr>token_type = Identifier, token_text = takeWhile isIdentifierCharacter (c # cs)\<rparr>,
                dropWhile isIdentifierCharacter (c # cs))
          else if isDigit c
          then (\<lparr>token_type = Number, token_text = takeWhile isDigit (c # cs)\<rparr>, dropWhile isDigit (c # cs))
          else if c = CHR 0x00 then (end_token, c # cs)
          else (\<lparr>token_type = punctuation_type c, token_text = [c]\<rparr>, cs))"

lemma scan_taken_from:
  assumes "rest l = c # cs" and "P c"
  shows "substr l (position l) (position (scan P (getChar l)) - position l) = takeWhile P (c # cs)"
    and "rest (scan P (getChar l)) = dropWhile P (c # cs)"
proof -
  have c: "peekChar l = c" "position l < length (source l)"
    using assms by (simp_all add: peekChar_rest position_less)
  then have s: "scan P l = scan P (getChar l)" using assms by (subst scan.simps) simp
  show "substr l (position l) (position (scan P (getChar l)) - position l) = takeWhile P (c # cs)"
    using scan_taken [of l P] by (simp add: s assms)
  show "rest (scan P (getChar l)) = dropWhile P (c # cs)"
    using scan_rest [of P l] by (simp add: s assms)
qed

lemma digit_identifier: "isDigit c \<Longrightarrow> isIdentifierCharacter c"
  by (simp add: isIdentifierCharacter_def)

lemma identifier_nonzero: "isIdentifierCharacter c \<Longrightarrow> c \<noteq> CHR 0x00"
  by (auto simp: isIdentifierCharacter_def isDigit_def char_between_def)

text \<open>The lexer computes \<open>lex\<close> on the remaining text.\<close>

lemma next_token_lex: "next_token l = (t, l1) \<Longrightarrow> lex (rest l) = (t, rest l1)"
proof -
  assume n: "next_token l = (t, l1)"
  let ?l = "scan isSpace l"
  have r: "rest ?l = dropWhile isSpace (rest l)" by (simp add: scan_rest)
  show ?thesis
  proof (cases "rest ?l")
    case Nil
    then have "peekChar ?l = CHR 0x00" by (simp add: peekChar_rest)
    moreover have "dropWhile isSpace (rest l) = []" using r Nil by simp
    moreover have "\<not> isIdentifierCharacter (CHR 0x00)" "\<not> isDigit (CHR 0x00)"
      using identifier_nonzero [of "CHR 0x00"] digit_identifier [of "CHR 0x00"] by auto
    ultimately show ?thesis using n Nil
      by (simp add: next_token_def Let_def lex_def end_token_def del: dropWhile_eq_Nil_conv)
  next
    case (Cons c cs)
    have p: "peekChar ?l = c" by (simp add: peekChar_rest Cons)
    have d: "dropWhile isSpace (rest l) = c # cs" using r Cons by simp
    have one: "substr ?l (position ?l) 1 = [c]" using Cons by (simp add: substr_def rest_def)
    have suc: "rest (?l\<lparr>position := Suc (position ?l)\<rparr>) = cs"
      using Cons by (simp add: rest_def drop_Suc flip: tl_drop)
    show ?thesis
      using n one suc scan_taken_from [OF Cons, of isIdentifierCharacter] scan_taken_from [OF Cons, of isDigit]
        identifier_nonzero [of c] digit_identifier [of c] Cons
      by (auto simp: next_token_def Let_def p lex_def d end_token_def nextIdentifier_def nextNumber_def next_as_def
          split: if_splits)
  qed
qed

lemma lex_less:
  assumes "lex s = (t, s1)" and "token_type t \<noteq> End"
  shows "length s1 < length s"
proof -
  have "length (dropWhile isSpace s) \<le> length s" by (rule length_dropWhile_le)
  moreover have "length s1 < length (dropWhile isSpace s)"
    using assms
    by (auto simp: lex_def end_token_def digit_identifier le_imp_less_Suc length_dropWhile_le
        split: list.splits if_splits)
  ultimately show ?thesis by simp
qed

lemma lex_le: "lex s = (t, s1) \<Longrightarrow> length s1 \<le> length s"
  using length_dropWhile_le [of isSpace s] lex_less [of s t s1]
  by (cases "token_type t = End") (auto simp: lex_def end_token_def punctuation_type_def punctuation_def
      length_dropWhile_le split: list.splits if_splits)

lemma next_token_less: "next_token l = (t, l1) \<Longrightarrow> token_type t \<noteq> End \<Longrightarrow> length (rest l1) < length (rest l)"
  using lex_less [OF next_token_lex] .

lemma peek_next: "peek l = (fst (next_token l), (snd (next_token l))\<lparr>position := position l\<rparr>)"
  by (simp add: peek_def split: prod.split)

lemma source_next_token [simp]: "source (snd (next_token l)) = source l"
  by (auto simp: next_token_def Let_def nextIdentifier_def nextNumber_def next_as_def scan_rest)

lemma peek_same: "peek l = (fst (next_token l), l)"
  by (simp add: peek_next)

subsection \<open>The loops of the parser\<close>

lemma parseToken_less:
  "parseToken ty what l = Inr (v, l1) \<Longrightarrow> ty \<noteq> End \<Longrightarrow> length (rest l1) < length (rest l)"
  by (auto simp: parseToken_def syntax_error_def next_token_less split: prod.splits if_splits)

lemma parseIdentifier_less:
  "parseIdentifier what l = Inr (v, l1) \<Longrightarrow> length (rest l1) < length (rest l)"
  unfolding parseIdentifier_def by (erule parseToken_less) simp

text \<open>The values of an unnamed enumeration after its first bar, and those between parentheses.\<close>

function pipe_values :: "string list \<Rightarrow> lexer \<Rightarrow> string list parsed" where
  "pipe_values vs l =
     (case parseIdentifier ''enum value'' l of
        Inl e \<Rightarrow> Inl e
      | Inr (v, l1) \<Rightarrow>
          if token_type (fst (peek l1)) = Pipe
          then (case parseToken Pipe ''|'' (snd (peek l1)) of
                  Inl e \<Rightarrow> Inl e
                | Inr (_, l2) \<Rightarrow> pipe_values (vs @ [v]) l2)
          else Inr (vs @ [v], snd (peek l1)))"
  by pat_completeness auto
termination
  by (relation "measure (\<lambda>(_, l). length (rest l))")
    (auto simp: peek_same dest!: parseIdentifier_less parseToken_less)

function enum_values :: "string list \<Rightarrow> lexer \<Rightarrow> string list parsed" where
  "enum_values vs l =
     (case parseIdentifier ''enum value'' l of
        Inl e \<Rightarrow> Inl e
      | Inr (v, l1) \<Rightarrow>
          (let (t, l2) = next_token l1
           in if token_type t = RightParen then Inr (vs @ [v], l2)
              else if token_type t = Pipe then enum_values (vs @ [v]) l2
              else syntax_error '')' or '|'' t l2))"
  by pat_completeness auto
termination
  by (relation "measure (\<lambda>(_, l). length (rest l))")
    (auto dest!: parseIdentifier_less next_token_less [OF sym])

declare pipe_values.simps [simp del] enum_values.simps [simp del]

text \<open>What stands between the brackets, after its first identifier \<open>n\<close>.\<close>

definition parameter_body :: "string \<Rightarrow> parameter \<Rightarrow> string \<Rightarrow> lexer \<Rightarrow> parameter parsed" where
  "parameter_body cmd p n l =
     (let (t, l1) = peek l
      in if token_type t = Colon
         then (case parseToken Colon '':'' l1 of
                 Inl e \<Rightarrow> Inl e
               | Inr (_, l2) \<Rightarrow>
                   (case parseIdentifier ''parameter type'' l2 of
                      Inl e \<Rightarrow> Inl e
                    | Inr (ty, l3) \<Rightarrow> Inr (p\<lparr>param_name := n, param_type := ty\<rparr>, l3)))
         else if token_type t = Pipe
         then (case parseToken Pipe ''|'' l1 of
                 Inl e \<Rightarrow> Inl e
               | Inr (_, l2) \<Rightarrow>
                   (case pipe_values [n] l2 of
                      Inl e \<Rightarrow> Inl e
                    | Inr (vs, l3) \<Rightarrow>
                        Inr (generateNameAndType cmd (p\<lparr>is_enum := True, param_values := vs\<rparr>), l3)))
         else if token_type t = RightSquare \<or> token_type t = GreaterThan
         then Inr (generateNameAndType cmd (p\<lparr>is_enum := True, param_values := [n]\<rparr>), l1)
         else syntax_error '':', '|', '>' or ']'' t l1)"

definition parseParameterOrEnum :: "string \<Rightarrow> lexer \<Rightarrow> parameter parsed" where
  "parseParameterOrEnum cmd l =
     (let (t, l1) = next_token l
      in if token_type t \<noteq> LeftSquare \<and> token_type t \<noteq> LessThan then syntax_error ''<' or '['' t l1
         else let opt = (token_type t = LeftSquare)
           in (case parseIdentifier ''parameter name' or 'enum value'' l1 of
                 Inl e \<Rightarrow> Inl e
               | Inr (n, l2) \<Rightarrow>
                   (case parameter_body cmd (Parameter\<lparr>optional := opt\<rparr>) n l2 of
                      Inl e \<Rightarrow> Inl e
                    | Inr (p, l3) \<Rightarrow>
                        (case (if opt then parseToken RightSquare '']'' l3 else parseToken GreaterThan ''>'' l3) of
                           Inl e \<Rightarrow> Inl e
                         | Inr (_, l4) \<Rightarrow> Inr (p, l4)))))"

definition parseEnum :: "string \<Rightarrow> lexer \<Rightarrow> parameter parsed" where
  "parseEnum cmd l =
     (case parseToken LeftParen ''('' l of
        Inl e \<Rightarrow> Inl e
      | Inr (_, l1) \<Rightarrow>
          (let (t, l2) = peek l1;
               vals = (if token_type t = RightParen
                       then (case parseToken RightParen '')'' l2 of Inl e \<Rightarrow> Inl e | Inr (_, l3) \<Rightarrow> Inr ([], l3))
                       else if token_type t = Identifier then enum_values [] l2
                       else syntax_error '')' or 'enum values'' t l2)
           in (case vals of
                 Inl e \<Rightarrow> Inl e
               | Inr (vs, l3) \<Rightarrow>
                   (case parseParameterOrEnum cmd l3 of
                      Inl e \<Rightarrow> Inl e
                    | Inr (p, l4) \<Rightarrow> Inr (p\<lparr>is_enum := True, param_values := vs\<rparr>, l4)))))"

lemma parseSingleUnnamedEnum_less:
  "parseSingleUnnamedEnum cmd l = Inr (p, l1) \<Longrightarrow> length (rest l1) < length (rest l)"
  by (auto simp: parseSingleUnnamedEnum_def dest: parseIdentifier_less split: sum.splits)

lemma pipe_values_less: "pipe_values vs l = Inr (ws, l1) \<Longrightarrow> length (rest l1) < length (rest l)"
proof (induction vs l rule: pipe_values.induct)
  case (1 vs l)
  from 1(2) obtain v l2 where v: "parseIdentifier ''enum value'' l = Inr (v, l2)"
    by (subst (asm) pipe_values.simps) (auto split: sum.splits)
  note ih = 1(1) [OF v refl, unfolded peek_same fst_conv snd_conv, OF _ _ refl]
  from 1(2) parseIdentifier_less [OF v] show ?case
    by (subst (asm) pipe_values.simps)
      (fastforce simp: v peek_same split: sum.splits if_splits dest: parseToken_less ih)
qed

lemma enum_values_less: "enum_values vs l = Inr (ws, l1) \<Longrightarrow> length (rest l1) < length (rest l)"
proof (induction vs l rule: enum_values.induct)
  case (1 vs l)
  from 1(2) obtain v l2 where v: "parseIdentifier ''enum value'' l = Inr (v, l2)"
    by (subst (asm) enum_values.simps) (auto split: sum.splits)
  obtain t l3 where t: "next_token l2 = (t, l3)" by (cases "next_token l2")
  have "token_type t = RightParen \<or> token_type t = Pipe"
    and "token_type t = Pipe \<Longrightarrow> enum_values (vs @ [v]) l3 = Inr (ws, l1)"
    and "token_type t = RightParen \<Longrightarrow> l3 = l1"
    using 1(2) by (subst (asm) enum_values.simps, simp add: v t syntax_error_def split: if_splits)+
  then show ?case
    using parseIdentifier_less [OF v] next_token_less [OF t] 1(1) [OF v refl t [symmetric] refl] by auto
qed

lemma parameter_body_le: "parameter_body cmd p n l = Inr (q, l1) \<Longrightarrow> length (rest l1) \<le> length (rest l)"
  by (auto simp: parameter_body_def peek_same syntax_error_def split: sum.splits if_splits
      dest!: parseToken_less parseIdentifier_less pipe_values_less)

lemma parseParameterOrEnum_less:
  "parseParameterOrEnum cmd l = Inr (p, l1) \<Longrightarrow> length (rest l1) < length (rest l)"
  by (auto simp: parseParameterOrEnum_def syntax_error_def split: sum.splits if_splits prod.splits
      dest!: parseToken_less parseIdentifier_less parameter_body_le next_token_less)

lemma parseEnum_less: "parseEnum cmd l = Inr (p, l1) \<Longrightarrow> length (rest l1) < length (rest l)"
  by (auto simp: parseEnum_def Let_def peek_same syntax_error_def split: sum.splits if_splits prod.splits
      dest!: parseToken_less enum_values_less parseParameterOrEnum_less)

text \<open>The loop of \<open>parse\<close>; it ends because every round reads at least one token.\<close>

function parse_parameters :: "string \<Rightarrow> parameter list \<Rightarrow> lexer \<Rightarrow> parameter list parsed" where
  "parse_parameters cmd ps l =
     (let (t, l1) = peek l
      in if token_type t = Identifier
         then (case parseSingleUnnamedEnum cmd l1 of
                 Inl e \<Rightarrow> Inl e | Inr (p, l2) \<Rightarrow> parse_parameters cmd (ps @ [p]) l2)
         else if token_type t = LeftParen
         then (case parseEnum cmd l1 of
                 Inl e \<Rightarrow> Inl e | Inr (p, l2) \<Rightarrow> parse_parameters cmd (ps @ [p]) l2)
         else if token_type t = LeftSquare \<or> token_type t = LessThan
         then (case parseParameterOrEnum cmd l1 of
                 Inl e \<Rightarrow> Inl e | Inr (p, l2) \<Rightarrow> parse_parameters cmd (ps @ [p]) l2)
         else if token_type t = End then Inr (ps, l1)
         else syntax_error ''(', '<' or '['' t l1)"
  by pat_completeness auto
termination
  by (relation "measure (\<lambda>(_, _, l). length (rest l))")
    (auto simp: peek_same dest: parseSingleUnnamedEnum_less parseEnum_less parseParameterOrEnum_less)

declare parse_parameters.simps [simp del]

definition parse :: "string \<Rightarrow> syntax_error + usage" where
  "parse input =
     (let l = reset_lexer (CommandLexer input)
      in (case parseToken Slash ''/'' l of
            Inl e \<Rightarrow> Inl e
          | Inr (_, l1) \<Rightarrow>
              (case parseIdentifier ''command name'' l1 of
                 Inl e \<Rightarrow> Inl e
               | Inr (cmd, l2) \<Rightarrow>
                   (case parse_parameters cmd [] l2 of
                      Inl e \<Rightarrow> Inl e
                    | Inr (ps, _) \<Rightarrow> Inr \<lparr>command_name = cmd, parameters = ps\<rparr>))))"

subsection \<open>Printing, and well-formed parameters\<close>

definition is_identifier :: "string \<Rightarrow> bool" where
  "is_identifier s \<longleftrightarrow> s \<noteq> [] \<and> list_all isIdentifierCharacter s \<and> \<not> isDigit (hd s)"

definition wf_parameter :: "parameter \<Rightarrow> bool" where
  "wf_parameter p \<longleftrightarrow> is_identifier (param_name p) \<and> is_identifier (param_type p)
     \<and> list_all is_identifier (param_values p) \<and> (is_enum p \<or> param_values p = [])"

definition wf_usage :: "usage \<Rightarrow> bool" where
  "wf_usage u \<longleftrightarrow> is_identifier (command_name u) \<and> list_all wf_parameter (parameters u)"

definition print_parameter :: "parameter \<Rightarrow> string" where
  "print_parameter p =
     (if is_enum p then ''('' @ join ''|'' (param_values p) @ '')'' else [])
     @ (if optional p then ''['' else ''<'') @ param_name p @ '': '' @ param_type p
     @ (if optional p then '']'' else ''>'')"

definition print_usage :: "usage \<Rightarrow> string" where
  "print_usage u = ''/'' @ command_name u @ concat (map (\<lambda>p. '' '' @ print_parameter p) (parameters u))"

text \<open>A text that ends an identifier before it.\<close>

definition stops :: "string \<Rightarrow> bool" where
  "stops s \<longleftrightarrow> s = [] \<or> \<not> isIdentifierCharacter (hd s)"

lemma stops_simps [simp]:
  "stops []" "stops (CHR ''|'' # s)" "stops (CHR '')'' # s)" "stops (CHR '':'' # s)" "stops (CHR '' '' # s)"
  "stops (CHR '']'' # s)" "stops (CHR ''>'' # s)"
  by (simp_all add: stops_def isIdentifierCharacter_def isDigit_def char_between_def)

lemma takeWhile_stop: "list_all P xs \<Longrightarrow> ys = [] \<or> \<not> P (hd ys) \<Longrightarrow> takeWhile P (xs @ ys) = xs"
  by (induction xs) (cases ys, auto)+

lemma dropWhile_stop: "list_all P xs \<Longrightarrow> ys = [] \<or> \<not> P (hd ys) \<Longrightarrow> dropWhile P (xs @ ys) = ys"
  by (induction xs) (cases ys, auto)+

lemma identifier_not_space: "isIdentifierCharacter c \<Longrightarrow> \<not> isSpace c"
  by (auto simp: isIdentifierCharacter_def isSpace_def isDigit_def char_between_def)

lemma lex_identifier:
  assumes "is_identifier n" and "stops s"
  shows "lex (n @ s) = (\<lparr>token_type = Identifier, token_text = n\<rparr>, s)"
proof -
  obtain c cs where n: "n = c # cs" using assms(1) by (auto simp: is_identifier_def neq_Nil_conv)
  have c: "isIdentifierCharacter c" "\<not> isDigit c" "list_all isIdentifierCharacter n"
    using assms(1) by (auto simp: is_identifier_def n)
  have "takeWhile isIdentifierCharacter (n @ s) = n" "dropWhile isIdentifierCharacter (n @ s) = s"
    using c(3) assms(2) takeWhile_stop [of isIdentifierCharacter n s] dropWhile_stop [of isIdentifierCharacter n s]
    by (simp_all add: stops_def)
  then show ?thesis using c identifier_not_space [OF c(1)] by (simp add: lex_def n)
qed

lemma lex_space [simp]: "lex (CHR '' '' # s) = lex s"
  by (simp add: lex_def isSpace_def)

lemma lex_punctuation [simp]:
  "lex (CHR ''('' # s) = (\<lparr>token_type = LeftParen, token_text = ''(''\<rparr>, s)"
  "lex (CHR '')'' # s) = (\<lparr>token_type = RightParen, token_text = '')''\<rparr>, s)"
  "lex (CHR ''['' # s) = (\<lparr>token_type = LeftSquare, token_text = ''[''\<rparr>, s)"
  "lex (CHR '']'' # s) = (\<lparr>token_type = RightSquare, token_text = '']''\<rparr>, s)"
  "lex (CHR ''<'' # s) = (\<lparr>token_type = LessThan, token_text = ''<''\<rparr>, s)"
  "lex (CHR ''>'' # s) = (\<lparr>token_type = GreaterThan, token_text = ''>''\<rparr>, s)"
  "lex (CHR ''|'' # s) = (\<lparr>token_type = Pipe, token_text = ''|''\<rparr>, s)"
  "lex (CHR '':'' # s) = (\<lparr>token_type = Colon, token_text = '':''\<rparr>, s)"
  "lex (CHR ''/'' # s) = (\<lparr>token_type = Slash, token_text = ''/''\<rparr>, s)"
  "lex [] = (end_token, [])"
  by (simp_all add: lex_def isSpace_def isIdentifierCharacter_def isDigit_def char_between_def
      punctuation_type_def punctuation_def)

text \<open>The parsing functions in terms of the remaining text.\<close>

lemma next_token_rest:
  "lex (rest l) = (t, s) \<Longrightarrow> \<exists>l1. next_token l = (t, l1) \<and> rest l1 = s"
  using next_token_lex [of l "fst (next_token l)" "snd (next_token l)"] by (cases "next_token l") auto

lemma peek_rest: "lex (rest l) = (t, s) \<Longrightarrow> peek l = (t, l)"
  using next_token_rest [of l t s] by (auto simp: peek_same)

lemma parseToken_rest:
  "lex (rest l) = (t, s) \<Longrightarrow> token_type t = ty \<Longrightarrow>
    \<exists>l1. parseToken ty what l = Inr (token_text t, l1) \<and> rest l1 = s"
  using next_token_rest [of l t s] by (auto simp: parseToken_def)

lemma parseIdentifier_rest:
  "rest l = n @ s \<Longrightarrow> is_identifier n \<Longrightarrow> stops s \<Longrightarrow>
    \<exists>l1. parseIdentifier what l = Inr (n, l1) \<and> rest l1 = s"
  using parseToken_rest [of l "\<lparr>token_type = Identifier, token_text = n\<rparr>" s Identifier what]
  by (simp add: parseIdentifier_def lex_identifier)

lemma enum_values_rest:
  "rest l = join ''|'' (v # vs) @ '')'' @ s \<Longrightarrow> list_all is_identifier (v # vs) \<Longrightarrow>
    \<exists>l1. enum_values ws l = Inr (ws @ v # vs, l1) \<and> rest l1 = s"
proof (induction vs arbitrary: v ws l)
  case Nil
  then obtain l1 where l1: "parseIdentifier ''enum value'' l = Inr (v, l1)" "rest l1 = '')'' @ s"
    using parseIdentifier_rest [of l v "'')'' @ s"] by auto
  then obtain l2 where "next_token l1 = (\<lparr>token_type = RightParen, token_text = '')''\<rparr>, l2)" "rest l2 = s"
    using next_token_rest [of l1] by auto
  then show ?case by (subst enum_values.simps) (simp add: l1)
next
  case (Cons w vs)
  let ?s = "join ''|'' (w # vs) @ '')'' @ s"
  obtain l1 where l1: "parseIdentifier ''enum value'' l = Inr (v, l1)" "rest l1 = ''|'' @ ?s"
    using Cons.prems parseIdentifier_rest [of l v "''|'' @ ?s"] by auto
  then obtain l2 where l2: "next_token l1 = (\<lparr>token_type = Pipe, token_text = ''|''\<rparr>, l2)" "rest l2 = ?s"
    using next_token_rest [of l1] by auto
  show ?case
    using Cons.IH [OF l2(2), of "ws @ [v]"] Cons.prems by (subst enum_values.simps) (simp add: l1 l2)
qed

text \<open>The bracketed part of a printed parameter.\<close>

lemma parseParameterOrEnum_rest:
  assumes "lex (rest l) = lex ((if opt then ''['' else ''<'') @ n @ '': '' @ ty @ (if opt then '']'' else ''>'') @ s)"
    and "is_identifier n" "is_identifier ty"
  shows "\<exists>l1. parseParameterOrEnum cmd l
      = Inr (Parameter\<lparr>optional := opt, param_name := n, param_type := ty\<rparr>, l1) \<and> rest l1 = s"
proof -
  let ?close = "(if opt then '']'' else ''>'') @ s"
  let ?t = "if opt then \<lparr>token_type = LeftSquare, token_text = ''[''\<rparr> else \<lparr>token_type = LessThan, token_text = ''<''\<rparr>"
  obtain l1 where l1: "next_token l = (?t, l1)" "rest l1 = n @ '': '' @ ty @ ?close"
    using assms(1) next_token_rest [of l ?t] by (cases opt) auto
  obtain l2 where l2: "parseIdentifier ''parameter name' or 'enum value'' l1 = Inr (n, l2)"
      "rest l2 = '': '' @ ty @ ?close"
    using parseIdentifier_rest [OF l1(2)] assms(2) by auto
  have pk: "peek l2 = (\<lparr>token_type = Colon, token_text = '':''\<rparr>, l2)"
    by (rule peek_rest [of _ _ "'' '' @ ty @ ?close"]) (simp add: l2(2))
  obtain l3 where l3: "parseToken Colon '':'' l2 = Inr ('':'', l3)" "rest l3 = '' '' @ ty @ ?close"
    using parseToken_rest [of l2 "\<lparr>token_type = Colon, token_text = '':''\<rparr>" "'' '' @ ty @ ?close"] l2(2) by auto
  have "lex (rest l3) = (\<lparr>token_type = Identifier, token_text = ty\<rparr>, ?close)"
    using assms(3) by (simp add: l3(2) lex_identifier)
  then obtain l4 where l4: "parseIdentifier ''parameter type'' l3 = Inr (ty, l4)" "rest l4 = ?close"
    using parseToken_rest [of l3] by (force simp: parseIdentifier_def)
  have "\<exists>l5. (if opt then parseToken RightSquare '']'' l4 else parseToken GreaterThan ''>'' l4)
      = Inr (if opt then '']'' else ''>'', l5) \<and> rest l5 = s"
    using parseToken_rest [of l4] l4(2) by (cases opt) force+
  then show ?thesis
    using l1(1) by (cases opt) (auto simp: parseParameterOrEnum_def l2(1) parameter_body_def pk l3(1) l4(1))
qed

lemma lex_join:
  "list_all is_identifier (v # vs) \<Longrightarrow>
    \<exists>s1. lex (join ''|'' (v # vs) @ '')'' @ s) = (\<lparr>token_type = Identifier, token_text = v\<rparr>, s1)"
  using lex_identifier [of v "'')'' @ s"] lex_identifier [of v "''|'' @ join ''|'' vs @ '')'' @ s"]
  by (cases vs) auto

lemma parseEnum_rest:
  assumes "rest l = '' '' @ print_parameter p @ s" and "wf_parameter p" and "is_enum p"
  shows "\<exists>l1. parseEnum cmd l = Inr (p, l1) \<and> rest l1 = s"
proof -
  let ?vs = "param_values p"
  let ?b = "(if optional p then ''['' else ''<'') @ param_name p @ '': '' @ param_type p
    @ (if optional p then '']'' else ''>'') @ s"
  have "lex (rest l) = (\<lparr>token_type = LeftParen, token_text = ''(''\<rparr>, join ''|'' ?vs @ '')'' @ ?b)"
    using assms by (simp add: print_parameter_def)
  then obtain l1 where l1: "parseToken LeftParen ''('' l = Inr (''('', l1)" "rest l1 = join ''|'' ?vs @ '')'' @ ?b"
    using parseToken_rest [of l] by force
  have vals: "\<exists>l3 t. peek l1 = (t, l1) \<and> rest l3 = ?b \<and>
      (if token_type t = RightParen
       then (case parseToken RightParen '')'' l1 of Inl e \<Rightarrow> Inl e | Inr (_, l3) \<Rightarrow> Inr ([], l3))
       else if token_type t = Identifier then enum_values [] l1
       else syntax_error '')' or 'enum values'' t l1) = Inr (?vs, l3)"
  proof (cases ?vs)
    case Nil
    then have "lex (rest l1) = (\<lparr>token_type = RightParen, token_text = '')''\<rparr>, ?b)" by (simp add: l1(2))
    from peek_rest [OF this] parseToken_rest [OF this, of RightParen "'')''"] show ?thesis by (auto simp: Nil)
  next
    case (Cons v vs)
    have ids: "list_all is_identifier (v # vs)" using assms(2) by (simp add: wf_parameter_def Cons)
    obtain s1 where "lex (rest l1) = (\<lparr>token_type = Identifier, token_text = v\<rparr>, s1)"
      using lex_join [OF ids, of ?b] l1(2) by (auto simp: Cons)
    from peek_rest [OF this] enum_values_rest [of l1 v vs ?b "[]"] ids l1(2) show ?thesis
      by (auto simp: Cons)
  qed
  then obtain l3 t where l3: "peek l1 = (t, l1)" "rest l3 = ?b"
    "(if token_type t = RightParen
      then (case parseToken RightParen '')'' l1 of Inl e \<Rightarrow> Inl e | Inr (_, l3) \<Rightarrow> Inr ([], l3))
      else if token_type t = Identifier then enum_values [] l1
      else syntax_error '')' or 'enum values'' t l1) = Inr (?vs, l3)"
    by blast
  have "is_identifier (param_name p)" "is_identifier (param_type p)"
    using assms(2) by (simp_all add: wf_parameter_def)
  from parseParameterOrEnum_rest [OF arg_cong [where f = lex, OF l3(2)] this, of cmd] show ?thesis
    using assms(3) by (auto simp: parseEnum_def Let_def l1(1) l3(1) l3(3) Parameter_def)
qed

lemma parse_parameters_rest:
  "rest l = concat (map (\<lambda>p. '' '' @ print_parameter p) ps) \<Longrightarrow> list_all wf_parameter ps \<Longrightarrow>
    \<exists>l1. parse_parameters cmd qs l = Inr (qs @ ps, l1)"
proof (induction ps arbitrary: l qs)
  case Nil
  then have "peek l = (end_token, l)" using peek_rest [of l end_token] by simp
  then show ?case by (subst parse_parameters.simps) (simp add: end_token_def)
next
  case (Cons p ps)
  let ?s = "concat (map (\<lambda>p. '' '' @ print_parameter p) ps)"
  have r: "rest l = '' '' @ print_parameter p @ ?s" using Cons.prems(1) by simp
  have wf: "wf_parameter p" using Cons.prems(2) by simp
  show ?case
  proof (cases "is_enum p")
    case True
    obtain l1 where l1: "parseEnum cmd l = Inr (p, l1)" "rest l1 = ?s"
      using parseEnum_rest [OF r wf True] by auto
    have "peek l = (\<lparr>token_type = LeftParen, token_text = ''(''\<rparr>, l)"
      by (rule peek_rest [of _ _ "tl (print_parameter p @ ?s)"]) (simp add: r print_parameter_def True)
    then show ?thesis
      using Cons.IH [OF l1(2), of "qs @ [p]"] Cons.prems(2) by (subst parse_parameters.simps) (simp add: l1(1))
  next
    case False
    have ids: "is_identifier (param_name p)" "is_identifier (param_type p)"
      using wf by (simp_all add: wf_parameter_def)
    let ?t = "if optional p then \<lparr>token_type = LeftSquare, token_text = ''[''\<rparr>
      else \<lparr>token_type = LessThan, token_text = ''<''\<rparr>"
    have lex: "lex (rest l) = (?t, tl (print_parameter p @ ?s))"
      by (cases "optional p") (simp_all add: r print_parameter_def False)
    obtain l1 where l1: "parseParameterOrEnum cmd l
        = Inr (Parameter\<lparr>optional := optional p, param_name := param_name p, param_type := param_type p\<rparr>, l1)"
      "rest l1 = ?s"
      using parseParameterOrEnum_rest [of l "optional p" "param_name p" "param_type p" ?s cmd] ids
      by (auto simp: r print_parameter_def False)
    have "Parameter\<lparr>optional := optional p, param_name := param_name p, param_type := param_type p\<rparr> = p"
      using False wf by (simp add: Parameter_def wf_parameter_def)
    then show ?thesis
      using Cons.IH [OF l1(2), of "qs @ [p]"] Cons.prems(2) peek_rest [OF lex] l1(1)
      by (subst parse_parameters.simps) (cases "optional p"; simp)
  qed
qed

subsection \<open>Accepted usages are well-formed\<close>

lemma toupper_identifier: "isIdentifierCharacter c \<Longrightarrow> isIdentifierCharacter (toupper c)"
  by (auto simp: isIdentifierCharacter_def isDigit_def char_between_def toupper_def Let_def
      of_char_of [where ?'a = nat])

lemma toupper_not_digit: "isIdentifierCharacter c \<Longrightarrow> \<not> isDigit c \<Longrightarrow> \<not> isDigit (toupper c)"
  by (auto simp: isIdentifierCharacter_def isDigit_def char_between_def toupper_def Let_def
      of_char_of [where ?'a = nat])

lemma capitalize_identifier [simp]: "is_identifier s \<Longrightarrow> is_identifier (capitalize s)"
  by (cases s) (auto simp: is_identifier_def toupper_identifier toupper_not_digit)

lemma append_identifier: "is_identifier s \<Longrightarrow> list_all isIdentifierCharacter t \<Longrightarrow> is_identifier (s @ t)"
  by (auto simp: is_identifier_def hd_append)

lemma identifier_chars: "is_identifier s \<Longrightarrow> list_all isIdentifierCharacter s"
  by (simp add: is_identifier_def)

lemma concat_identifiers: "list_all is_identifier vs \<Longrightarrow> list_all isIdentifierCharacter (concat (map capitalize vs))"
  by (induction vs) (auto simp: identifier_chars)

lemma join_identifiers: "vs \<noteq> [] \<Longrightarrow> list_all is_identifier vs \<Longrightarrow> is_identifier (join ''_'' vs)"
proof (induction vs)
  case (Cons v vs)
  show ?case
  proof (cases vs)
    case ws: (Cons w ws)
    then have "list_all isIdentifierCharacter (''_'' @ join ''_'' vs)"
      using Cons.IH Cons.prems by (simp add: is_identifier_def isIdentifierCharacter_def)
    then show ?thesis using Cons.prems by (simp add: ws append_identifier)
  qed (use Cons.prems in simp)
qed simp

lemma generateNameAndType_wf:
  "is_identifier cmd \<Longrightarrow> param_values p \<noteq> [] \<Longrightarrow> list_all is_identifier (param_values p) \<Longrightarrow> is_enum p \<Longrightarrow>
    wf_parameter (generateNameAndType cmd p)"
  by (simp add: generateNameAndType_def wf_parameter_def join_identifiers append_identifier concat_identifiers)

lemma lex_is_identifier: "lex s = (t, s1) \<Longrightarrow> token_type t = Identifier \<Longrightarrow> is_identifier (token_text t)"
  by (auto simp: lex_def end_token_def is_identifier_def list_all_iff punctuation_type_def punctuation_def
      dest: set_takeWhileD split: list.splits if_splits)

lemma parseIdentifier_wf: "parseIdentifier what l = Inr (v, l1) \<Longrightarrow> is_identifier v"
  by (auto simp: parseIdentifier_def parseToken_def syntax_error_def
      dest: next_token_lex lex_is_identifier split: prod.splits if_splits)

lemma pipe_values_wf:
  "pipe_values vs l = Inr (ws, l1) \<Longrightarrow> list_all is_identifier vs \<Longrightarrow> ws \<noteq> [] \<and> list_all is_identifier ws"
proof (induction vs l rule: pipe_values.induct)
  case (1 vs l)
  from 1(2) obtain v l2 where v: "parseIdentifier ''enum value'' l = Inr (v, l2)"
    by (subst (asm) pipe_values.simps) (auto split: sum.splits)
  note ih = 1(1) [OF v refl, unfolded peek_same fst_conv snd_conv, OF _ _ refl]
  from 1(2,3) parseIdentifier_wf [OF v] show ?case
    by (subst (asm) pipe_values.simps) (fastforce simp: v peek_same split: sum.splits if_splits dest: ih)
qed

lemma enum_values_wf: "enum_values vs l = Inr (ws, l1) \<Longrightarrow> list_all is_identifier vs \<Longrightarrow> list_all is_identifier ws"
proof (induction vs l rule: enum_values.induct)
  case (1 vs l)
  from 1(2) obtain v l2 where v: "parseIdentifier ''enum value'' l = Inr (v, l2)"
    by (subst (asm) enum_values.simps) (auto split: sum.splits)
  obtain t l3 where t: "next_token l2 = (t, l3)" by (cases "next_token l2")
  have "token_type t = Pipe \<and> enum_values (vs @ [v]) l3 = Inr (ws, l1) \<or> ws = vs @ [v]"
    using 1(2) by (subst (asm) enum_values.simps) (simp add: v t syntax_error_def split: if_splits)
  then show ?case
    using parseIdentifier_wf [OF v] 1(1) [OF v refl t [symmetric] refl] 1(3) by auto
qed

lemma parseSingleUnnamedEnum_wf:
  "parseSingleUnnamedEnum cmd l = Inr (p, l1) \<Longrightarrow> is_identifier cmd \<Longrightarrow> wf_parameter p"
  by (auto simp: parseSingleUnnamedEnum_def split: sum.splits dest!: parseIdentifier_wf
      intro!: generateNameAndType_wf)

lemma parameter_body_wf:
  "parameter_body cmd p n l = Inr (q, l1) \<Longrightarrow> is_identifier cmd \<Longrightarrow> is_identifier n \<Longrightarrow>
    param_values p = [] \<Longrightarrow> wf_parameter q"
  by (auto simp: parameter_body_def peek_same syntax_error_def wf_parameter_def [of "param_type_update _ _"]
      split: sum.splits if_splits dest!: parseIdentifier_wf pipe_values_wf intro!: generateNameAndType_wf)

lemma parseParameterOrEnum_wf:
  "parseParameterOrEnum cmd l = Inr (p, l1) \<Longrightarrow> is_identifier cmd \<Longrightarrow> wf_parameter p"
  by (auto simp: parseParameterOrEnum_def syntax_error_def Parameter_def split: sum.splits if_splits prod.splits
      dest!: parseIdentifier_wf parameter_body_wf)

lemma parseEnum_wf: "parseEnum cmd l = Inr (p, l1) \<Longrightarrow> is_identifier cmd \<Longrightarrow> wf_parameter p"
  by (auto simp: parseEnum_def Let_def syntax_error_def wf_parameter_def split: sum.splits if_splits prod.splits
      dest!: enum_values_wf parseParameterOrEnum_wf)

lemma parse_parameters_wf:
  "parse_parameters cmd ps l = Inr (qs, l1) \<Longrightarrow> is_identifier cmd \<Longrightarrow> list_all wf_parameter ps \<Longrightarrow>
    list_all wf_parameter qs"
proof (induction cmd ps l rule: parse_parameters.induct)
  case (1 cmd ps l)
  obtain t l2 where pk: "peek l = (t, l2)" by (cases "peek l")
  note ih = 1(1-3) [OF pk [symmetric] refl]
  from 1(4) have "qs = ps \<or>
      (\<exists>p l3. token_type t = Identifier \<and> parseSingleUnnamedEnum cmd l2 = Inr (p, l3)
        \<and> parse_parameters cmd (ps @ [p]) l3 = Inr (qs, l1)) \<or>
      (\<exists>p l3. token_type t = LeftParen \<and> parseEnum cmd l2 = Inr (p, l3)
        \<and> parse_parameters cmd (ps @ [p]) l3 = Inr (qs, l1)) \<or>
      (\<exists>p l3. (token_type t = LeftSquare \<or> token_type t = LessThan) \<and> parseParameterOrEnum cmd l2 = Inr (p, l3)
        \<and> parse_parameters cmd (ps @ [p]) l3 = Inr (qs, l1))"
    by (subst (asm) parse_parameters.simps)
      (auto simp: pk syntax_error_def split: if_splits sum.splits)
  then consider "qs = ps"
    | p l3 where "token_type t = Identifier" "parseSingleUnnamedEnum cmd l2 = Inr (p, l3)"
        "parse_parameters cmd (ps @ [p]) l3 = Inr (qs, l1)"
    | p l3 where "token_type t = LeftParen" "parseEnum cmd l2 = Inr (p, l3)"
        "parse_parameters cmd (ps @ [p]) l3 = Inr (qs, l1)"
    | p l3 where "token_type t = LeftSquare \<or> token_type t = LessThan" "parseParameterOrEnum cmd l2 = Inr (p, l3)"
        "parse_parameters cmd (ps @ [p]) l3 = Inr (qs, l1)"
    by blast
  then show ?case
  proof cases
    case 1 then show ?thesis using "1.prems" by simp
  next
    case 2 then show ?thesis using ih(1) [OF 2(1,2) refl 2(3)] parseSingleUnnamedEnum_wf [OF 2(2)] "1.prems" by simp
  next
    case 3 then show ?thesis using ih(2) [OF _ 3(1,2) refl 3(3)] parseEnum_wf [OF 3(2)] "1.prems" by simp
  next
    case 4
    then have "token_type t \<noteq> Identifier" "token_type t \<noteq> LeftParen" by auto
    with ih(3) [OF _ _ 4(1,2) refl 4(3)] parseParameterOrEnum_wf [OF 4(2)] "1.prems" show ?thesis by simp
  qed
qed

lemma parse_print:
  assumes "wf_usage u"
  shows "parse (print_usage u) = Inr u"
proof -
  let ?ps = "concat (map (\<lambda>p. '' '' @ print_parameter p) (parameters u))"
  let ?l = "reset_lexer (CommandLexer (print_usage u))"
  have r: "rest ?l = ''/'' @ command_name u @ ?ps"
    by (simp add: rest_def reset_lexer_def CommandLexer_def print_usage_def)
  have st: "stops ?ps" by (cases "parameters u") simp_all
  obtain l1 where l1: "parseToken Slash ''/'' ?l = Inr (''/'', l1)" "rest l1 = command_name u @ ?ps"
    using parseToken_rest [of ?l "\<lparr>token_type = Slash, token_text = ''/''\<rparr>" "command_name u @ ?ps" Slash] r by auto
  obtain l2 where l2: "parseIdentifier ''command name'' l1 = Inr (command_name u, l2)" "rest l2 = ?ps"
    using parseIdentifier_rest [OF l1(2) _ st] assms by (auto simp: wf_usage_def)
  obtain l3 where "parse_parameters (command_name u) [] l2 = Inr (parameters u, l3)"
    using parse_parameters_rest [OF l2(2), of "command_name u" "[]"] assms by (auto simp: wf_usage_def)
  then show ?thesis by (simp add: parse_def l1(1) l2(1))
qed

lemma parse_wf_usage: "parse s = Inr u \<Longrightarrow> wf_usage u"
  by (auto simp: parse_def Let_def wf_usage_def split: sum.splits
      dest!: parseIdentifier_wf parse_parameters_wf)

subsection \<open>Properties\<close>

text \<open>C15: parsing is the inverse of printing: a usage whose command, parameter and type names and enumeration
  values are identifiers, printed as \<open>/command (v|w)<name: type> [name: type] ...\<close>, is parsed back to exactly
  its command and parameters.\<close>

theorem usage_roundtrip: "wf_usage u \<Longrightarrow> parse (print_usage u) = Inr u"
  by (rule parse_print)

text \<open>C16: whatever text is parsed, an accepted usage has identifiers only as its names, types (those generated
  for unnamed enumerations too) and values, values only on enumerations, and its canonical form is accepted with
  the same result.\<close>

theorem usage_accepted_wf: "parse s = Inr u \<Longrightarrow> wf_usage u \<and> parse (print_usage u) = Inr u"
  by (simp add: parse_wf_usage parse_print)

subsection \<open>Witnesses\<close>

definition give_usage :: usage where
  "give_usage = \<lparr>command_name = ''give'', parameters =
     [\<lparr>param_name = ''who'', param_type = ''player'', optional = False, is_enum = False, param_values = []\<rparr>,
      \<lparr>param_name = ''kind'', param_type = ''Kind'', optional = True, is_enum = True, param_values = [''a'', ''b'']\<rparr>]\<rparr>"

lemma give_usage_wf: "wf_usage give_usage"
  by code_simp

lemma give_usage_text: "print_usage give_usage = ''/give <who: player> (a|b)[kind: Kind]''"
  by code_simp

theorem usage_roundtrip_witness: "parse ''/give <who: player> (a|b)[kind: Kind]'' = Inr give_usage"
  using usage_roundtrip [OF give_usage_wf] by (simp only: give_usage_text)

lemma give_usage_parsed: "parse ''/give <who: player> (a|b)[kind: Kind]'' = Inr give_usage"
  using parse_print [OF give_usage_wf] by (simp only: give_usage_text)

theorem usage_accepted_wf_witness:
  "wf_usage give_usage \<and> parse (print_usage give_usage) = Inr give_usage"
  by (rule usage_accepted_wf [OF give_usage_parsed])

end
