(* ===== verification/Command_Map.thy ===== *)
theory Command_Map
  imports Command_Usage
begin

text \<open>
  Commands (\<open>include/endstone/command/command.h\<close>) and the command map
  (\<open>src/endstone/core/command/command_map.cpp\<close>) on top of the game's command registry. The registry's
  tables, \<open>findCommand\<close> and \<open>registerOverload\<close> are in the repository
  (\<open>src/bedrock/server/commands/command_registry.h\<close> and \<open>.cpp\<close>) and modelled; \<open>registerCommand\<close>,
  \<open>registerAlias\<close>, \<open>addEnumValues\<close> and \<open>registerOverloadInternal\<close> are code of the game binary and
  parameters (record \<open>game\<close>), with what the map relies on in \<open>game_laws\<close>.
\<close>

subsection \<open>Commands\<close>

record command =
  cmd_name :: string
  cmd_description :: string
  cmd_aliases :: "string list"
  cmd_usages :: "string list"
  cmd_permissions :: "string list"
  registered :: bool

text \<open>The server has one command map; \<open>command_map_\<close> is null or points to it.\<close>

definition setName :: "string \<Rightarrow> command \<Rightarrow> command" where
  "setName n c = (if registered c then c else c\<lparr>cmd_name := lower n\<rparr>)"

definition setDescription :: "string \<Rightarrow> command \<Rightarrow> command" where
  "setDescription d c = (if registered c then c else c\<lparr>cmd_description := d\<rparr>)"

definition setAliases :: "string list \<Rightarrow> command \<Rightarrow> command" where
  "setAliases as c = (if registered c then c else c\<lparr>cmd_aliases := map lower as\<rparr>)"

definition setUsages :: "string list \<Rightarrow> command \<Rightarrow> command" where
  "setUsages us c =
     (if registered c then c
      else c\<lparr>cmd_usages := (if us = [] then [CHR ''/'' # cmd_name c] else us)\<rparr>)"

definition setPermissions :: "string list \<Rightarrow> command \<Rightarrow> command" where
  "setPermissions ps c = c\<lparr>cmd_permissions := ps\<rparr>"

definition Command :: "string \<Rightarrow> string \<Rightarrow> string list \<Rightarrow> string list \<Rightarrow> string list \<Rightarrow> command" where
  "Command n d us as ps =
     setPermissions ps (setAliases as (setUsages us (setDescription d (setName n
       \<lparr>cmd_name = [], cmd_description = [], cmd_aliases = [], cmd_usages = [], cmd_permissions = [],
        registered = False\<rparr>))))"

text \<open>\<open>allowChangesFrom\<close> always holds with a single map.\<close>

definition registerTo :: "command \<Rightarrow> command" where
  "registerTo c = c\<lparr>registered := True\<rparr>"

definition unregisterFrom :: "command \<Rightarrow> command" where
  "unregisterFrom c = c\<lparr>registered := False\<rparr>"

definition testPermissionSilently :: "(string \<Rightarrow> bool) \<Rightarrow> command \<Rightarrow> bool" where
  "testPermissionSilently has c \<longleftrightarrow> cmd_permissions c = [] \<or> list_ex has (cmd_permissions c)"

subsection \<open>The registry of the game\<close>

text \<open>A symbol is a 32-bit integer with a tag bit.\<close>

definition fromEnumValueIndex :: "nat \<Rightarrow> 32 word" where
  "fromEnumValueIndex i = word_of_nat i OR 0x2000000"

definition fromEnumIndex :: "nat \<Rightarrow> 32 word" where
  "fromEnumIndex i = word_of_nat i OR 0x200000 OR 0x100000"

datatype param_kind = Basic | Enum | SoftEnum | Postfix | ChainedSubcommand

record param_data =
  pd_name :: string
  pd_kind :: param_kind
  enum_name_or_postfix :: "string option"
  enum_symbol :: "32 word"
  pd_symbol :: "32 word"
  pd_optional :: bool

record signature =
  sig_name :: string
  overloads :: "param_data list list"

text \<open>The values of an enumeration are pairs of a symbol and a constraint index.\<close>

record registry =
  signatures :: "(string \<times> signature) list"
  aliases :: "(string \<times> string) list"
  enum_lookup :: "(string \<times> nat) list"
  enum_value_lookup :: "(string \<times> nat) list"
  enums :: "(32 word \<times> 32 word) list list"

datatype map_error = Out_Of_Range | Unreachable

text \<open>\<open>std::map::at\<close> and \<open>std::vector::at\<close> throw.\<close>

definition at :: "('a \<times> 'b) list \<Rightarrow> 'a \<Rightarrow> map_error + 'b" where
  "at m k = (case map_of m k of None \<Rightarrow> Inl Out_Of_Range | Some v \<Rightarrow> Inr v)"

definition vector_at :: "'a list \<Rightarrow> nat \<Rightarrow> map_error + 'a" where
  "vector_at xs i = (if i < length xs then Inr (xs ! i) else Inl Out_Of_Range)"

definition findCommand :: "registry \<Rightarrow> string \<Rightarrow> map_error + signature option" where
  "findCommand r n =
     (case map_of (signatures r) n of
        Some s \<Rightarrow> Inr (Some s)
      | None \<Rightarrow> (case map_of (aliases r) n of
          Some t \<Rightarrow> chain (at (signatures r) t) (\<lambda>s. Inr (Some s))
        | None \<Rightarrow> Inr None))"

record game =
  g_registerCommand :: "string \<Rightarrow> string \<Rightarrow> registry \<Rightarrow> registry"
  g_registerAlias :: "string \<Rightarrow> string \<Rightarrow> registry \<Rightarrow> registry"
  g_addEnumValues :: "string \<Rightarrow> string list \<Rightarrow> registry \<Rightarrow> 32 word \<times> registry"
  g_registerOverloadInternal :: "string \<Rightarrow> param_data list \<Rightarrow> registry \<Rightarrow> registry"

text \<open>The overload goes to the signature found under the name, which is then given to the game.\<close>

definition registerOverload :: "game \<Rightarrow> string \<Rightarrow> param_data list \<Rightarrow> registry \<Rightarrow> map_error + registry" where
  "registerOverload g n ps r =
     chain (findCommand r n)
       (\<lambda>f. case f of
          None \<Rightarrow> Inr r
        | Some _ \<Rightarrow>
            (let k = (case map_of (signatures r) n of Some _ \<Rightarrow> n | None \<Rightarrow> the (map_of (aliases r) n))
             in Inr (g_registerOverloadInternal g k ps
                  (r\<lparr>signatures := AList.map_entry k (\<lambda>s. s\<lparr>overloads := overloads s @ [ps]\<rparr>) (signatures r)\<rparr>))))"

subsection \<open>Enumerations\<close>

definition clearEnumValues :: "string \<Rightarrow> registry \<Rightarrow> map_error + registry" where
  "clearEnumValues e r =
     (case map_of (enum_lookup r) e of
        None \<Rightarrow> Inr r
      | Some i \<Rightarrow> chain (vector_at (enums r) i) (\<lambda>_. Inr (r\<lparr>enums := (enums r)[i := []]\<rparr>)))"

definition removeEnumValueFromExisting :: "string \<Rightarrow> string \<Rightarrow> registry \<Rightarrow> map_error + registry" where
  "removeEnumValueFromExisting e v r =
     (case (map_of (enum_lookup r) e, map_of (enum_value_lookup r) v) of
        (Some i, Some j) \<Rightarrow>
          chain (vector_at (enums r) i)
            (\<lambda>vals. Inr (r\<lparr>enums := (enums r)[i := filter (\<lambda>p. fst p \<noteq> fromEnumValueIndex j) vals]\<rparr>))
      | _ \<Rightarrow> Inr r)"

text \<open>The name an enumeration gets: the given one, or the first of \<open>name_1\<close>, \<open>name_2\<close>, ... that is unused or
  names an empty enumeration. The loop ends because the table of enumerations is finite.\<close>

definition enum_candidate :: "string \<Rightarrow> nat \<Rightarrow> string" where
  "enum_candidate n i = (if i = 0 then n else n @ ''_'' @ decimal i)"

lemma enum_candidate_inject: "enum_candidate n i = enum_candidate n j \<Longrightarrow> i = j"
  by (auto simp: enum_candidate_def decimal_inject split: if_splits)

definition taken_from :: "registry \<Rightarrow> string \<Rightarrow> nat \<Rightarrow> nat set" where
  "taken_from r n i = {j. i \<le> j \<and> map_of (enum_lookup r) (enum_candidate n j) \<noteq> None}"

lemma finite_taken_from: "finite (taken_from r n i)"
proof (rule finite_imageD)
  have "enum_candidate n ` taken_from r n i \<subseteq> dom (map_of (enum_lookup r))"
    by (auto simp: taken_from_def)
  then show "finite (enum_candidate n ` taken_from r n i)" by (rule finite_subset) (rule finite_dom_map_of)
  show "inj_on (enum_candidate n) (taken_from r n i)"
    by (auto intro: inj_onI enum_candidate_inject)
qed

function enum_name_final :: "registry \<Rightarrow> string \<Rightarrow> nat \<Rightarrow> map_error + string" where
  "enum_name_final r n i =
     (case map_of (enum_lookup r) (enum_candidate n i) of
        None \<Rightarrow> Inr (enum_candidate n i)
      | Some k \<Rightarrow>
          if \<not> k < length (enums r) then Inl Out_Of_Range
          else if enums r ! k = [] then Inr (enum_candidate n i)
          else enum_name_final r n (Suc i))"
  by pat_completeness auto
termination
proof (relation "measure (\<lambda>(r, n, i). card (taken_from r n i))", simp, clarsimp)
  fix r :: registry and n i k
  assume "map_of (enum_lookup r) (enum_candidate n i) = Some k"
  then have "taken_from r n (Suc i) \<subset> taken_from r n i"
    by (auto simp: taken_from_def Suc_le_eq)
  then show "card (taken_from r n (Suc i)) < card (taken_from r n i)"
    by (rule psubset_card_mono [OF finite_taken_from])
qed

declare enum_name_final.simps [simp del]

subsection \<open>The command map\<close>

text \<open>
  A command object is its number in \<open>commands\<close>; \<open>custom_commands\<close> maps names and aliases to objects, in no
  particular order. \<open>static_index\<close> holds the function-local statics of \<open>registerCommand\<close>: the indices of the
  built-in enumerations, looked up on first use.
\<close>

record command_map =
  game_registry :: registry
  custom_commands :: "(string \<times> nat) list"
  commands :: "nat \<Rightarrow> command"
  next_command :: nat
  static_index :: "string \<Rightarrow> nat option"

text \<open>A vanilla command is a wrapper of its signature, made anew by every lookup.\<close>

datatype command_ref = Custom nat | Vanilla string

definition getCommand :: "command_map \<Rightarrow> string \<Rightarrow> map_error + command_ref option" where
  "getCommand m name =
     (let n = lower name
      in case map_of (custom_commands m) n of
           Some c \<Rightarrow> Inr (Some (Custom c))
         | None \<Rightarrow> chain (findCommand (game_registry m) n)
             (\<lambda>f. Inr (case f of Some s \<Rightarrow> Some (Vanilla (sig_name s)) | None \<Rightarrow> None)))"

definition TYPE_SYMBOLS :: "(string \<times> 32 word) list" where
  "TYPE_SYMBOLS =
     [(''int'', 0x100001), (''float'', 0x100003), (''actor'', 0x100008), (''entity'', 0x100008),
      (''player'', 0x100008), (''target'', 0x100008), (''string'', 0x100038), (''str'', 0x100038),
      (''block_pos'', 0x100040), (''vec3i'', 0x100040), (''pos'', 0x100041), (''vec3'', 0x100041),
      (''vec3f'', 0x100041), (''message'', 0x100044), (''json'', 0x10004a), (''block_states'', 0x100054)]"

definition static_enum :: "string \<Rightarrow> command_map \<Rightarrow> map_error + nat \<times> command_map" where
  "static_enum e m =
     (case static_index m e of
        Some i \<Rightarrow> Inr (i, m)
      | None \<Rightarrow> chain (at (enum_lookup (game_registry m)) e)
          (\<lambda>i. Inr (i, m\<lparr>static_index := (static_index m)(e \<mapsto> i)\<rparr>)))"

definition parameter_data :: "parameter \<Rightarrow> param_data" where
  "parameter_data p = \<lparr>pd_name = param_name p, pd_kind = Basic, enum_name_or_postfix = None,
     enum_symbol = -1, pd_symbol = -1, pd_optional = optional p\<rparr>"

definition builtin_enum :: "string \<Rightarrow> parameter \<Rightarrow> command_map \<Rightarrow> map_error + param_data option \<times> command_map" where
  "builtin_enum e p m =
     chain (static_enum e m)
       (\<lambda>(i, m1). Inr (Some ((parameter_data p)\<lparr>pd_kind := Enum, enum_name_or_postfix := Some e,
          enum_symbol := fromEnumIndex i\<rparr>), m1))"

text \<open>One round of the parameter loop; \<open>None\<close> when the usage is refused. \<open>is_last\<close> is the test against
  \<open>parameters.back()\<close>.\<close>

definition add_parameter ::
  "game \<Rightarrow> bool \<Rightarrow> parameter \<Rightarrow> command_map \<Rightarrow> map_error + param_data option \<times> command_map" where
  "add_parameter g is_last p m =
     (if is_enum p
      then chain (enum_name_final (game_registry m) (param_type p) 0)
        (\<lambda>n. let (sym, r1) = g_addEnumValues g n (param_values p) (game_registry m)
             in if map_of (enum_lookup r1) n = None then Inl Unreachable
                else Inr (Some ((parameter_data p)\<lparr>pd_kind := Enum, enum_name_or_postfix := Some n,
                       enum_symbol := sym\<rparr>), m\<lparr>game_registry := r1\<rparr>))
      else if param_type p = ''bool'' then builtin_enum ''Boolean'' p m
      else if param_type p = ''block'' then builtin_enum ''Block'' p m
      else if param_type p = ''entity_type'' then builtin_enum ''EntityType'' p m
      else if param_type p = ''message'' \<and> \<not> is_last then Inr (None, m)
      else (case map_of TYPE_SYMBOLS (param_type p) of
              None \<Rightarrow> Inr (None, m)
            | Some s \<Rightarrow> Inr (Some ((parameter_data p)\<lparr>pd_symbol := s\<rparr>), m)))"

fun add_parameters ::
  "game \<Rightarrow> parameter list \<Rightarrow> param_data list \<Rightarrow> command_map \<Rightarrow> map_error + param_data list option \<times> command_map" where
  "add_parameters g [] ds m = Inr (Some ds, m)"
| "add_parameters g (p # ps) ds m =
     chain (add_parameter g (ps = []) p m)
       (\<lambda>(d, m1). case d of None \<Rightarrow> Inr (None, m1) | Some d \<Rightarrow> add_parameters g ps (ds @ [d]) m1)"

text \<open>The loop over the usages: what does not parse or is refused is skipped.\<close>

fun add_usages ::
  "game \<Rightarrow> string list \<Rightarrow> param_data list list \<Rightarrow> command_map \<Rightarrow> map_error + param_data list list \<times> command_map" where
  "add_usages g [] pending m = Inr (pending, m)"
| "add_usages g (u # us) pending m =
     (case parse u of
        Inl _ \<Rightarrow> add_usages g us pending m
      | Inr q \<Rightarrow> chain (add_parameters g (parameters q) [] m)
          (\<lambda>(ds, m1). add_usages g us (case ds of Some ds \<Rightarrow> pending @ [ds] | None \<Rightarrow> pending) m1))"

fun free_aliases :: "command_map \<Rightarrow> string list \<Rightarrow> map_error + string list" where
  "free_aliases m [] = Inr []"
| "free_aliases m (a # as) =
     chain (getCommand m a)
       (\<lambda>f. chain (free_aliases m as) (\<lambda>bs. Inr (if f = None then a # bs else bs)))"

text \<open>\<open>emplace\<close> keeps an existing entry.\<close>

definition emplace :: "'a \<Rightarrow> 'b \<Rightarrow> ('a \<times> 'b) list \<Rightarrow> ('a \<times> 'b) list" where
  "emplace k v m = (case map_of m k of Some _ \<Rightarrow> m | None \<Rightarrow> m @ [(k, v)])"

definition add_alias :: "game \<Rightarrow> string \<Rightarrow> nat \<Rightarrow> string \<Rightarrow> command_map \<Rightarrow> command_map" where
  "add_alias g n c a m =
     m\<lparr>game_registry := g_registerAlias g n a (game_registry m),
       custom_commands := emplace a c (custom_commands m)\<rparr>"

definition add_overload :: "game \<Rightarrow> string \<Rightarrow> param_data list \<Rightarrow> command_map \<Rightarrow> map_error + command_map" where
  "add_overload g n ds m =
     chain (registerOverload g n ds (game_registry m)) (\<lambda>r. Inr (m\<lparr>game_registry := r\<rparr>))"

text \<open>The actual registration, once the aliases and the usages are known.\<close>

definition commit ::
  "game \<Rightarrow> nat \<Rightarrow> string list \<Rightarrow> param_data list list \<Rightarrow> command_map \<Rightarrow> map_error + bool \<times> command_map" where
  "commit g c as pending m =
     (let n = cmd_name (commands m c);
          m1 = m\<lparr>game_registry := g_registerCommand g n (cmd_description (commands m c)) (game_registry m),
                 custom_commands := emplace n c (custom_commands m)\<rparr>;
          m2 = fold (add_alias g n c) as m1
      in chain (fold_chain (add_overload g n) pending m2)
        (\<lambda>m3. Inr (True, m3\<lparr>commands := (commands m3)(c := registerTo (setAliases as (commands m3 c)))\<rparr>)))"

text \<open>A command object that has been made and is not registered yet is registered under its name.\<close>

definition registerCommand :: "game \<Rightarrow> nat \<Rightarrow> command_map \<Rightarrow> map_error + bool \<times> command_map" where
  "registerCommand g c m =
     (let cmd = commands m c; n = cmd_name cmd
      in chain (getCommand m n)
        (\<lambda>f. if f \<noteq> None then Inr (False, m)
          else chain (free_aliases m (cmd_aliases cmd))
            (\<lambda>as. let us = (if cmd_usages cmd = [] then [CHR ''/'' # n] else cmd_usages cmd)
                  in chain (add_usages g us [] m)
                    (\<lambda>(pending, m1). if pending = [] then Inr (False, m1) else commit g c as pending m1))))"

text \<open>\<open>registerCommand(std::make_unique<C>(...))\<close>: a new object.\<close>

definition register_new :: "game \<Rightarrow> command \<Rightarrow> command_map \<Rightarrow> map_error + command_map" where
  "register_new g cmd m =
     (let c = next_command m
      in chain (registerCommand g c (m\<lparr>commands := (commands m)(c := cmd), next_command := Suc c\<rparr>))
        (\<lambda>(_, m1). Inr m1))"

definition BanCommand :: command where
  "BanCommand = Command ''ban'' ''commands.ban.description''
     [''/ban <name: str> [reason: message]'', ''/ban <name: player> [reason: message]''] [] [''endstone.command.ban'']"

definition BanIpCommand :: command where
  "BanIpCommand = Command ''ban-ip'' ''commands.banip.description''
     [''/ban-ip <address: str> [reason: message]'', ''/ban-ip <name: player> [reason: message]''] []
     [''endstone.command.banip'']"

definition BanListCommand :: command where
  "BanListCommand = Command ''banlist'' ''Lists the banned players or IP addresses.''
     [''/banlist (ips|players)[type: BanListType]''] [] [''endstone.command.banlist'']"

definition PardonCommand :: command where
  "PardonCommand = Command ''pardon'' ''Remove players from banlist.''
     [''/pardon <name: str>''] [''unban''] [''endstone.command.unban'']"

definition PardonIpCommand :: command where
  "PardonIpCommand = Command ''pardon-ip'' ''Remove IP addresses from banlist.''
     [''/pardon-ip <address: str>''] [''unban-ip''] [''endstone.command.unbanip'']"

definition PluginsCommand :: command where
  "PluginsCommand = Command ''plugins'' ''Gets a list of plugins running on the server''
     [''/plugins''] [] [''endstone.command.plugins'']"

definition ReloadCommand :: command where
  "ReloadCommand = Command ''reload'' ''Reloads the server configuration, functions, scripts and plugins.''
     [''/reload''] [''rl''] [''endstone.command.reload'']"

definition SeedCommand :: command where
  "SeedCommand = Command ''seed'' ''Outputs the world seed.'' [''/seed''] [] [''endstone.command.seed'']"

definition StatusCommand :: command where
  "StatusCommand = Command ''status'' ''Gets the status of the server.'' [''/status''] [] [''endstone.command.status'']"

definition VersionCommand :: command where
  "VersionCommand = Command ''version'' ''Gets the version of this server including any plugins in use.''
     [''/version'', ''/version ()[plugin: PluginName]''] [''ver'', ''about''] [''endstone.command.version'']"

definition default_commands :: "command list" where
  "default_commands = [BanCommand, BanIpCommand, BanListCommand, PardonCommand, PardonIpCommand,
     PluginsCommand, ReloadCommand, SeedCommand, StatusCommand, VersionCommand]"

definition setDefaultCommands :: "game \<Rightarrow> command_map \<Rightarrow> map_error + command_map" where
  "setDefaultCommands g m = fold_chain (register_new g) default_commands m"

text \<open>A plugin is its name and the commands of its description.\<close>

definition setPluginCommands :: "game \<Rightarrow> (string \<times> command list) list \<Rightarrow> command_map \<Rightarrow> map_error + command_map" where
  "setPluginCommands g ps m =
     chain (fold_chain (register_new g) (concat (map snd ps)) m)
       (\<lambda>m1. chain (clearEnumValues ''PluginName'' (game_registry m1))
         (\<lambda>r. Inr (m1\<lparr>game_registry := snd (g_addEnumValues g ''PluginName'' (map (\<lambda>p. lower (fst p)) ps) r)\<rparr>)))"

subsection \<open>Unregistering\<close>

definition clears :: "param_data \<Rightarrow> bool" where
  "clears d \<longleftrightarrow> pd_kind d = Enum \<and> (case enum_name_or_postfix d of
     None \<Rightarrow> False | Some e \<Rightarrow> e \<noteq> ''Boolean'' \<and> e \<noteq> ''Block'')"

definition clear_parameter :: "param_data \<Rightarrow> registry \<Rightarrow> map_error + registry" where
  "clear_parameter d r = (if clears d then clearEnumValues (the (enum_name_or_postfix d)) r else Inr r)"

definition remove_alias :: "string \<Rightarrow> string \<times> string \<Rightarrow> registry \<Rightarrow> map_error + registry" where
  "remove_alias n a r =
     (if snd a = n
      then chain (removeEnumValueFromExisting ''CommandName'' (fst a) r)
        (\<lambda>r1. chain (removeEnumValueFromExisting ''CommandAliases'' (fst a) r1)
          (\<lambda>r2. Inr (r2\<lparr>aliases := filter (\<lambda>e. fst e \<noteq> fst a) (aliases r2)\<rparr>)))
      else Inr r)"

definition unregister_registry :: "bool \<Rightarrow> string \<Rightarrow> registry \<Rightarrow> map_error + registry" where
  "unregister_registry custom n r =
     chain (findCommand r n)
       (\<lambda>f. case f of
          None \<Rightarrow> Inr r
        | Some s \<Rightarrow>
            chain (if custom then fold_chain clear_parameter (concat (overloads s)) r else Inr r)
              (\<lambda>r1. chain (fold_chain (remove_alias n) (aliases r1) r1)
                (\<lambda>r2. chain (removeEnumValueFromExisting ''CommandName'' n r2)
                  (\<lambda>r3. Inr (r3\<lparr>signatures := filter (\<lambda>e. fst e \<noteq> n) (signatures r3)\<rparr>)))))"

definition unregisterCommand :: "string \<Rightarrow> command_map \<Rightarrow> map_error + command_map" where
  "unregisterCommand name m =
     (let n = lower name
      in chain (unregister_registry (map_of (custom_commands m) n \<noteq> None) n (game_registry m))
        (\<lambda>r. Inr (m\<lparr>game_registry := r\<rparr>)))"

definition clear_one :: "string \<times> nat \<Rightarrow> command_map \<Rightarrow> map_error + command_map" where
  "clear_one e m =
     (let m1 = m\<lparr>commands := (commands m)(snd e := unregisterFrom (commands m (snd e)))\<rparr>
      in unregisterCommand (cmd_name (commands m1 (snd e))) m1)"

definition clearCommands :: "game \<Rightarrow> command_map \<Rightarrow> map_error + command_map" where
  "clearCommands g m =
     chain (fold_chain clear_one (custom_commands m) m)
       (\<lambda>m1. setDefaultCommands g (m1\<lparr>custom_commands := []\<rparr>))"

definition EndstoneCommandMap :: "game \<Rightarrow> registry \<Rightarrow> map_error + command_map" where
  "EndstoneCommandMap g r =
     (let m = \<lparr>game_registry = r, custom_commands = [], commands = (\<lambda>_. Command [] [] [] [] []),
               next_command = 0, static_index = (\<lambda>_. None)\<rparr>
      in chain (unregisterCommand ''reload'' m) (setDefaultCommands g))"

subsection \<open>Dispatch\<close>

datatype message = Unknown_Command string | Unsupported_Sender | Compile_Error string

text \<open>
  \<open>split\<close> is \<open>boost::split\<close> at spaces with compression, \<open>origin\<close> whether the sender has a command origin,
  \<open>compile\<close> the game's \<open>compileCommand\<close> (the errors it reports, or the arguments), and \<open>execute\<close> runs a
  command; \<open>Inl\<close> of it is an exception.
\<close>

definition run_command :: "(command_ref \<Rightarrow> string list \<Rightarrow> 'x + bool) \<Rightarrow> command_ref \<Rightarrow> string list \<Rightarrow> bool" where
  "run_command execute c args = (case execute c args of Inl _ \<Rightarrow> False | Inr b \<Rightarrow> b)"

definition dispatch ::
  "(string \<Rightarrow> string list) \<Rightarrow> bool \<Rightarrow> (string \<Rightarrow> string list + string list)
   \<Rightarrow> (command_ref \<Rightarrow> string list \<Rightarrow> 'x + bool) \<Rightarrow> command_map \<Rightarrow> string \<Rightarrow> map_error + bool \<times> message list" where
  "dispatch split origin compile execute m command_line =
     (let line = (if command_line \<noteq> [] \<and> hd command_line = CHR ''/'' then tl command_line else command_line)
      in case split line of
           [] \<Rightarrow> Inr (False, [])
         | arg # args \<Rightarrow>
             (let name = lower arg
              in chain (getCommand m name)
                (\<lambda>f. case f of
                   None \<Rightarrow> Inr (False, [Unknown_Command arg])
                 | Some c \<Rightarrow>
                     if map_of (custom_commands m) name = None then Inr (run_command execute c args, [])
                     else if \<not> origin then Inr (False, [Unsupported_Sender])
                     else (case compile line of
                             Inl errors \<Rightarrow> Inr (False, map Compile_Error errors)
                           | Inr args \<Rightarrow> Inr (run_command execute c args, [])))))"

subsection \<open>What the map relies on\<close>

text \<open>
  A registered command gets a signature with its name and no overloads, an alias points to its command,
  neither enumerations nor the internal part of an overload change names, \<open>addEnumValues\<close> makes the
  enumeration known, and the lookup table of the enumerations stays consistent throughout.
\<close>

definition builtin_enums :: "string list" where
  "builtin_enums = [''Boolean'', ''Block'', ''EntityType'']"

text \<open>Every enumeration in the lookup table exists, the built-in ones among them.\<close>

definition enums_ok :: "registry \<Rightarrow> bool" where
  "enums_ok r \<longleftrightarrow> (\<forall>e i. map_of (enum_lookup r) e = Some i \<longrightarrow> i < length (enums r)) \<and>
     (\<forall>e \<in> set builtin_enums. map_of (enum_lookup r) e \<noteq> None)"

definition game_laws :: "game \<Rightarrow> bool" where
  "game_laws g \<longleftrightarrow>
     (\<forall>n d r. enums_ok r \<longrightarrow> enums_ok (g_registerCommand g n d r)) \<and>
     (\<forall>n a r. enums_ok r \<longrightarrow> enums_ok (g_registerAlias g n a r)) \<and>
     (\<forall>n ds r. enums_ok r \<longrightarrow> enums_ok (g_registerOverloadInternal g n ds r)) \<and>
     (\<forall>e vs r. enums_ok r \<longrightarrow> enums_ok (snd (g_addEnumValues g e vs r))
      \<and> map_of (enum_lookup (snd (g_addEnumValues g e vs r))) e \<noteq> None) \<and>
     (\<forall>n d r. map_of (signatures (g_registerCommand g n d r))
        = (map_of (signatures r))(n \<mapsto> \<lparr>sig_name = n, overloads = []\<rparr>)
      \<and> aliases (g_registerCommand g n d r) = aliases r) \<and>
     (\<forall>n a r. map_of (aliases (g_registerAlias g n a r)) = (map_of (aliases r))(a \<mapsto> n)
      \<and> signatures (g_registerAlias g n a r) = signatures r) \<and>
     (\<forall>e vs r. signatures (snd (g_addEnumValues g e vs r)) = signatures r
      \<and> aliases (snd (g_addEnumValues g e vs r)) = aliases r) \<and>
     (\<forall>n ds r. signatures (g_registerOverloadInternal g n ds r) = signatures r
      \<and> aliases (g_registerOverloadInternal g n ds r) = aliases r)"

lemma game_lawsD:
  assumes "game_laws g"
  shows "map_of (signatures (g_registerCommand g n d r))
      = (map_of (signatures r))(n \<mapsto> \<lparr>sig_name = n, overloads = []\<rparr>)"
    and "aliases (g_registerCommand g n d r) = aliases r"
    and "map_of (aliases (g_registerAlias g n a r)) = (map_of (aliases r))(a \<mapsto> n)"
    and "signatures (g_registerAlias g n a r) = signatures r"
    and "signatures (snd (g_addEnumValues g e vs r)) = signatures r"
    and "aliases (snd (g_addEnumValues g e vs r)) = aliases r"
    and "signatures (g_registerOverloadInternal g n ds r) = signatures r"
    and "aliases (g_registerOverloadInternal g n ds r) = aliases r"
    and "enums_ok r \<Longrightarrow> enums_ok (g_registerCommand g n d r)"
    and "enums_ok r \<Longrightarrow> enums_ok (g_registerAlias g n a r)"
    and "enums_ok r \<Longrightarrow> enums_ok (g_registerOverloadInternal g n ds r)"
    and "enums_ok r \<Longrightarrow> enums_ok (snd (g_addEnumValues g e vs r))"
    and "enums_ok r \<Longrightarrow> map_of (enum_lookup (snd (g_addEnumValues g e vs r))) e \<noteq> None"
  using assms by (simp_all add: game_laws_def)

subsection \<open>The names of a map\<close>

text \<open>The names of the signatures, the aliases, and what is found under a name.\<close>

definition sig_names :: "registry \<Rightarrow> string \<rightharpoonup> string" where
  "sig_names r = map_option sig_name \<circ> map_of (signatures r)"

definition find_name :: "registry \<Rightarrow> string \<Rightarrow> map_error + string option" where
  "find_name r n =
     (case sig_names r n of
        Some s \<Rightarrow> Inr (Some s)
      | None \<Rightarrow> (case map_of (aliases r) n of
          Some t \<Rightarrow> (case sig_names r t of None \<Rightarrow> Inl Out_Of_Range | Some s \<Rightarrow> Inr (Some s))
        | None \<Rightarrow> Inr None))"

lemma find_name_eq: "find_name r n = chain (findCommand r n) (\<lambda>f. Inr (map_option sig_name f))"
  by (auto simp: find_name_def findCommand_def sig_names_def at_def split: option.splits)

lemma getCommand_name:
  "getCommand m name =
     (case map_of (custom_commands m) (lower name) of
        Some c \<Rightarrow> Inr (Some (Custom c))
      | None \<Rightarrow> chain (find_name (game_registry m) (lower name)) (\<lambda>f. Inr (map_option Vanilla f)))"
  by (auto simp: getCommand_def Let_def find_name_eq chain_def split: option.splits sum.splits)

text \<open>Every alias has its signature, so that no lookup throws, and every custom name can be found.\<close>

definition aliases_ok :: "registry \<Rightarrow> bool" where
  "aliases_ok r \<longleftrightarrow> (\<forall>a t. map_of (aliases r) a = Some t \<longrightarrow> sig_names r t \<noteq> None)"

definition map_ok :: "command_map \<Rightarrow> bool" where
  "map_ok m \<longleftrightarrow> aliases_ok (game_registry m) \<and>
     (\<forall>n c. map_of (custom_commands m) n = Some c \<longrightarrow> find_name (game_registry m) n \<noteq> Inr None)"

text \<open>The part of the state that the names depend on.\<close>

definition names_of :: "command_map \<Rightarrow> _" where
  "names_of m = (signatures (game_registry m), aliases (game_registry m), custom_commands m, commands m, next_command m)"

lemma find_name_cong:
  "signatures r = signatures s \<Longrightarrow> aliases r = aliases s \<Longrightarrow> find_name r = find_name s"
  by (simp add: find_name_def sig_names_def fun_eq_iff cong: option.case_cong)

lemma names_of_same:
  assumes "names_of m = names_of m'"
  shows "getCommand m = getCommand m'" and "map_ok m \<longleftrightarrow> map_ok m'"
    and "custom_commands m = custom_commands m'" and "commands m = commands m'"
    and "signatures (game_registry m) = signatures (game_registry m')"
    and "aliases (game_registry m) = aliases (game_registry m')"
    and "next_command m = next_command m'"
proof -
  have e: "signatures (game_registry m) = signatures (game_registry m')"
    "aliases (game_registry m) = aliases (game_registry m')"
    "custom_commands m = custom_commands m'" "commands m = commands m'" "next_command m = next_command m'"
    using assms by (auto simp: names_of_def)
  have f: "find_name (game_registry m) = find_name (game_registry m')" by (rule find_name_cong [OF e(1,2)])
  show "getCommand m = getCommand m'" by (rule ext) (simp add: getCommand_name e f cong: option.case_cong)
  show "map_ok m \<longleftrightarrow> map_ok m'" by (simp add: map_ok_def aliases_ok_def sig_names_def e f)
qed (use assms in \<open>auto simp: names_of_def\<close>)

subsection \<open>Reading usages changes no name\<close>

lemma static_enum_names: "static_enum e m = Inr (i, m') \<Longrightarrow> names_of m' = names_of m"
  by (auto simp: static_enum_def names_of_def chain_Inr split: option.splits)

lemma builtin_enum_names: "builtin_enum e p m = Inr (d, m') \<Longrightarrow> names_of m' = names_of m"
  by (auto simp: builtin_enum_def chain_Inr static_enum_names)

lemma add_enum_names:
  "game_laws g \<Longrightarrow> names_of (m\<lparr>game_registry := snd (g_addEnumValues g e vs (game_registry m))\<rparr>) = names_of m"
  by (simp add: names_of_def game_lawsD)

lemma add_parameter_names:
  assumes "game_laws g" and "add_parameter g b p m = Inr (d, m')"
  shows "names_of m' = names_of m"
proof (cases "is_enum p")
  case True
  then obtain n where "m' = m\<lparr>game_registry := snd (g_addEnumValues g n (param_values p) (game_registry m))\<rparr>"
    using assms(2) by (force simp: add_parameter_def chain_Inr Let_def case_prod_beta split: if_splits)
  then show ?thesis by (simp add: add_enum_names [OF assms(1)])
next
  case False
  then show ?thesis
    using assms(2) by (auto simp: add_parameter_def builtin_enum_names split: option.splits if_splits)
qed

lemma add_parameters_names:
  assumes "game_laws g"
  shows "add_parameters g ps ds m = Inr (d, m') \<Longrightarrow> names_of m' = names_of m"
proof (induction ps arbitrary: ds m)
  case (Cons p ps)
  then obtain d1 m1 where d1: "add_parameter g (ps = []) p m = Inr (d1, m1)"
    and r: "(case d1 of None \<Rightarrow> Inr (None, m1) | Some d \<Rightarrow> add_parameters g ps (ds @ [d]) m1) = Inr (d, m')"
    by (auto simp: chain_Inr)
  from r have "names_of m' = names_of m1" by (cases d1) (auto dest: Cons.IH)
  then show ?case using add_parameter_names [OF assms d1] by simp
qed simp

lemma add_usages_names:
  assumes "game_laws g"
  shows "add_usages g us pending m = Inr (d, m') \<Longrightarrow> names_of m' = names_of m"
proof (induction us arbitrary: pending m)
  case (Cons u us)
  show ?case
  proof (cases "parse u")
    case (Inl e)
    then show ?thesis using Cons by simp
  next
    case (Inr q)
    with Cons.prems obtain ds m1 where "add_parameters g (parameters q) [] m = Inr (ds, m1)"
      "add_usages g us (case ds of Some ds \<Rightarrow> pending @ [ds] | None \<Rightarrow> pending) m1 = Inr (d, m')"
      by (auto simp: chain_Inr)
    then show ?thesis using Cons.IH add_parameters_names [OF assms] by metis
  qed
qed simp

lemma free_aliases_free:
  "free_aliases m as = Inr bs \<Longrightarrow> set bs \<subseteq> set as \<and> (\<forall>b \<in> set bs. getCommand m b = Inr None)"
  by (induction as arbitrary: bs) (auto simp: chain_Inr split: if_splits)

subsection \<open>The registration itself\<close>

lemma map_of_emplace: "map_of (emplace k v m) k' = (case map_of m k' of Some x \<Rightarrow> Some x | None \<Rightarrow> if k' = k then Some v else None)"
  by (auto simp: emplace_def map_add_def split: option.splits)

lemma sig_names_registerCommand:
  "game_laws g \<Longrightarrow> sig_names (g_registerCommand g n d r) = (sig_names r)(n \<mapsto> n)"
  by (simp add: sig_names_def game_lawsD fun_eq_iff)

lemma sig_names_cong: "signatures r = signatures s \<Longrightarrow> sig_names r = sig_names s"
  by (simp add: sig_names_def)

lemma sig_names_some: "sig_names r n \<noteq> None \<longleftrightarrow> map_of (signatures r) n \<noteq> None"
  by (simp add: sig_names_def)

lemma add_aliases:
  assumes "game_laws g"
  shows "sig_names (game_registry (fold (add_alias g n c) as m)) = sig_names (game_registry m)"
    and "map_of (aliases (game_registry (fold (add_alias g n c) as m))) a
        = (if a \<in> set as then Some n else map_of (aliases (game_registry m)) a)"
    and "map_of (custom_commands (fold (add_alias g n c) as m)) a
        = (case map_of (custom_commands m) a of Some x \<Rightarrow> Some x | None \<Rightarrow> if a \<in> set as then Some c else None)"
    and "commands (fold (add_alias g n c) as m) = commands m"
    and "next_command (fold (add_alias g n c) as m) = next_command m"
  by (induction as arbitrary: m)
    (auto simp: add_alias_def game_lawsD [OF assms] map_of_emplace split: option.splits
      intro!: sig_names_cong)

lemma map_entry_names:
  "map_option sig_name (map_of (AList.map_entry k (\<lambda>s. s\<lparr>overloads := overloads s @ [ds]\<rparr>) ss) a)
     = map_option sig_name (map_of ss a)"
  by (induction ss) auto

text \<open>Overloads change neither names nor aliases, and adding them cannot fail for a registered name.\<close>

lemma registerOverload_names:
  assumes "game_laws g" and "sig_names r n \<noteq> None"
  shows "\<exists>r'. registerOverload g n ds r = Inr r' \<and> sig_names r' = sig_names r \<and> aliases r' = aliases r"
proof -
  obtain s where s: "map_of (signatures r) n = Some s" using assms(2) by (auto simp: sig_names_def)
  let ?r = "r\<lparr>signatures := AList.map_entry n (\<lambda>s. s\<lparr>overloads := overloads s @ [ds]\<rparr>) (signatures r)\<rparr>"
  have "sig_names ?r = sig_names r" by (rule ext) (simp add: sig_names_def map_entry_names)
  then have "sig_names (g_registerOverloadInternal g n ds ?r) = sig_names r"
    using sig_names_cong [OF game_lawsD(7) [OF assms(1)]] by metis
  then show ?thesis
    by (simp add: registerOverload_def findCommand_def s Let_def game_lawsD [OF assms(1)])
qed

lemma add_overloads:
  assumes "game_laws g" and "sig_names (game_registry m) n \<noteq> None"
  shows "\<exists>m'. fold_chain (add_overload g n) dss m = Inr m' \<and> sig_names (game_registry m') = sig_names (game_registry m)
    \<and> aliases (game_registry m') = aliases (game_registry m) \<and> custom_commands m' = custom_commands m
    \<and> commands m' = commands m \<and> next_command m' = next_command m"
  using assms(2)
proof (induction dss arbitrary: m)
  case (Cons ds dss)
  obtain r where r: "registerOverload g n ds (game_registry m) = Inr r" "sig_names r = sig_names (game_registry m)"
    "aliases r = aliases (game_registry m)"
    using registerOverload_names [OF assms(1) Cons.prems] by blast
  from Cons.IH [of "m\<lparr>game_registry := r\<rparr>"] Cons.prems show ?case
    by (auto simp: add_overload_def r)
qed auto

lemma commit_names:
  assumes "game_laws g" and n: "n = cmd_name (commands m c)"
  shows "\<exists>m'. commit g c as pending m = Inr (True, m') \<and>
    sig_names (game_registry m') = (sig_names (game_registry m))(n \<mapsto> n) \<and>
    (\<forall>a. map_of (aliases (game_registry m')) a
        = (if a \<in> set as then Some (n) else map_of (aliases (game_registry m)) a)) \<and>
    (\<forall>a. map_of (custom_commands m') a
        = (case map_of (custom_commands m) a of Some x \<Rightarrow> Some x | None \<Rightarrow> if a \<in> insert (n) (set as) then Some c else None)) \<and>
    commands m' = (commands m)(c := registerTo (setAliases as (commands m c))) \<and>
    next_command m' = next_command m"
proof -
  let ?m1 = "m\<lparr>game_registry := g_registerCommand g n (cmd_description (commands m c)) (game_registry m),
    custom_commands := emplace n c (custom_commands m)\<rparr>"
  let ?m2 = "fold (add_alias g n c) as ?m1"
  have m2: "sig_names (game_registry ?m2) = (sig_names (game_registry m))(n \<mapsto> n)"
    by (simp add: add_aliases [OF assms(1)] sig_names_registerCommand [OF assms(1)])
  then have "sig_names (game_registry ?m2) n \<noteq> None" by simp
  from add_overloads [OF assms(1) this, of pending] obtain m3 where
    m3: "fold_chain (add_overload g n) pending ?m2 = Inr m3"
      "sig_names (game_registry m3) = sig_names (game_registry ?m2)"
      "aliases (game_registry m3) = aliases (game_registry ?m2)" "custom_commands m3 = custom_commands ?m2"
      "commands m3 = commands ?m2" "next_command m3 = next_command ?m2"
    by blast
  show ?thesis
    by (intro exI [of _ "m3\<lparr>commands := (commands m3)(c := registerTo (setAliases as (commands m3 c)))\<rparr>"])
      (auto simp: commit_def Let_def n [symmetric] m3 m2 sig_names_registerCommand [OF assms(1)] add_aliases [OF assms(1)] map_of_emplace
        game_lawsD [OF assms(1)] split: option.splits)
qed

subsection \<open>Registration replaces nothing\<close>

definition wf_command :: "command \<Rightarrow> bool" where
  "wf_command c \<longleftrightarrow> lower (cmd_name c) = cmd_name c \<and> map lower (cmd_aliases c) = cmd_aliases c"

lemma Command_wf [simp]: "wf_command (Command n d us as ps)" and Command_unregistered [simp]: "\<not> registered (Command n d us as ps)"
  by (simp_all add: Command_def wf_command_def setPermissions_def setAliases_def setUsages_def setDescription_def
      setName_def o_def)

lemma getCommand_lower: "getCommand m (lower a) = getCommand m a"
  by (simp only: getCommand_name lower_idem)

lemma getCommand_free:
  "getCommand m a = Inr None \<longleftrightarrow> map_of (custom_commands m) (lower a) = None
     \<and> find_name (game_registry m) (lower a) = Inr None"
  by (auto simp: getCommand_name chain_Inr split: option.splits)

lemma find_name_free:
  "find_name r n = Inr None \<longleftrightarrow> sig_names r n = None \<and> map_of (aliases r) n = None"
  by (auto simp: find_name_def split: option.splits)

text \<open>What a successful registration adds to a map, as an extension of its names.\<close>

definition extends :: "string \<Rightarrow> string list \<Rightarrow> nat \<Rightarrow> command_map \<Rightarrow> command_map \<Rightarrow> bool" where
  "extends n as c m m' \<longleftrightarrow>
     sig_names (game_registry m') = (sig_names (game_registry m))(n \<mapsto> n) \<and>
     (\<forall>a. map_of (aliases (game_registry m')) a
        = (if a \<in> set as then Some n else map_of (aliases (game_registry m)) a)) \<and>
     (\<forall>a. map_of (custom_commands m') a
        = (case map_of (custom_commands m) a of Some x \<Rightarrow> Some x
           | None \<Rightarrow> if a \<in> insert n (set as) then Some c else None))"

lemma extends_keeps:
  assumes "extends n as c m m'" and "map_ok m"
    and "\<forall>a \<in> insert n (set as). getCommand m a = Inr None \<and> lower a = a"
    and "getCommand m a = Inr (Some x)"
  shows "getCommand m' a = Inr (Some x)"
proof -
  have old: "lower a \<notin> insert n (set as)"
    using assms(3,4) getCommand_lower [of m a] by fastforce
  have n: "sig_names (game_registry m) n = None"
    using assms(3) by (auto simp: getCommand_free find_name_free)
  show ?thesis
  proof (cases "map_of (custom_commands m) (lower a)")
    case (Some k)
    then show ?thesis using assms(1,4) by (auto simp: getCommand_name extends_def)
  next
    case None
    have s: "sig_names (game_registry m') = (sig_names (game_registry m))(n \<mapsto> n)"
      and al: "map_of (aliases (game_registry m')) (lower a) = map_of (aliases (game_registry m)) (lower a)"
      using assms(1) old by (simp_all add: extends_def)
    have "t \<noteq> n" if "map_of (aliases (game_registry m)) (lower a) = Some t" for t
    proof -
      have "sig_names (game_registry m) t \<noteq> None" using assms(2) that unfolding map_ok_def aliases_ok_def by blast
      then show ?thesis using n by auto
    qed
    then have "find_name (game_registry m') (lower a) = find_name (game_registry m) (lower a)"
      using old by (simp add: find_name_def s al split: option.splits)
    moreover have "map_of (custom_commands m') (lower a) = None"
      using old assms(1) None by (simp add: extends_def)
    ultimately show ?thesis using assms(4) None by (simp add: getCommand_name)
  qed
qed

lemma extends_new:
  assumes "extends n as c m m'" "a \<in> insert n (set as)" "getCommand m a = Inr None" "lower a = a"
  shows "getCommand m' a = Inr (Some (Custom c))"
proof -
  have "map_of (custom_commands m) a = None" using assms(3,4) by (simp add: getCommand_free)
  then have "map_of (custom_commands m') a = Some c" using assms(1,2) by (auto simp: extends_def)
  then show ?thesis using assms(4) by (simp add: getCommand_name)
qed

lemma extends_ok:
  assumes "extends n as c m m'" and "map_ok m"
  shows "map_ok m'"
proof -
  have s: "sig_names (game_registry m') = (sig_names (game_registry m))(n \<mapsto> n)"
    and al: "\<And>a. map_of (aliases (game_registry m')) a
        = (if a \<in> set as then Some n else map_of (aliases (game_registry m)) a)"
    and cu: "\<And>a. map_of (custom_commands m') a = (case map_of (custom_commands m) a of Some x \<Rightarrow> Some x
           | None \<Rightarrow> if a \<in> insert n (set as) then Some c else None)"
    using assms(1) unfolding extends_def by blast+
  have "aliases_ok (game_registry m')"
    using assms(2) by (auto simp: aliases_ok_def map_ok_def s al)
  moreover have "find_name (game_registry m') b \<noteq> Inr None" if "map_of (custom_commands m') b = Some k" for b k
  proof (cases "b \<in> insert n (set as)")
    case True
    then show ?thesis by (auto simp: find_name_free s al)
  next
    case False
    then have "map_of (custom_commands m) b = Some k" using that by (auto simp: cu split: option.splits)
    then have "find_name (game_registry m) b \<noteq> Inr None" using assms(2) by (simp add: map_ok_def)
    then show ?thesis using False by (auto simp: find_name_free s al)
  qed
  ultimately show ?thesis by (simp add: map_ok_def)
qed

lemma map_fixed: "map f xs = xs \<Longrightarrow> x \<in> set xs \<Longrightarrow> f x = x"
  by (induction xs) auto

lemma registerCommand_cases:
  assumes "game_laws g" and "registerCommand g c m = Inr (ok, m')" and "wf_command (commands m c)"
    and "\<not> registered (commands m c)"
  shows "\<not> ok \<and> names_of m' = names_of m \<or>
    ok \<and> (\<exists>as. extends (cmd_name (commands m c)) as c m m' \<and>
      (\<forall>a \<in> insert (cmd_name (commands m c)) (set as). getCommand m a = Inr None \<and> lower a = a) \<and>
      commands m' = (commands m)(c := (commands m c)\<lparr>cmd_aliases := as, registered := True\<rparr>) \<and>
      next_command m' = next_command m)"
proof -
  let ?c = "commands m c"
  let ?n = "cmd_name ?c"
  obtain f where f: "getCommand m ?n = Inr f" using assms(2) by (auto simp: registerCommand_def Let_def chain_Inr)
  show ?thesis
  proof (cases f)
    case (Some x)
    then show ?thesis using assms(2) f by (simp add: registerCommand_def Let_def)
  next
    case None
    then obtain as pending m1 where as: "free_aliases m (cmd_aliases ?c) = Inr as"
      and m1: "add_usages g (if cmd_usages ?c = [] then [CHR ''/'' # ?n] else cmd_usages ?c) [] m = Inr (pending, m1)"
      and r: "(if pending = [] then Inr (False, m1) else commit g c as pending m1) = Inr (ok, m')"
      using assms(2) f by (auto simp: registerCommand_def Let_def chain_Inr)
    have nm: "names_of m1 = names_of m" by (rule add_usages_names [OF assms(1) m1])
    note same = names_of_same [OF nm]
    show ?thesis
    proof (cases "pending = []")
      case True
      then show ?thesis using r nm by simp
    next
      case False
      obtain m2 where m2: "commit g c as pending m1 = Inr (True, m2)" "extends ?n as c m m2"
        "commands m2 = (commands m)(c := registerTo (setAliases as (commands m c)))" "next_command m2 = next_command m"
        using commit_names [OF assms(1), of ?n m1 c as pending] same sig_names_cong [OF same(5)]
        by (auto simp: extends_def)
      have free: "\<forall>a \<in> set as. a \<in> set (cmd_aliases ?c) \<and> getCommand m a = Inr None"
        using free_aliases_free [OF as] by auto
      have al: "lower a = a" if "a \<in> set (cmd_aliases ?c)" for a
        using assms(3) that by (auto simp: wf_command_def dest: map_fixed)
      have "map lower as = as" using free al by (simp add: map_idI)
      then have "registerTo (setAliases as ?c) = ?c\<lparr>cmd_aliases := as, registered := True\<rparr>"
        using assms(4) by (simp add: registerTo_def setAliases_def)
      moreover have "ok" "m' = m2" using r False m2(1) by auto
      ultimately show ?thesis
        using m2 None f free al assms(3)
        by (intro disjI2 conjI exI [of _ as]) (simp_all add: wf_command_def)
    qed
  qed
qed

subsection \<open>No operation throws\<close>

lemma enums_ok_cong:
  "enum_lookup r = enum_lookup s \<Longrightarrow> length (enums r) = length (enums s) \<Longrightarrow> enums_ok r \<longleftrightarrow> enums_ok s"
  by (simp add: enums_ok_def)

lemma enum_name_final_total: "enums_ok r \<Longrightarrow> \<exists>e. enum_name_final r n i = Inr e"
proof (induction r n i rule: enum_name_final.induct)
  case (1 r n i)
  then show ?case
    by (subst enum_name_final.simps) (auto simp: enums_ok_def split: option.splits)
qed

lemma builtin_enum_total:
  assumes "enums_ok (game_registry m)" and "e \<in> set builtin_enums"
  shows "\<exists>d m'. builtin_enum e p m = Inr (d, m') \<and> enums_ok (game_registry m')"
  using assms by (cases "static_index m e")
    (auto simp: builtin_enum_def static_enum_def at_def enums_ok_def split: option.splits)

lemma add_parameter_total:
  assumes "game_laws g" and "enums_ok (game_registry m)"
  shows "\<exists>d m'. add_parameter g b p m = Inr (d, m') \<and> enums_ok (game_registry m')"
proof (cases "is_enum p")
  case True
  obtain n where n: "enum_name_final (game_registry m) (param_type p) 0 = Inr n"
    using enum_name_final_total [OF assms(2)] by blast
  let ?a = "g_addEnumValues g n (param_values p) (game_registry m)"
  have "map_of (enum_lookup (snd ?a)) n \<noteq> None" "enums_ok (snd ?a)"
    using game_lawsD(12,13) [OF assms] by blast+
  then show ?thesis using True by (auto simp: add_parameter_def n case_prod_beta)
next
  case False
  have "''Boolean'' \<in> set builtin_enums" "''Block'' \<in> set builtin_enums" "''EntityType'' \<in> set builtin_enums"
    by (simp_all add: builtin_enums_def)
  with False show ?thesis
    using builtin_enum_total [OF assms(2)] assms(2) by (auto simp: add_parameter_def split: option.splits)
qed

lemma add_parameters_total:
  assumes "game_laws g"
  shows "enums_ok (game_registry m) \<Longrightarrow> \<exists>d m'. add_parameters g ps ds m = Inr (d, m') \<and> enums_ok (game_registry m')"
proof (induction ps arbitrary: ds m)
  case (Cons p ps)
  obtain d m1 where "add_parameter g (ps = []) p m = Inr (d, m1)" "enums_ok (game_registry m1)"
    using add_parameter_total [OF assms Cons.prems] by blast
  then show ?case using Cons.IH by (cases d) auto
qed auto

lemma add_usages_total:
  assumes "game_laws g"
  shows "enums_ok (game_registry m) \<Longrightarrow> \<exists>d m'. add_usages g us pending m = Inr (d, m') \<and> enums_ok (game_registry m')"
proof (induction us arbitrary: pending m)
  case (Cons u us)
  show ?case
  proof (cases "parse u")
    case (Inr q)
    obtain d m1 where "add_parameters g (parameters q) [] m = Inr (d, m1)" "enums_ok (game_registry m1)"
      using add_parameters_total [OF assms Cons.prems] by blast
    then show ?thesis using Cons.IH by (auto simp: Inr)
  qed (use Cons in simp)
qed auto

lemma find_name_total: "aliases_ok r \<Longrightarrow> \<exists>f. find_name r n = Inr f"
  unfolding aliases_ok_def find_name_def by (cases "sig_names r n"; cases "map_of (aliases r) n") fastforce+

lemma getCommand_total: "map_ok m \<Longrightarrow> \<exists>f. getCommand m n = Inr f"
  using find_name_total [of "game_registry m" "lower n"]
  by (auto simp: getCommand_name map_ok_def split: option.splits)

lemma free_aliases_total: "map_ok m \<Longrightarrow> \<exists>bs. free_aliases m as = Inr bs"
proof (induction as)
  case (Cons a as)
  then show ?case using getCommand_total [of m a] by auto
qed simp

lemma add_aliases_enums:
  assumes "game_laws g"
  shows "enums_ok (game_registry m) \<Longrightarrow> enums_ok (game_registry (fold (add_alias g n c) as m))"
  by (induction as arbitrary: m) (simp_all add: add_alias_def game_lawsD(10) [OF assms])

lemma add_overloads_enums:
  assumes "game_laws g"
  shows "fold_chain (add_overload g n) dss m = Inr m' \<Longrightarrow> enums_ok (game_registry m) \<Longrightarrow> enums_ok (game_registry m')"
proof (erule fold_chain_inv [where P = "\<lambda>m. enums_ok (game_registry m)"])
  fix ds m m'
  assume "add_overload g n ds m = Inr m'" and "enums_ok (game_registry m)"
  moreover from this have "enums_ok ((game_registry m)\<lparr>signatures := ss\<rparr>)" for ss
    using enums_ok_cong [of "(game_registry m)\<lparr>signatures := ss\<rparr>" "game_registry m"] by simp
  ultimately show "enums_ok (game_registry m')"
    by (auto simp: add_overload_def registerOverload_def chain_Inr Let_def
        intro!: game_lawsD(11) [OF assms] split: option.splits)
qed

lemma commit_enums:
  assumes "game_laws g" and "enums_ok (game_registry m)" and "commit g c as pending m = Inr (ok, m')"
  shows "enums_ok (game_registry m')"
proof -
  let ?n = "cmd_name (commands m c)"
  let ?m1 = "m\<lparr>game_registry := g_registerCommand g ?n (cmd_description (commands m c)) (game_registry m),
    custom_commands := emplace ?n c (custom_commands m)\<rparr>"
  have "enums_ok (game_registry (fold (add_alias g ?n c) as ?m1))"
    by (rule add_aliases_enums [OF assms(1)]) (simp add: game_lawsD(9) [OF assms(1,2)])
  then show ?thesis
    using assms(3) add_overloads_enums [OF assms(1)] by (auto simp: commit_def Let_def chain_Inr)
qed

lemma registerCommand_total:
  assumes "game_laws g" and "map_ok m" and "enums_ok (game_registry m)"
  shows "\<exists>ok m'. registerCommand g c m = Inr (ok, m') \<and> enums_ok (game_registry m')"
proof -
  let ?c = "commands m c"
  obtain f where f: "getCommand m (cmd_name ?c) = Inr f" using getCommand_total [OF assms(2)] by blast
  obtain as where as: "free_aliases m (cmd_aliases ?c) = Inr as" using free_aliases_total [OF assms(2)] by blast
  obtain pending m1 where m1: "add_usages g (if cmd_usages ?c = [] then [CHR ''/'' # cmd_name ?c] else cmd_usages ?c) [] m
      = Inr (pending, m1)" "enums_ok (game_registry m1)"
    using add_usages_total [OF assms(1,3)] by blast
  obtain m2 where m2: "commit g c as pending m1 = Inr (True, m2)"
    using commit_names [OF assms(1) refl] by blast
  have "enums_ok (game_registry m2)" by (rule commit_enums [OF assms(1) m1(2) m2])
  then show ?thesis
    using assms(3) m1 m2 by (cases f; cases "pending = []") (auto simp: registerCommand_def Let_def f as)
qed

text \<open>Together: an operation returns and keeps the map consistent.\<close>

definition map_inv :: "command_map \<Rightarrow> bool" where
  "map_inv m \<longleftrightarrow> map_ok m \<and> enums_ok (game_registry m)"

definition fresh_command :: "command \<Rightarrow> bool" where
  "fresh_command c \<longleftrightarrow> wf_command c \<and> \<not> registered c"

lemma register_new_total:
  assumes "game_laws g" and "map_inv m" and "fresh_command cmd"
  shows "\<exists>m'. register_new g cmd m = Inr m' \<and> map_inv m' \<and>
    next_command m' = Suc (next_command m) \<and>
    (\<forall>c. c \<noteq> next_command m \<longrightarrow> commands m' c = commands m c) \<and>
    cmd_name (commands m' (next_command m)) = cmd_name cmd \<and>
    (\<forall>a c. map_of (custom_commands m') a = Some c \<longrightarrow> map_of (custom_commands m) a = Some c \<or> c = next_command m)"
proof -
  let ?c = "next_command m"
  let ?m = "m\<lparr>commands := (commands m)(?c := cmd), next_command := Suc ?c\<rparr>"
  have ok: "map_ok ?m" "enums_ok (game_registry ?m)" using assms(2) by (simp_all add: map_inv_def map_ok_def)
  obtain r m' where m': "registerCommand g ?c ?m = Inr (r, m')" "enums_ok (game_registry m')"
    using registerCommand_total [OF assms(1) ok] by blast
  have "wf_command (commands ?m ?c)" "\<not> registered (commands ?m ?c)"
    using assms(3) by (simp_all add: fresh_command_def)
  from registerCommand_cases [OF assms(1) m'(1) this] show ?thesis
  proof (elim disjE conjE exE)
    assume "names_of m' = names_of ?m"
    note same = names_of_same [OF this]
    show ?thesis
      by (intro exI [of _ m']) (use m' ok same in \<open>auto simp: register_new_def Let_def map_inv_def\<close>)
  next
    fix as
    assume e: "extends (cmd_name (commands ?m ?c)) as ?c ?m m'"
      and c: "commands m' = (commands ?m)(?c := (commands ?m ?c)\<lparr>cmd_aliases := as, registered := True\<rparr>)"
      "next_command m' = next_command ?m"
    have "map_ok m'" by (rule extends_ok [OF e ok(1)])
    moreover have "map_of (custom_commands m) a = Some k \<or> k = ?c" if "map_of (custom_commands m') a = Some k" for a k
      using e that by (auto simp: extends_def split: option.splits if_splits)
    ultimately show ?thesis
      by (intro exI [of _ m']) (use m' c in \<open>auto simp: register_new_def Let_def map_inv_def\<close>)
  qed
qed

subsection \<open>Unregistering\<close>

text \<open>The operations on enumerations change nothing else and cannot fail.\<close>

definition same_tables :: "registry \<Rightarrow> registry \<Rightarrow> bool" where
  "same_tables r s \<longleftrightarrow> signatures r = signatures s \<and> aliases r = aliases s \<and> enum_lookup r = enum_lookup s
     \<and> length (enums r) = length (enums s)"

lemma same_tables_refl [simp]: "same_tables r r"
  by (simp add: same_tables_def)

lemma same_tables_trans: "same_tables r s \<Longrightarrow> same_tables s u \<Longrightarrow> same_tables r u"
  by (simp add: same_tables_def)

lemma same_tables_enums_ok: "same_tables r s \<Longrightarrow> enums_ok s \<Longrightarrow> enums_ok r"
  using enums_ok_cong [of r s] by (simp add: same_tables_def)

lemma clearEnumValues_total:
  "enums_ok r \<Longrightarrow> \<exists>r'. clearEnumValues e r = Inr r' \<and> same_tables r' r"
  by (auto simp: clearEnumValues_def vector_at_def enums_ok_def same_tables_def split: option.splits)

lemma removeEnumValue_total:
  "enums_ok r \<Longrightarrow> \<exists>r'. removeEnumValueFromExisting e v r = Inr r' \<and> same_tables r' r"
  by (auto simp: removeEnumValueFromExisting_def vector_at_def enums_ok_def same_tables_def split: option.splits)

lemma clear_parameters_total:
  "enums_ok r \<Longrightarrow> \<exists>r'. fold_chain clear_parameter ds r = Inr r' \<and> same_tables r' r"
proof (induction ds arbitrary: r)
  case (Cons d ds)
  obtain r1 where r1: "clear_parameter d r = Inr r1" "same_tables r1 r"
    using clearEnumValues_total [OF Cons.prems, of "the (enum_name_or_postfix d)"]
    by (cases "clears d") (auto simp: clear_parameter_def)
  from Cons.IH [OF same_tables_enums_ok [OF r1(2) Cons.prems]] r1 show ?case
    by (auto intro: same_tables_trans)
qed simp

text \<open>Removing the aliases of a name: whatever is left does not point to it.\<close>

definition drops_aliases :: "string \<Rightarrow> (string \<times> string) list \<Rightarrow> registry \<Rightarrow> registry \<Rightarrow> bool" where
  "drops_aliases n es r' r \<longleftrightarrow> signatures r' = signatures r \<and> enum_lookup r' = enum_lookup r
     \<and> length (enums r') = length (enums r)
     \<and> aliases r' = filter (\<lambda>e. \<forall>x \<in> set es. snd x = n \<longrightarrow> fst e \<noteq> fst x) (aliases r)"

lemma remove_aliases_total:
  "enums_ok r \<Longrightarrow> \<exists>r'. fold_chain (remove_alias n) es r = Inr r' \<and> drops_aliases n es r' r"
proof (induction es arbitrary: r)
  case Nil
  then show ?case by (simp add: drops_aliases_def)
next
  case (Cons a es)
  show ?case
  proof (cases "snd a = n")
    case True
    obtain r1 where r1: "removeEnumValueFromExisting ''CommandName'' (fst a) r = Inr r1" "same_tables r1 r"
      using removeEnumValue_total [OF Cons.prems] by blast
    obtain r2 where r2: "removeEnumValueFromExisting ''CommandAliases'' (fst a) r1 = Inr r2" "same_tables r2 r1"
      using removeEnumValue_total [OF same_tables_enums_ok [OF r1(2) Cons.prems]] by blast
    let ?r3 = "r2\<lparr>aliases := filter (\<lambda>e. fst e \<noteq> fst a) (aliases r2)\<rparr>"
    have t: "same_tables r2 r" using r1(2) r2(2) by (rule same_tables_trans [rotated])
    then have "enums_ok ?r3" using Cons.prems enums_ok_cong [of ?r3 r] by (simp add: same_tables_def)
    from Cons.IH [OF this] obtain r4 where "fold_chain (remove_alias n) es ?r3 = Inr r4" "drops_aliases n es r4 ?r3"
      by blast
    moreover have "remove_alias n a r = Inr ?r3" using True r2(1) by (simp add: remove_alias_def r1(1))
    ultimately show ?thesis
      using t True by (intro exI [of _ r4]) (auto simp: drops_aliases_def same_tables_def intro!: filter_cong)
  next
    case False
    then have "remove_alias n a r = Inr r" by (simp add: remove_alias_def)
    with Cons.IH [OF Cons.prems] False show ?thesis by (auto simp: drops_aliases_def)
  qed
qed

lemma map_of_filter_keys:
  "map_of (filter (\<lambda>e. P (fst e)) es) k = (if P k then map_of es k else None)"
  by (induction es) auto

lemma unregister_registry_total:
  assumes "enums_ok r" and "aliases_ok r"
  shows "\<exists>r'. unregister_registry b n r = Inr r' \<and> enums_ok r' \<and> aliases_ok r'"
proof -
  obtain f where f: "findCommand r n = Inr f"
    using find_name_total [OF assms(2), of n] by (auto simp: find_name_eq chain_Inr)
  show ?thesis
  proof (cases f)
    case None
    then show ?thesis using f assms by (simp add: unregister_registry_def)
  next
    case (Some s)
    obtain r1 where r1: "(if b then fold_chain clear_parameter (concat (overloads s)) r else Inr r) = Inr r1"
      "same_tables r1 r"
      using clear_parameters_total [OF assms(1)] by (cases b) auto
    have ok1: "enums_ok r1" by (rule same_tables_enums_ok [OF r1(2) assms(1)])
    obtain r2 where r2: "fold_chain (remove_alias n) (aliases r1) r1 = Inr r2" "drops_aliases n (aliases r1) r2 r1"
      using remove_aliases_total [OF ok1] by blast
    have ok2: "enums_ok r2" using ok1 r2(2) enums_ok_cong [of r2 r1] by (simp add: drops_aliases_def)
    obtain r3 where r3: "removeEnumValueFromExisting ''CommandName'' n r2 = Inr r3" "same_tables r3 r2"
      using removeEnumValue_total [OF ok2] by blast
    let ?r4 = "r3\<lparr>signatures := filter (\<lambda>e. fst e \<noteq> n) (signatures r3)\<rparr>"
    have "enums_ok ?r4"
      using ok2 r3(2) enums_ok_cong [of ?r4 r2] by (simp add: same_tables_def)
    moreover have "aliases_ok ?r4"
      unfolding aliases_ok_def
    proof (intro allI impI)
      fix a t assume "map_of (aliases ?r4) a = Some t"
      then have at: "map_of (filter (\<lambda>e. \<forall>x \<in> set (aliases r). snd x = n \<longrightarrow> fst e \<noteq> fst x) (aliases r)) a = Some t"
        using r1(2) r2(2) r3(2) by (simp add: same_tables_def drops_aliases_def)
      then have a: "map_of (aliases r) a = Some t" "\<forall>x \<in> set (aliases r). snd x = n \<longrightarrow> a \<noteq> fst x"
        using map_of_filter_keys [of "\<lambda>k. \<forall>x \<in> set (aliases r). snd x = n \<longrightarrow> k \<noteq> fst x" "aliases r" a]
        by (auto split: if_splits)
      have "t \<noteq> n" using a map_of_SomeD [OF a(1)] by auto
      moreover have "sig_names r t \<noteq> None" using assms(2) a(1) by (simp add: aliases_ok_def)
      moreover have "signatures r3 = signatures r"
        using r1(2) r2(2) r3(2) by (simp add: same_tables_def drops_aliases_def)
      ultimately show "sig_names ?r4 t \<noteq> None"
        by (simp add: sig_names_def map_of_filter_keys [of "\<lambda>k. k \<noteq> n"])
    qed
    ultimately show ?thesis
      using f Some r1(1) r2(1) r3(1) by (simp add: unregister_registry_def)
  qed
qed

lemma clear_one_total:
  assumes "enums_ok (game_registry m)" and "aliases_ok (game_registry m)"
  shows "\<exists>m'. clear_one e m = Inr m' \<and> enums_ok (game_registry m') \<and> aliases_ok (game_registry m')
    \<and> next_command m' = next_command m"
proof -
  let ?m = "m\<lparr>commands := (commands m)(snd e := unregisterFrom (commands m (snd e)))\<rparr>"
  let ?n = "lower (cmd_name (commands ?m (snd e)))"
  from unregister_registry_total [OF assms, of "map_of (custom_commands m) ?n \<noteq> None" ?n] show ?thesis
    by (auto simp: clear_one_def Let_def unregisterCommand_def)
qed

lemma clear_all_total:
  "enums_ok (game_registry m) \<Longrightarrow> aliases_ok (game_registry m) \<Longrightarrow>
    \<exists>m'. fold_chain clear_one es m = Inr m' \<and> enums_ok (game_registry m') \<and> aliases_ok (game_registry m')
      \<and> next_command m' = next_command m"
proof (induction es arbitrary: m)
  case (Cons e es)
  obtain m1 where "clear_one e m = Inr m1" "enums_ok (game_registry m1)" "aliases_ok (game_registry m1)"
    "next_command m1 = next_command m"
    using clear_one_total [OF Cons.prems] by blast
  with Cons.IH [of m1] show ?case by auto
qed simp

subsection \<open>Whole runs\<close>

datatype map_op = Register_Command command | Clear_Commands | Plugin_Commands "(string \<times> command list) list"

fun map_step :: "game \<Rightarrow> map_op \<Rightarrow> command_map \<Rightarrow> map_error + command_map" where
  "map_step g (Register_Command c) m = register_new g c m"
| "map_step g Clear_Commands m = clearCommands g m"
| "map_step g (Plugin_Commands ps) m = setPluginCommands g ps m"

fun fresh_op :: "map_op \<Rightarrow> bool" where
  "fresh_op (Register_Command c) = fresh_command c"
| "fresh_op Clear_Commands = True"
| "fresh_op (Plugin_Commands ps) = list_all (\<lambda>p. list_all fresh_command (snd p)) ps"

text \<open>The commands a map holds are numbered from \<open>k\<close> on and carry names from \<open>ns\<close>.\<close>

definition only_from :: "nat \<Rightarrow> string set \<Rightarrow> command_map \<Rightarrow> bool" where
  "only_from k ns m \<longleftrightarrow> k \<le> next_command m \<and> (\<forall>a c. map_of (custom_commands m) a = Some c \<longrightarrow>
     k \<le> c \<and> c < next_command m \<and> cmd_name (commands m c) \<in> ns)"

lemma register_all_total:
  assumes "game_laws g"
  shows "map_inv m \<Longrightarrow> list_all fresh_command cs \<Longrightarrow> only_from k ns m \<Longrightarrow> cmd_name ` set cs \<subseteq> ns \<Longrightarrow>
    \<exists>m'. fold_chain (register_new g) cs m = Inr m' \<and> map_inv m' \<and> only_from k ns m'"
proof (induction cs arbitrary: m)
  case (Cons c cs)
  obtain m1 where m1: "register_new g c m = Inr m1" "map_inv m1" "next_command m1 = Suc (next_command m)"
    "\<And>i. i \<noteq> next_command m \<Longrightarrow> commands m1 i = commands m i" "cmd_name (commands m1 (next_command m)) = cmd_name c"
    "\<And>a i. map_of (custom_commands m1) a = Some i \<Longrightarrow> map_of (custom_commands m) a = Some i \<or> i = next_command m"
    using register_new_total [OF assms Cons.prems(1), of c] Cons.prems(2) by auto
  have "only_from k ns m1"
    unfolding only_from_def
  proof (intro conjI allI impI)
    show "k \<le> next_command m1" using Cons.prems(3) m1(3) by (simp add: only_from_def)
    fix a i assume "map_of (custom_commands m1) a = Some i"
    from m1(6) [OF this] show "k \<le> i" "i < next_command m1" "cmd_name (commands m1 i) \<in> ns"
      using Cons.prems(3,4) m1(3,5) m1(4) [of i]
      by (cases "i = next_command m"; fastforce simp: only_from_def less_Suc_eq)+
  qed
  with Cons.IH [OF m1(2)] Cons.prems(2,4) m1(1) show ?case by simp
qed auto

lemma register_new_inv:
  "game_laws g \<Longrightarrow> map_inv m \<Longrightarrow> fresh_command c \<Longrightarrow> \<exists>m'. register_new g c m = Inr m' \<and> map_inv m'"
  using register_new_total [of g m c] by blast

lemma register_list_inv:
  "game_laws g \<Longrightarrow> map_inv m \<Longrightarrow> list_all fresh_command cs \<Longrightarrow>
    \<exists>m'. fold_chain (register_new g) cs m = Inr m' \<and> map_inv m'"
proof (induction cs arbitrary: m)
  case (Cons c cs)
  then obtain m1 where "register_new g c m = Inr m1" "map_inv m1" using register_new_inv [of g m c] by auto
  with Cons show ?case by simp
qed simp

lemma fresh_Command [simp]: "fresh_command (Command n d us as ps)"
  by (simp add: fresh_command_def)

lemma default_fresh: "list_all fresh_command default_commands"
  by (simp add: default_commands_def BanCommand_def BanIpCommand_def BanListCommand_def PardonCommand_def
      PardonIpCommand_def PluginsCommand_def ReloadCommand_def SeedCommand_def StatusCommand_def VersionCommand_def)

abbreviation default_names :: "string set" where
  "default_names \<equiv> cmd_name ` set default_commands"

lemma setDefaultCommands_total:
  assumes "game_laws g" and "enums_ok (game_registry m)" and "aliases_ok (game_registry m)" and "custom_commands m = []"
  shows "\<exists>m'. setDefaultCommands g m = Inr m' \<and> map_inv m' \<and> only_from (next_command m) default_names m'"
  using register_all_total [OF assms(1) _ default_fresh, of m "next_command m" default_names] assms(2-4)
  by (simp add: setDefaultCommands_def map_inv_def map_ok_def only_from_def)

lemma clearCommands_total:
  assumes "game_laws g" and "map_inv m"
  shows "\<exists>m'. clearCommands g m = Inr m' \<and> map_inv m' \<and> only_from (next_command m) default_names m'"
proof -
  obtain m1 where m1: "fold_chain clear_one (custom_commands m) m = Inr m1" "enums_ok (game_registry m1)"
    "aliases_ok (game_registry m1)" "next_command m1 = next_command m"
    using clear_all_total [of m "custom_commands m"] assms(2) by (auto simp: map_inv_def map_ok_def)
  from setDefaultCommands_total [OF assms(1), of "m1\<lparr>custom_commands := []\<rparr>"] m1 show ?thesis
    by (simp add: clearCommands_def)
qed

lemma EndstoneCommandMap_total:
  assumes "game_laws g" and "enums_ok r" and "aliases_ok r"
  shows "\<exists>m. EndstoneCommandMap g r = Inr m \<and> map_inv m"
proof -
  let ?m = "\<lparr>game_registry = r, custom_commands = [], commands = (\<lambda>_. Command [] [] [] [] []),
    next_command = 0, static_index = (\<lambda>_. None)\<rparr>"
  obtain r' where r': "unregister_registry False (lower ''reload'') r = Inr r'" "enums_ok r'" "aliases_ok r'"
    using unregister_registry_total [OF assms(2,3)] by blast
  from setDefaultCommands_total [OF assms(1), of "?m\<lparr>game_registry := r'\<rparr>"] r' show ?thesis
    by (auto simp: EndstoneCommandMap_def Let_def unregisterCommand_def)
qed

lemma setPluginCommands_total:
  assumes "game_laws g" and "map_inv m" and "list_all (\<lambda>p. list_all fresh_command (snd p)) ps"
  shows "\<exists>m'. setPluginCommands g ps m = Inr m' \<and> map_inv m'"
proof -
  let ?cs = "concat (map snd ps)"
  have "list_all fresh_command ?cs" using assms(3) by (auto simp: list_all_iff)
  then obtain m1 where m1: "fold_chain (register_new g) ?cs m = Inr m1" "map_inv m1"
    using register_list_inv [OF assms(1,2)] by blast
  obtain r where r: "clearEnumValues ''PluginName'' (game_registry m1) = Inr r" "same_tables r (game_registry m1)"
    using clearEnumValues_total m1(2) by (auto simp: map_inv_def)
  let ?r = "snd (g_addEnumValues g ''PluginName'' (map (\<lambda>p. lower (fst p)) ps) r)"
  have "enums_ok r" using same_tables_enums_ok [OF r(2)] m1(2) by (simp add: map_inv_def)
  then have "enums_ok ?r" by (rule game_lawsD(12) [OF assms(1)])
  moreover have "names_of (m1\<lparr>game_registry := ?r\<rparr>) = names_of m1"
    using r(2) by (simp add: names_of_def game_lawsD [OF assms(1)] same_tables_def)
  then have "map_ok (m1\<lparr>game_registry := ?r\<rparr>)" using names_of_same(2) m1(2) by (metis map_inv_def)
  ultimately show ?thesis using m1(1) r(1) by (simp add: setPluginCommands_def map_inv_def)
qed

lemma map_step_total: "game_laws g \<Longrightarrow> map_inv m \<Longrightarrow> fresh_op x \<Longrightarrow> \<exists>m'. map_step g x m = Inr m' \<and> map_inv m'"
  using register_new_inv [of g m] clearCommands_total [of g m] setPluginCommands_total [of g m]
  by (cases x) (simp; blast)+

lemma map_run_total:
  "game_laws g \<Longrightarrow> map_inv m \<Longrightarrow> list_all fresh_op xs \<Longrightarrow> \<exists>m'. fold_chain (map_step g) xs m = Inr m' \<and> map_inv m'"
proof (induction xs arbitrary: m)
  case (Cons x xs)
  then obtain m1 where "map_step g x m = Inr m1" "map_inv m1" using map_step_total [of g m x] by auto
  with Cons show ?case by simp
qed simp

subsection \<open>Enumerations after unregistering\<close>

text \<open>An enumeration that has been emptied stays empty.\<close>

definition emptied :: "nat \<Rightarrow> registry \<Rightarrow> bool" where
  "emptied k r \<longleftrightarrow> k < length (enums r) \<and> enums r ! k = []"

lemma clearEnumValues_emptied:
  "clearEnumValues e r = Inr r' \<Longrightarrow> emptied k r \<or> map_of (enum_lookup r) e = Some k \<Longrightarrow> emptied k r'"
  by (auto simp: clearEnumValues_def emptied_def vector_at_def nth_list_update split: option.splits if_splits)

lemma clear_parameter_emptied: "clear_parameter d r = Inr r' \<Longrightarrow> emptied k r \<Longrightarrow> emptied k r'"
  by (auto simp: clear_parameter_def clearEnumValues_emptied split: if_splits)

lemma removeEnumValue_emptied: "removeEnumValueFromExisting e v r = Inr r' \<Longrightarrow> emptied k r \<Longrightarrow> emptied k r'"
  by (auto simp: removeEnumValueFromExisting_def emptied_def vector_at_def nth_list_update
      split: option.splits if_splits)

lemma remove_alias_emptied: "remove_alias n a r = Inr r' \<Longrightarrow> emptied k r \<Longrightarrow> emptied k r'"
proof -
  assume r: "remove_alias n a r = Inr r'" and k: "emptied k r"
  show ?thesis
  proof (cases "snd a = n")
    case True
    with r obtain r1 r2 where "removeEnumValueFromExisting ''CommandName'' (fst a) r = Inr r1"
      "removeEnumValueFromExisting ''CommandAliases'' (fst a) r1 = Inr r2"
      "r' = r2\<lparr>aliases := filter (\<lambda>e. fst e \<noteq> fst a) (aliases r2)\<rparr>"
      by (auto simp: remove_alias_def chain_Inr)
    with k show ?thesis by (auto simp: emptied_def [of _ "aliases_update _ _"] dest!: removeEnumValue_emptied)
        (simp_all add: emptied_def)
  qed (use r k in \<open>simp add: remove_alias_def\<close>)
qed

lemma clear_parameters_emptied:
  assumes "d \<in> set ds" and "clears d" and "enum_name_or_postfix d = Some e"
    and "enums_ok r" and "map_of (enum_lookup r) e = Some k" and "fold_chain clear_parameter ds r = Inr r'"
  shows "emptied k r'"
proof -
  obtain xs ys where ds: "ds = xs @ d # ys" using assms(1) by (auto simp: in_set_conv_decomp)
  obtain r1 where r1: "fold_chain clear_parameter xs r = Inr r1" "same_tables r1 r"
    using clear_parameters_total [OF assms(4)] by blast
  obtain r2 where r2: "clear_parameter d r1 = Inr r2" "fold_chain clear_parameter ys r2 = Inr r'"
    using assms(6) by (auto simp: ds fold_chain_app r1(1) chain_Inr)
  have "emptied k r2"
    using r1(2) r2(1) assms(2,3,5) clearEnumValues_emptied [of e r1 r2 k]
    by (simp add: clear_parameter_def same_tables_def)
  with fold_chain_inv [OF r2(2), of "emptied k"] clear_parameter_emptied show ?thesis by blast
qed

lemma unregister_emptied:
  assumes "map_of (signatures r) n = Some s" and "d \<in> set (concat (overloads s))"
    and "clears d" and "enum_name_or_postfix d = Some e"
    and "enums_ok r" and "map_of (enum_lookup r) e = Some k" and "unregister_registry True n r = Inr r'"
  shows "emptied k r'"
proof -
  have "findCommand r n = Inr (Some s)" by (simp add: findCommand_def assms(1))
  then obtain r1 r2 r3 where r: "fold_chain clear_parameter (concat (overloads s)) r = Inr r1"
    "fold_chain (remove_alias n) (aliases r1) r1 = Inr r2" "removeEnumValueFromExisting ''CommandName'' n r2 = Inr r3"
    "r' = r3\<lparr>signatures := filter (\<lambda>e. fst e \<noteq> n) (signatures r3)\<rparr>"
    using assms(7) by (auto simp: unregister_registry_def chain_Inr)
  have "emptied k r1" by (rule clear_parameters_emptied [OF assms(2-6) r(1)])
  then have "emptied k r2" using fold_chain_inv [OF r(2), of "emptied k"] remove_alias_emptied by blast
  then have "emptied k r3" by (rule removeEnumValue_emptied [OF r(3)])
  then show ?thesis by (simp add: r(4) emptied_def)
qed

subsection \<open>Properties\<close>

text \<open>C17: registering a command never replaces anything: whatever name resolved to a command, vanilla, custom or
  alias, resolves to the same command afterwards. If the registration succeeds, the command's name and all the
  aliases it keeps resolve to it and it is marked registered; if it is refused, every lookup is unchanged. The
  consistency of the map is kept either way.\<close>

theorem registerCommand_safe:
  assumes "game_laws g" and "map_ok m" and "wf_command (commands m c)" and "\<not> registered (commands m c)"
    and "registerCommand g c m = Inr (ok, m')"
  shows "map_ok m' \<and> (\<forall>a x. getCommand m a = Inr (Some x) \<longrightarrow> getCommand m' a = Inr (Some x)) \<and>
    (if ok then registered (commands m' c) \<and>
       (\<forall>a \<in> set (cmd_name (commands m' c) # cmd_aliases (commands m' c)). getCommand m' a = Inr (Some (Custom c)))
     else \<forall>a. getCommand m' a = getCommand m a)"
  using registerCommand_cases [OF assms(1,5,3,4)]
proof (elim disjE conjE exE)
  assume "names_of m' = names_of m" and "\<not> ok"
  with names_of_same [OF this(1)] assms(2) show ?thesis by simp
next
  fix as
  let ?n = "cmd_name (commands m c)"
  assume ok: "ok" and e: "extends ?n as c m m'"
    and f: "\<forall>a \<in> insert ?n (set as). getCommand m a = Inr None \<and> lower a = a"
    and c: "commands m' = (commands m)(c := (commands m c)\<lparr>cmd_aliases := as, registered := True\<rparr>)"
  have "getCommand m' a = Inr (Some (Custom c))" if "a \<in> insert ?n (set as)" for a
    using extends_new [OF e that] f that by blast
  then show ?thesis
    using extends_ok [OF e assms(2)] extends_keeps [OF e assms(2) f] ok by (simp add: c)
qed

text \<open>No operation of the command map throws, and no lookup does in any state it reaches: built on a registry
  whose aliases and enumerations are consistent, after any sequence of registrations, plugin registrations and
  clearings, every operation returns and every name can be looked up.\<close>

theorem command_map_total:
  assumes "game_laws g" and "enums_ok r" and "aliases_ok r" and "list_all fresh_op ops"
  shows "\<exists>m. chain (EndstoneCommandMap g r) (fold_chain (map_step g) ops) = Inr m \<and>
    map_inv m \<and> (\<forall>name. \<exists>f. getCommand m name = Inr f)"
proof -
  obtain m0 where m0: "EndstoneCommandMap g r = Inr m0" "map_inv m0"
    using EndstoneCommandMap_total [OF assms(1-3)] by blast
  obtain m where m: "fold_chain (map_step g) ops m0 = Inr m" "map_inv m"
    using map_run_total [OF assms(1) m0(2) assms(4)] by blast
  then show ?thesis using m0 getCommand_total [of m] by (auto simp: map_inv_def)
qed

text \<open>After \<open>clearCommands\<close> no command of a plugin is left: whatever custom command a name resolves to was
  made by this call and carries the name of a default command.\<close>

theorem clearCommands_defaults:
  assumes "game_laws g" and "map_inv m"
  shows "\<exists>m'. clearCommands g m = Inr m' \<and> map_inv m' \<and>
    (\<forall>a c. getCommand m' a = Inr (Some (Custom c)) \<longrightarrow>
      next_command m \<le> c \<and> cmd_name (commands m' c) \<in> default_names)"
proof -
  obtain m' where m': "clearCommands g m = Inr m'" "map_inv m'" "only_from (next_command m) default_names m'"
    using clearCommands_total [OF assms] by blast
  then show ?thesis
    by (intro exI [of _ m']) (auto simp: getCommand_name only_from_def chain_Inr split: option.splits)
qed

text \<open>Unregistering a custom command that takes an \<open>entity_type\<close> argument empties the game's own
  \<open>EntityType\<close> enumeration: only \<open>Boolean\<close> and \<open>Block\<close> are exempt from the clearing.\<close>

theorem entity_types_cleared:
  assumes "add_parameter g b p m = Inr (Some d, m1)" and "\<not> is_enum p" and "param_type p = ''entity_type''"
    and "map_of (signatures r) n = Some s" and "d \<in> set (concat (overloads s))"
    and "enums_ok r" and "aliases_ok r" and "map_of (enum_lookup r) ''EntityType'' = Some k"
  shows "\<exists>r'. unregister_registry True n r = Inr r' \<and> enums r' ! k = []"
proof -
  have "clears d" "enum_name_or_postfix d = Some ''EntityType''"
    using assms(1-3) by (auto simp: add_parameter_def builtin_enum_def chain_Inr clears_def)
  with unregister_registry_total [OF assms(6,7), of True n] unregister_emptied [OF assms(4,5) _ _ assms(6,8)]
  show ?thesis by (auto simp: emptied_def)
qed

subsection \<open>Witnesses\<close>

text \<open>A registry with one vanilla command and its alias, and the plainest game that keeps the laws.\<close>

definition demo_game :: game where
  "demo_game = \<lparr>
     g_registerCommand = (\<lambda>n d r. r\<lparr>signatures := (n, \<lparr>sig_name = n, overloads = []\<rparr>) # signatures r\<rparr>),
     g_registerAlias = (\<lambda>n a r. r\<lparr>aliases := (a, n) # aliases r\<rparr>),
     g_addEnumValues = (\<lambda>e vs r.
       (case map_of (enum_lookup r) e of
          Some i \<Rightarrow> (fromEnumIndex i, r\<lparr>enums := (enums r)[i := enums r ! i @ map (\<lambda>_. (0, 0)) vs]\<rparr>)
        | None \<Rightarrow> (fromEnumIndex (length (enums r)),
            r\<lparr>enum_lookup := (e, length (enums r)) # enum_lookup r, enums := enums r @ [map (\<lambda>_. (0, 0)) vs]\<rparr>))),
     g_registerOverloadInternal = (\<lambda>_ _ r. r)\<rparr>"

definition demo_registry :: registry where
  "demo_registry = \<lparr>signatures = [(''help'', \<lparr>sig_name = ''help'', overloads = []\<rparr>)], aliases = [(''?'', ''help'')],
     enum_lookup = [(''Boolean'', 0), (''Block'', 1), (''EntityType'', 2)], enum_value_lookup = [],
     enums = [[(1, 0)], [(2, 0)], [(3, 0)]]\<rparr>"

definition demo_map :: command_map where
  "demo_map = \<lparr>game_registry = demo_registry, custom_commands = [], commands = (\<lambda>_. SeedCommand),
     next_command = 1, static_index = (\<lambda>_. None)\<rparr>"

lemma demo_laws: "game_laws demo_game"
  by (auto simp: game_laws_def demo_game_def enums_ok_def fun_eq_iff less_Suc_eq
      split: option.splits if_splits)

lemma demo_enums: "enums_ok demo_registry"
  by (auto simp: enums_ok_def demo_registry_def builtin_enums_def split: if_splits)

lemma demo_aliases: "aliases_ok demo_registry"
  by (auto simp: aliases_ok_def demo_registry_def sig_names_def split: if_splits)

lemma demo_map_ok: "map_ok demo_map" "map_inv demo_map"
  by (simp_all add: map_inv_def map_ok_def demo_map_def demo_aliases demo_enums)

lemma seed_parsed: "parse ''/seed'' = Inr \<lparr>command_name = ''seed'', parameters = []\<rparr>"
proof -
  have "print_usage \<lparr>command_name = ''seed'', parameters = []\<rparr> = ''/seed''" by (simp add: print_usage_def)
  moreover have "wf_usage \<lparr>command_name = ''seed'', parameters = []\<rparr>" by code_simp
  ultimately show ?thesis using parse_print by metis
qed

lemma seed_command: "cmd_name SeedCommand = ''seed''" "cmd_aliases SeedCommand = []" "cmd_usages SeedCommand = [''/seed'']"
  by code_simp+

lemma demo_get:
  "getCommand demo_map ''seed'' = Inr None" "getCommand demo_map ''HELP'' = Inr (Some (Vanilla ''help''))"
  by code_simp+

lemma demo_registration: "\<exists>m'. registerCommand demo_game 0 demo_map = Inr (True, m')"
proof -
  have "\<exists>m'. commit demo_game 0 [] [[]] demo_map = Inr (True, m')"
    using commit_names [OF demo_laws refl] by blast
  then show ?thesis
    using demo_get(1) by (simp add: registerCommand_def Let_def demo_map_def seed_command seed_parsed)
qed

theorem registerCommand_safe_witness:
  "\<exists>m'. registerCommand demo_game 0 demo_map = Inr (True, m') \<and>
    getCommand m' ''seed'' = Inr (Some (Custom 0)) \<and> getCommand m' ''HELP'' = Inr (Some (Vanilla ''help''))"
proof -
  obtain m' where m': "registerCommand demo_game 0 demo_map = Inr (True, m')" using demo_registration by blast
  have c: "wf_command (commands demo_map 0)" "\<not> registered (commands demo_map 0)"
    by (simp_all add: demo_map_def SeedCommand_def)
  have "cmd_name (commands m' 0) = ''seed''"
    using registerCommand_cases [OF demo_laws m' c] by (auto simp: demo_map_def seed_command)
  with registerCommand_safe [OF demo_laws demo_map_ok(1) c m'] m' demo_get(2) show ?thesis by auto
qed

theorem command_map_total_witness:
  "\<exists>m. chain (EndstoneCommandMap demo_game demo_registry)
      (fold_chain (map_step demo_game) [Register_Command SeedCommand, Clear_Commands]) = Inr m \<and>
    map_inv m \<and> (\<forall>name. \<exists>f. getCommand m name = Inr f)"
  by (rule command_map_total [OF demo_laws demo_enums demo_aliases]) (simp add: SeedCommand_def)

theorem clearCommands_defaults_witness:
  "\<exists>m'. clearCommands demo_game demo_map = Inr m' \<and> map_inv m'"
  using clearCommands_defaults [OF demo_laws demo_map_ok(2)] by blast

text \<open>A command with an \<open>entity_type\<close> argument.\<close>

definition ride_parameter :: parameter where
  "ride_parameter = \<lparr>param_name = ''mount'', param_type = ''entity_type'', optional = False, is_enum = False, param_values = []\<rparr>"

definition ride_data :: param_data where
  "ride_data = (parameter_data ride_parameter)\<lparr>pd_kind := Enum, enum_name_or_postfix := Some ''EntityType'',
     enum_symbol := fromEnumIndex 2\<rparr>"

definition ride_registry :: registry where
  "ride_registry = demo_registry\<lparr>signatures := [(''ride'', \<lparr>sig_name = ''ride'', overloads = [[ride_data]]\<rparr>)], aliases := []\<rparr>"

lemma ride_data_made:
  "\<exists>m1. add_parameter demo_game True ride_parameter demo_map = Inr (Some ride_data, m1)"
  by (simp add: add_parameter_def builtin_enum_def static_enum_def ride_parameter_def ride_data_def demo_map_def
      demo_registry_def at_def parameter_data_def)

theorem entity_types_cleared_witness:
  "enums ride_registry ! 2 = [(3, 0)] \<and>
    (\<exists>r'. unregister_registry True ''ride'' ride_registry = Inr r' \<and> enums r' ! 2 = [])"
proof
  show "enums ride_registry ! 2 = [(3, 0)]" by (simp add: ride_registry_def demo_registry_def)
  obtain m1 where m1: "add_parameter demo_game True ride_parameter demo_map = Inr (Some ride_data, m1)"
    using ride_data_made by blast
  have ok: "enums_ok ride_registry" "aliases_ok ride_registry"
    using demo_enums by (simp_all add: ride_registry_def enums_ok_def aliases_ok_def)
  show "\<exists>r'. unregister_registry True ''ride'' ride_registry = Inr r' \<and> enums r' ! 2 = []"
    by (rule entity_types_cleared [OF m1 _ _ _ _ ok, where s = "\<lparr>sig_name = ''ride'', overloads = [[ride_data]]\<rparr>"])
      (simp_all add: ride_parameter_def ride_registry_def demo_registry_def)
qed

end
