(* ===== verification/Uuid.thy ===== *)
theory Uuid
  imports Prelude
begin

text \<open>
  Identifiers: the API's 16-byte \<open>UUID\<close> (\<open>include/endstone/util/uuid.h\<close>), the game's pair of 64-bit words
  \<open>mce::UUID\<close> with its text form (\<open>src/bedrock/platform/uuid.cpp\<close>), and the conversions between them, which
  copy bytes in reverse into the memory of the words (\<open>src/endstone/core/util/uuid.cpp\<close>). The conversions are
  inverse to each other, keep the order and agree on the text; parsing reads back what was printed.
\<close>

subsection \<open>The API type\<close>

text \<open>The array of 16 bytes.\<close>

type_synonym uuid = bytes

definition uuid_bytes :: "uuid \<Rightarrow> bool" where
  "uuid_bytes u \<longleftrightarrow> length u = 16"

definition isNil :: "uuid \<Rightarrow> bool" where
  "isNil u \<longleftrightarrow> list_all (\<lambda>b. b = 0) u"

definition uuid_version :: "uuid \<Rightarrow> int" where
  "uuid_version u =
     (let octet9 = (u ! 6) AND 0xF0
      in if octet9 = 0x10 then 1 else if octet9 = 0x20 then 2 else if octet9 = 0x30 then 3
         else if octet9 = 0x40 then 4 else if octet9 = 0x50 then 5 else -1)"

definition hex_char :: "nat \<Rightarrow> char" where
  "hex_char n = ''0123456789abcdef'' ! n"

definition byte_hex :: "byte \<Rightarrow> string" where
  "byte_hex b = [hex_char (unat (drop_bit 4 b AND 0x0F)), hex_char (unat (b AND 0x0F))]"

definition str :: "uuid \<Rightarrow> string" where
  "str u = concat (map (\<lambda>i. byte_hex (u ! i) @ (if i = 3 \<or> i = 5 \<or> i = 7 \<or> i = 9 then ''-'' else [])) [0..<16])"

text \<open>\<open>memcmp(lhs, rhs) < 0\<close>.\<close>

fun memcmp_less :: "bytes \<Rightarrow> bytes \<Rightarrow> bool" where
  "memcmp_less (x # xs) (y # ys) = (if x = y then memcmp_less xs ys else x < y)"
| "memcmp_less _ _ = False"

definition hash_value :: "uuid \<Rightarrow> 64 word" where
  "hash_value u = foldl (\<lambda>seed i. seed XOR (ucast i + 0x9e3779b9 + push_bit 6 seed + drop_bit 2 seed)) 0 u"

subsection \<open>The game's type\<close>

type_synonym mce_uuid = "64 word \<times> 64 word"

definition EMPTY :: mce_uuid where
  "EMPTY = (0, 0)"

text \<open>\<open>std::hex\<close> prints the shortest numeral, \<open>std::setw\<close> and \<open>std::setfill('0')\<close> pad it.\<close>

fun hex :: "nat \<Rightarrow> string" where
  "hex n = (if n < 16 then [hex_char n] else hex (n div 16) @ [hex_char (n mod 16)])"

declare hex.simps [simp del]

definition setw :: "nat \<Rightarrow> string \<Rightarrow> string" where
  "setw w s = replicate (w - length s) CHR ''0'' @ s"

definition asString :: "mce_uuid \<Rightarrow> string" where
  "asString d =
     setw 8 (hex (unat (drop_bit 32 (fst d) AND 0xFFFFFFFF))) @ ''-'' @
     setw 4 (hex (unat (drop_bit 16 (fst d) AND 0xFFFF))) @ ''-'' @
     setw 4 (hex (unat (fst d AND 0xFFFF))) @ ''-'' @
     setw 4 (hex (unat (drop_bit 48 (snd d) AND 0xFFFF))) @ ''-'' @
     setw 12 (hex (unat (snd d AND 0xFFFFFFFFFFFF)))"

definition mce_less :: "mce_uuid \<Rightarrow> mce_uuid \<Rightarrow> bool" where
  "mce_less d e = (if fst d = fst e then snd d < snd e else fst d < fst e)"

text \<open>\<open>std::isxdigit\<close>.\<close>

definition isxdigit :: "char \<Rightarrow> bool" where
  "isxdigit c \<longleftrightarrow> c \<in> set ''0123456789abcdefABCDEF''"

definition canParse :: "string \<Rightarrow> bool" where
  "canParse s \<longleftrightarrow>
     (if length s = 32 then list_all isxdigit s
      else if length s = 36
      then list_all (\<lambda>i. if i = 8 \<or> i = 13 \<or> i = 18 \<or> i = 23 then s ! i = CHR ''-'' else isxdigit (s ! i)) [0..<36]
      else False)"

definition nibble :: "char \<Rightarrow> nat" where
  "nibble c =
     (let n = of_char c :: nat
      in if 48 \<le> n \<and> n \<le> 57 then n - 48 else if 97 \<le> n \<and> n \<le> 102 then n - 97 + 10 else n - 65 + 10)"

fun parse_nibbles :: "string \<Rightarrow> 64 word \<Rightarrow> 64 word \<Rightarrow> nat \<Rightarrow> mce_uuid" where
  "parse_nibbles [] high low cnt = (high, low)"
| "parse_nibbles (c # cs) high low cnt =
     (if c = CHR ''-'' then parse_nibbles cs high low cnt
      else if cnt < 16
      then parse_nibbles cs (high OR push_bit ((15 - cnt) * 4) (word_of_nat (nibble c))) low (Suc cnt)
      else parse_nibbles cs high (low OR push_bit ((31 - cnt) * 4) (word_of_nat (nibble c))) (Suc cnt))"

definition fromString :: "string \<Rightarrow> mce_uuid" where
  "fromString s = (if \<not> canParse s then EMPTY else parse_nibbles s 0 0 0)"

subsection \<open>The conversions\<close>

text \<open>\<open>std::reverse_copy\<close> of the bytes \<open>i\<close> to \<open>j\<close> of the source to an offset of the destination.\<close>

definition reverse_copy :: "bytes \<Rightarrow> nat \<Rightarrow> nat \<Rightarrow> nat \<Rightarrow> bytes \<Rightarrow> bytes" where
  "reverse_copy src i j k dst = take k dst @ rev (take (j - i) (drop i src)) @ drop (k + (j - i)) dst"

definition toMinecraft :: "uuid \<Rightarrow> mce_uuid" where
  "toMinecraft u =
     (let ms = reverse_copy u 6 8 0 (reverse_copy u 4 6 2 (reverse_copy u 0 4 4 (replicate 8 0)));
          ls = reverse_copy u 14 16 0 (reverse_copy u 10 14 2 (reverse_copy u 8 10 6 (replicate 8 0)))
      in (word_of_nat (le_nat ms), word_of_nat (le_nat ls)))"

definition fromMinecraft :: "mce_uuid \<Rightarrow> uuid" where
  "fromMinecraft d =
     (let ms = le_bytes 8 (fst d); ls = le_bytes 8 (snd d)
      in reverse_copy ls 0 2 14 (reverse_copy ls 2 6 10 (reverse_copy ls 6 8 8
           (reverse_copy ms 0 2 6 (reverse_copy ms 2 4 4 (reverse_copy ms 4 8 0 (replicate 16 0)))))))"

subsection \<open>Bytes in big-endian order\<close>

lemma le_nat_less: "le_nat bs < 256 ^ length bs"
proof (induction bs)
  case (Cons b bs)
  have "unat b < 256" using unat_lt2p [of b] by simp
  then show ?case using Cons by simp
qed simp

lemma digit_eq:
  fixes a b c d :: nat
  assumes "a < 256" and "b < 256" and "a + 256 * c = b + 256 * d"
  shows "a = b \<and> c = d"
proof -
  have "(a + 256 * c) mod 256 = a" "(b + 256 * d) mod 256 = b" using assms(1,2) by simp_all
  then have "a = b" using assms(3) by simp
  then show ?thesis using assms(3) by simp
qed

lemma le_nat_inject: "length xs = length ys \<Longrightarrow> le_nat xs = le_nat ys \<Longrightarrow> xs = ys"
proof (induction xs ys rule: list_induct2)
  case (Cons x xs y ys)
  have "unat x < 256" "unat y < 256" using unat_lt2p [of x] unat_lt2p [of y] by simp_all
  moreover have "unat x + 256 * le_nat xs = unat y + 256 * le_nat ys" using Cons.prems by simp
  ultimately have "unat x = unat y \<and> le_nat xs = le_nat ys" by (rule digit_eq)
  then have "x = y" "le_nat xs = le_nat ys" by (auto intro: unsigned_word_eqI)
  then show ?case using Cons.IH by simp
qed simp

lemma le_bytes_le_nat:
  assumes "length bs = 8"
  shows "le_bytes 8 (word_of_nat (le_nat bs) :: 64 word) = bs"
proof (rule le_nat_inject)
  have "le_nat bs < 2 ^ 64" using le_nat_less [of bs] assms by simp
  then show "le_nat (le_bytes 8 (word_of_nat (le_nat bs) :: 64 word)) = le_nat bs"
    by (simp add: le_nat_le_bytes unat_of_nat)
qed (simp add: assms)

lemma list8: "length bs = 8 \<Longrightarrow> \<exists>a b c d e f g h. bs = [a, b, c, d, e, f, g, h]"
proof -
  assume "length bs = 8"
  then have "bs = [bs ! 0, bs ! 1, bs ! 2, bs ! 3, bs ! 4, bs ! 5, bs ! 6, bs ! 7]"
    using map_nth [of bs] by (simp add: upt_rec eval_nat_numeral)
  then show ?thesis by blast
qed

lemma toMinecraft_be:
  assumes "uuid_bytes u"
  shows "toMinecraft u = (word_of_nat (le_nat (rev (take 8 u))), word_of_nat (le_nat (rev (drop 8 u))))"
proof -
  obtain a b c d e f g h where hi: "take 8 u = [a, b, c, d, e, f, g, h]"
    using list8 [of "take 8 u"] assms by (auto simp: uuid_bytes_def)
  obtain i j k l m n p q where lo: "drop 8 u = [i, j, k, l, m, n, p, q]"
    using list8 [of "drop 8 u"] assms by (auto simp: uuid_bytes_def)
  have u: "u = [a, b, c, d, e, f, g, h, i, j, k, l, m, n, p, q]"
    using append_take_drop_id [of 8 u] by (simp add: hi lo)
  show ?thesis by (simp add: toMinecraft_def reverse_copy_def u del: le_nat.simps)
qed

lemma fromMinecraft_be: "fromMinecraft d = be_bytes 8 (fst d) @ be_bytes 8 (snd d)"
proof -
  obtain a b c d1 e f g h where hi: "le_bytes 8 (fst d) = [a, b, c, d1, e, f, g, h]"
    using list8 [of "le_bytes 8 (fst d)"] by auto
  obtain i j k l m n p q where lo: "le_bytes 8 (snd d) = [i, j, k, l, m, n, p, q]"
    using list8 [of "le_bytes 8 (snd d)"] by auto
  show ?thesis by (simp add: fromMinecraft_def reverse_copy_def be_bytes_def hi lo)
qed

lemma rev_be_bytes: "rev (be_bytes n w) = le_bytes n w"
  by (simp add: be_bytes_def)

lemma from_to: "uuid_bytes u \<Longrightarrow> fromMinecraft (toMinecraft u) = u"
  by (simp add: fromMinecraft_be toMinecraft_be be_bytes_def le_bytes_le_nat uuid_bytes_def)

lemma to_from: "toMinecraft (fromMinecraft d) = d"
proof -
  have "uuid_bytes (fromMinecraft d)" by (simp add: fromMinecraft_be uuid_bytes_def)
  then show ?thesis
    by (simp add: toMinecraft_be fromMinecraft_be rev_be_bytes le_nat_word)
qed

subsection \<open>Order\<close>

lemma le_nat_snoc: "le_nat (bs @ [b]) = le_nat bs + unat b * 256 ^ length bs"
  by (induction bs) (simp_all add: algebra_simps)

lemma digit_less:
  fixes a b c d m :: nat
  assumes "a < m" and "b < m"
  shows "a + c * m < b + d * m \<longleftrightarrow> (if c = d then a < b else c < d)"
proof (cases c d rule: linorder_cases)
  case less
  then have "Suc c * m \<le> d * m" by (intro mult_le_mono1) simp
  then show ?thesis using assms less by simp
next
  case greater
  then have "Suc d * m \<le> c * m" by (intro mult_le_mono1) simp
  then show ?thesis using assms greater by simp
qed simp

lemma memcmp_le_nat:
  "length xs = length ys \<Longrightarrow> memcmp_less xs ys \<longleftrightarrow> le_nat (rev xs) < le_nat (rev ys)"
proof (induction xs ys rule: list_induct2)
  case (Cons x xs y ys)
  have "le_nat (rev xs) < 256 ^ length xs" "le_nat (rev ys) < 256 ^ length xs"
    using le_nat_less [of "rev xs"] le_nat_less [of "rev ys"] Cons.hyps by simp_all
  then show ?case
    using Cons by (simp add: le_nat_snoc digit_less word_less_nat_alt unsigned_word_eqI)
qed simp

lemma memcmp_append:
  "length a = length b \<Longrightarrow> memcmp_less (a @ c) (b @ d) = (if a = b then memcmp_less c d else memcmp_less a b)"
  by (induction a b rule: list_induct2) auto

lemma word_less_le_nat:
  assumes "length xs = 8" and "length ys = 8"
  shows "(word_of_nat (le_nat xs) :: 64 word) < word_of_nat (le_nat ys) \<longleftrightarrow> le_nat xs < le_nat ys"
  using le_nat_less [of xs] le_nat_less [of ys] assms by (simp add: word_less_nat_alt unat_of_nat)

lemma order_kept:
  assumes "uuid_bytes u" and "uuid_bytes v"
  shows "mce_less (toMinecraft u) (toMinecraft v) \<longleftrightarrow> memcmp_less u v"
proof -
  have l: "length (take 8 u) = 8" "length (take 8 v) = 8" "length (drop 8 u) = 8" "length (drop 8 v) = 8"
    using assms by (simp_all add: uuid_bytes_def)
  have eq: "(word_of_nat (le_nat (rev (take 8 u))) :: 64 word) = word_of_nat (le_nat (rev (take 8 v)))
      \<longleftrightarrow> take 8 u = take 8 v"
    using le_bytes_le_nat [of "rev (take 8 u)"] le_bytes_le_nat [of "rev (take 8 v)"] l
    by (metis length_rev rev_rev_ident)
  have "memcmp_less u v \<longleftrightarrow> memcmp_less (take 8 u @ drop 8 u) (take 8 v @ drop 8 v)" by simp
  also have "\<dots> \<longleftrightarrow> (if take 8 u = take 8 v then memcmp_less (drop 8 u) (drop 8 v) else memcmp_less (take 8 u) (take 8 v))"
    by (rule memcmp_append) (simp only: l)
  finally show ?thesis
    using l by (simp add: mce_less_def toMinecraft_be [OF assms(1)] toMinecraft_be [OF assms(2)] eq
        word_less_le_nat memcmp_le_nat)
qed

subsection \<open>Hexadecimal text\<close>

text \<open>Exactly \<open>k\<close> digits.\<close>

fun hexfix :: "nat \<Rightarrow> nat \<Rightarrow> string" where
  "hexfix 0 n = []"
| "hexfix (Suc k) n = hexfix k (n div 16) @ [hex_char (n mod 16)]"

lemma length_hexfix [simp]: "length (hexfix k n) = k"
  by (induction k arbitrary: n) auto

lemma hexfix_zero: "hexfix k 0 = replicate k CHR ''0''"
  by (induction k) (simp_all add: hex_char_def replicate_append_same)

lemma length_hex: "n < 16 ^ Suc k \<Longrightarrow> length (hex n) \<le> Suc k"
proof (induction k arbitrary: n)
  case 0
  then show ?case by (subst hex.simps) simp
next
  case (Suc k)
  then have "n div 16 < 16 ^ Suc k" by (simp add: div_less_iff_less_mult)
  from Suc.IH [OF this] show ?case by (subst hex.simps) simp
qed

lemma setw_hex: "n < 16 ^ Suc k \<Longrightarrow> setw (Suc k) (hex n) = hexfix (Suc k) n"
proof (induction k arbitrary: n)
  case 0
  then show ?case by (subst hex.simps) (simp add: setw_def)
next
  case (Suc k)
  show ?case
  proof (cases "n < 16")
    case True
    then show ?thesis by (subst hex.simps) (simp add: setw_def hexfix_zero replicate_append_same hex_char_def)
  next
    case False
    have "n div 16 < 16 ^ Suc k" using Suc.prems by (simp add: div_less_iff_less_mult)
    from Suc.IH [OF this] have "setw (Suc k) (hex (n div 16)) = hexfix (Suc k) (n div 16)" .
    then show ?thesis using False by (subst hex.simps) (simp add: setw_def)
  qed
qed

lemma hexfix_add: "hexfix (j + k) n = hexfix j (n div 16 ^ k) @ hexfix k n"
  by (induction k arbitrary: n) (simp_all add: div_mult2_eq)

lemma hexfix_mod: "hexfix k (n mod 16 ^ k) = hexfix k n"
proof (induction k arbitrary: n)
  case (Suc k)
  have "n mod 16 ^ Suc k div 16 = n div 16 mod 16 ^ k" by (simp add: mod_mult2_eq)
  moreover have "n mod 16 ^ Suc k mod 16 = n mod 16" by (simp add: mod_mult2_eq)
  ultimately show ?case using Suc.IH [of "n div 16"] by simp
qed simp

lemma unat_and_mask: "unat (w AND mask n) = unat (w :: 'a::len word) mod 2 ^ n"
  by (simp add: take_bit_eq_mask [symmetric] unsigned_take_bit_eq take_bit_eq_mod [where 'a = nat])

lemma hexfix_2: "hexfix 2 n = [hex_char (n div 16 mod 16), hex_char (n mod 16)]"
  by (simp add: numeral_2_eq_2)

lemma byte_hex_fix: "byte_hex b = hexfix 2 (unat b)"
proof -
  have m: "(0x0F :: byte) = mask 4" by (simp add: mask_eq_exp_minus_1)
  have "unat (drop_bit 4 b) < 16" using unat_lt2p [of b] by (simp add: unat_drop_bit_word div_less_iff_less_mult)
  then show ?thesis unfolding byte_hex_def m unat_and_mask
    by (simp add: hexfix_2 unat_drop_bit_word)
qed

lemma hexfix_bytes: "hexfix (2 * length bs) (le_nat (rev bs)) = concat (map byte_hex bs)"
proof (induction bs rule: rev_induct)
  case (snoc b bs)
  let ?n = "unat b + 256 * le_nat (rev bs)"
  have "unat b < 256" using unat_lt2p [of b] by simp
  then have n: "?n div 16 ^ 2 = le_nat (rev bs)" "?n mod 16 ^ 2 = unat b" by simp_all
  have "hexfix 2 ?n = hexfix 2 (unat b)" using hexfix_mod [of 2 ?n] by (simp only: n(2))
  then have "hexfix (2 * length bs + 2) ?n = hexfix (2 * length bs) (le_nat (rev bs)) @ hexfix 2 (unat b)"
    by (simp only: hexfix_add n(1))
  moreover have "2 * length (bs @ [b]) = 2 * length bs + 2" by simp
  ultimately have "hexfix (2 * length (bs @ [b])) ?n = concat (map byte_hex bs) @ byte_hex b"
    by (simp only: snoc byte_hex_fix [of b])
  then show ?case by simp
qed simp

subsection \<open>The text of an identifier\<close>

text \<open>Thirty-two digits with the four hyphens.\<close>

definition hyphenate :: "string \<Rightarrow> string \<Rightarrow> string" where
  "hyphenate hi lo = take 8 hi @ ''-'' @ take 4 (drop 8 hi) @ ''-'' @ drop 12 hi @ ''-'' @ take 4 lo @ ''-'' @ drop 4 lo"

lemma hexfix_take:
  assumes "i + j \<le> k"
  shows "take j (drop i (hexfix k n)) = hexfix j (n div 16 ^ (k - i - j))"
proof -
  have "hexfix k n = hexfix (i + (j + (k - i - j))) n" using assms by simp
  also have "\<dots> = hexfix i (n div 16 ^ (j + (k - i - j))) @ hexfix j (n div 16 ^ (k - i - j)) @ hexfix (k - i - j) n"
    by (simp only: hexfix_add)
  finally show ?thesis by simp
qed

lemma and_hexfix:
  assumes "m = 16 ^ Suc k - 1" and "4 * Suc k \<le> 64"
  shows "setw (Suc k) (hex (unat (w AND word_of_nat m))) = hexfix (Suc k) (unat (w :: 64 word))"
proof -
  have p: "(16 :: nat) ^ Suc k = 2 ^ (4 * Suc k)" by (simp only: power_mult) simp
  have "(word_of_nat m :: 64 word) = mask (4 * Suc k)"
    by (simp only: assms(1) p mask_eq_exp_minus_1) (simp add: of_nat_diff)
  then have u: "unat (w AND word_of_nat m) = unat w mod 16 ^ Suc k"
    by (simp only: unat_and_mask p)
  have "unat w mod 16 ^ Suc k < 16 ^ Suc k" by simp
  from setw_hex [OF this] show ?thesis by (simp only: u hexfix_mod)
qed

lemma asString_hexfix: "asString d = hyphenate (hexfix 16 (unat (fst d))) (hexfix 16 (unat (snd d)))"
proof -
  have a: "setw 8 (hex (unat (drop_bit 32 (fst d) AND 0xFFFFFFFF))) = hexfix 8 (unat (fst d) div 16 ^ 8)"
    using and_hexfix [of "0xFFFFFFFF" 7 "drop_bit 32 (fst d)"] by (simp add: unat_drop_bit_word)
  have b: "setw 4 (hex (unat (drop_bit 16 (fst d) AND 0xFFFF))) = hexfix 4 (unat (fst d) div 16 ^ 4)"
    using and_hexfix [of "0xFFFF" 3 "drop_bit 16 (fst d)"] by (simp add: unat_drop_bit_word)
  have c: "setw 4 (hex (unat (fst d AND 0xFFFF))) = hexfix 4 (unat (fst d))"
    using and_hexfix [of "0xFFFF" 3 "fst d"] by simp
  have e: "setw 4 (hex (unat (drop_bit 48 (snd d) AND 0xFFFF))) = hexfix 4 (unat (snd d) div 16 ^ 12)"
    using and_hexfix [of "0xFFFF" 3 "drop_bit 48 (snd d)"] by (simp add: unat_drop_bit_word)
  have f: "setw 12 (hex (unat (snd d AND 0xFFFFFFFFFFFF))) = hexfix 12 (unat (snd d))"
    using and_hexfix [of "0xFFFFFFFFFFFF" 11 "snd d"] by simp
  have hi: "take 8 (hexfix 16 n) = hexfix 8 (n div 16 ^ 8)" "take 4 (drop 8 (hexfix 16 n)) = hexfix 4 (n div 16 ^ 4)"
    "drop 12 (hexfix 16 n) = hexfix 4 n" "take 4 (hexfix 16 n) = hexfix 4 (n div 16 ^ 12)"
    "drop 4 (hexfix 16 n) = hexfix 12 n" for n
    using hexfix_take [of 0 8 16 n] hexfix_take [of 8 4 16 n] hexfix_take [of 12 4 16 n] hexfix_take [of 0 4 16 n]
      hexfix_take [of 4 12 16 n] by simp_all
  show ?thesis by (simp only: asString_def hyphenate_def a b c e f hi)
qed

lemma str_asString:
  assumes "uuid_bytes u"
  shows "asString (toMinecraft u) = str u"
proof -
  obtain a b c d e f g h where hi: "take 8 u = [a, b, c, d, e, f, g, h]"
    using list8 [of "take 8 u"] assms by (auto simp: uuid_bytes_def)
  obtain i j k l m n p q where lo: "drop 8 u = [i, j, k, l, m, n, p, q]"
    using list8 [of "drop 8 u"] assms by (auto simp: uuid_bytes_def)
  have u: "u = [a, b, c, d, e, f, g, h, i, j, k, l, m, n, p, q]"
    using append_take_drop_id [of 8 u] by (simp add: hi lo)
  have digits: "hexfix 16 (unat (word_of_nat (le_nat (rev bs)) :: 64 word)) = concat (map byte_hex bs)"
    if "length bs = 8" for bs
  proof -
    have "le_nat (rev bs) < 2 ^ 64" using le_nat_less [of "rev bs"] that by simp
    then show ?thesis using hexfix_bytes [of bs] that by (simp add: unat_of_nat)
  qed
  have "asString (toMinecraft u) = hyphenate (concat (map byte_hex (take 8 u))) (concat (map byte_hex (drop 8 u)))"
    using assms by (simp add: asString_hexfix toMinecraft_be digits uuid_bytes_def)
  also have "\<dots> = str u"
    by (simp add: hi lo) (simp add: hyphenate_def str_def u byte_hex_def upt_conv_Cons)
  finally show ?thesis .
qed

subsection \<open>Parsing\<close>

lemma small_digits: "n < 16 \<Longrightarrow> n \<in> set [0..<16]"
  by simp

lemma nibble_hex: "\<forall>n \<in> set [0..<16]. nibble (hex_char n) = n \<and> isxdigit (hex_char n) \<and> hex_char n \<noteq> CHR ''-''"
  by code_simp

lemma nibble_hex_char [simp]:
  "nibble (hex_char (n mod 16)) = n mod 16" "isxdigit (hex_char (n mod 16))" "hex_char (n mod 16) \<noteq> CHR ''-''"
  using nibble_hex small_digits [of "n mod 16"] by auto

lemma hexfix_nth: "j < k \<Longrightarrow> hexfix k n ! j = hex_char (n div 16 ^ (k - 1 - j) mod 16)"
proof (induction k arbitrary: n)
  case (Suc k)
  show ?case
  proof (cases "j < k")
    case True
    then have "k - j = Suc (k - 1 - j)" by simp
    then show ?thesis using Suc.IH [OF True, of "n div 16"] True by (simp add: nth_append div_mult2_eq)
  next
    case False
    then show ?thesis using Suc.prems by (simp add: nth_append)
  qed
qed simp

lemma hexfix_digits: "list_all isxdigit (hexfix k n)" "list_all (\<lambda>c. c \<noteq> CHR ''-'') (hexfix k n)"
  by (induction k arbitrary: n) auto

lemma parse_nibbles_hyphens: "parse_nibbles s h l i = parse_nibbles (filter (\<lambda>c. c \<noteq> CHR ''-'') s) h l i"
  by (induction s h l i rule: parse_nibbles.induct) auto

text \<open>After \<open>j\<close> of its sixteen digits a word has its upper \<open>4 * j\<close> bits.\<close>

definition upper :: "nat \<Rightarrow> 64 word \<Rightarrow> 64 word" where
  "upper j w = push_bit (64 - 4 * j) (drop_bit (64 - 4 * j) w)"

lemma upper_step:
  assumes "j < 16"
  shows "upper j w OR push_bit ((15 - j) * 4) (word_of_nat (unat w div 16 ^ (15 - j) mod 16)) = upper (Suc j) w"
proof -
  have "word_of_nat (unat w div 16 ^ (15 - j) mod 16) = drop_bit ((15 - j) * 4) w AND mask 4"
  proof (rule unsigned_word_eqI [where ?'a = nat])
    have "unat (drop_bit ((15 - j) * 4) w) = unat w div 16 ^ (15 - j)"
      by (simp add: unat_drop_bit_word power_mult mult.commute [of _ 4])
    then have "unat (drop_bit ((15 - j) * 4) w AND mask 4) = unat w div 16 ^ (15 - j) mod 16"
      by (simp only: unat_and_mask) simp
    moreover have "unat w div 16 ^ (15 - j) mod 16 < 2 ^ 64" by (rule less_trans [of _ 16]) simp_all
    ultimately show "unat (word_of_nat (unat w div 16 ^ (15 - j) mod 16) :: 64 word) = unat (drop_bit ((15 - j) * 4) w AND mask 4)"
      by (simp add: unat_of_nat)
  qed
  moreover have "64 - 4 * j = (15 - j) * 4 + 4" "64 - 4 * Suc j = (15 - j) * 4" using assms by simp_all
  ultimately have "upper j w OR push_bit ((15 - j) * 4) (word_of_nat (unat w div 16 ^ (15 - j) mod 16))
      = push_bit ((15 - j) * 4 + 4) (drop_bit ((15 - j) * 4 + 4) w) OR push_bit ((15 - j) * 4) (drop_bit ((15 - j) * 4) w AND mask 4)"
    by (simp only: upper_def)
  also have "\<dots> = push_bit ((15 - j) * 4) (drop_bit ((15 - j) * 4) w)"
  proof (rule bit_eqI)
    fix n
    show "bit (push_bit ((15 - j) * 4 + 4) (drop_bit ((15 - j) * 4 + 4) w)
        OR push_bit ((15 - j) * 4) (drop_bit ((15 - j) * 4) w AND mask 4)) n
      \<longleftrightarrow> bit (push_bit ((15 - j) * 4) (drop_bit ((15 - j) * 4) w)) n"
      by (cases "(15 - j) * 4 + 4 \<le> n") (auto simp: bit_simps)
  qed
  also have "\<dots> = upper (Suc j) w"
    using assms by (simp add: upper_def diff_mult_distrib mult.commute [of 4])
  finally show ?thesis .
qed

lemma upper_simps [simp]: "upper 0 w = 0" "upper 16 w = w"
  by (simp_all add: upper_def)

lemma drop_hexfix: "j < 16 \<Longrightarrow> drop j (hexfix 16 n) = hex_char (n div 16 ^ (15 - j) mod 16) # drop (Suc j) (hexfix 16 n)"
  by (simp add: Cons_nth_drop_Suc [symmetric] hexfix_nth)

lemma parse_high:
  "j \<le> 16 \<Longrightarrow> parse_nibbles (drop (16 - j) (hexfix 16 (unat w)) @ s) (upper (16 - j) w) l (16 - j)
    = parse_nibbles s w l 16"
proof (induction j)
  case (Suc j)
  then have j: "15 - j < 16" "Suc (15 - j) = 16 - j" "15 - (15 - j) = j" "16 - Suc j = 15 - j" by simp_all
  show ?case
    using Suc upper_step [OF j(1), of w] by (simp add: drop_hexfix [OF j(1)] j del: upper_simps)
qed simp

lemma parse_low:
  "j \<le> 16 \<Longrightarrow> parse_nibbles (drop (16 - j) (hexfix 16 (unat w))) h (upper (16 - j) w) (32 - j) = (h, w)"
proof (induction j)
  case (Suc j)
  then have j: "15 - j < 16" "Suc (15 - j) = 16 - j" "15 - (15 - j) = j" "16 - Suc j = 15 - j"
    "32 - Suc j = 31 - j" "\<not> 31 - j < 16" "31 - (31 - j) = j" "Suc (31 - j) = 32 - j" by simp_all
  show ?case
    using Suc upper_step [OF j(1), of w] by (simp add: drop_hexfix [OF j(1)] j del: upper_simps)
qed simp

lemma parse_digits: "parse_nibbles (hexfix 16 (unat h) @ hexfix 16 (unat l)) 0 0 0 = (h, l)"
  using parse_high [of 16 h "hexfix 16 (unat l)" 0] parse_low [of 16 l h] by simp

lemma filter_hexfix: "filter (\<lambda>c. c \<noteq> CHR ''-'') (hexfix k n) = hexfix k n"
  using hexfix_digits(2) [of k n] by (simp add: filter_id_conv list_all_iff)

lemma filter_hyphenate:
  assumes "filter P hi = hi" and "filter P lo = lo" and "\<not> P CHR ''-''"
  shows "filter P (hyphenate hi lo) = hi @ lo"
proof -
  have all: "filter P (take i (drop j xs)) = take i (drop j xs)" if "filter P xs = xs" for i j and xs :: string
    using that by (auto simp: filter_id_conv dest!: in_set_takeD in_set_dropD)
  have "filter P (hyphenate hi lo) = take 8 hi @ take 4 (drop 8 hi) @ drop 12 hi @ take 4 lo @ drop 4 lo"
    using all [OF assms(1), of 8 0] all [OF assms(1), of 4 8] all [OF assms(1), of "length hi" 12]
      all [OF assms(2), of 4 0] all [OF assms(2), of "length lo" 4] assms(3) by (simp add: hyphenate_def)
  also have "\<dots> = hi @ lo"
    using append_take_drop_id [of 8 hi] append_take_drop_id [of 4 "drop 8 hi"] by (simp add: append_take_drop_id)
  finally show ?thesis .
qed

lemma canParse_hyphenate:
  assumes "length hi = 16" "length lo = 16" "list_all isxdigit hi" "list_all isxdigit lo"
  shows "canParse (hyphenate hi lo)"
proof -
  have "isxdigit (hi ! i)" "isxdigit (lo ! i)" if "i < 16" for i
    using assms that by (simp_all add: list_all_length)
  then show ?thesis using assms(1,2)
    by (auto simp: canParse_def hyphenate_def list_all_iff nth_append nth_Cons')
qed

lemma parse_asString: "canParse (asString d) \<and> fromString (asString d) = d"
proof -
  let ?hi = "hexfix 16 (unat (fst d))" and ?lo = "hexfix 16 (unat (snd d))"
  have c: "canParse (asString d)"
    by (simp add: asString_hexfix canParse_hyphenate hexfix_digits)
  have "filter (\<lambda>c. c \<noteq> CHR ''-'') (asString d) = ?hi @ ?lo"
    by (simp add: asString_hexfix filter_hyphenate filter_hexfix)
  then have "parse_nibbles (asString d) 0 0 0 = d"
    using parse_digits [of "fst d" "snd d"] by (subst parse_nibbles_hyphens) simp
  with c show ?thesis by (simp add: fromString_def)
qed

lemma parse_compact:
  "canParse (hexfix 16 (unat (fst d)) @ hexfix 16 (unat (snd d)))"
  "fromString (hexfix 16 (unat (fst d)) @ hexfix 16 (unat (snd d))) = d"
  using parse_digits [of "fst d" "snd d"] by (simp_all add: canParse_def fromString_def hexfix_digits)

subsection \<open>Properties\<close>

text \<open>The conversions between the API's identifier and the game's pair of words are inverse to each other,
  the byte-wise order of the API is the order of the game, and both print the same text.\<close>

theorem uuid_conversion:
  assumes "uuid_bytes u" and "uuid_bytes v"
  shows "fromMinecraft (toMinecraft u) = u \<and> toMinecraft (fromMinecraft d) = d \<and>
    mce_less (toMinecraft u) (toMinecraft v) = memcmp_less u v \<and> asString (toMinecraft u) = str u"
  using from_to [OF assms(1)] to_from order_kept [OF assms] str_asString [OF assms(1)] by simp

text \<open>The printed text of every identifier is accepted and read back to it, and so is the text without
  hyphens.\<close>

theorem uuid_text_roundtrip:
  "canParse (asString d) \<and> fromString (asString d) = d \<and>
   canParse (filter (\<lambda>c. c \<noteq> CHR ''-'') (asString d)) \<and> fromString (filter (\<lambda>c. c \<noteq> CHR ''-'') (asString d)) = d"
proof -
  have "filter (\<lambda>c. c \<noteq> CHR ''-'') (asString d) = hexfix 16 (unat (fst d)) @ hexfix 16 (unat (snd d))"
    by (simp add: asString_hexfix filter_hyphenate filter_hexfix)
  then show ?thesis using parse_asString [of d] parse_compact [of d] by simp
qed

subsection \<open>Witnesses\<close>

theorem uuid_conversion_witness:
  "fromMinecraft (toMinecraft (map word_of_nat [0..<16])) = map word_of_nat [0..<16] \<and>
    mce_less (toMinecraft (replicate 16 0)) (toMinecraft (replicate 16 1)) = memcmp_less (replicate 16 0) (replicate 16 1)"
  using uuid_conversion [of "map word_of_nat [0..<16]" "map word_of_nat [0..<16]"]
    uuid_conversion [of "replicate 16 0" "replicate 16 1"] by (simp add: uuid_bytes_def)

end
