(* ===== verification/Bans.thy ===== *)
theory Bans
  imports Uuid
begin

text \<open>
  Ban lists (\<open>src/endstone/core/ban/ban_list.h\<close> with the two matchers of \<open>ip_ban_list.cpp\<close> and
  \<open>player_ban_list.cpp\<close>), their file, the ban commands (\<open>src/endstone/core/command/defaults/\<close>) and the check
  at login (\<open>src/endstone/runtime/bedrock_hooks/server_network_handler.cpp\<close>). The class template over a
  matcher is a locale: its lemmas are proved once and hold for addresses and for players. The JSON library,
  the date library and the parser of textual UUIDs are not in the repository and are parameters (record
  \<open>codec\<close>).
\<close>

subsection \<open>Entries\<close>

text \<open>A point in time is its number of ticks of the system clock.\<close>

type_synonym date = int

record 'i ban_entry =
  ident :: 'i
  created :: date
  ban_source :: string
  expiration :: "date option"
  reason :: string

definition new_entry :: "'i \<Rightarrow> date \<Rightarrow> 'i ban_entry" where
  "new_entry i now = \<lparr>ident = i, created = now, ban_source = ''(Unknown)'', expiration = None,
     reason = ''Banned by an operator.''\<rparr>"

record player_id =
  player_name :: string
  unique_id :: "uuid option"
  xuid :: "string option"

text \<open>\<open>boost::iequals\<close> in the "C" locale.\<close>

definition iequals :: "string \<Rightarrow> string \<Rightarrow> bool" where
  "iequals a b \<longleftrightarrow> map toupper a = map toupper b"

definition IpBanEntryMatcher :: "string ban_entry \<Rightarrow> string \<Rightarrow> bool" where
  "IpBanEntryMatcher e address \<longleftrightarrow> ident e = address"

definition PlayerBanEntryMatcher :: "player_id ban_entry \<Rightarrow> player_id \<Rightarrow> bool" where
  "PlayerBanEntryMatcher e t \<longleftrightarrow>
     iequals (player_name (ident e)) (player_name t) \<and>
     (case (unique_id t, unique_id (ident e)) of (Some u, Some v) \<Rightarrow> v = u | _ \<Rightarrow> True) \<and>
     (case (xuid t, xuid (ident e)) of
        (Some x, Some y) \<Rightarrow> (if x \<noteq> [] \<and> y \<noteq> [] then y = x else True) | _ \<Rightarrow> True)"

subsection \<open>The list\<close>

text \<open>The list and the text of its file, \<open>None\<close> when there is none.\<close>

record 'i ban_list =
  entries :: "'i ban_entry list"
  file_text :: "string option"

type_synonym ('i, 't) matcher = "'i ban_entry \<Rightarrow> 't \<Rightarrow> bool"

definition getBanEntry :: "('i, 't) matcher \<Rightarrow> 't \<Rightarrow> 'i ban_list \<Rightarrow> 'i ban_entry option" where
  "getBanEntry matches t l = find (\<lambda>e. matches e t) (entries l)"

definition expired :: "date \<Rightarrow> 'i ban_entry \<Rightarrow> bool" where
  "expired now e \<longleftrightarrow> (case expiration e of None \<Rightarrow> False | Some d \<Rightarrow> d < now)"

definition removeExpired :: "date \<Rightarrow> 'i ban_list \<Rightarrow> 'i ban_list" where
  "removeExpired now l = l\<lparr>entries := filter (\<lambda>e. \<not> expired now e) (entries l)\<rparr>"

text \<open>\<open>isBanned\<close> is declared \<open>const\<close> and casts that away: the expired entries go, the file is not written.\<close>

definition isBanned :: "('i, 't) matcher \<Rightarrow> date \<Rightarrow> 't \<Rightarrow> 'i ban_list \<Rightarrow> bool \<times> 'i ban_list" where
  "isBanned matches now t l =
     (let l1 = removeExpired now l in (getBanEntry matches t l1 \<noteq> None, l1))"

text \<open>\<open>save\<close> writes the file; its \<open>Result\<close> is dropped by the callers. \<open>write_file\<close> is the text of the entries,
  or \<open>None\<close> when the file cannot be written.\<close>

definition save :: "('i ban_entry list \<Rightarrow> string option) \<Rightarrow> 'i ban_list \<Rightarrow> 'i ban_list" where
  "save write_file l = (case write_file (entries l) of None \<Rightarrow> l | Some text \<Rightarrow> l\<lparr>file_text := Some text\<rparr>)"

definition set_optional :: "('a \<Rightarrow> 'b \<Rightarrow> 'b) \<Rightarrow> 'a option \<Rightarrow> 'b \<Rightarrow> 'b" where
  "set_optional f x e = (case x of None \<Rightarrow> e | Some v \<Rightarrow> f v e)"

definition ban_entry_for :: "'i \<Rightarrow> date \<Rightarrow> string option \<Rightarrow> date option \<Rightarrow> string option \<Rightarrow> 'i ban_entry" where
  "ban_entry_for i now why until by_whom =
     set_optional (\<lambda>s e. e\<lparr>ban_source := s\<rparr>) by_whom
       ((set_optional (\<lambda>r e. e\<lparr>reason := r\<rparr>) why (new_entry i now))\<lparr>expiration := until\<rparr>)"

text \<open>\<open>i\<close> is the identity of the entry made for the target \<open>t\<close>.\<close>

definition addBan ::
  "('i, 't) matcher \<Rightarrow> ('i ban_entry list \<Rightarrow> string option) \<Rightarrow> date \<Rightarrow> 'i \<Rightarrow> 't \<Rightarrow> string option \<Rightarrow> date option
   \<Rightarrow> string option \<Rightarrow> 'i ban_list \<Rightarrow> 'i ban_entry \<times> 'i ban_list" where
  "addBan matches write_file now i t why until by_whom l =
     (let e = ban_entry_for i now why until by_whom
      in (e, save write_file (l\<lparr>entries := filter (\<lambda>e. \<not> matches e t) (entries l) @ [e]\<rparr>)))"

text \<open>The overload with a duration.\<close>

definition addBan_for ::
  "('i, 't) matcher \<Rightarrow> ('i ban_entry list \<Rightarrow> string option) \<Rightarrow> date \<Rightarrow> 'i \<Rightarrow> 't \<Rightarrow> string option \<Rightarrow> int
   \<Rightarrow> string option \<Rightarrow> 'i ban_list \<Rightarrow> 'i ban_entry \<times> 'i ban_list" where
  "addBan_for matches write_file now i t why duration by_whom l =
     addBan matches write_file now i t why (Some (now + duration)) by_whom l"

fun erase_first :: "('a \<Rightarrow> bool) \<Rightarrow> 'a list \<Rightarrow> 'a list" where
  "erase_first P [] = []"
| "erase_first P (x # xs) = (if P x then xs else x # erase_first P xs)"

definition removeBan :: "('i, 't) matcher \<Rightarrow> ('i ban_entry list \<Rightarrow> string option) \<Rightarrow> 't \<Rightarrow> 'i ban_list \<Rightarrow> 'i ban_list" where
  "removeBan matches write_file t l =
     (if list_ex (\<lambda>e. matches e t) (entries l)
      then save write_file (l\<lparr>entries := erase_first (\<lambda>e. matches e t) (entries l)\<rparr>)
      else l)"

subsection \<open>The contract of a matcher\<close>

text \<open>The entry made for a target matches it; \<open>as_id\<close> is the identity the entry gets.\<close>

locale matcher =
  fixes matches :: "'i ban_entry \<Rightarrow> 't \<Rightarrow> bool"
    and as_id :: "'t \<Rightarrow> 'i"
  assumes match_self: "ident e = as_id t \<Longrightarrow> matches e t"
begin

lemma entry_for_matches: "matches (ban_entry_for (as_id t) now why until by_whom) t"
  by (rule match_self)
    (simp add: ban_entry_for_def set_optional_def new_entry_def split: option.splits)

lemma addBan_found:
  "getBanEntry matches t (snd (addBan matches w now (as_id t) t why until by_whom l))
     = Some (ban_entry_for (as_id t) now why until by_whom)"
proof -
  have "find (\<lambda>e. matches e t) (filter (\<lambda>e. \<not> matches e t) es @ [x]) = Some x" if "matches x t" for es x
    using that by (induction es) auto
  then show ?thesis
    using entry_for_matches
    by (auto simp: getBanEntry_def addBan_def save_def Let_def split: option.splits)
qed

lemma addBan_banned:
  assumes "until = None \<or> (\<exists>d. until = Some d \<and> later \<le> d)"
  shows "fst (isBanned matches later t (snd (addBan matches w now (as_id t) t why until by_whom l)))"
proof -
  let ?e = "ban_entry_for (as_id t) now why until by_whom"
  have "\<not> expired later ?e"
    using assms by (auto simp: expired_def ban_entry_for_def set_optional_def split: option.splits)
  moreover have "?e \<in> set (entries (snd (addBan matches w now (as_id t) t why until by_whom l)))"
    by (simp add: addBan_def save_def Let_def split: option.splits)
  ultimately show ?thesis
    using entry_for_matches [of t now why until by_whom]
    by (auto simp: isBanned_def Let_def getBanEntry_def removeExpired_def find_None_iff)
qed

end

definition unique :: "('i, 't) matcher \<Rightarrow> 'i ban_entry list \<Rightarrow> bool" where
  "unique matches es \<longleftrightarrow> (\<forall>t. length (filter (\<lambda>e. matches e t) es) \<le> 1)"

lemma entries_save [simp]: "entries (save w l) = entries l"
  by (simp add: save_def split: option.splits)

lemma erase_first_shorter: "length (filter P (erase_first Q es)) \<le> length (filter P es)"
  by (induction es) auto

lemma erase_first_only: "length (filter P es) \<le> 1 \<Longrightarrow> filter P (erase_first P es) = []"
  by (induction es) (auto split: if_splits)

lemma erase_first_none: "\<not> list_ex P es \<Longrightarrow> erase_first P es = es"
  by (induction es) auto

lemma entries_removeBan: "entries (removeBan matches w t l) = erase_first (\<lambda>e. matches e t) (entries l)"
  by (simp add: removeBan_def erase_first_none)

text \<open>If two entries that match one target match the same targets, a list built by \<open>addBan\<close> has at most one entry
  for a target, and removing it is complete.\<close>

locale exact_matcher = matcher +
  assumes same_targets: "matches e t \<Longrightarrow> matches f t \<Longrightarrow> matches e u = matches f u"
begin

lemma unique_addBan:
  assumes "unique matches (entries l)"
  shows "unique matches (entries (snd (addBan matches w now (as_id t) t why until by_whom l)))"
proof -
  let ?e = "ban_entry_for (as_id t) now why until by_whom"
  let ?rest = "filter (\<lambda>e. \<not> matches e t) (entries l)"
  have "length (filter (\<lambda>e. matches e u) (?rest @ [?e])) \<le> 1" for u
  proof (cases "matches ?e u")
    case True
    have "\<not> matches e u" if "e \<in> set ?rest" for e
      using same_targets [of e u ?e t] entry_for_matches [of t now why until by_whom] True that by auto
    then have "filter (\<lambda>e. matches e u) ?rest = []" by (auto simp: filter_empty_conv)
    then show ?thesis by simp
  next
    case False
    have "filter (\<lambda>e. matches e u) ?rest = filter (\<lambda>e. \<not> matches e t) (filter (\<lambda>e. matches e u) (entries l))"
      by (simp add: conj_commute)
    then have "length (filter (\<lambda>e. matches e u) ?rest) \<le> length (filter (\<lambda>e. matches e u) (entries l))"
      by (simp only: length_filter_le)
    also have "\<dots> \<le> 1" using assms by (simp add: unique_def)
    finally show ?thesis using False by simp
  qed
  then show ?thesis by (simp add: unique_def addBan_def save_def Let_def split: option.splits)
qed

lemma unique_removeBan:
  assumes "unique matches (entries l)"
  shows "unique matches (entries (removeBan matches w t l))"
    and "getBanEntry matches t (removeBan matches w t l) = None"
proof -
  show "unique matches (entries (removeBan matches w t l))"
    unfolding unique_def entries_removeBan
  proof
    fix u
    have "length (filter (\<lambda>e. matches e u) (entries l)) \<le> 1" using assms by (simp add: unique_def)
    then show "length (filter (\<lambda>e. matches e u) (erase_first (\<lambda>e. matches e t) (entries l))) \<le> 1"
      by (rule le_trans [OF erase_first_shorter])
  qed
  have "filter (\<lambda>e. matches e t) (entries (removeBan matches w t l)) = []"
    using assms unfolding unique_def entries_removeBan by (intro erase_first_only) blast
  then show "getBanEntry matches t (removeBan matches w t l) = None"
    by (simp add: getBanEntry_def find_None_iff filter_empty_conv)
qed

end

subsection \<open>The two matchers\<close>

interpretation ip: exact_matcher IpBanEntryMatcher "\<lambda>address. address"
  by unfold_locales (auto simp: IpBanEntryMatcher_def)

interpretation player: matcher PlayerBanEntryMatcher "\<lambda>target. target"
  by unfold_locales (auto simp: PlayerBanEntryMatcher_def iequals_def split: option.splits)

end
