(* ===== verification/Ban_File.thy ===== *)
theory Ban_File
  imports Bans "HOL-Library.Char_ord"
begin

text \<open>
  The files of the ban lists: \<open>save\<close> and \<open>load\<close> of \<open>src/endstone/core/ban/ban_list.h\<close> and the JSON forms of an
  entry in \<open>ip_ban_list.h\<close> and \<open>player_ban_list.h\<close>. The JSON library, the date library and the parser of
  textual UUIDs are not in the repository: they are the fields of the record \<open>codec\<close>, and \<open>codec_laws\<close> is what
  the code relies on in them. What the list relies on in the JSON form of an identity is a locale, provided
  by addresses and by players.
\<close>

subsection \<open>JSON values\<close>

text \<open>Objects are \<open>std::map\<close>s. Numbers and booleans are not distinguished.\<close>

datatype json = J_Null | J_String string | J_Array "json list" | J_Object "(string \<times> json) list" | J_Other

type_synonym json_object = "(string \<times> json) list"

datatype load_error = Cannot_Open | Parse_Error | Missing_Key | Wrong_Type | Undefined_Access

text \<open>
  \<open>dump\<close> is the text that \<open>file << array\<close> leaves in the file: it is cut off where the library throws, at the
  first string that is not \<open>valid_text\<close> (UTF-8). \<open>parse_json\<close> is \<open>None\<close> where the library throws, \<open>parse_date\<close>
  where the stream fails, \<open>parse_uuid\<close> where \<open>boost::uuids::string_generator\<close> throws. \<open>ticks\<close> are the ticks of
  the clock in a second.
\<close>

record codec =
  dump :: "json \<Rightarrow> string"
  parse_json :: "string \<Rightarrow> json option"
  valid_text :: "string \<Rightarrow> bool"
  format_date :: "date \<Rightarrow> string"
  parse_date :: "string \<Rightarrow> date option"
  parse_uuid :: "string \<Rightarrow> uuid option"
  ticks :: int

definition floor_seconds :: "codec \<Rightarrow> date \<Rightarrow> date" where
  "floor_seconds c d = (d div ticks c) * ticks c"

subsection \<open>Writing\<close>

definition entry_json :: "codec \<Rightarrow> ('i \<Rightarrow> json_object) \<Rightarrow> 'i ban_entry \<Rightarrow> json_object" where
  "entry_json c to_json e =
     omap_put ''reason'' (J_String (reason e))
       (omap_put ''expires''
         (J_String (case expiration e of Some d \<Rightarrow> format_date c (floor_seconds c d) | None \<Rightarrow> ''forever''))
         (omap_put ''source'' (J_String (ban_source e))
           (omap_put ''created'' (J_String (format_date c (floor_seconds c (created e)))) (to_json (ident e)))))"

definition write_file :: "codec \<Rightarrow> ('i \<Rightarrow> json_object) \<Rightarrow> bool \<Rightarrow> 'i ban_entry list \<Rightarrow> string option" where
  "write_file c to_json can_open es =
     (if can_open then Some (dump c (J_Array (map (\<lambda>e. J_Object (entry_json c to_json e)) es))) else None)"

definition ip_to_json :: "string \<Rightarrow> json_object" where
  "ip_to_json a = omap_put ''ip'' (J_String a) []"

definition player_to_json :: "player_id \<Rightarrow> json_object" where
  "player_to_json p =
     set_optional (\<lambda>x. omap_put ''xuid'' (J_String x)) (xuid p)
       (set_optional (\<lambda>u. omap_put ''uuid'' (J_String (str u))) (unique_id p)
         (omap_put ''name'' (J_String (player_name p)) []))"

subsection \<open>Reading\<close>

definition get_string :: "json \<Rightarrow> load_error + string" where
  "get_string v = (case v of J_String s \<Rightarrow> Inr s | _ \<Rightarrow> Inl Wrong_Type)"

definition fields :: "json \<Rightarrow> load_error + json_object" where
  "fields v = (case v of J_Object m \<Rightarrow> Inr m | _ \<Rightarrow> Inl Wrong_Type)"

text \<open>A range-based loop runs over the elements of an array, the values of an object, nothing for null, and any
  other value once.\<close>

definition elements :: "json \<Rightarrow> json list" where
  "elements v = (case v of J_Array xs \<Rightarrow> xs | J_Object m \<Rightarrow> map snd m | J_Null \<Rightarrow> [] | _ \<Rightarrow> [v])"

definition ip_from_json :: "json_object \<Rightarrow> load_error + string" where
  "ip_from_json j = (case map_of j ''ip'' of None \<Rightarrow> Inl Missing_Key | Some v \<Rightarrow> get_string v)"

text \<open>The access to a missing \<open>name\<close> in a constant object is undefined. What goes wrong while the UUID is read
  is caught.\<close>

definition player_from_json :: "codec \<Rightarrow> json_object \<Rightarrow> load_error + player_id" where
  "player_from_json c j =
     chain (case map_of j ''name'' of None \<Rightarrow> Inl Undefined_Access | Some v \<Rightarrow> get_string v)
       (\<lambda>n. let u = (case map_of j ''uuid'' of Some (J_String s) \<Rightarrow> parse_uuid c s | _ \<Rightarrow> None)
            in chain (case map_of j ''xuid'' of None \<Rightarrow> Inr None | Some v \<Rightarrow> chain (get_string v) (\<lambda>x. Inr (Some x)))
              (\<lambda>x. Inr \<lparr>player_name = n, unique_id = u, xuid = x\<rparr>))"

definition optional_field :: "json_object \<Rightarrow> string \<Rightarrow> (string \<Rightarrow> 'e \<Rightarrow> 'e) \<Rightarrow> 'e \<Rightarrow> load_error + 'e" where
  "optional_field j k f e =
     (case map_of j k of None \<Rightarrow> Inr e | Some v \<Rightarrow> chain (get_string v) (\<lambda>s. Inr (f s e)))"

definition load_entry ::
  "codec \<Rightarrow> (json_object \<Rightarrow> load_error + 'i) \<Rightarrow> date \<Rightarrow> json \<Rightarrow> load_error + 'i ban_entry" where
  "load_entry c from_json now v =
     chain (fields v)
       (\<lambda>j. chain (from_json j)
       (\<lambda>i. chain (optional_field j ''created''
            (\<lambda>s e. case parse_date c s of Some d \<Rightarrow> e\<lparr>created := d\<rparr> | None \<Rightarrow> e) (new_entry i now))
       (\<lambda>e. chain (optional_field j ''source'' (\<lambda>s e. e\<lparr>ban_source := s\<rparr>) e)
       (\<lambda>e. chain (optional_field j ''expires''
            (\<lambda>s e. case parse_date c s of Some d \<Rightarrow> e\<lparr>expiration := Some d\<rparr> | None \<Rightarrow> e) e)
       (\<lambda>e. optional_field j ''reason'' (\<lambda>s e. e\<lparr>reason := s\<rparr>) e)))))"

text \<open>What was read before an exception stays in the list.\<close>

fun load_entries ::
  "codec \<Rightarrow> (json_object \<Rightarrow> load_error + 'i) \<Rightarrow> date \<Rightarrow> json list \<Rightarrow> 'i ban_list \<Rightarrow> load_error option \<times> 'i ban_list" where
  "load_entries c from_json now [] l = (None, l)"
| "load_entries c from_json now (v # vs) l =
     (case load_entry c from_json now v of
        Inl x \<Rightarrow> (Some x, l)
      | Inr e \<Rightarrow> load_entries c from_json now vs (l\<lparr>entries := entries l @ [e]\<rparr>))"

definition load_list ::
  "codec \<Rightarrow> (json_object \<Rightarrow> load_error + 'i) \<Rightarrow> bool \<Rightarrow> date \<Rightarrow> 'i ban_list \<Rightarrow> load_error option \<times> 'i ban_list" where
  "load_list c from_json can_open now l =
     (case file_text l of
        None \<Rightarrow> (None, l)
      | Some text \<Rightarrow>
          (let l1 = l\<lparr>entries := []\<rparr>
           in if \<not> can_open then (Some Cannot_Open, l1)
              else (case parse_json c text of
                 None \<Rightarrow> (Some Parse_Error, l1)
               | Some v \<Rightarrow> load_entries c from_json now (elements v) l1)))"

subsection \<open>The round trip\<close>

text \<open>The laws of the libraries: an array of flat objects whose texts are valid is read back, ASCII text is
  valid, and so is a date of whole seconds, in ASCII.\<close>

definition ascii :: "string \<Rightarrow> bool" where
  "ascii s \<longleftrightarrow> list_all (\<lambda>ch. (of_char ch :: nat) < 128) s"

definition flat :: "codec \<Rightarrow> json \<Rightarrow> bool" where
  "flat c v \<longleftrightarrow> (case v of
     J_Object m \<Rightarrow> sorted_map m \<and>
       list_all (\<lambda>(k, w). valid_text c k \<and> (case w of J_String s \<Rightarrow> valid_text c s | _ \<Rightarrow> False)) m
   | _ \<Rightarrow> False)"

definition codec_laws :: "codec \<Rightarrow> bool" where
  "codec_laws c \<longleftrightarrow> (\<forall>vs. list_all (flat c) vs \<longrightarrow> parse_json c (dump c (J_Array vs)) = Some (J_Array vs)) \<and>
     (\<forall>s. ascii s \<longrightarrow> valid_text c s) \<and>
     (\<forall>d. ascii (format_date c d) \<and> parse_date c (format_date c (floor_seconds c d)) = Some (floor_seconds c d)) \<and>
     parse_date c ''forever'' = None \<and> (\<forall>u. uuid_bytes u \<longrightarrow> parse_uuid c (str u) = Some u)"

text \<open>The texts of an entry.\<close>

definition texts_ok :: "codec \<Rightarrow> 'i ban_entry \<Rightarrow> bool" where
  "texts_ok c e \<longleftrightarrow> valid_text c (ban_source e) \<and> valid_text c (reason e)"

text \<open>What the file keeps of an entry: the dates in whole seconds.\<close>

definition stored :: "codec \<Rightarrow> 'i ban_entry \<Rightarrow> 'i ban_entry" where
  "stored c e = e\<lparr>created := floor_seconds c (created e), expiration := map_option (floor_seconds c) (expiration e)\<rparr>"

definition common_keys :: "string set" where
  "common_keys = {''created'', ''source'', ''expires'', ''reason''}"

lemma flat_put:
  assumes "flat c (J_Object m)" and "valid_text c k" and "valid_text c s"
  shows "flat c (J_Object (omap_put k (J_String s) m))"
proof -
  have "list_all P (omap_put k v m)" if "list_all P m" "P (k, v)" for P and v :: json
    using that by (induction k v m rule: omap_put.induct) auto
  then show ?thesis using assms by (auto simp: flat_def simp del: map_of_omap_put)
qed

text \<open>What the list relies on in the JSON form of an identity: an object of the identity's own keys, which is
  read back whatever the others are.\<close>

locale identity_json =
  fixes c :: codec
    and to_json :: "'i \<Rightarrow> json_object"
    and from_json :: "json_object \<Rightarrow> load_error + 'i"
    and valid :: "'i \<Rightarrow> bool"
  assumes flat_json: "codec_laws c \<Longrightarrow> valid i \<Longrightarrow> flat c (J_Object (to_json i))"
    and read_back: "codec_laws c \<Longrightarrow> valid i \<Longrightarrow>
      (\<And>k. k \<notin> common_keys \<Longrightarrow> map_of j k = map_of (to_json i) k) \<Longrightarrow> from_json j = Inr i"
begin

lemma flat_entry:
  assumes "codec_laws c" and "valid (ident e)" and "texts_ok c e"
  shows "flat c (J_Object (entry_json c to_json e))"
proof -
  have "valid_text c (format_date c d)" "ascii s \<Longrightarrow> valid_text c s" for d s
    using assms(1) by (auto simp: codec_laws_def)
  then show ?thesis
    unfolding entry_json_def using assms
    by (intro flat_put flat_json) (auto simp: texts_ok_def ascii_def split: option.splits)
qed

lemma load_entry_json:
  assumes "codec_laws c" and "valid (ident e)"
  shows "load_entry c from_json now (J_Object (entry_json c to_json e)) = Inr (stored c e)"
proof -
  have "from_json (entry_json c to_json e) = Inr (ident e)"
    by (rule read_back [OF assms]) (simp add: entry_json_def common_keys_def)
  then show ?thesis
    using assms(1)
    by (cases "expiration e")
      (simp_all add: load_entry_def fields_def optional_field_def get_string_def entry_json_def new_entry_def
        codec_laws_def stored_def)
qed

lemma load_entries_json:
  assumes "codec_laws c" and "\<forall>e \<in> set es. valid (ident e)"
  shows "load_entries c from_json now (map (\<lambda>e. J_Object (entry_json c to_json e)) es) l
    = (None, l\<lparr>entries := entries l @ map (stored c) es\<rparr>)"
  using assms(2) by (induction es arbitrary: l) (simp_all add: load_entry_json [OF assms(1)])

lemma load_save:
  assumes "codec_laws c" and "\<forall>e \<in> set (entries l). valid (ident e) \<and> texts_ok c e"
  defines "l1 \<equiv> save (write_file c to_json True) l"
  shows "load_list c from_json True now l1 = (None, l1\<lparr>entries := map (stored c) (entries l)\<rparr>)"
proof -
  let ?vs = "map (\<lambda>e. J_Object (entry_json c to_json e)) (entries l)"
  have "list_all (flat c) ?vs" using assms(2) flat_entry [OF assms(1)] by (auto simp: list_all_iff)
  then have "parse_json c (dump c (J_Array ?vs)) = Some (J_Array ?vs)"
    using assms(1) by (simp add: codec_laws_def)
  then show ?thesis
    using assms(2) load_entries_json [OF assms(1)]
    by (simp add: l1_def load_list_def save_def write_file_def elements_def)
qed

end

lemma ascii_str:
  assumes "uuid_bytes u"
  shows "ascii (str u)"
proof -
  have "\<forall>n \<in> set [0..<16]. (of_char (hex_char n) :: nat) < 128" by code_simp
  then have h: "(of_char (hex_char n) :: nat) < 128" if "n < 16" for n using that by auto
  have "unat (w AND 15) < 16" for w :: byte
    using unat_and_mask [of w 4] by (simp add: mask_eq_exp_minus_1)
  then have "ascii (byte_hex b)" for b
    by (simp add: byte_hex_def ascii_def h)
  then show ?thesis by (auto simp: str_def ascii_def list_all_iff)
qed

definition player_ok :: "codec \<Rightarrow> player_id \<Rightarrow> bool" where
  "player_ok c p \<longleftrightarrow> valid_text c (player_name p) \<and> (case unique_id p of None \<Rightarrow> True | Some u \<Rightarrow> uuid_bytes u) \<and>
     (case xuid p of None \<Rightarrow> True | Some x \<Rightarrow> valid_text c x)"

lemma identity_of:
  "(\<And>k. k \<notin> common_keys \<Longrightarrow> map_of j k = map_of m k) \<Longrightarrow>
    map_of j ''ip'' = map_of m ''ip'' \<and> map_of j ''name'' = map_of m ''name'' \<and>
    map_of j ''uuid'' = map_of m ''uuid'' \<and> map_of j ''xuid'' = map_of m ''xuid''"
  by (simp add: common_keys_def)

lemma flat_Nil: "flat c (J_Object [])"
  by (simp add: flat_def)

lemma flat_optional:
  "flat c (J_Object m) \<Longrightarrow> valid_text c k \<Longrightarrow> (\<And>y. x = Some y \<Longrightarrow> valid_text c (f y)) \<Longrightarrow>
    flat c (J_Object (set_optional (\<lambda>y. omap_put k (J_String (f y))) x m))"
  by (cases x) (auto simp: set_optional_def intro: flat_put)

interpretation ip_json: identity_json c ip_to_json ip_from_json "valid_text c" for c
proof unfold_locales
  fix i and j :: json_object
  show "flat c (J_Object (ip_to_json i))" if "codec_laws c" and "valid_text c i"
    using that unfolding ip_to_json_def by (intro flat_put flat_Nil) (auto simp: codec_laws_def ascii_def)
  assume "\<And>k. k \<notin> common_keys \<Longrightarrow> map_of j k = map_of (ip_to_json i) k"
  from identity_of [OF this] show "ip_from_json j = Inr i"
    by (simp add: ip_to_json_def ip_from_json_def get_string_def)
qed

interpretation player_json: identity_json c player_to_json "player_from_json c" "player_ok c" for c
proof unfold_locales
  fix i
  assume laws: "codec_laws c" and ok: "player_ok c i"
  have key: "valid_text c k" if "ascii k" for k using laws that by (simp add: codec_laws_def)
  show "flat c (J_Object (player_to_json i))"
    unfolding player_to_json_def
    by (intro flat_optional flat_put flat_Nil) (use ok key ascii_str in \<open>auto simp: player_ok_def ascii_def\<close>)
  fix j :: json_object
  assume "\<And>k. k \<notin> common_keys \<Longrightarrow> map_of j k = map_of (player_to_json i) k"
  from identity_of [OF this] show "player_from_json c j = Inr i"
    using laws ok
    by (cases i) (simp add: player_to_json_def player_from_json_def set_optional_def get_string_def player_ok_def
        codec_laws_def split: option.splits)
qed

lemma floor_idem: "ticks c \<noteq> 0 \<Longrightarrow> floor_seconds c (floor_seconds c d) = floor_seconds c d"
  by (simp add: floor_seconds_def)

lemma entry_json_stored: "ticks c \<noteq> 0 \<Longrightarrow> entry_json c to_json (stored c e) = entry_json c to_json e"
  by (cases "expiration e") (simp_all add: entry_json_def stored_def floor_idem)

subsection \<open>What reading leaves\<close>

lemma load_entries_prefix:
  "load_entries c from_json now vs l = (err, l') \<Longrightarrow>
    \<exists>n. n \<le> length vs \<and> file_text l' = file_text l \<and>
      (\<exists>es. entries l' = entries l @ es \<and> map Inr es = map (load_entry c from_json now) (take n vs)) \<and>
      (case err of None \<Rightarrow> n = length vs
       | Some x \<Rightarrow> n < length vs \<and> load_entry c from_json now (vs ! n) = Inl x)"
proof (induction vs arbitrary: l)
  case (Cons v vs)
  show ?case
  proof (cases "load_entry c from_json now v")
    case (Inl x)
    then show ?thesis using Cons.prems by (intro exI [of _ 0]) auto
  next
    case (Inr e)
    then obtain n es where "n \<le> length vs" "file_text l' = file_text l" "entries l' = entries l @ e # es"
      "map Inr es = map (load_entry c from_json now) (take n vs)"
      "case err of None \<Rightarrow> n = length vs | Some x \<Rightarrow> n < length vs \<and> load_entry c from_json now (vs ! n) = Inl x"
      using Cons.IH [of "l\<lparr>entries := entries l @ [e]\<rparr>"] Cons.prems by auto
    then show ?thesis using Inr
      by (intro exI [of _ "Suc n"] conjI exI [of _ "e # es"]) (auto split: option.splits)
  qed
qed auto

subsection \<open>Properties\<close>

text \<open>C19: a saved list whose texts are valid is read back with its dates in whole seconds, for players and for
  addresses, and saving it again writes the same file.\<close>

theorem ban_files_roundtrip:
  assumes "codec_laws c" and "ticks c \<noteq> 0"
    and "\<forall>e \<in> set (entries l). player_ok c (ident e) \<and> texts_ok c e"
    and "\<forall>e \<in> set (entries m). valid_text c (ident e) \<and> texts_ok c e"
  defines "l1 \<equiv> save (write_file c player_to_json True) l" and "m1 \<equiv> save (write_file c ip_to_json True) m"
  shows "load_list c (player_from_json c) True now l1 = (None, l1\<lparr>entries := map (stored c) (entries l)\<rparr>) \<and>
    load_list c ip_from_json True now m1 = (None, m1\<lparr>entries := map (stored c) (entries m)\<rparr>) \<and>
    file_text (save (write_file c player_to_json True) (l1\<lparr>entries := map (stored c) (entries l)\<rparr>)) = file_text l1 \<and>
    file_text (save (write_file c ip_to_json True) (m1\<lparr>entries := map (stored c) (entries m)\<rparr>)) = file_text m1"
  using player_json.load_save [OF assms(1,3)] ip_json.load_save [OF assms(1,4)]
  by (simp add: l1_def m1_def save_def write_file_def o_def entry_json_stored [OF assms(2)])

text \<open>Reading a file that exists empties the list first; whatever goes wrong, the list is then the entries
  before the first one that cannot be read, and the file is untouched. A file that cannot be opened or parsed
  leaves nobody banned.\<close>

theorem load_keeps_prefix:
  assumes "file_text l = Some text" and "load_list c from_json can_open now l = (err, l')"
  shows "file_text l' = Some text \<and>
    (case (if can_open then parse_json c text else None) of
       None \<Rightarrow> entries l' = [] \<and> err \<noteq> None
     | Some v \<Rightarrow> \<exists>n. n \<le> length (elements v) \<and>
         map Inr (entries l') = map (load_entry c from_json now) (take n (elements v)) \<and>
         (case err of None \<Rightarrow> n = length (elements v)
          | Some x \<Rightarrow> n < length (elements v) \<and> load_entry c from_json now (elements v ! n) = Inl x))"
proof (cases "if can_open then parse_json c text else None")
  case (Some v)
  then have "load_entries c from_json now (elements v) (l\<lparr>entries := []\<rparr>) = (err, l')"
    using assms by (auto simp: load_list_def split: if_splits)
  from load_entries_prefix [OF this] show ?thesis using Some assms(1) by auto
next
  case None
  then show ?thesis using assms by (auto simp: load_list_def Let_def split: if_splits option.splits)
qed

subsection \<open>Witnesses\<close>

text \<open>A small writer and reader of arrays of flat objects: each character is preceded by a mark, and other marks
  close a string, a member, an object.\<close>

fun write_string :: "string \<Rightarrow> string" where
  "write_string [] = ''.''"
| "write_string (x # xs) = CHR ''c'' # x # write_string xs"

fun read_string :: "string \<Rightarrow> string \<times> string" where
  "read_string (m # x # xs) = (if m = CHR ''c'' then (let (s, r) = read_string xs in (x # s, r)) else ([], x # xs))"
| "read_string s = ([], drop 1 s)"

fun write_members :: "json_object \<Rightarrow> string" where
  "write_members [] = ''}''"
| "write_members ((k, J_String s) # m) = CHR '','' # write_string k @ write_string s @ write_members m"
| "write_members (_ # m) = write_members m"

fun write_elements :: "json list \<Rightarrow> string" where
  "write_elements [] = '']''"
| "write_elements (J_Object m # vs) = CHR ''{'' # write_members m @ write_elements vs"
| "write_elements (_ # vs) = write_elements vs"

lemma read_write_string: "read_string (write_string s @ r) = (s, r)"
proof (induction s)
  case Nil
  show ?case by (cases r) auto
qed simp

fun read_members :: "nat \<Rightarrow> string \<Rightarrow> json_object \<times> string" where
  "read_members (Suc n) (ch # s) = (if ch = CHR '','' then
     (let (k, r) = read_string s; (v, r') = read_string r; (m, r'') = read_members n r' in ((k, J_String v) # m, r''))
   else ([], s))"
| "read_members _ s = ([], s)"

fun read_elements :: "nat \<Rightarrow> nat \<Rightarrow> string \<Rightarrow> json list" where
  "read_elements k (Suc n) (ch # s) = (if ch = CHR ''{''
     then (let (m, r) = read_members k s in J_Object m # read_elements k n r) else [])"
| "read_elements _ _ _ = []"

definition demo_codec :: codec where
  "demo_codec =
     \<lparr>dump = (\<lambda>v. write_elements (elements v)), parse_json = (\<lambda>s. Some (J_Array (read_elements (length s) (length s) s))),
      valid_text = (\<lambda>_. True), format_date = (\<lambda>d. if d < 0 then CHR ''-'' # decimal (nat (- d)) else decimal (nat d)),
      parse_date = (\<lambda>s. if s = ''forever'' then None
        else if hd s = CHR ''-'' then Some (- int (undecimal (tl s))) else Some (int (undecimal s))),
      parse_uuid = (\<lambda>s. Some (fromMinecraft (fromString s))), ticks = 10\<rparr>"

definition strings_only :: "json_object \<Rightarrow> bool" where
  "strings_only m \<longleftrightarrow> list_all (\<lambda>(k, v). case v of J_String s \<Rightarrow> True | _ \<Rightarrow> False) m"

lemma read_write_members:
  "strings_only m \<Longrightarrow> length m < n \<Longrightarrow> read_members n (write_members m @ r) = (m, r)"
proof (induction m arbitrary: n rule: write_members.induct)
  case (1 n)
  then show ?case by (cases n) auto
next
  case (2 k s m n)
  then show ?case by (cases n) (auto simp: read_write_string strings_only_def)
qed (auto simp: strings_only_def)

lemma length_members: "strings_only m \<Longrightarrow> length m < length (write_members m)"
  by (induction m rule: write_members.induct) (auto simp: strings_only_def)

lemma flat_strings: "flat c v \<Longrightarrow> \<exists>m. v = J_Object m \<and> strings_only m"
  by (auto simp: flat_def strings_only_def list_all_iff split: json.splits)

lemma read_write_elements:
  "list_all (flat c) vs \<Longrightarrow> length (write_elements vs) \<le> k \<Longrightarrow> length vs < n \<Longrightarrow>
    read_elements k n (write_elements vs) = vs"
proof (induction vs arbitrary: n)
  case Nil
  then show ?case by (cases n) auto
next
  case (Cons v vs)
  obtain m where m: "v = J_Object m" "strings_only m" using Cons.prems(1) flat_strings by auto
  then show ?case
    using Cons.IH [of "n - 1"] Cons.prems length_members [OF m(2)] read_write_members [OF m(2), of k]
    by (cases n) auto
qed

lemma length_elements: "list_all (flat c) vs \<Longrightarrow> length vs < length (write_elements vs)"
  by (induction vs) (auto dest!: flat_strings)

lemma decimal_hd: "decimal n \<noteq> [] \<and> decimal n \<noteq> ''forever'' \<and> hd (decimal n) \<noteq> CHR ''-''"
proof -
  have ne: "decimal n \<noteq> []" by (subst decimal.simps) simp
  then have "48 \<le> (of_char (hd (decimal n)) :: nat) \<and> (of_char (hd (decimal n)) :: nat) \<le> 57"
    by (intro decimal_digits [of _ n]) simp
  then show ?thesis using ne by (auto simp: neq_Nil_conv)
qed

lemma demo_codec_laws: "codec_laws demo_codec"
proof -
  have "read_elements (length (write_elements vs)) (length (write_elements vs)) (write_elements vs) = vs"
    if "list_all (flat demo_codec) vs" for vs
    by (rule read_write_elements [OF that order_refl length_elements [OF that]])
  moreover have "fromMinecraft (fromString (str u)) = u" if "uuid_bytes u" for u
    using that parse_asString [of "toMinecraft u"] by (simp add: str_asString from_to)
  moreover have "ascii (decimal n)" for n
    using decimal_digits [of _ n] by (fastforce simp: ascii_def list_all_iff)
  ultimately show ?thesis
    using decimal_hd by (auto simp: codec_laws_def demo_codec_def elements_def ascii_def)
qed

definition demo_bans :: "player_id ban_list" where
  "demo_bans = \<lparr>entries = [\<lparr>ident = \<lparr>player_name = ''Alex'', unique_id = Some (replicate 16 7), xuid = None\<rparr>,
     created = 123, ban_source = ''Server'', expiration = Some 457, reason = ''no''\<rparr>], file_text = None\<rparr>"

theorem ban_files_roundtrip_witness:
  "fst (load_list demo_codec (player_from_json demo_codec) True 0
      (save (write_file demo_codec player_to_json True) demo_bans)) = None \<and>
   map expiration (entries (snd (load_list demo_codec (player_from_json demo_codec) True 0
      (save (write_file demo_codec player_to_json True) demo_bans)))) = [Some 450]"
  using ban_files_roundtrip [of demo_codec demo_bans "\<lparr>entries = [], file_text = None\<rparr>" 0, OF demo_codec_laws]
  by (simp add: demo_bans_def player_ok_def texts_ok_def uuid_bytes_def stored_def floor_seconds_def demo_codec_def)

theorem load_keeps_prefix_witness:
  "\<exists>err l'. load_list demo_codec ip_from_json False 0 \<lparr>entries = [new_entry ''10.0.0.1'' 0], file_text = Some ''x''\<rparr>
     = (err, l') \<and> entries l' = []"
  using load_keeps_prefix [of "\<lparr>entries = [new_entry ''10.0.0.1'' 0], file_text = Some ''x''\<rparr>" "''x''" demo_codec
      ip_from_json False 0, OF _ prod.collapse [symmetric]]
  by (intro exI) (rule conjI [OF prod.collapse [symmetric]], simp)

end
