(* ===== verification/Ban_Commands.thy ===== *)
theory Ban_Commands
  imports Bans Command_Map
begin

text \<open>
  The ban commands (\<open>src/endstone/core/command/defaults/\<close>) over the two ban lists of the server, and the check
  of a login against them (\<open>src/endstone/runtime/bedrock_hooks/server_network_handler.cpp\<close>). The socket
  library's \<open>inet_pton\<close>, the game's own login check and the writers of the two files are parameters.
\<close>

subsection \<open>State\<close>

record online_player =
  online_name :: string
  online_uuid :: uuid
  online_xuid :: string
  hostname :: string

record ban_server =
  player_bans :: "player_id ban_list"
  ip_bans :: "string ban_list"
  online :: "online_player list"

record ban_env =
  clock :: date
  write_players :: "player_id ban_entry list \<Rightarrow> string option"
  write_ips :: "string ban_entry list \<Rightarrow> string option"
  ipv4_ok :: "string \<Rightarrow> bool"
  ipv6_ok :: "string \<Rightarrow> bool"

record ban_sender =
  sender_name :: string
  sender_has :: "string \<Rightarrow> bool"

datatype ban_text = Plain string | Translated string "string list"

datatype ban_effect = Send ban_text | Send_Error ban_text | Kick online_player string

definition testPermission :: "ban_sender \<Rightarrow> command \<Rightarrow> bool \<times> ban_effect list" where
  "testPermission s c =
     (if testPermissionSilently (sender_has s) c then (True, [])
      else (False, [Send_Error (Translated ''commands.generic.error.permissions'' [cmd_name c])]))"

definition getPlayer :: "string \<Rightarrow> ban_server \<Rightarrow> online_player option" where
  "getPlayer name b = find (\<lambda>p. iequals (online_name p) name) (online b)"

text \<open>The target of a call that gives only a name.\<close>

definition by_name :: "string \<Rightarrow> player_id" where
  "by_name n = \<lparr>player_name = n, unique_id = None, xuid = None\<rparr>"

definition isBanned_player :: "ban_env \<Rightarrow> player_id \<Rightarrow> ban_server \<Rightarrow> bool \<times> ban_server" where
  "isBanned_player env t b =
     (let (r, l) = isBanned PlayerBanEntryMatcher (clock env) t (player_bans b) in (r, b\<lparr>player_bans := l\<rparr>))"

definition isBanned_ip :: "ban_env \<Rightarrow> string \<Rightarrow> ban_server \<Rightarrow> bool \<times> ban_server" where
  "isBanned_ip env a b =
     (let (r, l) = isBanned IpBanEntryMatcher (clock env) a (ip_bans b) in (r, b\<lparr>ip_bans := l\<rparr>))"

subsection \<open>The commands\<close>

text \<open>The result of a command is what \<open>execute\<close> returns, what it sends and whom it kicks, and the server.\<close>

type_synonym ban_result = "bool \<times> ban_effect list \<times> ban_server"

definition ban_reason :: "string list \<Rightarrow> string option" where
  "ban_reason args = (case args of _ # r # _ \<Rightarrow> Some r | _ \<Rightarrow> None)"

definition BanCommand_execute :: "ban_env \<Rightarrow> ban_sender \<Rightarrow> string list \<Rightarrow> ban_server \<Rightarrow> ban_result" where
  "BanCommand_execute env s args b =
     (let (ok, denied) = testPermission s BanCommand
      in if \<not> ok then (True, denied, b)
         else case args of [] \<Rightarrow> (False, [], b)
         | name # _ \<Rightarrow>
             let (banned, b1) = isBanned_player env (by_name name) b
             in if banned
                then (True, [Send_Error (Plain ''Nothing changed. The player is already banned.'')], b1)
                else let player = getPlayer name b1;
                         target = (case player of
                           None \<Rightarrow> by_name name
                         | Some p \<Rightarrow> \<lparr>player_name = online_name p, unique_id = Some (online_uuid p),
                             xuid = (if online_xuid p = [] then None else Some (online_xuid p))\<rparr>);
                         bans = snd (addBan PlayerBanEntryMatcher (write_players env) (clock env) target target
                           (ban_reason args) None (Some (sender_name s)) (player_bans b1))
                     in (True, Send (Translated ''commands.ban.success'' [player_name target]) #
                           (case player of None \<Rightarrow> []
                            | Some p \<Rightarrow> [Kick p ''You have been banned from this server.'']),
                         b1\<lparr>player_bans := bans\<rparr>))"

definition BanIpCommand_execute :: "ban_env \<Rightarrow> ban_sender \<Rightarrow> string list \<Rightarrow> ban_server \<Rightarrow> ban_result" where
  "BanIpCommand_execute env s args b =
     (let (ok, denied) = testPermission s BanIpCommand
      in if \<not> ok then (True, denied, b)
         else case args of [] \<Rightarrow> (False, [], b)
         | given # _ \<Rightarrow>
             let found = (if ipv4_ok env given then Some (given, None)
                          else if ipv6_ok env given then Some (given, None)
                          else case getPlayer given b of Some p \<Rightarrow> Some (hostname p, Some p) | None \<Rightarrow> None)
             in case found of
                  None \<Rightarrow> (True, [Send_Error (Translated ''commands.banip.invalid'' [])], b)
                | Some (address, player) \<Rightarrow>
                    let (banned, b1) = isBanned_ip env address b
                    in if banned
                       then (True, [Send_Error (Plain ''Nothing changed. That IP is already banned.'')], b1)
                       else let bans = snd (addBan IpBanEntryMatcher (write_ips env) (clock env) address address
                                  (ban_reason args) None (Some (sender_name s)) (ip_bans b1))
                            in (True,
                                (case player of
                                   Some p \<Rightarrow> [Send (Translated ''commands.banip.success.players'' [address, online_name p]),
                                     Kick p ''You have been IP banned from this server.'']
                                 | None \<Rightarrow> [Send (Translated ''commands.banip.success'' [address])])
                                @ map (\<lambda>p. Kick p ''You have been IP banned from this server.'')
                                    (filter (\<lambda>p. hostname p = address) (online b1)),
                                b1\<lparr>ip_bans := bans\<rparr>))"

definition PardonCommand_execute :: "ban_env \<Rightarrow> ban_sender \<Rightarrow> string list \<Rightarrow> ban_server \<Rightarrow> ban_result" where
  "PardonCommand_execute env s args b =
     (let (ok, denied) = testPermission s PardonCommand
      in if \<not> ok then (True, denied, b)
         else case args of [] \<Rightarrow> (False, [], b)
         | name # _ \<Rightarrow>
             (case getBanEntry PlayerBanEntryMatcher (by_name name) (player_bans b) of
                None \<Rightarrow> (True, [Send_Error (Plain ''Nothing changed. The player is not banned.'')], b)
              | Some e \<Rightarrow>
                  (True, [Send (Translated ''commands.unban.success'' [player_name (ident e)])],
                   b\<lparr>player_bans := removeBan PlayerBanEntryMatcher (write_players env) (by_name name) (player_bans b)\<rparr>)))"

definition PardonIpCommand_execute :: "ban_env \<Rightarrow> ban_sender \<Rightarrow> string list \<Rightarrow> ban_server \<Rightarrow> ban_result" where
  "PardonIpCommand_execute env s args b =
     (let (ok, denied) = testPermission s PardonIpCommand
      in if \<not> ok then (True, denied, b)
         else case args of [] \<Rightarrow> (False, [], b)
         | address # _ \<Rightarrow>
             if \<not> (ipv4_ok env address \<or> ipv6_ok env address)
             then (True, [Send_Error (Translated ''commands.unbanip.invalid'' [])], b)
             else case getBanEntry IpBanEntryMatcher address (ip_bans b) of
                None \<Rightarrow> (True, [Send_Error (Plain ''Nothing changed. That IP is not banned.'')], b)
              | Some e \<Rightarrow>
                  (True, [Send (Translated ''commands.unbanip.success'' [ident e])],
                   b\<lparr>ip_bans := removeBan IpBanEntryMatcher (write_ips env) address (ip_bans b)\<rparr>))"

definition list_entry :: "('i \<Rightarrow> string) \<Rightarrow> 'i ban_entry \<Rightarrow> ban_effect" where
  "list_entry name e =
     Send (Plain (''- '' @ name (ident e) @ '' was banned by '' @ ban_source e @ '': '' @ reason e))"

definition BanListCommand_execute :: "ban_sender \<Rightarrow> string list \<Rightarrow> ban_server \<Rightarrow> ban_result" where
  "BanListCommand_execute s args b =
     (let (ok, denied) = testPermission s BanListCommand
      in if \<not> ok then (True, denied, b)
         else let show_players = (args = [] \<or> args ! 0 = ''players'');
                  show_ips = (args = [] \<or> args ! 0 = ''ips'');
                  ps = entries (player_bans b); is = entries (ip_bans b)
              in (True,
                  (if show_players
                   then Send (Translated ''commands.banlist.players'' [decimal (length ps)]) # map (list_entry player_name) ps
                   else []) @
                  (if show_ips
                   then Send (Translated ''commands.banlist.ips'' [decimal (length is)]) # map (list_entry id) is
                   else []), b))"

subsection \<open>The login check\<close>

record auth_info =
  auth_xuid :: string
  xbox_live_name :: string
  authenticated_uuid :: mce_uuid

text \<open>A login: the address it comes from, the third-party name of its connection request, if it has one, and the
  verdict of the game's own check.\<close>

record login =
  address :: string
  third_party_name :: "string option"
  original :: "auth_info option"

definition auth_target :: "string \<Rightarrow> auth_info \<Rightarrow> player_id" where
  "auth_target third info =
     \<lparr>player_name = (if auth_xuid info = [] then third else xbox_live_name info),
      unique_id = Some (fromMinecraft (authenticated_uuid info)), xuid = Some (auth_xuid info)\<rparr>"

text \<open>\<open>gsl::not_null\<close> ends the program on a null entry.\<close>

datatype login_result = Accept auth_info | Refuse "string option" | Terminate

definition validateLoginPacket :: "ban_env \<Rightarrow> login \<Rightarrow> ban_server \<Rightarrow> login_result \<times> ban_server" where
  "validateLoginPacket env p b =
     (let (ip_banned, b1) = isBanned_ip env (address p) b
      in if ip_banned then (Refuse (Some ''You have been IP banned from this server.''), b1)
         else case third_party_name p of
           None \<Rightarrow> (Refuse None, b1)
         | Some third \<Rightarrow>
             (case original p of
                None \<Rightarrow> (Refuse None, b1)
              | Some info \<Rightarrow>
                  let t = auth_target third info; (banned, b2) = isBanned_player env t b1
                  in if banned
                     then (case getBanEntry PlayerBanEntryMatcher t (player_bans b2) of
                         None \<Rightarrow> (Terminate, b2)
                       | Some e \<Rightarrow>
                           (Refuse (Some (if reason e \<noteq> []
                              then ''You have been banned from this server. Reason: '' @ reason e
                              else ''You have been banned from this server.'')), b2))
                     else (Accept info, b2)))"

subsection \<open>Runs\<close>

datatype ban_op =
    Ban ban_sender "string list" | Ban_Ip ban_sender "string list" | Pardon ban_sender "string list"
  | Pardon_Ip ban_sender "string list" | Ban_List ban_sender "string list" | Log_In login

fun ban_step :: "ban_env \<times> ban_op \<Rightarrow> ban_server \<Rightarrow> ban_server" where
  "ban_step (env, Ban s args) b = snd (snd (BanCommand_execute env s args b))"
| "ban_step (env, Ban_Ip s args) b = snd (snd (BanIpCommand_execute env s args b))"
| "ban_step (env, Pardon s args) b = snd (snd (PardonCommand_execute env s args b))"
| "ban_step (env, Pardon_Ip s args) b = snd (snd (PardonIpCommand_execute env s args b))"
| "ban_step (env, Ban_List s args) b = snd (snd (BanListCommand_execute s args b))"
| "ban_step (env, Log_In p) b = snd (validateLoginPacket env p b)"

definition ban_run :: "(ban_env \<times> ban_op) list \<Rightarrow> ban_server \<Rightarrow> ban_server" where
  "ban_run ops b = fold ban_step ops b"

subsection \<open>Steps of a command\<close>

lemmas ban_defs = testPermission_def isBanned_player_def isBanned_ip_def isBanned_def removeExpired_def Let_def

definition valid_for :: "('i, 't) matcher \<Rightarrow> date \<Rightarrow> 't \<Rightarrow> 'i ban_list \<Rightarrow> bool" where
  "valid_for matches now t l \<longleftrightarrow> list_ex (\<lambda>e. matches e t \<and> \<not> expired now e) (entries l)"

lemma getBanEntry_None: "getBanEntry m t l = None \<longleftrightarrow> \<not> list_ex (\<lambda>e. m e t) (entries l)"
  by (auto simp: getBanEntry_def find_None_iff list_ex_iff)

lemma isBanned_valid: "fst (isBanned m now t l) = valid_for m now t l"
  by (auto simp: isBanned_def Let_def getBanEntry_None removeExpired_def valid_for_def list_ex_iff)

lemma isBanned_snd: "snd (isBanned m now t l) = removeExpired now l"
  by (simp add: isBanned_def Let_def)

lemma isBanned_player_eq:
  "isBanned_player env t b = (valid_for PlayerBanEntryMatcher (clock env) t (player_bans b),
     b\<lparr>player_bans := removeExpired (clock env) (player_bans b)\<rparr>)"
  by (simp add: isBanned_player_def case_prod_beta isBanned_valid isBanned_snd)

lemma isBanned_ip_eq:
  "isBanned_ip env a b = (valid_for IpBanEntryMatcher (clock env) a (ip_bans b),
     b\<lparr>ip_bans := removeExpired (clock env) (ip_bans b)\<rparr>)"
  by (simp add: isBanned_ip_def case_prod_beta isBanned_valid isBanned_snd)

lemma testPermission_eq:
  "testPermission s c = (testPermissionSilently (sender_has s) c,
     if testPermissionSilently (sender_has s) c then []
     else [Send_Error (Translated ''commands.generic.error.permissions'' [cmd_name c])])"
  by (simp add: testPermission_def)

lemmas ban_step_simps = testPermission_eq isBanned_player_eq isBanned_ip_eq

lemma entries_removeExpired [simp]: "entries (removeExpired now l) = filter (\<lambda>e. \<not> expired now e) (entries l)"
  by (simp add: removeExpired_def)

lemma entries_addBan:
  "entries (snd (addBan m w now i t why until by_whom l))
     = filter (\<lambda>e. \<not> m e t) (entries l) @ [ban_entry_for i now why until by_whom]"
  by (simp add: addBan_def Let_def)

lemma ban_entry_for_simps [simp]:
  "ident (ban_entry_for i now why until by_whom) = i"
  "expiration (ban_entry_for i now why until by_whom) = until"
  by (simp_all add: ban_entry_for_def set_optional_def new_entry_def split: option.splits)

subsection \<open>What a step does to the two lists\<close>

text \<open>The lists change only in the ways of their class: expired entries go, a ban is added, a ban is removed.\<close>

inductive list_change :: "('i, 't) matcher \<Rightarrow> ('t \<Rightarrow> 'i) \<Rightarrow> 'i ban_entry list \<Rightarrow> 'i ban_entry list \<Rightarrow> bool"
  for m f where
  none: "list_change m f es es"
| expire: "list_change m f es (filter (\<lambda>e. \<not> expired now e) es)"
| remove: "list_change m f es (erase_first (\<lambda>e. m e t) es)"
| add: "list_change m f es (filter (\<lambda>e. \<not> expired now e \<and> \<not> m e t) es @
          [ban_entry_for (f t) now why until by_whom])"

lemma ban_step_ips: "list_change IpBanEntryMatcher (\<lambda>a. a) (entries (ip_bans b)) (entries (ip_bans (ban_step op b)))"
proof (cases op)
  case (Pair env x)
  show ?thesis
  proof (cases x)
    case (Ban s args)
    then show ?thesis using Pair
      by (auto simp: BanCommand_execute_def ban_step_simps Let_def intro: list_change.intros split: list.splits)
  next
    case (Ban_Ip s args)
    then show ?thesis using Pair
      by (auto simp: BanIpCommand_execute_def ban_step_simps Let_def entries_addBan
          intro: list_change.intros split: list.splits option.splits)
  next
    case (Pardon s args)
    then show ?thesis using Pair
      by (auto simp: PardonCommand_execute_def ban_step_simps Let_def intro: list_change.intros
          split: list.splits option.splits)
  next
    case (Pardon_Ip s args)
    then show ?thesis using Pair
      by (auto simp: PardonIpCommand_execute_def ban_step_simps Let_def entries_removeBan intro: list_change.intros
          split: list.splits option.splits)
  next
    case (Ban_List s args)
    then show ?thesis using Pair
      by (auto simp: BanListCommand_execute_def ban_step_simps Let_def intro: list_change.intros)
  next
    case (Log_In p)
    then show ?thesis using Pair
      by (auto simp: validateLoginPacket_def ban_step_simps Let_def intro: list_change.intros split: option.splits)
  qed
qed

text \<open>A permanent ban of a name stays until a pardon of that name.\<close>

definition pardons :: "string \<Rightarrow> ban_op \<Rightarrow> bool" where
  "pardons n op \<longleftrightarrow> (case op of Pardon s (a # _) \<Rightarrow> iequals n a | _ \<Rightarrow> False)"

definition name_banned :: "player_id ban_entry \<Rightarrow> ban_server \<Rightarrow> bool" where
  "name_banned e b \<longleftrightarrow> e \<in> set (entries (player_bans b)) \<and> expiration e = None"

lemma in_erase_first: "e \<in> set es \<Longrightarrow> \<not> P e \<Longrightarrow> e \<in> set (erase_first P es)"
  by (induction es) auto

lemma iequals_trans: "iequals a b \<Longrightarrow> iequals b c \<Longrightarrow> iequals a c"
  and iequals_sym: "iequals a b \<Longrightarrow> iequals b a"
  by (simp_all add: iequals_def)

lemma match_by_name [simp]: "PlayerBanEntryMatcher e (by_name n) = iequals (player_name (ident e)) n"
  by (simp add: PlayerBanEntryMatcher_def by_name_def split: option.splits)

lemma getPlayer_name: "getPlayer n b = Some p \<Longrightarrow> iequals (online_name p) n"
  by (auto simp: getPlayer_def find_Some_iff)

lemma name_banned_step:
  assumes "name_banned e b" and "\<not> pardons (player_name (ident e)) (snd op)"
  shows "name_banned e (ban_step op b)"
proof (cases op)
  case (Pair env x)
  have e: "e \<in> set (entries (player_bans b))" "\<not> expired now e" for now
    using assms(1) by (auto simp: name_banned_def expired_def)
  have "e \<in> set (entries (player_bans (ban_step op b)))"
  proof (cases x)
    case (Ban s args)
    show ?thesis
    proof (cases args)
      case (Cons n rest)
      have hit: "valid_for PlayerBanEntryMatcher (clock env) (by_name n) (player_bans b)"
        if "iequals (player_name (ident e)) n"
        using e that by (auto simp: valid_for_def list_ex_iff)
      have miss: "\<not> iequals (player_name (ident e)) (online_name p)"
        if "\<not> iequals (player_name (ident e)) n" "iequals (online_name p) n" for p
        using that iequals_trans by blast
      show ?thesis using Pair Ban Cons e hit miss
        by (auto simp: BanCommand_execute_def ban_step_simps Let_def entries_addBan PlayerBanEntryMatcher_def by_name_def
            dest!: getPlayer_name split: option.splits)
    qed (use Pair Ban e in \<open>simp add: BanCommand_execute_def ban_step_simps Let_def\<close>)
  next
    case (Ban_Ip s args)
    then show ?thesis using Pair e
      by (auto simp: BanIpCommand_execute_def ban_step_simps Let_def split: list.splits option.splits)
  next
    case (Pardon s args)
    then show ?thesis using Pair e assms(2)
      by (auto simp: PardonCommand_execute_def ban_step_simps Let_def entries_removeBan pardons_def
          intro: in_erase_first split: list.splits option.splits)
  next
    case (Pardon_Ip s args)
    then show ?thesis using Pair e
      by (auto simp: PardonIpCommand_execute_def ban_step_simps Let_def split: list.splits option.splits)
  next
    case (Ban_List s args)
    then show ?thesis using Pair e by (auto simp: BanListCommand_execute_def ban_step_simps Let_def)
  next
    case (Log_In p)
    then show ?thesis using Pair e
      by (auto simp: validateLoginPacket_def ban_step_simps Let_def split: option.splits)
  qed
  then show ?thesis using assms(1) by (simp add: name_banned_def)
qed

lemma name_banned_run:
  assumes "name_banned e b" and "\<not> list_ex (\<lambda>op. pardons (player_name (ident e)) (snd op)) ops"
  shows "name_banned e (ban_run ops b)"
  using assms by (induction ops arbitrary: b) (auto simp: ban_run_def name_banned_step)

subsection \<open>Uniqueness of the bans of an address\<close>

lemma unique_filter:
  assumes "unique m es"
  shows "unique m (filter P es)"
  unfolding unique_def
proof
  fix t
  have "length (filter (\<lambda>e. m e t) (filter P es)) \<le> length (filter (\<lambda>e. m e t) es)"
    by (induction es) auto
  also have "\<dots> \<le> 1" using assms by (simp add: unique_def)
  finally show "length (filter (\<lambda>e. m e t) (filter P es)) \<le> 1" .
qed

lemma unique_erase_first:
  assumes "unique m es"
  shows "unique m (erase_first P es)"
  unfolding unique_def
proof
  fix t
  have "length (filter (\<lambda>e. m e t) es) \<le> 1" using assms by (simp add: unique_def)
  then show "length (filter (\<lambda>e. m e t) (erase_first P es)) \<le> 1" by (rule le_trans [OF erase_first_shorter])
qed

lemma ip_change_unique:
  assumes "list_change IpBanEntryMatcher (\<lambda>a. a) es es'" and "unique IpBanEntryMatcher es"
  shows "unique IpBanEntryMatcher es'"
  using assms
proof cases
  case (add now t why until by_whom)
  let ?l = "\<lparr>entries = filter (\<lambda>e. \<not> expired now e) es, file_text = None\<rparr>"
  have "unique IpBanEntryMatcher (entries ?l)" using assms(2) by (simp add: unique_filter)
  from ip.unique_addBan [OF this, of "\<lambda>_. None" now t why until by_whom] add show ?thesis
    by (simp add: entries_addBan conj_commute)
qed (simp_all add: unique_filter unique_erase_first)

lemma ip_run_unique:
  "unique IpBanEntryMatcher (entries (ip_bans b)) \<Longrightarrow> unique IpBanEntryMatcher (entries (ip_bans (ban_run ops b)))"
  by (induction ops arbitrary: b) (auto simp: ban_run_def intro: ip_change_unique [OF ban_step_ips])

subsection \<open>Refused logins\<close>

lemma valid_found: "valid_for m now t l \<longleftrightarrow> (\<exists>f. getBanEntry m t (removeExpired now l) = Some f)"
  using isBanned_valid [of m now t l] by (auto simp: isBanned_def Let_def)

lemma login_matched:
  assumes "name_banned e b" and "third_party_name p = Some third" and "original p = Some info"
    and "PlayerBanEntryMatcher e (auth_target third info)"
  shows "\<exists>msg b'. validateLoginPacket env p b = (Refuse (Some msg), b')"
proof -
  have e: "e \<in> set (entries (player_bans b))" "\<not> expired (clock env) e"
    using assms(1) by (auto simp: name_banned_def expired_def)
  then have v: "valid_for PlayerBanEntryMatcher (clock env) (auth_target third info) (player_bans b)"
    using assms(4) by (auto simp: valid_for_def list_ex_iff)
  then obtain f where "getBanEntry PlayerBanEntryMatcher (auth_target third info)
      (removeExpired (clock env) (player_bans b)) = Some f"
    using valid_found v by metis
  then show ?thesis using assms(2,3) v by (auto simp: validateLoginPacket_def ban_step_simps Let_def)
qed

text \<open>The entry that a successful ban leaves.\<close>

lemma BanCommand_entry:
  assumes "testPermissionSilently (sender_has s) BanCommand"
    and "\<not> fst (isBanned_player env (by_name name) b)"
    and "BanCommand_execute env s (name # args) b = (ok, sent, b1)"
  obtains e where "name_banned e b1" and "iequals (player_name (ident e)) name"
    and "ident e = (case getPlayer name b of None \<Rightarrow> by_name name
       | Some q \<Rightarrow> \<lparr>player_name = online_name q, unique_id = Some (online_uuid q),
           xuid = (if online_xuid q = [] then None else Some (online_xuid q))\<rparr>)"
proof -
  define t where "t = (case getPlayer name b of None \<Rightarrow> by_name name
       | Some q \<Rightarrow> \<lparr>player_name = online_name q, unique_id = Some (online_uuid q),
           xuid = (if online_xuid q = [] then None else Some (online_xuid q))\<rparr>)"
  define e where "e = ban_entry_for t (clock env) (ban_reason (name # args)) None (Some (sender_name s))"
  have same: "getPlayer name (b\<lparr>player_bans := l\<rparr>) = getPlayer name b" for l
    by (simp add: getPlayer_def)
  have "e \<in> set (entries (player_bans b1))"
    using assms
    by (auto simp: BanCommand_execute_def ban_step_simps Let_def same t_def [symmetric] e_def entries_addBan)
  moreover have "iequals (player_name t) name"
    by (auto simp: t_def by_name_def iequals_def [of name name] dest: getPlayer_name split: option.splits)
  ultimately show ?thesis
    by (intro that [of e]) (auto simp: name_banned_def e_def t_def)
qed

lemma pardons_iequals:
  assumes "iequals m n"
  shows "pardons m = pardons n"
proof (rule ext)
  fix op
  show "pardons m op = pardons n op"
    using iequals_trans [OF assms] iequals_trans [OF iequals_sym [OF assms]]
    by (auto simp: pardons_def split: ban_op.splits list.splits)
qed

subsection \<open>Properties\<close>

text \<open>C18: once a permitted \<open>/ban\<close> has banned a name that was not banned, every later login under that name is
  refused, whatever ban commands and logins happen in between and however the clock goes, as long as none of them
  is a pardon of the name. If the player was online when banned, the login is that of the same account.\<close>

theorem ban_lasts:
  assumes "testPermissionSilently (sender_has s) BanCommand"
    and "\<not> fst (isBanned_player env (by_name name) b)"
    and "BanCommand_execute env s (name # args) b = (ok, sent, b1)"
    and "\<not> list_ex (\<lambda>op. pardons name (snd op)) ops"
    and "third_party_name p = Some third" and "original p = Some info"
    and "iequals (player_name (auth_target third info)) name"
    and "case getPlayer name b of None \<Rightarrow> True
      | Some q \<Rightarrow> online_uuid q = fromMinecraft (authenticated_uuid info) \<and> online_xuid q = auth_xuid info"
  shows "\<exists>msg b2. validateLoginPacket env' p (ban_run ops b1) = (Refuse (Some msg), b2)"
proof -
  obtain e where e: "name_banned e b1" "iequals (player_name (ident e)) name"
    and i: "ident e = (case getPlayer name b of None \<Rightarrow> by_name name
       | Some q \<Rightarrow> \<lparr>player_name = online_name q, unique_id = Some (online_uuid q),
           xuid = (if online_xuid q = [] then None else Some (online_xuid q))\<rparr>)"
    using BanCommand_entry [OF assms(1-3)] by blast
  have "PlayerBanEntryMatcher e (auth_target third info)"
    using i assms(8) iequals_trans [OF e(2) iequals_sym [OF assms(7)]]
    by (auto simp: PlayerBanEntryMatcher_def auth_target_def by_name_def split: option.splits)
  moreover have "name_banned e (ban_run ops b1)"
    using name_banned_run [OF e(1)] assms(4) by (simp add: pardons_iequals [OF e(2)])
  ultimately show ?thesis by (intro login_matched [OF _ assms(5,6)])
qed

text \<open>A \<open>/pardon\<close> unbans a name exactly when the list has at most one entry under it: of several (the API
  adds one for each account that has used the name) it removes the first, and the name stays banned.\<close>

theorem pardon_one_entry:
  assumes "testPermissionSilently (sender_has s) PardonCommand"
    and "PardonCommand_execute env s (name # args) b = (ok, sent, b')"
  shows "ok \<and> (getBanEntry PlayerBanEntryMatcher (by_name name) (player_bans b') = None \<longleftrightarrow>
    length (filter (\<lambda>e. iequals (player_name (ident e)) name) (entries (player_bans b))) \<le> 1)"
proof -
  let ?P = "\<lambda>e. iequals (player_name (ident e)) name"
  have step: "filter P (erase_first P es) = tl (filter P es)" for P and es :: "player_id ban_entry list"
    by (induction es) auto
  have "entries (player_bans b') = erase_first ?P (entries (player_bans b)) \<and> ok"
    using assms by (auto simp: PardonCommand_execute_def ban_step_simps Let_def entries_removeBan getBanEntry_None
        erase_first_none split: option.splits)
  moreover have "(\<not> list_ex P es) = (length (filter P es) = 0)" for P and es :: "player_id ban_entry list"
    by (induction es) auto
  moreover have "(tl xs = []) = (length xs \<le> 1)" for xs :: "player_id ban_entry list"
    by (cases xs) auto
  ultimately show ?thesis by (simp add: getBanEntry_None step)
qed

text \<open>An address has at most one ban, whatever commands and logins run, and so a \<open>/pardon-ip\<close> of a
  well-formed address is complete.\<close>

theorem ip_bans_unique:
  assumes "unique IpBanEntryMatcher (entries (ip_bans b))"
    and "testPermissionSilently (sender_has s) PardonIpCommand" and "ipv4_ok env a \<or> ipv6_ok env a"
  shows "unique IpBanEntryMatcher (entries (ip_bans (ban_run ops b))) \<and>
    getBanEntry IpBanEntryMatcher a (ip_bans (ban_step (env, Pardon_Ip s (a # args)) (ban_run ops b))) = None"
  using assms ip_run_unique [OF assms(1)] ip.unique_removeBan(2) [OF ip_run_unique [OF assms(1)]]
  by (auto simp: PardonIpCommand_execute_def ban_step_simps Let_def split: option.splits)

text \<open>A login is accepted exactly when the game's own check accepts it and neither its address nor its
  name and account has a ban in force; the check never ends the program on a missing entry.\<close>

theorem login_decision:
  "(fst (validateLoginPacket env p b) = Accept info \<longleftrightarrow>
     original p = Some info \<and> (\<exists>third. third_party_name p = Some third \<and>
       \<not> valid_for IpBanEntryMatcher (clock env) (address p) (ip_bans b) \<and>
       \<not> valid_for PlayerBanEntryMatcher (clock env) (auth_target third info) (player_bans b))) \<and>
   fst (validateLoginPacket env p b) \<noteq> Terminate"
  by (cases "third_party_name p"; cases "original p")
    (auto simp: validateLoginPacket_def ban_step_simps Let_def valid_found split: option.splits)

subsection \<open>Witnesses\<close>

definition demo_env :: ban_env where
  "demo_env = \<lparr>clock = 100, write_players = (\<lambda>_. None), write_ips = (\<lambda>_. None), ipv4_ok = (\<lambda>a. a = ''10.0.0.1''),
     ipv6_ok = (\<lambda>_. False)\<rparr>"

definition demo_operator :: ban_sender where
  "demo_operator = \<lparr>sender_name = ''Server'', sender_has = (\<lambda>_. True)\<rparr>"

definition demo_server :: ban_server where
  "demo_server = \<lparr>player_bans = \<lparr>entries = [], file_text = None\<rparr>, ip_bans = \<lparr>entries = [], file_text = None\<rparr>,
     online = [\<lparr>online_name = ''Alex'', online_uuid = fromMinecraft (1, 2), online_xuid = ''77'', hostname = ''10.0.0.1''\<rparr>]\<rparr>"

definition demo_auth :: auth_info where
  "demo_auth = \<lparr>auth_xuid = ''77'', xbox_live_name = ''Alex'', authenticated_uuid = (1, 2)\<rparr>"

definition demo_login :: login where
  "demo_login = \<lparr>address = ''10.0.0.2'', third_party_name = Some ''x'', original = Some demo_auth\<rparr>"

lemma demo_permission: "testPermissionSilently (sender_has demo_operator) c"
  by (cases "cmd_permissions c") (simp_all add: testPermissionSilently_def demo_operator_def)

lemmas demo_simps = demo_env_def demo_server_def demo_auth_def demo_login_def

theorem ban_lasts_witness:
  "\<exists>msg b2. validateLoginPacket demo_env demo_login
     (ban_run [(demo_env, Pardon demo_operator [''Bob'']), (demo_env, Ban_Ip demo_operator [''10.0.0.1''])]
       (snd (snd (BanCommand_execute demo_env demo_operator [''alex''] demo_server)))) = (Refuse (Some msg), b2)"
proof (rule ban_lasts [where s = demo_operator and env = demo_env and name = "''alex''" and args = "[]" and b = demo_server])
  show "testPermissionSilently (sender_has demo_operator) BanCommand" by (rule demo_permission)
  show "\<not> fst (isBanned_player demo_env (by_name ''alex'') demo_server)"
    by (simp add: isBanned_player_eq valid_for_def demo_simps)
  show "BanCommand_execute demo_env demo_operator [''alex''] demo_server =
      (fst (BanCommand_execute demo_env demo_operator [''alex''] demo_server),
       fst (snd (BanCommand_execute demo_env demo_operator [''alex''] demo_server)),
       snd (snd (BanCommand_execute demo_env demo_operator [''alex''] demo_server)))"
    by simp
  show "\<not> list_ex (\<lambda>op. pardons ''alex'' (snd op))
      [(demo_env, Pardon demo_operator [''Bob'']), (demo_env, Ban_Ip demo_operator [''10.0.0.1''])]"
    by (simp add: pardons_def) code_simp
  show "third_party_name demo_login = Some ''x''" "original demo_login = Some demo_auth"
    by (simp_all add: demo_simps)
  show "iequals (player_name (auth_target ''x'' demo_auth)) ''alex''"
    by (simp add: auth_target_def demo_simps) code_simp
  have "iequals ''Alex'' ''alex''" by code_simp
  then show "case getPlayer ''alex'' demo_server of None \<Rightarrow> True
      | Some q \<Rightarrow> online_uuid q = fromMinecraft (authenticated_uuid demo_auth) \<and> online_xuid q = auth_xuid demo_auth"
    by (simp add: getPlayer_def demo_simps)
qed

text \<open>Two accounts that have used the name \<open>Alex\<close>: a pardon leaves the second ban.\<close>

definition demo_two :: ban_server where
  "demo_two = demo_server\<lparr>player_bans := \<lparr>entries =
     [new_entry \<lparr>player_name = ''Alex'', unique_id = None, xuid = Some ''1''\<rparr> 0,
      new_entry \<lparr>player_name = ''Alex'', unique_id = None, xuid = Some ''2''\<rparr> 0], file_text = None\<rparr>\<rparr>"

theorem pardon_one_entry_witness:
  "getBanEntry PlayerBanEntryMatcher (by_name ''Alex'')
     (player_bans (snd (snd (PardonCommand_execute demo_env demo_operator [''Alex''] demo_two)))) \<noteq> None"
  using pardon_one_entry [of demo_operator demo_env "''Alex''" "[]" demo_two, OF demo_permission
      prod.collapse [symmetric, THEN trans, OF arg_cong [where f = "Pair _", OF prod.collapse [symmetric]]]]
  by (simp add: demo_two_def new_entry_def iequals_def)

theorem ip_bans_unique_witness:
  "getBanEntry IpBanEntryMatcher ''10.0.0.1'' (ip_bans (ban_step (demo_env, Pardon_Ip demo_operator [''10.0.0.1''])
     (ban_run [(demo_env, Ban_Ip demo_operator [''10.0.0.1''])] demo_server))) = None"
  using ip_bans_unique [of demo_server demo_operator demo_env "''10.0.0.1''"
      "[(demo_env, Ban_Ip demo_operator [''10.0.0.1''])]" "[]"] demo_permission
  by (simp add: unique_def demo_simps)

end
