(* ===== verification/Item_Meta.thy ===== *)
theory Item_Meta
  imports Nbt
begin

text \<open>
  Item stacks and their metadata: \<open>EndstoneItemMetaBase\<close> and \<open>EndstoneMapMeta\<close>
  (\<open>src/endstone/core/inventory/meta\<close>), the item factory and \<open>EndstoneItemStack\<close>
  (\<open>src/endstone/core/inventory/item_stack.cpp\<close>) over the game's \<open>ItemStackBase\<close>
  (\<open>src/bedrock/world/item/item_stack_base.cpp\<close>). The metadata live in the named tags of the stack; the
  lemmas show what is stored is read back and what the comparisons look at. The registries of enchantments
  and the maximum stack sizes belong to the game and are the record \<open>item_game\<close>.
\<close>

subsection \<open>Items\<close>

text \<open>A stack that is not null has a type other than air and a count between 1 and 255; \<open>None\<close> is the null stack.
  \<open>block_data\<close> is the data of the block of an item that has one.\<close>

record item =
  item_type :: string
  item_count :: nat
  aux_value :: int
  block_data :: "int option"
  user_data :: "tag_map option"

type_synonym stack = "item option"

text \<open>\<open>max_stack\<close> is \<open>Item::getMaxStackSize\<close> of the descriptor of an item, \<open>ench_name\<close> the name of an enchantment of the game by
  its number, and \<open>ench_number\<close> looks an identifier up in the registry of enchantments.\<close>

record item_game =
  max_stack :: "item \<Rightarrow> nat"
  ench_name :: "16 word \<Rightarrow> string"
  ench_number :: "string \<Rightarrow> 16 word option"

definition key :: "string \<Rightarrow> bytes" where
  "key s = map (\<lambda>c. word_of_nat (of_char c)) s"

abbreviation "TAG_DISPLAY \<equiv> key ''display''"
abbreviation "TAG_DISPLAY_NAME \<equiv> key ''Name''"
abbreviation "TAG_LORE \<equiv> key ''Lore''"
abbreviation "TAG_ENCHANTS \<equiv> key ''ench''"
abbreviation "TAG_REPAIR_COST \<equiv> key ''RepairCost''"
abbreviation "TAG_UNBREAKABLE \<equiv> key ''Unbreakable''"
abbreviation "TAG_DAMAGE \<equiv> key ''Damage''"
abbreviation "TAG_MAP_UUID \<equiv> key ''map_uuid''"

subsection \<open>Metadata\<close>

text \<open>The class of the object is \<open>meta_type\<close>; \<open>map_id\<close> is a member of \<open>EndstoneMapMeta\<close> only.\<close>

datatype meta_type = Item_Meta | Map_Meta

record meta =
  meta_type :: meta_type
  display_name :: bytes
  lore :: "bytes list"
  enchantments :: "(string \<times> int) list"
  repair_cost :: "32 word"
  damage :: "32 word"
  unbreakable :: bool
  map_id :: "64 word"

definition new_meta :: "meta_type \<Rightarrow> meta" where
  "new_meta ty = \<lparr>meta_type = ty, display_name = [], lore = [], enchantments = [], repair_cost = 0, damage = 0,
     unbreakable = False, map_id = -1\<rparr>"

definition hasDisplayName :: "meta \<Rightarrow> bool" where "hasDisplayName m \<longleftrightarrow> display_name m \<noteq> []"
definition hasLore :: "meta \<Rightarrow> bool" where "hasLore m \<longleftrightarrow> lore m \<noteq> []"
definition hasEnchants :: "meta \<Rightarrow> bool" where "hasEnchants m \<longleftrightarrow> enchantments m \<noteq> []"
definition hasRepairCost :: "meta \<Rightarrow> bool" where "hasRepairCost m \<longleftrightarrow> 0 < sint (repair_cost m)"
definition hasDamage :: "meta \<Rightarrow> bool" where "hasDamage m \<longleftrightarrow> 0 < sint (damage m)"
definition hasMapId :: "meta \<Rightarrow> bool" where "hasMapId m \<longleftrightarrow> map_id m \<noteq> -1"

definition setDisplayName :: "bytes option \<Rightarrow> meta \<Rightarrow> meta" where
  "setDisplayName n m = m\<lparr>display_name := (case n of Some s \<Rightarrow> s | None \<Rightarrow> [])\<rparr>"

definition setLore :: "bytes list option \<Rightarrow> meta \<Rightarrow> meta" where
  "setLore l m = m\<lparr>lore := (case l of Some ls \<Rightarrow> ls | None \<Rightarrow> [])\<rparr>"

definition getEnchantLevel :: "string \<Rightarrow> meta \<Rightarrow> int" where
  "getEnchantLevel i m = (case map_of (enchantments m) i of Some l \<Rightarrow> l | None \<Rightarrow> 0)"

definition hasEnchant :: "string \<Rightarrow> meta \<Rightarrow> bool" where
  "hasEnchant i m \<longleftrightarrow> hasEnchants m \<and> map_of (enchantments m) i \<noteq> None"

text \<open>\<open>levels\<close> are the start and the maximum level of the enchantment in the registry.\<close>

definition addEnchant :: "(string \<Rightarrow> (int \<times> int) option) \<Rightarrow> string \<Rightarrow> int \<Rightarrow> bool \<Rightarrow> meta \<Rightarrow> bool \<times> meta" where
  "addEnchant levels i level force m =
     (case levels i of
        None \<Rightarrow> (False, m)
      | Some (start, most) \<Rightarrow>
          if force \<or> start \<le> level \<and> level \<le> most
          then (let old = getEnchantLevel i m
                in (old = 0 \<or> old \<noteq> level, m\<lparr>enchantments := AList.update i level (enchantments m)\<rparr>))
          else (False, m))"

definition removeEnchant :: "string \<Rightarrow> meta \<Rightarrow> bool \<times> meta" where
  "removeEnchant i m =
     (map_of (enchantments m) i \<noteq> None, m\<lparr>enchantments := AList.delete i (enchantments m)\<rparr>)"

definition removeEnchants :: "meta \<Rightarrow> meta" where
  "removeEnchants m = m\<lparr>enchantments := []\<rparr>"

definition base_isEmpty :: "meta \<Rightarrow> bool" where
  "base_isEmpty m \<longleftrightarrow>
     \<not> (hasDisplayName m \<or> hasLore m \<or> hasEnchants m \<or> hasRepairCost m \<or> unbreakable m \<or> hasDamage m)"

text \<open>\<open>isEmpty\<close> is virtual: a map overrides it.\<close>

definition meta_isEmpty :: "meta \<Rightarrow> bool" where
  "meta_isEmpty m \<longleftrightarrow> base_isEmpty m \<and> (meta_type m = Map_Meta \<longrightarrow> \<not> hasMapId m)"

subsection \<open>Reading the tags\<close>

definition buildEnchantments :: "item_game \<Rightarrow> list_tag \<Rightarrow> (string \<times> int) list" where
  "buildEnchantments g l =
     forEachCompoundTag (\<lambda>t es.
       let i = ''minecraft:'' @ ench_name g (getShortValue t (key ''id''))
       in if ench_number g i \<noteq> None then AList.update i (uint (getShortValue t (key ''lvl''))) es else es) l []"

definition meta_from_tag :: "item_game \<Rightarrow> meta_type \<Rightarrow> tag_map \<Rightarrow> meta" where
  "meta_from_tag g ty t =
     (let m0 = new_meta ty;
          m1 = (case getCompound t TAG_DISPLAY of
              None \<Rightarrow> m0
            | Some d \<Rightarrow>
                let m = (if getStringValue d TAG_DISPLAY_NAME \<noteq> []
                         then m0\<lparr>display_name := getStringValue d TAG_DISPLAY_NAME\<rparr> else m0)
                in (case getList d TAG_LORE of
                      None \<Rightarrow> m
                    | Some l \<Rightarrow> m\<lparr>lore := map (\<lambda>i. list_getString l (int i)) [0..<list_size l]\<rparr>));
          m2 = (case getList t TAG_ENCHANTS of None \<Rightarrow> m1 | Some l \<Rightarrow> m1\<lparr>enchantments := buildEnchantments g l\<rparr>);
          m3 = (if getIntValue t TAG_REPAIR_COST \<noteq> 0 then m2\<lparr>repair_cost := getIntValue t TAG_REPAIR_COST\<rparr> else m2);
          m4 = (if getBoolean t TAG_UNBREAKABLE then m3\<lparr>unbreakable := True\<rparr> else m3);
          m5 = (if getIntValue t TAG_DAMAGE \<noteq> 0 then m4\<lparr>damage := getIntValue t TAG_DAMAGE\<rparr> else m4)
      in if ty = Map_Meta \<and> getInt64Value t TAG_MAP_UUID \<noteq> 0 then m5\<lparr>map_id := getInt64Value t TAG_MAP_UUID\<rparr> else m5)"

text \<open>The constructor from other metadata.\<close>

definition meta_from_meta :: "meta_type \<Rightarrow> meta option \<Rightarrow> meta" where
  "meta_from_meta ty other =
     (case other of
        None \<Rightarrow> new_meta ty
      | Some m \<Rightarrow> m\<lparr>meta_type := ty, map_id := (if ty = Map_Meta \<and> meta_type m = Map_Meta then map_id m else -1)\<rparr>)"

subsection \<open>Writing the tags\<close>







subsection \<open>Comparison\<close>

text \<open>Equality of two \<open>std::unordered_map\<close>s.\<close>

definition same_entries :: "(string \<times> int) list \<Rightarrow> (string \<times> int) list \<Rightarrow> bool" where
  "same_entries xs ys \<longleftrightarrow> length xs = length ys \<and> list_all (\<lambda>(k, v). map_of ys k = Some v) xs"

definition base_equalsCommon :: "meta \<Rightarrow> meta \<Rightarrow> bool" where
  "base_equalsCommon m n \<longleftrightarrow>
     (if hasDisplayName m then hasDisplayName n \<and> display_name m = display_name n else \<not> hasDisplayName n) \<and>
     (if hasEnchants m then hasEnchants n \<and> same_entries (enchantments m) (enchantments n) else \<not> hasEnchants n) \<and>
     lore m = lore n \<and>
     (if hasRepairCost m then hasRepairCost n \<and> repair_cost m = repair_cost n else \<not> hasRepairCost n) \<and>
     unbreakable m = unbreakable n \<and>
     (if hasDamage m then hasDamage n \<and> damage m = damage n else \<not> hasDamage n)"

definition equalsCommon :: "meta \<Rightarrow> meta \<Rightarrow> bool" where
  "equalsCommon m n \<longleftrightarrow> base_equalsCommon m n \<and>
     (meta_type m = Map_Meta \<and> meta_type n = Map_Meta \<longrightarrow>
       (if hasMapId m then hasMapId n \<and> map_id m = map_id n else \<not> hasMapId n))"

definition notUncommon :: "meta \<Rightarrow> meta \<Rightarrow> bool" where
  "notUncommon m n \<longleftrightarrow> (meta_type m = Map_Meta \<longrightarrow> meta_type n = Map_Meta \<or> \<not> hasMapId m)"

text \<open>\<open>EndstoneItemFactory::equals\<close> of two pointers.\<close>

definition meta_equals :: "meta option \<Rightarrow> meta option \<Rightarrow> bool" where
  "meta_equals a b =
     (case (a, b) of
        (None, None) \<Rightarrow> True
      | (None, Some n) \<Rightarrow> meta_isEmpty n
      | (Some m, None) \<Rightarrow> meta_isEmpty m
      | (Some m, Some n) \<Rightarrow> equalsCommon m n \<and> notUncommon m n \<and> notUncommon n m)"

subsection \<open>The stack\<close>

definition AIR :: string where "AIR = ''minecraft:air''"

definition getType :: "stack \<Rightarrow> string" where
  "getType s = (case s of Some i \<Rightarrow> item_type i | None \<Rightarrow> AIR)"

definition getAmount :: "stack \<Rightarrow> int" where
  "getAmount s = (case s of Some i \<Rightarrow> int (item_count i) | None \<Rightarrow> 0)"

definition ANY_AUX_VALUE :: int where "ANY_AUX_VALUE = 0x7fff"

definition getAuxValue :: "item \<Rightarrow> int" where
  "getAuxValue i = (case block_data i of None \<Rightarrow> aux_value i
     | Some d \<Rightarrow> if aux_value i = ANY_AUX_VALUE then aux_value i else d)"

definition getData :: "stack \<Rightarrow> int" where
  "getData s = (case s of Some i \<Rightarrow> getAuxValue i | None \<Rightarrow> 0)"

definition setData :: "int \<Rightarrow> stack \<Rightarrow> stack" where
  "setData d s = map_option (\<lambda>i. i\<lparr>aux_value := d mod 0x8000\<rparr>) s"

definition getMaxStackSize :: "item_game \<Rightarrow> stack \<Rightarrow> int" where
  "getMaxStackSize g s = (case s of Some i \<Rightarrow> int (max_stack g i) | None \<Rightarrow> 0)"

datatype item_error = Invalid_Argument

text \<open>\<open>ItemStackBase::set\<close> caps the count at the maximum stack size; a stack with no item stays null.\<close>

definition stack_set :: "item_game \<Rightarrow> int \<Rightarrow> stack \<Rightarrow> stack" where
  "stack_set g n s =
     (case s of
        None \<Rightarrow> None
      | Some i \<Rightarrow>
          let cnt = (if n > getMaxStackSize g s then max_stack g i else nat n)
          in if cnt = 0 then None else Some (i\<lparr>item_count := cnt\<rparr>))"

definition setAmount :: "item_game \<Rightarrow> int \<Rightarrow> stack \<Rightarrow> item_error + stack" where
  "setAmount g n s = (if n \<ge> 1 \<and> n \<le> 0xff then Inr (stack_set g n s) else Inl Invalid_Argument)"

text \<open>\<open>EndstoneItemMetas::getItemMetaDetails\<close>; air has none.\<close>

definition meta_details :: "string \<Rightarrow> meta_type option" where
  "meta_details ty = (if ty = AIR then None else if ty = ''minecraft:filled_map'' then Some Map_Meta else Some Item_Meta)"

definition has_tags :: "stack \<Rightarrow> bool" where
  "has_tags s = (case s of Some i \<Rightarrow> (case user_data i of Some t \<Rightarrow> \<not> compound_isEmpty t | None \<Rightarrow> False) | None \<Rightarrow> False)"

definition getItemMeta :: "item_game \<Rightarrow> stack \<Rightarrow> meta option" where
  "getItemMeta g s =
     (if \<not> has_tags s then map_option (\<lambda>ty. meta_from_meta ty None) (meta_details (getType s))
      else map_option (\<lambda>ty. meta_from_tag g ty (case s of Some i \<Rightarrow> (case user_data i of Some t \<Rightarrow> t | None \<Rightarrow> []) | None \<Rightarrow> []))
        (meta_details (getType s)))"

definition hasItemMeta :: "item_game \<Rightarrow> stack \<Rightarrow> bool" where
  "hasItemMeta g s \<longleftrightarrow> has_tags s \<and> \<not> meta_equals (getItemMeta g s) None"


text \<open>Comparison of two distinct objects.\<close>

definition isSimilar :: "item_game \<Rightarrow> stack \<Rightarrow> stack \<Rightarrow> bool" where
  "isSimilar g a b \<longleftrightarrow>
     (if getType a \<noteq> getType b then False
      else if hasItemMeta g a
      then hasItemMeta g b \<and>
        (case (a, b) of
           (Some i, Some j) \<Rightarrow> tag_equals (Compound_Tag (the (user_data i))) (Compound_Tag (the (user_data j)))
         | _ \<Rightarrow> False)
      else \<not> hasItemMeta g b)"

definition stack_equals :: "item_game \<Rightarrow> stack \<Rightarrow> stack \<Rightarrow> bool" where
  "stack_equals g a b \<longleftrightarrow> getAmount a = getAmount b \<and> isSimilar g a b"

subsection \<open>What is stored under each key\<close>

lemma key_inject [simp]: "key s = key t \<longleftrightarrow> s = t"
proof -
  have "(word_of_nat (of_char c) :: byte) = word_of_nat (of_char d) \<longleftrightarrow> c = d" for c d :: char
    by (simp add: word_of_nat_eq_iff take_bit_eq_mod del: of_nat_of_char)
  then have "inj (\<lambda>c. word_of_nat (of_char c) :: byte)" by (auto simp: inj_def)
  then show ?thesis unfolding key_def by (simp add: inj_map_eq_map)
qed

lemma map_of_remove [simp]: "map_of (snd (compound_remove k t)) = (map_of t)(k := None)"
  by (auto simp: compound_remove_def split: option.splits)

lemma sorted_remove [simp]: "sorted_map t \<Longrightarrow> sorted_map (snd (compound_remove k t))"
  by (auto simp: compound_remove_def split: option.splits)

lemmas tag_reads = compound_get_def getCompound_def getList_def getIntValue_def getIntTag_def getInt64Value_def
  getInt64Tag_def getBoolean_def getByteValue_def getByteTag_def getStringValue_def getShortValue_def getShortTag_def








subsection \<open>The round trip\<close>

definition meta_keys :: "bytes list" where
  "meta_keys = [TAG_DISPLAY, TAG_ENCHANTS, TAG_REPAIR_COST, TAG_UNBREAKABLE, TAG_DAMAGE, TAG_MAP_UUID]"










text \<open>The display compound after the name and the lore have been replaced.\<close>

definition old_display :: "tag_map \<Rightarrow> tag_map" where
  "old_display t = (case getCompound t TAG_DISPLAY of None \<Rightarrow> []
     | Some d \<Rightarrow> snd (compound_remove TAG_LORE (snd (compound_remove TAG_DISPLAY_NAME d))))"

lemma getCompound_put [simp]: "getCompound (omap_put k (Compound_Tag d) t) k = Some d"
  by (simp add: tag_reads)


lemma meta_from_tag_fields:
  "meta_type (meta_from_tag g ty t) = ty"
  "display_name (meta_from_tag g ty t) =
     (case getCompound t TAG_DISPLAY of None \<Rightarrow> [] | Some d \<Rightarrow> getStringValue d TAG_DISPLAY_NAME)"
  "lore (meta_from_tag g ty t) = (case getCompound t TAG_DISPLAY of None \<Rightarrow> []
     | Some d \<Rightarrow> (case getList d TAG_LORE of None \<Rightarrow> [] | Some l \<Rightarrow> map (\<lambda>i. list_getString l (int i)) [0..<list_size l]))"
  "enchantments (meta_from_tag g ty t) = (case getList t TAG_ENCHANTS of None \<Rightarrow> [] | Some l \<Rightarrow> buildEnchantments g l)"
  "repair_cost (meta_from_tag g ty t) = getIntValue t TAG_REPAIR_COST"
  "damage (meta_from_tag g ty t) = getIntValue t TAG_DAMAGE"
  "unbreakable (meta_from_tag g ty t) = getBoolean t TAG_UNBREAKABLE"
  "map_id (meta_from_tag g ty t) =
     (if ty = Map_Meta \<and> getInt64Value t TAG_MAP_UUID \<noteq> 0 then getInt64Value t TAG_MAP_UUID else -1)"
  by (simp_all add: meta_from_tag_def new_meta_def Let_def split: option.splits)





lemma no_tags_no_meta:
  assumes "map_of t TAG_DISPLAY = None" and "map_of t TAG_ENCHANTS = None" and "map_of t TAG_REPAIR_COST = None"
    and "map_of t TAG_UNBREAKABLE = None" and "map_of t TAG_DAMAGE = None" and "map_of t TAG_MAP_UUID = None"
  shows "meta_isEmpty (meta_from_tag g ty t)"
  using assms
  by (simp add: meta_isEmpty_def base_isEmpty_def hasDisplayName_def hasLore_def hasEnchants_def hasRepairCost_def
      hasDamage_def hasMapId_def meta_from_tag_fields tag_reads)

lemma foreign_tags_no_meta:
  assumes "user_data i = Some t" and "list_all (\<lambda>k. map_of t k = None) meta_keys"
  shows "\<not> hasItemMeta g (Some i)"
  using no_tags_no_meta [of t g] assms
  by (auto simp: hasItemMeta_def getItemMeta_def meta_equals_def meta_keys_def split: option.splits)

subsection \<open>Properties\<close>


text \<open>Two stacks of one type whose tags are all foreign to the metadata compare as similar whatever these
  tags, the data values and the blocks are, although \<open>isSimilar\<close> promises equality up to the amount.\<close>

theorem similar_ignores_foreign_tags:
  assumes "item_type i = item_type j" and "user_data i = Some t" and "user_data j = Some u"
    and "list_all (\<lambda>k. map_of t k = None \<and> map_of u k = None) meta_keys"
  shows "isSimilar g (Some i) (Some j)"
  using assms foreign_tags_no_meta [of i t g] foreign_tags_no_meta [of j u g]
  by (auto simp: isSimilar_def getType_def list_all_iff)

subsection \<open>Witnesses\<close>

definition demo_ench :: item_game where
  "demo_ench = \<lparr>max_stack = (\<lambda>_. 1), ench_name = (\<lambda>n. if n = 9 then ''sharpness'' else ''unbreaking''),
     ench_number = (\<lambda>i. if i = ''minecraft:sharpness'' then Some 9 else if i = ''minecraft:unbreaking'' then Some 17 else None)\<rparr>"




text \<open>A full and an empty shulker box.\<close>

definition shulker :: "tag list \<Rightarrow> int \<Rightarrow> item" where
  "shulker contents colour = \<lparr>item_type = ''minecraft:shulker_box'', item_count = 1, aux_value = colour,
     block_data = None, user_data = Some [(key ''Items'', List_Tag Type_Compound contents)]\<rparr>"

theorem similar_ignores_foreign_tags_witness:
  "isSimilar demo_ench (Some (shulker [] 0)) (Some (shulker [Compound_Tag [(key ''Name'', Int_Tag 1)]] 4))"
  by (rule similar_ignores_foreign_tags [of _ _ "[(key ''Items'', List_Tag Type_Compound [])]"
      "[(key ''Items'', List_Tag Type_Compound [Compound_Tag [(key ''Name'', Int_Tag 1)]])]"])
    (simp_all add: shulker_def meta_keys_def)

end
