(* ===== verification/Inventory.thy ===== *)
theory Inventory
  imports Item_Meta
begin

text \<open>
  Inventories (\<open>src/endstone/core/inventory/inventory.cpp\<close> and \<open>player_inventory.cpp\<close>): searching, adding and
  removing items over the slots of a container of the game. The two loops that may not end are partial
  functions; the lemmas show when they end, that every slot stays within its maximum, and which items are
  conserved.
\<close>

subsection \<open>The container\<close>

text \<open>The slots of the container; \<open>get_slot\<close> and \<open>set_slot\<close> are \<open>getItem\<close> and \<open>setItemWithForceBalance\<close> of the
  game's container, \<open>container_max\<close> its \<open>getMaxStackSize\<close>.\<close>

type_synonym slots = "stack list"

record inv_game = item_game +
  get_slot :: "int \<Rightarrow> slots \<Rightarrow> stack"
  set_slot :: "int \<Rightarrow> stack \<Rightarrow> slots \<Rightarrow> slots"
  container_max :: "slots \<Rightarrow> int"

abbreviation items_of :: "inv_game \<Rightarrow> item_game" where
  "items_of g \<equiv> item_game.truncate g"

definition getSize :: "slots \<Rightarrow> int" where
  "getSize c = int (length c)"

definition inv_getMaxStackSize :: "inv_game \<Rightarrow> slots \<Rightarrow> int" where
  "inv_getMaxStackSize g c = container_max g c"

text \<open>An empty slot is read as \<open>nullopt\<close>, which the type \<open>stack\<close> does not distinguish from the null stack.\<close>

definition getItem :: "inv_game \<Rightarrow> int \<Rightarrow> slots \<Rightarrow> stack" where
  "getItem g i c = get_slot g i c"

definition setItem :: "inv_game \<Rightarrow> int \<Rightarrow> stack \<Rightarrow> slots \<Rightarrow> slots" where
  "setItem g i s c = set_slot g i s c"

definition getContents :: "slots \<Rightarrow> slots" where
  "getContents c = c"

definition clear_slot :: "inv_game \<Rightarrow> int \<Rightarrow> slots \<Rightarrow> slots" where
  "clear_slot g i c = setItem g i None c"

definition clear_all :: "inv_game \<Rightarrow> slots \<Rightarrow> slots" where
  "clear_all g c = fold (\<lambda>i. clear_slot g (int i)) [0..<length c] c"

definition setContents :: "inv_game \<Rightarrow> stack list \<Rightarrow> slots \<Rightarrow> item_error + slots" where
  "setContents g items c =
     (if int (length items) > getSize c then Inl Invalid_Argument
      else Inr (fold (\<lambda>i. if i \<ge> length items then clear_slot g (int i) else setItem g (int i) (items ! i))
        [0..<length c] c))"

subsection \<open>Searching\<close>

fun index_of :: "(stack \<Rightarrow> bool) \<Rightarrow> int \<Rightarrow> slots \<Rightarrow> int" where
  "index_of P i [] = -1"
| "index_of P i (s # c) = (if P s then i else index_of P (i + 1) c)"

definition has_type :: "string \<Rightarrow> stack \<Rightarrow> bool" where
  "has_type ty s \<longleftrightarrow> s \<noteq> None \<and> getType s = ty"

definition contains_type :: "string \<Rightarrow> slots \<Rightarrow> bool" where
  "contains_type ty c \<longleftrightarrow> list_ex (has_type ty) (getContents c)"

definition contains_item :: "inv_game \<Rightarrow> stack \<Rightarrow> slots \<Rightarrow> bool" where
  "contains_item g item c \<longleftrightarrow> list_ex (\<lambda>s. s \<noteq> None \<and> stack_equals (items_of g) item s) (getContents c)"

fun count_down :: "(stack \<Rightarrow> bool) \<Rightarrow> (stack \<Rightarrow> int) \<Rightarrow> int \<Rightarrow> slots \<Rightarrow> bool" where
  "count_down P step n [] = False"
| "count_down P step n (s # c) =
     (if P s then (if n - step s \<le> 0 then True else count_down P step (n - step s) c) else count_down P step n c)"

definition contains_stacks :: "inv_game \<Rightarrow> stack \<Rightarrow> int \<Rightarrow> slots \<Rightarrow> bool" where
  "contains_stacks g item n c \<longleftrightarrow> (if n \<le> 0 then True
     else count_down (\<lambda>s. s \<noteq> None \<and> stack_equals (items_of g) item s) (\<lambda>_. 1) n (getContents c))"

definition containsAtLeast_type :: "string \<Rightarrow> int \<Rightarrow> slots \<Rightarrow> bool" where
  "containsAtLeast_type ty n c \<longleftrightarrow> (if n \<le> 0 then True else count_down (has_type ty) getAmount n (getContents c))"

definition containsAtLeast_item :: "inv_game \<Rightarrow> stack \<Rightarrow> int \<Rightarrow> slots \<Rightarrow> bool" where
  "containsAtLeast_item g item n c \<longleftrightarrow> (if n \<le> 0 then True
     else count_down (\<lambda>s. s \<noteq> None \<and> isSimilar (items_of g) item s) getAmount n (getContents c))"

definition all_type :: "string \<Rightarrow> slots \<Rightarrow> (int \<times> stack) list" where
  "all_type ty c = filter (\<lambda>e. has_type ty (snd e)) (zip (map int [0..<length c]) (getContents c))"

definition all_item :: "inv_game \<Rightarrow> stack \<Rightarrow> slots \<Rightarrow> (int \<times> stack) list" where
  "all_item g item c =
     filter (\<lambda>e. snd e \<noteq> None \<and> stack_equals (items_of g) item (snd e)) (zip (map int [0..<length c]) (getContents c))"

definition first_type :: "string \<Rightarrow> slots \<Rightarrow> int" where
  "first_type ty c = index_of (has_type ty) 0 (getContents c)"

definition first_item :: "inv_game \<Rightarrow> stack \<Rightarrow> bool \<Rightarrow> slots \<Rightarrow> int" where
  "first_item g item with_amount c =
     index_of (\<lambda>s. s \<noteq> None \<and> (if with_amount then stack_equals (items_of g) item s else isSimilar (items_of g) item s)) 0
       (getContents c)"

definition firstEmpty :: "slots \<Rightarrow> int" where
  "firstEmpty c = index_of (\<lambda>s. s = None) 0 (getContents c)"

definition firstPartial :: "inv_game \<Rightarrow> stack \<Rightarrow> slots \<Rightarrow> int" where
  "firstPartial g item c =
     index_of (\<lambda>s. s \<noteq> None \<and> getAmount s < getMaxStackSize (items_of g) item \<and> isSimilar (items_of g) item s) 0
       (getContents c)"

text \<open>The loops run over a copy of the contents.\<close>

definition remove_where :: "inv_game \<Rightarrow> (stack \<Rightarrow> bool) \<Rightarrow> slots \<Rightarrow> slots" where
  "remove_where g P c = fold (\<lambda>i. if P (getContents c ! i) then clear_slot g (int i) else id) [0..<length c] c"

definition remove_type :: "inv_game \<Rightarrow> string \<Rightarrow> slots \<Rightarrow> slots" where
  "remove_type g ty c = remove_where g (has_type ty) c"

definition remove_item :: "inv_game \<Rightarrow> stack \<Rightarrow> slots \<Rightarrow> slots" where
  "remove_item g item c = remove_where g (\<lambda>s. s \<noteq> None \<and> stack_equals (items_of g) item s) c"

subsection \<open>Adding and removing\<close>

text \<open>The outcome for one item: what is left of it, if anything, and the slots; an exception leaves the slots as
  they are.\<close>

type_synonym 'a outcome = "(item_error \<times> slots) + ('a \<times> slots)"

partial_function (option) add_one :: "inv_game \<Rightarrow> stack \<Rightarrow> slots \<Rightarrow> stack option outcome option" where
  "add_one g item c =
     (let slot = firstPartial g item c; most = getMaxStackSize (items_of g) item
      in if slot = -1
         then (let slot' = firstEmpty c
               in if slot' = -1 then Some (Inr (Some item, c))
                  else if getAmount item > most
                  then (case setAmount (items_of g) most item of
                          Inl e \<Rightarrow> Some (Inl (e, c))
                        | Inr stack \<Rightarrow>
                            let c1 = setItem g slot' stack c
                            in case setAmount (items_of g) (getAmount item - most) item of
                                 Inl e \<Rightarrow> Some (Inl (e, c1))
                               | Inr rest \<Rightarrow> add_one g rest c1)
                  else Some (Inr (None, setItem g slot' item c)))
         else (let partial = getItem g slot c; cap = getMaxStackSize (items_of g) partial
               in if getAmount item + getAmount partial \<le> cap
                  then (case setAmount (items_of g) (getAmount item + getAmount partial) partial of
                          Inl e \<Rightarrow> Some (Inl (e, c))
                        | Inr stack \<Rightarrow> Some (Inr (None, setItem g slot stack c)))
                  else (case setAmount (items_of g) (getAmount item + getAmount partial - cap) item of
                          Inl e \<Rightarrow> Some (Inl (e, c))
                        | Inr rest \<Rightarrow>
                            (case setAmount (items_of g) cap partial of
                               Inl e \<Rightarrow> Some (Inl (e, c))
                             | Inr stack \<Rightarrow> add_one g rest (setItem g slot stack c)))))"

partial_function (option) remove_one :: "inv_game \<Rightarrow> stack \<Rightarrow> int \<Rightarrow> slots \<Rightarrow> stack option outcome option" where
  "remove_one g item to_delete c =
     (let slot = first_item g item False c
      in if slot = -1
         then (case setAmount (items_of g) to_delete item of
                 Inl e \<Rightarrow> Some (Inl (e, c))
               | Inr rest \<Rightarrow> Some (Inr (Some rest, c)))
         else (let stack = getItem g slot c; amount = getAmount stack
               in if amount \<le> to_delete
                  then (if to_delete - amount \<le> 0 then Some (Inr (None, clear_slot g slot c))
                        else remove_one g item (to_delete - amount) (clear_slot g slot c))
                  else (case setAmount (items_of g) (amount - to_delete) stack of
                          Inl e \<Rightarrow> Some (Inl (e, c))
                        | Inr rest \<Rightarrow> Some (Inr (None, setItem g slot rest c)))))"

text \<open>The loop over the items; the left-over map has the index of the item.\<close>

fun each_item :: "(stack \<Rightarrow> slots \<Rightarrow> stack option outcome option) \<Rightarrow> nat \<Rightarrow> stack list \<Rightarrow> slots \<Rightarrow>
    ((nat \<times> stack) list) outcome option" where
  "each_item step i [] c = Some (Inr ([], c))"
| "each_item step i (item # items) c =
     (case step item c of
        None \<Rightarrow> None
      | Some (Inl e) \<Rightarrow> Some (Inl e)
      | Some (Inr (left, c1)) \<Rightarrow>
          (case each_item step (Suc i) items c1 of
             None \<Rightarrow> None
           | Some (Inl e) \<Rightarrow> Some (Inl e)
           | Some (Inr (leftover, c2)) \<Rightarrow>
               Some (Inr ((case left of None \<Rightarrow> leftover | Some s \<Rightarrow> (i, s) # leftover), c2))))"

definition addItem :: "inv_game \<Rightarrow> stack list \<Rightarrow> slots \<Rightarrow> ((nat \<times> stack) list) outcome option" where
  "addItem g items c = each_item (add_one g) 0 items c"

definition removeItem :: "inv_game \<Rightarrow> stack list \<Rightarrow> slots \<Rightarrow> ((nat \<times> stack) list) outcome option" where
  "removeItem g items c = each_item (\<lambda>item. remove_one g item (getAmount item)) 0 items c"

subsection \<open>The inventory of a player\<close>

text \<open>The game's \<open>Player\<close> holds the armour, the off-hand slot and the selected slot beside the container, whose
  operations are those above.\<close>

datatype armor_slot = Head | Torso | Legs | Feet

record player_inv =
  slots_of :: slots
  armor :: "armor_slot \<Rightarrow> stack"
  offhand :: stack
  selected :: int

definition HOTBAR_SIZE :: int where "HOTBAR_SIZE = 9"

definition getArmor :: "armor_slot \<Rightarrow> player_inv \<Rightarrow> stack" where
  "getArmor a p = armor p a"

definition setArmor :: "armor_slot \<Rightarrow> stack \<Rightarrow> player_inv \<Rightarrow> player_inv" where
  "setArmor a s p = p\<lparr>armor := (armor p)(a := s)\<rparr>"

definition getHelmet :: "player_inv \<Rightarrow> stack" where "getHelmet p = getArmor Head p"
definition getChestplate :: "player_inv \<Rightarrow> stack" where "getChestplate p = getArmor Torso p"
definition getLeggings :: "player_inv \<Rightarrow> stack" where "getLeggings p = getArmor Legs p"
definition getBoots :: "player_inv \<Rightarrow> stack" where "getBoots p = getArmor Feet p"
definition setHelmet :: "stack \<Rightarrow> player_inv \<Rightarrow> player_inv" where "setHelmet s p = setArmor Head s p"
definition setChestplate :: "stack \<Rightarrow> player_inv \<Rightarrow> player_inv" where "setChestplate s p = setArmor Torso s p"
definition setLeggings :: "stack \<Rightarrow> player_inv \<Rightarrow> player_inv" where "setLeggings s p = setArmor Legs s p"
definition setBoots :: "stack \<Rightarrow> player_inv \<Rightarrow> player_inv" where "setBoots s p = setArmor Feet s p"

definition getItemInMainHand :: "inv_game \<Rightarrow> player_inv \<Rightarrow> stack" where
  "getItemInMainHand g p = getItem g (selected p) (slots_of p)"

definition setItemInMainHand :: "inv_game \<Rightarrow> stack \<Rightarrow> player_inv \<Rightarrow> player_inv" where
  "setItemInMainHand g s p = p\<lparr>slots_of := setItem g (selected p) s (slots_of p)\<rparr>"

definition getItemInOffHand :: "player_inv \<Rightarrow> stack" where "getItemInOffHand p = offhand p"

definition setItemInOffHand :: "stack \<Rightarrow> player_inv \<Rightarrow> player_inv" where
  "setItemInOffHand s p = p\<lparr>offhand := s\<rparr>"

definition getHeldItemSlot :: "player_inv \<Rightarrow> int" where "getHeldItemSlot p = selected p"

definition setHeldItemSlot :: "int \<Rightarrow> player_inv \<Rightarrow> item_error + player_inv" where
  "setHeldItemSlot i p = (if i \<ge> 0 \<and> i < HOTBAR_SIZE then Inr (p\<lparr>selected := i\<rparr>) else Inl Invalid_Argument)"

subsection \<open>Laws of the game's container and items\<close>

definition inv_laws :: "inv_game \<Rightarrow> bool" where
  "inv_laws g \<longleftrightarrow>
     (\<forall>c i s. 0 \<le> i \<and> i < int (length c) \<longrightarrow> get_slot g i c = c ! nat i \<and> set_slot g i s c = c[nat i := s]) \<and>
     (\<forall>i j. item_type i = item_type j \<longrightarrow> max_stack g i = max_stack g j) \<and>
     (\<forall>i. 1 \<le> max_stack g i \<and> max_stack g i \<le> 255)"

definition stack_ok :: "stack \<Rightarrow> bool" where
  "stack_ok s \<longleftrightarrow> (case s of None \<Rightarrow> False | Some i \<Rightarrow> 1 \<le> item_count i \<and> item_count i \<le> 255 \<and> item_type i \<noteq> AIR)"

definition within :: "inv_game \<Rightarrow> stack \<Rightarrow> bool" where
  "within g s \<longleftrightarrow> getAmount s \<le> getMaxStackSize (items_of g) s"

definition slots_ok :: "inv_game \<Rightarrow> slots \<Rightarrow> bool" where
  "slots_ok g c \<longleftrightarrow> list_all (\<lambda>s. s = None \<or> stack_ok s \<and> within g s) c"

definition total :: "slots \<Rightarrow> int" where
  "total c = sum_list (map getAmount c)"

lemma laws_slots:
  assumes "inv_laws g" and "n < length c"
  shows "getItem g (int n) c = c ! n" and "setItem g (int n) s c = c[n := s]"
  using assms by (auto simp: inv_laws_def getItem_def setItem_def)

lemma max_stack_truncate [simp]: "max_stack (items_of g) = max_stack g"
  by (simp add: item_game.defs)

text \<open>Only the type decides the maximum.\<close>

definition cap :: "inv_game \<Rightarrow> string \<Rightarrow> nat" where
  "cap g ty = max_stack g (undefined\<lparr>item_type := ty\<rparr>)"

lemma max_cap: "inv_laws g \<Longrightarrow> max_stack g i = cap g (item_type i)"
  unfolding inv_laws_def cap_def by (metis item.select_convs(1) item.surjective item.update_convs(1))

lemma cap_bounds: "inv_laws g \<Longrightarrow> 1 \<le> cap g ty \<and> cap g ty \<le> 255"
  by (simp add: inv_laws_def cap_def)

lemma setAmount_Some:
  assumes "inv_laws g" and "1 \<le> n" and "n \<le> 255"
  shows "setAmount (items_of g) n (Some i) = Inr (Some (i\<lparr>item_count := min (nat n) (cap g (item_type i))\<rparr>))"
  using assms cap_bounds [OF assms(1), of "item_type i"]
  by (auto simp: setAmount_def stack_set_def getMaxStackSize_def max_cap min_def Let_def)

lemma index_of_spec:
  "0 \<le> k \<Longrightarrow> (\<not> list_ex P c \<and> index_of P k c = -1) \<or>
    (\<exists>n. index_of P k c = k + int n \<and> n < length c \<and> P (c ! n) \<and> list_ex P c \<and> (\<forall>m < n. \<not> P (c ! m)))"
proof (induction P k c rule: index_of.induct)
  case (2 P i s c)
  show ?case
  proof (cases "P s")
    case False
    then consider "\<not> list_ex P c" "index_of P (i + 1) c = -1"
      | n where "index_of P (i + 1) c = i + 1 + int n" "n < length c" "P (c ! n)" "list_ex P c" "\<forall>m < n. \<not> P (c ! m)"
      using 2 by fastforce
    then show ?thesis
    proof cases
      case (2 n)
      then show ?thesis using False by (intro disjI2 exI [of _ "Suc n"]) (auto simp: less_Suc_eq_0_disj)
    qed (use False in simp)
  qed (auto intro: exI [of _ 0])
qed simp

lemma index_of_cases:
  obtains "\<not> list_ex P c" "index_of P 0 c = -1"
  | n where "index_of P 0 c = int n" "n < length c" "P (c ! n)" "list_ex P c"
  using index_of_spec [of 0 P c] by auto

lemma total_update: "n < length c \<Longrightarrow> total (c[n := s]) = total c - getAmount (c ! n) + getAmount s"
proof (induction c arbitrary: n)
  case (Cons x c)
  then show ?case by (cases n) (auto simp: total_def)
qed simp

lemma slots_ok_update: "slots_ok g c \<Longrightarrow> s = None \<or> stack_ok s \<and> within g s \<Longrightarrow> slots_ok g (c[n := s])"
  unfolding slots_ok_def list_all_iff by (auto dest!: set_update_subset_insert [THEN subsetD])

lemma slots_ok_nth: "slots_ok g c \<Longrightarrow> n < length c \<Longrightarrow> c ! n = None \<or> stack_ok (c ! n) \<and> within g (c ! n)"
  by (simp add: slots_ok_def list_all_length)

text \<open>The slots that can still take items.\<close>

definition has_room :: "inv_game \<Rightarrow> stack \<Rightarrow> bool" where
  "has_room g s \<longleftrightarrow> (case s of None \<Rightarrow> True | Some i \<Rightarrow> item_count i < cap g (item_type i))"

definition room :: "inv_game \<Rightarrow> slots \<Rightarrow> nat" where
  "room g c = length (filter (has_room g) c)"

lemma room_update: "n < length c \<Longrightarrow> has_room g (c ! n) \<Longrightarrow> \<not> has_room g s \<Longrightarrow> room g (c[n := s]) < room g c"
proof (induction c arbitrary: n)
  case (Cons x c)
  then show ?case by (cases n) (auto simp: room_def)
qed simp

lemma similar_type: "isSimilar g (Some i) (Some j) \<Longrightarrow> item_type j = item_type i"
  by (auto simp: isSimilar_def getType_def split: if_splits)

text \<open>Adding one item returns, keeps the slots within their maxima, and loses nothing unless the stack is larger
  than its maximum.\<close>

lemma add_one_ok:
  assumes "inv_laws g"
  shows "slots_ok g c \<Longrightarrow> stack_ok item \<Longrightarrow> \<exists>left c'. add_one g item c = Some (Inr (left, c')) \<and> slots_ok g c' \<and>
    length c' = length c \<and> (left = None \<or> stack_ok (the left)) \<and>
    (within g item \<longrightarrow> (left = None \<or> within g (the left)) \<and>
      total c' + (case left of None \<Rightarrow> 0 | Some s \<Rightarrow> getAmount s) = total c + getAmount item)"
proof (induction "room g c" arbitrary: c item rule: less_induct)
  case less
  obtain i where item: "item = Some i" "1 \<le> item_count i" "item_count i \<le> 255" "item_type i \<noteq> AIR"
    using less.prems(2) by (auto simp: stack_ok_def split: option.splits)
  let ?most = "cap g (item_type i)"
  have most: "1 \<le> ?most" "?most \<le> 255" using cap_bounds [OF assms] by auto
  have gm: "getMaxStackSize (items_of g) (Some j) = int (cap g (item_type j))" for j
    by (simp add: getMaxStackSize_def max_cap [OF assms])
  show ?case
  proof (cases rule: index_of_cases [of "\<lambda>s. s \<noteq> None \<and> getAmount s < getMaxStackSize (items_of g) item \<and>
      isSimilar (items_of g) item s" c])
    case 1
    then have np: "firstPartial g item c = -1" by (simp add: firstPartial_def getContents_def)
    show ?thesis
    proof (cases rule: index_of_cases [of "\<lambda>s. s = None" c])
      case 1
      then have "firstEmpty c = -1" by (simp add: firstEmpty_def getContents_def)
      then have "add_one g item c = Some (Inr (Some item, c))" using np by (subst add_one.simps) simp
      then show ?thesis using less.prems by auto
    next
      case (2 n)
      then have fe: "firstEmpty c = int n" "n < length c" "c ! n = None" by (auto simp: firstEmpty_def getContents_def)
      show ?thesis
      proof (cases "item_count i > ?most")
        case True
        let ?full = "Some (i\<lparr>item_count := ?most\<rparr>)" and ?rest = "Some (i\<lparr>item_count := min (item_count i - ?most) ?most\<rparr>)"
        have "add_one g item c = add_one g ?rest (c[n := ?full])"
          using np fe True item most
          by (subst add_one.simps) (simp add: setAmount_Some [OF assms] gm getAmount_def laws_slots [OF assms] nat_diff_distrib
              flip: of_nat_diff)
        moreover have "room g (c[n := ?full]) < room g c"
          using fe by (intro room_update) (auto simp: has_room_def)
        moreover have "slots_ok g (c[n := ?full])"
          using less.prems(1) item most by (intro slots_ok_update) (auto simp: stack_ok_def within_def getAmount_def gm)
        moreover have "stack_ok ?rest" using item most True by (auto simp: stack_ok_def)
        ultimately show ?thesis
          using less.hyps [of "c[n := ?full]" ?rest] True item by (auto simp: within_def getAmount_def gm)
      next
        case False
        then have "add_one g item c = Some (Inr (None, c[n := item]))"
          using np fe item by (subst add_one.simps) (simp add: gm getAmount_def laws_slots [OF assms])
        moreover have "slots_ok g (c[n := item])"
          using less.prems False item by (intro slots_ok_update) (auto simp: within_def getAmount_def gm)
        ultimately show ?thesis using fe by (simp add: total_update) (simp add: getAmount_def)
      qed
    qed
  next
    case (2 n)
    then obtain j where j: "c ! n = Some j" "n < length c" "int (item_count j) < int ?most"
      "isSimilar (items_of g) item (Some j)" and fp: "firstPartial g item c = int n"
      by (auto simp: firstPartial_def getContents_def item(1) gm getAmount_def)
    have ty: "item_type j = item_type i" using similar_type j(4) item(1) by blast
    have jok: "1 \<le> item_count j" "item_type j \<noteq> AIR"
      using slots_ok_nth [OF less.prems(1) j(2)] j(1) by (auto simp: stack_ok_def)
    show ?thesis
    proof (cases "item_count i + item_count j \<le> ?most")
      case True
      let ?both = "Some (j\<lparr>item_count := item_count i + item_count j\<rparr>)"
      have "add_one g item c = Some (Inr (None, c[n := ?both]))"
        using fp j True item(1,2) most
        by (subst add_one.simps)
          (simp add: setAmount_Some [OF assms] gm getAmount_def laws_slots [OF assms] ty nat_add_distrib)
      moreover have "slots_ok g (c[n := ?both])"
        using less.prems(1) True item most ty jok
        by (intro slots_ok_update) (auto simp: stack_ok_def within_def getAmount_def gm)
      ultimately show ?thesis
        using j item(1) by (simp add: total_update) (simp add: getAmount_def)
    next
      case False
      let ?full = "Some (j\<lparr>item_count := ?most\<rparr>)"
        and ?rest = "Some (i\<lparr>item_count := min (item_count i + item_count j - ?most) ?most\<rparr>)"
      have "item_count i + item_count j - ?most \<le> 255" "1 \<le> item_count i + item_count j - ?most"
        using False j(3) item(3) by simp_all
      then have "add_one g item c = add_one g ?rest (c[n := ?full])"
        using fp j False item(1,2) most
        by (subst add_one.simps)
          (simp add: setAmount_Some [OF assms] gm getAmount_def laws_slots [OF assms] ty nat_diff_distrib nat_add_distrib
            flip: of_nat_add of_nat_diff)
      moreover have "room g (c[n := ?full]) < room g c"
        using j ty by (intro room_update) (auto simp: has_room_def)
      moreover have "slots_ok g (c[n := ?full])"
        using less.prems(1) item most ty jok
        by (intro slots_ok_update) (auto simp: stack_ok_def within_def getAmount_def gm)
      moreover have "stack_ok ?rest" using item most False by (auto simp: stack_ok_def)
      moreover have "within g ?rest" by (simp add: within_def getAmount_def gm)
      moreover have "total (c[n := ?full]) = total c - int (item_count j) + int ?most"
        using j by (simp add: total_update getAmount_def)
      ultimately show ?thesis
        using less.hyps [of "c[n := ?full]" ?rest] item(1) j(3) False
        by (auto simp: within_def getAmount_def gm)
    qed
  qed
qed

subsection \<open>Adding several items\<close>

text \<open>A loop whose step returns, keeps an invariant of the slots and balances a count does so as a whole.\<close>

lemma each_item_ok:
  assumes "\<And>item c. item \<in> set items \<Longrightarrow> ok c \<Longrightarrow> \<exists>left c'. step item c = Some (Inr (left, c')) \<and> ok c' \<and>
      measured c' + dir * (case left of None \<Rightarrow> 0 | Some s \<Rightarrow> getAmount s) = measured c + dir * getAmount item"
    and "ok c"
  shows "\<exists>leftover c'. each_item step i items c = Some (Inr (leftover, c')) \<and> ok c' \<and>
    (measured c' :: int) + dir * sum_list (map (\<lambda>e. getAmount (snd e)) leftover) = measured c + dir * sum_list (map getAmount items)"
  using assms
proof (induction items arbitrary: i c)
  case (Cons item items)
  from Cons.prems(1) [of item c] Cons.prems(2) obtain left c1 where s: "step item c = Some (Inr (left, c1))" "ok c1"
    "measured c1 + dir * (case left of None \<Rightarrow> 0 | Some s \<Rightarrow> getAmount s) = measured c + dir * getAmount item"
    by auto
  have "\<exists>leftover c'. each_item step (Suc i) items c1 = Some (Inr (leftover, c')) \<and> ok c' \<and>
    measured c' + dir * sum_list (map (\<lambda>e. getAmount (snd e)) leftover) = measured c1 + dir * sum_list (map getAmount items)"
    using s(2) by (intro Cons.IH) (use Cons.prems(1) in auto)
  then obtain leftover c2 where r: "each_item step (Suc i) items c1 = Some (Inr (leftover, c2))" "ok c2"
    "measured c2 + dir * sum_list (map (\<lambda>e. getAmount (snd e)) leftover) = measured c1 + dir * sum_list (map getAmount items)"
    by auto
  show ?case using s r by (auto simp: algebra_simps split: option.splits)
qed auto

lemma add_one_balance:
  assumes "inv_laws g" and "slots_ok g c" and "stack_ok item" and "within g item"
  shows "\<exists>left c'. add_one g item c = Some (Inr (left, c')) \<and> slots_ok g c' \<and>
    total c' + 1 * (case left of None \<Rightarrow> 0 | Some s \<Rightarrow> getAmount s) = total c + 1 * getAmount item"
  using add_one_ok [OF assms(1-3)] assms(4) by auto

text \<open>A stack of more than two maxima in an empty inventory.\<close>

lemma total_replicate: "total (replicate k None) = 0"
  by (induction k) (auto simp: total_def getAmount_def)

lemma add_too_many:
  assumes "inv_laws g" and "2 * cap g (item_type i) < item_count i" and "item_count i \<le> 255" and "2 \<le> k"
  shows "\<exists>c'. add_one g (Some i) (replicate k None) = Some (Inr (None, c')) \<and> total c' = 2 * int (cap g (item_type i))"
proof -
  let ?most = "cap g (item_type i)" and ?full = "Some (i\<lparr>item_count := cap g (item_type i)\<rparr>)"
  have most: "1 \<le> ?most" "?most \<le> 255" using cap_bounds [OF assms(1)] by auto
  obtain r where r: "replicate k None = None # None # replicate r (None :: stack)"
    using assms(4) by (metis add_2_eq_Suc le_Suc_ex replicate_Suc)
  have gm: "getMaxStackSize (items_of g) (Some j) = int (cap g (item_type j))" for j
    by (simp add: getMaxStackSize_def max_cap [OF assms(1)])
  have none: "index_of (\<lambda>s. (\<exists>y. s = Some y) \<and> Q s) j (replicate r None) = -1" for Q j
    by (induction r arbitrary: j) auto
  have "add_one g (Some i) (replicate k None) = add_one g ?full (?full # None # replicate r None)"
    using assms most laws_slots [OF assms(1), of 0 "None # None # replicate r None"]
    by (subst add_one.simps) (simp add: r firstPartial_def firstEmpty_def getContents_def none gm getAmount_def
        setAmount_Some [OF assms(1)] nat_diff_distrib flip: of_nat_diff)
  also have "\<dots> = Some (Inr (None, ?full # ?full # replicate r None))"
    using most laws_slots [OF assms(1), of 1 "?full # None # replicate r None"]
    by (subst add_one.simps) (simp add: firstPartial_def firstEmpty_def getContents_def none gm getAmount_def)
  finally show ?thesis
    using total_replicate [of r] by (simp add: total_def getAmount_def)
qed

subsection \<open>Removing items\<close>

definition similar_to :: "inv_game \<Rightarrow> stack \<Rightarrow> stack \<Rightarrow> bool" where
  "similar_to g item s \<longleftrightarrow> s \<noteq> None \<and> isSimilar (items_of g) item s"

text \<open>How many items similar to the given one the slots hold.\<close>

definition similar_total :: "inv_game \<Rightarrow> stack \<Rightarrow> slots \<Rightarrow> int" where
  "similar_total g item c = sum_list (map getAmount (filter (similar_to g item) c))"

lemma getAmount_nonneg [simp]: "0 \<le> getAmount s"
  by (simp add: getAmount_def split: option.splits)

lemma getAmount_None [simp]: "getAmount None = 0"
  by (simp add: getAmount_def)

lemma similar_total_nonneg [simp]: "0 \<le> similar_total g item c"
  unfolding similar_total_def by (induction c) auto

lemma similar_total_update:
  "n < length c \<Longrightarrow> similar_total g item (c[n := s]) =
    similar_total g item c - (if similar_to g item (c ! n) then getAmount (c ! n) else 0)
      + (if similar_to g item s then getAmount s else 0)"
proof (induction c arbitrary: n)
  case (Cons x c)
  then show ?case by (cases n) (auto simp: similar_total_def)
qed simp

text \<open>Comparison does not look at the amounts.\<close>

lemma similar_amount [simp]:
  "isSimilar h a (Some (i\<lparr>item_count := n\<rparr>)) = isSimilar h a (Some i)"
  "isSimilar h (Some (i\<lparr>item_count := n\<rparr>)) b = isSimilar h (Some i) b"
  by (auto simp: isSimilar_def hasItemMeta_def getItemMeta_def has_tags_def getType_def split: option.splits)

lemma firstSimilar:
  obtains "first_item g item False c = -1" "\<not> list_ex (similar_to g item) c"
  | n where "first_item g item False c = int n" "n < length c" "similar_to g item (c ! n)"
proof -
  have e: "(\<lambda>s. s \<noteq> None \<and> (if False then stack_equals (items_of g) item s else isSimilar (items_of g) item s))
      = similar_to g item"
    by (auto simp: similar_to_def)
  show thesis
    by (cases rule: index_of_cases [of "similar_to g item" c])
      (use that in \<open>auto simp: first_item_def getContents_def e [simplified]\<close>)
qed

lemma similar_total_none: "\<not> list_ex (similar_to g item) c \<Longrightarrow> similar_total g item c = 0"
  unfolding similar_total_def by (induction c) auto

text \<open>Removing takes what is there of the similar items, at most what is asked, and gives back the rest.\<close>

lemma remove_one_ok:
  assumes "inv_laws g" and "item = Some i"
  shows "slots_ok g c \<Longrightarrow> 1 \<le> n \<Longrightarrow> n \<le> 255 \<Longrightarrow> \<exists>left c'. remove_one g item n c = Some (Inr (left, c')) \<and> slots_ok g c' \<and>
    length c' = length c \<and>
    (\<forall>k < length c. c' ! k = c ! k \<or> similar_to g item (c ! k)) \<and>
    similar_total g item c' = max 0 (similar_total g item c - n) \<and>
    left = (if similar_total g item c < n
      then Some (Some (i\<lparr>item_count := min (nat (n - similar_total g item c)) (cap g (item_type i))\<rparr>)) else None)"
proof (induction "length (filter (similar_to g item) c)" arbitrary: c n rule: less_induct)
  case less
  show ?case
  proof (cases rule: firstSimilar [of g item c])
    case 1
    then have "remove_one g item n c = Some (Inr (Some (Some (i\<lparr>item_count := min (nat n) (cap g (item_type i))\<rparr>)), c))"
      using less.prems assms(2) by (subst remove_one.simps) (simp add: setAmount_Some [OF assms(1)])
    then show ?thesis using less.prems similar_total_none [OF 1(2)] by auto
  next
    case (2 m)
    then obtain j where j: "c ! m = Some j" "1 \<le> item_count j" "item_count j \<le> cap g (item_type j)" "item_type j \<noteq> AIR"
      using slots_ok_nth [OF less.prems(1), of m]
      by (auto simp: similar_to_def stack_ok_def within_def getAmount_def getMaxStackSize_def max_cap [OF assms(1)])
    have at_least: "getAmount (Some j) \<le> similar_total g item c"
      using similar_total_update [OF 2(2), of g item None] 2(3) similar_total_nonneg [of g item "c[m := None]"]
      by (simp add: j(1) similar_to_def)
    show ?thesis
    proof (cases "int (item_count j) \<le> n")
      case True
      let ?c = "c[m := None]"
      have st: "similar_total g item ?c = similar_total g item c - int (item_count j)"
        using similar_total_update [OF 2(2), of g item None] 2(3) by (simp add: j(1) similar_to_def getAmount_def)
      have ok: "slots_ok g ?c" using less.prems(1) by (rule slots_ok_update) simp
      have step: "remove_one g item n c =
        (if n - int (item_count j) \<le> 0 then Some (Inr (None, ?c)) else remove_one g item (n - int (item_count j)) ?c)"
        using 2 j True
        by (subst remove_one.simps) (simp add: laws_slots [OF assms(1)] clear_slot_def getAmount_def)
      show ?thesis
      proof (cases "n - int (item_count j) \<le> 0")
        case True': True
        then show ?thesis
          using step True st ok 2 at_least by (auto simp: getAmount_def nth_list_update)
      next
        case False
        have "length (filter (similar_to g item) ?c) < length (filter (similar_to g item) c)"
          using 2(2,3)
        proof (induction c arbitrary: m)
          case (Cons x c)
          then show ?case by (cases m) (auto simp: similar_to_def)
        qed simp
        from less.hyps [OF this ok, of "n - int (item_count j)"] False less.prems obtain left c' where
          r: "remove_one g item (n - int (item_count j)) ?c = Some (Inr (left, c'))" "slots_ok g c'" "length c' = length c"
            "\<forall>k < length c. c' ! k = ?c ! k \<or> similar_to g item (?c ! k)"
            "similar_total g item c' = max 0 (similar_total g item ?c - (n - int (item_count j)))"
            "left = (if similar_total g item ?c < n - int (item_count j)
              then Some (Some (i\<lparr>item_count := min (nat (n - int (item_count j) - similar_total g item ?c)) (cap g (item_type i))\<rparr>))
              else None)"
          by auto
        have "\<forall>k < length c. c' ! k = c ! k \<or> similar_to g item (c ! k)"
          using r(4) 2(3) by (metis nth_list_update_neq)
        then show ?thesis using step False r st by auto
      qed
    next
      case False
      let ?rest = "Some (j\<lparr>item_count := item_count j - nat n\<rparr>)"
      let ?c = "c[m := ?rest]"
      have le: "item_count j - nat n \<le> cap g (item_type j)" using j(3) by simp
      have small: "item_count j \<le> 255" using j(3) cap_bounds [OF assms(1), of "item_type j"] by simp
      have "remove_one g item n c = Some (Inr (None, ?c))"
        using 2 j False less.prems small
        by (subst remove_one.simps)
          (simp add: laws_slots [OF assms(1)] getAmount_def setAmount_Some [OF assms(1)] nat_diff_distrib min_absorb1 [OF le])
      moreover have "slots_ok g ?c"
        using less.prems j False small
        by (intro slots_ok_update)
          (auto simp: stack_ok_def within_def getAmount_def getMaxStackSize_def max_cap [OF assms(1)])
      moreover have "similar_total g item ?c = similar_total g item c - n"
        using similar_total_update [OF 2(2), of g item ?rest] 2(3) False less.prems
        by (simp add: j(1) similar_to_def getAmount_def of_nat_diff)
      ultimately show ?thesis
        using 2 False at_least less.prems by (auto simp: getAmount_def nth_list_update)
    qed
  qed
qed

lemma count_down_sum:
  "0 < n \<Longrightarrow> count_down P getAmount n c \<longleftrightarrow> n \<le> sum_list (map getAmount (filter P c))"
proof (induction P "getAmount" n c rule: count_down.induct)
  case (2 P n s c)
  have "0 \<le> sum_list (map getAmount (filter P c))" by (induction c) auto
  then show ?case using 2 by auto
qed auto

lemma contains_sum:
  "containsAtLeast_item g item n c \<longleftrightarrow> n \<le> similar_total g item c"
  "containsAtLeast_type ty n c \<longleftrightarrow> n \<le> sum_list (map getAmount (filter (has_type ty) c))"
proof -
  have "0 \<le> sum_list (map getAmount (filter (has_type ty) c))" by (induction c) auto
  then show "containsAtLeast_type ty n c \<longleftrightarrow> n \<le> sum_list (map getAmount (filter (has_type ty) c))"
    using count_down_sum [of n "has_type ty" c]
    by (auto simp: containsAtLeast_type_def getContents_def)
  have e: "(\<lambda>s. s \<noteq> None \<and> isSimilar (items_of g) item s) = similar_to g item"
    by (auto simp: similar_to_def)
  show "containsAtLeast_item g item n c \<longleftrightarrow> n \<le> similar_total g item c"
    using count_down_sum [of n "similar_to g item" c] similar_total_nonneg [of g item c]
    by (auto simp: containsAtLeast_item_def getContents_def e [simplified] similar_total_def)
qed

subsection \<open>Setting, clearing\<close>

text \<open>A loop over all slots that writes each of them at most once.\<close>

lemma fold_slots:
  assumes "inv_laws g" and "n \<le> length c" and "\<And>i. i < length c \<Longrightarrow> f i = id \<or> f i = setItem g (int i) (w i)"
  shows "length (fold f [0..<n] c) = length c"
    and "k < length c \<Longrightarrow> fold f [0..<n] c ! k = (if k < n \<and> f k \<noteq> id then w k else c ! k)"
proof -
  have "length (fold f [0..<n] c) = length c \<and>
    (\<forall>k < length c. fold f [0..<n] c ! k = (if k < n \<and> f k \<noteq> id then w k else c ! k))"
    using assms(2)
  proof (induction n)
    case (Suc n)
    let ?c = "fold f [0..<n] c"
    have IH: "length ?c = length c" "\<forall>k < length c. ?c ! k = (if k < n \<and> f k \<noteq> id then w k else c ! k)"
      using Suc by auto
    show ?case
    proof (cases "f n = id")
      case True
      then show ?thesis using IH by (auto simp: less_Suc_eq)
    next
      case False
      then have "f n ?c = ?c[n := w n]"
        using assms(3) [of n] laws_slots(2) [OF assms(1), of n ?c] Suc.prems IH(1) by auto
      then show ?thesis using IH False Suc.prems by (auto simp: less_Suc_eq nth_list_update)
    qed
  qed simp
  then show "length (fold f [0..<n] c) = length c"
    and "k < length c \<Longrightarrow> fold f [0..<n] c ! k = (if k < n \<and> f k \<noteq> id then w k else c ! k)"
    by auto
qed

lemma set_contents_slots:
  assumes "inv_laws g" and "setContents g items c = Inr c'"
  shows "c' = items @ replicate (length c - length items) None"
proof -
  let ?f = "\<lambda>i. if i \<ge> length items then clear_slot g (int i) else setItem g (int i) (items ! i)"
  let ?w = "\<lambda>i. if i \<ge> length items then None else items ! i"
  have c': "c' = fold ?f [0..<length c] c" "length items \<le> length c"
    using assms(2) by (auto simp: setContents_def getSize_def split: if_splits)
  have f: "?f i = id \<or> ?f i = setItem g (int i) (?w i)" for i
    by (auto simp: clear_slot_def)
  have noid: "?w k = c ! k" if "?f k = id" "k < length c" for k
    using fun_cong [OF that(1), of "c"] laws_slots(2) [OF assms(1) that(2), of "?w k"] that(2)
    by (cases "k \<ge> length items") (auto simp: clear_slot_def dest!: arg_cong [where f = "\<lambda>l. l ! k"])
  show ?thesis
  proof (rule nth_equalityI)
    show "length c' = length (items @ replicate (length c - length items) None)"
      using fold_slots(1) [OF assms(1) order_refl f] c' by simp
    fix k
    assume "k < length c'"
    then have k: "k < length c" using fold_slots(1) [OF assms(1) order_refl f] c' by simp
    have "c' ! k = ?w k"
      using fold_slots(2) [OF assms(1) order_refl f, of k] k noid [OF _ k] c'(1) by (cases "?f k = id") auto
    then show "c' ! k = (items @ replicate (length c - length items) None) ! k"
      using k by (simp add: nth_append)
  qed
qed

subsection \<open>Properties\<close>

text \<open>C20: adding stacks that do not exceed their maximum always returns, throws nothing, leaves every slot within
  its maximum and loses no item: what the slots gained and what is left over is what was given.\<close>

theorem addItem_conserves:
  assumes "inv_laws g" and "slots_ok g c" and "list_all (\<lambda>s. stack_ok s \<and> within g s) items"
  shows "\<exists>leftover c'. addItem g items c = Some (Inr (leftover, c')) \<and> slots_ok g c' \<and>
    total c' + sum_list (map (\<lambda>e. getAmount (snd e)) leftover) = total c + sum_list (map getAmount items)"
  using each_item_ok [where ok = "slots_ok g" and measured = total and dir = 1 and items = items and step = "add_one g"
      and i = 0 and c = c] add_one_balance [OF assms(1)] assms(2,3)
  by (auto simp: addItem_def list_all_iff)

text \<open>A stack of more than twice its maximum, which the constructor of \<open>ItemStack\<close> allows, is stored as two
  full stacks; nothing is reported as left over and the rest of the items is lost, since \<open>setAmount\<close> caps.\<close>

theorem addItem_loses:
  assumes "inv_laws g" and "2 * max_stack g i < item_count i" and "item_count i \<le> 255" and "2 \<le> k"
  shows "\<exists>c'. addItem g [Some i] (replicate k None) = Some (Inr ([], c')) \<and> total c' = 2 * int (max_stack g i) \<and>
    total c' < total (replicate k None) + getAmount (Some i)"
  using add_too_many [OF assms(1) _ assms(3,4)] assms(2) total_replicate [of k]
  by (auto simp: addItem_def max_cap [OF assms(1)] getAmount_def)

text \<open>Removing a stack takes its amount of similar items, or all there are; what could not be removed is left
  over, nothing being left over exactly if \<open>containsAtLeast\<close> held before, and no other slot changes.\<close>

theorem removeItem_exact:
  assumes "inv_laws g" and "slots_ok g c" and "stack_ok (Some i)" and "within g (Some i)"
  shows "\<exists>leftover c'. removeItem g [Some i] c = Some (Inr (leftover, c')) \<and> slots_ok g c' \<and>
    similar_total g (Some i) c' = max 0 (similar_total g (Some i) c - int (item_count i)) \<and>
    sum_list (map (\<lambda>e. getAmount (snd e)) leftover) = max 0 (int (item_count i) - similar_total g (Some i) c) \<and>
    (leftover = [] \<longleftrightarrow> containsAtLeast_item g (Some i) (int (item_count i)) c) \<and>
    (\<forall>k < length c. c' ! k = c ! k \<or> similar_to g (Some i) (c ! k))"
proof -
  let ?n = "int (item_count i)" and ?t = "similar_total g (Some i) c"
  have i: "1 \<le> ?n" "?n \<le> 255" "item_count i \<le> cap g (item_type i)"
    using assms(3,4) by (auto simp: stack_ok_def within_def getAmount_def getMaxStackSize_def max_cap [OF assms(1)])
  from remove_one_ok [OF assms(1) refl [of "Some i"] assms(2) i(1,2)] obtain left c' where
    r: "remove_one g (Some i) ?n c = Some (Inr (left, c'))" "slots_ok g c'"
      "\<forall>k < length c. c' ! k = c ! k \<or> similar_to g (Some i) (c ! k)"
      "similar_total g (Some i) c' = max 0 (?t - ?n)"
      "left = (if ?t < ?n then Some (Some (i\<lparr>item_count := min (nat (?n - ?t)) (cap g (item_type i))\<rparr>)) else None)"
    by (elim exE conjE) (rule that, assumption+)
  have "?t < ?n \<Longrightarrow> int (min (nat (?n - ?t)) (cap g (item_type i))) = ?n - ?t"
  proof -
    have "0 \<le> ?t" by (rule similar_total_nonneg)
    then show "?t < ?n \<Longrightarrow> int (min (nat (?n - ?t)) (cap g (item_type i))) = ?n - ?t"
      using i(3) by linarith
  qed
  with r show ?thesis
    by (auto simp: removeItem_def getAmount_def contains_sum not_less)
qed

text \<open>The counting loops that stop early decide whether the sum of the amounts reaches the number asked for.\<close>

theorem containsAtLeast_sum:
  "containsAtLeast_item g item n c = (n \<le> similar_total g item c) \<and>
   containsAtLeast_type ty n c = (n \<le> sum_list (map getAmount (filter (has_type ty) c)))"
  using contains_sum by simp

subsection \<open>Witnesses\<close>

definition demo_items :: inv_game where
  "demo_items = \<lparr>max_stack = (\<lambda>i. if item_type i = ''minecraft:egg'' then 16 else 64), ench_name = (\<lambda>_. ''''),
     ench_number = (\<lambda>_. None), get_slot = (\<lambda>i c. c ! nat i), set_slot = (\<lambda>i s c. c[nat i := s]), container_max = (\<lambda>_. 64)\<rparr>"

definition eggs :: "nat \<Rightarrow> item" where
  "eggs n = \<lparr>item_type = ''minecraft:egg'', item_count = n, aux_value = 0, block_data = None, user_data = None\<rparr>"

lemma demo_items_laws: "inv_laws demo_items"
  by (simp add: inv_laws_def demo_items_def)

lemma demo_eggs [simp]:
  "stack_ok (Some (eggs n)) = (1 \<le> n \<and> n \<le> 255)" "within demo_items (Some (eggs n)) = (n \<le> 16)"
  "max_stack demo_items (eggs n) = 16" "getAmount (Some (eggs n)) = int n" "item_count (eggs n) = n"
  by (simp_all add: stack_ok_def within_def getAmount_def getMaxStackSize_def eggs_def demo_items_def AIR_def)

lemma demo_slots: "slots_ok demo_items [None, Some (eggs 10)]"
  by (simp add: slots_ok_def)

theorem addItem_conserves_witness:
  "\<exists>leftover c'. addItem demo_items [Some (eggs 16), Some (eggs 9)] [None, Some (eggs 10)] = Some (Inr (leftover, c')) \<and>
    total c' + sum_list (map (\<lambda>e. getAmount (snd e)) leftover) = 35"
  using addItem_conserves [OF demo_items_laws demo_slots, of "[Some (eggs 16), Some (eggs 9)]"] by (fastforce simp: total_def)

theorem addItem_loses_witness:
  "\<exists>c'. addItem demo_items [Some (eggs 100)] [None, None, None] = Some (Inr ([], c')) \<and> total c' = 32"
  using addItem_loses [OF demo_items_laws, of "eggs 100" 3] by (auto simp: numeral_3_eq_3)

theorem removeItem_exact_witness:
  "\<exists>leftover c'. removeItem demo_items [Some (eggs 12)] [None, Some (eggs 10)] = Some (Inr (leftover, c')) \<and>
    sum_list (map (\<lambda>e. getAmount (snd e)) leftover) = 2"
proof -
  have "similar_total demo_items (Some (eggs 12)) [None, Some (eggs 10)] = 10"
    by (simp add: similar_total_def similar_to_def isSimilar_def getType_def eggs_def hasItemMeta_def has_tags_def getAmount_def)
  then show ?thesis using removeItem_exact [OF demo_items_laws demo_slots, of "eggs 12"] by auto
qed

end
