(* ===== verification/Nbt_Api.thy ===== *)
theory Nbt_Api
  imports Item_Meta
begin

text \<open>
  The tags of the plugin API (\<open>src/include/endstone/nbt/\<close>) and their conversion from and to the game's tags
  (\<open>src/endstone/core/nbt.cpp\<close>), with \<open>getNbt\<close> and \<open>setNbt\<close> of an item stack and the textual form of a tag. A call
  that throws leaves its object as it is when the exception is thrown, so the mutable accessors return the object beside
  their result; the lemmas show what survives the way to the game, to bytes and back.
\<close>

subsection \<open>Tags\<close>

text \<open>The alternatives of \<open>Tag::Storage\<close>; a list keeps the type of its elements.\<close>

datatype api_tag =
    A_End
  | A_Byte byte
  | A_Short "16 word"
  | A_Int "32 word"
  | A_Long "64 word"
  | A_Float "32 word"
  | A_Double "64 word"
  | A_String bytes
  | A_ByteArray bytes
  | A_IntArray "32 word list"
  | A_List byte "api_tag list"
  | A_Compound "(bytes \<times> api_tag) list"

type_synonym api_list = "byte \<times> api_tag list"
type_synonym api_map = "(bytes \<times> api_tag) list"

datatype api_error = Invalid_Argument | Out_Of_Range | Kind_Mismatch | Undefined

fun api_type :: "api_tag \<Rightarrow> byte" where
  "api_type A_End = Type_End"
| "api_type (A_Byte _) = Type_Byte"
| "api_type (A_Short _) = Type_Short"
| "api_type (A_Int _) = Type_Int"
| "api_type (A_Long _) = Type_Int64"
| "api_type (A_Float _) = Type_Float"
| "api_type (A_Double _) = Type_Double"
| "api_type (A_String _) = Type_String"
| "api_type (A_ByteArray _) = Type_ByteArray"
| "api_type (A_IntArray _) = Type_IntArray"
| "api_type (A_List _ _) = Type_List"
| "api_type (A_Compound _) = Type_Compound"

text \<open>The test for a \<open>value_type\<close> that is a number comes first and holds for the arrays as well.\<close>

fun api_size :: "api_tag \<Rightarrow> nat" where
  "api_size A_End = 0"
| "api_size (A_String s) = length s"
| "api_size (A_List _ xs) = length xs"
| "api_size (A_Compound es) = length es"
| "api_size _ = 1"

definition api_empty :: "api_tag \<Rightarrow> bool" where
  "api_empty t \<longleftrightarrow> api_size t = 0"

subsection \<open>Arrays\<close>

definition array_at :: "nat \<Rightarrow> 'a list \<Rightarrow> api_error + 'a" where
  "array_at i v = (if i \<ge> length v then Inl Out_Of_Range else Inr (v ! i))"

definition array_push_back :: "'a \<Rightarrow> 'a list \<Rightarrow> 'a list" where
  "array_push_back x v = v @ [x]"

subsection \<open>Lists\<close>

definition emplace_back :: "api_tag \<Rightarrow> api_list \<Rightarrow> api_error + api_list" where
  "emplace_back v l = (let t = api_type v in
     if t = Type_End then Inl Invalid_Argument
     else if fst l = Type_End then Inr (t, snd l @ [v])
     else if t \<noteq> fst l then Inl Invalid_Argument
     else Inr (fst l, snd l @ [v]))"

definition ListTag :: "api_tag list \<Rightarrow> api_error + api_list" where
  "ListTag init = fold_chain emplace_back init (Type_End, [])"

definition api_list_at :: "nat \<Rightarrow> api_list \<Rightarrow> api_error + api_tag" where
  "api_list_at i l = (if i < length (snd l) then Inr (snd l ! i) else Inl Out_Of_Range)"

definition api_list_index :: "nat \<Rightarrow> api_list \<Rightarrow> api_error + api_tag" where
  "api_list_index i l = (if i < length (snd l) then Inr (snd l ! i) else Inl Undefined)"

text \<open>An assignment through the reference that \<open>at\<close> returns; the element type is not looked at.\<close>

definition list_assign :: "nat \<Rightarrow> api_tag \<Rightarrow> api_list \<Rightarrow> api_error + api_list" where
  "list_assign i v l = chain (api_list_at i l) (\<lambda>_. Inr (fst l, (snd l)[i := v]))"

definition api_list_clear :: "api_list \<Rightarrow> api_list" where
  "api_list_clear l = (Type_End, [])"

definition api_list_erase :: "nat \<Rightarrow> api_list \<Rightarrow> api_error + api_list" where
  "api_list_erase i l = (if i < length (snd l) then Inr (fst l, take i (snd l) @ drop (Suc i) (snd l)) else Inl Undefined)"

definition api_list_erase_range :: "nat \<Rightarrow> nat \<Rightarrow> api_list \<Rightarrow> api_error + api_list" where
  "api_list_erase_range i j l = (if i \<le> j \<and> j \<le> length (snd l) then Inr (fst l, take i (snd l) @ drop j (snd l)) else Inl Undefined)"

subsection \<open>Compounds\<close>

definition map_at :: "bytes \<Rightarrow> api_map \<Rightarrow> api_error + api_tag" where
  "map_at k m = (case map_of m k of None \<Rightarrow> Inl Out_Of_Range | Some v \<Rightarrow> Inr v)"

definition map_index :: "bytes \<Rightarrow> api_map \<Rightarrow> api_tag \<times> api_map" where
  "map_index k m = (case map_of m k of None \<Rightarrow> (A_End, omap_put k A_End m) | Some v \<Rightarrow> (v, m))"

definition map_contains :: "bytes \<Rightarrow> api_map \<Rightarrow> bool" where
  "map_contains k m \<longleftrightarrow> map_of m k \<noteq> None"

text \<open>\<open>insert\<close>, \<open>emplace\<close> and \<open>try_emplace\<close> keep an entry that is there.\<close>

definition map_try_emplace :: "bytes \<Rightarrow> api_tag \<Rightarrow> api_map \<Rightarrow> bool \<times> api_map" where
  "map_try_emplace k v m = (case map_of m k of None \<Rightarrow> (True, omap_put k v m) | Some _ \<Rightarrow> (False, m))"

definition map_insert :: "bytes \<Rightarrow> api_tag \<Rightarrow> api_map \<Rightarrow> bool \<times> api_map" where
  "map_insert k v m = map_try_emplace k v m"

definition map_emplace :: "bytes \<Rightarrow> api_tag \<Rightarrow> api_map \<Rightarrow> bool \<times> api_map" where
  "map_emplace k v m = map_try_emplace k v m"

definition map_insert_or_assign :: "bytes \<Rightarrow> api_tag \<Rightarrow> api_map \<Rightarrow> bool \<times> api_map" where
  "map_insert_or_assign k v m = (map_of m k = None, omap_put k v m)"

definition map_erase :: "bytes \<Rightarrow> api_map \<Rightarrow> nat \<times> api_map" where
  "map_erase k m = (if map_of m k = None then 0 else 1, omap_del k m)"

definition map_merge :: "api_map \<Rightarrow> api_map \<Rightarrow> api_map" where
  "map_merge source m = fold (\<lambda>(k, v) m. snd (map_try_emplace k v m)) source m"

definition CompoundTag :: "(bytes \<times> api_tag) list \<Rightarrow> api_map" where
  "CompoundTag init = fold (\<lambda>(k, v) m. snd (map_insert k v m)) init []"

definition map_swap :: "api_map \<Rightarrow> api_map \<Rightarrow> api_map \<times> api_map" where
  "map_swap a b = (b, a)"

subsection \<open>Access through a tag\<close>

text \<open>An accessor that is not \<open>const\<close> turns an empty tag into a compound or a list before it looks.\<close>

definition as_compound :: "api_tag \<Rightarrow> api_tag" where
  "as_compound t = (case t of A_End \<Rightarrow> A_Compound [] | _ \<Rightarrow> t)"

definition as_list :: "api_tag \<Rightarrow> api_tag" where
  "as_list t = (case t of A_End \<Rightarrow> A_List Type_End [] | _ \<Rightarrow> t)"

definition tag_key :: "bytes \<Rightarrow> api_tag \<Rightarrow> (api_error + api_tag) \<times> api_tag" where
  "tag_key k t = (case as_compound t of
     A_Compound m \<Rightarrow> (let (v, m') = map_index k m in (Inr v, A_Compound m'))
   | u \<Rightarrow> (Inl Kind_Mismatch, u))"

text \<open>\<open>tag[key] = value\<close>.\<close>

definition tag_assign :: "bytes \<Rightarrow> api_tag \<Rightarrow> api_tag \<Rightarrow> (api_error + unit) \<times> api_tag" where
  "tag_assign k v t = (case tag_key k t of
     (Inr _, A_Compound m) \<Rightarrow> (Inr (), A_Compound (omap_put k v m))
   | (_, u) \<Rightarrow> (Inl Kind_Mismatch, u))"

definition tag_index :: "nat \<Rightarrow> api_tag \<Rightarrow> (api_error + api_tag) \<times> api_tag" where
  "tag_index i t = (case as_list t of
     A_List ty xs \<Rightarrow> (api_list_index i (ty, xs), A_List ty xs)
   | u \<Rightarrow> (Inl Kind_Mismatch, u))"

definition tag_at_key :: "bytes \<Rightarrow> api_tag \<Rightarrow> (api_error + api_tag) \<times> api_tag" where
  "tag_at_key k t = (case as_compound t of A_Compound m \<Rightarrow> (map_at k m, A_Compound m) | u \<Rightarrow> (Inl Kind_Mismatch, u))"

definition tag_at_key_const :: "bytes \<Rightarrow> api_tag \<Rightarrow> api_error + api_tag" where
  "tag_at_key_const k t = (case t of A_Compound m \<Rightarrow> map_at k m | _ \<Rightarrow> Inl Kind_Mismatch)"

definition tag_at :: "nat \<Rightarrow> api_tag \<Rightarrow> (api_error + api_tag) \<times> api_tag" where
  "tag_at i t = (case as_list t of A_List ty xs \<Rightarrow> (api_list_at i (ty, xs), A_List ty xs) | u \<Rightarrow> (Inl Kind_Mismatch, u))"

definition tag_at_const :: "nat \<Rightarrow> api_tag \<Rightarrow> api_error + api_tag" where
  "tag_at_const i t = (case t of A_List ty xs \<Rightarrow> api_list_at i (ty, xs) | _ \<Rightarrow> Inl Kind_Mismatch)"

definition tag_contains :: "bytes \<Rightarrow> api_tag \<Rightarrow> bool" where
  "tag_contains k t = (case t of A_Compound m \<Rightarrow> map_contains k m | _ \<Rightarrow> False)"

definition tag_emplace_back :: "api_tag \<Rightarrow> api_tag \<Rightarrow> (api_error + unit) \<times> api_tag" where
  "tag_emplace_back v t = (case as_list t of
     A_List ty xs \<Rightarrow> (case emplace_back v (ty, xs) of
         Inl e \<Rightarrow> (Inl e, A_List ty xs)
       | Inr (ty', xs') \<Rightarrow> (Inr (), A_List ty' xs'))
   | u \<Rightarrow> (Inl Kind_Mismatch, u))"

definition tag_emplace :: "bytes \<Rightarrow> api_tag \<Rightarrow> api_tag \<Rightarrow> (api_error + bool) \<times> api_tag" where
  "tag_emplace k v t = (case as_compound t of
     A_Compound m \<Rightarrow> (let (b, m') = map_emplace k v m in (Inr b, A_Compound m'))
   | u \<Rightarrow> (Inl Kind_Mismatch, u))"

text \<open>\<open>get_if<T>\<close> and \<open>get<T>\<close>, with the alternative \<open>T\<close> given by its type.\<close>

definition tag_get_if :: "byte \<Rightarrow> api_tag \<Rightarrow> api_tag option" where
  "tag_get_if ty t = (if api_type t = ty then Some t else None)"

definition tag_get :: "byte \<Rightarrow> api_tag \<Rightarrow> api_error + api_tag" where
  "tag_get ty t = (case tag_get_if ty t of Some u \<Rightarrow> Inr u | None \<Rightarrow> Inl Kind_Mismatch)"

lemma size_api_entry: "e \<in> set es \<Longrightarrow> size (snd e) < Suc (size_list (size_prod (\<lambda>_. 0) size) es)"
proof -
  assume "e \<in> set es"
  then have "size (snd e) \<le> size_list (size_prod (\<lambda>_. 0) size) es"
    by (rule size_list_estimation') (cases e; simp)
  then show ?thesis by simp
qed

lemma size_zip_entry: "p \<in> set (zip xs ys) \<Longrightarrow> size (snd (fst p)) < Suc (size_list (size_prod (\<lambda>_. 0) size) xs)"
proof -
  assume "p \<in> set (zip xs ys)"
  then have "fst p \<in> set xs" by (metis in_set_zipE prod.collapse)
  then show ?thesis by (rule size_api_entry)
qed

text \<open>Lists are compared by their elements alone; floating-point numbers as IEEE values.\<close>

function api_equals :: "api_tag \<Rightarrow> api_tag \<Rightarrow> bool" where
  "api_equals A_End u = (u = A_End)"
| "api_equals (A_Byte a) u = (u = A_Byte a)"
| "api_equals (A_Short a) u = (u = A_Short a)"
| "api_equals (A_Int a) u = (u = A_Int a)"
| "api_equals (A_Long a) u = (u = A_Long a)"
| "api_equals (A_Float a) u = (case u of A_Float b \<Rightarrow> float_eq a b | _ \<Rightarrow> False)"
| "api_equals (A_Double a) u = (case u of A_Double b \<Rightarrow> double_eq a b | _ \<Rightarrow> False)"
| "api_equals (A_String a) u = (u = A_String a)"
| "api_equals (A_ByteArray a) u = (u = A_ByteArray a)"
| "api_equals (A_IntArray a) u = (u = A_IntArray a)"
| "api_equals (A_List _ xs) u = (case u of
       A_List _ ys \<Rightarrow> length xs = length ys \<and> list_all (\<lambda>p. api_equals (fst p) (snd p)) (zip xs ys)
     | _ \<Rightarrow> False)"
| "api_equals (A_Compound xs) u = (case u of
       A_Compound ys \<Rightarrow> length xs = length ys \<and>
         list_all (\<lambda>p. fst (fst p) = fst (snd p) \<and> api_equals (snd (fst p)) (snd (snd p))) (zip xs ys)
     | _ \<Rightarrow> False)"
  by pat_completeness auto
termination
  by (relation "measure (\<lambda>p. size (fst p))") (simp_all add: size_zip_fst size_zip_entry)

subsection \<open>Conversion\<close>

fun fromMinecraft :: "tag \<Rightarrow> api_error + api_tag"
  and from_elements :: "tag list \<Rightarrow> api_list \<Rightarrow> api_error + api_list"
  and from_entries :: "(bytes \<times> tag) list \<Rightarrow> api_map \<Rightarrow> api_error + api_map" where
  "fromMinecraft (Byte_Tag d) = Inr (A_Byte d)"
| "fromMinecraft (Short_Tag d) = Inr (A_Short d)"
| "fromMinecraft (Int_Tag d) = Inr (A_Int d)"
| "fromMinecraft (Int64_Tag d) = Inr (A_Long d)"
| "fromMinecraft (Float_Tag d) = Inr (A_Float d)"
| "fromMinecraft (Double_Tag d) = Inr (A_Double d)"
| "fromMinecraft (ByteArray_Tag d) = Inr (A_ByteArray d)"
| "fromMinecraft (String_Tag d) = Inr (A_String d)"
| "fromMinecraft (List_Tag _ xs) = chain (from_elements xs (Type_End, [])) (\<lambda>l. Inr (A_List (fst l) (snd l)))"
| "fromMinecraft (Compound_Tag es) = chain (from_entries es []) (\<lambda>m. Inr (A_Compound m))"
| "fromMinecraft (IntArray_Tag d) = Inr (A_IntArray d)"
| "fromMinecraft End_Tag = Inr A_End"
| "from_elements [] l = Inr l"
| "from_elements (x # xs) l = chain (fromMinecraft x) (\<lambda>v. chain (emplace_back v l) (from_elements xs))"
| "from_entries [] m = Inr m"
| "from_entries ((k, x) # es) m = chain (fromMinecraft x) (\<lambda>v. from_entries es (snd (map_insert_or_assign k v m)))"

fun toMinecraft :: "api_tag \<Rightarrow> tag" where
  "toMinecraft A_End = End_Tag"
| "toMinecraft (A_Byte d) = Byte_Tag d"
| "toMinecraft (A_Short d) = Short_Tag d"
| "toMinecraft (A_Int d) = Int_Tag d"
| "toMinecraft (A_Long d) = Int64_Tag d"
| "toMinecraft (A_Float d) = Float_Tag d"
| "toMinecraft (A_Double d) = Double_Tag d"
| "toMinecraft (A_ByteArray d) = ByteArray_Tag d"
| "toMinecraft (A_String d) = String_Tag d"
| "toMinecraft (A_List _ xs) = (let l = fold (\<lambda>x. list_add (toMinecraft x)) xs (Type_End, []) in List_Tag (fst l) (snd l))"
| "toMinecraft (A_Compound es) = Compound_Tag (fold (\<lambda>e. compound_put (fst e) (toMinecraft (snd e))) es [])"
| "toMinecraft (A_IntArray d) = IntArray_Tag d"

subsection \<open>Tags of an item\<close>

definition getNbt :: "stack \<Rightarrow> api_error + api_tag" where
  "getNbt s = (case s of
     None \<Rightarrow> Inr (A_Compound [])
   | Some i \<Rightarrow> (case user_data i of
       None \<Rightarrow> Inr (A_Compound [])
     | Some t \<Rightarrow> chain (fromMinecraft (Compound_Tag t)) (tag_get Type_Compound)))"

definition setNbt :: "api_map \<Rightarrow> stack \<Rightarrow> stack" where
  "setNbt nbt s = (case s of
     None \<Rightarrow> None
   | Some i \<Rightarrow> if nbt = [] then Some (i\<lparr>user_data := None\<rparr>)
       else (case toMinecraft (A_Compound nbt) of Compound_Tag t \<Rightarrow> Some (i\<lparr>user_data := Some t\<rparr>) | _ \<Rightarrow> s))"

subsection \<open>Well-formed tags\<close>

text \<open>Lists are of one type, which is not \<open>End\<close> when there are elements; compounds are ordered maps.\<close>

fun api_wf :: "api_tag \<Rightarrow> bool" where
  "api_wf (A_List ty xs) \<longleftrightarrow> (xs \<noteq> [] \<longrightarrow> ty \<noteq> Type_End) \<and> (\<forall>x \<in> set xs. api_type x = ty \<and> api_wf x)"
| "api_wf (A_Compound es) \<longleftrightarrow> sorted_map es \<and> (\<forall>e \<in> set es. api_wf (snd e))"
| "api_wf _ \<longleftrightarrow> True"

text \<open>What fits the format of the game: lengths, and no \<open>End\<close> as a value of a compound.\<close>

fun storable :: "api_tag \<Rightarrow> bool" where
  "storable (A_ByteArray d) \<longleftrightarrow> length d < 2 ^ 31"
| "storable (A_String d) \<longleftrightarrow> length d < 2 ^ 15"
| "storable (A_IntArray d) \<longleftrightarrow> length d < 2 ^ 31"
| "storable (A_List _ xs) \<longleftrightarrow> length xs < 2 ^ 31 \<and> (\<forall>x \<in> set xs. storable x)"
| "storable (A_Compound es) \<longleftrightarrow> (\<forall>e \<in> set es. length (fst e) < 2 ^ 15 \<and> api_type (snd e) \<noteq> Type_End \<and> storable (snd e))"
| "storable _ \<longleftrightarrow> True"

text \<open>An emptied list loses the type of its former elements.\<close>

fun settled :: "api_tag \<Rightarrow> api_tag" where
  "settled (A_List ty xs) = A_List (if xs = [] then Type_End else ty) (map settled xs)"
| "settled (A_Compound es) = A_Compound (map (\<lambda>e. (fst e, settled (snd e))) es)"
| "settled t = t"

lemma settled_type [simp]: "api_type (settled t) = api_type t"
  by (cases t) auto

lemma toMinecraft_type [simp]: "getId (toMinecraft t) = api_type t"
  by (cases t) (auto simp: Let_def)

lemma fold_list_add:
  "fold (\<lambda>x. list_add (toMinecraft x)) xs (ty, acc) = (if xs = [] then ty else api_type (last xs), acc @ map toMinecraft xs)"
  by (induction xs arbitrary: ty acc) (auto simp: list_add_def)

lemma toMinecraft_list:
  assumes "api_wf (A_List ty xs)"
  shows "toMinecraft (A_List ty xs) = List_Tag (if xs = [] then Type_End else ty) (map toMinecraft xs)"
  using assms by (auto simp: fold_list_add Let_def)

lemma fold_put_entries:
  "sorted_map (acc @ map (\<lambda>e. (fst e, g (snd e))) es) \<Longrightarrow>
    fold (\<lambda>e. omap_put (fst e) (g (snd e))) es acc = acc @ map (\<lambda>e. (fst e, g (snd e))) es"
proof (induction es arbitrary: acc)
  case (Cons e es)
  have "omap_put (fst e) (g (snd e)) acc = acc @ [(fst e, g (snd e))]"
    using Cons.prems by (intro omap_put_snoc) (auto simp: sorted_wrt_append)
  with Cons show ?case by simp
qed simp

lemma put_omap: "compound_put = omap_put"
  by (intro ext) (simp add: compound_put_def)

lemma toMinecraft_compound:
  "sorted_map es \<Longrightarrow> toMinecraft (A_Compound es) = Compound_Tag (map (\<lambda>e. (fst e, toMinecraft (snd e))) es)"
  using fold_put_entries [of "[]" toMinecraft es] by (simp add: put_omap comp_def)

lemma from_elements_ok:
  assumes "\<forall>x \<in> set xs. fromMinecraft (toMinecraft x) = Inr (settled x) \<and> api_type x = ty" "xs \<noteq> [] \<longrightarrow> ty \<noteq> Type_End"
    and "fst l = ty \<or> l = (Type_End, [])"
  shows "from_elements (map toMinecraft xs) l = Inr (if xs = [] then fst l else ty, snd l @ map settled xs)"
  using assms
proof (induction xs arbitrary: l)
  case (Cons x xs)
  have x: "fromMinecraft (toMinecraft x) = Inr (settled x)" "api_type x = ty" "ty \<noteq> Type_End" using Cons.prems(1,2) by simp_all
  from Cons.prems(3) x(2,3) have e: "emplace_back (settled x) l = Inr (ty, snd l @ [settled x])"
    by (elim disjE) (simp_all add: emplace_back_def Let_def)
  have "\<forall>x \<in> set xs. fromMinecraft (toMinecraft x) = Inr (settled x) \<and> api_type x = ty" using Cons.prems(1) by simp
  from Cons.IH [OF this, of "(ty, snd l @ [settled x])"] x(3)
  have "from_elements (map toMinecraft xs) (ty, snd l @ [settled x]) = Inr (ty, snd l @ settled x # map settled xs)" by simp
  with x e show ?case by simp
qed simp

lemma from_entries_ok:
  assumes "\<forall>e \<in> set es. fromMinecraft (toMinecraft (snd e)) = Inr (settled (snd e))" "sorted_map (acc @ map (\<lambda>e. (fst e, settled (snd e))) es)"
  shows "from_entries (map (\<lambda>e. (fst e, toMinecraft (snd e))) es) acc = Inr (acc @ map (\<lambda>e. (fst e, settled (snd e))) es)"
  using assms
proof (induction es arbitrary: acc)
  case (Cons e es)
  have "omap_put (fst e) (settled (snd e)) acc = acc @ [(fst e, settled (snd e))]"
    using Cons.prems by (intro omap_put_snoc) (auto simp: sorted_wrt_append)
  with Cons show ?case by (simp add: map_insert_or_assign_def)
qed simp

lemma api_roundtrip: "api_wf t \<Longrightarrow> fromMinecraft (toMinecraft t) = Inr (settled t)"
proof (induction t)
  case (A_List ty xs)
  have "\<forall>x \<in> set xs. fromMinecraft (toMinecraft x) = Inr (settled x) \<and> api_type x = ty" using A_List by auto
  with A_List.prems show ?case
    using from_elements_ok [of xs ty "(Type_End, [])"] by (simp only: toMinecraft_list) auto
next
  case (A_Compound es)
  have "fromMinecraft (toMinecraft (snd e)) = Inr (settled (snd e))" if "e \<in> set es" for e
    using A_Compound that by (metis api_wf.simps(2) prod.collapse snds.intros)
  moreover have "sorted_map es" using A_Compound.prems by simp
  ultimately show ?case
    using from_entries_ok [of es "[]"] by (simp add: toMinecraft_compound comp_def del: toMinecraft.simps)
qed auto

lemma storable_wf: "api_wf t \<Longrightarrow> storable t \<Longrightarrow> wf_tag (toMinecraft t)"
proof (induction t)
  case (A_List ty xs)
  have "ty < NumTagTypes" if "xs \<noteq> []"
  proof -
    from that have "api_type (hd xs) = ty" using A_List.prems by auto
    then show ?thesis by (cases "hd xs") auto
  qed
  with A_List show ?case by (simp only: toMinecraft_list) auto
next
  case (A_Compound es)
  have "wf_tag (toMinecraft (snd e))" if "e \<in> set es" for e
    using A_Compound that by (metis api_wf.simps(2) storable.simps(5) prod.collapse snds.intros)
  with A_Compound.prems show ?case by (simp add: toMinecraft_compound comp_def del: toMinecraft.simps)
qed auto

lemma settled_idem [simp]: "settled (settled t) = settled t"
proof (induction t)
  case (A_Compound es)
  then have "settled (settled (snd e)) = settled (snd e)" if "e \<in> set es" for e
    using that by (metis prod.collapse snds.intros)
  then show ?case by simp
qed auto

text \<open>C23: A compound of the plugin API survives the way into the game, through its binary format and back, for every output
  and matching input of the game: only the element type an emptied list remembers is lost. Lists are of one type, compounds
  have no \<open>End\<close> value, and lengths fit the format.\<close>

theorem api_bytes_roundtrip:
  assumes "data_channel out inp left" "api_wf (A_Compound es)" "storable (A_Compound es)" "length n < 2 ^ 15"
    and "tag_fuel (toMinecraft (A_Compound es)) \<le> f" "left s = writeNamedTag out n (toMinecraft (A_Compound es)) [] @ r"
  shows "\<exists>t. readOrGetEmpty inp f s = Done t \<and> fromMinecraft t = Inr (settled (A_Compound es))"
proof -
  obtain ts where ts: "toMinecraft (A_Compound es) = Compound_Tag ts" by simp
  have "wf_tag (Compound_Tag ts)" using storable_wf [OF assms(2,3)] ts by simp
  from data_channel.readOrGetEmpty_ok [OF assms(1) this assms(4) _ assms(6) [unfolded ts]] assms(5) ts
  show ?thesis using api_roundtrip [OF assms(2)] by auto
qed

theorem api_bytes_roundtrip_witness:
  "\<exists>t. readOrGetEmpty (input_of rev) 9 (writeNamedTag BigEndianStringByteOutput [104]
      (toMinecraft (A_Compound [([97], A_List Type_Int [A_Int 7]), ([98], A_List Type_Int [])])) [] @ [42]) = Done t \<and>
    fromMinecraft t = Inr (A_Compound [([97], A_List Type_Int [A_Int 7]), ([98], A_List Type_End [])])"
  using api_bytes_roundtrip [OF be_channel.data_channel_axioms,
      of "[([97], A_List Type_Int [A_Int 7]), ([98], A_List Type_Int [])]" "[104]" 9 _ "[42]"]
  by (simp add: list_add_def compound_put_def)

context data_channel
begin

text \<open>An entry of type \<open>End\<close> is written as the mark that ends a compound.\<close>

lemma compound_prefix:
  "\<exists>r. writeNamedTag out n (Compound_Tag (xs @ (k, End_Tag) # ys)) [] = writeNamedTag out n (Compound_Tag xs) [] @ r"
proof -
  have e: "emit_named out (k, End_Tag) = emit (out_byte out) Type_End"
    by (simp add: emit_named_def emit_def Let_def)
  have "emit_named out (n, Compound_Tag (xs @ (k, End_Tag) # ys)) = emit_named out (n, Compound_Tag xs)
      @ concat (map (emit_named out) ys) @ emit (out_byte out) Type_End"
    by (simp add: emit_named_eq emit_compound e)
  then show ?thesis by (auto simp: emit_named_def)
qed

end

text \<open>An \<open>End\<close> entry of a compound, which reading a missing key through the mutable \<open>operator[]\<close> makes, cuts
  the stored compound off: whoever reads the bytes back gets the entries with smaller keys only.\<close>

theorem end_entry_truncates:
  assumes "data_channel out inp left" "sorted_map (xs @ (k, A_End) # ys)" "api_wf (A_Compound xs)" "storable (A_Compound xs)"
    and "length n < 2 ^ 15" "tag_fuel (toMinecraft (A_Compound xs)) \<le> f"
    and "left s = writeNamedTag out n (toMinecraft (A_Compound (xs @ (k, A_End) # ys))) []"
  shows "\<exists>t. readOrGetEmpty inp f s = Done t \<and> fromMinecraft t = Inr (settled (A_Compound xs))"
proof -
  let ?m = "map (\<lambda>e. (fst e, toMinecraft (snd e)))"
  have x: "toMinecraft (A_Compound xs) = Compound_Tag (?m xs)"
    using assms(3) by (intro toMinecraft_compound) simp
  have "toMinecraft (A_Compound (xs @ (k, A_End) # ys)) = Compound_Tag (?m xs @ (k, End_Tag) # ?m ys)"
    using toMinecraft_compound [OF assms(2)] by simp
  with assms(7) have "left s = writeNamedTag out n (Compound_Tag (?m xs @ (k, End_Tag) # ?m ys)) []" by simp
  also have "\<exists>r. writeNamedTag out n (Compound_Tag (?m xs @ (k, End_Tag) # ?m ys)) [] = writeNamedTag out n (Compound_Tag (?m xs)) [] @ r"
    by (rule data_channel.compound_prefix [OF assms(1)])
  then obtain r where "writeNamedTag out n (Compound_Tag (?m xs @ (k, End_Tag) # ?m ys)) [] = writeNamedTag out n (Compound_Tag (?m xs)) [] @ r"
    by (elim exE)
  finally have l: "left s = writeNamedTag out n (Compound_Tag (?m xs)) [] @ r" .
  have "wf_tag (Compound_Tag (?m xs))" using storable_wf [OF assms(3,4)] x by simp
  from data_channel.readOrGetEmpty_ok [OF assms(1) this assms(5) _ l] assms(6) x
  show ?thesis using api_roundtrip [OF assms(3)] by (auto simp del: toMinecraft.simps)
qed

theorem end_entry_truncates_witness:
  "\<exists>t. readOrGetEmpty (input_of rev) 9 (writeNamedTag BigEndianStringByteOutput [104]
      (toMinecraft (A_Compound ([([97], A_Int 7)] @ ([98], A_End) # [([99], A_Int 8)]))) []) = Done t \<and>
    fromMinecraft t = Inr (A_Compound [([97], A_Int 7)])"
  using end_entry_truncates [OF be_channel.data_channel_axioms,
      of "[([97], A_Int 7)]" "[98]" "[([99], A_Int 8)]" "[104]" 9]
  by (simp add: put_omap)

text \<open>How such an entry comes about.\<close>

lemma tag_key_inserts: "map_of es k = None \<Longrightarrow> tag_key k (A_Compound es) = (Inr A_End, A_Compound (omap_put k A_End es))"
  by (simp add: tag_key_def as_compound_def map_index_def)

subsection \<open>Lists of one type\<close>

definition list_ok :: "api_list \<Rightarrow> bool" where
  "list_ok l \<longleftrightarrow> (snd l \<noteq> [] \<longrightarrow> fst l \<noteq> Type_End) \<and> (\<forall>x \<in> set (snd l). api_type x = fst l)"

lemma emplace_back_ok: "list_ok l \<Longrightarrow> emplace_back v l = Inr l' \<Longrightarrow> list_ok l'"
  by (auto simp: list_ok_def emplace_back_def Let_def split: if_splits)

lemma list_ops_ok:
  assumes "list_ok l"
  shows "list_ok (api_list_clear l)" "api_list_erase i l = Inr l' \<Longrightarrow> list_ok l'"
    "api_list_erase_range i j l = Inr l' \<Longrightarrow> list_ok l'"
  using assms by (auto simp: list_ok_def api_list_clear_def api_list_erase_def api_list_erase_range_def split: if_splits)
    (metis in_set_takeD in_set_dropD)+

lemma ListTag_ok: "ListTag init = Inr l \<Longrightarrow> list_ok l"
  unfolding ListTag_def by (erule fold_chain_inv [where P = list_ok]) (simp add: list_ok_def, erule (1) emplace_back_ok [rotated])

lemma emplace_fold:
  "list_ok l \<Longrightarrow> snd l \<noteq> [] \<Longrightarrow> fold_chain emplace_back xs l
     = (if \<forall>x \<in> set xs. api_type x = fst l then Inr (fst l, snd l @ xs) else Inl Invalid_Argument)"
proof (induction xs arbitrary: l)
  case (Cons x xs)
  have t: "fst l \<noteq> Type_End" using Cons.prems by (simp add: list_ok_def)
  show ?case
  proof (cases "api_type x = fst l")
    case True
    have "list_ok (fst l, snd l @ [x])" using Cons.prems True by (auto simp: list_ok_def)
    from Cons.IH [OF this] True t show ?thesis by (simp add: emplace_back_def)
  next
    case False
    then show ?thesis using t by (auto simp: emplace_back_def Let_def)
  qed
qed simp

text \<open>The constructor takes exactly the lists of one type other than \<open>End\<close>.\<close>

lemma ListTag_iff:
  "ListTag init = (if init = [] then Inr (Type_End, [])
     else if api_type (hd init) \<noteq> Type_End \<and> (\<forall>x \<in> set init. api_type x = api_type (hd init)) then Inr (api_type (hd init), init)
     else Inl Invalid_Argument)"
proof (cases init)
  case (Cons x xs)
  show ?thesis
  proof (cases "api_type x = Type_End")
    case True
    then show ?thesis by (simp add: ListTag_def Cons emplace_back_def)
  next
    case False
    then have "list_ok (api_type x, [x])" by (simp add: list_ok_def)
    from emplace_fold [OF this] False show ?thesis by (simp add: ListTag_def Cons emplace_back_def)
  qed
qed (simp add: ListTag_def)

lemma from_elements_fold:
  "\<forall>z \<in> set zs. api_wf z \<Longrightarrow> from_elements (map toMinecraft zs) = fold_chain emplace_back (map settled zs)"
proof (induction zs)
  case (Cons z zs)
  then show ?case by (intro ext) (simp add: api_roundtrip)
qed (simp add: fun_eq_iff)

text \<open>An assignment through the reference of \<open>at\<close> is not held to the type of the list: when it puts a value of another
  type into a list of two or more, the list goes into the game as it is, but can no longer be read out of it.\<close>

theorem list_assign_breaks:
  assumes "api_wf (A_List ty xs)" "2 \<le> length xs" "i < length xs" "api_wf v" "api_type v \<noteq> ty" "api_type v \<noteq> Type_End"
  shows "\<exists>ys. list_assign i v (ty, xs) = Inr (ty, ys) \<and> ListTag ys = Inl Invalid_Argument \<and>
    fromMinecraft (toMinecraft (A_List ty ys)) = Inl Invalid_Argument"
proof -
  let ?ys = "xs[i := v]"
  have wf: "\<forall>y \<in> set ?ys. api_wf y \<and> api_type y \<noteq> Type_End"
    using assms set_update_subset_insert [of xs i v] by fastforce
  have mixed: "\<not> (\<forall>y \<in> set ?ys. api_type y = api_type (hd ?ys))"
  proof -
    obtain j where j: "j < length xs" "j \<noteq> i" using that [of 1] that [of 0] assms(2) by (cases xs; cases "i = 0") (auto simp: Suc_le_eq)
    have "v \<in> set ?ys" using assms(3) by (simp add: set_update_memI)
    moreover have "xs ! j \<in> set ?ys" using j by (metis length_list_update nth_list_update_neq nth_mem)
    moreover have "api_type (xs ! j) = ty" using assms(1) j by simp
    ultimately show ?thesis using assms(5) by metis
  qed
  have ne: "?ys \<noteq> []" using assms(2) by auto
  have c: "ListTag ?ys = Inl Invalid_Argument"
  proof -
    have "\<not> (api_type (hd ?ys) \<noteq> Type_End \<and> (\<forall>y \<in> set ?ys. api_type y = api_type (hd ?ys)))" using mixed by blast
    then show ?thesis by (subst ListTag_iff) (simp only: ne if_False)
  qed
  have "ListTag (map settled ?ys) = Inl Invalid_Argument"
  proof -
    have "hd (map settled ?ys) = settled (hd ?ys)" using ne by (rule hd_map)
    then have "\<not> (api_type (hd (map settled ?ys)) \<noteq> Type_End \<and>
      (\<forall>y \<in> set (map settled ?ys). api_type y = api_type (hd (map settled ?ys))))" using mixed by auto
    moreover have "map settled ?ys \<noteq> []" using ne by simp
    ultimately show ?thesis by (subst ListTag_iff) (simp only: if_False)
  qed
  then have "from_elements (map toMinecraft ?ys) (Type_End, []) = Inl Invalid_Argument"
    using from_elements_fold [of ?ys] wf by (simp add: ListTag_def)
  then have "fromMinecraft (toMinecraft (A_List ty ?ys)) = Inl Invalid_Argument"
    by (simp add: fold_list_add Let_def)
  with c assms(3) show ?thesis by (auto simp: list_assign_def api_list_at_def)
qed

theorem list_assign_breaks_witness:
  "\<exists>ys. list_assign 1 (A_Byte 1) (Type_Int, [A_Int 7, A_Int 8]) = Inr (Type_Int, ys) \<and>
    fromMinecraft (toMinecraft (A_List Type_Int ys)) = Inl Invalid_Argument"
  using list_assign_breaks [of Type_Int "[A_Int 7, A_Int 8]" 1 "A_Byte 1"] by auto

subsection \<open>Items and sizes\<close>

text \<open>The tags set on an item are read back by \<open>getNbt\<close>, up to the types of emptied lists.\<close>

theorem item_nbt_roundtrip:
  assumes "api_wf (A_Compound es)"
  shows "getNbt (setNbt es (Some i)) = Inr (settled (A_Compound es))"
proof (cases "es = []")
  case True
  then show ?thesis by (simp add: setNbt_def getNbt_def)
next
  case False
  obtain ts where ts: "toMinecraft (A_Compound es) = Compound_Tag ts" by simp
  then have "fromMinecraft (Compound_Tag ts) = Inr (settled (A_Compound es))" using api_roundtrip [OF assms] by simp
  with False ts show ?thesis by (simp add: setNbt_def getNbt_def tag_get_def tag_get_if_def del: fromMinecraft.simps toMinecraft.simps)
qed

text \<open>The size of an array tag is always 1, so it is never empty.\<close>

lemma array_size: "api_size (A_ByteArray d) = 1" "api_size (A_IntArray e) = 1" "\<not> api_empty (A_ByteArray [])"
  by (simp_all add: api_empty_def)

subsection \<open>The textual form\<close>

text \<open>\<open>std::format("{:g}", x)\<close> is the function \<open>g32\<close> or \<open>g64\<close> of the standard library.\<close>

definition chars :: "bytes \<Rightarrow> string" where
  "chars b = map (\<lambda>w. char_of (unat w)) b"

definition show_int :: "int \<Rightarrow> string" where
  "show_int i = (if i < 0 then ''-'' @ decimal (nat (- i)) else decimal (nat i))"

fun joined :: "string \<Rightarrow> string list \<Rightarrow> string" where
  "joined sep [] = []"
| "joined sep [s] = s"
| "joined sep (s # ss) = s @ sep @ joined sep ss"

text \<open>\<open>[A-Za-z0-9._+-]+\<close>\<close>

definition simple_char :: "char \<Rightarrow> bool" where
  "simple_char c \<longleftrightarrow> (let n = of_char c :: nat in 65 \<le> n \<and> n \<le> 90 \<or> 97 \<le> n \<and> n \<le> 122 \<or> 48 \<le> n \<and> n \<le> 57) \<or>
     c \<in> set ''._+-''"

definition simple_value :: "string \<Rightarrow> bool" where
  "simple_value s \<longleftrightarrow> s \<noteq> [] \<and> list_all simple_char s"

text \<open>The loop over the characters, with the quote chosen so far.\<close>

fun escape_loop :: "char option \<Rightarrow> string \<Rightarrow> char option \<times> string" where
  "escape_loop q [] = (q, [])"
| "escape_loop q (c # cs) =
     (if c = CHR 0x5C then (let (q', out) = escape_loop q cs in (q', [CHR 0x5C, CHR 0x5C] @ out))
      else if c = CHR ''{'' then (let (q', out) = escape_loop q cs in (q', ''{{'' @ out))
      else if c = CHR ''}'' then (let (q', out) = escape_loop q cs in (q', ''}}'' @ out))
      else if c = CHR 0x22 \<or> c = CHR 0x27 then
        (let q1 = (case q of None \<Rightarrow> if c = CHR 0x22 then CHR 0x27 else CHR 0x22 | Some d \<Rightarrow> d);
             (q', out) = escape_loop (Some q1) cs
         in (q', (if c = q1 then [CHR 0x5C, c] else [c]) @ out))
      else (let (q', out) = escape_loop q cs in (q', c # out)))"

definition escaped :: "string \<Rightarrow> string" where
  "escaped s = (if simple_value s then s
     else (let (q, out) = escape_loop None s; q = (case q of None \<Rightarrow> CHR 0x22 | Some q \<Rightarrow> q) in q # out @ [q]))"

definition format_float :: "('a \<Rightarrow> string) \<Rightarrow> string \<Rightarrow> 'a \<Rightarrow> string" where
  "format_float g suffix x = (let s = g x in
     (if CHR ''.'' \<notin> set s \<and> CHR ''e'' \<notin> set s then s @ ''.0'' else s) @ suffix)"

fun format_tag :: "(32 word \<Rightarrow> string) \<Rightarrow> (64 word \<Rightarrow> string) \<Rightarrow> api_tag \<Rightarrow> string" where
  "format_tag g32 g64 A_End = []"
| "format_tag g32 g64 (A_Byte d) = decimal (unat d) @ ''b''"
| "format_tag g32 g64 (A_Short d) = show_int (sint d) @ ''s''"
| "format_tag g32 g64 (A_Int d) = show_int (sint d)"
| "format_tag g32 g64 (A_Long d) = show_int (sint d) @ ''L''"
| "format_tag g32 g64 (A_Float d) = format_float g32 ''f'' d"
| "format_tag g32 g64 (A_Double d) = format_float g64 ''d'' d"
| "format_tag g32 g64 (A_ByteArray ds) = ''[B;'' @ joined '','' (map (\<lambda>d. decimal (unat d) @ ''b'') ds) @ '']''"
| "format_tag g32 g64 (A_String s) = escaped (chars s)"
| "format_tag g32 g64 (A_IntArray ds) = ''[I;'' @ joined '','' (map (\<lambda>d. show_int (sint d)) ds) @ '']''"
| "format_tag g32 g64 (A_List _ xs) = ''['' @ joined '','' (map (format_tag g32 g64) xs) @ '']''"
| "format_tag g32 g64 (A_Compound es) =
     ''{'' @ joined '','' (map (\<lambda>e. escaped (chars (fst e)) @ '':'' @ format_tag g32 g64 (snd e)) es) @ ''}''"

text \<open>How the text form of a string is read: up to the closing quote, with a backslash before a character it stands for,
  or as it is when it does not start with a quote.\<close>

fun until_quote :: "char \<Rightarrow> string \<Rightarrow> string option" where
  "until_quote q [] = None"
| "until_quote q (c # cs) =
     (if c = q then (if cs = [] then Some [] else None)
      else if c = CHR 0x5C then (case cs of [] \<Rightarrow> None | d # ds \<Rightarrow> map_option ((#) d) (until_quote q ds))
      else map_option ((#) c) (until_quote q cs))"

definition read_string :: "string \<Rightarrow> string option" where
  "read_string s = (case s of [] \<Rightarrow> None
     | c # cs \<Rightarrow> if c = CHR 0x22 \<or> c = CHR 0x27 then until_quote c cs else Some s)"

text \<open>One character of the loop, once the quote is known.\<close>

definition escape_char :: "char \<Rightarrow> char \<Rightarrow> string" where
  "escape_char q c = (if c = CHR 0x5C then [c, c] else if c = CHR ''{'' \<or> c = CHR ''}'' then [c, c]
     else if c = q then [CHR 0x5C, c] else [c])"

definition doubled :: "string \<Rightarrow> string" where
  "doubled s = concat (map (\<lambda>c. if c = CHR ''{'' \<or> c = CHR ''}'' then [c, c] else [c]) s)"

definition chosen :: "char option \<Rightarrow> char" where
  "chosen q = (case q of None \<Rightarrow> CHR 0x22 | Some c \<Rightarrow> c)"

definition quote_char :: "char \<Rightarrow> bool" where
  "quote_char q \<longleftrightarrow> q = CHR 0x22 \<or> q = CHR 0x27"

lemma escape_loop_chars:
  "escape_loop q s = (q', out) \<Longrightarrow> (\<forall>c. q = Some c \<longrightarrow> quote_char c) \<Longrightarrow>
    quote_char (chosen q') \<and> (\<forall>c. q' = Some c \<longrightarrow> quote_char c) \<and> (\<forall>c. q = Some c \<longrightarrow> q' = Some c) \<and>
    (q' = None \<longrightarrow> CHR 0x22 \<notin> set s \<and> CHR 0x27 \<notin> set s) \<and> out = concat (map (escape_char (chosen q')) s)"
proof (induction q s arbitrary: q' out rule: escape_loop.induct)
  case (1 q)
  then show ?case by (auto simp: chosen_def quote_char_def split: option.splits)
next
  case (2 q c cs)
  consider "c = CHR 0x5C" | "c = CHR ''{''" | "c = CHR ''}''" | "c = CHR 0x22 \<or> c = CHR 0x27"
    | "c \<noteq> CHR 0x5C" "c \<noteq> CHR ''{''" "c \<noteq> CHR ''}''" "\<not> (c = CHR 0x22 \<or> c = CHR 0x27)" by blast
  then show ?case
  proof cases
    case 4
    define q1 where "q1 = (case q of None \<Rightarrow> if c = CHR 0x22 then CHR 0x27 else CHR 0x22 | Some d \<Rightarrow> d)"
    have n: "c \<noteq> CHR 0x5C" "c \<noteq> CHR ''{''" "c \<noteq> CHR ''}''" using 4 by auto
    obtain q2 out2 where l: "escape_loop (Some q1) cs = (q2, out2)" by (cases "escape_loop (Some q1) cs")
    have q1: "quote_char q1" using "2.prems"(2) by (auto simp: q1_def quote_char_def split: option.splits)
    have o: "q' = q2" "out = (if c = q1 then [CHR 0x5C, c] else [c]) @ out2"
      using "2.prems"(1) n 4 l by (simp_all add: q1_def Let_def split: if_splits)
    have ih: "quote_char (chosen q2)" "q2 = Some q1" "out2 = concat (map (escape_char (chosen q2)) cs)"
      using "2.IH"(4) [OF n 4 q1_def l] q1 by auto
    have "\<forall>d. q = Some d \<longrightarrow> q1 = d" by (simp add: q1_def)
    then show ?thesis using o ih q1 n by (auto simp: chosen_def escape_char_def [of _ c])
  next
    case 5
    obtain q2 out2 where l: "escape_loop q cs = (q2, out2)" by (cases "escape_loop q cs")
    have o: "q' = q2" "out = c # out2" using "2.prems"(1) 5 l by simp_all
    have ih: "quote_char (chosen q2)" "\<forall>c. q2 = Some c \<longrightarrow> quote_char c" "\<forall>c. q = Some c \<longrightarrow> q2 = Some c"
      "q2 = None \<longrightarrow> CHR 0x22 \<notin> set cs \<and> CHR 0x27 \<notin> set cs" "out2 = concat (map (escape_char (chosen q2)) cs)"
      using "2.IH"(5) [OF 5 l "2.prems"(2)] by simp_all
    have "c \<noteq> chosen q2" using ih(1) 5(4) by (auto simp: quote_char_def)
    then show ?thesis using o ih 5 by (auto simp: escape_char_def [of _ c])
  next
    case 1
    obtain q2 out2 where l: "escape_loop q cs = (q2, out2)" by (cases "escape_loop q cs")
    have o: "q' = q2" "out = [c, c] @ out2" using "2.prems"(1) 1 l by simp_all
    have ih: "quote_char (chosen q2)" "\<forall>c. q2 = Some c \<longrightarrow> quote_char c" "\<forall>c. q = Some c \<longrightarrow> q2 = Some c"
      "q2 = None \<longrightarrow> CHR 0x22 \<notin> set cs \<and> CHR 0x27 \<notin> set cs" "out2 = concat (map (escape_char (chosen q2)) cs)"
      using "2.IH"(1) [OF 1 l "2.prems"(2)] by simp_all
    have "escape_char (chosen q2) c = [c, c]" "c \<noteq> CHR 0x22" "c \<noteq> CHR 0x27" using 1 by (simp_all add: escape_char_def)
    then show ?thesis using o ih by auto
  next
    case 2
    have n: "c \<noteq> CHR 0x5C" using 2 by simp
    obtain q2 out2 where l: "escape_loop q cs = (q2, out2)" by (cases "escape_loop q cs")
    have o: "q' = q2" "out = [c, c] @ out2" using "2.prems"(1) n 2 l by simp_all
    have ih: "quote_char (chosen q2)" "\<forall>c. q2 = Some c \<longrightarrow> quote_char c" "\<forall>c. q = Some c \<longrightarrow> q2 = Some c"
      "q2 = None \<longrightarrow> CHR 0x22 \<notin> set cs \<and> CHR 0x27 \<notin> set cs" "out2 = concat (map (escape_char (chosen q2)) cs)"
      using "2.IH"(2) [OF n 2 l "2.prems"(2)] by simp_all
    have "escape_char (chosen q2) c = [c, c]" "c \<noteq> CHR 0x22" "c \<noteq> CHR 0x27" using 2 by (simp_all add: escape_char_def)
    then show ?thesis using o ih by auto
  next
    case 3
    have n: "c \<noteq> CHR 0x5C" "c \<noteq> CHR ''{''" using 3 by simp_all
    obtain q2 out2 where l: "escape_loop q cs = (q2, out2)" by (cases "escape_loop q cs")
    have o: "q' = q2" "out = [c, c] @ out2" using "2.prems"(1) n 3 l by simp_all
    have ih: "quote_char (chosen q2)" "\<forall>c. q2 = Some c \<longrightarrow> quote_char c" "\<forall>c. q = Some c \<longrightarrow> q2 = Some c"
      "q2 = None \<longrightarrow> CHR 0x22 \<notin> set cs \<and> CHR 0x27 \<notin> set cs" "out2 = concat (map (escape_char (chosen q2)) cs)"
      using "2.IH"(3) [OF n 3 l "2.prems"(2)] by simp_all
    have "escape_char (chosen q2) c = [c, c]" "c \<noteq> CHR 0x22" "c \<noteq> CHR 0x27" using 3 by (simp_all add: escape_char_def)
    then show ?thesis using o ih by auto
  qed
qed

lemma until_quote_escaped:
  assumes "quote_char q"
  shows "until_quote q (concat (map (escape_char q) s) @ [q]) = Some (doubled s)"
proof (induction s)
  case (Cons c cs)
  have q: "q \<noteq> CHR 0x5C" "q \<noteq> CHR ''{''" "q \<noteq> CHR ''}''" using assms by (auto simp: quote_char_def)
  let ?r = "concat (map (escape_char q) cs) @ [q]"
  have ne: "?r \<noteq> []" by simp
  consider "c = CHR 0x5C" | "c = CHR ''{'' \<or> c = CHR ''}''" | "c = q" | "c \<noteq> CHR 0x5C" "c \<noteq> CHR ''{''" "c \<noteq> CHR ''}''" "c \<noteq> q" by blast
  then show ?case
  proof cases
    case 1
    then have "escape_char q c = [CHR 0x5C, CHR 0x5C]" "doubled (c # cs) = c # doubled cs" by (simp_all add: escape_char_def doubled_def)
    then show ?thesis using Cons.IH q 1 by auto
  next
    case 2
    then have "escape_char q c = [c, c]" "doubled (c # cs) = c # c # doubled cs" "c \<noteq> q" "c \<noteq> CHR 0x5C"
      using q by (auto simp: escape_char_def doubled_def)
    then show ?thesis using Cons.IH by simp
  next
    case 3
    then have "escape_char q c = [CHR 0x5C, q]" "doubled (c # cs) = c # doubled cs" using q by (auto simp: escape_char_def doubled_def)
    then show ?thesis using Cons.IH q 3 by simp
  next
    case 4
    then have "escape_char q c = [c]" "doubled (c # cs) = c # doubled cs" by (simp_all add: escape_char_def doubled_def)
    then show ?thesis using Cons.IH 4 by simp
  qed
qed (simp add: doubled_def)

text \<open>The text form of a string, quoted or not, is read back as the string, except that every brace comes out twice: the
  loop doubles braces as if the text were a format string, which it is not.\<close>

theorem escaped_doubles_braces:
  "read_string (escaped s) = Some (if simple_value s then s else doubled s)"
proof (cases "simple_value s")
  case True
  then obtain c cs where s: "s = c # cs" "simple_char c" by (cases s) (auto simp: simple_value_def)
  then have "c \<noteq> CHR 0x22" "c \<noteq> CHR 0x27" by (auto simp: simple_char_def Let_def)
  with True s(1) show ?thesis by (simp add: escaped_def read_string_def)
next
  case False
  obtain q out where l: "escape_loop None s = (q, out)" by (cases "escape_loop None s")
  from escape_loop_chars [OF l] have q: "quote_char (chosen q)" "out = concat (map (escape_char (chosen q)) s)" by simp_all
  have "escaped s = chosen q # out @ [chosen q]" using False l by (simp add: escaped_def chosen_def Let_def)
  then show ?thesis
    using False q until_quote_escaped [OF q(1), of s] by (auto simp: read_string_def quote_char_def)
qed

lemma doubled_no_braces: "CHR ''{'' \<notin> set s \<Longrightarrow> CHR ''}'' \<notin> set s \<Longrightarrow> doubled s = s"
  by (induction s) (auto simp: doubled_def)

text \<open>A string that looks like a number is printed like the number.\<close>

lemma string_as_number: "format_tag g32 g64 (A_String [49, 98]) = format_tag g32 g64 (A_Byte 1)"
proof -
  have "chars [49, 98] = ''1b''" by code_simp
  moreover have "simple_value ''1b''" by (simp add: simple_value_def simple_char_def)
  moreover have "decimal 1 = ''1''" by (subst decimal.simps) (simp, code_simp)
  ultimately show ?thesis by (simp add: escaped_def)
qed

end
