(* ===== verification/Images.thy ===== *)
theory Images
  imports Prelude
begin

text \<open>
  Colours and images (\<open>src/include/endstone/util/color.h\<close> and \<open>image.h\<close>): the packing of four bytes into the
  integers the API and the game exchange, and the pixel buffer of an image with the index arithmetic of its accessors.
  The C++ type \<open>int\<close> is \<^typ>\<open>32 word\<close> where bits are moved and \<^typ>\<open>int\<close> where a result outside its range is undefined.
\<close>

subsection \<open>Colours\<close>

record color =
  red :: byte
  green :: byte
  blue :: byte
  alpha :: byte

definition BIT_MASK :: "32 word" where
  "BIT_MASK = 0xff"

definition DEFAULT_ALPHA :: byte where
  "DEFAULT_ALPHA = 255"

definition Color :: "byte \<Rightarrow> byte \<Rightarrow> byte \<Rightarrow> byte \<Rightarrow> color" where
  "Color r g b a = \<lparr>red = r, green = g, blue = b, alpha = a\<rparr>"

definition fromRGBA4 :: "32 word \<Rightarrow> 32 word \<Rightarrow> 32 word \<Rightarrow> 32 word \<Rightarrow> color" where
  "fromRGBA4 r g b a = Color (ucast r) (ucast g) (ucast b) (ucast a)"

definition fromRGB3 :: "32 word \<Rightarrow> 32 word \<Rightarrow> 32 word \<Rightarrow> color" where
  "fromRGB3 r g b = fromRGBA4 r g b (ucast DEFAULT_ALPHA)"

definition fromBGR3 :: "32 word \<Rightarrow> 32 word \<Rightarrow> 32 word \<Rightarrow> color" where
  "fromBGR3 b g r = fromRGBA4 r g b (ucast DEFAULT_ALPHA)"

text \<open>\<open>n >> k & BIT_MASK\<close>, with the arithmetic shift of a signed integer.\<close>

definition field :: "nat \<Rightarrow> 32 word \<Rightarrow> 32 word" where
  "field k n = signed_drop_bit k n AND BIT_MASK"

definition fromRGBA :: "32 word \<Rightarrow> color" where
  "fromRGBA n = fromRGBA4 (field 24 n) (field 16 n) (field 8 n) (n AND BIT_MASK)"

definition fromABGR :: "32 word \<Rightarrow> color" where
  "fromABGR n = fromRGBA4 (n AND BIT_MASK) (field 8 n) (field 16 n) (field 24 n)"

definition fromRGB :: "32 word \<Rightarrow> color" where
  "fromRGB n = fromRGB3 (field 16 n) (field 8 n) (n AND BIT_MASK)"

definition fromBGR :: "32 word \<Rightarrow> color" where
  "fromBGR n = fromBGR3 (field 16 n) (field 8 n) (n AND BIT_MASK)"

definition getRed :: "color \<Rightarrow> 32 word" where
  "getRed c = BIT_MASK AND ucast (red c)"

definition getGreen :: "color \<Rightarrow> 32 word" where
  "getGreen c = BIT_MASK AND ucast (green c)"

definition getBlue :: "color \<Rightarrow> 32 word" where
  "getBlue c = BIT_MASK AND ucast (blue c)"

definition getAlpha :: "color \<Rightarrow> 32 word" where
  "getAlpha c = BIT_MASK AND ucast (alpha c)"

definition setRed :: "32 word \<Rightarrow> color \<Rightarrow> color" where
  "setRed n c = fromRGBA4 n (getGreen c) (getBlue c) (getAlpha c)"

definition setGreen :: "32 word \<Rightarrow> color \<Rightarrow> color" where
  "setGreen n c = fromRGBA4 (getRed c) n (getBlue c) (getAlpha c)"

definition setBlue :: "32 word \<Rightarrow> color \<Rightarrow> color" where
  "setBlue n c = fromRGBA4 (getRed c) (getGreen c) n (getAlpha c)"

definition setAlpha :: "32 word \<Rightarrow> color \<Rightarrow> color" where
  "setAlpha n c = fromRGBA4 (getRed c) (getGreen c) (getBlue c) n"

definition asRGBA :: "color \<Rightarrow> 32 word" where
  "asRGBA c = push_bit 24 (getRed c) OR push_bit 16 (getGreen c) OR push_bit 8 (getBlue c) OR getAlpha c"

definition asABGR :: "color \<Rightarrow> 32 word" where
  "asABGR c = push_bit 24 (getAlpha c) OR push_bit 16 (getBlue c) OR push_bit 8 (getGreen c) OR getRed c"

definition asRGB :: "color \<Rightarrow> 32 word" where
  "asRGB c = push_bit 16 (getRed c) OR push_bit 8 (getGreen c) OR getBlue c"

definition asBGR :: "color \<Rightarrow> 32 word" where
  "asBGR c = push_bit 16 (getBlue c) OR push_bit 8 (getGreen c) OR getRed c"

definition color_equals :: "color \<Rightarrow> color \<Rightarrow> bool" where
  "color_equals c d \<longleftrightarrow> alpha c = alpha d \<and> red c = red d \<and> green c = green d \<and> blue c = blue d"

definition WHITE :: color where
  "WHITE = Color DEFAULT_ALPHA 255 255 255"

definition BLACK :: color where
  "BLACK = Color DEFAULT_ALPHA 0 0 0"

lemmas color_defs = Color_def fromRGBA4_def fromRGB3_def fromBGR3_def fromRGBA_def fromABGR_def fromRGB_def fromBGR_def
  field_def getRed_def getGreen_def getBlue_def getAlpha_def setRed_def setGreen_def setBlue_def setAlpha_def
  asRGBA_def asABGR_def asRGB_def asBGR_def DEFAULT_ALPHA_def

lemma bit_mask [simp]: "bit BIT_MASK n \<longleftrightarrow> n < 8"
proof -
  have "bit (mask 8 :: 32 word) n \<longleftrightarrow> n < 8" by (auto simp: bit_mask_iff possible_bit_word)
  moreover have "mask 8 = BIT_MASK" by (simp add: BIT_MASK_def mask_eq_exp_minus_1)
  ultimately show ?thesis by metis
qed

lemma color_equals_eq: "color_equals c d \<longleftrightarrow> c = d"
  by (cases c; cases d) (auto simp: color_equals_def)

lemma color_eqI: "red c = red d \<Longrightarrow> green c = green d \<Longrightarrow> blue c = blue d \<Longrightarrow> alpha c = alpha d \<Longrightarrow> c = d"
  for c d :: color by simp

lemma from_as_ABGR: "fromABGR (asABGR c) = c"
  by (rule color_eqI; rule bit_word_eqI) (auto simp: color_defs bit_simps dest: bit_imp_le_length)

lemma from_as_RGBA: "fromRGBA (asRGBA c) = c"
  by (rule color_eqI; rule bit_word_eqI) (auto simp: color_defs bit_simps dest: bit_imp_le_length)

lemma from_as_RGB: "fromRGB (asRGB c) = setAlpha 255 c"
  by (rule color_eqI; rule bit_word_eqI) (auto simp: color_defs bit_simps dest: bit_imp_le_length)

lemma from_as_BGR: "fromBGR (asBGR c) = setAlpha 255 c"
  by (rule color_eqI; rule bit_word_eqI) (auto simp: color_defs bit_simps dest: bit_imp_le_length)
lemma bit_field: "k + 8 \<le> 32 \<Longrightarrow> bit (field k w) i \<longleftrightarrow> i < 8 \<and> bit w (k + i)"
  by (auto simp: field_def bit_simps)

lemma word_split4:
  "push_bit 24 (field 24 w) OR push_bit 16 (field 16 w) OR push_bit 8 (field 8 w) OR (w AND BIT_MASK) = w"
proof (rule bit_word_eqI)
  fix i assume i: "i < LENGTH(32)"
  then consider "i < 8" | "8 \<le> i" "i < 16" | "16 \<le> i" "i < 24" | "24 \<le> i" "i < 32" by fastforce
  then show "bit (push_bit 24 (field 24 w) OR push_bit 16 (field 16 w) OR push_bit 8 (field 8 w) OR (w AND BIT_MASK)) i = bit w i"
    by cases (auto simp: bit_or_iff bit_and_iff bit_push_bit_iff bit_field)
qed

lemma field_ucast: "k + 8 \<le> 32 \<Longrightarrow> BIT_MASK AND ucast (ucast (field k w) :: byte) = field k w"
  by (rule bit_word_eqI) (auto simp: bit_simps bit_field)

lemma low_ucast: "BIT_MASK AND ucast (ucast (w AND BIT_MASK) :: byte) = w AND BIT_MASK" for w :: "32 word"
  by (rule bit_word_eqI) (auto simp: bit_simps)

lemma as_from_ABGR: "asABGR (fromABGR n) = n"
  using word_split4 [of n]
  by (simp add: asABGR_def fromABGR_def fromRGBA4_def Color_def getRed_def getGreen_def getBlue_def getAlpha_def field_ucast low_ucast)

lemma as_from_RGBA: "asRGBA (fromRGBA n) = n"
  using word_split4 [of n]
  by (simp add: asRGBA_def fromRGBA_def fromRGBA4_def Color_def getRed_def getGreen_def getBlue_def getAlpha_def field_ucast low_ucast)

lemma asABGR_inject: "asABGR c = asABGR d \<longleftrightarrow> c = d"
  by (metis from_as_ABGR)

subsection \<open>Images\<close>

datatype image_type = Invalid | Grayscale | RGB | RGBA

text \<open>What ends a call: undefined behaviour of an index or of a signed operation, or an exception.\<close>

datatype image_error = Signed_Overflow | Out_Of_Bounds | Length_Error | Invalid_Image_Type | Invalid_Buffer_Size

record image =
  image_type :: image_type
  width :: int
  height :: int
  data :: bytes

definition is_int :: "int \<Rightarrow> bool" where
  "is_int n \<longleftrightarrow> - (2 ^ 31) \<le> n \<and> n < 2 ^ 31"

text \<open>\<open>std::string(n, 0)\<close>; a negative length becomes a \<open>size_t\<close> beyond \<open>max_size()\<close>.\<close>

definition new_image :: "image_type \<Rightarrow> int \<Rightarrow> int \<Rightarrow> image_error + image" where
  "new_image ty w h =
     (if \<not> is_int (w * h) \<or> \<not> is_int (w * h * 4) then Inl Signed_Overflow
      else if w * h * 4 < 0 then Inl Length_Error
      else Inr \<lparr>image_type = ty, width = w, height = h, data = replicate (nat (w * h * 4)) 0\<rparr>)"

definition image_of :: "image_type \<Rightarrow> int \<Rightarrow> int \<Rightarrow> bytes \<Rightarrow> image_error + image" where
  "image_of ty w h bs = chain (new_image ty w h) (\<lambda>im.
     let n = min (length bs) (length (data im)) in Inr (im\<lparr>data := take n bs @ drop n (data im)\<rparr>))"

definition getDepth :: "image \<Rightarrow> nat" where
  "getDepth im = (case image_type im of Grayscale \<Rightarrow> 1 | RGB \<Rightarrow> 3 | RGBA \<Rightarrow> 4 | Invalid \<Rightarrow> 0)"

text \<open>The index of a pixel, as a \<open>size_t\<close>.\<close>

definition pixel_index :: "int \<Rightarrow> int \<Rightarrow> image \<Rightarrow> nat" where
  "pixel_index x y im = unat ((word_of_int y * word_of_int (width im) + word_of_int x) * 4 :: 64 word)"

text \<open>Reading a constant string at its length gives the terminating zero.\<close>

definition byte_at :: "nat \<Rightarrow> image \<Rightarrow> image_error + byte" where
  "byte_at i im = (if i < length (data im) then Inr (data im ! i)
     else if i = length (data im) then Inr 0 else Inl Out_Of_Bounds)"

definition set_byte :: "nat \<Rightarrow> byte \<Rightarrow> image \<Rightarrow> image_error + image" where
  "set_byte i b im = (if i < length (data im) then Inr (im\<lparr>data := (data im)[i := b]\<rparr>)
     else if i = length (data im) \<and> b = 0 then Inr im else Inl Out_Of_Bounds)"

definition getColor :: "int \<Rightarrow> int \<Rightarrow> image \<Rightarrow> image_error + color" where
  "getColor x y im = (let i = pixel_index x y im in
     case image_type im of
       Grayscale \<Rightarrow> chain (byte_at i im) (\<lambda>r. Inr (Color r r r 255))
     | RGB \<Rightarrow> chain (byte_at i im) (\<lambda>r. chain (byte_at (i + 1) im) (\<lambda>g. chain (byte_at (i + 2) im) (\<lambda>b.
         Inr (Color r g b 255))))
     | RGBA \<Rightarrow> chain (byte_at i im) (\<lambda>r. chain (byte_at (i + 1) im) (\<lambda>g. chain (byte_at (i + 2) im) (\<lambda>b.
         chain (byte_at (i + 3) im) (\<lambda>a. Inr (Color r g b a)))))
     | Invalid \<Rightarrow> Inr (Color 0 0 0 255))"

definition setColor :: "int \<Rightarrow> int \<Rightarrow> color \<Rightarrow> image \<Rightarrow> image_error + image" where
  "setColor x y c im = (let i = pixel_index x y im in
     case image_type im of
       Grayscale \<Rightarrow> set_byte i (ucast (getRed c)) im
     | RGB \<Rightarrow> chain (set_byte i (ucast (getRed c)) im) (\<lambda>im. chain (set_byte (i + 1) (ucast (getGreen c)) im)
         (set_byte (i + 2) (ucast (getBlue c))))
     | RGBA \<Rightarrow> chain (set_byte i (ucast (getRed c)) im) (\<lambda>im. chain (set_byte (i + 1) (ucast (getGreen c)) im)
         (\<lambda>im. chain (set_byte (i + 2) (ucast (getBlue c)) im) (set_byte (i + 3) (ucast (getAlpha c)))))
     | Invalid \<Rightarrow> Inr im)"

definition getData :: "image \<Rightarrow> bytes" where
  "getData im = data im"

definition fromBuffer :: "image_type \<Rightarrow> int \<Rightarrow> int \<Rightarrow> bytes \<Rightarrow> image_error + image" where
  "fromBuffer ty w h bs =
     (let check = (\<lambda>depth :: 64 word.
        if \<not> is_int (w * h) then Inl Signed_Overflow
        else if (of_nat (length bs) :: 64 word) \<noteq> word_of_int (w * h) * depth then Inl Invalid_Buffer_Size
        else image_of ty w h bs) in
      case ty of Grayscale \<Rightarrow> check 1 | RGB \<Rightarrow> check 3 | RGBA \<Rightarrow> check 4 | Invalid \<Rightarrow> Inl Invalid_Image_Type)"

definition fromArray :: "image_type \<Rightarrow> int \<Rightarrow> int \<Rightarrow> bytes \<Rightarrow> image_error + image" where
  "fromArray ty w h bs = fromBuffer ty w h bs"

text \<open>A well-formed image: sizes that are not negative, four bytes for every pixel.\<close>

definition image_ok :: "image \<Rightarrow> bool" where
  "image_ok im \<longleftrightarrow> 0 \<le> width im \<and> 0 \<le> height im \<and> width im * height im * 4 < 2 ^ 31 \<and>
     int (length (data im)) = width im * height im * 4"

definition inside :: "int \<Rightarrow> int \<Rightarrow> image \<Rightarrow> bool" where
  "inside x y im \<longleftrightarrow> 0 \<le> x \<and> x < width im \<and> 0 \<le> y \<and> y < height im"

lemma index_bound:
  assumes "inside x y im"
  shows "0 \<le> y * width im + x" "y * width im + x + 1 \<le> width im * height im"
proof -
  show "0 \<le> y * width im + x" using assms by (simp add: inside_def)
  have "(y + 1) * width im \<le> height im * width im" using assms by (intro mult_right_mono) (auto simp: inside_def)
  with assms show "y * width im + x + 1 \<le> width im * height im" by (simp add: inside_def algebra_simps)
qed

text \<open>The same index without its width, where it does not wrap.\<close>

definition offset :: "int \<Rightarrow> int \<Rightarrow> image \<Rightarrow> nat" where
  "offset x y im = nat ((y * width im + x) * 4)"

lemma pixel_index_inside:
  assumes "inside x y im" "image_ok im"
  shows "pixel_index x y im = offset x y im" "offset x y im + 3 < length (data im)"
proof -
  have b: "0 \<le> y * width im + x" "(y * width im + x) * 4 + 4 \<le> width im * height im * 4"
    using index_bound [OF assms(1)] by simp_all
  have "(word_of_int y * word_of_int (width im) + word_of_int x) * 4 = (word_of_int ((y * width im + x) * 4) :: 64 word)"
    by simp
  then have "pixel_index x y im = nat (((y * width im + x) * 4) mod 2 ^ 64)"
    by (simp only: pixel_index_def unsigned_of_int take_bit_eq_mod) simp
  moreover have "((y * width im + x) * 4) mod 2 ^ 64 = (y * width im + x) * 4"
    proof (rule mod_pos_pos_trivial)
    show "0 \<le> (y * width im + x) * 4" using b by simp
    have "(y * width im + x) * 4 < 2 ^ 31" using b(2) assms(2) by (simp only: image_ok_def) linarith
    then show "(y * width im + x) * 4 < 2 ^ 64" by simp
  qed
  ultimately show "pixel_index x y im = offset x y im" by (simp add: offset_def)
  have "int (offset x y im) = (y * width im + x) * 4" using b(1) by (simp add: offset_def)
  moreover have "int (length (data im)) = width im * height im * 4" using assms(2) by (simp add: image_ok_def)
  ultimately show "offset x y im + 3 < length (data im)" using b(2) by linarith
qed

text \<open>The colour an image of each type shows for four bytes of its buffer.\<close>

definition shown :: "image_type \<Rightarrow> byte \<Rightarrow> byte \<Rightarrow> byte \<Rightarrow> byte \<Rightarrow> color" where
  "shown ty r g b a = (case ty of Grayscale \<Rightarrow> Color r r r 255 | RGB \<Rightarrow> Color r g b 255 | RGBA \<Rightarrow> Color r g b a
     | Invalid \<Rightarrow> Color 0 0 0 255)"

definition pixel :: "int \<Rightarrow> int \<Rightarrow> image \<Rightarrow> color" where
  "pixel x y im = (let i = offset x y im; d = data im in
     shown (image_type im) (d ! i) (d ! (i + 1)) (d ! (i + 2)) (d ! (i + 3)))"

lemma getColor_inside: "inside x y im \<Longrightarrow> image_ok im \<Longrightarrow> getColor x y im = Inr (pixel x y im)"
  using pixel_index_inside [of x y im]
  by (auto simp: getColor_def byte_at_def Let_def pixel_def shown_def split: image_type.splits)

definition put4 :: "nat \<Rightarrow> color \<Rightarrow> image \<Rightarrow> image" where
  "put4 i c im = im\<lparr>data := (let d = data im in
     case image_type im of
       Invalid \<Rightarrow> d
     | Grayscale \<Rightarrow> d[i := red c]
     | RGB \<Rightarrow> d[i := red c, i + 1 := green c, i + 2 := blue c]
     | RGBA \<Rightarrow> d[i := red c, i + 1 := green c, i + 2 := blue c, i + 3 := alpha c])\<rparr>"

lemma channel_byte [simp]:
  "ucast (getRed c) = red c" "ucast (getGreen c) = green c" "ucast (getBlue c) = blue c" "ucast (getAlpha c) = alpha c"
  by (rule bit_word_eqI; auto simp: color_defs bit_simps dest: bit_imp_le_length)+

lemma setColor_inside:
  "inside x y im \<Longrightarrow> image_ok im \<Longrightarrow> setColor x y c im = Inr (put4 (offset x y im) c im)"
proof -
  assume "inside x y im" "image_ok im"
  from pixel_index_inside [OF this] have "pixel_index x y im = offset x y im" "offset x y im < length (data im)"
    "offset x y im + 1 < length (data im)" "offset x y im + 2 < length (data im)" "offset x y im + 3 < length (data im)" by simp_all
  then show ?thesis by (cases "image_type im") (simp_all add: setColor_def set_byte_def put4_def Let_def)
qed

lemma put4_same [simp]:
  "image_type (put4 i c im) = image_type im" "width (put4 i c im) = width im" "height (put4 i c im) = height im"
  "length (data (put4 i c im)) = length (data im)" "image_ok (put4 i c im) = image_ok im" "inside x y (put4 i c im) = inside x y im"
  by (auto simp: put4_def Let_def image_ok_def inside_def split: image_type.split)

lemma nat_apart: "a \<noteq> b \<Longrightarrow> 0 \<le> a \<Longrightarrow> 0 \<le> b \<Longrightarrow> nat (b * 4) + 4 \<le> nat (a * 4) \<or> nat (a * 4) + 4 \<le> nat (b * 4)" for a b :: int
  by (cases "a < b") auto

lemma pixel_index_apart:
  assumes "inside x y im" "inside x' y' im" "(x', y') \<noteq> (x, y)"
  shows "y' * width im + x' \<noteq> y * width im + x"
proof
  assume e: "y' * width im + x' = y * width im + x"
  have w: "0 \<le> x" "x < width im" "0 \<le> x'" "x' < width im" using assms by (auto simp: inside_def)
  have "(x' + y' * width im) div width im = y'" "(x + y * width im) div width im = y" using w by auto
  with e have "y' = y" by (simp add: add.commute)
  with e assms show False by simp
qed

lemma pixel_put4_other:
  assumes "inside x y im" "inside x' y' im" "(x', y') \<noteq> (x, y)"
  shows "pixel x' y' (put4 (offset x y im) c im) = pixel x' y' im"
proof -
  define i where "i = offset x y im"
  define j where "j = offset x' y' im"
  have "i + 4 \<le> j \<or> j + 4 \<le> i"
    unfolding i_def j_def offset_def
    by (rule nat_apart [OF pixel_index_apart [OF assms] index_bound(1) [OF assms(2)] index_bound(1) [OF assms(1)]])
  then have "(data (put4 i c im)) ! (j + k) = data im ! (j + k)" if "k < 4" for k
    using that by (auto simp: put4_def Let_def split: image_type.split)
  from this [of 0] this [of 1] this [of 2] this [of 3]
  have "(data (put4 i c im)) ! j = data im ! j" "(data (put4 i c im)) ! (j + 1) = data im ! (j + 1)"
    "(data (put4 i c im)) ! (j + 2) = data im ! (j + 2)" "(data (put4 i c im)) ! (j + 3) = data im ! (j + 3)" by auto
  then show ?thesis by (simp add: pixel_def j_def i_def Let_def offset_def)
qed

lemma pixel_put4_same:
  assumes "inside x y im" "image_ok im"
  shows "pixel x y (put4 (offset x y im) c im) = shown (image_type im) (red c) (green c) (blue c) (alpha c)"
  using pixel_index_inside [OF assms] by (auto simp: pixel_def put4_def Let_def shown_def offset_def split: image_type.split)

text \<open>Setting the colour of a pixel of an image is safe and exact: inside the image no access leaves the buffer, the
  pixel reads back as the channels its type keeps, and every other pixel is as before.\<close>

theorem setColor_exact:
  assumes "image_ok im" "inside x y im"
  shows "\<exists>im'. setColor x y c im = Inr im' \<and> image_ok im' \<and>
    getColor x y im' = Inr (shown (image_type im) (red c) (green c) (blue c) (alpha c)) \<and>
    (\<forall>x' y'. inside x' y' im \<longrightarrow> (x', y') \<noteq> (x, y) \<longrightarrow> getColor x' y' im' = getColor x' y' im)"
  using assms by (auto simp: setColor_inside getColor_inside pixel_put4_same pixel_put4_other)

lemma setColor_exact_witness:
  "\<exists>im'. setColor 1 0 (Color 1 2 3 4) \<lparr>image_type = RGBA, width = 2, height = 1, data = [9, 9, 9, 9, 8, 8, 8, 8]\<rparr> = Inr im' \<and>
    getColor 1 0 im' = Inr (Color 1 2 3 4)"
  using setColor_exact [of "\<lparr>image_type = RGBA, width = 2, height = 1, data = [9, 9, 9, 9, 8, 8, 8, 8]\<rparr>" 1 0 "Color 1 2 3 4"]
  by (auto simp: image_ok_def inside_def shown_def Color_def)

definition depth_of :: "image_type \<Rightarrow> nat" where
  "depth_of ty = (case ty of Invalid \<Rightarrow> 0 | Grayscale \<Rightarrow> 1 | RGB \<Rightarrow> 3 | RGBA \<Rightarrow> 4)"

lemma getDepth_type: "getDepth im = depth_of (image_type im)"
  by (auto simp: getDepth_def depth_of_def split: image_type.split)

definition padded :: "bytes \<Rightarrow> nat \<Rightarrow> byte" where
  "padded bs i = (if i < length bs then bs ! i else 0)"

lemma fromBuffer_ok:
  assumes "0 \<le> w" "0 \<le> h" "w * h * 4 < 2 ^ 31" "ty \<noteq> Invalid" "int (length bs) = w * h * int (depth_of ty)"
  obtains im where "fromBuffer ty w h bs = Inr im" "image_ok im" "image_type im = ty" "width im = w" "height im = h"
    "data im = bs @ replicate (nat (w * h * 4) - length bs) 0"
proof -
  have wh: "0 \<le> w * h" using assms by simp
  have i: "is_int (w * h)" "is_int (w * h * 4)" using wh assms(3) unfolding is_int_def by linarith+
  have le: "length bs \<le> nat (w * h * 4)" using assms(4,5) wh by (cases ty) (auto simp: depth_of_def)
  have l: "(of_nat (length bs) :: 64 word) = word_of_int (w * h) * of_nat (depth_of ty)"
  proof -
    have "(of_int (int (length bs)) :: 64 word) = of_int (w * h) * of_int (int (depth_of ty))"
      by (simp only: assms(5) of_int_mult)
    then show ?thesis by (simp only: of_int_of_nat_eq)
  qed
  have b: "fromBuffer ty w h bs = image_of ty w h bs"
    using l i assms(4) by (cases ty) (auto simp: fromBuffer_def Let_def depth_of_def)
  have n: "\<not> w * h * 4 < 0" using wh by linarith
  have c: "image_of ty w h bs = Inr \<lparr>image_type = ty, width = w, height = h, data = bs @ replicate (nat (w * h * 4) - length bs) 0\<rparr>"
    using i n le by (simp add: image_of_def new_image_def Let_def min_def)
  show thesis
    by (rule that [OF b [unfolded c]])
      (use wh le assms(1-3) in \<open>auto simp: image_ok_def\<close>)
qed

text \<open>Decoding a pixel buffer keeps every pixel only for images of four bytes a pixel: fromBuffer accepts buffers of
  one, three or four bytes a pixel and copies them as they are, but the colour of a pixel is read at four times its number.\<close>

theorem fromBuffer_pixels:
  assumes "0 \<le> w" "0 \<le> h" "w * h * 4 < 2 ^ 31" "ty \<noteq> Invalid" "int (length bs) = w * h * int (depth_of ty)"
  shows "\<exists>im. fromBuffer ty w h bs = Inr im \<and> image_ok im \<and>
    (\<forall>x y. 0 \<le> x \<and> x < w \<and> 0 \<le> y \<and> y < h \<longrightarrow>
      getColor x y im = Inr (let i = 4 * nat (y * w + x) in
        shown ty (padded bs i) (padded bs (i + 1)) (padded bs (i + 2)) (padded bs (i + 3))))"
proof -
  from fromBuffer_ok [OF assms] obtain im where im: "fromBuffer ty w h bs = Inr im" "image_ok im" "image_type im = ty" "width im = w" "height im = h"
    "data im = bs @ replicate (nat (w * h * 4) - length bs) 0" by metis
  have "getColor x y im = Inr (let i = 4 * nat (y * w + x) in
        shown ty (padded bs i) (padded bs (i + 1)) (padded bs (i + 2)) (padded bs (i + 3)))"
    if xy: "0 \<le> x \<and> x < w \<and> 0 \<le> y \<and> y < h" for x y
  proof -
    have ins: "inside x y im" using xy im by (simp add: inside_def)
    have "offset x y im = 4 * nat (y * w + x)" using index_bound(1) [OF ins] im(4) by (simp add: offset_def nat_mult_distrib)
    moreover have "offset x y im + 3 < length (data im)"
      using pixel_index_inside [OF ins im(2)] im(4) by simp
    moreover have "data im ! k = padded bs k" if "k < length (data im)" for k
      using that by (auto simp: padded_def im(6) nth_append)
    ultimately show ?thesis using im(3,4) by (simp add: getColor_inside [OF ins im(2)] pixel_def Let_def)
  qed
  with im show ?thesis by auto
qed

lemma fromBuffer_pixels_witness:
  "\<exists>im. fromBuffer RGB 2 1 [1, 2, 3, 4, 5, 6] = Inr im \<and> getColor 1 0 im = Inr (Color 5 6 0 255)"
  using fromBuffer_pixels [of 2 1 RGB "[1, 2, 3, 4, 5, 6]"]
  by (auto simp: depth_of_def padded_def shown_def Let_def)

end
