(* ===== verification/Map_View.thy ===== *)
theory Map_View
  imports Images
begin

text \<open>
  Maps (\<open>src/endstone/core/map/\<close> and \<open>src/bedrock/world/level/saveddata/\<close>): the canvas a renderer draws on, the view
  that keeps renderers, canvases and rendered data, the renderer of the game's own pixels, and the saved map with its
  tracked entities and dirty rectangles. Accesses outside a buffer, unset pointers and signed overflow are errors; the
  lemmas show that no operation reaches them, what an image paints and what a rendering shows.
\<close>

datatype map_error = Image_Error image_error | Unset_Base | Dangling | Out_Of_Range

fun of_image :: "image_error + 'a \<Rightarrow> map_error + 'a" where
  "of_image (Inl e) = Inl (Image_Error e)"
| "of_image (Inr a) = Inr a"

definition MAP_SIZE :: int where
  "MAP_SIZE = 128"

text \<open>\<open>v[i]\<close> of a vector or a span, which is not checked.\<close>

definition at :: "'a list \<Rightarrow> int \<Rightarrow> map_error + 'a" where
  "at xs i = (if 0 \<le> i \<and> i < int (length xs) then Inr (xs ! nat i) else Inl (Image_Error Out_Of_Bounds))"

subsection \<open>The saved map\<close>

datatype entity_kind = Entity | Block_Entity | Other

record unique_id =
  kind :: entity_kind
  key_entity_id :: "64 word"
  key_block_pos :: "int \<times> int \<times> int"

definition same_id :: "unique_id \<Rightarrow> unique_id \<Rightarrow> bool" where
  "same_id i j \<longleftrightarrow> (if kind i = Block_Entity then key_block_pos i = key_block_pos j else key_entity_id i = key_entity_id j)"

record tracked_actor =
  actor_id :: unique_id
  needs_resend :: bool
  min_dirty_x :: "32 word"
  min_dirty_y :: "32 word"
  max_dirty_x :: "32 word"
  max_dirty_y :: "32 word"

definition actor_setPixelDirty :: "32 word \<Rightarrow> 32 word \<Rightarrow> tracked_actor \<Rightarrow> tracked_actor" where
  "actor_setPixelDirty x y a =
     (if needs_resend a then a\<lparr>min_dirty_x := min (min_dirty_x a) x, min_dirty_y := min (min_dirty_y a) y,
        max_dirty_x := max (max_dirty_x a) x, max_dirty_y := max (max_dirty_y a) y\<rparr>
      else a\<lparr>needs_resend := True, min_dirty_x := x, min_dirty_y := y, max_dirty_x := x, max_dirty_y := y\<rparr>)"

text \<open>An image of a decoration is the number of its \<open>MapDecoration::Type\<close>.\<close>

record decoration =
  label :: string
  img :: "8 word"
  dec_x :: "8 word"
  dec_y :: "8 word"
  rot :: "8 word"

record saved_map =
  map_id :: "64 word"
  origin_x :: int
  origin_z :: int
  dimension :: int
  scale :: "8 word"
  pixels :: "32 word list"
  tracked_entities :: "tracked_actor list"
  unlimited_tracking :: bool
  dirty_for_save :: bool
  dirty_pixel_data :: bool
  locked :: bool
  decorations :: "(unique_id \<times> decoration) list"

definition setDirtyForSaveAndPixelData :: "saved_map \<Rightarrow> saved_map" where
  "setDirtyForSaveAndPixelData m = m\<lparr>dirty_for_save := True, dirty_pixel_data := True\<rparr>"

definition map_getScale :: "saved_map \<Rightarrow> int" where
  "map_getScale m = sint (scale m)"

definition map_setScale :: "int \<Rightarrow> saved_map \<Rightarrow> saved_map" where
  "map_setScale s m = (if sint (scale m) \<noteq> s then (setDirtyForSaveAndPixelData m)\<lparr>scale := word_of_int s\<rparr> else m)"

definition setDimensionId :: "int \<Rightarrow> saved_map \<Rightarrow> saved_map" where
  "setDimensionId d m = m\<lparr>dimension := d\<rparr>"

definition setPixelDirty :: "32 word \<Rightarrow> 32 word \<Rightarrow> saved_map \<Rightarrow> saved_map" where
  "setPixelDirty x y m = m\<lparr>tracked_entities := map (actor_setPixelDirty x y) (tracked_entities m)\<rparr>"

text \<open>\<open>MarkerWhite\<close>, \<open>SquareWhite\<close>, \<open>SmallSquareWhite\<close> and \<open>NoDraw\<close> are not saved.\<close>

definition shouldSaveMarker :: "8 word \<Rightarrow> bool" where
  "shouldSaveMarker t \<longleftrightarrow> t \<noteq> 0 \<and> t \<noteq> 6 \<and> t \<noteq> 13 \<and> t \<noteq> 16"

definition setDirtyForDecoration :: "decoration \<Rightarrow> saved_map \<Rightarrow> saved_map" where
  "setDirtyForDecoration d m = (if shouldSaveMarker (img d) then m\<lparr>dirty_for_save := True\<rparr> else m)"

fun erase_first :: "('a \<Rightarrow> bool) \<Rightarrow> 'a list \<Rightarrow> 'a list" where
  "erase_first P [] = []"
| "erase_first P (x # xs) = (if P x then xs else x # erase_first P xs)"

definition removeDecoration :: "unique_id \<Rightarrow> saved_map \<Rightarrow> saved_map" where
  "removeDecoration key m = (case find (\<lambda>e. same_id (fst e) key) (decorations m) of
     None \<Rightarrow> m
   | Some e \<Rightarrow> (setDirtyForDecoration (snd e) m)\<lparr>decorations := erase_first (\<lambda>e. same_id (fst e) key) (decorations m)\<rparr>)"

definition removeTrackedMapEntity :: "unique_id \<Rightarrow> saved_map \<Rightarrow> saved_map" where
  "removeTrackedMapEntity key m = (case find (\<lambda>a. same_id (actor_id a) key) (tracked_entities m) of
     None \<Rightarrow> m
   | Some _ \<Rightarrow> (removeDecoration key m)\<lparr>tracked_entities := erase_first (\<lambda>a. same_id (actor_id a) key) (tracked_entities m)\<rparr>)"

subsection \<open>Cursors\<close>

record cursor =
  cursor_x :: "8 word"
  cursor_y :: "8 word"
  direction :: "8 word"
  visible :: bool
  caption :: string
  cursor_type :: int

text \<open>The constructor does not check the direction, \<open>setDirection\<close> does; its argument is a signed byte.\<close>

definition setDirection :: "8 word \<Rightarrow> cursor \<Rightarrow> unit + cursor" where
  "setDirection d c = (if \<not> (0 \<le> sint d \<and> sint d \<le> 15) then Inl () else Inr (c\<lparr>direction := d\<rparr>))"

subsection \<open>Canvases\<close>

text \<open>The pointer \<open>base_\<close> is not initialised by the constructor; when set it points to the buffer of an entry of the
  view's \<open>render_cache_\<close>.\<close>

datatype base_ptr = Uninitialised | Cached "64 word"

record canvas =
  buffer :: "32 word list"
  base :: base_ptr
  cursors :: "cursor list"

definition EndstoneMapCanvas :: canvas where
  "EndstoneMapCanvas = \<lparr>buffer = replicate (nat (MAP_SIZE * MAP_SIZE)) 0, base = Uninitialised, cursors = []\<rparr>"

definition getCursors :: "canvas \<Rightarrow> cursor list" where
  "getCursors c = cursors c"

definition setCursors :: "cursor list \<Rightarrow> canvas \<Rightarrow> canvas" where
  "setCursors cs c = c\<lparr>cursors := cs\<rparr>"

definition off_map :: "int \<Rightarrow> int \<Rightarrow> bool" where
  "off_map x y \<longleftrightarrow> x < 0 \<or> y < 0 \<or> x \<ge> MAP_SIZE \<or> y \<ge> MAP_SIZE"

definition setPixel :: "int \<Rightarrow> int \<Rightarrow> 32 word \<Rightarrow> canvas \<times> saved_map \<Rightarrow> map_error + canvas \<times> saved_map" where
  "setPixel x y n s = (let (c, m) = s; i = y * MAP_SIZE + x in
     if off_map x y then Inr (c, m)
     else chain (at (buffer c) i) (\<lambda>old.
       if old \<noteq> n then Inr (c\<lparr>buffer := (buffer c)[nat i := n]\<rparr>, setPixelDirty (word_of_int x) (word_of_int y) m)
       else Inr (c, m)))"

definition getPixel :: "int \<Rightarrow> int \<Rightarrow> canvas \<Rightarrow> map_error + 32 word" where
  "getPixel x y c = (if off_map x y then Inr 0 else at (buffer c) (y * MAP_SIZE + x))"

definition setPixelColor :: "int \<Rightarrow> int \<Rightarrow> color \<Rightarrow> canvas \<times> saved_map \<Rightarrow> map_error + canvas \<times> saved_map" where
  "setPixelColor x y c s = setPixel x y (asABGR c) s"

definition getPixelColor :: "int \<Rightarrow> int \<Rightarrow> canvas \<Rightarrow> map_error + color" where
  "getPixelColor x y c = chain (getPixel x y c) (\<lambda>n. Inr (fromABGR n))"

definition drawImage :: "int \<Rightarrow> int \<Rightarrow> image \<Rightarrow> canvas \<times> saved_map \<Rightarrow> map_error + canvas \<times> saved_map" where
  "drawImage x y im = fold_chain (\<lambda>xx. fold_chain (\<lambda>yy s.
     if \<not> is_int (x + xx) \<or> \<not> is_int (y + yy) then Inl (Image_Error Signed_Overflow)
     else chain (of_image (getColor xx yy im)) (\<lambda>c. setPixelColor (x + xx) (y + yy) c s))
       [0..height im - 1]) [0..width im - 1]"

subsection \<open>Views\<close>

record render_data =
  rendered :: "32 word list"
  shown_cursors :: "cursor list"

definition RenderData :: render_data where
  "RenderData = \<lparr>rendered = replicate (nat (MAP_SIZE * MAP_SIZE)) 0, shown_cursors = []\<rparr>"

text \<open>Renderers are shared pointers: the one each view makes for the game's pixels, or one of a plugin.\<close>

datatype renderer = Endstone_Renderer | Plugin_Renderer nat

record map_view =
  map_data :: saved_map
  renderers :: "renderer list"
  canvases :: "renderer \<rightharpoonup> (64 word \<rightharpoonup> canvas)"
  render_cache :: "64 word \<rightharpoonup> render_data"

definition getBasePixel :: "int \<Rightarrow> int \<Rightarrow> map_view \<Rightarrow> canvas \<Rightarrow> map_error + 32 word" where
  "getBasePixel x y v c = (case base c of
     Uninitialised \<Rightarrow> Inl Unset_Base
   | Cached k \<Rightarrow> (if off_map x y then Inr 0
       else case render_cache v k of None \<Rightarrow> Inl Dangling | Some rd \<Rightarrow> at (rendered rd) (y * MAP_SIZE + x)))"

definition getBasePixelColor :: "int \<Rightarrow> int \<Rightarrow> map_view \<Rightarrow> canvas \<Rightarrow> map_error + color" where
  "getBasePixelColor x y v c = chain (getBasePixel x y v c) (\<lambda>n. Inr (fromABGR n))"

text \<open>What a plugin's renderer does with the canvas it is given.\<close>

datatype canvas_op =
    Set_Pixel int int "32 word"
  | Set_Pixel_Color int int color
  | Draw_Image int int image
  | Set_Cursors "cursor list"

record plugin_code =
  contextual :: "nat \<Rightarrow> bool"
  paint :: "nat \<Rightarrow> 64 word \<Rightarrow> map_view \<Rightarrow> canvas \<Rightarrow> canvas_op list"

fun canvas_step :: "canvas_op \<Rightarrow> canvas \<times> saved_map \<Rightarrow> map_error + canvas \<times> saved_map" where
  "canvas_step (Set_Pixel x y n) s = setPixel x y n s"
| "canvas_step (Set_Pixel_Color x y c) s = setPixelColor x y c s"
| "canvas_step (Draw_Image x y im) s = drawImage x y im s"
| "canvas_step (Set_Cursors cs) s = Inr (setCursors cs (fst s), snd s)"

definition isEndstoneMapRenderer :: "renderer \<Rightarrow> bool" where
  "isEndstoneMapRenderer r \<longleftrightarrow> False"

fun renderer_contextual :: "plugin_code \<Rightarrow> renderer \<Rightarrow> bool" where
  "renderer_contextual p Endstone_Renderer = False"
| "renderer_contextual p (Plugin_Renderer n) = contextual p n"

definition INVALID_ID :: "64 word" where
  "INVALID_ID = - 1"

definition addRenderer :: "renderer \<Rightarrow> map_view \<Rightarrow> map_view" where
  "addRenderer r v = (if r \<in> set (renderers v) then v
     else v\<lparr>renderers := renderers v @ [r], canvases := (canvases v)(r \<mapsto> Map.empty)\<rparr>)"

definition removeRenderer :: "renderer \<Rightarrow> map_view \<Rightarrow> bool \<times> map_view" where
  "removeRenderer r v = (if r \<in> set (renderers v)
     then (True, v\<lparr>renderers := erase_first (\<lambda>q. q = r) (renderers v), canvases := (canvases v)(r := None)\<rparr>)
     else (False, v))"

definition EndstoneMapView :: "saved_map \<Rightarrow> map_view" where
  "EndstoneMapView m = addRenderer Endstone_Renderer
     \<lparr>map_data = m, renderers = [], canvases = Map.empty, render_cache = Map.empty\<rparr>"

definition getRenderers :: "map_view \<Rightarrow> renderer list" where
  "getRenderers v = renderers v"

definition isVirtual :: "map_view \<Rightarrow> bool" where
  "isVirtual v \<longleftrightarrow> renderers v \<noteq> [] \<and> \<not> isEndstoneMapRenderer (renderers v ! 0)"

definition view_isContextual :: "plugin_code \<Rightarrow> map_view \<Rightarrow> bool" where
  "view_isContextual p v \<longleftrightarrow> list_ex (renderer_contextual p) (renderers v)"

definition on_map :: "(saved_map \<Rightarrow> saved_map) \<Rightarrow> map_view \<Rightarrow> map_view" where
  "on_map f v = v\<lparr>map_data := f (map_data v)\<rparr>"

definition getMapId :: "map_view \<Rightarrow> 64 word" where
  "getMapId v = map_id (map_data v)"

definition getScale :: "map_view \<Rightarrow> 8 word" where
  "getScale v = word_of_int (map_getScale (map_data v))"

definition setScale :: "8 word \<Rightarrow> map_view \<Rightarrow> map_view" where
  "setScale s = on_map (map_setScale (uint s))"

definition setCenterX :: "int \<Rightarrow> map_view \<Rightarrow> map_view" where
  "setCenterX x = on_map (\<lambda>m. if origin_x m \<noteq> x then setDirtyForSaveAndPixelData (m\<lparr>origin_x := x\<rparr>) else m)"

definition setCenterZ :: "int \<Rightarrow> map_view \<Rightarrow> map_view" where
  "setCenterZ z = on_map (\<lambda>m. if origin_z m \<noteq> z then setDirtyForSaveAndPixelData (m\<lparr>origin_z := z\<rparr>) else m)"

definition setDimension :: "int \<Rightarrow> map_view \<Rightarrow> map_view" where
  "setDimension d = on_map (setDimensionId d)"

definition setUnlimitedTracking :: "bool \<Rightarrow> map_view \<Rightarrow> map_view" where
  "setUnlimitedTracking b = on_map (\<lambda>m. if unlimited_tracking m \<noteq> b then m\<lparr>unlimited_tracking := b\<rparr> else m)"

definition setLocked :: "bool \<Rightarrow> map_view \<Rightarrow> map_view" where
  "setLocked b = on_map (\<lambda>m. if locked m \<noteq> b then m\<lparr>locked := b\<rparr> else m)"

subsection \<open>Rendering\<close>

definition draw_pixels :: "canvas \<times> saved_map \<Rightarrow> map_error + canvas \<times> saved_map" where
  "draw_pixels = fold_chain (\<lambda>x. fold_chain (\<lambda>y s.
     chain (at (pixels (snd s)) (y * MAP_SIZE + x)) (\<lambda>n. setPixel x y n s)) [0..MAP_SIZE - 1]) [0..MAP_SIZE - 1]"

definition cursor_of :: "decoration \<Rightarrow> cursor" where
  "cursor_of d = \<lparr>cursor_x = dec_x d, cursor_y = dec_y d, direction = rot d, visible = True, caption = label d,
     cursor_type = sint (img d)\<rparr>"

definition player_cursors :: "64 word \<Rightarrow> saved_map \<Rightarrow> cursor list" where
  "player_cursors player m =
     map (cursor_of \<circ> snd) (filter (\<lambda>e. key_entity_id (fst e) = player) (decorations m))"

definition endstone_render :: "64 word \<Rightarrow> canvas \<times> saved_map \<Rightarrow> map_error + canvas \<times> saved_map" where
  "endstone_render player s = chain (draw_pixels s) (\<lambda>(c, m). Inr (setCursors (player_cursors player m) c, m))"

text \<open>A renderer that throws has done a part of its work, which is then the list \<open>paint\<close> gives; the error is logged.\<close>

fun run_renderer :: "plugin_code \<Rightarrow> 64 word \<Rightarrow> map_view \<Rightarrow> renderer \<Rightarrow> canvas \<Rightarrow> map_error + canvas \<times> saved_map" where
  "run_renderer p player v Endstone_Renderer c = endstone_render player (c, map_data v)"
| "run_renderer p player v (Plugin_Renderer n) c = fold_chain canvas_step (paint p n player v c) (c, map_data v)"

definition render_one :: "plugin_code \<Rightarrow> 64 word \<Rightarrow> 64 word \<Rightarrow> renderer \<Rightarrow> map_view \<Rightarrow> map_error + map_view" where
  "render_one p player uid r v = (case (canvases v r, render_cache v uid) of
     (None, _) \<Rightarrow> Inl Out_Of_Range
   | (_, None) \<Rightarrow> Inl Dangling
   | (Some cs, Some rd) \<Rightarrow>
       let key = (if renderer_contextual p r then player else INVALID_ID);
           c = (case cs key of Some c \<Rightarrow> c | None \<Rightarrow> EndstoneMapCanvas)\<lparr>base := Cached uid\<rparr> in
       chain (run_renderer p player (v\<lparr>canvases := (canvases v)(r \<mapsto> cs(key \<mapsto> c))\<rparr>) r c) (\<lambda>(c', m').
         Inr (v\<lparr>map_data := m', canvases := (canvases v)(r \<mapsto> cs(key \<mapsto> c')),
           render_cache := (render_cache v)(uid \<mapsto>
             \<lparr>rendered = buffer c', shown_cursors = shown_cursors rd @ getCursors c'\<rparr>)\<rparr>)))"

definition prepare_cache :: "bool \<Rightarrow> 64 word \<Rightarrow> map_view \<Rightarrow> map_error + map_view" where
  "prepare_cache context uid v =
     (let cache = (case render_cache v uid of None \<Rightarrow> (render_cache v)(uid \<mapsto> RenderData) | Some _ \<Rightarrow> render_cache v);
          cache = (if context then cache(INVALID_ID := None) else cache) in
      case cache uid of
        None \<Rightarrow> Inl Dangling
      | Some rd \<Rightarrow> Inr (v\<lparr>render_cache := cache(uid \<mapsto> \<lparr>rendered = map (\<lambda>_. 0) (rendered rd), shown_cursors = []\<rparr>)\<rparr>))"

definition render :: "plugin_code \<Rightarrow> 64 word \<Rightarrow> map_view \<Rightarrow> map_error + render_data \<times> map_view" where
  "render p player v =
     (let context = view_isContextual p v; uid = (if context then player else INVALID_ID) in
      chain (prepare_cache context uid v) (\<lambda>v1. chain (fold_chain (render_one p player uid) (renderers v1) v1) (\<lambda>v2.
        case render_cache v2 uid of None \<Rightarrow> Inl Dangling | Some rd \<Rightarrow> Inr (rd, v2))))"

subsection \<open>What drawing changes\<close>

definition canvas_ok :: "canvas \<Rightarrow> bool" where
  "canvas_ok c \<longleftrightarrow> length (buffer c) = nat (MAP_SIZE * MAP_SIZE)"

definition pix :: "int \<Rightarrow> int \<Rightarrow> canvas \<Rightarrow> 32 word" where
  "pix x y c = buffer c ! nat (y * MAP_SIZE + x)"

definition covers :: "int \<Rightarrow> int \<Rightarrow> tracked_actor \<Rightarrow> bool" where
  "covers x y a \<longleftrightarrow> needs_resend a \<and> min_dirty_x a \<le> word_of_int x \<and> word_of_int x \<le> max_dirty_x a \<and>
     min_dirty_y a \<le> word_of_int y \<and> word_of_int y \<le> max_dirty_y a"

text \<open>The map is as before, but for dirty rectangles that may have grown.\<close>

definition only_grown :: "saved_map \<Rightarrow> saved_map \<Rightarrow> bool" where
  "only_grown m m' \<longleftrightarrow> m' = m\<lparr>tracked_entities := tracked_entities m'\<rparr> \<and>
     list_all2 (\<lambda>a a'. actor_id a' = actor_id a \<and> (\<forall>x y. covers x y a \<longrightarrow> covers x y a')) (tracked_entities m) (tracked_entities m')"

text \<open>Drawing sets the pixels of \<open>D\<close> to the values of \<open>g\<close>, nothing else, and marks what it changed.\<close>

definition draws :: "(int \<times> int) set \<Rightarrow> (int \<Rightarrow> int \<Rightarrow> 32 word) \<Rightarrow> canvas \<times> saved_map \<Rightarrow> canvas \<times> saved_map \<Rightarrow> bool" where
  "draws D g s s' \<longleftrightarrow> canvas_ok (fst s') \<and> base (fst s') = base (fst s) \<and> cursors (fst s') = cursors (fst s) \<and>
     only_grown (snd s) (snd s') \<and>
     (\<forall>x y. \<not> off_map x y \<longrightarrow> pix x y (fst s') = (if (x, y) \<in> D then g x y else pix x y (fst s)) \<and>
        (pix x y (fst s') \<noteq> pix x y (fst s) \<longrightarrow> list_all (covers x y) (tracked_entities (snd s'))))"

lemma map_index:
  assumes "\<not> off_map x y"
  shows "0 \<le> y * MAP_SIZE + x" "y * MAP_SIZE + x < MAP_SIZE * MAP_SIZE"
  using assms by (auto simp: off_map_def MAP_SIZE_def)

lemma map_index_inject:
  assumes "\<not> off_map x y" "\<not> off_map x' y'"
  shows "nat (y * MAP_SIZE + x) = nat (y' * MAP_SIZE + x') \<longleftrightarrow> x = x' \<and> y = y'"
proof -
  have "nat (y * 128 + x) = nat (y' * 128 + x') \<longleftrightarrow> y * 128 + x = y' * 128 + x'"
    using assms by (auto simp: off_map_def MAP_SIZE_def eq_nat_nat_iff)
  also have "\<dots> \<longleftrightarrow> x = x' \<and> y = y'"
  proof
    assume e: "y * 128 + x = y' * 128 + x'"
    have "(x + y * 128) div 128 = y" "(x' + y' * 128) div 128 = y'" using assms by (auto simp: off_map_def MAP_SIZE_def)
    with e have "y = y'" by (simp add: add.commute)
    with e show "x = x' \<and> y = y'" by simp
  qed simp
  finally show ?thesis by (simp add: MAP_SIZE_def)
qed

lemma at_buffer: "canvas_ok c \<Longrightarrow> \<not> off_map x y \<Longrightarrow> at (buffer c) (y * MAP_SIZE + x) = Inr (pix x y c)"
  using map_index [of x y] by (simp add: at_def canvas_ok_def pix_def)

lemma getPixel_ok: "canvas_ok c \<Longrightarrow> getPixel x y c = Inr (if off_map x y then 0 else pix x y c)"
  by (simp add: getPixel_def at_buffer)

lemma only_grown_refl [simp]: "only_grown m m"
  by (simp add: only_grown_def list_all2_refl)

lemma only_grown_trans:
  assumes "only_grown m m'" "only_grown m' m''"
  shows "only_grown m m''"
proof -
  let ?P = "\<lambda>a a'. actor_id a' = actor_id a \<and> (\<forall>x y. covers x y a \<longrightarrow> covers x y a')"
  have "list_all2 ?P (tracked_entities m) (tracked_entities m')" "list_all2 ?P (tracked_entities m') (tracked_entities m'')"
    using assms by (simp_all only: only_grown_def)
  then have "list_all2 ?P (tracked_entities m) (tracked_entities m'')" by (rule list_all2_trans [rotated]) auto
  moreover have "m'' = m\<lparr>tracked_entities := tracked_entities m''\<rparr>"
  proof -
    have "m' = m\<lparr>tracked_entities := tracked_entities m'\<rparr>" "m'' = m'\<lparr>tracked_entities := tracked_entities m''\<rparr>"
      using assms by (simp_all only: only_grown_def)
    then have "m'' = m\<lparr>tracked_entities := tracked_entities m'\<rparr>\<lparr>tracked_entities := tracked_entities m''\<rparr>" by metis
    then show ?thesis by simp
  qed
  ultimately show ?thesis by (simp only: only_grown_def)
qed

lemma covers_grown:
  "only_grown m m' \<Longrightarrow> list_all (covers x y) (tracked_entities m) \<Longrightarrow> list_all (covers x y) (tracked_entities m')"
  unfolding only_grown_def list_all_length list_all2_conv_all_nth by auto

lemma draws_refl: "canvas_ok (fst s) \<Longrightarrow> draws {} g s s"
  by (simp add: draws_def)

lemma draws_trans: "draws D g s s' \<Longrightarrow> draws E g s' s'' \<Longrightarrow> draws (D \<union> E) g s s''"
  unfolding draws_def
  by (elim conjE, intro conjI allI impI) (simp_all add: only_grown_trans, metis covers_grown)

lemma draws_ok: "draws D g s s' \<Longrightarrow> canvas_ok (fst s')"
  by (simp add: draws_def)

lemma grown_dirty: "only_grown m (setPixelDirty x y m)"
proof -
  have "covers px py (actor_setPixelDirty x y a)" if "covers px py a" for px py a
    using that by (auto simp: covers_def actor_setPixelDirty_def min_def max_def)
  moreover have "actor_id (actor_setPixelDirty x y a) = actor_id a" for a by (simp add: actor_setPixelDirty_def)
  ultimately show ?thesis
    by (simp add: only_grown_def setPixelDirty_def list_all2_conv_all_nth)
qed

lemma covers_dirty: "list_all (covers x y) (tracked_entities (setPixelDirty (word_of_int x) (word_of_int y) m))"
  by (auto simp: setPixelDirty_def list_all_iff covers_def actor_setPixelDirty_def)

lemma setPixel_draws:
  assumes "canvas_ok (fst s)" "g x y = n"
  obtains s' where "setPixel x y n s = Inr s'" "draws {(x, y)} g s s'"
proof -
  obtain c m where s: "s = (c, m)" by (cases s)
  have c: "canvas_ok c" using assms by (simp add: s)
  consider "off_map x y" | "\<not> off_map x y" "pix x y c = n" | "\<not> off_map x y" "pix x y c \<noteq> n" by blast
  then show thesis
  proof cases
    case 1
    then show ?thesis by (intro that [of s]) (auto simp: s setPixel_def draws_def c)
  next
    case 2
    with assms show ?thesis by (intro that [of s]) (auto simp: s setPixel_def Let_def at_buffer draws_def c)
  next
    case 3
    let ?c = "c\<lparr>buffer := (buffer c)[nat (y * MAP_SIZE + x) := n]\<rparr>"
    have i: "nat (y * MAP_SIZE + x) < length (buffer c)" using map_index [OF 3(1)] c by (simp add: canvas_ok_def)
    have p: "pix px py ?c = (if px = x \<and> py = y then n else pix px py c)" if "\<not> off_map px py" for px py
      using i map_index_inject [OF 3(1) that] by (auto simp: pix_def nth_list_update)
    show ?thesis
      by (rule that [of "(?c, setPixelDirty (word_of_int x) (word_of_int y) m)"])
        (use 3 assms c in \<open>auto simp: s setPixel_def Let_def at_buffer draws_def p canvas_ok_def grown_dirty covers_dirty\<close>)
  qed
qed

text \<open>A loop of drawing steps that agree on the values draws the union of what they draw.\<close>

lemma fold_draws:
  assumes "\<And>i s. i \<in> set is \<Longrightarrow> canvas_ok (fst s) \<Longrightarrow> only_grown (snd start) (snd s) \<Longrightarrow> \<exists>s'. f i s = Inr s' \<and> draws (D i) g s s'"
    and "canvas_ok (fst s)" "only_grown (snd start) (snd s)"
  shows "\<exists>s'. fold_chain f is s = Inr s' \<and> draws (\<Union>i\<in>set is. D i) g s s'"
  using assms
proof (induction "is" arbitrary: s)
  case Nil
  then show ?case by (auto intro: draws_refl)
next
  case (Cons i "is")
  have "\<exists>s1. f i s = Inr s1 \<and> draws (D i) g s s1"
    by (rule Cons.prems(1) [OF _ Cons.prems(2,3)]) simp
  then obtain s1 where s1: "f i s = Inr s1" "draws (D i) g s s1" by metis
  have "only_grown (snd start) (snd s1)" using s1(2) Cons.prems(3) only_grown_trans by (auto simp: draws_def)
  with Cons.IH [of s1] Cons.prems(1) draws_ok [OF s1(2)]
  obtain s2 where "fold_chain f is s1 = Inr s2" "draws (\<Union>i\<in>set is. D i) g s1 s2" by auto
  then show ?case using s1 draws_trans by fastforce
qed

lemma drawImage_draws:
  assumes "canvas_ok (fst s)" "image_ok im" "is_int x" "is_int y" "is_int (x + width im)" "is_int (y + height im)"
  defines "g \<equiv> \<lambda>px py. asABGR (pixel (px - x) (py - y) im)"
  shows "\<exists>s'. drawImage x y im s = Inr s' \<and> draws {(px, py). inside (px - x) (py - y) im} g s s'"
proof -
  have step: "\<exists>s'. (if \<not> is_int (x + xx) \<or> \<not> is_int (y + yy) then Inl (Image_Error Signed_Overflow)
       else chain (of_image (getColor xx yy im)) (\<lambda>c. setPixelColor (x + xx) (y + yy) c s)) = Inr s' \<and>
       draws {(x + xx, y + yy)} g s s'"
    if "xx \<in> set [0..width im - 1]" "yy \<in> set [0..height im - 1]" "canvas_ok (fst s)" for xx yy s
  proof -
    have "inside xx yy im" using that by (auto simp: inside_def)
    moreover have "is_int (x + xx)" "is_int (y + yy)" using that assms(3-6) by (auto simp: is_int_def)
    moreover have "g (x + xx) (y + yy) = asABGR (pixel xx yy im)" by (simp add: g_def)
    moreover have "\<exists>s'. setPixel (x + xx) (y + yy) (g (x + xx) (y + yy)) s = Inr s' \<and> draws {(x + xx, y + yy)} g s s'"
      using setPixel_draws [OF that(3), of g "x + xx" "y + yy" "g (x + xx) (y + yy)"] by metis
    ultimately show ?thesis using assms(2) by (simp add: getColor_inside setPixelColor_def)
  qed
  have row: "\<exists>s'. fold_chain (\<lambda>yy s. if \<not> is_int (x + xx) \<or> \<not> is_int (y + yy) then Inl (Image_Error Signed_Overflow)
       else chain (of_image (getColor xx yy im)) (\<lambda>c. setPixelColor (x + xx) (y + yy) c s)) [0..height im - 1] s = Inr s' \<and>
       draws (\<Union>yy\<in>set [0..height im - 1]. {(x + xx, y + yy)}) g s s'"
    if "xx \<in> set [0..width im - 1]" "canvas_ok (fst s)" for xx s
    by (rule fold_draws [where start = s]) (use that step in auto)
  have "\<exists>s'. drawImage x y im s = Inr s' \<and>
     draws (\<Union>xx\<in>set [0..width im - 1]. \<Union>yy\<in>set [0..height im - 1]. {(x + xx, y + yy)}) g s s'"
    unfolding drawImage_def by (rule fold_draws [where start = s]) (use assms(1) row in auto)
  moreover have "(\<Union>xx\<in>set [0..width im - 1]. \<Union>yy\<in>set [0..height im - 1]. {(x + xx, y + yy)})
     = {(px, py). inside (px - x) (py - y) im}"
    (is "?U = ?I")
  proof (rule set_eqI, rule prod.induct)
    fix px py
    have "(px, py) \<in> ?U" if "(px, py) \<in> ?I"
    proof -
      have "px - x \<in> set [0..width im - 1]" "py - y \<in> set [0..height im - 1]" using that by (auto simp: inside_def)
      moreover have "(px, py) \<in> {(x + (px - x), y + (py - y))}" by simp
      ultimately show ?thesis by blast
    qed
    then show "(px, py) \<in> ?U \<longleftrightarrow> (px, py) \<in> ?I" by (auto simp: inside_def)
  qed
  ultimately show ?thesis by simp
qed

text \<open>C22: Drawing an image is safe and clips: for every position from which the image's far corner is still a machine
  integer, no access leaves the image or the canvas, exactly the pixels of the map that the image covers get its colours,
  and every pixel that changes lies in the dirty rectangle of every tracked entity.\<close>

theorem drawImage_clips:
  assumes "canvas_ok c" "image_ok im" "is_int x" "is_int y" "is_int (x + width im)" "is_int (y + height im)"
  shows "\<exists>c' m'. drawImage x y im (c, m) = Inr (c', m') \<and> canvas_ok c' \<and>
    (\<forall>px py. getPixelColor px py c' =
       (if \<not> off_map px py \<and> inside (px - x) (py - y) im then of_image (getColor (px - x) (py - y) im) else getPixelColor px py c)) \<and>
    (\<forall>px py. getPixel px py c' \<noteq> getPixel px py c \<longrightarrow> list_all (covers px py) (tracked_entities m'))"
proof -
  obtain c' m' where d: "drawImage x y im (c, m) = Inr (c', m')"
    "draws {(px, py). inside (px - x) (py - y) im} (\<lambda>px py. asABGR (pixel (px - x) (py - y) im)) (c, m) (c', m')"
    using drawImage_draws [of "(c, m)" im x y] assms by auto
  then have "canvas_ok c'" by (simp add: draws_def)
  with d assms(1,2) show ?thesis
    by (auto simp: draws_def getPixelColor_def getPixel_ok getColor_inside from_as_ABGR split: if_splits)
qed

subsection \<open>What a rendering shows\<close>

definition view_ok :: "map_view \<Rightarrow> bool" where
  "view_ok v \<longleftrightarrow> length (pixels (map_data v)) = nat (MAP_SIZE * MAP_SIZE) \<and> distinct (renderers v) \<and>
     set (renderers v) \<subseteq> dom (canvases v) \<and>
     (\<forall>r cs k c. canvases v r = Some cs \<longrightarrow> cs k = Some c \<longrightarrow> canvas_ok c) \<and>
     (\<forall>k rd. render_cache v k = Some rd \<longrightarrow> length (rendered rd) = nat (MAP_SIZE * MAP_SIZE))"

text \<open>The images a plugin draws are well formed, and their corners are machine integers.\<close>

fun op_ok :: "canvas_op \<Rightarrow> bool" where
  "op_ok (Draw_Image x y im) \<longleftrightarrow> image_ok im \<and> is_int x \<and> is_int y \<and> is_int (x + width im) \<and> is_int (y + height im)"
| "op_ok _ \<longleftrightarrow> True"

definition paint_ok :: "plugin_code \<Rightarrow> bool" where
  "paint_ok p \<longleftrightarrow> (\<forall>n player v c. list_all op_ok (paint p n player v c))"

lemma draws_keep: "draws D g s s' \<Longrightarrow> canvas_ok (fst s') \<and> only_grown (snd s) (snd s')"
  by (simp add: draws_def)

lemma setPixel_ok:
  "canvas_ok (fst s) \<Longrightarrow> \<exists>s'. setPixel x y n s = Inr s' \<and> canvas_ok (fst s') \<and> only_grown (snd s) (snd s')"
  using setPixel_draws [of s "\<lambda>_ _. n" x y n] draws_keep by metis

lemma canvas_step_ok:
  assumes "op_ok op" "canvas_ok (fst s)"
  shows "\<exists>s'. canvas_step op s = Inr s' \<and> canvas_ok (fst s') \<and> only_grown (snd s) (snd s')"
proof (cases op)
  case (Set_Pixel x y n)
  then show ?thesis using setPixel_ok [OF assms(2), of x y n] by simp
next
  case (Set_Pixel_Color x y c)
  then show ?thesis using setPixel_ok [OF assms(2), of x y "asABGR c"] by (simp add: setPixelColor_def)
next
  case (Draw_Image x y im)
  then obtain s' where "drawImage x y im s = Inr s'" "canvas_ok (fst s')" "only_grown (snd s) (snd s')"
    using drawImage_draws [OF assms(2), of im x y] draws_keep assms(1) by (metis op_ok.simps(1))
  then show ?thesis by (simp add: Draw_Image)
next
  case (Set_Cursors cs)
  then show ?thesis using assms by (simp add: setCursors_def canvas_ok_def)
qed

lemma canvas_steps_ok:
  "list_all op_ok ops \<Longrightarrow> canvas_ok (fst s) \<Longrightarrow>
    \<exists>s'. fold_chain canvas_step ops s = Inr s' \<and> canvas_ok (fst s') \<and> only_grown (snd s) (snd s')"
proof (induction ops arbitrary: s)
  case (Cons op ops)
  then obtain s1 where "canvas_step op s = Inr s1" "canvas_ok (fst s1)" "only_grown (snd s) (snd s1)"
    using canvas_step_ok [of op s] by auto
  with Cons.IH [of s1] Cons.prems show ?case using only_grown_trans by fastforce
qed simp

definition all_points :: "(int \<times> int) set" where
  "all_points = {(x, y). \<not> off_map x y}"

lemma grown_fields:
  assumes "only_grown m m'"
  shows "pixels m' = pixels m" "decorations m' = decorations m"
proof -
  have "m' = m\<lparr>tracked_entities := tracked_entities m'\<rparr>" using assms by (simp add: only_grown_def)
  then have "pixels m' = pixels (m\<lparr>tracked_entities := tracked_entities m'\<rparr>)"
    "decorations m' = decorations (m\<lparr>tracked_entities := tracked_entities m'\<rparr>)" by (metis, metis)
  then show "pixels m' = pixels m" "decorations m' = decorations m" by simp_all
qed

lemma draw_pixels_draws:
  assumes "canvas_ok (fst s)" "length (pixels (snd s)) = nat (MAP_SIZE * MAP_SIZE)"
  defines "g \<equiv> \<lambda>x y. pixels (snd s) ! nat (y * MAP_SIZE + x)"
  shows "\<exists>s'. draw_pixels s = Inr s' \<and> draws all_points g s s'"
proof -
  have step: "\<exists>s'. chain (at (pixels (snd s1)) (y * MAP_SIZE + x)) (\<lambda>n. setPixel x y n s1) = Inr s' \<and> draws {(x, y)} g s1 s'"
    if "x \<in> set [0..MAP_SIZE - 1]" "y \<in> set [0..MAP_SIZE - 1]" "canvas_ok (fst s1)" "only_grown (snd s) (snd s1)" for x y s1
  proof -
    have "\<not> off_map x y" using that by (auto simp: off_map_def)
    then have "at (pixels (snd s1)) (y * MAP_SIZE + x) = Inr (g x y)"
      using map_index [of x y] assms(2) grown_fields [OF that(4)] by (simp add: at_def g_def)
    moreover have "\<exists>s'. setPixel x y (g x y) s1 = Inr s' \<and> draws {(x, y)} g s1 s'"
      using setPixel_draws [OF that(3), of g x y "g x y"] by metis
    ultimately show ?thesis by simp
  qed
  have row: "\<exists>s'. fold_chain (\<lambda>y s. chain (at (pixels (snd s)) (y * MAP_SIZE + x)) (\<lambda>n. setPixel x y n s)) [0..MAP_SIZE - 1] s1 = Inr s' \<and>
      draws (\<Union>y\<in>set [0..MAP_SIZE - 1]. {(x, y)}) g s1 s'"
    if "x \<in> set [0..MAP_SIZE - 1]" "canvas_ok (fst s1)" "only_grown (snd s) (snd s1)" for x s1
    by (rule fold_draws [where start = s]) (use that step in auto)
  have "\<exists>s'. draw_pixels s = Inr s' \<and> draws (\<Union>x\<in>set [0..MAP_SIZE - 1]. \<Union>y\<in>set [0..MAP_SIZE - 1]. {(x, y)}) g s s'"
    unfolding draw_pixels_def by (rule fold_draws [where start = s]) (use assms(1) row in auto)
  moreover have "(\<Union>x\<in>set [0..MAP_SIZE - 1]. \<Union>y\<in>set [0..MAP_SIZE - 1]. {(x, y)}) = all_points"
    by (auto simp: all_points_def off_map_def)
  ultimately show ?thesis by simp
qed

lemma buffer_pixels:
  assumes "canvas_ok c" "length px = nat (MAP_SIZE * MAP_SIZE)" "\<And>x y. \<not> off_map x y \<Longrightarrow> pix x y c = px ! nat (y * MAP_SIZE + x)"
  shows "buffer c = px"
proof (rule nth_equalityI)
  show "length (buffer c) = length px" using assms by (simp add: canvas_ok_def)
  fix i assume i: "i < length (buffer c)"
  have "\<not> off_map (int i mod 128) (int i div 128)" using i assms(1) by (auto simp: off_map_def canvas_ok_def MAP_SIZE_def)
  from assms(3) [OF this] show "buffer c ! i = px ! i" by (simp add: pix_def MAP_SIZE_def)
qed

lemma endstone_render_ok:
  assumes "canvas_ok c" "length (pixels m) = nat (MAP_SIZE * MAP_SIZE)"
  shows "\<exists>c' m'. endstone_render player (c, m) = Inr (c', m') \<and> canvas_ok c' \<and> only_grown m m' \<and>
    buffer c' = pixels m \<and> cursors c' = player_cursors player m"
proof -
  obtain c1 m1 where d: "draw_pixels (c, m) = Inr (c1, m1)" "draws all_points (\<lambda>x y. pixels m ! nat (y * MAP_SIZE + x)) (c, m) (c1, m1)"
    using draw_pixels_draws [of "(c, m)"] assms by auto
  then have c1: "canvas_ok c1" "only_grown m m1" by (simp_all add: draws_def)
  have "buffer c1 = pixels m"
    by (rule buffer_pixels [OF c1(1) assms(2)]) (use d(2) in \<open>auto simp: draws_def all_points_def\<close>)
  then show ?thesis
    using d(1) c1 grown_fields [OF c1(2)] by (auto simp: endstone_render_def setCursors_def canvas_ok_def player_cursors_def)
qed

lemma run_renderer_ok:
  assumes "paint_ok p" "canvas_ok c" "length (pixels (map_data v)) = nat (MAP_SIZE * MAP_SIZE)"
  shows "\<exists>c' m'. run_renderer p player v r c = Inr (c', m') \<and> canvas_ok c' \<and> only_grown (map_data v) m'"
proof (cases r)
  case Endstone_Renderer
  then show ?thesis using endstone_render_ok [OF assms(2,3), of player] by auto
next
  case (Plugin_Renderer n)
  then show ?thesis using canvas_steps_ok [of "paint p n player v c" "(c, map_data v)"] assms by (auto simp: paint_ok_def)
qed

definition canvas_key :: "plugin_code \<Rightarrow> 64 word \<Rightarrow> renderer \<Rightarrow> 64 word" where
  "canvas_key p player r = (if renderer_contextual p r then player else INVALID_ID)"

definition canvas_of :: "plugin_code \<Rightarrow> 64 word \<Rightarrow> map_view \<Rightarrow> renderer \<Rightarrow> canvas" where
  "canvas_of p player v r = the (the (canvases v r) (canvas_key p player r))"

definition cached :: "64 word \<Rightarrow> map_view \<Rightarrow> render_data" where
  "cached uid v = the (render_cache v uid)"

lemma EndstoneMapCanvas_ok [simp]: "canvas_ok EndstoneMapCanvas"
  by (simp add: canvas_ok_def EndstoneMapCanvas_def)

text \<open>What one turn of the loop over the renderers does to the view.\<close>

definition turn :: "plugin_code \<Rightarrow> 64 word \<Rightarrow> 64 word \<Rightarrow> renderer \<Rightarrow> map_view \<Rightarrow> map_view \<Rightarrow> bool" where
  "turn p player uid r v v' \<longleftrightarrow> view_ok v' \<and> renderers v' = renderers v \<and> only_grown (map_data v) (map_data v') \<and>
     (\<forall>q. q \<noteq> r \<longrightarrow> canvases v' q = canvases v q) \<and> uid \<in> dom (render_cache v') \<and>
     rendered (cached uid v') = buffer (canvas_of p player v' r) \<and>
     shown_cursors (cached uid v') = shown_cursors (cached uid v) @ cursors (canvas_of p player v' r)"

lemma render_one_ok:
  assumes "view_ok v" "paint_ok p" "r \<in> set (renderers v)" "uid \<in> dom (render_cache v)"
  obtains v' where "render_one p player uid r v = Inr v'" "turn p player uid r v v'"
proof -
  obtain cs rd where o: "canvases v r = Some cs" "render_cache v uid = Some rd" using assms by (auto simp: view_ok_def)
  let ?key = "canvas_key p player r"
  let ?c = "(case cs ?key of Some c \<Rightarrow> c | None \<Rightarrow> EndstoneMapCanvas)\<lparr>base := Cached uid\<rparr>"
  let ?v = "v\<lparr>canvases := (canvases v)(r \<mapsto> cs(?key \<mapsto> ?c))\<rparr>"
  have c: "canvas_ok ?c"
  proof (cases "cs ?key")
    case None
    then show ?thesis by (simp add: canvas_ok_def EndstoneMapCanvas_def)
  next
    case (Some c)
    with assms(1) o(1) have "canvas_ok c" by (simp add: view_ok_def)
    with Some show ?thesis by (simp add: canvas_ok_def)
  qed
  obtain c' m' where r: "run_renderer p player ?v r ?c = Inr (c', m')" "canvas_ok c'" "only_grown (map_data v) m'"
    using run_renderer_ok [OF assms(2) c, of ?v player r] assms(1) by (auto simp: view_ok_def)
  let ?w = "v\<lparr>map_data := m', canvases := (canvases v)(r \<mapsto> cs(?key \<mapsto> c')),
    render_cache := (render_cache v)(uid \<mapsto> \<lparr>rendered = buffer c', shown_cursors = shown_cursors rd @ getCursors c'\<rparr>)\<rparr>"
  have "render_one p player uid r v = Inr ?w"
    using o r(1) by (simp add: render_one_def canvas_key_def Let_def)
  moreover have "view_ok ?w"
    using assms(1) r(2) grown_fields [OF r(3)] o(1) by (auto simp: view_ok_def canvas_ok_def split: if_splits)
  then have "turn p player uid r v ?w"
    using r(3) o by (simp add: turn_def canvas_of_def cached_def getCursors_def)
  ultimately show thesis by (rule that)
qed

text \<open>The loop over the renderers.\<close>

definition turns :: "plugin_code \<Rightarrow> 64 word \<Rightarrow> 64 word \<Rightarrow> renderer list \<Rightarrow> map_view \<Rightarrow> map_view \<Rightarrow> bool" where
  "turns p player uid rs v v' \<longleftrightarrow> view_ok v' \<and> renderers v' = renderers v \<and> only_grown (map_data v) (map_data v') \<and>
     uid \<in> dom (render_cache v') \<and> (\<forall>q. q \<notin> set rs \<longrightarrow> canvases v' q = canvases v q) \<and>
     rendered (cached uid v') = (if rs = [] then rendered (cached uid v) else buffer (canvas_of p player v' (last rs))) \<and>
     shown_cursors (cached uid v') = shown_cursors (cached uid v) @ concat (map (cursors \<circ> canvas_of p player v') rs)"

lemma turns_Cons:
  assumes "turn p player uid r v v1" "turns p player uid rs v1 v2" "r \<notin> set rs"
  shows "turns p player uid (r # rs) v v2"
proof -
  have "canvas_of p player v2 r = canvas_of p player v1 r" using assms(2,3) by (simp add: canvas_of_def turns_def)
  moreover have "only_grown (map_data v) (map_data v2)"
    using assms only_grown_trans unfolding turn_def turns_def by blast
  ultimately show ?thesis using assms by (simp add: turn_def turns_def)
qed

lemma fold_turns:
  assumes "paint_ok p" "view_ok v" "set rs \<subseteq> set (renderers v)" "distinct rs" "uid \<in> dom (render_cache v)"
  shows "\<exists>v'. fold_chain (render_one p player uid) rs v = Inr v' \<and> turns p player uid rs v v'"
  using assms
proof (induction rs arbitrary: v)
  case (Cons r rs)
  have r: "r \<in> set (renderers v)" "set rs \<subseteq> set (renderers v)" "r \<notin> set rs" "distinct rs" using Cons.prems by auto
  obtain v1 where v1: "render_one p player uid r v = Inr v1" "turn p player uid r v v1"
    using render_one_ok [OF Cons.prems(2) assms(1) r(1) Cons.prems(5)] by metis
  then have t: "view_ok v1" "set rs \<subseteq> set (renderers v1)" "uid \<in> dom (render_cache v1)" using r(2) by (simp_all add: turn_def)
  from Cons.IH [OF assms(1) t(1,2) r(4) t(3)]
  obtain v2 where "fold_chain (render_one p player uid) rs v1 = Inr v2" "turns p player uid rs v1 v2" by auto
  with v1 turns_Cons [OF v1(2) _ r(3)] show ?case by auto
qed (simp add: turns_def)

lemma prepare_cache_ok:
  assumes "view_ok v" "context \<longrightarrow> uid \<noteq> INVALID_ID"
  shows "\<exists>v'. prepare_cache context uid v = Inr v' \<and> view_ok v' \<and> renderers v' = renderers v \<and> map_data v' = map_data v \<and>
    canvases v' = canvases v \<and> render_cache v' uid = Some \<lparr>rendered = replicate (nat (MAP_SIZE * MAP_SIZE)) 0, shown_cursors = []\<rparr>"
proof -
  let ?ca = "case render_cache v uid of None \<Rightarrow> (render_cache v)(uid \<mapsto> RenderData) | Some _ \<Rightarrow> render_cache v"
  let ?cb = "if context then ?ca(INVALID_ID := None) else ?ca"
  have "\<exists>rd. ?cb uid = Some rd" using assms(2) by (auto split: option.split)
  then obtain rd where rd: "?cb uid = Some rd" by auto
  have len: "length (rendered d) = nat (MAP_SIZE * MAP_SIZE)" if "?cb k = Some d" for k d
  proof -
    from that have "render_cache v k = Some d \<or> d = RenderData" by (auto split: if_splits option.splits)
    with assms(1) show ?thesis by (auto simp: view_ok_def RenderData_def)
  qed
  have z: "map (\<lambda>_. 0) (rendered rd) = replicate (nat (MAP_SIZE * MAP_SIZE)) (0 :: 32 word)"
    using len [OF rd] by (simp add: map_replicate_const)
  let ?v = "v\<lparr>render_cache := ?cb(uid \<mapsto> \<lparr>rendered = replicate (nat (MAP_SIZE * MAP_SIZE)) 0, shown_cursors = []\<rparr>)\<rparr>"
  have "prepare_cache context uid v = Inr ?v"
    unfolding prepare_cache_def Let_def rd option.case(2) z by (rule refl)
  moreover have "length (rendered d) = nat (MAP_SIZE * MAP_SIZE)" if "render_cache ?v k = Some d" for k d
    using that len [of k d] by (cases "k = uid") auto
  then have "view_ok ?v" using assms(1) by (simp only: view_ok_def) simp
  ultimately show ?thesis by simp
qed

lemma render_result:
  assumes "paint_ok p" "view_ok v" "player \<noteq> INVALID_ID"
  shows "\<exists>rd v'. render p player v = Inr (rd, v') \<and> view_ok v' \<and> renderers v' = renderers v \<and>
    only_grown (map_data v) (map_data v') \<and> length (rendered rd) = nat (MAP_SIZE * MAP_SIZE) \<and>
    rendered rd = (if renderers v = [] then replicate (nat (MAP_SIZE * MAP_SIZE)) 0
      else buffer (canvas_of p player v' (last (renderers v)))) \<and>
    shown_cursors rd = concat (map (cursors \<circ> canvas_of p player v') (renderers v))"
proof -
  define uid where "uid = (if view_isContextual p v then player else INVALID_ID)"
  obtain v1 where v1: "prepare_cache (view_isContextual p v) uid v = Inr v1" "view_ok v1" "renderers v1 = renderers v"
    "map_data v1 = map_data v" "render_cache v1 uid = Some \<lparr>rendered = replicate (nat (MAP_SIZE * MAP_SIZE)) 0, shown_cursors = []\<rparr>"
    using prepare_cache_ok [OF assms(2), of "view_isContextual p v" uid] assms(3) by (auto simp: uid_def)
  have "distinct (renderers v1)" using v1(2) by (simp add: view_ok_def)
  then obtain v2 where v2: "fold_chain (render_one p player uid) (renderers v1) v1 = Inr v2"
    and tu: "turns p player uid (renderers v1) v1 v2"
    using fold_turns [OF assms(1) v1(2) subset_refl, of uid player] v1(5) by auto
  have "render p player v = Inr (cached uid v2, v2)"
    using v1(1) v2 tu by (auto simp: render_def Let_def uid_def [symmetric] cached_def turns_def)
  moreover have "view_ok v2" "uid \<in> dom (render_cache v2)" using tu by (simp_all add: turns_def)
  then have "length (rendered (cached uid v2)) = nat (MAP_SIZE * MAP_SIZE)" by (auto simp: view_ok_def cached_def)
  ultimately show ?thesis using v1 tu by (simp add: cached_def turns_def)
qed

text \<open>Rendering a well-formed view for a player never fails or reads outside a buffer and leaves the view well
  formed; what it shows is the canvas of the last renderer alone, while the cursors are those of all canvases in order.\<close>

theorem render_last_wins:
  assumes "paint_ok p" "view_ok v" "player \<noteq> INVALID_ID"
  shows "\<exists>rd v'. render p player v = Inr (rd, v') \<and> view_ok v' \<and> renderers v' = renderers v \<and>
    only_grown (map_data v) (map_data v') \<and>
    rendered rd = (if renderers v = [] then replicate (nat (MAP_SIZE * MAP_SIZE)) 0
      else buffer (canvas_of p player v' (last (renderers v)))) \<and>
    shown_cursors rd = concat (map (cursors \<circ> canvas_of p player v') (renderers v))"
  using render_result [OF assms] by blast

lemma EndstoneMapView_ok:
  "length (pixels m) = nat (MAP_SIZE * MAP_SIZE) \<Longrightarrow> view_ok (EndstoneMapView m)"
  by (auto simp: view_ok_def EndstoneMapView_def addRenderer_def)

text \<open>A map without plugin renderers shows exactly the pixels of the saved map, and of its decorations those
  whose key is the player.\<close>

theorem render_plain:
  assumes "length (pixels m) = nat (MAP_SIZE * MAP_SIZE)"
  shows "\<exists>rd v'. render p player (EndstoneMapView m) = Inr (rd, v') \<and> rendered rd = pixels m \<and>
    shown_cursors rd = player_cursors player m"
proof -
  let ?v = "EndstoneMapView m"
  have ctx: "view_isContextual p ?v = False" and rs: "renderers ?v = [Endstone_Renderer]" and md: "map_data ?v = m"
    by (simp_all add: view_isContextual_def EndstoneMapView_def addRenderer_def)
  obtain v1 where v1: "prepare_cache False INVALID_ID ?v = Inr v1" "renderers v1 = [Endstone_Renderer]" "map_data v1 = m"
    "canvases v1 = canvases ?v" "render_cache v1 INVALID_ID = Some \<lparr>rendered = replicate (nat (MAP_SIZE * MAP_SIZE)) 0, shown_cursors = []\<rparr>"
    using prepare_cache_ok [OF EndstoneMapView_ok [OF assms], of False INVALID_ID] rs md by auto
  have cv: "canvases v1 Endstone_Renderer = Some Map.empty"
    using v1(4) by (simp add: EndstoneMapView_def addRenderer_def)
  have "canvas_ok (EndstoneMapCanvas\<lparr>base := Cached INVALID_ID\<rparr>)" by (simp add: canvas_ok_def EndstoneMapCanvas_def)
  from endstone_render_ok [OF this assms, of player] obtain c' m' where
    "endstone_render player (EndstoneMapCanvas\<lparr>base := Cached INVALID_ID\<rparr>, m) = Inr (c', m')"
    "buffer c' = pixels m" "cursors c' = player_cursors player m" by auto
  then show ?thesis
    using v1 cv by (simp add: render_def ctx Let_def render_one_def getCursors_def)
qed

subsection \<open>Reachable views\<close>

datatype view_call =
    Add_Renderer renderer | Remove_Renderer renderer | Render "64 word"
  | Set_Scale "8 word" | Set_Center_X int | Set_Center_Z int | Set_Dimension int | Set_Unlimited bool | Set_Locked bool
  | Remove_Tracked unique_id

fun view_step :: "plugin_code \<Rightarrow> view_call \<Rightarrow> map_view \<Rightarrow> map_error + map_view" where
  "view_step p (Add_Renderer r) v = Inr (addRenderer r v)"
| "view_step p (Remove_Renderer r) v = Inr (snd (removeRenderer r v))"
| "view_step p (Render player) v = chain (render p player v) (\<lambda>(rd, v'). Inr v')"
| "view_step p (Set_Scale s) v = Inr (setScale s v)"
| "view_step p (Set_Center_X x) v = Inr (setCenterX x v)"
| "view_step p (Set_Center_Z z) v = Inr (setCenterZ z v)"
| "view_step p (Set_Dimension d) v = Inr (setDimension d v)"
| "view_step p (Set_Unlimited b) v = Inr (setUnlimitedTracking b v)"
| "view_step p (Set_Locked b) v = Inr (setLocked b v)"
| "view_step p (Remove_Tracked k) v = Inr (on_map (removeTrackedMapEntity k) v)"

lemma set_erase_first: "distinct xs \<Longrightarrow> set (erase_first (\<lambda>q. q = r) xs) = set xs - {r}"
  by (induction xs) auto

lemma distinct_erase_first: "distinct xs \<Longrightarrow> distinct (erase_first (\<lambda>q. q = r) xs)"
  by (induction xs) (auto simp: set_erase_first)

lemma addRenderer_ok: "view_ok v \<Longrightarrow> view_ok (addRenderer r v)"
  by (auto simp: view_ok_def addRenderer_def split: if_splits)

lemma removeRenderer_ok: "view_ok v \<Longrightarrow> view_ok (snd (removeRenderer r v))"
  by (auto simp: view_ok_def removeRenderer_def set_erase_first distinct_erase_first split: if_splits)

lemma on_map_ok: "view_ok v \<Longrightarrow> (\<And>m. pixels (f m) = pixels m) \<Longrightarrow> view_ok (on_map f v)"
  by (simp add: view_ok_def on_map_def)

lemma view_step_ok:
  assumes "paint_ok p" "view_ok v" "\<And>player. call = Render player \<Longrightarrow> player \<noteq> INVALID_ID"
  shows "\<exists>v'. view_step p call v = Inr v' \<and> view_ok v'"
proof (cases call)
  case (Render player)
  with render_last_wins [OF assms(1,2) assms(3) [OF Render]] show ?thesis by auto
next
  case (Remove_Tracked k)
  have "pixels (removeTrackedMapEntity k m) = pixels m" for m
    by (auto simp: removeTrackedMapEntity_def removeDecoration_def setDirtyForDecoration_def split: option.split)
  with Remove_Tracked assms(2) show ?thesis by (simp add: on_map_ok)
qed (use assms(2) in \<open>auto simp: addRenderer_ok removeRenderer_ok setScale_def setCenterX_def setCenterZ_def setDimension_def
  setUnlimitedTracking_def setLocked_def map_setScale_def setDimensionId_def setDirtyForSaveAndPixelData_def intro!: on_map_ok\<close>)

text \<open>Whatever is done with a view, it stays safe to render.\<close>

lemma views_safe:
  assumes "paint_ok p" "view_ok v" "Render INVALID_ID \<notin> set calls"
  shows "\<exists>v'. fold_chain (view_step p) calls v = Inr v' \<and> view_ok v'"
  using assms(2,3)
proof (induction calls arbitrary: v)
  case (Cons call calls)
  then obtain v1 where "view_step p call v = Inr v1" "view_ok v1"
    using view_step_ok [OF assms(1) Cons.prems(1), of call] by auto
  with Cons show ?case by auto
qed simp

text \<open>A new view already counts as virtual, since no renderer answers that it is the one of the game's pixels.\<close>

lemma isVirtual_new: "isVirtual (EndstoneMapView m)"
  by (simp add: isVirtual_def EndstoneMapView_def addRenderer_def isEndstoneMapRenderer_def)

subsection \<open>Concrete maps\<close>

definition demo_map_data :: saved_map where
  "demo_map_data = \<lparr>map_id = 1, origin_x = 0, origin_z = 0, dimension = 0, scale = 0,
     pixels = replicate (nat (MAP_SIZE * MAP_SIZE)) 7, tracked_entities = [], unlimited_tracking = False,
     dirty_for_save = False, dirty_pixel_data = False, locked = False, decorations = []\<rparr>"

definition demo_image :: image where
  "demo_image = \<lparr>image_type = RGBA, width = 2, height = 1, data = [1, 2, 3, 4, 5, 6, 7, 8]\<rparr>"

definition demo_code :: plugin_code where
  "demo_code = \<lparr>contextual = (\<lambda>n. n = 1), paint = (\<lambda>n player v c. [Draw_Image 127 0 demo_image])\<rparr>"

lemma demo_image_ok: "image_ok demo_image" "is_int 127" "is_int 0" "is_int (127 + width demo_image)" "is_int (0 + height demo_image)"
  by (simp_all add: image_ok_def demo_image_def is_int_def)

lemma demo_code_ok: "paint_ok demo_code"
  using demo_image_ok by (simp add: paint_ok_def demo_code_def)

lemma demo_map_pixels: "length (pixels demo_map_data) = nat (MAP_SIZE * MAP_SIZE)"
  by (simp add: demo_map_data_def)

lemma drawImage_clips_witness:
  "\<exists>c' m'. drawImage 127 0 demo_image (EndstoneMapCanvas, demo_map_data) = Inr (c', m') \<and>
    getPixelColor 127 0 c' = of_image (getColor 0 0 demo_image) \<and>
    getPixelColor 128 0 c' = getPixelColor 128 0 EndstoneMapCanvas"
  using drawImage_clips [OF EndstoneMapCanvas_ok demo_image_ok, of demo_map_data]
  by (auto simp: off_map_def inside_def MAP_SIZE_def demo_image_def)

lemma render_last_wins_witness:
  "\<exists>rd v'. render demo_code 5 (addRenderer (Plugin_Renderer 1) (EndstoneMapView demo_map_data)) = Inr (rd, v') \<and>
    rendered rd = buffer (canvas_of demo_code 5 v' (Plugin_Renderer 1))"
proof -
  have "view_ok (addRenderer (Plugin_Renderer 1) (EndstoneMapView demo_map_data))"
    by (intro addRenderer_ok EndstoneMapView_ok demo_map_pixels)
  from render_last_wins [OF demo_code_ok this, of 5] show ?thesis
    by (auto simp: INVALID_ID_def addRenderer_def EndstoneMapView_def)
qed

lemma render_plain_witness: "\<exists>rd v'. render demo_code 5 (EndstoneMapView demo_map_data) = Inr (rd, v') \<and> rendered rd = pixels demo_map_data"
  using render_plain [OF demo_map_pixels, of demo_code 5] by auto

end
