(* ===== verification/Boss_Bar.thy ===== *)
theory Boss_Bar
  imports Nbt
begin

text \<open>
  Boss bars (\<open>src/endstone/core/boss/boss_bar.cpp\<close>): the state of a bar, the packets its operations send, and what the
  clients of the players show of it. Which players are online belongs to the server and what a client does with a packet to
  the client; both are parameters. A game has any number of bars, which are all sent under the identifier of the player. The lemmas show when
  a client shows the title, the progress, the colour and the style its bar holds; the flags of a bar are in no packet, so a client never
  learns of them.
\<close>

datatype bar_color = Pink | Blue | Red | Green | Yellow | Purple | Rebecca_Purple | White
datatype bar_style = Solid | Segmented6 | Segmented10 | Segmented12 | Segmented20
datatype bar_flag = Darken_Sky | Create_Fog

datatype event_type = Add | PlayerAdded | Remove | PlayerRemoved | UpdatePercent | UpdateName | UpdateProperties | UpdateStyle | Query

record packet =
  boss_id :: "64 word"
  player_id :: "64 word"
  event :: event_type
  name :: string
  health_percent :: "32 word"
  packet_color :: bar_color
  overlay :: bar_style

text \<open>A player is its UUID; \<open>online\<close> gives the actor identifier of a player who is there (\<open>server.getPlayer\<close>). The set of
  UUIDs is a list without duplicates, in the order the unordered set happens to have.\<close>

record 'u boss_bar =
  title :: string
  progress :: "32 word"
  bar_color :: bar_color
  style :: bar_style
  flags :: "bar_flag list"
  visible :: bool
  players :: "'u list"

type_synonym 'u server = "'u \<Rightarrow> 64 word option"
type_synonym 'u sent = "('u \<times> packet) list"

definition ONE :: "32 word" where
  "ONE = 0x3F800000"

definition EndstoneBossBar :: "string \<Rightarrow> bar_color \<Rightarrow> bar_style \<Rightarrow> bar_flag list \<Rightarrow> 'u boss_bar" where
  "EndstoneBossBar t c s fs = \<lparr>title = t, progress = ONE, bar_color = c, style = s, flags = remdups fs, visible = True, players = []\<rparr>"

definition send :: "event_type \<Rightarrow> 'u \<times> 64 word \<Rightarrow> 'u boss_bar \<Rightarrow> 'u sent" where
  "send e p b = [(fst p, \<lparr>boss_id = snd p, player_id = snd p, event = e, name = title b, health_percent = progress b,
     packet_color = bar_color b, overlay = style b\<rparr>)]"

text \<open>The players who are online; the others are dropped from the bar on the way.\<close>

definition getPlayers :: "'u server \<Rightarrow> 'u boss_bar \<Rightarrow> ('u \<times> 64 word) list \<times> 'u boss_bar" where
  "getPlayers online b =
     (map (\<lambda>u. (u, the (online u))) (filter (\<lambda>u. online u \<noteq> None) (players b)),
      b\<lparr>players := filter (\<lambda>u. online u \<noteq> None) (players b)\<rparr>)"

definition broadcast :: "'u server \<Rightarrow> event_type \<Rightarrow> 'u boss_bar \<Rightarrow> 'u sent \<times> 'u boss_bar" where
  "broadcast online e b = (if \<not> visible b then ([], b)
     else let (ps, b') = getPlayers online b in (concat (map (\<lambda>p. send e p b') ps), b'))"

definition getTitle :: "'u boss_bar \<Rightarrow> string" where "getTitle b = title b"
definition getColor :: "'u boss_bar \<Rightarrow> bar_color" where "getColor b = bar_color b"
definition getStyle :: "'u boss_bar \<Rightarrow> bar_style" where "getStyle b = style b"
definition getProgress :: "'u boss_bar \<Rightarrow> 32 word" where "getProgress b = progress b"
definition isVisible :: "'u boss_bar \<Rightarrow> bool" where "isVisible b = visible b"

definition setTitle :: "'u server \<Rightarrow> string \<Rightarrow> 'u boss_bar \<Rightarrow> 'u sent \<times> 'u boss_bar" where
  "setTitle online t b = (if title b \<noteq> t then broadcast online UpdateName (b\<lparr>title := t\<rparr>) else ([], b))"

definition setColor :: "'u server \<Rightarrow> bar_color \<Rightarrow> 'u boss_bar \<Rightarrow> 'u sent \<times> 'u boss_bar" where
  "setColor online c b = (if bar_color b \<noteq> c then broadcast online UpdateStyle (b\<lparr>bar_color := c\<rparr>) else ([], b))"

definition setStyle :: "'u server \<Rightarrow> bar_style \<Rightarrow> 'u boss_bar \<Rightarrow> 'u sent \<times> 'u boss_bar" where
  "setStyle online s b = (if style b \<noteq> s then broadcast online UpdateStyle (b\<lparr>style := s\<rparr>) else ([], b))"

definition hasFlag :: "bar_flag \<Rightarrow> 'u boss_bar \<Rightarrow> bool" where
  "hasFlag f b \<longleftrightarrow> f \<in> set (flags b)"

definition addFlag :: "'u server \<Rightarrow> bar_flag \<Rightarrow> 'u boss_bar \<Rightarrow> 'u sent \<times> 'u boss_bar" where
  "addFlag online f b = (if \<not> hasFlag f b then broadcast online UpdateProperties (b\<lparr>flags := f # flags b\<rparr>) else ([], b))"

definition removeFlag :: "'u server \<Rightarrow> bar_flag \<Rightarrow> 'u boss_bar \<Rightarrow> 'u sent \<times> 'u boss_bar" where
  "removeFlag online f b =
     (if hasFlag f b then broadcast online UpdateProperties (b\<lparr>flags := filter (\<lambda>g. g \<noteq> f) (flags b)\<rparr>) else ([], b))"

text \<open>\<open>progress >= 0.0 && progress <= 1.0\<close> on the bits of a float.\<close>

definition in_unit :: "32 word \<Rightarrow> bool" where
  "in_unit p \<longleftrightarrow> (let mag = p AND 0x7FFFFFFF; negative = bit p 31 in
     mag \<le> 0x7F800000 \<and> (\<not> negative \<or> mag = 0) \<and> (negative \<or> mag \<le> ONE))"

definition setProgress :: "'u server \<Rightarrow> 32 word \<Rightarrow> 'u boss_bar \<Rightarrow> unit + 'u sent \<times> 'u boss_bar" where
  "setProgress online p b = (if \<not> in_unit p then Inl ()
     else if \<not> float_eq (progress b) p then Inr (broadcast online UpdatePercent (b\<lparr>progress := p\<rparr>)) else Inr ([], b))"

definition setVisible :: "'u server \<Rightarrow> bool \<Rightarrow> 'u boss_bar \<Rightarrow> 'u sent \<times> 'u boss_bar" where
  "setVisible online v b = (if visible b \<noteq> v
     then let (ps, b') = getPlayers online (b\<lparr>visible := v\<rparr>) in (concat (map (\<lambda>p. send (if v then Add else Remove) p b') ps), b')
     else ([], b))"

definition addPlayer :: "'u \<times> 64 word \<Rightarrow> 'u boss_bar \<Rightarrow> 'u sent \<times> 'u boss_bar" where
  "addPlayer p b = (let b' = b\<lparr>players := List.insert (fst p) (players b)\<rparr> in (if visible b' then send Add p b' else [], b'))"

definition removePlayer :: "'u \<times> 64 word \<Rightarrow> 'u boss_bar \<Rightarrow> 'u sent \<times> 'u boss_bar" where
  "removePlayer p b = (let b' = b\<lparr>players := filter (\<lambda>u. u \<noteq> fst p) (players b)\<rparr> in (if visible b' then send Remove p b' else [], b'))"

fun remove_players :: "('u \<times> 64 word) list \<Rightarrow> 'u boss_bar \<Rightarrow> 'u sent \<times> 'u boss_bar" where
  "remove_players [] b = ([], b)"
| "remove_players (p # ps) b = (let (s1, b1) = removePlayer p b; (s2, b2) = remove_players ps b1 in (s1 @ s2, b2))"

definition removeAll :: "'u server \<Rightarrow> 'u boss_bar \<Rightarrow> 'u sent \<times> 'u boss_bar" where
  "removeAll online b = (let (ps, b') = getPlayers online b in remove_players ps b')"

subsection \<open>The operations as steps\<close>

datatype 'u bar_op =
    Set_Title string | Set_Color bar_color | Set_Style bar_style | Add_Flag bar_flag | Remove_Flag bar_flag
  | Set_Progress "32 word" | Set_Visible bool | Add_Player 'u | Remove_Player 'u | Remove_All

text \<open>A call that throws changes nothing and sends nothing. \<open>addPlayer\<close> and \<open>removePlayer\<close> are called with a player object,
  which exists while the player is online.\<close>

fun bar_step :: "'u server \<Rightarrow> 'u bar_op \<Rightarrow> 'u boss_bar \<Rightarrow> 'u sent \<times> 'u boss_bar" where
  "bar_step online (Set_Title t) b = setTitle online t b"
| "bar_step online (Set_Color c) b = setColor online c b"
| "bar_step online (Set_Style s) b = setStyle online s b"
| "bar_step online (Add_Flag f) b = addFlag online f b"
| "bar_step online (Remove_Flag f) b = removeFlag online f b"
| "bar_step online (Set_Progress p) b = (case setProgress online p b of Inl _ \<Rightarrow> ([], b) | Inr r \<Rightarrow> r)"
| "bar_step online (Set_Visible v) b = setVisible online v b"
| "bar_step online (Add_Player u) b = (case online u of None \<Rightarrow> ([], b) | Some i \<Rightarrow> addPlayer (u, i) b)"
| "bar_step online (Remove_Player u) b = (case online u of None \<Rightarrow> ([], b) | Some i \<Rightarrow> removePlayer (u, i) b)"
| "bar_step online Remove_All b = removeAll online b"

subsection \<open>Clients\<close>

text \<open>What the packets tell of a bar: everything but its flags, for which they have no field.\<close>

type_synonym contents = "string \<times> 32 word \<times> bar_color \<times> bar_style"

definition contents :: "'u boss_bar \<Rightarrow> contents" where
  "contents b = (title b, progress b, bar_color b, style b)"

text \<open>A client shows at most one bar for an identifier, \<open>see c i\<close>. \<open>Add\<close> shows the bar of the packet, \<open>Remove\<close> takes it
  away, the updates change their part of a bar that is shown.\<close>

definition shown_after :: "packet \<Rightarrow> contents option \<Rightarrow> contents option" where
  "shown_after p o' = (case event p of
     Add \<Rightarrow> Some (name p, health_percent p, packet_color p, overlay p)
   | Remove \<Rightarrow> None
   | UpdateName \<Rightarrow> map_option (\<lambda>(t, h, c, s). (name p, h, c, s)) o'
   | UpdatePercent \<Rightarrow> map_option (\<lambda>(t, h, c, s). (t, health_percent p, c, s)) o'
   | UpdateStyle \<Rightarrow> map_option (\<lambda>(t, h, c, s). (t, h, packet_color p, overlay p)) o'
   | _ \<Rightarrow> o')"

record 'c client_code =
  fresh :: 'c
  recv :: "packet \<Rightarrow> 'c \<Rightarrow> 'c"
  see :: "'c \<Rightarrow> 64 word \<Rightarrow> contents option"

definition client_laws :: "'c client_code \<Rightarrow> bool" where
  "client_laws cl \<longleftrightarrow> (\<forall>i. see cl (fresh cl) i = None) \<and>
     (\<forall>p c i. see cl (recv cl p c) i = (if i = boss_id p then shown_after p (see cl c i) else see cl c i))"

text \<open>A bar among the players it can reach.\<close>

record ('u, 'c) world =
  bar :: "'u boss_bar"
  online :: "'u server"
  clients :: "'u \<Rightarrow> 'c"

definition deliver :: "'c client_code \<Rightarrow> 'u sent \<Rightarrow> ('u \<Rightarrow> 'c) \<Rightarrow> 'u \<Rightarrow> 'c" where
  "deliver cl ps cs = fold (\<lambda>(u, p) cs. cs(u := recv cl p (cs u))) ps cs"

text \<open>The bars of a game, in the order they were made, and what happens in it: a bar is made, a plugin calls an operation of a bar, a
  player joins under an actor identifier or leaves.\<close>

record ('u, 'c) game =
  bars :: "'u boss_bar list"
  here :: "'u server"
  screens :: "'u \<Rightarrow> 'c"

datatype 'u game_event = New_Bar string bar_color bar_style "bar_flag list" | On nat "'u bar_op" | Join 'u "64 word" | Leave 'u

fun game_step :: "'c client_code \<Rightarrow> 'u game_event \<Rightarrow> ('u, 'c) game \<Rightarrow> ('u, 'c) game" where
  "game_step cl (New_Bar t c s fs) G = G\<lparr>bars := bars G @ [EndstoneBossBar t c s fs]\<rparr>"
| "game_step cl (On k op) G = (if k < length (bars G) then let (ps, b) = bar_step (here G) op (bars G ! k) in
     G\<lparr>bars := (bars G)[k := b], screens := deliver cl ps (screens G)\<rparr> else G)"
| "game_step cl (Join u i) G = G\<lparr>here := (here G)(u \<mapsto> i), screens := (screens G)(u := fresh cl)\<rparr>"
| "game_step cl (Leave u) G = G\<lparr>here := (here G)(u := None)\<rparr>"

definition listed_elsewhere :: "nat \<Rightarrow> 'u \<Rightarrow> 'u boss_bar list \<Rightarrow> bool" where
  "listed_elsewhere k u bs \<longleftrightarrow> (\<exists>j<length bs. j \<noteq> k \<and> u \<in> set (players (bs ! j)))"

text \<open>A player is given one bar at a time, and does not join while a bar still lists the UUID from an earlier stay.\<close>

fun one_bar_each :: "'c client_code \<Rightarrow> 'u game_event list \<Rightarrow> ('u, 'c) game \<Rightarrow> bool" where
  "one_bar_each cl [] G \<longleftrightarrow> True"
| "one_bar_each cl (e # es) G \<longleftrightarrow>
     (case e of On k (Add_Player u) \<Rightarrow> \<not> listed_elsewhere k u (bars G) | On k (Remove_Player u) \<Rightarrow> \<not> listed_elsewhere k u (bars G)
      | Join u i \<Rightarrow> here G u = None \<and> (\<forall>b\<in>set (bars G). u \<notin> set (players b)) | _ \<Rightarrow> True) \<and> one_bar_each cl es (game_step cl e G)"

text \<open>Every client shows the bar exactly when its player is listed and the bar is visible.\<close>

definition in_sync :: "'c client_code \<Rightarrow> ('u, 'c) world \<Rightarrow> bool" where
  "in_sync cl w \<longleftrightarrow> distinct (players (bar w)) \<and> (\<forall>u i. online w u = Some i \<longrightarrow>
     see cl (clients w u) i = (if u \<in> set (players (bar w)) \<and> visible (bar w) then Some (contents (bar w)) else None))"

definition packet_of :: "event_type \<Rightarrow> 64 word \<Rightarrow> 'u boss_bar \<Rightarrow> packet" where
  "packet_of e i b = snd (hd (send e (undefined, i) b))"

lemma send_packet: "send e (u, i) b = [(u, packet_of e i b)]" "boss_id (packet_of e i b) = i" "event (packet_of e i b) = e"
  by (simp_all add: send_def packet_of_def)

lemma deliver_nil [simp]: "deliver cl [] cs = cs"
  by (simp add: deliver_def)

lemma sync_none: "in_sync cl w \<Longrightarrow> ps = [] \<Longrightarrow> b' = bar w \<Longrightarrow> in_sync cl (w\<lparr>bar := b', clients := deliver cl ps (clients w)\<rparr>)"
  by simp

lemma packet_fields:
  "boss_id (packet_of e i b) = i" "event (packet_of e i b) = e" "name (packet_of e i b) = title b"
  "health_percent (packet_of e i b) = progress b" "packet_color (packet_of e i b) = bar_color b" "overlay (packet_of e i b) = style b"
  by (simp_all add: send_def packet_of_def)

lemma deliver_append: "deliver cl (ps @ qs) cs = deliver cl qs (deliver cl ps cs)"
  by (simp add: deliver_def)

lemma see_recv:
  "client_laws cl \<Longrightarrow> see cl (recv cl p c) i = (if i = boss_id p then shown_after p (see cl c i) else see cl c i)"
  by (simp add: client_laws_def)

lemma see_send:
  assumes "client_laws cl"
  shows "see cl (deliver cl (send e (v, j) b) cs u) i = (if u = v \<and> i = j then shown_after (packet_of e i b) (see cl (cs u) i) else see cl (cs u) i)"
  by (simp add: deliver_def send_packet see_recv [OF assms])

text \<open>What the clients show after a packet to each of some players.\<close>

lemma see_sends:
  assumes "client_laws cl" "distinct us"
  shows "see cl (deliver cl (concat (map (\<lambda>p. send e p b) (map (\<lambda>u. (u, f u)) us))) cs u) i =
    (if u \<in> set us \<and> i = f u then shown_after (packet_of e i b) (see cl (cs u) i) else see cl (cs u) i)"
  using assms(2)
proof (induction us arbitrary: cs)
  case Nil
  then show ?case by (simp add: deliver_def)
next
  case (Cons v us)
  then show ?case
    using Cons.IH [of "deliver cl (send e (v, f v) b) cs"] by (auto simp: deliver_append see_send [OF assms(1)])
qed

lemma see_broadcast:
  assumes "client_laws cl" "distinct (players b)" "srv u = Some i" "broadcast srv e b = (ps, b')"
  shows "see cl (deliver cl ps cs u) i =
    (if visible b \<and> u \<in> set (players b) then shown_after (packet_of e i b) (see cl (cs u) i) else see cl (cs u) i)"
    and "b' = (if visible b then b\<lparr>players := filter (\<lambda>u. srv u \<noteq> None) (players b)\<rparr> else b)"
proof -
  have p: "packet_of e i (b\<lparr>players := us\<rparr>) = packet_of e i b" for us by (simp add: packet_of_def send_def)
  have d: "distinct (filter (\<lambda>u. srv u \<noteq> None) (players b))" using assms(2) by simp
  show "see cl (deliver cl ps cs u) i =
    (if visible b \<and> u \<in> set (players b) then shown_after (packet_of e i b) (see cl (cs u) i) else see cl (cs u) i)"
    using assms(3,4) see_sends [OF assms(1) d, of e _ "\<lambda>u. the (srv u)"]
    by (auto simp: broadcast_def getPlayers_def p deliver_def [of _ "[]"] split: if_splits)
  show "b' = (if visible b then b\<lparr>players := filter (\<lambda>u. srv u \<noteq> None) (players b)\<rparr> else b)"
    using assms(4) by (auto simp: broadcast_def getPlayers_def split: if_splits)
qed

text \<open>A change that is broadcast with an event whose update makes the old contents the new ones.\<close>

lemma broadcast_sync:
  assumes "client_laws cl" "in_sync cl w" "players b = players (bar w)" "visible b = visible (bar w)"
    and "\<And>i. shown_after (packet_of e i b) (Some (contents (bar w))) = Some (contents b)"
    and "broadcast (online w) e b = (ps, b')"
  shows "in_sync cl (w\<lparr>bar := b', clients := deliver cl ps (clients w)\<rparr>)"
proof -
  have d: "distinct (players b)" using assms(2,3) by (simp add: in_sync_def)
  have "see cl (deliver cl ps (clients w) u) i = (if u \<in> set (players b') \<and> visible b' then Some (contents b') else None)"
    if "online w u = Some i" for u i
    using see_broadcast(1) [OF assms(1) d that assms(6), of "clients w"] see_broadcast(2) [OF assms(1) d that assms(6)] assms(2-5) that
    by (auto simp: in_sync_def contents_def)
  moreover have "distinct (players b')"
    using assms(6) d by (auto simp: broadcast_def getPlayers_def split: if_splits)
  ultimately show ?thesis by (simp add: in_sync_def)
qed

text \<open>The packets of \<open>setVisible\<close>, \<open>addPlayer\<close>, \<open>removePlayer\<close> and \<open>removeAll\<close>.\<close>

lemma setVisible_sync:
  assumes "client_laws cl" "in_sync cl w" "setVisible (online w) v (bar w) = (ps, b')"
  shows "in_sync cl (w\<lparr>bar := b', clients := deliver cl ps (clients w)\<rparr>)"
proof (cases "visible (bar w) = v")
  case True
  with assms(3) show ?thesis by (intro sync_none assms(2)) (simp_all add: setVisible_def)
next
  case False
  let ?us = "filter (\<lambda>u. online w u \<noteq> None) (players (bar w))"
  let ?b = "(bar w)\<lparr>visible := v, players := ?us\<rparr>"
  let ?e = "if v then Add else Remove"
  have d: "distinct ?us" using assms(2) by (simp add: in_sync_def)
  have r: "b' = ?b" "ps = concat (map (\<lambda>p. send ?e p ?b) (map (\<lambda>u. (u, the (online w u))) ?us))"
    using assms(3) False by (auto simp: setVisible_def getPlayers_def)
  have "see cl (deliver cl ps (clients w) u) i = (if u \<in> set (players b') \<and> visible b' then Some (contents b') else None)"
    if "online w u = Some i" for u i
    unfolding r see_sends [OF assms(1) d]
    using assms(2) False that by (auto simp: in_sync_def contents_def shown_after_def packet_fields)
  then show ?thesis using d r by (simp add: in_sync_def)
qed

lemma addPlayer_sync:
  assumes "client_laws cl" "in_sync cl w" "online w u = Some i" "addPlayer (u, i) (bar w) = (ps, b')"
  shows "in_sync cl (w\<lparr>bar := b', clients := deliver cl ps (clients w)\<rparr>)"
proof -
  have r: "b' = (bar w)\<lparr>players := List.insert u (players (bar w))\<rparr>" "ps = (if visible b' then send Add (u, i) b' else [])"
    using assms(4) by (auto simp: addPlayer_def Let_def)
  have "see cl (deliver cl ps (clients w) v) j = (if v \<in> set (players b') \<and> visible b' then Some (contents b') else None)"
    if "online w v = Some j" for v j
    using assms(2,3) that
    by (auto simp: r see_send [OF assms(1)] in_sync_def contents_def shown_after_def packet_fields)
  then show ?thesis using assms(2) r by (simp add: in_sync_def)
qed

lemma removePlayer_sync:
  assumes "client_laws cl" "in_sync cl w" "online w u = Some i" "removePlayer (u, i) (bar w) = (ps, b')"
  shows "in_sync cl (w\<lparr>bar := b', clients := deliver cl ps (clients w)\<rparr>)"
proof -
  have r: "b' = (bar w)\<lparr>players := filter (\<lambda>v. v \<noteq> u) (players (bar w))\<rparr>" "ps = (if visible b' then send Remove (u, i) b' else [])"
    using assms(4) by (auto simp: removePlayer_def Let_def)
  have "see cl (deliver cl ps (clients w) v) j = (if v \<in> set (players b') \<and> visible b' then Some (contents b') else None)"
    if "online w v = Some j" for v j
    using assms(2,3) that
    by (auto simp: r see_send [OF assms(1)] in_sync_def contents_def shown_after_def packet_fields)
  then show ?thesis using assms(2) r by (simp add: in_sync_def)
qed

lemma remove_players_sync:
  "client_laws cl \<Longrightarrow> in_sync cl w \<Longrightarrow> \<forall>(u, i) \<in> set ls. online w u = Some i \<Longrightarrow> remove_players ls (bar w) = (ps, b') \<Longrightarrow>
    in_sync cl (w\<lparr>bar := b', clients := deliver cl ps (clients w)\<rparr>)"
proof (induction ls arbitrary: w ps)
  case Nil
  then show ?case by (intro sync_none) auto
next
  case (Cons l ls)
  obtain u i where l: "l = (u, i)" by (cases l)
  obtain s1 b1 where 1: "removePlayer (u, i) (bar w) = (s1, b1)" by (cases "removePlayer (u, i) (bar w)")
  obtain s2 b2 where 2: "remove_players ls b1 = (s2, b2)" by (cases "remove_players ls b1")
  have r: "ps = s1 @ s2" "b' = b2" using Cons.prems(4) by (simp_all add: l 1 2)
  let ?w = "w\<lparr>bar := b1, clients := deliver cl s1 (clients w)\<rparr>"
  have "in_sync cl ?w" using removePlayer_sync [OF Cons.prems(1,2) _ 1] Cons.prems(3) by (simp add: l)
  from Cons.IH [OF Cons.prems(1) this, of s2] Cons.prems(3) 2 r
  show ?case by (simp add: deliver_append)
qed

lemma removeAll_sync:
  assumes "client_laws cl" "in_sync cl w" "removeAll (online w) (bar w) = (ps, b')"
  shows "in_sync cl (w\<lparr>bar := b', clients := deliver cl ps (clients w)\<rparr>)"
proof -
  let ?us = "filter (\<lambda>u. online w u \<noteq> None) (players (bar w))"
  let ?w = "w\<lparr>bar := (bar w)\<lparr>players := ?us\<rparr>\<rparr>"
  have "in_sync cl ?w" using assms(2) by (auto simp: in_sync_def contents_def)
  from remove_players_sync [OF assms(1) this, of "map (\<lambda>u. (u, the (online w u))) ?us" ps b'] assms(3)
  show ?thesis by (auto simp: removeAll_def getPlayers_def)
qed

lemma bar_step_sync:
  assumes "client_laws cl" "in_sync cl w" "bar_step (online w) op (bar w) = (ps, b')"
  shows "in_sync cl (w\<lparr>bar := b', clients := deliver cl ps (clients w)\<rparr>)"
proof -
  note none = sync_none [OF assms(2)]
  have cast: ?thesis if "broadcast (online w) e b = (ps, b')" "players b = players (bar w)" "visible b = visible (bar w)"
    "\<And>i. shown_after (packet_of e i b) (Some (contents (bar w))) = Some (contents b)" for e b
    using broadcast_sync [OF assms(1,2) that(2,3,4,1)] .
  note pkt = shown_after_def packet_fields contents_def
  show ?thesis
  proof (cases op)
    case (Set_Title t)
    show ?thesis
    proof (cases "title (bar w) = t")
      case True
      with assms(3) Set_Title show ?thesis by (intro none) (simp_all add: setTitle_def)
    next
      case False
      with assms(3) Set_Title show ?thesis
        by (intro cast [of UpdateName "(bar w)\<lparr>title := t\<rparr>"]) (simp_all add: setTitle_def pkt)
    qed
  next
    case (Set_Color c)
    show ?thesis
    proof (cases "bar_color (bar w) = c")
      case True
      with assms(3) Set_Color show ?thesis by (intro none) (simp_all add: setColor_def)
    next
      case False
      with assms(3) Set_Color show ?thesis
        by (intro cast [of UpdateStyle "(bar w)\<lparr>bar_color := c\<rparr>"]) (simp_all add: setColor_def pkt)
    qed
  next
    case (Set_Style s)
    show ?thesis
    proof (cases "style (bar w) = s")
      case True
      with assms(3) Set_Style show ?thesis by (intro none) (simp_all add: setStyle_def)
    next
      case False
      with assms(3) Set_Style show ?thesis
        by (intro cast [of UpdateStyle "(bar w)\<lparr>style := s\<rparr>"]) (simp_all add: setStyle_def pkt)
    qed
  next
    case (Add_Flag f)
    show ?thesis
    proof (cases "hasFlag f (bar w)")
      case True
      with assms(3) Add_Flag show ?thesis by (intro none) (simp_all add: addFlag_def)
    next
      case False
      with assms(3) Add_Flag show ?thesis
        by (intro cast [of UpdateProperties "(bar w)\<lparr>flags := f # flags (bar w)\<rparr>"]) (simp_all add: addFlag_def pkt)
    qed
  next
    case (Remove_Flag f)
    show ?thesis
    proof (cases "\<not> hasFlag f (bar w)")
      case True
      with assms(3) Remove_Flag show ?thesis by (intro none) (simp_all add: removeFlag_def)
    next
      case False
      with assms(3) Remove_Flag show ?thesis
        by (intro cast [of UpdateProperties "(bar w)\<lparr>flags := filter (\<lambda>g. g \<noteq> f) (flags (bar w))\<rparr>"]) (simp_all add: removeFlag_def pkt)
    qed
  next
    case (Set_Progress p)
    show ?thesis
    proof (cases "\<not> in_unit p \<or> float_eq (progress (bar w)) p")
      case True
      with assms(3) Set_Progress show ?thesis by (intro none) (auto simp: setProgress_def split: if_splits)
    next
      case False
      with assms(3) Set_Progress show ?thesis
        by (intro cast [of UpdatePercent "(bar w)\<lparr>progress := p\<rparr>"]) (simp_all add: setProgress_def pkt)
    qed
  next
    case (Set_Visible v)
    with assms(3) setVisible_sync [OF assms(1,2)] show ?thesis by simp
  next
    case (Add_Player u)
    show ?thesis
    proof (cases "online w u")
      case None
      with assms(3) Add_Player show ?thesis by (intro none) simp_all
    next
      case (Some i)
      with assms(3) Add_Player show ?thesis by (intro addPlayer_sync [OF assms(1,2) Some]) simp
    qed
  next
    case (Remove_Player u)
    show ?thesis
    proof (cases "online w u")
      case None
      with assms(3) Remove_Player show ?thesis by (intro none) simp_all
    next
      case (Some i)
      with assms(3) Remove_Player show ?thesis by (intro removePlayer_sync [OF assms(1,2) Some]) simp
    qed
  next
    case Remove_All
    with assms(3) removeAll_sync [OF assms(1,2)] show ?thesis by simp
  qed
qed

subsection \<open>Several bars\<close>

text \<open>The players an operation sends packets to, and the players it leaves on the bar.\<close>

lemma getPlayers_of: "getPlayers srv b = (ps, b') \<Longrightarrow> fst ` set ps \<subseteq> set (players b) \<and> set (players b') \<subseteq> set (players b)"
  by (auto simp: getPlayers_def)

lemma broadcast_to: "broadcast srv e b = (ps, b') \<Longrightarrow> fst ` set ps \<subseteq> set (players b) \<and> set (players b') \<subseteq> set (players b)"
  using getPlayers_of [of srv b] by (cases "getPlayers srv b") (force simp: broadcast_def send_def split: if_splits)

lemma remove_players_to:
  "remove_players ls b = (ps, b') \<Longrightarrow> fst ` set ps \<subseteq> fst ` set ls \<and> set (players b') \<subseteq> set (players b)"
proof (induction ls arbitrary: b ps b')
  case (Cons l ls)
  obtain s1 b1 where 1: "removePlayer l b = (s1, b1)" by (cases "removePlayer l b")
  obtain s2 b2 where 2: "remove_players ls b1 = (s2, b2)" by (cases "remove_players ls b1")
  have "fst ` set s1 \<subseteq> {fst l}" "set (players b1) \<subseteq> set (players b)" using 1 by (auto simp: removePlayer_def Let_def send_def split: if_splits)
  moreover have "fst ` set s2 \<subseteq> fst ` set ls" "set (players b2) \<subseteq> set (players b1)" using Cons.IH [OF 2] by simp_all
  moreover have "ps = s1 @ s2" "b' = b2" using Cons.prems 1 2 by simp_all
  ultimately show ?case by (auto simp: image_Un)
qed simp

fun target :: "'u bar_op \<Rightarrow> 'u set" where
  "target (Add_Player u) = {u}" | "target (Remove_Player u) = {u}" | "target _ = {}"

lemma setVisible_to: "setVisible srv v b = (ps, b') \<Longrightarrow> fst ` set ps \<subseteq> set (players b) \<and> set (players b') \<subseteq> set (players b)"
  using getPlayers_of [of srv "b\<lparr>visible := v\<rparr>"]
  by (cases "getPlayers srv (b\<lparr>visible := v\<rparr>)") (force simp: setVisible_def send_def split: if_splits)

lemma removeAll_to: "removeAll srv b = (ps, b') \<Longrightarrow> fst ` set ps \<subseteq> set (players b) \<and> set (players b') \<subseteq> set (players b)"
  using getPlayers_of [of srv b] remove_players_to [of "fst (getPlayers srv b)" "snd (getPlayers srv b)" ps b']
  by (cases "getPlayers srv b") (simp add: removeAll_def, meson subset_trans)

lemma bar_step_to:
  assumes "bar_step srv op b = (ps, b')"
  shows "fst ` set ps \<subseteq> set (players b) \<union> target op \<and> set (players b') \<subseteq> set (players b) \<union> target op"
proof -
  have cast: ?thesis if "broadcast srv e b1 = (ps, b')" "players b1 = players b" for e b1
    using broadcast_to [OF that(1)] that(2) by auto
  have none: ?thesis if "ps = []" "b' = b" using that by simp
  show ?thesis
  proof (cases op)
    case (Set_Visible v)
    then show ?thesis using assms setVisible_to [of srv v b ps b'] by auto
  next
    case Remove_All
    then show ?thesis using assms removeAll_to [of srv b ps b'] by auto
  next
    case (Add_Player u)
    then show ?thesis using assms by (auto simp: addPlayer_def send_def Let_def split: option.splits if_splits)
  next
    case (Remove_Player u)
    then show ?thesis using assms by (auto simp: removePlayer_def send_def Let_def split: option.splits if_splits)
  next
    case (Set_Progress p)
    then show ?thesis using assms none cast by (auto simp: setProgress_def split: if_splits)
  qed (use assms none cast in \<open>simp_all add: setTitle_def setColor_def setStyle_def addFlag_def removeFlag_def split: if_splits\<close>)
qed

lemma deliver_others: "u \<notin> fst ` set ps \<Longrightarrow> deliver cl ps cs u = cs u"
  by (induction ps arbitrary: cs) (auto simp: deliver_def)

text \<open>An operation looks up only the players of its bar and the one it is called for.\<close>

lemma bar_step_cong:
  assumes "\<And>u. u \<in> set (players b) \<union> target op \<Longrightarrow> srv u = srv' u"
  shows "bar_step srv op b = bar_step srv' op b"
proof -
  have g: "getPlayers srv b1 = getPlayers srv' b1" if "players b1 = players b" for b1
  proof -
    have "filter (\<lambda>u. srv u \<noteq> None) (players b) = filter (\<lambda>u. srv' u \<noteq> None) (players b)"
      by (rule filter_cong) (use assms in auto)
    then show ?thesis using assms that by (auto simp: getPlayers_def)
  qed
  then have c: "broadcast srv e b1 = broadcast srv' e b1" if "players b1 = players b" for e b1
    using that by (simp add: broadcast_def)
  show ?thesis
    by (cases op) (use assms g c in \<open>simp_all add: setTitle_def setColor_def setStyle_def addFlag_def removeFlag_def setProgress_def setVisible_def removeAll_def\<close>)
qed

text \<open>A bar of the game among the players that no other bar lists.\<close>

definition view :: "nat \<Rightarrow> ('u, 'c) game \<Rightarrow> ('u, 'c) world" where
  "view k G = \<lparr>bar = bars G ! k, online = (\<lambda>u. if listed_elsewhere k u (bars G) then None else here G u), clients = screens G\<rparr>"

definition all_in_sync :: "'c client_code \<Rightarrow> ('u, 'c) game \<Rightarrow> bool" where
  "all_in_sync cl G \<longleftrightarrow> (\<forall>k<length (bars G). distinct (players (bars G ! k)) \<and> (\<forall>u\<in>set (players (bars G ! k)). \<not> listed_elsewhere k u (bars G))) \<and>
     (\<forall>u i. here G u = Some i \<longrightarrow>
       (\<forall>b\<in>set (bars G). u \<in> set (players b) \<longrightarrow> see cl (screens G u) i = (if visible b then Some (contents b) else None)) \<and>
       ((\<forall>b\<in>set (bars G). u \<notin> set (players b)) \<longrightarrow> see cl (screens G u) i = None))"

lemma sync_view:
  assumes "all_in_sync cl G" "k < length (bars G)"
  shows "in_sync cl (view k G)"
proof -
  have "see cl (screens G u) i = (if u \<in> set (players (bars G ! k)) \<and> visible (bars G ! k) then Some (contents (bars G ! k)) else None)"
    if u: "here G u = Some i" "\<not> listed_elsewhere k u (bars G)" for u i
  proof (cases "u \<in> set (players (bars G ! k))")
    case True
    then show ?thesis using assms u(1) nth_mem [OF assms(2)] by (auto simp: all_in_sync_def)
  next
    case False
    have "u \<notin> set (players (bars G ! j))" if "j < length (bars G)" for j
      using False u(2) that unfolding listed_elsewhere_def by (cases "j = k") auto
    then have "\<forall>b\<in>set (bars G). u \<notin> set (players b)" by (metis in_set_conv_nth)
    then show ?thesis using assms(1) u(1) False by (auto simp: all_in_sync_def)
  qed
  then show ?thesis using assms by (auto simp: in_sync_def view_def all_in_sync_def)
qed

lemma on_sync:
  assumes "client_laws cl" "all_in_sync cl G" "k < length (bars G)" "bar_step (here G) op (bars G ! k) = (ps, b')"
    and "\<And>u. u \<in> target op \<Longrightarrow> \<not> listed_elsewhere k u (bars G)"
  shows "all_in_sync cl (G\<lparr>bars := (bars G)[k := b'], screens := deliver cl ps (screens G)\<rparr>)"
proof -
  let ?B = "(bars G)[k := b']"
  have own: "\<not> listed_elsewhere k u (bars G)" if "u \<in> set (players (bars G ! k)) \<union> target op" for u
    using that assms(2,3,5) by (auto simp: all_in_sync_def)
  have "bar_step (online (view k G)) op (bars G ! k) = (ps, b')"
    using bar_step_cong [of "bars G ! k" op "here G" "online (view k G)"] own assms(4) by (simp add: view_def)
  with bar_step_sync [OF assms(1) sync_view [OF assms(2,3)]]
  have k: "in_sync cl ((view k G)\<lparr>bar := b', clients := deliver cl ps (screens G)\<rparr>)" by (simp add: view_def)
  have to: "fst ` set ps \<subseteq> set (players (bars G ! k)) \<union> target op" "set (players b') \<subseteq> set (players (bars G ! k)) \<union> target op"
    using bar_step_to [OF assms(4)] by auto
  have same: "listed_elsewhere k u ?B = listed_elsewhere k u (bars G)" for u by (auto simp: listed_elsewhere_def)
  have here_k: "see cl (deliver cl ps (screens G) u) i = (if u \<in> set (players b') \<and> visible b' then Some (contents b') else None)"
    if "here G u = Some i" "\<not> listed_elsewhere k u (bars G)" for u i
    using k that by (auto simp: in_sync_def view_def)
  have apart: "distinct (players (?B ! j)) \<and> (\<forall>u\<in>set (players (?B ! j)). \<not> listed_elsewhere j u ?B)" if j: "j < length ?B" for j
  proof (cases "j = k")
    case True
    then show ?thesis using k own to(2) assms(3) same by (auto simp: in_sync_def view_def)
  next
    case False
    have "\<not> listed_elsewhere j u ?B" if u: "u \<in> set (players (?B ! j))" for u
    proof
      assume "listed_elsewhere j u ?B"
      then obtain m where m: "m < length ?B" "m \<noteq> j" "u \<in> set (players (?B ! m))" by (auto simp: listed_elsewhere_def)
      have e: "listed_elsewhere k u (bars G)" using False j u by (auto simp: listed_elsewhere_def)
      show False
      proof (cases "m = k")
        case True
        then show False using m to(2) own e assms(3) by auto
      next
        case False
        then have "listed_elsewhere j u (bars G)" using m unfolding listed_elsewhere_def by auto
        moreover have "u \<in> set (players (bars G ! j))" "j < length (bars G)" using u j \<open>j \<noteq> k\<close> by auto
        ultimately show False using assms(2) by (auto simp: all_in_sync_def)
      qed
    qed
    then show ?thesis using False j assms(2) by (auto simp: all_in_sync_def)
  qed
  have shows_it: "see cl (deliver cl ps (screens G) u) i = (if visible (?B ! j) then Some (contents (?B ! j)) else None)"
    if h: "here G u = Some i" "j < length ?B" "u \<in> set (players (?B ! j))" for u i j
  proof (cases "j = k")
    case True
    then show ?thesis using here_k [OF h(1)] own to(2) h(3) assms(3) by auto
  next
    case False
    then have "listed_elsewhere k u (bars G)" using h by (auto simp: listed_elsewhere_def)
    then have "u \<notin> fst ` set ps" using own to(1) by auto
    moreover have "bars G ! j \<in> set (bars G)" "u \<in> set (players (bars G ! j))" "?B ! j = bars G ! j" using False h(2,3) by auto
    ultimately show ?thesis using h(1) assms(2) by (simp add: deliver_others all_in_sync_def)
  qed
  have blank: "see cl (deliver cl ps (screens G) u) i = None" if h: "here G u = Some i" "\<forall>b\<in>set ?B. u \<notin> set (players b)" for u i
  proof -
    have n: "u \<notin> set (players (?B ! j))" if "j < length ?B" for j using h(2) nth_mem [OF that] by auto
    have "\<not> listed_elsewhere k u (bars G)"
    proof
      assume "listed_elsewhere k u (bars G)"
      then obtain j where "j < length (bars G)" "j \<noteq> k" "u \<in> set (players (bars G ! j))" by (auto simp: listed_elsewhere_def)
      then show False using n [of j] by simp
    qed
    then show ?thesis using here_k [OF h(1)] n [of k] assms(3) by simp
  qed
  have by_bar: "see cl (deliver cl ps (screens G) u) i = (if visible b then Some (contents b) else None)"
    if h: "here G u = Some i" "b \<in> set ?B" "u \<in> set (players b)" for u i b
  proof -
    obtain j where "j < length ?B" "?B ! j = b" using h(2) by (auto simp: in_set_conv_nth)
    then show ?thesis using shows_it [OF h(1), of j] h(3) by simp
  qed
  show ?thesis
    unfolding all_in_sync_def using apart by_bar blank by simp
qed

lemma listed_elsewhere_new: "players b = [] \<Longrightarrow> listed_elsewhere k u (bs @ [b]) = listed_elsewhere k u bs"
  by (auto simp: listed_elsewhere_def nth_append less_Suc_eq)

lemma game_step_sync:
  assumes "client_laws cl" "all_in_sync cl G" "one_bar_each cl [e] G"
  shows "all_in_sync cl (game_step cl e G)"
proof (cases e)
  case (New_Bar t c s fs)
  have [simp]: "players (EndstoneBossBar t c s fs) = []" by (simp add: EndstoneBossBar_def)
  show ?thesis using assms(2) by (auto simp: New_Bar all_in_sync_def nth_append listed_elsewhere_new less_Suc_eq)
next
  case (On k op)
  obtain ps b' where s: "bar_step (here G) op (bars G ! k) = (ps, b')" by (cases "bar_step (here G) op (bars G ! k)")
  have "\<not> listed_elsewhere k u (bars G)" if "u \<in> target op" for u using assms(3) that by (cases op) (auto simp: On)
  from on_sync [OF assms(1,2) _ s this] show ?thesis using assms(2) by (simp add: On s)
next
  case (Join u i)
  with assms show ?thesis by (auto simp: all_in_sync_def client_laws_def)
next
  case (Leave u)
  with assms(2) show ?thesis by (auto simp: all_in_sync_def)
qed

lemma game_sync:
  "client_laws cl \<Longrightarrow> all_in_sync cl G \<Longrightarrow> one_bar_each cl es G \<Longrightarrow> all_in_sync cl (fold (game_step cl) es G)"
proof (induction es arbitrary: G)
  case (Cons e es)
  have "all_in_sync cl (game_step cl e G)" by (rule game_step_sync [OF Cons.prems(1,2)]) (use Cons.prems(3) in auto)
  with Cons show ?case by simp
qed simp

definition first_game :: "'c client_code \<Rightarrow> ('u, 'c) game" where
  "first_game cl = \<lparr>bars = [], here = Map.empty, screens = (\<lambda>_. fresh cl)\<rparr>"

text \<open>C24: Whatever bars are made and whatever calls are made on them while players come and go, the client of a player who is online and listed
  in a bar shows the title, the progress, the colour and the style the bar holds now when the bar is visible and nothing when it is not, and a
  client whose player no bar lists shows nothing; as long as no player is added to, or removed from, a bar while another one lists them (all
  bars of a player share one identifier), and nobody joins whom an earlier stay left in a bar. The flags of a bar never reach a client.\<close>

theorem boss_bar_in_sync:
  assumes "client_laws cl" "one_bar_each cl es (first_game cl)" "G = fold (game_step cl) es (first_game cl)"
  shows "\<forall>u i. here G u = Some i \<longrightarrow>
    (\<forall>b\<in>set (bars G). u \<in> set (players b) \<longrightarrow> see cl (screens G u) i = (if visible b then Some (contents b) else None)) \<and>
    ((\<forall>b\<in>set (bars G). u \<notin> set (players b)) \<longrightarrow> see cl (screens G u) i = None)"
proof -
  have "all_in_sync cl (first_game cl)" by (simp add: all_in_sync_def first_game_def)
  from game_sync [OF assms(1) this assms(2)] show ?thesis using assms(3) by (simp add: all_in_sync_def)
qed

text \<open>A player who leaves and comes back before anything is sent is still listed, gets every update, and yet sees no bar.\<close>

theorem rejoin_hidden:
  assumes "client_laws cl" "k < length (bars G)" "distinct (players (bars G ! k))" "u \<in> set (players (bars G ! k))" "visible (bars G ! k)"
    and "title (bars G ! k) \<noteq> t" "G' = fold (game_step cl) [Leave u, Join u i, On k (Set_Title t)] G" "b = bars G' ! k"
  shows "u \<in> set (players b) \<and> visible b \<and> title b = t \<and> see cl (screens G' u) i = None"
proof -
  let ?srv = "(here G)(u \<mapsto> i)"
  let ?b = "(bars G ! k)\<lparr>title := t\<rparr>"
  obtain ps b' where s: "broadcast ?srv UpdateName ?b = (ps, b')" by (cases "broadcast ?srv UpdateName ?b")
  have d: "distinct (players ?b)" using assms(3) by simp
  have u: "?srv u = Some i" by simp
  have "G' = G\<lparr>here := ?srv, bars := (bars G)[k := b'], screens := deliver cl ps ((screens G)(u := fresh cl))\<rparr>"
    using assms(2,6,7) s by (simp add: setTitle_def)
  then show ?thesis
    using see_broadcast(1) [OF assms(1) d u s, of "(screens G)(u := fresh cl)"] see_broadcast(2) [OF assms(1) d u s] assms(1,2,4,5,8)
    by (simp add: client_laws_def shown_after_def packet_fields)
qed

text \<open>Every bar is sent under the player's own identifier, so a client shows one bar at most: a second bar takes the place
  of the first, and when the player leaves the second bar neither is shown, though the first still lists the player.\<close>

theorem one_bar_per_player:
  assumes "client_laws cl" "visible b1" "visible b2"
    and "addPlayer (u, i) b1 = (s1, b1')" "addPlayer (u, i) b2 = (s2, b2')" "removePlayer (u, i) b2' = (s3, b2'')"
  shows "see cl (deliver cl s1 cs u) i = Some (contents b1) \<and>
    see cl (deliver cl (s1 @ s2) cs u) i = Some (contents b2) \<and>
    see cl (deliver cl (s1 @ s2 @ s3) cs u) i = None \<and> u \<in> set (players b1') \<and> visible b1'"
  using assms by (auto simp: addPlayer_def removePlayer_def Let_def deliver_append see_send shown_after_def packet_fields contents_def)

definition demo_client :: "(64 word \<Rightarrow> contents option) client_code" where
  "demo_client = \<lparr>fresh = (\<lambda>_. None), recv = (\<lambda>p c. c(boss_id p := shown_after p (c (boss_id p)))), see = (\<lambda>c. c)\<rparr>"

lemma demo_client_laws: "client_laws demo_client"
  by (auto simp: client_laws_def demo_client_def)

definition demo_events :: "nat game_event list" where
  "demo_events = [New_Bar ''Boss'' Red Solid [], Join 1 7, On 0 (Add_Player 1), On 0 (Set_Progress 0x3F000000), New_Bar ''Raid'' Blue Solid [],
    Join 2 8, On 1 (Add_Player 2), On 0 (Set_Title ''Wither''), On 1 (Set_Visible False)]"

lemma demo_one_bar: "one_bar_each demo_client demo_events (first_game demo_client)"
  by (simp add: demo_events_def first_game_def EndstoneBossBar_def addPlayer_def setProgress_def in_unit_def ONE_def
    broadcast_def getPlayers_def float_eq_def listed_elsewhere_def All_less_Suc Let_def)

theorem boss_bar_in_sync_witness:
  "\<exists>G. G = fold (game_step demo_client) demo_events (first_game demo_client) \<and> (\<forall>u i. here G u = Some i \<longrightarrow>
    (\<forall>b\<in>set (bars G). u \<in> set (players b) \<longrightarrow> see demo_client (screens G u) i = (if visible b then Some (contents b) else None)) \<and>
    ((\<forall>b\<in>set (bars G). u \<notin> set (players b)) \<longrightarrow> see demo_client (screens G u) i = None))"
  using boss_bar_in_sync [OF demo_client_laws demo_one_bar refl] by blast

definition demo_game :: "(nat, 64 word \<Rightarrow> contents option) game" where
  "demo_game = \<lparr>bars = [\<lparr>title = ''Boss'', progress = ONE, bar_color = Red, style = Solid, flags = [], visible = True, players = [1]\<rparr>],
    here = [1 \<mapsto> 7], screens = (\<lambda>_. [7 \<mapsto> (''Boss'', ONE, Red, Solid)])\<rparr>"

theorem rejoin_hidden_witness:
  "\<exists>G'. G' = fold (game_step demo_client) [Leave 1, Join 1 9, On 0 (Set_Title ''Wither'')] demo_game \<and>
    1 \<in> set (players (bars G' ! 0)) \<and> visible (bars G' ! 0) \<and> see demo_client (screens G' 1) 9 = None"
  using rejoin_hidden [OF demo_client_laws _ _ _ _ _ refl refl, of 0 demo_game 1 "''Wither''" 9] by (simp add: demo_game_def)

theorem one_bar_per_player_witness:
  "see demo_client (deliver demo_client
      (fst (addPlayer (1 :: nat, 7) (EndstoneBossBar ''A'' Red Solid [])) @ fst (addPlayer (1, 7) (EndstoneBossBar ''B'' Blue Solid [])))
      (\<lambda>_. fresh demo_client) 1) 7 = Some (''B'', ONE, Blue, Solid)"
proof -
  let ?a = "EndstoneBossBar ''A'' Red Solid [] :: nat boss_bar"
  let ?b = "EndstoneBossBar ''B'' Blue Solid [] :: nat boss_bar"
  have v: "visible ?a" "visible ?b" by (simp_all add: EndstoneBossBar_def)
  have "contents ?b = (''B'', ONE, Blue, Solid)" by (simp add: contents_def EndstoneBossBar_def)
  then show ?thesis
    using one_bar_per_player [OF demo_client_laws v surjective_pairing surjective_pairing surjective_pairing, of 1 7 "\<lambda>_. fresh demo_client"]
    by simp
qed

end
