(* ===== verification/Scoreboard.thy ===== *)
theory Scoreboard
  imports Prelude
begin

text \<open>
  Scoreboards: the game's scoreboard as far as the sources define it (\<open>src/bedrock/world/scores\<close>) and the wrappers the plugin
  API offers (\<open>src/endstone/core/scoreboard\<close>). The virtual functions of the game's server (identifiers for new entries, the
  display slots, notifications) are parameters with the record \<open>board_game\<close>; the lemmas show what scores and display slots
  hold after a call.
\<close>

subsection \<open>The game's scoreboard\<close>

datatype sort_order = Ascending | Descending
datatype render_type = Integer | Hearts

record criteria =
  criteria_name :: string
  is_read_only :: bool
  render_type :: render_type

type_synonym sb_id = "64 word"

definition INVALID :: sb_id where
  "INVALID = - 1"

record objective =
  obj_name :: string
  display_name :: string
  obj_criteria :: criteria
  scores :: "sb_id \<rightharpoonup> 32 word"

text \<open>The three tables of \<open>IdentityDictionary\<close> are one map over tagged keys, \<open>ids\<close>; \<open>defs\<close> is its \<open>identity_defs_\<close> and \<open>refs\<close>
  the counter of each \<open>ScoreboardIdentityRef\<close>. Objectives are objects with an address; \<open>alive\<close> holds those that exist.\<close>

datatype identity = Player_Id "64 word" | Entity_Id "64 word" | Fake_Id string

record board =
  objectives :: "(string \<times> nat) list"
  alive :: "nat \<rightharpoonup> objective"
  next_address :: nat
  criterias :: "string \<rightharpoonup> criteria"
  displays :: "string \<rightharpoonup> nat \<times> sort_order"
  ids :: "identity \<rightharpoonup> sb_id"
  defs :: "sb_id \<rightharpoonup> identity"
  refs :: "sb_id \<rightharpoonup> 32 word"

record board_game =
  create_id :: "identity \<Rightarrow> board \<Rightarrow> sb_id \<times> board"
  set_display :: "string \<Rightarrow> nat \<Rightarrow> sort_order \<Rightarrow> board \<Rightarrow> board"
  clear_display :: "string \<Rightarrow> board \<Rightarrow> board"
  on_added :: "nat \<Rightarrow> board \<Rightarrow> board"
  on_removed :: "nat \<Rightarrow> board \<Rightarrow> board"
  on_score_changed :: "sb_id \<Rightarrow> nat \<Rightarrow> board \<Rightarrow> board"
  on_score_removed :: "sb_id \<Rightarrow> nat \<Rightarrow> board \<Rightarrow> board"

text \<open>A new identifier is valid and entered for its key with no references; a display slot is set and cleared as its name says;
  the notifications leave the tables alone.\<close>

definition board_laws :: "board_game \<Rightarrow> bool" where
  "board_laws g \<longleftrightarrow>
     (\<forall>k b i b'. create_id g k b = (i, b') \<longrightarrow> i \<noteq> INVALID \<and> b' = b\<lparr>ids := (ids b)(k \<mapsto> i), defs := (defs b)(i \<mapsto> k), refs := (refs b)(i \<mapsto> 0)\<rparr>) \<and>
     (\<forall>s a o' b. set_display g s a o' b = b\<lparr>displays := (displays b)(s \<mapsto> (a, o'))\<rparr>) \<and>
     (\<forall>s b. clear_display g s b = b\<lparr>displays := (displays b)(s := None)\<rparr>) \<and>
     (\<forall>a b. on_added g a b = b \<and> on_removed g a b = b) \<and>
     (\<forall>i a b. on_score_changed g i a b = b \<and> on_score_removed g i a b = b)"

text \<open>On this board, new identifiers are not in use.\<close>

definition fresh_ids :: "board_game \<Rightarrow> board \<Rightarrow> bool" where
  "fresh_ids g b \<longleftrightarrow> (\<forall>k. defs b (fst (create_id g k b)) = None \<and>
     (\<forall>a ob. alive b a = Some ob \<longrightarrow> scores ob (fst (create_id g k b)) = None))"

definition DISPLAY_SLOT_LIST :: string where "DISPLAY_SLOT_LIST = ''list''"
definition DISPLAY_SLOT_SIDEBAR :: string where "DISPLAY_SLOT_SIDEBAR = ''sidebar''"
definition DISPLAY_SLOT_BELOWNAME :: string where "DISPLAY_SLOT_BELOWNAME = ''belowname''"

definition new_objective :: "string \<Rightarrow> criteria \<Rightarrow> objective" where
  "new_objective n c = \<lparr>obj_name = n, display_name = n, obj_criteria = c, scores = Map.empty\<rparr>"

definition board_getObjective :: "string \<Rightarrow> board \<Rightarrow> nat option" where
  "board_getObjective n b = map_of (objectives b) n"

definition board_addObjective :: "board_game \<Rightarrow> string \<Rightarrow> string \<Rightarrow> criteria \<Rightarrow> board \<Rightarrow> nat option \<times> board" where
  "board_addObjective g n dn c b = (if board_getObjective n b \<noteq> None then (None, b)
     else let a = next_address b;
              b' = b\<lparr>objectives := AList.update n a (objectives b),
                alive := (alive b)(a \<mapsto> (new_objective n c)\<lparr>display_name := dn\<rparr>), next_address := Suc a\<rparr>
          in (Some a, on_added g a b'))"

definition board_removeObjective :: "board_game \<Rightarrow> nat \<Rightarrow> board \<Rightarrow> bool \<times> board" where
  "board_removeObjective g a b = (case alive b a of
     None \<Rightarrow> (False, b)
   | Some ob \<Rightarrow> if map_of (objectives b) (obj_name ob) = None then (False, b)
       else let b1 = on_removed g a b in
         (True, b1\<lparr>objectives := AList.delete (obj_name ob) (objectives b1), alive := (alive b1)(a := None),
            displays := (\<lambda>s. case displays b1 s of Some (a', o') \<Rightarrow> if a' = a then None else Some (a', o') | None \<Rightarrow> None)\<rparr>))"

definition getDisplayObjective :: "string \<Rightarrow> board \<Rightarrow> (nat \<times> sort_order) option" where
  "getDisplayObjective s b = displays b s"

definition getDisplayObjectiveSlotNames :: "string list" where
  "getDisplayObjectiveSlotNames = [DISPLAY_SLOT_LIST, DISPLAY_SLOT_SIDEBAR, DISPLAY_SLOT_BELOWNAME]"

definition isDisplaying :: "nat \<Rightarrow> nat \<times> sort_order \<Rightarrow> bool" where
  "isDisplaying a d \<longleftrightarrow> fst d = a"

definition getCriteria :: "string \<Rightarrow> board \<Rightarrow> criteria option" where
  "getCriteria n b = criterias b n"

text \<open>\<open>IdentityDictionary::getScoreboardId\<close>\<close>

definition dict_id :: "identity \<Rightarrow> board \<Rightarrow> sb_id" where
  "dict_id k b = (case ids b k of Some i \<Rightarrow> i | None \<Rightarrow> INVALID)"

text \<open>\<open>std::from_chars\<close> into a 64-bit integer: the longest numeral at the front, if there is one and it is in range.\<close>

definition is_digit :: "char \<Rightarrow> bool" where
  "is_digit c \<longleftrightarrow> (let n = of_char c :: nat in 48 \<le> n \<and> n \<le> 57)"

definition from_chars :: "string \<Rightarrow> 64 word option" where
  "from_chars s = (let neg = (s \<noteq> [] \<and> hd s = CHR ''-''); ds = takeWhile is_digit (if neg then tl s else s);
     n = (if neg then - int (undecimal ds) else int (undecimal ds)) in
     if ds = [] \<or> \<not> (- (2 ^ 63) \<le> n \<and> n < 2 ^ 63) then None else Some (word_of_int n))"

definition player_id_of :: "64 word \<Rightarrow> board \<Rightarrow> sb_id" where
  "player_id_of u b = dict_id (Player_Id u) b"

definition actor_id_of :: "64 word \<Rightarrow> bool \<Rightarrow> board \<Rightarrow> sb_id" where
  "actor_id_of u is_player b = (if is_player then player_id_of u b else dict_id (Entity_Id u) b)"

definition fake_id_of :: "string \<Rightarrow> board \<Rightarrow> sb_id" where
  "fake_id_of s b = (if dict_id (Fake_Id s) b \<noteq> INVALID then dict_id (Fake_Id s) b
     else case from_chars s of Some u \<Rightarrow> dict_id (Entity_Id u) b | None \<Rightarrow> dict_id (Fake_Id s) b)"

definition clearIdentity :: "sb_id \<Rightarrow> board \<Rightarrow> bool \<times> board" where
  "clearIdentity i b = (case defs b i of
     None \<Rightarrow> (False, b)
   | Some k \<Rightarrow> (True, b\<lparr>ids := (ids b)(k := None), defs := (defs b)(i := None)\<rparr>))"

definition clearScoreboardIdentity :: "sb_id \<Rightarrow> board \<Rightarrow> bool \<times> board" where
  "clearScoreboardIdentity i b = (case clearIdentity i b of
     (True, b') \<Rightarrow> (True, b'\<lparr>refs := (refs b')(i := None)\<rparr>)
   | (False, b') \<Rightarrow> (False, b'))"

definition hasScore :: "sb_id \<Rightarrow> objective \<Rightarrow> bool" where
  "hasScore i ob \<longleftrightarrow> scores ob i \<noteq> None"

definition getPlayerScore :: "sb_id \<Rightarrow> objective \<Rightarrow> bool \<times> 32 word" where
  "getPlayerScore i ob = (case scores ob i of Some v \<Rightarrow> (True, v) | None \<Rightarrow> (False, 0))"

datatype set_function = Set | Add | Subtract
datatype operation_result = Success | IntegerOverflow | ReadOnlyCriteria | UnknownId | UnknownOperator

text \<open>A missing score is created as 0 first; the sums are those of the machine, where the sources leave an overflow undefined.\<close>

definition objective_modify :: "sb_id \<Rightarrow> 32 word \<Rightarrow> set_function \<Rightarrow> objective \<Rightarrow> operation_result \<times> objective" where
  "objective_modify i v f ob = (if is_read_only (obj_criteria ob) then (ReadOnlyCriteria, ob)
     else let old = snd (getPlayerScore i ob);
              new = (case f of Set \<Rightarrow> v | Add \<Rightarrow> old + v | Subtract \<Rightarrow> old - v)
          in (Success, ob\<lparr>scores := (scores ob)(i \<mapsto> new)\<rparr>))"

definition modifyScoreInObjective :: "sb_id \<Rightarrow> 32 word \<Rightarrow> nat \<Rightarrow> objective \<Rightarrow> 32 word \<Rightarrow> set_function \<Rightarrow> board \<Rightarrow> operation_result \<times> board" where
  "modifyScoreInObjective i n a ob v f b =
     (let was_set = fst (getPlayerScore i ob); (r, ob') = objective_modify i v f ob in
      (r, b\<lparr>alive := (alive b)(a \<mapsto> ob'),
            refs := (refs b)(i \<mapsto> (if \<not> was_set \<and> r = Success then n + 1 else n))\<rparr>))"

definition modifyPlayerScore :: "board_game \<Rightarrow> sb_id \<Rightarrow> nat \<Rightarrow> 32 word \<Rightarrow> set_function \<Rightarrow> board \<Rightarrow> operation_result \<times> board" where
  "modifyPlayerScore g i a v f b = (case (refs b i, alive b a) of
     (Some n, Some ob) \<Rightarrow> (let (r, b') = modifyScoreInObjective i n a ob v f b in (r, if r = Success then on_score_changed g i a b' else b'))
   | _ \<Rightarrow> (UnknownId, b))"

text \<open>The counter is unsigned: it is 0 or less when it is 0. The score itself stays in the objective.\<close>

definition removeFromObjective :: "sb_id \<Rightarrow> 32 word \<Rightarrow> objective \<Rightarrow> board \<Rightarrow> bool \<times> board" where
  "removeFromObjective i n ob b = (if \<not> fst (getPlayerScore i ob) then (False, b)
     else let b1 = b\<lparr>refs := (refs b)(i \<mapsto> n - 1)\<rparr> in
       (True, if n - 1 = 0 then snd (clearScoreboardIdentity i b1) else b1))"

definition resetObjectiveScore :: "board_game \<Rightarrow> sb_id \<Rightarrow> nat \<Rightarrow> board \<Rightarrow> bool \<times> board" where
  "resetObjectiveScore g i a b = (case alive b a of
     None \<Rightarrow> (False, b)
   | Some ob \<Rightarrow> if \<not> fst (getPlayerScore i ob) then (False, b)
       else (case refs b i of None \<Rightarrow> (False, b) | Some n \<Rightarrow> removeFromObjective i n ob (on_score_removed g i a b)))"

definition resetPlayerScore :: "board_game \<Rightarrow> sb_id \<Rightarrow> board \<Rightarrow> board" where
  "resetPlayerScore g i b = fold (\<lambda>a b. snd (resetObjectiveScore g i a b)) (map snd (objectives b)) b"

subsection \<open>The scoreboard of the plugin API\<close>

datatype sb_error = Illegal_State | Runtime_Error | Out_Of_Range

datatype display_slot = Below_Name | Player_List | Side_Bar

text \<open>An entry is a player or an actor, null or given by its unique identifier, or a name. An objective of the API is the address
  of the game's objective it points to.\<close>

datatype entry = Null | Player_Entry "64 word" | Actor_Entry "64 word" bool | Fake_Entry string

definition toMinecraftSlot :: "display_slot \<Rightarrow> string" where
  "toMinecraftSlot s = (case s of Below_Name \<Rightarrow> ''belowname'' | Player_List \<Rightarrow> ''list'' | Side_Bar \<Rightarrow> ''sidebar'')"

definition fromMinecraftSlot :: "string \<Rightarrow> sb_error + display_slot" where
  "fromMinecraftSlot s = (if s = DISPLAY_SLOT_LIST then Inr Player_List else if s = DISPLAY_SLOT_SIDEBAR then Inr Side_Bar
     else if s = DISPLAY_SLOT_BELOWNAME then Inr Below_Name else Inl Out_Of_Range)"

definition getScoreboardId :: "entry \<Rightarrow> board \<Rightarrow> sb_id" where
  "getScoreboardId e b = (case e of
     Null \<Rightarrow> INVALID
   | Player_Entry u \<Rightarrow> player_id_of u b
   | Actor_Entry u p \<Rightarrow> actor_id_of u p b
   | Fake_Entry s \<Rightarrow> fake_id_of s b)"

definition getOrCreateScoreboardId :: "board_game \<Rightarrow> entry \<Rightarrow> board \<Rightarrow> sb_id \<times> board" where
  "getOrCreateScoreboardId g e b = (if getScoreboardId e b \<noteq> INVALID then (getScoreboardId e b, b)
     else case e of
       Null \<Rightarrow> (INVALID, b)
     | Player_Entry u \<Rightarrow> create_id g (Player_Id u) b
     | Actor_Entry u p \<Rightarrow> create_id g (if p then Player_Id u else Entity_Id u) b
     | Fake_Entry s \<Rightarrow> create_id g (Fake_Id s) b)"

text \<open>The only criteria the API knows is \<open>Dummy\<close>.\<close>

definition getCriteriaName :: string where
  "getCriteriaName = ''dummy''"

definition addObjective4 :: "board_game \<Rightarrow> string \<Rightarrow> string \<Rightarrow> render_type \<Rightarrow> board \<Rightarrow> sb_error + nat \<times> board" where
  "addObjective4 g n dn r b = (case getCriteria getCriteriaName b of
     None \<Rightarrow> Inl Illegal_State
   | Some c \<Rightarrow> (case board_addObjective g n dn c b of
       (None, _) \<Rightarrow> Inl Illegal_State
     | (Some a, b') \<Rightarrow> Inr (a, b')))"

definition addObjective3 :: "board_game \<Rightarrow> string \<Rightarrow> string \<Rightarrow> board \<Rightarrow> sb_error + nat \<times> board" where
  "addObjective3 g n dn b = addObjective4 g n n Integer b"

definition addObjective :: "board_game \<Rightarrow> string \<Rightarrow> board \<Rightarrow> sb_error + nat \<times> board" where
  "addObjective g n b = addObjective3 g n n b"

definition getObjective :: "string \<Rightarrow> board \<Rightarrow> nat option" where
  "getObjective n b = board_getObjective n b"

definition getObjectiveAt :: "display_slot \<Rightarrow> board \<Rightarrow> nat option" where
  "getObjectiveAt s b = map_option fst (getDisplayObjective (toMinecraftSlot s) b)"

definition getObjectives :: "board \<Rightarrow> nat list" where
  "getObjectives b = map snd (objectives b)"

definition getObjectivesByCriteria :: "board \<Rightarrow> nat list" where
  "getObjectivesByCriteria b =
     filter (\<lambda>a. case alive b a of Some ob \<Rightarrow> criteria_name (obj_criteria ob) = getCriteriaName | None \<Rightarrow> False) (map snd (objectives b))"

definition getScores :: "entry \<Rightarrow> board \<Rightarrow> (nat \<times> entry) list" where
  "getScores e b = map (\<lambda>a. (a, e)) (getObjectives b)"

definition resetScores :: "board_game \<Rightarrow> entry \<Rightarrow> board \<Rightarrow> board" where
  "resetScores g e b = (if getScoreboardId e b \<noteq> INVALID then resetPlayerScore g (getScoreboardId e b) b else b)"

text \<open>\<open>order\<close> is the order in which the unordered map \<open>identity_refs_\<close> is gone through; players and actors are given by their
  unique identifiers.\<close>

definition entries_of :: "64 word list \<Rightarrow> (64 word \<times> bool) list \<Rightarrow> identity option \<Rightarrow> sb_error + entry list" where
  "entries_of online actors k = (case k of
     None \<Rightarrow> Inl Runtime_Error
   | Some (Player_Id u) \<Rightarrow> Inr (map Player_Entry (filter (\<lambda>v. v = u) online))
   | Some (Entity_Id u) \<Rightarrow> Inr (map (\<lambda>(v, p). Actor_Entry v p) (filter (\<lambda>(v, p). v = u) actors))
   | Some (Fake_Id s) \<Rightarrow> Inr [Fake_Entry s])"

definition getEntries :: "64 word list \<Rightarrow> (64 word \<times> bool) list \<Rightarrow> sb_id list \<Rightarrow> board \<Rightarrow> sb_error + entry list" where
  "getEntries online actors order b =
     fold_chain (\<lambda>i es. chain (entries_of online actors (defs b i)) (\<lambda>new. Inr (es @ new))) order []"

definition clearSlot :: "board_game \<Rightarrow> display_slot \<Rightarrow> board \<Rightarrow> board" where
  "clearSlot g s b = clear_display g (toMinecraftSlot s) b"

subsection \<open>Objectives and scores of the plugin API\<close>

definition checkState :: "nat \<Rightarrow> board \<Rightarrow> sb_error + objective" where
  "checkState a b = (case alive b a of None \<Rightarrow> Inl Illegal_State | Some ob \<Rightarrow> Inr ob)"

definition getName :: "nat \<Rightarrow> board \<Rightarrow> sb_error + string" where
  "getName a b = chain (checkState a b) (\<lambda>ob. Inr (obj_name ob))"

definition getDisplayName :: "nat \<Rightarrow> board \<Rightarrow> sb_error + string" where
  "getDisplayName a b = chain (checkState a b) (\<lambda>ob. Inr (display_name ob))"

definition setDisplayName :: "string \<Rightarrow> nat \<Rightarrow> board \<Rightarrow> sb_error + board" where
  "setDisplayName n a b = chain (checkState a b) (\<lambda>ob. Inr (b\<lparr>alive := (alive b)(a \<mapsto> ob\<lparr>display_name := n\<rparr>)\<rparr>))"

definition isModifiable :: "nat \<Rightarrow> board \<Rightarrow> sb_error + bool" where
  "isModifiable a b = chain (checkState a b) (\<lambda>ob. Inr (\<not> is_read_only (obj_criteria ob)))"

definition unregister :: "board_game \<Rightarrow> nat \<Rightarrow> board \<Rightarrow> sb_error + board" where
  "unregister g a b = chain (checkState a b) (\<lambda>_. Inr (snd (board_removeObjective g a b)))"

definition getRenderType :: "nat \<Rightarrow> board \<Rightarrow> sb_error + render_type" where
  "getRenderType a b = chain (checkState a b) (\<lambda>ob. Inr (render_type (obj_criteria ob)))"

definition displaying :: "nat \<Rightarrow> board \<Rightarrow> string \<Rightarrow> bool" where
  "displaying a b s \<longleftrightarrow> (case getDisplayObjective s b of Some d \<Rightarrow> isDisplaying a d | None \<Rightarrow> False)"

definition isDisplayed :: "nat \<Rightarrow> board \<Rightarrow> sb_error + bool" where
  "isDisplayed a b = chain (checkState a b) (\<lambda>_. Inr (list_ex (displaying a b) getDisplayObjectiveSlotNames))"

definition getDisplaySlot :: "nat \<Rightarrow> board \<Rightarrow> sb_error + display_slot option" where
  "getDisplaySlot a b = chain (checkState a b) (\<lambda>_. case find (displaying a b) getDisplayObjectiveSlotNames of
     Some s \<Rightarrow> chain (fromMinecraftSlot s) (\<lambda>d. Inr (Some d)) | None \<Rightarrow> Inr None)"

definition getSortOrder :: "nat \<Rightarrow> board \<Rightarrow> sb_error + sort_order option" where
  "getSortOrder a b = chain (checkState a b) (\<lambda>_. case find (displaying a b) getDisplayObjectiveSlotNames of
     Some s \<Rightarrow> Inr (map_option snd (getDisplayObjective s b)) | None \<Rightarrow> Inr None)"

text \<open>The loop of the setters: the objective is taken out of every slot; the first one found is remembered.\<close>

fun clear_slots :: "board_game \<Rightarrow> nat \<Rightarrow> string list \<Rightarrow> (string \<times> sort_order) option \<Rightarrow> board \<Rightarrow> (string \<times> sort_order) option \<times> board" where
  "clear_slots g a [] found b = (found, b)"
| "clear_slots g a (s # ss) found b = (case getDisplayObjective s b of
     Some d \<Rightarrow> if isDisplaying a d
       then clear_slots g a ss (case found of None \<Rightarrow> Some (s, snd d) | Some x \<Rightarrow> Some x) (clear_display g s b)
       else clear_slots g a ss found b
   | None \<Rightarrow> clear_slots g a ss found b)"

definition setDisplaySlot :: "board_game \<Rightarrow> display_slot option \<Rightarrow> nat \<Rightarrow> board \<Rightarrow> sb_error + board" where
  "setDisplaySlot g slot a b = chain (checkState a b) (\<lambda>_.
     let (found, b1) = clear_slots g a getDisplayObjectiveSlotNames None b in
     case slot of None \<Rightarrow> Inr b1
     | Some s \<Rightarrow> Inr (set_display g (toMinecraftSlot s) a (case found of Some (_, o') \<Rightarrow> o' | None \<Rightarrow> Ascending) b1))"

definition setSortOrder :: "board_game \<Rightarrow> sort_order \<Rightarrow> nat \<Rightarrow> board \<Rightarrow> sb_error + board" where
  "setSortOrder g o' a b = chain (checkState a b) (\<lambda>_.
     let (found, b1) = clear_slots g a getDisplayObjectiveSlotNames None b in
     case found of None \<Rightarrow> Inr b1 | Some (s, _) \<Rightarrow> Inr (set_display g s a o' b1))"

definition setDisplay :: "board_game \<Rightarrow> display_slot option \<Rightarrow> sort_order \<Rightarrow> nat \<Rightarrow> board \<Rightarrow> sb_error + board" where
  "setDisplay g slot o' a b = chain (checkState a b) (\<lambda>_.
     let (_, b1) = clear_slots g a getDisplayObjectiveSlotNames None b in
     case slot of None \<Rightarrow> Inr b1 | Some s \<Rightarrow> Inr (set_display g (toMinecraftSlot s) a o' b1))"

definition getValue :: "nat \<Rightarrow> entry \<Rightarrow> board \<Rightarrow> sb_error + 32 word" where
  "getValue a e b = chain (checkState a b) (\<lambda>ob. let i = getScoreboardId e b in
     if i \<noteq> INVALID \<and> hasScore i ob then Inr (snd (getPlayerScore i ob)) else Inr 0)"

definition isScoreSet :: "nat \<Rightarrow> entry \<Rightarrow> board \<Rightarrow> sb_error + bool" where
  "isScoreSet a e b = chain (checkState a b) (\<lambda>ob. let i = getScoreboardId e b in Inr (i \<noteq> INVALID \<and> hasScore i ob))"

text \<open>An identifier that was made stays when the call throws afterwards.\<close>

definition setValue :: "board_game \<Rightarrow> 32 word \<Rightarrow> nat \<Rightarrow> entry \<Rightarrow> board \<Rightarrow> (sb_error + unit) \<times> board" where
  "setValue g v a e b = (case checkState a b of
     Inl err \<Rightarrow> (Inl err, b)
   | Inr _ \<Rightarrow> (let (i, b1) = getOrCreateScoreboardId g e b in
       if i = INVALID then (Inl Illegal_State, b1)
       else (case modifyPlayerScore g i a v Set b1 of
           (Success, b2) \<Rightarrow> (Inr (), b2)
         | (_, b2) \<Rightarrow> (Inl Runtime_Error, b2))))"

subsection \<open>Well-formed boards\<close>

definition board_ok :: "board \<Rightarrow> bool" where
  "board_ok b \<longleftrightarrow>
     (\<forall>n a. map_of (objectives b) n = Some a \<longrightarrow> (\<exists>ob. alive b a = Some ob \<and> obj_name ob = n)) \<and>
     (\<forall>a ob. alive b a = Some ob \<longrightarrow> map_of (objectives b) (obj_name ob) = Some a \<and> a < next_address b) \<and>
     distinct (map fst (objectives b)) \<and>
     (\<forall>s d. displays b s = Some d \<longrightarrow> alive b (fst d) \<noteq> None) \<and>
     (\<forall>k i. ids b k = Some i \<longleftrightarrow> defs b i = Some k) \<and> defs b INVALID = None \<and>
     dom (refs b) = dom (defs b)"

lemma board_ok_ids: "board_ok b \<Longrightarrow> ids b k = Some i \<Longrightarrow> i \<noteq> INVALID \<and> defs b i = Some k \<and> refs b i \<noteq> None"
  unfolding board_ok_def by (metis domIff option.discI)

lemma dict_id_Some: "board_ok b \<Longrightarrow> i \<noteq> INVALID \<Longrightarrow> dict_id k b = i \<longleftrightarrow> ids b k = Some i"
  by (cases "ids b k") (use board_ok_ids [of b k] in \<open>auto simp: dict_id_def\<close>)

lemma dict_id_None: "board_ok b \<Longrightarrow> dict_id k b = INVALID \<longleftrightarrow> ids b k = None"
  by (cases "ids b k") (use board_ok_ids [of b k] in \<open>auto simp: dict_id_def\<close>)

text \<open>The identifier of an entry is one of the table.\<close>

lemma getScoreboardId_key:
  assumes "board_ok b" "getScoreboardId e b = i" "i \<noteq> INVALID"
  obtains k where "ids b k = Some i"
  using assms by (auto simp: getScoreboardId_def player_id_of_def actor_id_of_def fake_id_of_def dict_id_Some
    split: entry.splits if_splits option.splits)

lemma getScoreboardId_refs: "board_ok b \<Longrightarrow> getScoreboardId e b \<noteq> INVALID \<Longrightarrow> refs b (getScoreboardId e b) \<noteq> None"
  by (metis getScoreboardId_key board_ok_ids)

text \<open>Only the table of identifiers matters for an entry.\<close>

lemma getScoreboardId_cong: "ids b' = ids b \<Longrightarrow> getScoreboardId e b' = getScoreboardId e b"
  by (cases e) (simp_all add: getScoreboardId_def player_id_of_def actor_id_of_def fake_id_of_def dict_id_def split: option.split)

definition main_key :: "entry \<Rightarrow> identity" where
  "main_key e = (case e of Player_Entry u \<Rightarrow> Player_Id u | Actor_Entry u p \<Rightarrow> (if p then Player_Id u else Entity_Id u) | Fake_Entry s \<Rightarrow> Fake_Id s
     | Null \<Rightarrow> Fake_Id [])"

lemma getOrCreate_create:
  "e \<noteq> Null \<Longrightarrow> getScoreboardId e b = INVALID \<Longrightarrow> getOrCreateScoreboardId g e b = create_id g (main_key e) b"
  by (cases e) (simp_all add: getOrCreateScoreboardId_def main_key_def)

text \<open>A new key of the table changes the identifier of an entry to the new one or not at all.\<close>

lemma getScoreboardId_new:
  assumes "ids b k = None" "i \<noteq> INVALID"
  shows "getScoreboardId e (b\<lparr>ids := (ids b)(k \<mapsto> i), defs := d, refs := r\<rparr>) \<in> {i, getScoreboardId e b}"
    and "getScoreboardId e (b\<lparr>ids := (ids b)(k \<mapsto> i), defs := d, refs := r\<rparr>) = i \<Longrightarrow>
      getScoreboardId e b = i \<or> getScoreboardId e b = INVALID \<or> (\<exists>s. e = Fake_Entry s \<and> k = Fake_Id s)"
  using assms by (auto simp: getScoreboardId_def player_id_of_def actor_id_of_def fake_id_of_def dict_id_def
    split: entry.splits if_splits option.splits)

lemma getScoreboardId_main:
  assumes "ids b (main_key e) = None" "i \<noteq> INVALID" "e \<noteq> Null"
  shows "getScoreboardId e (b\<lparr>ids := (ids b)(main_key e \<mapsto> i), defs := d, refs := r\<rparr>) = i"
  using assms by (cases e) (auto simp: getScoreboardId_def main_key_def player_id_of_def actor_id_of_def fake_id_of_def dict_id_def)

lemma main_key_free: "board_ok b \<Longrightarrow> e \<noteq> Null \<Longrightarrow> getScoreboardId e b = INVALID \<Longrightarrow> ids b (main_key e) = None"
  by (cases e) (auto simp: getScoreboardId_def main_key_def player_id_of_def actor_id_of_def fake_id_of_def dict_id_None
    split: if_splits option.splits)

definition unscored :: "sb_id \<Rightarrow> board \<Rightarrow> bool" where
  "unscored i b \<longleftrightarrow> (\<forall>a ob. alive b a = Some ob \<longrightarrow> scores ob i = None)"

lemma getOrCreate_ok:
  assumes "board_laws g" "board_ok b" "fresh_ids g b" "e \<noteq> Null" "getOrCreateScoreboardId g e b = (i, b1)"
  shows "i \<noteq> INVALID" "board_ok b1" "refs b1 i \<noteq> None" "alive b1 = alive b" "objectives b1 = objectives b" "getScoreboardId e b1 = i"
    "\<And>e'. getScoreboardId e' b1 \<noteq> i \<Longrightarrow> getScoreboardId e' b1 = getScoreboardId e' b"
    "\<And>e'. getScoreboardId e' b1 = i \<Longrightarrow> getScoreboardId e' b = i \<or> getScoreboardId e' b = INVALID \<and> unscored i b"
proof -
  have r: "i \<noteq> INVALID \<and> board_ok b1 \<and> refs b1 i \<noteq> None \<and> alive b1 = alive b \<and> objectives b1 = objectives b \<and> getScoreboardId e b1 = i \<and>
    (\<forall>e'. getScoreboardId e' b1 \<noteq> i \<longrightarrow> getScoreboardId e' b1 = getScoreboardId e' b) \<and>
    (\<forall>e'. getScoreboardId e' b1 = i \<longrightarrow> getScoreboardId e' b = i \<or> getScoreboardId e' b = INVALID \<and> unscored i b)"
  proof (cases "getScoreboardId e b = INVALID")
    case False
    then have i: "getScoreboardId e b = i" and b1: "b = b1" using assms(5) by (auto simp: getOrCreateScoreboardId_def)
    show ?thesis using False assms(2) getScoreboardId_refs [OF assms(2) False] i unfolding b1 by simp
  next
    case True
    let ?k = "main_key e"
    have c: "create_id g ?k b = (i, b1)" using getOrCreate_create [OF assms(4) True] assms(5) by simp
    have i: "i \<noteq> INVALID" "b1 = b\<lparr>ids := (ids b)(?k \<mapsto> i), defs := (defs b)(i \<mapsto> ?k), refs := (refs b)(i \<mapsto> 0)\<rparr>"
      using assms(1) c unfolding board_laws_def by blast+
    have f: "defs b i = None" "unscored i b" using assms(3) c unfolding fresh_ids_def unscored_def by (metis fst_conv)+
    have k: "ids b ?k = None" by (rule main_key_free [OF assms(2,4) True])
    have "board_ok b1" using assms(2) i f(1) k unfolding board_ok_def i(2) by auto (metis option.discI)+
    moreover have "getScoreboardId e' b = i \<or> getScoreboardId e' b = INVALID" if "getScoreboardId e' b1 = i" for e'
    proof -
      have "\<exists>s. e' = Fake_Entry s \<and> ?k = Fake_Id s \<Longrightarrow> e' = e" using assms(4) by (cases e) (auto simp: main_key_def split: if_splits)
      then show ?thesis using getScoreboardId_new(2) [OF k i(1), of e'] that True i(2) by metis
    qed
    moreover have "getScoreboardId e' b1 = getScoreboardId e' b" if "getScoreboardId e' b1 \<noteq> i" for e'
      using getScoreboardId_new(1) [OF k i(1), of e'] that i(2) by auto
    moreover have "getScoreboardId e b1 = i" using getScoreboardId_main [OF k i(1) assms(4)] i(2) by simp
    ultimately show ?thesis using i f by simp
  qed
  show "i \<noteq> INVALID" "board_ok b1" "refs b1 i \<noteq> None" "alive b1 = alive b" "objectives b1 = objectives b" "getScoreboardId e b1 = i"
    using r by simp_all
  show "getScoreboardId e' b1 = getScoreboardId e' b" if "getScoreboardId e' b1 \<noteq> i" for e' using r that by blast
  show "getScoreboardId e' b = i \<or> getScoreboardId e' b = INVALID \<and> unscored i b" if "getScoreboardId e' b1 = i" for e' using r that by blast
qed

lemma board_ok_update:
  assumes "board_ok b" "alive b a = Some ob" "obj_name ob' = obj_name ob" "dom r = dom (refs b)"
  shows "board_ok (b\<lparr>alive := (alive b)(a \<mapsto> ob'), refs := r\<rparr>)"
proof -
  let ?al = "(alive b)(a \<mapsto> ob')"
  have "\<exists>ob. ?al a' = Some ob \<and> obj_name ob = n" if "map_of (objectives b) n = Some a'" for n a'
    using assms(1-3) that unfolding board_ok_def by (metis fun_upd_apply option.inject)
  moreover have "map_of (objectives b) (obj_name o') = Some a' \<and> a' < next_address b" if "?al a' = Some o'" for a' o'
    using assms(1-3) that unfolding board_ok_def by (metis fun_upd_apply option.inject)
  moreover have "?al (fst d) \<noteq> None" if "displays b s = Some d" for s d
    using assms(1) that unfolding board_ok_def by (metis fun_upd_apply option.discI)
  ultimately show ?thesis using assms(1,4) by (simp only: board_ok_def board.simps) simp
qed

text \<open>The score an objective holds for an identifier, as the API reads it.\<close>

definition score_at :: "nat \<Rightarrow> sb_id \<Rightarrow> board \<Rightarrow> 32 word option" where
  "score_at a i b = (if i = INVALID then None else case alive b a of Some ob \<Rightarrow> scores ob i | None \<Rightarrow> None)"

lemma getValue_score:
  "getValue a e b = (if alive b a = None then Inl Illegal_State
     else Inr (case score_at a (getScoreboardId e b) b of Some v \<Rightarrow> v | None \<Rightarrow> 0))"
  by (auto simp: getValue_def checkState_def score_at_def hasScore_def getPlayerScore_def Let_def split: option.split)

lemma isScoreSet_score:
  "isScoreSet a e b = (if alive b a = None then Inl Illegal_State else Inr (score_at a (getScoreboardId e b) b \<noteq> None))"
  by (auto simp: isScoreSet_def checkState_def score_at_def hasScore_def Let_def split: option.split)

text \<open>A score that is set is the one that is read: after setValue on an objective that can be written, the entry has this
  value there, every other objective and every entry with another identifier has what it had, and the board stays well
  formed. The game makes identifiers that are not in use.\<close>

theorem setValue_getValue:
  assumes "board_laws g" "board_ok b" "fresh_ids g b" "alive b a = Some ob" "\<not> is_read_only (obj_criteria ob)" "e \<noteq> Null"
  shows "\<exists>b'. setValue g v a e b = (Inr (), b') \<and> board_ok b' \<and> getValue a e b' = Inr v \<and> isScoreSet a e b' = Inr True \<and>
    (\<forall>a' e'. a' \<noteq> a \<or> getScoreboardId e' b' \<noteq> getScoreboardId e b' \<longrightarrow>
      getValue a' e' b' = getValue a' e' b \<and> isScoreSet a' e' b' = isScoreSet a' e' b)"
proof -
  obtain i b1 where c: "getOrCreateScoreboardId g e b = (i, b1)" by (cases "getOrCreateScoreboardId g e b")
  note o = getOrCreate_ok [OF assms(1-3,6) c]
  obtain n where n: "refs b1 i = Some n" using o(3) by auto
  let ?ob = "ob\<lparr>scores := (scores ob)(i \<mapsto> v)\<rparr>"
  let ?b = "b1\<lparr>alive := (alive b1)(a \<mapsto> ?ob), refs := (refs b1)(i \<mapsto> (if fst (getPlayerScore i ob) then n else n + 1))\<rparr>"
  have al: "alive b1 a = Some ob" using o(4) assms(4) by simp
  have "modifyPlayerScore g i a v Set b1 = (Success, ?b)"
    using n al assms(1,5) by (auto simp: modifyPlayerScore_def modifyScoreInObjective_def objective_modify_def Let_def board_laws_def)
  then have s: "setValue g v a e b = (Inr (), ?b)" using assms(4) c o(1) by (simp add: setValue_def checkState_def)
  have ok: "board_ok ?b" by (rule board_ok_update [OF o(2) al]) (use n in auto)
  have id: "getScoreboardId e' ?b = getScoreboardId e' b1" for e' by (rule getScoreboardId_cong) simp
  have at: "score_at a' j ?b = (if a' = a \<and> j = i then Some v else score_at a' j b)" if "j \<noteq> INVALID" for a' j
    using that al o(4) assms(4) by (auto simp: score_at_def)
  have other: "score_at a' (getScoreboardId e' ?b) ?b = score_at a' (getScoreboardId e' b) b"
    if h: "a' \<noteq> a \<or> getScoreboardId e' ?b \<noteq> getScoreboardId e ?b" for a' e'
  proof (cases "getScoreboardId e' b1 = i")
    case False
    then have "getScoreboardId e' b1 = getScoreboardId e' b" by (rule o(7))
    with False show ?thesis by (cases "getScoreboardId e' b = INVALID") (simp_all add: id at, simp add: score_at_def)
  next
    case True
    then have a': "a' \<noteq> a" using h o(6) id by simp
    from o(8) [OF True] show ?thesis
    proof
      assume "getScoreboardId e' b = i"
      then show ?thesis using True a' o(1) by (simp add: id at)
    next
      assume u: "getScoreboardId e' b = INVALID \<and> unscored i b"
      then have "score_at a' i b = None" by (auto simp: score_at_def unscored_def split: option.split)
      with u True a' o(1) show ?thesis by (simp add: id at) (simp add: score_at_def)
    qed
  qed
  have "alive ?b a' = None \<longleftrightarrow> alive b a' = None" for a' using o(4) assms(4) by auto
  then have rest: "getValue a' e' ?b = getValue a' e' b \<and> isScoreSet a' e' ?b = isScoreSet a' e' b"
    if "a' \<noteq> a \<or> getScoreboardId e' ?b \<noteq> getScoreboardId e ?b" for a' e'
    using other [OF that] by (simp only: getValue_score isScoreSet_score)
  have "score_at a (getScoreboardId e ?b) ?b = Some v" using o(1,6) by (simp add: id at)
  then have "getValue a e ?b = Inr v" "isScoreSet a e ?b = Inr True" by (simp_all add: getValue_score isScoreSet_score)
  with s ok rest show ?thesis by blast
qed

subsection \<open>Resetting scores\<close>

definition scored :: "board \<Rightarrow> sb_id \<Rightarrow> nat \<Rightarrow> bool" where
  "scored b i a \<longleftrightarrow> (case alive b a of Some ob \<Rightarrow> hasScore i ob | None \<Rightarrow> False)"

text \<open>The counter of an identifier is the number of objectives in which it has a score.\<close>

definition refs_exact :: "board \<Rightarrow> bool" where
  "refs_exact b \<longleftrightarrow> length (objectives b) < 2 ^ 32 \<and>
     (\<forall>i n. refs b i = Some n \<longrightarrow> unat n = length (filter (scored b i) (map snd (objectives b))))"

definition cleared :: "sb_id \<Rightarrow> identity \<Rightarrow> board \<Rightarrow> board" where
  "cleared i k b = b\<lparr>ids := (ids b)(k := None), defs := (defs b)(i := None), refs := (refs b)(i := None)\<rparr>"

lemma reset_idle: "\<not> scored b i a \<or> refs b i = None \<Longrightarrow> resetObjectiveScore g i a b = (False, b)"
  by (auto simp: resetObjectiveScore_def scored_def hasScore_def getPlayerScore_def split: option.splits)

lemma reset_one:
  assumes "board_laws g" "scored b i a" "refs b i = Some n" "defs b i = Some k"
  shows "snd (resetObjectiveScore g i a b) = (if n = 1 then cleared i k b else b\<lparr>refs := (refs b)(i \<mapsto> n - 1)\<rparr>)"
  using assms
  by (auto simp: resetObjectiveScore_def scored_def hasScore_def getPlayerScore_def removeFromObjective_def board_laws_def Let_def
    clearScoreboardIdentity_def clearIdentity_def cleared_def split: option.splits)

lemma reset_fold_idle:
  "refs b i = None \<or> (\<forall>a \<in> set xs. \<not> scored b i a) \<Longrightarrow> fold (\<lambda>a b. snd (resetObjectiveScore g i a b)) xs b = b"
  by (induction xs) (auto simp: reset_idle)

lemma scored_refs [simp]: "scored (b\<lparr>refs := r\<rparr>) i = scored b i" "scored (cleared i k b) = scored b"
  by (simp_all add: scored_def cleared_def fun_eq_iff)

text \<open>The loop over the objectives takes one reference for each score it finds and clears the identity with the last.\<close>

lemma reset_fold:
  assumes "board_laws g" "refs b i = Some n" "defs b i = Some k" "length (filter (scored b i) xs) \<le> unat n" "filter (scored b i) xs \<noteq> []"
  shows "fold (\<lambda>a b. snd (resetObjectiveScore g i a b)) xs b =
    (if length (filter (scored b i) xs) = unat n then cleared i k b
     else b\<lparr>refs := (refs b)(i \<mapsto> n - of_nat (length (filter (scored b i) xs)))\<rparr>)"
  using assms(2-5)
proof (induction xs arbitrary: b n)
  case (Cons x xs)
  let ?m = "length (filter (scored b i) xs)"
  show ?case
  proof (cases "scored b i x")
    case False
    then show ?thesis using Cons by (simp add: reset_idle)
  next
    case True
    let ?b = "b\<lparr>refs := (refs b)(i \<mapsto> n - 1)\<rparr>"
    have n: "unat n \<noteq> 0" "Suc ?m \<le> unat n" using Cons.prems(3) True by auto
    then have u: "unat (n - 1) = unat n - 1" by (simp add: unat_minus_one unat_eq_0)
    show ?thesis
    proof (cases "n = 1")
      case n1: True
      then have "filter (scored b i) xs = []" using n by simp
      then have "fold (\<lambda>a b. snd (resetObjectiveScore g i a b)) xs (cleared i k b) = cleared i k b"
        by (intro reset_fold_idle) (auto simp: cleared_def)
      then show ?thesis using True n1 reset_one [OF assms(1) True Cons.prems(1,2)] \<open>filter (scored b i) xs = []\<close> by simp
    next
      case n2: False
      have s: "snd (resetObjectiveScore g i x b) = ?b" using reset_one [OF assms(1) True Cons.prems(1,2)] n2 by simp
      show ?thesis
      proof (cases "filter (scored b i) xs = []")
        case True
        then have "fold (\<lambda>a b. snd (resetObjectiveScore g i a b)) xs ?b = ?b"
          by (intro reset_fold_idle disjI2) (auto simp: filter_empty_conv)
        moreover have "unat n \<noteq> 1" using n2 by (metis unat_1 word_unat_eq_iff)
        ultimately show ?thesis using s True \<open>scored b i x\<close> by simp
      next
        case ne: False
        have "?m \<le> unat (n - 1)" using n u by simp
        from Cons.IH [of ?b "n - 1"] this ne Cons.prems(2)
        have E: "fold (\<lambda>a b. snd (resetObjectiveScore g i a b)) xs ?b = (if ?m = unat n - 1 then cleared i k ?b
            else ?b\<lparr>refs := (refs ?b)(i \<mapsto> n - 1 - of_nat ?m)\<rparr>)" by (simp add: u)
        have e: "n - 1 - of_nat ?m = n - of_nat (Suc ?m)" by (simp add: algebra_simps)
        have "fold (\<lambda>a b. snd (resetObjectiveScore g i a b)) xs ?b = (if ?m = unat n - 1 then cleared i k ?b
            else ?b\<lparr>refs := (refs ?b)(i \<mapsto> n - of_nat (Suc ?m))\<rparr>)" using E by (simp only: e)
        moreover have "cleared i k ?b = cleared i k b" by (simp add: cleared_def)
        ultimately show ?thesis using s True n by (auto simp del: of_nat_Suc)
      qed
    qed
  qed
qed simp

text \<open>An entry that is looked up under its own key only: a name that starts with a number is looked up as an entity as well.\<close>

definition direct :: "entry \<Rightarrow> bool" where
  "direct e \<longleftrightarrow> (case e of Null \<Rightarrow> False | Fake_Entry s \<Rightarrow> from_chars s = None | _ \<Rightarrow> True)"

lemma direct_id: "direct e \<Longrightarrow> getScoreboardId e b = dict_id (main_key e) b"
  by (cases e) (auto simp: direct_def getScoreboardId_def main_key_def player_id_of_def actor_id_of_def fake_id_of_def)

lemma cleared_ok:
  assumes "board_ok b" "ids b k = Some i"
  shows "board_ok (cleared i k b)"
proof -
  have k: "defs b i = Some k" "\<And>k' j. ids b k' = Some j \<longleftrightarrow> defs b j = Some k'" using assms by (simp_all add: board_ok_def)
  have "((ids b)(k := None)) k' = Some j \<longleftrightarrow> ((defs b)(i := None)) j = Some k'" for k' j
    using k by (metis fun_upd_apply option.discI option.inject)
  then show ?thesis using assms(1) by (simp add: board_ok_def cleared_def)
qed

lemma cleared_id:
  assumes "board_ok b" "ids b k = Some i" "getScoreboardId e b \<noteq> i"
  shows "getScoreboardId e (cleared i k b) = getScoreboardId e b"
proof -
  have "dict_id k' (cleared i k b) = dict_id k' b" if "k' \<noteq> k" for k' using that by (simp add: dict_id_def cleared_def)
  moreover have "dict_id k b = i" using assms(2) by (simp add: dict_id_def)
  moreover have "dict_id k (cleared i k b) = INVALID" by (simp add: dict_id_def cleared_def)
  moreover have "i \<noteq> INVALID" using board_ok_ids [OF assms(1,2)] by simp
  ultimately show ?thesis using assms(3)
    by (cases e) (auto simp: getScoreboardId_def player_id_of_def actor_id_of_def fake_id_of_def split: if_splits option.splits, metis+)
qed

lemma scored_alive: "board_ok b \<Longrightarrow> alive b a = Some ob \<Longrightarrow> a \<in> set (map snd (objectives b))"
  unfolding board_ok_def by (metis map_of_SomeD image_eqI set_map snd_conv)

lemma resetScores_result:
  assumes "board_laws g" "board_ok b" "refs_exact b" "getScoreboardId e b = i" "i \<noteq> INVALID"
  obtains k where "ids b k = Some i"
    "resetScores g e b = (if \<exists>a. scored b i a then cleared i k b else b)"
proof -
  obtain k where k: "ids b k = Some i" using getScoreboardId_key [OF assms(2,4,5)] by metis
  obtain n where n: "refs b i = Some n" "defs b i = Some k" using board_ok_ids [OF assms(2) k] by auto
  let ?xs = "map snd (objectives b)"
  have u: "length (filter (scored b i) ?xs) = unat n" using assms(3) n by (simp add: refs_exact_def)
  have r: "resetScores g e b = fold (\<lambda>a b. snd (resetObjectiveScore g i a b)) ?xs b"
    using assms(4,5) by (simp add: resetScores_def resetPlayerScore_def)
  have any: "(\<exists>a. scored b i a) \<longleftrightarrow> (\<exists>a \<in> set ?xs. scored b i a)"
  proof -
    have "a \<in> set ?xs" if "scored b i a" for a
      using that scored_alive [OF assms(2), of a] by (cases "alive b a") (simp_all add: scored_def)
    then show ?thesis by blast
  qed
  have "resetScores g e b = (if \<exists>a. scored b i a then cleared i k b else b)"
  proof (cases "\<exists>a \<in> set ?xs. scored b i a")
    case True
    then have "filter (scored b i) ?xs \<noteq> []" by (auto simp: filter_empty_conv)
    with reset_fold [OF assms(1) n _ this] True u any show ?thesis by (simp add: r)
  next
    case False
    then have "fold (\<lambda>a b. snd (resetObjectiveScore g i a b)) ?xs b = b" by (intro reset_fold_idle) blast
    with False any show ?thesis by (simp add: r)
  qed
  with k show thesis by (rule that)
qed

text \<open>Resetting the scores of an entry that is looked up under its own key alone clears them in every objective, changes no
  score of an entry with another identifier, and leaves the board well formed with exact reference counts.\<close>

theorem resetScores_clears:
  assumes "board_laws g" "board_ok b" "refs_exact b" "direct e" "b' = resetScores g e b"
  shows "board_ok b' \<and> refs_exact b' \<and> alive b' = alive b \<and>
    (\<forall>a ob. alive b a = Some ob \<longrightarrow> isScoreSet a e b' = Inr False \<and> getValue a e b' = Inr 0) \<and>
    (\<forall>a e'. getScoreboardId e' b \<noteq> getScoreboardId e b \<longrightarrow> getValue a e' b' = getValue a e' b \<and> isScoreSet a e' b' = isScoreSet a e' b)"
proof (cases "getScoreboardId e b = INVALID")
  case True
  then have "b' = b" using assms(5) by (simp add: resetScores_def)
  with True assms(2,3) show ?thesis by (simp add: getValue_score isScoreSet_score score_at_def)
next
  case False
  define i where "i = getScoreboardId e b"
  obtain k where k: "ids b k = Some i" "b' = (if \<exists>a. scored b i a then cleared i k b else b)"
    using resetScores_result [OF assms(1-3) i_def [symmetric]] False assms(5) i_def by metis
  show ?thesis
  proof (cases "\<exists>a. scored b i a")
    case none: False
    then have b': "b' = b" using k by simp
    have "score_at a i b = None" for a using none by (auto simp: score_at_def scored_def hasScore_def split: option.splits)
    then show ?thesis using b' assms(2,3) i_def by (simp add: getValue_score isScoreSet_score)
  next
    case some: True
    then have b': "b' = cleared i k b" using k by simp
    have i: "i \<noteq> INVALID" "defs b i = Some k" using board_ok_ids [OF assms(2) k(1)] by simp_all
    have mk: "main_key e = k"
    proof -
      have "ids b (main_key e) = Some i" using direct_id [OF assms(4), of b] dict_id_Some [OF assms(2) i(1)] i_def by metis
      then have "defs b i = Some (main_key e)" using board_ok_ids [OF assms(2)] by simp
      with i(2) show ?thesis by simp
    qed
    have "getScoreboardId e b' = INVALID" using direct_id [OF assms(4), of b'] mk by (simp add: b' dict_id_def cleared_def)
    then have own: "score_at a (getScoreboardId e b') b' = None" for a by (simp add: score_at_def)
    have other: "getScoreboardId e' b' = getScoreboardId e' b" if "getScoreboardId e' b \<noteq> i" for e'
      using cleared_id [OF assms(2) k(1) that] b' by simp
    have al: "alive b' = alive b" "objectives b' = objectives b" by (simp_all add: b' cleared_def)
    have sc: "score_at a j b' = score_at a j b" for a j by (simp add: score_at_def al)
    have "refs_exact b'" using assms(3) by (auto simp: refs_exact_def b') (auto simp: cleared_def split: if_splits)
    moreover have "board_ok b'" using cleared_ok [OF assms(2) k(1)] b' by simp
    ultimately show ?thesis using own other sc al by (auto simp: getValue_score isScoreSet_score i_def)
  qed
qed

text \<open>Setting a score keeps the reference counts exact.\<close>

lemma count_upd:
  "distinct xs \<Longrightarrow> a \<in> set xs \<Longrightarrow> \<not> P a \<Longrightarrow> length (filter (\<lambda>x. P x \<or> x = a) xs) = Suc (length (filter P xs))"
proof (induction xs)
  case (Cons x xs)
  show ?case
  proof (cases "x = a")
    case True
    then have "filter (\<lambda>y. P y \<or> y = a) xs = filter P xs" using Cons.prems(1) by (intro filter_cong) auto
    then show ?thesis using Cons.prems True by simp
  next
    case False
    then show ?thesis using Cons by auto
  qed
qed simp

lemma board_addresses: "board_ok b \<Longrightarrow> distinct (map snd (objectives b))"
proof -
  assume ok: "board_ok b"
  have d: "distinct (map fst (objectives b))" using ok by (simp add: board_ok_def)
  have "fst x = fst y" if "x \<in> set (objectives b)" "y \<in> set (objectives b)" "snd x = snd y" for x y
  proof -
    have "map_of (objectives b) (fst x) = Some (snd x)" "map_of (objectives b) (fst y) = Some (snd x)"
      using that d by (metis map_of_is_SomeI prod.collapse)+
    then show ?thesis using ok unfolding board_ok_def by (metis option.inject)
  qed
  then have "inj_on snd (set (objectives b))" by (intro inj_onI) (metis prod_eqI)
  moreover have "distinct (objectives b)" using d by (simp add: distinct_map)
  ultimately show ?thesis by (simp add: distinct_map)
qed

lemma setValue_refs:
  assumes "board_laws g" "board_ok b" "fresh_ids g b" "refs_exact b" "e \<noteq> Null" "setValue g v a e b = (r, b')"
  shows "refs_exact b'"
proof (cases "alive b a")
  case None
  with assms(4,6) show ?thesis by (auto simp: setValue_def checkState_def)
next
  case (Some ob)
  obtain i b1 where c: "getOrCreateScoreboardId g e b = (i, b1)" by (cases "getOrCreateScoreboardId g e b")
  note o = getOrCreate_ok [OF assms(1-3,5) c]
  obtain n where n: "refs b1 i = Some n" using o(3) by auto
  have al: "alive b1 a = Some ob" using o(4) Some by simp
  have ex1: "refs_exact b1"
  proof (cases "getScoreboardId e b = INVALID")
    case False
    then have "b = b1" using c by (auto simp: getOrCreateScoreboardId_def)
    with assms(4) show ?thesis by simp
  next
    case True
    then have "create_id g (main_key e) b = (i, b1)" using getOrCreate_create [OF assms(5) True] c by simp
    then have b1: "refs b1 = (refs b)(i \<mapsto> 0)" and u: "unscored i b"
      using assms(1,3) unfolding board_laws_def fresh_ids_def unscored_def by (fastforce, metis fst_conv)
    have "scored b1 = scored b" by (simp add: scored_def o(4) fun_eq_iff)
    moreover have "\<not> scored b i x" for x using u by (auto simp: unscored_def scored_def hasScore_def split: option.splits)
    ultimately show ?thesis using assms(4) b1 o(5) by (auto simp: refs_exact_def)
  qed
  show ?thesis
  proof (cases "is_read_only (obj_criteria ob)")
    case True
    then have "b' = b1\<lparr>alive := (alive b1)(a \<mapsto> ob), refs := (refs b1)(i \<mapsto> n)\<rparr>"
      using assms(6) Some c o(1) n al
      by (auto simp: setValue_def checkState_def modifyPlayerScore_def modifyScoreInObjective_def objective_modify_def)
    moreover have "b1\<lparr>alive := (alive b1)(a \<mapsto> ob), refs := (refs b1)(i \<mapsto> n)\<rparr> = b1" using n al by (simp add: fun_upd_idem)
    ultimately show ?thesis using ex1 by simp
  next
    case False
    let ?ob = "ob\<lparr>scores := (scores ob)(i \<mapsto> v)\<rparr>"
    let ?b = "b1\<lparr>alive := (alive b1)(a \<mapsto> ?ob), refs := (refs b1)(i \<mapsto> (if fst (getPlayerScore i ob) then n else n + 1))\<rparr>"
    have b': "b' = ?b"
      using assms(1,6) Some c o(1) n al False
      by (auto simp: setValue_def checkState_def modifyPlayerScore_def modifyScoreInObjective_def objective_modify_def board_laws_def Let_def)
    let ?xs = "map snd (objectives b1)"
    have d: "distinct ?xs" "a \<in> set ?xs" using board_addresses [OF o(2)] scored_alive [OF o(2) al] by simp_all
    have sj: "scored ?b j = scored b1 j" if "j \<noteq> i" for j using that al by (auto simp: scored_def hasScore_def fun_eq_iff)
    have si: "scored ?b i = (\<lambda>x. scored b1 i x \<or> x = a)" using al by (auto simp: scored_def hasScore_def fun_eq_iff)
    have p: "fst (getPlayerScore i ob) = scored b1 i a" using al by (simp add: scored_def hasScore_def getPlayerScore_def split: option.split)
    have un: "unat n = length (filter (scored b1 i) ?xs)" using ex1 n by (simp add: refs_exact_def)
    have lt: "length (objectives b1) < 2 ^ 32" using ex1 by (simp add: refs_exact_def)
    have "unat (if fst (getPlayerScore i ob) then n else n + 1) = length (filter (scored ?b i) ?xs)"
    proof (cases "scored b1 i a")
      case True
      then have "(\<lambda>x. scored b1 i x \<or> x = a) = scored b1 i" by auto
      then have "length (filter (scored ?b i) ?xs) = unat n" unfolding si un by simp
      with True show ?thesis by (simp only: p if_True)
    next
      case f: False
      have c': "length (filter (scored ?b i) ?xs) = Suc (unat n)" unfolding si using count_upd [OF d, of "scored b1 i"] f un by simp
      moreover have "length (filter (scored ?b i) ?xs) \<le> length (objectives b1)" by (metis length_filter_le length_map)
      ultimately have "unat n + 1 < 2 ^ 32" using lt by linarith
      then have "unat (n + 1) = unat n + 1" using word_add_unat [of n 1] by simp
      with f c' show ?thesis by (simp only: p if_False)
    qed
    moreover have "unat m = length (filter (scored ?b j) ?xs)" if "refs b1 j = Some m" "j \<noteq> i" for j m
      using ex1 that sj by (simp add: refs_exact_def)
    ultimately have "refs_exact ?b" using lt by (simp only: refs_exact_def) (auto split: if_splits)
    then show ?thesis by (simp only: b')
  qed
qed

subsection \<open>Display slots\<close>

definition hide :: "nat \<Rightarrow> string set \<Rightarrow> (string \<rightharpoonup> nat \<times> sort_order) \<Rightarrow> string \<rightharpoonup> nat \<times> sort_order" where
  "hide a S m = (\<lambda>s. if s \<in> S \<and> (\<exists>o'. m s = Some (a, o')) then None else m s)"

lemma displaying_iff: "displaying a b s \<longleftrightarrow> (\<exists>o'. displays b s = Some (a, o'))"
  by (auto simp: displaying_def getDisplayObjective_def isDisplaying_def split: option.split)

text \<open>The loop takes the objective out of the slots and finds the first of them with its order.\<close>

lemma clear_slots_eq:
  assumes "board_laws g" "distinct ss"
  shows "clear_slots g a ss found b =
    ((case found of Some x \<Rightarrow> Some x | None \<Rightarrow> map_option (\<lambda>s. (s, snd (the (displays b s)))) (find (displaying a b) ss)),
     b\<lparr>displays := hide a (set ss) (displays b)\<rparr>)"
  using assms(2)
proof (induction ss arbitrary: found b)
  case Nil
  then show ?case by (simp add: hide_def split: option.split)
next
  case (Cons s ss)
  have cl: "clear_display g s b = b\<lparr>displays := (displays b)(s := None)\<rparr>" using assms(1) by (simp add: board_laws_def)
  show ?case
  proof (cases "displaying a b s")
    case True
    then obtain o' where o': "displays b s = Some (a, o')" by (auto simp: displaying_iff)
    let ?found = "case found of None \<Rightarrow> Some (s, o') | Some x \<Rightarrow> Some x"
    let ?b = "b\<lparr>displays := (displays b)(s := None)\<rparr>"
    have h: "hide a (set ss) (displays ?b) = hide a (set (s # ss)) (displays b)"
      using Cons.prems o' by (auto simp: hide_def fun_eq_iff)
    have "find (displaying a ?b) ss = find (displaying a b) ss"
      using Cons.prems by (intro find_cong) (auto simp: displaying_iff)
    moreover have "clear_slots g a (s # ss) found b = clear_slots g a ss ?found ?b"
      using o' cl by (cases found) (simp_all add: getDisplayObjective_def isDisplaying_def)
    moreover have "clear_slots g a ss ?found ?b = (?found, ?b\<lparr>displays := hide a (set ss) (displays ?b)\<rparr>)"
      using Cons by (cases found) (simp_all del: fun_upd_apply)
    ultimately show ?thesis unfolding h using o' True by (cases found) simp_all
  next
    case False
    then have "clear_slots g a (s # ss) found b = clear_slots g a ss found b"
      by (auto simp: displaying_def split: option.splits)
    moreover have "hide a (set ss) (displays b) = hide a (set (s # ss)) (displays b)"
      using False by (auto simp: hide_def fun_eq_iff displaying_iff)
    ultimately show ?thesis using Cons False by (cases found) (simp_all del: clear_slots.simps)
  qed
qed

lemma slot_names [simp]: "set getDisplayObjectiveSlotNames = range toMinecraftSlot" "distinct getDisplayObjectiveSlotNames"
proof -
  have "x \<in> {Below_Name, Player_List, Side_Bar}" for x by (cases x) simp_all
  then have u: "UNIV = {Below_Name, Player_List, Side_Bar}" by blast
  have "range toMinecraftSlot = {''belowname'', ''list'', ''sidebar''}"
    unfolding u image_insert image_empty toMinecraftSlot_def display_slot.case by (rule refl)
  then show "set getDisplayObjectiveSlotNames = range toMinecraftSlot"
    by (auto simp: getDisplayObjectiveSlotNames_def DISPLAY_SLOT_LIST_def DISPLAY_SLOT_SIDEBAR_def DISPLAY_SLOT_BELOWNAME_def)
  show "distinct getDisplayObjectiveSlotNames"
    by (simp add: getDisplayObjectiveSlotNames_def DISPLAY_SLOT_LIST_def DISPLAY_SLOT_SIDEBAR_def DISPLAY_SLOT_BELOWNAME_def)
qed

lemma slot_roundtrip [simp]: "fromMinecraftSlot (toMinecraftSlot s) = Inr s"
  by (cases s) (simp_all add: fromMinecraftSlot_def toMinecraftSlot_def DISPLAY_SLOT_LIST_def DISPLAY_SLOT_SIDEBAR_def DISPLAY_SLOT_BELOWNAME_def)

lemma toMinecraftSlot_inj [simp]: "toMinecraftSlot s = toMinecraftSlot t \<longleftrightarrow> s = t"
  by (metis slot_roundtrip sum.inject(2))

lemma find_unique: "y \<in> set xs \<Longrightarrow> (\<And>x. x \<in> set xs \<Longrightarrow> P x \<longleftrightarrow> x = y) \<Longrightarrow> find P xs = Some y"
  by (induction xs) auto

lemma find_slot:
  assumes "\<And>s. displaying a b (toMinecraftSlot s) \<longleftrightarrow> s = t"
  shows "find (displaying a b) getDisplayObjectiveSlotNames = Some (toMinecraftSlot t)"
proof (rule find_unique)
  show "toMinecraftSlot t \<in> set getDisplayObjectiveSlotNames" by simp
  fix x
  assume "x \<in> set getDisplayObjectiveSlotNames"
  then have "x \<in> range toMinecraftSlot" by (simp only: slot_names)
  then obtain s where "x = toMinecraftSlot s" by (rule imageE)
  then show "displaying a b x \<longleftrightarrow> x = toMinecraftSlot t" using assms by simp
qed

text \<open>After setDisplaySlot an existing objective is displayed in the given slot and in no other, in the order it had before
  (ascending when it was not displayed); a slot in which another objective was displayed keeps it, unless it is the given one.
  Without a slot the objective is displayed nowhere.\<close>

theorem setDisplaySlot_exact:
  assumes "board_laws g" "alive b a = Some ob" "getSortOrder a b = Inr old" "setDisplaySlot g slot a b = r"
  shows "\<exists>b'. r = Inr b' \<and> getDisplaySlot a b' = Inr slot \<and>
    getSortOrder a b' = Inr (case slot of None \<Rightarrow> None | Some _ \<Rightarrow> Some (case old of Some o' \<Rightarrow> o' | None \<Rightarrow> Ascending)) \<and>
    isDisplayed a b' = Inr (slot \<noteq> None) \<and>
    (\<forall>s. slot \<noteq> Some s \<longrightarrow> getObjectiveAt s b' = (if getObjectiveAt s b = Some a then None else getObjectiveAt s b))"
proof -
  let ?h = "b\<lparr>displays := hide a (range toMinecraftSlot) (displays b)\<rparr>"
  define found where "found = map_option (\<lambda>s. (s, snd (the (displays b s)))) (find (displaying a b) getDisplayObjectiveSlotNames)"
  have cs: "clear_slots g a getDisplayObjectiveSlotNames None b = (found, ?h)"
    using clear_slots_eq [OF assms(1) slot_names(2)] by (simp add: found_def)
  have old: "old = map_option snd found"
  proof (cases "find (displaying a b) getDisplayObjectiveSlotNames")
    case (Some s)
    then have "displaying a b s" by (auto simp: find_Some_iff)
    with Some assms(2,3) show ?thesis by (auto simp: getSortOrder_def checkState_def found_def getDisplayObjective_def displaying_iff)
  qed (use assms(2,3) in \<open>simp add: getSortOrder_def checkState_def found_def\<close>)
  have hid: "\<not> displaying a ?h (toMinecraftSlot s)" for s by (auto simp: displaying_iff hide_def)
  have rest: "getObjectiveAt s ?h = (if getObjectiveAt s b = Some a then None else getObjectiveAt s b)" for s
    by (auto simp: getObjectiveAt_def getDisplayObjective_def hide_def)
  show ?thesis
  proof (cases slot)
    case None
    have "find (displaying a ?h) getDisplayObjectiveSlotNames = None" using hid by (auto simp: find_None_iff)
    moreover have "\<not> list_ex (displaying a ?h) getDisplayObjectiveSlotNames" using hid by (auto simp: list_ex_iff)
    ultimately show ?thesis using None assms(2,4) cs rest
      by (auto simp: setDisplaySlot_def checkState_def getDisplaySlot_def getSortOrder_def isDisplayed_def)
  next
    case (Some t)
    define o' where "o' = (case found of Some (_, o') \<Rightarrow> o' | None \<Rightarrow> Ascending)"
    let ?b = "?h\<lparr>displays := (displays ?h)(toMinecraftSlot t \<mapsto> (a, o'))\<rparr>"
    have r: "r = Inr ?b" using Some assms(1,2,4) cs by (simp add: setDisplaySlot_def checkState_def board_laws_def o'_def)
    have "displaying a ?b (toMinecraftSlot s) \<longleftrightarrow> s = t" for s using hid [of s] by (auto simp: displaying_iff)
    then have f: "find (displaying a ?b) getDisplayObjectiveSlotNames = Some (toMinecraftSlot t)"
      "list_ex (displaying a ?b) getDisplayObjectiveSlotNames"
      using find_slot [of a ?b t] by (blast, auto simp: list_ex_iff)
    have "getObjectiveAt s ?b = getObjectiveAt s ?h" if "s \<noteq> t" for s using that by (simp add: getObjectiveAt_def getDisplayObjective_def)
    moreover have "o' = (case old of Some o' \<Rightarrow> o' | None \<Rightarrow> Ascending)" by (cases found) (auto simp: old o'_def)
    ultimately show ?thesis using Some assms(2) f rest
      by (intro exI [of _ ?b]) (simp add: r getDisplaySlot_def getSortOrder_def isDisplayed_def checkState_def getDisplayObjective_def)
  qed
qed

text \<open>Adding, removing and showing objectives keeps the board well formed.\<close>

lemma addObjective_ok:
  assumes "board_laws g" "board_ok b" "board_addObjective g n dn c b = (r, b')"
  shows "board_ok b'" "r = None \<longleftrightarrow> getObjective n b \<noteq> None"
    "r = Some a \<Longrightarrow> getObjective n b' = Some a \<and> getName a b' = Inr n \<and> getDisplayName a b' = Inr dn"
proof -
  have r: "board_ok b' \<and> (r = None \<longleftrightarrow> getObjective n b \<noteq> None) \<and>
    (r = Some a \<longrightarrow> getObjective n b' = Some a \<and> getName a b' = Inr n \<and> getDisplayName a b' = Inr dn)"
  proof (cases "board_getObjective n b")
    case (Some a')
    then show ?thesis using assms(2,3) by (auto simp: board_addObjective_def getObjective_def)
  next
    case None
    let ?a = "next_address b" and ?ob = "(new_objective n c)\<lparr>display_name := dn\<rparr>"
    have b': "r = Some ?a" "b' = b\<lparr>objectives := AList.update n ?a (objectives b), alive := (alive b)(?a \<mapsto> ?ob), next_address := Suc ?a\<rparr>"
      using assms(1,3) None by (auto simp: board_addObjective_def board_laws_def Let_def)
    have old: "alive b ?a = None" using assms(2) unfolding board_ok_def by (metis less_irrefl not_None_eq)
    have m: "map_of (objectives b') = (map_of (objectives b))(n \<mapsto> ?a)" by (simp add: b' update_conv')
    have "\<exists>ob. alive b' x = Some ob \<and> obj_name ob = y" if "map_of (objectives b') y = Some x" for x y
    proof (cases "y = n")
      case True
      then have "x = ?a" using that by (simp only: m) simp
      with True show ?thesis by (simp add: b'(2) new_objective_def)
    next
      case False
      then have "\<exists>ob. alive b x = Some ob \<and> obj_name ob = y" using that assms(2) by (simp add: m board_ok_def)
      then show ?thesis using old by (auto simp: b'(2))
    qed
    moreover have "map_of (objectives b') (obj_name ob) = Some x \<and> x < next_address b'" if "alive b' x = Some ob" for x ob
    proof (cases "x = ?a")
      case True
      then have "obj_name ob = n" using that by (auto simp: b'(2) new_objective_def)
      then show ?thesis using True m by (simp add: b'(2))
    next
      case False
      then have x: "alive b x = Some ob" using that by (simp add: b'(2))
      then have "map_of (objectives b) (obj_name ob) = Some x \<and> x < next_address b" using assms(2) by (simp add: board_ok_def)
      moreover from this have "obj_name ob \<noteq> n" using None by (auto simp: board_getObjective_def)
      ultimately show ?thesis using m by (simp add: b'(2))
    qed
    moreover have "distinct (map fst (objectives b'))" using assms(2) by (simp add: b'(2) board_ok_def distinct_update)
    ultimately have "board_ok b'" using assms(2) by (simp add: board_ok_def b'(2))
    then show ?thesis using None b' by (simp add: update_conv' getObjective_def board_getObjective_def getName_def getDisplayName_def checkState_def new_objective_def)
  qed
  then show "board_ok b'" "r = None \<longleftrightarrow> getObjective n b \<noteq> None"
    "r = Some a \<Longrightarrow> getObjective n b' = Some a \<and> getName a b' = Inr n \<and> getDisplayName a b' = Inr dn" by blast+
qed

lemma unregister_ok:
  assumes "board_laws g" "board_ok b" "alive b a = Some ob"
  shows "\<exists>b'. unregister g a b = Inr b' \<and> board_ok b' \<and> getObjective (obj_name ob) b' = None \<and> getName a b' = Inl Illegal_State \<and>
    (\<forall>s. getObjectiveAt s b' \<noteq> Some a)"
proof -
  let ?d = "\<lambda>s. case displays b s of Some (a', o') \<Rightarrow> if a' = a then None else Some (a', o') | None \<Rightarrow> None"
  let ?b = "b\<lparr>objectives := AList.delete (obj_name ob) (objectives b), alive := (alive b)(a := None), displays := ?d\<rparr>"
  have n: "map_of (objectives b) (obj_name ob) = Some a" using assms(2,3) by (simp add: board_ok_def)
  have u: "unregister g a b = Inr ?b"
    using assms(1,3) n by (simp add: unregister_def checkState_def board_removeObjective_def board_laws_def Let_def)
  have m: "map_of (objectives ?b) = (map_of (objectives b))(obj_name ob := None)" by (simp add: delete_conv')
  have "\<exists>o'. alive ?b x = Some o' \<and> obj_name o' = y" if "map_of (objectives ?b) y = Some x" for x y
  proof -
    have y: "y \<noteq> obj_name ob" "map_of (objectives b) y = Some x" using that m by (auto split: if_splits)
    then obtain o' where "alive b x = Some o'" "obj_name o' = y" using assms(2) unfolding board_ok_def by metis
    with y(1) assms(3) show ?thesis by auto
  qed
  moreover have "map_of (objectives ?b) (obj_name o') = Some x \<and> x < next_address ?b" if "alive ?b x = Some o'" for x o'
  proof -
    have x: "x \<noteq> a" "alive b x = Some o'" using that by (auto split: if_splits)
    then have "map_of (objectives b) (obj_name o') = Some x \<and> x < next_address b" using assms(2) by (simp add: board_ok_def)
    moreover from this have "obj_name o' \<noteq> obj_name ob" using x(1) n by auto
    ultimately show ?thesis using m by simp
  qed
  moreover have "distinct (map fst (objectives ?b))" using assms(2) by (simp add: board_ok_def distinct_delete)
  moreover have "alive ?b (fst d) \<noteq> None" if "displays ?b s = Some d" for s d
  proof -
    have "displays b s = Some d \<and> fst d \<noteq> a" using that by (auto split: option.splits if_splits)
    then have "alive b (fst d) \<noteq> None" "fst d \<noteq> a" using assms(2) unfolding board_ok_def by blast+
    then show ?thesis by simp
  qed
  ultimately have "board_ok ?b" using assms(2) by (simp add: board_ok_def)
  then show ?thesis using u m
    by (auto simp: getObjective_def board_getObjective_def getName_def checkState_def getObjectiveAt_def getDisplayObjective_def
      split: option.splits if_splits)
qed

text \<open>A name that starts with a number and is unknown as a name stands for the entity with this identifier.\<close>

lemma numeric_name_alias:
  "dict_id (Fake_Id s) b = INVALID \<Longrightarrow> from_chars s = Some u \<Longrightarrow> getScoreboardId (Fake_Entry s) b = getScoreboardId (Actor_Entry u False) b"
  by (simp add: getScoreboardId_def fake_id_of_def actor_id_of_def)

subsection \<open>A board at work\<close>

definition demo_game :: board_game where
  "demo_game = \<lparr>create_id = (\<lambda>k b. (7, b\<lparr>ids := (ids b)(k \<mapsto> 7), defs := (defs b)(7 \<mapsto> k), refs := (refs b)(7 \<mapsto> 0)\<rparr>)),
    set_display = (\<lambda>s a o' b. b\<lparr>displays := (displays b)(s \<mapsto> (a, o'))\<rparr>),
    clear_display = (\<lambda>s b. b\<lparr>displays := (displays b)(s := None)\<rparr>),
    on_added = (\<lambda>_ b. b), on_removed = (\<lambda>_ b. b), on_score_changed = (\<lambda>_ _ b. b), on_score_removed = (\<lambda>_ _ b. b)\<rparr>"

definition demo_criteria :: criteria where
  "demo_criteria = \<lparr>criteria_name = ''dummy'', is_read_only = False, render_type = Integer\<rparr>"

definition demo_board :: board where
  "demo_board = \<lparr>objectives = [(''kills'', 0), (''deaths'', 1)],
    alive = [0 \<mapsto> (new_objective ''kills'' demo_criteria)\<lparr>scores := [1 \<mapsto> 5]\<rparr>, 1 \<mapsto> new_objective ''deaths'' demo_criteria],
    next_address = 2, criterias = [''dummy'' \<mapsto> demo_criteria], displays = [''sidebar'' \<mapsto> (0, Descending)],
    ids = [Fake_Id ''alice'' \<mapsto> 1], defs = [1 \<mapsto> Fake_Id ''alice''], refs = [1 \<mapsto> 1]\<rparr>"

lemma demo_board_laws: "board_laws demo_game"
  by (simp add: board_laws_def demo_game_def INVALID_def)

lemma demo_ok: "board_ok demo_board" "refs_exact demo_board" "fresh_ids demo_game demo_board"
  by (auto simp: board_ok_def refs_exact_def fresh_ids_def demo_board_def demo_game_def new_objective_def scored_def hasScore_def INVALID_def
    split: if_splits)

theorem setValue_getValue_witness:
  "\<exists>b'. setValue demo_game 9 1 (Fake_Entry ''bob'') demo_board = (Inr (), b') \<and> getValue 1 (Fake_Entry ''bob'') b' = Inr 9 \<and>
    getValue 0 (Fake_Entry ''bob'') b' = Inr 0"
proof -
  have a: "alive demo_board 1 = Some (new_objective ''deaths'' demo_criteria)" by (simp add: demo_board_def)
  have "\<not> is_read_only (obj_criteria (new_objective ''deaths'' demo_criteria))" by (simp add: new_objective_def demo_criteria_def)
  from setValue_getValue [OF demo_board_laws demo_ok(1,3) a this, of "Fake_Entry ''bob''" 9]
  obtain b' where b': "setValue demo_game 9 1 (Fake_Entry ''bob'') demo_board = (Inr (), b')"
    "getValue 1 (Fake_Entry ''bob'') b' = Inr 9" "getValue 0 (Fake_Entry ''bob'') b' = getValue 0 (Fake_Entry ''bob'') demo_board"
    by auto
  have f: "from_chars ''bob'' = None" by (simp add: from_chars_def is_digit_def Let_def)
  have "getValue 0 (Fake_Entry ''bob'') demo_board = Inr 0"
    by (simp add: getValue_def checkState_def demo_board_def getScoreboardId_def fake_id_of_def dict_id_def f Let_def)
  with b' show ?thesis by auto
qed

theorem resetScores_clears_witness:
  "getValue 0 (Fake_Entry ''alice'') demo_board = Inr 5 \<and>
    getValue 0 (Fake_Entry ''alice'') (resetScores demo_game (Fake_Entry ''alice'') demo_board) = Inr 0"
proof -
  have f: "direct (Fake_Entry ''alice'')" by (simp add: direct_def from_chars_def is_digit_def Let_def)
  have "alive demo_board 0 = Some ((new_objective ''kills'' demo_criteria)\<lparr>scores := [1 \<mapsto> 5]\<rparr>)" by (simp add: demo_board_def)
  then have "getValue 0 (Fake_Entry ''alice'') (resetScores demo_game (Fake_Entry ''alice'') demo_board) = Inr 0"
    using resetScores_clears [OF demo_board_laws demo_ok(1,2) f refl] by blast
  moreover have "getValue 0 (Fake_Entry ''alice'') demo_board = Inr 5"
    by (simp add: getValue_def checkState_def demo_board_def getScoreboardId_def fake_id_of_def dict_id_def hasScore_def getPlayerScore_def
      INVALID_def new_objective_def)
  ultimately show ?thesis by simp
qed

theorem setDisplaySlot_exact_witness:
  "\<exists>b'. setDisplaySlot demo_game (Some Player_List) 0 demo_board = Inr b' \<and> getDisplaySlot 0 b' = Inr (Some Player_List) \<and>
    getSortOrder 0 b' = Inr (Some Descending) \<and> getObjectiveAt Side_Bar b' = None"
proof -
  have a: "alive demo_board 0 = Some ((new_objective ''kills'' demo_criteria)\<lparr>scores := [1 \<mapsto> 5]\<rparr>)" by (simp add: demo_board_def)
  have s: "getSortOrder 0 demo_board = Inr (Some Descending)"
    by (simp add: getSortOrder_def checkState_def demo_board_def getDisplayObjectiveSlotNames_def displaying_def getDisplayObjective_def
      isDisplaying_def DISPLAY_SLOT_LIST_def DISPLAY_SLOT_SIDEBAR_def DISPLAY_SLOT_BELOWNAME_def)
  have sb: "getObjectiveAt Side_Bar demo_board = Some 0"
    by (simp add: getObjectiveAt_def getDisplayObjective_def demo_board_def toMinecraftSlot_def)
  from setDisplaySlot_exact [OF demo_board_laws a s refl, of "Some Player_List"]
  obtain b' where b': "setDisplaySlot demo_game (Some Player_List) 0 demo_board = Inr b'" "getDisplaySlot 0 b' = Inr (Some Player_List)"
    "getSortOrder 0 b' = Inr (Some Descending)"
    "\<forall>s. Some Player_List \<noteq> Some s \<longrightarrow> getObjectiveAt s b' = (if getObjectiveAt s demo_board = Some 0 then None else getObjectiveAt s demo_board)"
    by auto
  from b'(4) sb have "getObjectiveAt Side_Bar b' = None" by simp
  with b' show ?thesis by blast
qed

end
