(* ===== verification/Block_Hooks.thy ===== *)
theory Block_Hooks
  imports Prelude
begin

text \<open>
  Block hooks: the decay of leaves (\<open>src/endstone/runtime/bedrock_hooks/leaves_block.cpp\<close>), which searches a buffer around
  the leaf for wood, the pistons (\<open>piston_block_actor.cpp\<close>), which a plugin can stop, the place a player leaves a bed at
  (\<open>src/bedrock/world/level/block/bed_block.cpp\<close>), and the redstone ticking of a dimension. The blocks of the region, the
  listeners of the events and the game's own tick are parameters. The search is proved to answer whether wood is reached
  through at most \<open>REQUIRED_WOOD_RANGE\<close> steps over leaves, without an access outside the buffer.
\<close>

subsection \<open>Leaves\<close>

type_synonym pos = "int \<times> int \<times> int"

datatype hook_error = Out_Of_Bounds

record block =
  is_log :: bool
  is_wood :: bool
  is_leaves :: bool
  update_bit :: bool
  persistent_bit :: bool

record region =
  block_at :: "pos \<Rightarrow> block"
  has_chunks :: "pos \<Rightarrow> pos \<Rightarrow> bool"
  drops :: "pos list"

definition air :: block where
  "air = \<lparr>is_log = False, is_wood = False, is_leaves = False, update_bit = False, persistent_bit = False\<rparr>"

fun moved :: "pos \<Rightarrow> pos \<Rightarrow> pos" where
  "moved (x, y, z) (dx, dy, dz) = (x + dx, y + dy, z + dz)"

definition REQUIRED_WOOD_RANGE :: int where "REQUIRED_WOOD_RANGE = 4"

definition width :: int where "width = (REQUIRED_WOOD_RANGE + 1) * 2 + 1"

fun index :: "pos \<Rightarrow> int" where
  "index (x, y, z) = (x + width div 2) * (width * width) + (y + width div 2) * width + (z + width div 2)"

definition rd :: "int list \<Rightarrow> pos \<Rightarrow> hook_error + int" where
  "rd buf p = (if 0 \<le> index p \<and> index p < int (length buf) then Inr (buf ! nat (index p)) else Inl Out_Of_Bounds)"

definition wr :: "int list \<Rightarrow> pos \<Rightarrow> int \<Rightarrow> hook_error + int list" where
  "wr buf p v = (if 0 \<le> index p \<and> index p < int (length buf) then Inr (buf[nat (index p) := v]) else Inl Out_Of_Bounds)"

definition positions :: "pos list" where
  "positions = (let s = [- REQUIRED_WOOD_RANGE..REQUIRED_WOOD_RANGE] in
     concat (map (\<lambda>x. concat (map (\<lambda>y. map (\<lambda>z. (x, y, z)) s) s)) s))"

text \<open>What the buffer holds for a block before the search: 0 is wood, -2 a leaf, -1 anything else.\<close>

definition cell :: "region \<Rightarrow> pos \<Rightarrow> int" where
  "cell w p = (if is_log (block_at w p) \<or> is_wood (block_at w p) then 0 else if is_leaves (block_at w p) then - 2 else - 1)"

definition fill :: "region \<Rightarrow> pos \<Rightarrow> int list \<Rightarrow> hook_error + int list" where
  "fill w pos = fold_chain (\<lambda>p buf. wr buf p (cell w (moved pos p))) positions"

definition directions :: "pos list" where
  "directions = [(- 1, 0, 0), (1, 0, 0), (0, - 1, 0), (0, 1, 0), (0, 0, - 1), (0, 0, 1)]"

definition spread :: "int \<Rightarrow> pos \<Rightarrow> pos \<Rightarrow> int list \<Rightarrow> hook_error + int list" where
  "spread i p d buf = chain (rd buf (moved p d)) (\<lambda>v. if v = - 2 then wr buf (moved p d) i else Inr buf)"

definition visit :: "int \<Rightarrow> pos \<Rightarrow> int list \<Rightarrow> hook_error + int list" where
  "visit i p buf = chain (rd buf p) (\<lambda>v. if v = i - 1 then fold_chain (spread i p) directions buf else Inr buf)"

definition check_buffer :: "region \<Rightarrow> pos \<Rightarrow> hook_error + int list" where
  "check_buffer w pos = (let buf = replicate (nat (width * width * width)) 0; e = REQUIRED_WOOD_RANGE + 1 in
     if has_chunks w (moved pos (- e, - e, - e)) (moved pos (e, e, e))
     then chain (fill w pos buf) (fold_chain (\<lambda>i. fold_chain (visit i) positions) [1..REQUIRED_WOOD_RANGE])
     else Inr buf)"

text \<open>\<open>cancelled\<close> is what the listeners of the event answer.\<close>

definition leaves_die :: "(pos \<Rightarrow> bool) \<Rightarrow> pos \<Rightarrow> region \<Rightarrow> region" where
  "leaves_die cancelled pos w = (if cancelled pos then w
     else w\<lparr>drops := drops w @ [pos], block_at := (block_at w)(pos := air)\<rparr>)"

definition randomTick :: "(pos \<Rightarrow> bool) \<Rightarrow> pos \<Rightarrow> region \<Rightarrow> hook_error + region" where
  "randomTick cancelled pos w = (let b = block_at w pos in
     if update_bit b \<and> \<not> persistent_bit b
     then chain (check_buffer w pos) (\<lambda>buf. chain (rd buf (0, 0, 0)) (\<lambda>v.
       if v < 0 then Inr (leaves_die cancelled pos w)
       else Inr (w\<lparr>block_at := (block_at w)(pos := b\<lparr>update_bit := False\<rparr>)\<rparr>)))
     else Inr w)"

subsection \<open>The buffer\<close>

definition cube :: "int \<Rightarrow> pos set" where
  "cube n = {(x, y, z). \<bar>x\<bar> \<le> n \<and> \<bar>y\<bar> \<le> n \<and> \<bar>z\<bar> \<le> n}"

definition full :: "int list \<Rightarrow> bool" where
  "full buf \<longleftrightarrow> length buf = 1331"

definition view :: "int list \<Rightarrow> pos \<Rightarrow> int" where
  "view buf p = buf ! nat (index p)"

lemma width_val: "width = 11" "width div 2 = 5"
  by (simp_all add: width_def REQUIRED_WOOD_RANGE_def)

lemma index_bounds: "p \<in> cube 5 \<Longrightarrow> 0 \<le> index p \<and> index p < 1331"
  by (cases p) (auto simp: cube_def width_val)

lemma digits_inject:
  fixes a b c :: int
  assumes "\<bar>b\<bar> \<le> 10" "\<bar>c\<bar> \<le> 10" "121 * a + 11 * b + c = 0"
  shows "a = 0 \<and> b = 0 \<and> c = 0"
proof -
  have "121 * a \<le> 120" "- 120 \<le> 121 * a" using assms by linarith+
  then have a: "a = 0" by linarith
  then have "11 * b \<le> 10" "- 10 \<le> 11 * b" using assms by linarith+
  then have "b = 0" by linarith
  with a assms(3) show ?thesis by simp
qed

lemma index_inject:
  assumes "p \<in> cube 5" "q \<in> cube 5" "index p = index q"
  shows "p = q"
proof -
  obtain x y z where p: "p = (x, y, z)" by (cases p)
  obtain x' y' z' where q: "q = (x', y', z')" by (cases q)
  have "\<bar>y - y'\<bar> \<le> 10" "\<bar>z - z'\<bar> \<le> 10" using assms(1,2) by (auto simp: p q cube_def)
  moreover have "121 * (x - x') + 11 * (y - y') + (z - z') = 0" using assms(3) by (simp add: p q width_val)
  ultimately have "x - x' = 0 \<and> y - y' = 0 \<and> z - z' = 0" by (rule digits_inject)
  then show ?thesis by (simp add: p q)
qed

lemma rd_ok: "full buf \<Longrightarrow> p \<in> cube 5 \<Longrightarrow> rd buf p = Inr (view buf p)"
  using index_bounds [of p] by (simp add: rd_def full_def view_def)

lemma wr_ok:
  assumes "full buf" "p \<in> cube 5"
  obtains buf' where "wr buf p v = Inr buf'" "full buf'" "\<And>q. q \<in> cube 5 \<Longrightarrow> view buf' q = (if q = p then v else view buf q)"
proof -
  let ?buf = "buf[nat (index p) := v]"
  have "wr buf p v = Inr ?buf" "full ?buf" using assms index_bounds [of p] by (simp_all add: wr_def full_def)
  moreover have "view ?buf q = (if q = p then v else view buf q)" if q: "q \<in> cube 5" for q
  proof (cases "q = p")
    case True
    have "nat (index p) < 1331" using index_bounds [OF assms(2)] by linarith
    then show ?thesis using True assms(1) by (simp add: view_def full_def)
  next
    case False
    then have "nat (index q) \<noteq> nat (index p)"
      using index_inject [OF q assms(2)] index_bounds [OF q] index_bounds [OF assms(2)] by (metis nat_eq_iff2 int_nat_eq)
    with False show ?thesis by (simp add: view_def)
  qed
  ultimately show thesis by (rule that)
qed

lemma set_positions: "set positions = cube 4"
proof -
  have "set [- REQUIRED_WOOD_RANGE..REQUIRED_WOOD_RANGE] = {x. \<bar>x\<bar> \<le> 4}" by (simp only: set_upto) (auto simp: REQUIRED_WOOD_RANGE_def)
  then show ?thesis unfolding positions_def Let_def by (auto simp: cube_def simp del: set_upto)
qed

lemma cube_mono: "p \<in> cube m \<Longrightarrow> m \<le> n \<Longrightarrow> p \<in> cube n"
  by (auto simp: cube_def)

lemma moved_cube: "p \<in> cube n \<Longrightarrow> d \<in> set directions \<Longrightarrow> moved p d \<in> cube (n + 1)"
  by (auto simp: cube_def directions_def)

lemma fill_ok:
  assumes "full buf" "set ps \<subseteq> cube 5"
  shows "\<exists>buf'. fold_chain (\<lambda>p buf. wr buf p (f p)) ps buf = Inr buf' \<and> full buf' \<and>
    (\<forall>q \<in> cube 5. view buf' q = (if q \<in> set ps then f q else view buf q))"
  using assms
proof (induction ps arbitrary: buf)
  case (Cons p ps)
  then obtain b where b: "wr buf p (f p) = Inr b" "full b" "\<And>q. q \<in> cube 5 \<Longrightarrow> view b q = (if q = p then f p else view buf q)"
    using wr_ok [OF Cons.prems(1), of p "f p"] by auto
  from Cons.IH [OF b(2)] Cons.prems(2) obtain b' where "fold_chain (\<lambda>p buf. wr buf p (f p)) ps b = Inr b'" "full b'"
    "\<forall>q \<in> cube 5. view b' q = (if q \<in> set ps then f q else view b q)" by auto
  with b show ?case by auto
qed auto

subsection \<open>The search\<close>

lemma opposite_direction: "d \<in> set directions \<Longrightarrow> \<exists>d' \<in> set directions. moved (moved p d) d' = p"
  by (cases p) (auto simp: directions_def)

definition near :: "pos \<Rightarrow> pos \<Rightarrow> bool" where
  "near p q \<longleftrightarrow> (\<exists>d \<in> set directions. q = moved p d)"

lemma spread_ok:
  assumes "full buf" "p \<in> cube 4" "set ds \<subseteq> set directions" "i \<noteq> - 2"
  shows "\<exists>buf'. fold_chain (spread i p) ds buf = Inr buf' \<and> full buf' \<and>
    (\<forall>q \<in> cube 5. view buf' q = (if view buf q = - 2 \<and> (\<exists>d \<in> set ds. q = moved p d) then i else view buf q))"
  using assms(1,3)
proof (induction ds arbitrary: buf)
  case (Cons d ds)
  have p: "moved p d \<in> cube 5" using moved_cube [OF assms(2), of d] Cons.prems(2) by simp
  have "\<exists>b. spread i p d buf = Inr b \<and> full b \<and>
    (\<forall>q \<in> cube 5. view b q = (if view buf q = - 2 \<and> q = moved p d then i else view buf q))"
  proof (cases "view buf (moved p d) = - 2")
    case True
    obtain b where "wr buf (moved p d) i = Inr b" "full b" "\<And>q. q \<in> cube 5 \<Longrightarrow> view b q = (if q = moved p d then i else view buf q)"
      using wr_ok [OF Cons.prems(1) p] by metis
    with True show ?thesis by (auto simp: spread_def rd_ok [OF Cons.prems(1) p])
  next
    case False
    with Cons.prems(1) show ?thesis by (auto simp: spread_def rd_ok [OF Cons.prems(1) p])
  qed
  then obtain b where b: "spread i p d buf = Inr b" "full b"
    "\<And>q. q \<in> cube 5 \<Longrightarrow> view b q = (if view buf q = - 2 \<and> q = moved p d then i else view buf q)" by blast
  from Cons.IH [OF b(2)] Cons.prems(2) obtain b' where b': "fold_chain (spread i p) ds b = Inr b'" "full b'"
    "\<And>q. q \<in> cube 5 \<Longrightarrow> view b' q = (if view b q = - 2 \<and> (\<exists>d \<in> set ds. q = moved p d) then i else view b q)" by auto
  have "view b' q = (if view buf q = - 2 \<and> (\<exists>d' \<in> set (d # ds). q = moved p d') then i else view buf q)" if "q \<in> cube 5" for q
    unfolding b'(3) [OF that] b(3) [OF that] using assms(4) by (cases "q = moved p d") simp_all
  with b(1) b'(1,2) show ?case by simp
qed auto

lemma visit_ok:
  assumes "full buf" "p \<in> cube 4" "i \<noteq> - 2"
  shows "\<exists>buf'. visit i p buf = Inr buf' \<and> full buf' \<and>
    (\<forall>q \<in> cube 5. view buf' q = (if view buf q = - 2 \<and> near p q \<and> view buf p = i - 1 then i else view buf q))"
proof (cases "view buf p = i - 1")
  case True
  with spread_ok [OF assms(1,2) subset_refl assms(3)] show ?thesis
    by (simp add: visit_def rd_ok [OF assms(1) cube_mono [OF assms(2)]] near_def)
next
  case False
  with assms(1) show ?thesis by (simp add: visit_def rd_ok [OF assms(1) cube_mono [OF assms(2)]])
qed

lemma two_steps: "i \<noteq> - 2 \<Longrightarrow>
  (if (if v = - 2 \<and> B then i else v) = - 2 \<and> A then i else if v = - 2 \<and> B then i else v) = (if v = - 2 \<and> (B \<or> A) then i else (v :: int))"
  by simp

text \<open>Within a pass, what a visit writes is not what the pass looks for.\<close>

lemma pass_ok:
  assumes "full buf" "set ps \<subseteq> cube 4" "1 \<le> i"
  shows "\<exists>buf'. fold_chain (visit i) ps buf = Inr buf' \<and> full buf' \<and>
    (\<forall>q \<in> cube 5. view buf' q = (if view buf q = - 2 \<and> (\<exists>p \<in> set ps. near p q \<and> view buf p = i - 1) then i else view buf q))"
  using assms(1,2)
proof (induction ps arbitrary: buf)
  case (Cons p ps)
  obtain b where b: "visit i p buf = Inr b" "full b"
    "\<And>q. q \<in> cube 5 \<Longrightarrow> view b q = (if view buf q = - 2 \<and> near p q \<and> view buf p = i - 1 then i else view buf q)"
    using visit_ok [OF Cons.prems(1), of p i] Cons.prems(2) assms(3) by auto
  have same: "view b p' = i - 1 \<longleftrightarrow> view buf p' = i - 1" if "p' \<in> set ps" for p'
  proof -
    have "p' \<in> cube 5" using Cons.prems(2) that cube_mono [of p' 4 5] by auto
    then show ?thesis using b(3) [of p'] assms(3) by auto
  qed
  from Cons.IH [OF b(2)] Cons.prems(2) obtain b' where b': "fold_chain (visit i) ps b = Inr b'" "full b'"
    "\<And>q. q \<in> cube 5 \<Longrightarrow> view b' q = (if view b q = - 2 \<and> (\<exists>p \<in> set ps. near p q \<and> view b p = i - 1) then i else view b q)" by auto
  have "view b' q = (if view buf q = - 2 \<and> (\<exists>p \<in> set (p # ps). near p q \<and> view buf p = i - 1) then i else view buf q)"
    if "q \<in> cube 5" for q
  proof -
    have eq: "(\<exists>p' \<in> set ps. near p' q \<and> view b p' = i - 1) \<longleftrightarrow> (\<exists>p' \<in> set ps. near p' q \<and> view buf p' = i - 1)"
      using same by (intro bex_cong refl) simp
    have "i \<noteq> - 2" using assms(3) by simp
    then show ?thesis unfolding b'(3) [OF that] b(3) [OF that] eq set_simps bex_simps(5) by (rule two_steps)
  qed
  then have "\<forall>q \<in> cube 5. view b' q = (if view buf q = - 2 \<and> (\<exists>p \<in> set (p # ps). near p q \<and> view buf p = i - 1) then i else view buf q)"
    by (intro ballI)
  moreover have "fold_chain (visit i) (p # ps) buf = Inr b'" using b(1) b'(1) by simp
  ultimately show ?case using b'(2) by (intro exI [of _ b'] conjI)
qed auto

text \<open>The reference: wood is reached from a position in at most so many steps over leaves.\<close>

primrec within :: "region \<Rightarrow> nat \<Rightarrow> pos \<Rightarrow> bool" where
  "within w 0 p \<longleftrightarrow> is_log (block_at w p) \<or> is_wood (block_at w p)"
| "within w (Suc n) p \<longleftrightarrow> within w n p \<or> is_leaves (block_at w p) \<and> list_ex (\<lambda>d. within w n (moved p d)) directions"

lemma within_mono: "within w m p \<Longrightarrow> m \<le> n \<Longrightarrow> within w n p"
  by (induction n) (auto simp: le_Suc_eq)

definition depth :: "region \<Rightarrow> nat \<Rightarrow> pos \<Rightarrow> int" where
  "depth w n p = (if within w n p then int (LEAST k. within w k p) else cell w p)"

lemma depth_front: "depth w n p = int n \<longleftrightarrow> within w n p \<and> (\<forall>k < n. \<not> within w k p)"
proof (cases "within w n p")
  case True
  then have l: "within w (LEAST k. within w k p) p" "(LEAST k. within w k p) \<le> n" by (rule LeastI, rule Least_le)
  have "(LEAST k. within w k p) = n \<longleftrightarrow> (\<forall>k < n. \<not> within w k p)"
    using l True by (metis le_less not_less_Least)
  with True show ?thesis by (simp add: depth_def)
next
  case False
  then have "\<not> within w 0 p" using within_mono by blast
  with False show ?thesis by (auto simp: depth_def cell_def)
qed

lemma depth_unseen: "depth w n p = - 2 \<longleftrightarrow> is_leaves (block_at w p) \<and> \<not> within w n p"
proof (cases "within w n p")
  case False
  then have "\<not> within w 0 p" using within_mono by blast
  with False show ?thesis by (auto simp: depth_def cell_def)
qed (simp add: depth_def)

lemma depth_Suc:
  "depth w (Suc n) p = (if depth w n p = - 2 \<and> (\<exists>d \<in> set directions. depth w n (moved p d) = int n) then int n + 1 else depth w n p)"
proof (cases "within w n p")
  case True
  then have "depth w (Suc n) p = depth w n p" by (simp add: depth_def)
  moreover have "depth w n p \<noteq> - 2" using True by (simp add: depth_unseen)
  ultimately show ?thesis by simp
next
  case False
  then have d: "depth w n p = cell w p" by (simp add: depth_def)
  have front: "within w n (moved p d) \<longleftrightarrow> depth w n (moved p d) = int n" if "d \<in> set directions" "is_leaves (block_at w p)" for d
  proof -
    have "\<not> within w k (moved p d)" if "k < n" for k
    proof
      assume "within w k (moved p d)"
      then have "within w (Suc k) p" using \<open>is_leaves (block_at w p)\<close> \<open>d \<in> set directions\<close> by (auto simp: list_ex_iff)
      with that False within_mono [of w "Suc k" p n] show False by simp
    qed
    then show ?thesis by (auto simp: depth_front)
  qed
  show ?thesis
  proof (cases "within w (Suc n) p")
    case True
    then have l: "is_leaves (block_at w p)" "\<exists>d \<in> set directions. within w n (moved p d)" using False by (auto simp: list_ex_iff)
    have "\<forall>k < Suc n. \<not> within w k p" using False within_mono by (metis less_Suc_eq_le)
    then have "depth w (Suc n) p = int (Suc n)" using True by (simp only: depth_front)
    moreover have "depth w n p = - 2" using l False by (simp add: depth_unseen)
    ultimately show ?thesis using l front by auto
  next
    case no: False
    then have "\<not> (is_leaves (block_at w p) \<and> (\<exists>d \<in> set directions. within w n (moved p d)))" by (auto simp: list_ex_iff)
    then have "\<not> (depth w n p = - 2 \<and> (\<exists>d \<in> set directions. depth w n (moved p d) = int n))" using front by (auto simp: depth_unseen)
    moreover have "depth w (Suc n) p = depth w n p" using no d unfolding depth_def [of w "Suc n"] by (simp del: within.simps)
    ultimately show ?thesis by simp
  qed
qed

lemma passes_ok:
  assumes "full buf" "\<And>p. p \<in> cube 4 \<Longrightarrow> view buf p = cell w (moved pos p)" "\<And>p. p \<in> cube 5 - cube 4 \<Longrightarrow> view buf p = 0"
  shows "n \<le> 4 \<Longrightarrow> \<exists>buf'. fold_chain (\<lambda>i. fold_chain (visit i) positions) [1..int n] buf = Inr buf' \<and> full buf' \<and>
    (\<forall>p. p \<in> cube (4 - int n) \<longrightarrow> view buf' p = depth w n (moved pos p))"
proof (induction n)
  case 0
  have "depth w 0 p = cell w p" for p by (simp add: depth_def cell_def)
  then show ?case using assms(1,2) by simp
next
  case (Suc n)
  then obtain b where b: "fold_chain (\<lambda>i. fold_chain (visit i) positions) [1..int n] buf = Inr b" "full b"
    "\<And>p. p \<in> cube (4 - int n) \<Longrightarrow> view b p = depth w n (moved pos p)" by auto
  obtain b' where b': "fold_chain (visit (int n + 1)) positions b = Inr b'" "full b'"
    "\<And>q. q \<in> cube 5 \<Longrightarrow> view b' q = (if view b q = - 2 \<and> (\<exists>p \<in> cube 4. near p q \<and> view b p = int n) then int n + 1 else view b q)"
    using pass_ok [OF b(2), of positions "int n + 1"] by (auto simp: set_positions)
  have "view b' q = depth w (Suc n) (moved pos q)" if q: "q \<in> cube (4 - int (Suc n))" for q
  proof -
    have q5: "q \<in> cube 5" and q4: "q \<in> cube (4 - int n)" using q by (auto intro: cube_mono)
    have "(\<exists>p \<in> cube 4. near p q \<and> view b p = int n) \<longleftrightarrow> (\<exists>d \<in> set directions. depth w n (moved pos (moved q d)) = int n)"
      (is "?l \<longleftrightarrow> ?r")
    proof
      assume ?l
      then obtain p d where p: "d \<in> set directions" "q = moved p d" "view b p = int n" by (auto simp: near_def)
      obtain d' where d': "d' \<in> set directions" "moved q d' = p" using p(1,2) opposite_direction by metis
      then have "p \<in> cube (4 - int n)" using moved_cube [OF q d'(1)] by simp
      then show ?r using b(3) [of p] p(3) d' by auto
    next
      assume ?r
      then obtain d where d: "d \<in> set directions" "depth w n (moved pos (moved q d)) = int n" by blast
      have m: "moved q d \<in> cube (4 - int n)" using moved_cube [OF q d(1)] by simp
      then have "view b (moved q d) = int n" "moved q d \<in> cube 4" using b(3) d(2) by (auto intro: cube_mono)
      moreover have "near (moved q d) q" using d(1) opposite_direction unfolding near_def by metis
      ultimately show ?l by blast
    qed
    moreover have "moved pos (moved q d) = moved (moved pos q) d" for d by (cases pos; cases q; cases d) simp
    ultimately show ?thesis unfolding b'(3) [OF q5] b(3) [OF q4] depth_Suc by simp
  qed
  moreover have "[1..int (Suc n)] = [1..int n] @ [int n + 1]" by (simp add: upto_rec2)
  ultimately show ?case using b(1) b'(1,2) by (intro exI [of _ b']) (simp add: fold_chain_app)
qed

text \<open>C25: The tick of a leaf never reads or writes outside its buffer, and the leaf decays exactly when it is to be checked, the
  blocks around it are loaded, no wood is reached from it in at most four steps over leaves and no listener cancels the
  event; a leaf that is checked and does not decay is marked as checked.\<close>

theorem randomTick_decays:
  "randomTick cancelled pos w = Inr (let b = block_at w pos in
     if update_bit b \<and> \<not> persistent_bit b then
       if has_chunks w (moved pos (- 5, - 5, - 5)) (moved pos (5, 5, 5)) \<and> \<not> within w 4 pos then
         (if cancelled pos then w else w\<lparr>drops := drops w @ [pos], block_at := (block_at w)(pos := air)\<rparr>)
       else w\<lparr>block_at := (block_at w)(pos := b\<lparr>update_bit := False\<rparr>)\<rparr>
     else w)"
proof -
  let ?buf = "replicate (nat (width * width * width)) 0 :: int list" and ?loaded = "has_chunks w (moved pos (- 5, - 5, - 5)) (moved pos (5, 5, 5))"
  have full: "full ?buf" by (simp add: full_def width_val)
  have zero: "(0, 0, 0) \<in> cube 5" "moved pos (0, 0, 0) = pos" by (auto simp: cube_def, cases pos, simp)
  have "\<exists>buf. check_buffer w pos = Inr buf \<and> full buf \<and> (view buf (0, 0, 0) < 0 \<longleftrightarrow> ?loaded \<and> \<not> within w 4 pos)"
  proof (cases ?loaded)
    case False
    then have "check_buffer w pos = Inr ?buf" by (simp add: check_buffer_def REQUIRED_WOOD_RANGE_def)
    moreover have "view ?buf (0, 0, 0) = 0" using index_bounds [OF zero(1)] by (simp add: view_def width_val)
    ultimately show ?thesis using full False by simp
  next
    case True
    have v0: "view ?buf q = 0" if "q \<in> cube 5" for q using index_bounds [OF that] by (simp add: view_def width_val nat_less_iff)
    have sub: "set positions \<subseteq> cube 5" using cube_mono [of _ 4 5] by (auto simp: set_positions)
    obtain b where b: "fill w pos ?buf = Inr b" "full b"
      "\<And>q. q \<in> cube 5 \<Longrightarrow> view b q = (if q \<in> cube 4 then cell w (moved pos q) else view ?buf q)"
      using fill_ok [OF full sub, of "\<lambda>p. cell w (moved pos p)"] unfolding fill_def set_positions by blast
    have "view b p = cell w (moved pos p)" if "p \<in> cube 4" for p using b(3) [of p] that by (simp add: cube_mono)
    moreover have "view b p = 0" if "p \<in> cube 5 - cube 4" for p using b(3) [of p] that v0 by simp
    ultimately obtain b' where b': "fold_chain (\<lambda>i. fold_chain (visit i) positions) [1..int 4] b = Inr b'" "full b'"
      "\<And>p. p \<in> cube (4 - int 4) \<Longrightarrow> view b' p = depth w 4 (moved pos p)"
      using passes_ok [OF b(2), of w pos 4] by auto
    have "check_buffer w pos = Inr b'" using True b(1) b'(1) by (simp add: check_buffer_def REQUIRED_WOOD_RANGE_def)
    moreover have "view b' (0, 0, 0) = depth w 4 pos" using b'(3) [of "(0, 0, 0)"] zero(2) by (simp add: cube_def)
    moreover have "depth w 4 pos < 0 \<longleftrightarrow> \<not> within w 4 pos"
      using within_mono [of w 0 pos 4] by (auto simp: depth_def cell_def simp del: within.simps(2) split: if_splits)
    ultimately show ?thesis using b'(2) True by simp
  qed
  then obtain buf where "check_buffer w pos = Inr buf" "full buf" "view buf (0, 0, 0) < 0 \<longleftrightarrow> ?loaded \<and> \<not> within w 4 pos" by blast
  then show ?thesis by (auto simp: randomTick_def leaves_die_def Let_def rd_ok [OF _ zero(1)] simp del: within.simps)
qed

subsection \<open>Pistons\<close>

text \<open>The last two states are those the hook adds for the game to overlook.\<close>

datatype piston_state = Retracted | Expanding | Expanded | Retracting | ExpandingCancelled | RetractingCancelled

record piston =
  state :: piston_state
  new_state :: piston_state

datatype block_face = Down | Up | North | South | West | East

datatype piston_event = Extend block_face | Retract block_face

definition NOT_DEFINED_STRENGTH :: int where "NOT_DEFINED_STRENGTH = - 1"

definition getOpposite :: "block_face \<Rightarrow> block_face" where
  "getOpposite f = (case f of Down \<Rightarrow> Up | Up \<Rightarrow> Down | North \<Rightarrow> South | South \<Rightarrow> North | West \<Rightarrow> East | East \<Rightarrow> West)"

definition getOffset :: "block_face \<Rightarrow> pos" where
  "getOffset f = ((case f of East \<Rightarrow> 1 | West \<Rightarrow> - 1 | _ \<Rightarrow> 0), (case f of Up \<Rightarrow> 1 | Down \<Rightarrow> - 1 | _ \<Rightarrow> 0),
     (case f of South \<Rightarrow> 1 | North \<Rightarrow> - 1 | _ \<Rightarrow> 0))"

definition piston_face :: "int \<Rightarrow> block_face" where
  "piston_face n = (if n = 1 then Up else if n = 2 then South else if n = 3 then North else if n = 4 then East else if n = 5 then West else Down)"

text \<open>What a tick sees: the redstone circuit, the block's facing, and whether the listeners cancel the event of this tick.\<close>

record piston_input =
  redstone_tick :: bool
  strength :: int
  facing :: int
  cancels :: bool

definition extending :: "piston_input \<Rightarrow> piston \<Rightarrow> bool" where
  "extending i p \<longleftrightarrow> redstone_tick i \<and> strength i \<noteq> NOT_DEFINED_STRENGTH \<and> strength i > 0 \<and> state p = Retracted \<and> new_state p = Retracted"

definition retracting :: "piston_input \<Rightarrow> piston \<Rightarrow> bool" where
  "retracting i p \<longleftrightarrow> redstone_tick i \<and> strength i \<noteq> NOT_DEFINED_STRENGTH \<and> strength i \<le> 0 \<and> state p = Expanded \<and> new_state p = Expanded"

text \<open>A sentinel is cleared when the power that caused the cancelled move is gone.\<close>

definition clear_sentinel :: "piston_input \<Rightarrow> piston \<Rightarrow> piston" where
  "clear_sentinel i p = (if redstone_tick i \<and> strength i \<noteq> NOT_DEFINED_STRENGTH then
       if strength i \<le> 0 then (if state p = Retracted \<and> new_state p = ExpandingCancelled then p\<lparr>new_state := Retracted\<rparr> else p)
       else (if state p = Expanded \<and> new_state p = RetractingCancelled then p\<lparr>new_state := Expanded\<rparr> else p)
     else p)"

definition piston_tick :: "(piston_input \<Rightarrow> piston \<Rightarrow> piston) \<Rightarrow> piston_input \<Rightarrow> piston \<Rightarrow> piston_event list \<times> piston" where
  "piston_tick original i p = (let f = piston_face (facing i); q = clear_sentinel i p in
     if extending i p then ([Extend f], original i (if cancels i then q\<lparr>new_state := ExpandingCancelled\<rparr> else q))
     else if retracting i p then ([Retract (getOpposite f)], original i (if cancels i then q\<lparr>new_state := RetractingCancelled\<rparr> else q))
     else ([], original i q))"

fun piston_run :: "(piston_input \<Rightarrow> piston \<Rightarrow> piston) \<Rightarrow> piston_input list \<Rightarrow> piston \<Rightarrow> piston_event list \<times> piston" where
  "piston_run original [] p = ([], p)"
| "piston_run original (i # is) p = (let (es, q) = piston_tick original i p; (es', q') = piston_run original is q in (es @ es', q'))"

text \<open>The game's own tick does nothing in a state it does not know.\<close>

definition piston_law :: "(piston_input \<Rightarrow> piston \<Rightarrow> piston) \<Rightarrow> bool" where
  "piston_law original \<longleftrightarrow> (\<forall>i p. new_state p \<in> {ExpandingCancelled, RetractingCancelled} \<longrightarrow> original i p = p)"

definition powered :: "piston_input \<Rightarrow> bool" where
  "powered i \<longleftrightarrow> redstone_tick i \<longrightarrow> strength i > 0 \<or> strength i = NOT_DEFINED_STRENGTH"

definition unpowered :: "piston_input \<Rightarrow> bool" where
  "unpowered i \<longleftrightarrow> redstone_tick i \<longrightarrow> strength i \<le> 0"

lemma cancelled_rest:
  assumes "piston_law original"
    "state p = Retracted \<and> new_state p = ExpandingCancelled \<and> (\<forall>i \<in> set is. powered i) \<or>
     state p = Expanded \<and> new_state p = RetractingCancelled \<and> (\<forall>i \<in> set is. unpowered i)"
  shows "piston_run original is p = ([], p)"
  using assms(2)
proof (induction "is")
  case (Cons i "is")
  have "piston_tick original i p = ([], p)"
    using Cons.prems assms(1)
    by (auto simp: piston_tick_def extending_def retracting_def clear_sentinel_def powered_def unpowered_def piston_law_def Let_def)
  with Cons show ?case by auto
qed simp

text \<open>A cancelled move of a piston stays cancelled: the listeners are asked once, and however the game ticks on, the piston
  neither moves nor asks again while the power that caused the move lasts (for a retraction: while it is absent). The
  game's tick does nothing in a state it does not know.\<close>

theorem piston_cancel_holds:
  assumes "piston_law original" "redstone_tick i" "cancels i"
    "state p = Retracted \<and> new_state p = Retracted \<and> strength i > 0 \<and> (\<forall>j \<in> set is. powered j) \<or>
     state p = Expanded \<and> new_state p = Expanded \<and> strength i \<le> 0 \<and> strength i \<noteq> NOT_DEFINED_STRENGTH \<and> (\<forall>j \<in> set is. unpowered j)"
  shows "\<exists>e. fst (piston_run original (i # is) p) = [e] \<and> state (snd (piston_run original (i # is) p)) = state p \<and>
    e \<in> {Extend (piston_face (facing i)), Retract (getOpposite (piston_face (facing i)))}"
proof -
  define c where "c = (if state p = Retracted then ExpandingCancelled else RetractingCancelled)"
  define e where "e = (if state p = Retracted then Extend (piston_face (facing i)) else Retract (getOpposite (piston_face (facing i))))"
  have "original i (p\<lparr>new_state := c\<rparr>) = p\<lparr>new_state := c\<rparr>" using assms(1) by (simp add: piston_law_def c_def)
  then have t: "piston_tick original i p = ([e], p\<lparr>new_state := c\<rparr>)"
    using assms(2-4)
    by (auto simp: piston_tick_def extending_def retracting_def clear_sentinel_def NOT_DEFINED_STRENGTH_def Let_def e_def c_def)
  have "piston_run original is (p\<lparr>new_state := c\<rparr>) = ([], p\<lparr>new_state := c\<rparr>)"
    by (rule cancelled_rest [OF assms(1)]) (use assms(4) in \<open>auto simp: c_def\<close>)
  with t show ?thesis by (simp add: e_def)
qed

text \<open>A move that is not cancelled is the game's own, and the sentinel is gone after the power changed.\<close>

lemma piston_uncancelled:
  "new_state p \<notin> {ExpandingCancelled, RetractingCancelled} \<Longrightarrow> \<not> cancels i \<Longrightarrow> snd (piston_tick original i p) = original i p"
  by (auto simp: piston_tick_def clear_sentinel_def Let_def)

lemma piston_asked_again:
  assumes "state p = Retracted" "new_state p = ExpandingCancelled" "redstone_tick i" "strength i = 0" "redstone_tick j" "strength j > 0"
    "original i (p\<lparr>new_state := Retracted\<rparr>) = p\<lparr>new_state := Retracted\<rparr>"
  shows "fst (piston_run original [i, j] p) = [Extend (piston_face (facing j))]"
  using assms by (simp add: piston_tick_def extending_def retracting_def clear_sentinel_def NOT_DEFINED_STRENGTH_def Let_def)

lemma opposite_offset: "moved (moved p (getOffset f)) (getOffset (getOpposite f)) = p"
  by (cases p; cases f) (simp_all add: getOffset_def getOpposite_def)

definition demo_original :: "piston_input \<Rightarrow> piston \<Rightarrow> piston" where
  "demo_original i p = (if state p = Retracted \<and> new_state p = Retracted \<and> strength i > 0 then p\<lparr>new_state := Expanding\<rparr> else p)"

theorem piston_cancel_holds_witness:
  "\<exists>e. fst (piston_run demo_original [\<lparr>redstone_tick = True, strength = 15, facing = 1, cancels = True\<rparr>,
      \<lparr>redstone_tick = True, strength = 7, facing = 1, cancels = False\<rparr>] \<lparr>state = Retracted, new_state = Retracted\<rparr>) = [e] \<and>
    e \<in> {Extend Up, Retract Down}"
  using piston_cancel_holds [of demo_original "\<lparr>redstone_tick = True, strength = 15, facing = 1, cancels = True\<rparr>"
    "\<lparr>state = Retracted, new_state = Retracted\<rparr>" "[\<lparr>redstone_tick = True, strength = 7, facing = 1, cancels = False\<rparr>]"]
  by (auto simp: piston_law_def demo_original_def powered_def piston_face_def getOpposite_def)

subsection \<open>Beds\<close>

text \<open>What \<open>findWakeupPosition\<close> asks of the blocks. The comparisons with the place the player came from are done in the game's
  floating point numbers: \<open>entered\<close> gives their answers by direction and position of the head.\<close>

record bed_region =
  is_bed :: "pos \<Rightarrow> bool"
  bed_direction :: "pos \<Rightarrow> int"
  has_head_bit :: "pos \<Rightarrow> bool"
  second_part :: "pos \<Rightarrow> pos"
  hurts :: "pos \<Rightarrow> bool"
  collides :: "pos \<Rightarrow> bool"
  obstructs :: "pos \<Rightarrow> bool"
  is_empty :: "pos \<Rightarrow> bool"

datatype rotation = Rotate0 | Rotate90 | Rotate180 | Rotate270

definition RESPAWN_OFFSETS_NORTH_LEFT :: "pos list" where
  "RESPAWN_OFFSETS_NORTH_LEFT = [(- 1, 0, 0), (- 1, 0, 1), (- 1, 0, 2), (0, 0, 2), (1, 0, 2), (1, 0, 1), (1, 0, 0), (1, 0, - 1),
     (0, 0, - 1), (- 1, 0, - 1), (0, 1, 0), (0, 1, 1)]"

definition RESPAWN_OFFSETS_NORTH_RIGHT :: "pos list" where
  "RESPAWN_OFFSETS_NORTH_RIGHT = [(1, 0, 0), (1, 0, 1), (1, 0, 2), (0, 0, 2), (- 1, 0, 2), (- 1, 0, 1), (- 1, 0, 0), (- 1, 0, - 1),
     (0, 0, - 1), (1, 0, - 1), (0, 1, 0), (0, 1, 1)]"

definition rotation_from_direction :: "int \<Rightarrow> hook_error + rotation" where
  "rotation_from_direction d = (if d = 0 then Inr Rotate180 else if d = 1 then Inr Rotate270 else if d = 2 then Inr Rotate0
     else if d = 3 then Inr Rotate90 else Inl Out_Of_Bounds)"

fun rotated :: "rotation \<Rightarrow> pos \<Rightarrow> pos" where
  "rotated Rotate0 (x, y, z) = (x, y, z)"
| "rotated Rotate90 (x, y, z) = (- z, y, x)"
| "rotated Rotate180 (x, y, z) = (- x, y, - z)"
| "rotated Rotate270 (x, y, z) = (z, y, - x)"

definition isDangerousSpawnPosition :: "bed_region \<Rightarrow> pos \<Rightarrow> bool" where
  "isDangerousSpawnPosition w p \<longleftrightarrow> hurts w p \<or> hurts w (moved p (0, - 1, 0))"

definition isValidStandUpPosition :: "bed_region \<Rightarrow> pos \<Rightarrow> bool" where
  "isValidStandUpPosition w p = (if \<not> collides w (moved p (0, - 1, 0)) then False
     else if \<not> is_bed w p \<and> obstructs w p then False
     else if \<not> is_empty w (moved p (0, 1, 0)) then False
     else if is_bed w p \<and> \<not> is_empty w (moved p (0, 2, 0)) then False else True)"

fun first_standup :: "bed_region \<Rightarrow> pos list \<Rightarrow> pos option \<Rightarrow> pos option" where
  "first_standup w [] found = found"
| "first_standup w (p # ps) found = (if isValidStandUpPosition w p then
       if \<not> isDangerousSpawnPosition w p then Some p
       else first_standup w ps (case found of None \<Rightarrow> Some p | Some q \<Rightarrow> Some q)
     else first_standup w ps found)"

definition use_right_offset :: "int \<Rightarrow> pos \<Rightarrow> (int \<Rightarrow> pos \<Rightarrow> bool) option \<Rightarrow> bool" where
  "use_right_offset d head entered = (case entered of None \<Rightarrow> True | Some f \<Rightarrow> if 0 \<le> d \<and> d \<le> 3 then f d head else True)"

definition wakeup_positions :: "bed_region \<Rightarrow> pos \<Rightarrow> (int \<Rightarrow> pos \<Rightarrow> bool) option \<Rightarrow> hook_error + pos list" where
  "wakeup_positions w p entered = (let d = bed_direction w p; head = (if has_head_bit w p then p else second_part w p) in
     chain (rotation_from_direction d) (\<lambda>r. Inr (map (\<lambda>off. moved head (rotated r off))
       (if use_right_offset d head entered then RESPAWN_OFFSETS_NORTH_RIGHT else RESPAWN_OFFSETS_NORTH_LEFT))))"

definition findWakeupPosition :: "bed_region \<Rightarrow> pos \<Rightarrow> (int \<Rightarrow> pos \<Rightarrow> bool) option \<Rightarrow> hook_error + pos option" where
  "findWakeupPosition w p entered = (if \<not> is_bed w p then Inr None
     else chain (wakeup_positions w p entered) (\<lambda>ps. Inr (first_standup w ps None)))"

lemma first_standup_eq:
  "first_standup w ps found = (case find (\<lambda>p. isValidStandUpPosition w p \<and> \<not> isDangerousSpawnPosition w p) ps of
     Some p \<Rightarrow> Some p
   | None \<Rightarrow> (case found of Some p \<Rightarrow> Some p | None \<Rightarrow> find (isValidStandUpPosition w) ps))"
  by (induction ps arbitrary: found) (auto split: option.splits)

text \<open>The twelve places around the bed do not depend on the side, only their order does.\<close>

lemma wakeup_same_places:
  "wakeup_positions w p e1 = Inr ps \<Longrightarrow> wakeup_positions w p e2 = Inr qs \<Longrightarrow> set ps = set qs"
proof -
  have "set RESPAWN_OFFSETS_NORTH_LEFT = set RESPAWN_OFFSETS_NORTH_RIGHT"
    by (simp add: RESPAWN_OFFSETS_NORTH_LEFT_def RESPAWN_OFFSETS_NORTH_RIGHT_def insert_commute)
  then show "wakeup_positions w p e1 = Inr ps \<Longrightarrow> wakeup_positions w p e2 = Inr qs \<Longrightarrow> set ps = set qs"
    by (auto simp: wakeup_positions_def Let_def chain_Inr split: if_splits)
qed

text \<open>A player leaves a bed at one of the twelve places around it: one with room to stand, and one without danger when there
  is one; there is no place exactly when none of the twelve has room.\<close>

theorem wakeup_safe:
  assumes "is_bed w p" "wakeup_positions w p entered = Inr ps"
  shows "\<exists>r. findWakeupPosition w p entered = Inr r \<and>
    (r = None \<longleftrightarrow> (\<forall>q \<in> set ps. \<not> isValidStandUpPosition w q)) \<and>
    (\<forall>q. r = Some q \<longrightarrow> q \<in> set ps \<and> isValidStandUpPosition w q \<and>
      (isDangerousSpawnPosition w q \<longrightarrow> (\<forall>q' \<in> set ps. isValidStandUpPosition w q' \<longrightarrow> isDangerousSpawnPosition w q')))"
proof -
  let ?safe = "\<lambda>p. isValidStandUpPosition w p \<and> \<not> isDangerousSpawnPosition w p"
  have f: "findWakeupPosition w p entered = Inr (first_standup w ps None)" using assms by (simp add: findWakeupPosition_def)
  show ?thesis
  proof (cases "find ?safe ps")
    case (Some q)
    then have "q \<in> set ps" "?safe q" by (auto simp: find_Some_iff)
    with Some f show ?thesis by (auto simp: first_standup_eq)
  next
    case None
    then have safe: "\<forall>q \<in> set ps. \<not> ?safe q" by (auto simp: find_None_iff)
    show ?thesis
    proof (cases "find (isValidStandUpPosition w) ps")
      case n: None
      then have "\<forall>q \<in> set ps. \<not> isValidStandUpPosition w q" by (auto simp: find_None_iff)
      with None n f show ?thesis by (simp add: first_standup_eq)
    next
      case (Some q)
      then have "q \<in> set ps" "isValidStandUpPosition w q" by (auto simp: find_Some_iff)
      with None Some f safe show ?thesis by (auto simp: first_standup_eq)
    qed
  qed
qed

subsection \<open>Redstone ticking of a dimension\<close>

text \<open>Durations are nanoseconds; the counters are unsigned 64-bit words.\<close>

record redstone =
  enabled :: bool
  executed_ticks :: "64 word"
  skipped_ticks :: "64 word"
  total_duration :: int
  last_duration :: int
  maximum_duration :: int

definition new_redstone :: redstone where
  "new_redstone = \<lparr>enabled = True, executed_ticks = 0, skipped_ticks = 0, total_duration = 0, last_duration = 0, maximum_duration = 0\<rparr>"

definition recordExecuted :: "int \<Rightarrow> redstone \<Rightarrow> redstone" where
  "recordExecuted d s = s\<lparr>executed_ticks := executed_ticks s + 1, total_duration := total_duration s + d, last_duration := d,
     maximum_duration := max (maximum_duration s) d\<rparr>"

definition recordSkipped :: "redstone \<Rightarrow> redstone" where
  "recordSkipped s = s\<lparr>skipped_ticks := skipped_ticks s + 1, last_duration := 0\<rparr>"

definition reset :: "redstone \<Rightarrow> redstone" where
  "reset s = s\<lparr>executed_ticks := 0, skipped_ticks := 0, total_duration := 0, last_duration := 0, maximum_duration := 0\<rparr>"

text \<open>\<open>game\<close> is the game's own redstone tick, \<open>d\<close> the time it takes; a dimension the server does not know has no state.\<close>

definition tickRedstone :: "('w \<Rightarrow> 'w) \<Rightarrow> int \<Rightarrow> redstone option \<times> 'w \<Rightarrow> redstone option \<times> 'w" where
  "tickRedstone game d sw = (case sw of
     (None, w) \<Rightarrow> (None, game w)
   | (Some s, w) \<Rightarrow> if \<not> enabled s then (Some (recordSkipped s), w) else (Some (recordExecuted d s), game w))"

lemma redstone_off:
  "\<not> enabled s \<Longrightarrow> fold (tickRedstone game) ds (Some s, w) =
    (Some (s\<lparr>skipped_ticks := skipped_ticks s + of_nat (length ds), last_duration := (if ds = [] then last_duration s else 0)\<rparr>), w)"
  by (induction ds arbitrary: s) (auto simp: tickRedstone_def recordSkipped_def)

lemma redstone_on:
  "enabled s \<Longrightarrow> fold (tickRedstone game) ds (Some s, w) = (Some s', w') \<Longrightarrow>
    w' = (game ^^ length ds) w \<and> executed_ticks s' = executed_ticks s + of_nat (length ds) \<and> skipped_ticks s' = skipped_ticks s \<and>
    total_duration s' = total_duration s + sum_list ds \<and> maximum_duration s' = fold max ds (maximum_duration s)"
proof (induction ds arbitrary: s w)
  case (Cons d ds)
  have "enabled (recordExecuted d s)" using Cons.prems(1) by (simp add: recordExecuted_def)
  moreover have "fold (tickRedstone game) ds (Some (recordExecuted d s), game w) = (Some s', w')"
    using Cons.prems by (simp add: tickRedstone_def [of game d "(Some s, w)"])
  ultimately show ?case using Cons.IH [of "recordExecuted d s" "game w"]
    by (simp add: recordExecuted_def funpow_swap1 max.commute)
qed simp

definition demo_bed :: bed_region where
  "demo_bed = \<lparr>is_bed = (\<lambda>p. p = (0, 0, 0)), bed_direction = (\<lambda>_. 2), has_head_bit = (\<lambda>_. True), second_part = id,
    hurts = (\<lambda>p. p = (1, - 1, 0)), collides = (\<lambda>(x, y, z). y = - 1), obstructs = (\<lambda>_. False), is_empty = (\<lambda>_. True)\<rparr>"

theorem wakeup_safe_witness:
  "\<exists>r. findWakeupPosition demo_bed (0, 0, 0) None = Inr r \<and> r \<noteq> None \<and> r \<noteq> Some (1, 0, 0)"
proof -
  have w: "wakeup_positions demo_bed (0, 0, 0) None = Inr RESPAWN_OFFSETS_NORTH_RIGHT"
    by (simp add: wakeup_positions_def demo_bed_def rotation_from_direction_def use_right_offset_def RESPAWN_OFFSETS_NORTH_RIGHT_def)
  have "is_bed demo_bed (0, 0, 0)" by (simp add: demo_bed_def)
  from wakeup_safe [OF this w] obtain r where r: "findWakeupPosition demo_bed (0, 0, 0) None = Inr r"
    "r = None \<longleftrightarrow> (\<forall>q \<in> set RESPAWN_OFFSETS_NORTH_RIGHT. \<not> isValidStandUpPosition demo_bed q)"
    "\<forall>q. r = Some q \<longrightarrow> (isDangerousSpawnPosition demo_bed q \<longrightarrow>
      (\<forall>q' \<in> set RESPAWN_OFFSETS_NORTH_RIGHT. isValidStandUpPosition demo_bed q' \<longrightarrow> isDangerousSpawnPosition demo_bed q'))" by blast
  have v: "(1, 0, 1) \<in> set RESPAWN_OFFSETS_NORTH_RIGHT" "isValidStandUpPosition demo_bed (1, 0, 1)" "\<not> isDangerousSpawnPosition demo_bed (1, 0, 1)"
    "isDangerousSpawnPosition demo_bed (1, 0, 0)"
    by (simp_all add: RESPAWN_OFFSETS_NORTH_RIGHT_def isValidStandUpPosition_def isDangerousSpawnPosition_def demo_bed_def)
  have "r \<noteq> None" using r(2) v(1,2) by blast
  moreover have "r \<noteq> Some (1, 0, 0)" using r(3) v by blast
  ultimately show ?thesis using r(1) by blast
qed

end
