(* ===== verification/Network_Peer.thy ===== *)
theory Network_Peer
  imports Binary_Stream Map_View
begin

text \<open>
  The packets of a peer (\<open>src/endstone/runtime/bedrock_hooks/batched_network_peer.cpp\<close>): the header, the event of a packet
  that is sent or received, the movement that is sent as an absolute position, and the packets the hook patches. The
  listeners' decision, the game's reader and writer of the patched packets and the peer below are parameters. Reading
  a packet that cannot be parsed drops it; undefined behaviour and accesses outside a vector are errors.
\<close>

subsection \<open>The header\<close>

definition PACKET_ID_MASK :: "32 word" where "PACKET_ID_MASK = 1023"
definition SUBCLIENT_ID_MASK :: "32 word" where "SUBCLIENT_ID_MASK = 3"

definition PacketHeader :: "32 word \<Rightarrow> 32 word \<Rightarrow> 32 word \<Rightarrow> 32 word" where
  "PacketHeader recipient packet_id sender =
     (packet_id AND PACKET_ID_MASK) OR push_bit 10 (recipient AND SUBCLIENT_ID_MASK) OR push_bit 12 (sender AND SUBCLIENT_ID_MASK)"

definition getPacketId :: "32 word \<Rightarrow> 32 word" where
  "getPacketId h = h AND PACKET_ID_MASK"

definition getRecipientSubId :: "32 word \<Rightarrow> 32 word" where
  "getRecipientSubId h = drop_bit 10 h AND SUBCLIENT_ID_MASK"

definition getSenderSubId :: "32 word \<Rightarrow> 32 word" where
  "getSenderSubId h = drop_bit 12 h AND SUBCLIENT_ID_MASK"

lemma bit_masks [simp]:
  "bit PACKET_ID_MASK n \<longleftrightarrow> n < 10" "bit SUBCLIENT_ID_MASK n \<longleftrightarrow> n < 2"
proof -
  have m: "PACKET_ID_MASK = mask 10" "SUBCLIENT_ID_MASK = mask 2" by (simp_all add: PACKET_ID_MASK_def SUBCLIENT_ID_MASK_def mask_eq_decr_exp)
  show "bit PACKET_ID_MASK n \<longleftrightarrow> n < 10" "bit SUBCLIENT_ID_MASK n \<longleftrightarrow> n < 2" unfolding m bit_mask_iff by auto
qed

lemma header_parts:
  "getPacketId (PacketHeader r p s) = p AND PACKET_ID_MASK"
  "getRecipientSubId (PacketHeader r p s) = r AND SUBCLIENT_ID_MASK"
  "getSenderSubId (PacketHeader r p s) = s AND SUBCLIENT_ID_MASK"
  by (rule bit_word_eqI; auto simp: getPacketId_def getRecipientSubId_def getSenderSubId_def PacketHeader_def bit_simps)+

lemma header_fields:
  "getRecipientSubId h AND SUBCLIENT_ID_MASK = getRecipientSubId h" "getSenderSubId h AND SUBCLIENT_ID_MASK = getSenderSubId h"
  by (rule bit_word_eqI; auto simp: getRecipientSubId_def getSenderSubId_def bit_simps)+

subsection \<open>Movement\<close>

definition readByte :: "bytes \<Rightarrow> nat \<Rightarrow> (byte \<times> nat) option" where
  "readByte pkt off = (if off \<ge> length pkt then None else Some (pkt ! off, off + 1))"

function read_var64 :: "bytes \<Rightarrow> nat \<Rightarrow> nat \<Rightarrow> 64 word \<Rightarrow> (64 word \<times> nat) option" where
  "read_var64 pkt shift off v = (if 64 \<le> shift then None else case readByte pkt off of
     None \<Rightarrow> None
   | Some (b, off') \<Rightarrow> let v' = v OR push_bit shift (ucast (b AND 0x7F)) in
       if b AND 0x80 = 0 then Some (v', off') else read_var64 pkt (shift + 7) off' v')"
  by pat_completeness auto
termination
  by (relation "measure (\<lambda>(_, shift, _, _). 64 - shift)") auto

declare read_var64.simps [simp del]

definition readUnsignedVarInt64 :: "bytes \<Rightarrow> nat \<Rightarrow> (64 word \<times> nat) option" where
  "readUnsignedVarInt64 pkt off = read_var64 pkt 0 off 0"

definition skipOptionalField :: "bytes \<Rightarrow> nat \<Rightarrow> nat \<Rightarrow> nat option" where
  "skipOptionalField pkt value_size off = (case readByte pkt off of
     None \<Rightarrow> None
   | Some (present, off') \<Rightarrow> if present > 1 then None
       else if present \<noteq> 0 then (if value_size > length pkt - off' then None else Some (off' + value_size))
       else Some off')"

fun skip_fields :: "bytes \<Rightarrow> nat list \<Rightarrow> nat \<Rightarrow> nat option" where
  "skip_fields pkt [] off = Some off"
| "skip_fields pkt (n # ns) off = Option.bind (skipOptionalField pkt n off) (skip_fields pkt ns)"

record delta_header =
  runtime_id :: "64 word"
  on_ground :: bool
  force_move :: bool
  force_move_local_entity :: bool
  force_completion :: bool

definition readDeltaMovementHeader :: "bytes \<Rightarrow> delta_header option" where
  "readDeltaMovementHeader payload =
     Option.bind (readUnsignedVarInt64 payload 0) (\<lambda>(rid, off).
     Option.bind (skip_fields payload [4, 4, 4, 1, 1, 1] off) (\<lambda>off.
     Option.bind (readByte payload off) (\<lambda>(g, off).
     Option.bind (readByte payload off) (\<lambda>(m, off).
     Option.bind (readByte payload off) (\<lambda>(l, off).
     Option.bind (readByte payload off) (\<lambda>(c, off).
     if off \<noteq> length payload \<or> g > 1 \<or> m > 1 \<or> l > 1 \<or> c > 1 then None
     else Some \<lparr>runtime_id = rid, on_ground = g \<noteq> 0, force_move = m \<noteq> 0, force_move_local_entity = l \<noteq> 0, force_completion = c \<noteq> 0\<rparr>))))))"

text \<open>The position that was last sent for an actor; \<open>float\<close>s are bit patterns. \<open>players\<close> finds the network data of a moving
  player by its runtime identifier.\<close>

record last_sent =
  sent_runtime_id :: "64 word"
  sent_on_ground :: bool
  sent_force_move :: bool
  sent_force_move_local :: bool
  sent_force_completion :: bool
  pos_x :: "32 word"
  pos_y :: "32 word"
  pos_z :: "32 word"
  rot_x :: byte
  rot_y :: byte
  rot_y_head :: byte

record network_data =
  has_initialized_last_sent :: bool
  last_sent_move_data :: last_sent

record viewer =
  viewer_runtime_id :: "64 word"
  viewer_id :: "64 word"

definition absolute_bytes :: "64 word \<Rightarrow> last_sent \<Rightarrow> bytes" where
  "absolute_bytes rid l = getBuffer (writeSignedByte (rot_y_head l) (writeSignedByte (rot_y l) (writeSignedByte (rot_x l)
     (writeFloat (pos_z l) (writeFloat (pos_y l) (writeFloat (pos_x l) (Binary_Stream.writeByte 1 (writeUnsignedVarInt64 rid BinaryStream))))))))"

definition makeAbsolutePlayerMovement :: "(64 word \<Rightarrow> network_data option) option \<Rightarrow> bytes \<Rightarrow> viewer option \<Rightarrow> bytes option" where
  "makeAbsolutePlayerMovement players payload observer = (case observer of
     None \<Rightarrow> None
   | Some obs \<Rightarrow> (case readDeltaMovementHeader payload of
       None \<Rightarrow> None
     | Some m \<Rightarrow> if runtime_id m = viewer_runtime_id obs \<or> \<not> on_ground m \<or> force_move m \<or> force_move_local_entity m \<or> force_completion m
         then None
         else case players of None \<Rightarrow> None | Some level \<Rightarrow> (case level (runtime_id m) of
           None \<Rightarrow> None
         | Some nd \<Rightarrow> if \<not> has_initialized_last_sent nd then None
             else let l = last_sent_move_data nd in
               if sent_runtime_id l \<noteq> runtime_id m \<or> \<not> sent_on_ground l \<or> sent_force_move l \<or> sent_force_move_local l \<or> sent_force_completion l
               then None else Some (absolute_bytes (runtime_id m) l))))"

subsection \<open>Patched packets\<close>

text \<open>What the hook sees of the packets it patches; the rest of each packet is opaque.\<close>

record map_packet =
  pk_map_id :: "64 word"
  pk_unique_ids :: "64 word list"
  pk_decorations :: "cursor list"
  pk_width :: int
  pk_height :: int
  pk_start_x :: int
  pk_start_y :: int
  pk_pixels :: "32 word list"

datatype 'r packet =
    Start_Game "64 word" 'r
  | Packs_Info "(string \<times> string) list" 'r
  | Pack_Stack bool 'r
  | Map_Data map_packet 'r
  | Other_Packet 'r

text \<open>Decorations are written with the type, position, direction and caption of a cursor.\<close>

record 'r server =
  absolute_movement :: bool
  level_players :: "(64 word \<Rightarrow> network_data option) option"
  client_generation :: "bool option"
  content_key :: "string \<Rightarrow> string option"
  allow_client_packs :: bool
  maps :: "64 word \<rightharpoonup> map_view"
  map_code :: plugin_code
  parse_packet :: "32 word \<Rightarrow> bytes \<Rightarrow> 'r packet option"
  print_packet :: "'r packet \<Rightarrow> bytes"
  player_of :: "32 word \<Rightarrow> viewer option"

definition put :: "'a list \<Rightarrow> int \<Rightarrow> 'a \<Rightarrow> map_error + 'a list" where
  "put xs i v = (if 0 \<le> i \<and> i < int (length xs) then Inr (xs[nat i := v]) else Inl (Image_Error Out_Of_Bounds))"

definition patch_pixels :: "32 word list \<Rightarrow> map_packet \<Rightarrow> map_error + map_packet" where
  "patch_pixels buf pk = chain (fold_chain (\<lambda>x. fold_chain (\<lambda>y px.
       chain (at buf ((pk_start_x pk + x) + (pk_start_y pk + y) * MAP_SIZE)) (\<lambda>n. put px (x + y * pk_width pk) n))
       [0..pk_height pk - 1]) [0..pk_width pk - 1] (pk_pixels pk)) (\<lambda>px. Inr (pk\<lparr>pk_pixels := px\<rparr>))"

definition out_of_map :: "map_packet \<Rightarrow> bool" where
  "out_of_map pk \<longleftrightarrow> pk_start_x pk < 0 \<or> pk_start_y pk < 0 \<or> pk_width pk \<le> 0 \<or> pk_height pk \<le> 0 \<or>
     pk_start_x pk + pk_width pk > MAP_SIZE \<or> pk_start_y pk + pk_height pk > MAP_SIZE"

definition patch_decorations :: "cursor list \<Rightarrow> map_packet \<Rightarrow> map_packet" where
  "patch_decorations cs pk = pk\<lparr>pk_unique_ids := map (\<lambda>_. INVALID_ID) (filter visible cs), pk_decorations := filter visible cs\<rparr>"

definition patch_map :: "viewer \<Rightarrow> map_packet \<Rightarrow> 'r server \<Rightarrow> map_error + map_packet \<times> 'r server" where
  "patch_map player pk srv = (case maps srv (pk_map_id pk) of
     None \<Rightarrow> Inr (pk, srv)
   | Some v \<Rightarrow> if pk_pixels pk = [] \<and> pk_decorations pk = [] then Inr (pk, srv)
       else chain (render (map_code srv) (viewer_id player) v) (\<lambda>(rd, v').
         let srv' = srv\<lparr>maps := (maps srv)(pk_map_id pk \<mapsto> v')\<rparr> in
         if pk_pixels pk \<noteq> [] then
           if out_of_map pk then Inr (pk, srv')
           else chain (patch_pixels (rendered rd) pk) (\<lambda>pk'. Inr (patch_decorations (shown_cursors rd) pk', srv'))
         else Inr (patch_decorations (shown_cursors rd) pk, srv')))"

definition patchPacket :: "viewer option \<Rightarrow> 'r packet \<Rightarrow> 'r server \<Rightarrow> map_error + 'r packet \<times> 'r server" where
  "patchPacket player p srv = (case p of
     Start_Game seed r \<Rightarrow> Inr (if client_generation srv = Some False then Start_Game 0 r else p, srv)
   | Packs_Info packs r \<Rightarrow>
       Inr (Packs_Info (map (\<lambda>(i, k). (i, case content_key srv i of Some k' \<Rightarrow> k' | None \<Rightarrow> k)) packs) r, srv)
   | Pack_Stack required r \<Rightarrow> Inr (Pack_Stack (required \<and> \<not> allow_client_packs srv) r, srv)
   | Map_Data pk r \<Rightarrow> (case player of
       None \<Rightarrow> Inr (p, srv)
     | Some pl \<Rightarrow> chain (patch_map pl pk srv) (\<lambda>(pk', srv'). Inr (Map_Data pk' r, srv')))
   | Other_Packet r \<Rightarrow> Inr (p, srv))"

subsection \<open>Sending\<close>

record packet_event =
  event_player :: "viewer option"
  event_packet_id :: "32 word"
  event_payload :: bytes
  event_sub_id :: "32 word"

text \<open>What the listeners of the event answer; \<open>Replace\<close> is the last call of \<open>setPayload\<close>.\<close>

datatype decision = Cancel | Keep | Replace bytes

datatype outcome = Undefined | Failed map_error | Dropped | Sent bytes

definition with_header :: "32 word \<Rightarrow> bytes \<Rightarrow> bytes" where
  "with_header h payload = getBuffer (writeRawBytes payload (writeUnsignedVarInt h BinaryStream))"

definition MoveDeltaActor :: "32 word" where "MoveDeltaActor = 111"
definition MoveAbsoluteActor :: "32 word" where "MoveAbsoluteActor = 18"

definition is_patched :: "32 word \<Rightarrow> bool" where
  "is_patched i \<longleftrightarrow> i = 11 \<or> i = 6 \<or> i = 7 \<or> i = 67"

text \<open>\<open>changed\<close> says that the payload of the event is not the one it was made with, which the code tells by its address.\<close>

definition finish_send :: "(packet_event \<Rightarrow> decision) \<Rightarrow> packet_event \<Rightarrow> bool \<Rightarrow> bool \<Rightarrow> 32 word \<Rightarrow> bytes \<Rightarrow> outcome" where
  "finish_send decide e replaced changed h pkt = (case decide e of
     Cancel \<Rightarrow> Dropped
   | Keep \<Rightarrow> if replaced \<or> changed then Sent (with_header h (event_payload e)) else Sent pkt
   | Replace q \<Rightarrow> Sent (with_header h q))"

definition sendPacket :: "(packet_event \<Rightarrow> decision) \<Rightarrow> bytes \<Rightarrow> 'r server \<Rightarrow> outcome \<times> 'r server" where
  "sendPacket decide pkt srv = (case getUnsignedVarInt (ReadOnlyBinaryStream pkt False) of
     (Inl Undefined_Shift, _) \<Rightarrow> (Undefined, srv)
   | (Inl Invalid_Seek, _) \<Rightarrow> (Dropped, srv)
   | (Inr h, s) \<Rightarrow>
       let player = player_of srv (getSenderSubId h);
           payload = drop (unat (getReadPointer s)) (getView s);
           replacement = (if getPacketId h = MoveDeltaActor \<and> absolute_movement srv
             then makeAbsolutePlayerMovement (level_players srv) payload player else None);
           h' = (if replacement = None then h else PacketHeader (getRecipientSubId h) MoveAbsoluteActor (getSenderSubId h));
           e = \<lparr>event_player = player, event_packet_id = getPacketId h',
             event_payload = (case replacement of None \<Rightarrow> payload | Some p \<Rightarrow> p), event_sub_id = getSenderSubId h'\<rparr> in
       if is_patched (getPacketId h') then (case parse_packet srv (getPacketId h') payload of
           None \<Rightarrow> (Dropped, srv)
         | Some p \<Rightarrow> (case patchPacket player p srv of
             Inl err \<Rightarrow> (Failed err, srv)
           | Inr (p', srv') \<Rightarrow> (finish_send decide (e\<lparr>event_payload := print_packet srv p'\<rparr>) False True h' pkt, srv')))
       else (finish_send decide e (replacement \<noteq> None) False h' pkt, srv))"

subsection \<open>Receiving\<close>

datatype data_status = HasData | NoData | BrokenData

datatype received = Undefined_Behaviour | Status data_status bytes

text \<open>The peer below is the list of what it will still return; when the list is empty there is no data.\<close>

fun receivePacket :: "(packet_event \<Rightarrow> decision) \<Rightarrow> 'r server \<Rightarrow> (data_status \<times> bytes) list \<Rightarrow> received \<times> (data_status \<times> bytes) list" where
  "receivePacket decide srv [] = (Status NoData [], [])"
| "receivePacket decide srv ((status, pkt) # rest) = (if status \<noteq> HasData then (Status status pkt, rest)
     else case getUnsignedVarInt (ReadOnlyBinaryStream pkt False) of
       (Inl Undefined_Shift, _) \<Rightarrow> (Undefined_Behaviour, rest)
     | (Inl Invalid_Seek, _) \<Rightarrow> (Status BrokenData pkt, rest)
     | (Inr h, s) \<Rightarrow>
         let payload = drop (unat (getReadPointer s)) (getView s);
             e = \<lparr>event_player = player_of srv (getRecipientSubId h), event_packet_id = getPacketId h,
               event_payload = payload, event_sub_id = getRecipientSubId h\<rparr> in
         (case decide e of
           Cancel \<Rightarrow> receivePacket decide srv rest
         | Keep \<Rightarrow> (Status HasData pkt, rest)
         | Replace q \<Rightarrow> (Status HasData (take (unat (getReadPointer s)) pkt @ q), rest)))"

subsection \<open>What a peer sees\<close>

lemma with_header_eq: "with_header h p = varint_bytes h @ p"
  by (simp add: with_header_def stream_writes getBuffer_def write_data_eq BinaryStream_def)

lemma header_read:
  assumes "length p + 5 < 2 ^ 64"
  shows "\<exists>s. getUnsignedVarInt (ReadOnlyBinaryStream (varint_bytes h @ p) False) = (Inr h, s) \<and>
    unat (getReadPointer s) = length (varint_bytes h) \<and> getView s = varint_bytes h @ p"
proof -
  let ?s = "ReadOnlyBinaryStream (varint_bytes h @ p) False"
  have "getUnsignedVarInt_loop 0 0 ?s = (Inr (0 OR push_bit 0 h), ?s\<lparr>read_pointer := read_pointer ?s + of_nat (length (varint_bytes h))\<rparr>)"
    using assms length_varint_32 [of h] unat_lt2p [of h]
    by (intro getUnsignedVarInt_loop_varint) (simp_all add: ReadOnlyBinaryStream_def unread_def)
  moreover have "unat (of_nat (length (varint_bytes h)) :: 64 word) = length (varint_bytes h)"
    using length_varint_32 [of h] by (simp add: unat_of_nat)
  ultimately show ?thesis by (simp add: getUnsignedVarInt_def getReadPointer_def getView_def ReadOnlyBinaryStream_def)
qed

lemma read_var64_varint:
  assumes "shift < 64" "drop off p = varint_bytes w @ rest" "unat w < 2 ^ (64 - shift)"
  shows "read_var64 p shift off v = Some (v OR push_bit shift w, off + length (varint_bytes w))"
  using assms
proof (induction w arbitrary: v shift off rule: varint_bytes.induct)
  case (1 w)
  have off: "off < length p" using "1.prems"(2) varint_bytes_nonempty [of w] by (metis append_is_Nil_conv drop_all not_le)
  show ?case
  proof (cases "drop_bit 7 w = 0")
    case True
    then have vb: "varint_bytes w = [ucast (w AND 0x7F)]" by (simp add: varint_bytes.simps [of w] Let_def)
    then have b: "p ! off = ucast (w AND 0x7F)" using "1.prems"(2) off by (metis append_Cons hd_drop_conv_nth list.sel(1))
    have "v OR push_bit shift (w AND 0x7F) = v OR push_bit shift w" using varint_group [of v shift w] True by simp
    then show ?thesis using off b vb "1.prems"(1) by (simp add: read_var64.simps [of p shift] readByte_def low_byte_bits Let_def)
  next
    case False
    let ?b = "(ucast (w AND 0x7F) :: byte) OR 0x80"
    from False have vb: "varint_bytes w = ?b # varint_bytes (drop_bit 7 w)" by (simp add: varint_bytes.simps [of w] Let_def)
    have b: "p ! off = ?b" using "1.prems"(2) off vb by (metis append_Cons hd_drop_conv_nth list.sel(1))
    have rest: "drop (off + 1) p = varint_bytes (drop_bit 7 w) @ rest" using "1.prems"(2) vb by (metis Suc_eq_plus1 append_Cons drop_Suc drop_tl list.sel(3))
    from False have "128 \<le> unat w" by (simp add: drop_7_eq_0)
    with "1.prems"(3) have "2 ^ 7 < (2::nat) ^ (64 - shift)" by simp
    then have "7 < 64 - shift" by (rule power_less_imp_less_exp [rotated]) simp
    then have i7: "shift + 7 < 64" by simp
    then have "64 - shift = (64 - (shift + 7)) + 7" by simp
    then have "(2::nat) ^ (64 - shift) = 2 ^ (64 - (shift + 7)) * 128" by (simp only: power_add) simp
    with "1.prems"(3) have "unat (drop_bit 7 w) < 2 ^ (64 - (shift + 7))" by (simp add: unat_drop_bit_word less_mult_imp_div_less)
    then have "read_var64 p (shift + 7) (off + 1) (v OR push_bit shift (w AND 0x7F)) =
      Some ((v OR push_bit shift (w AND 0x7F)) OR push_bit (shift + 7) (drop_bit 7 w), off + 1 + length (varint_bytes (drop_bit 7 w)))"
      using False i7 rest by (intro "1.IH" [OF refl refl]) simp_all
    then have "read_var64 p (shift + 7) (off + 1) (v OR push_bit shift (w AND 0x7F)) = Some (v OR push_bit shift w, off + length (varint_bytes w))"
      unfolding varint_group using vb by simp
    then show ?thesis using off b "1.prems"(1) by (simp add: read_var64.simps [of p shift off] readByte_def low_byte_bits Let_def del: push_bit_and)
  qed
qed

lemma readUnsignedVarInt64_varint: "readUnsignedVarInt64 (varint_bytes w @ rest) 0 = Some (w, length (varint_bytes w))"
  using read_var64_varint [of 0 0 "varint_bytes w @ rest" w rest 0] unat_lt2p [of w] by (simp add: readUnsignedVarInt64_def)

text \<open>The fields of a delta movement as they are written: a flag and, when it is set, the value.\<close>

fun optional_bytes :: "bytes option \<Rightarrow> bytes" where
  "optional_bytes None = [0]"
| "optional_bytes (Some v) = 1 # v"

definition delta_bytes :: "delta_header \<Rightarrow> bytes option list \<Rightarrow> bytes" where
  "delta_bytes h fs = varint_bytes (runtime_id h) @ concat (map optional_bytes fs) @
     map (\<lambda>b. if b then 1 else 0) [on_ground h, force_move h, force_move_local_entity h, force_completion h]"

definition delta_fields :: "bytes option list \<Rightarrow> bool" where
  "delta_fields fs \<longleftrightarrow> list_all2 (\<lambda>f n. case f of None \<Rightarrow> True | Some v \<Rightarrow> length v = n) fs [4, 4, 4, 1, 1, 1]"

lemma skip_fields_ok:
  assumes "list_all2 (\<lambda>f n. case f of None \<Rightarrow> True | Some v \<Rightarrow> length v = n) fs ns"
  shows "skip_fields (pre @ concat (map optional_bytes fs) @ rest) ns (length pre) = Some (length pre + length (concat (map optional_bytes fs)))"
  using assms
proof (induction fs ns arbitrary: pre rule: list_all2_induct)
  case (Cons f fs n ns)
  have "skipOptionalField (pre @ concat (map optional_bytes (f # fs)) @ rest) n (length pre) = Some (length (pre @ optional_bytes f))"
    using Cons.hyps(1) by (cases f) (simp_all add: skipOptionalField_def readByte_def nth_append)
  then show ?case using Cons.IH [of "pre @ optional_bytes f"] by simp
qed simp

lemma readByte_next: "readByte (pre @ b # rest) (length pre) = Some (b, length pre + 1)"
  by (simp add: readByte_def nth_append)

lemma delta_roundtrip:
  assumes "delta_fields fs"
  shows "readDeltaMovementHeader (delta_bytes h fs) = Some h"
proof -
  let ?v = "varint_bytes (runtime_id h)" and ?f = "concat (map optional_bytes fs)"
  let ?bit = "\<lambda>b. (if b then 1 else 0) :: byte"
  define n where "n = length ?v + length ?f"
  have v: "readUnsignedVarInt64 (delta_bytes h fs) 0 = Some (runtime_id h, length ?v)"
    by (simp add: delta_bytes_def readUnsignedVarInt64_varint)
  have f: "skip_fields (delta_bytes h fs) [4, 4, 4, 1, 1, 1] (length ?v) = Some n"
    unfolding delta_bytes_def n_def by (rule skip_fields_ok) (use assms in \<open>simp add: delta_fields_def\<close>)
  have l: "length (delta_bytes h fs) = Suc (Suc (Suc (Suc n)))" by (simp add: delta_bytes_def n_def)
  have r: "readByte (delta_bytes h fs) n = Some (?bit (on_ground h), Suc n)"
    "readByte (delta_bytes h fs) (Suc n) = Some (?bit (force_move h), Suc (Suc n))"
    "readByte (delta_bytes h fs) (Suc (Suc n)) = Some (?bit (force_move_local_entity h), Suc (Suc (Suc n)))"
    "readByte (delta_bytes h fs) (Suc (Suc (Suc n))) = Some (?bit (force_completion h), Suc (Suc (Suc (Suc n))))"
    by (simp_all add: delta_bytes_def readByte_def nth_append n_def)
  show ?thesis unfolding readDeltaMovementHeader_def v using f r l by (cases h) (simp del: skip_fields.simps)
qed

subsection \<open>Properties\<close>

definition send_event :: "'r server \<Rightarrow> 32 word \<Rightarrow> bytes \<Rightarrow> packet_event" where
  "send_event srv h p = \<lparr>event_player = player_of srv (getSenderSubId h), event_packet_id = getPacketId h, event_payload = p,
     event_sub_id = getSenderSubId h\<rparr>"

definition receive_event :: "'r server \<Rightarrow> 32 word \<Rightarrow> bytes \<Rightarrow> packet_event" where
  "receive_event srv h p = \<lparr>event_player = player_of srv (getRecipientSubId h), event_packet_id = getPacketId h, event_payload = p,
     event_sub_id = getRecipientSubId h\<rparr>"

text \<open>A packet the hook does not rewrite itself goes out byte for byte when the listeners keep it, does not go out when they
  cancel it, and goes out under the same header when they replace its payload; the listeners see its header's fields and
  its payload.\<close>

theorem send_keeps_header:
  assumes "length p + 5 < 2 ^ 64" "\<not> is_patched (getPacketId h)" "getPacketId h = MoveDeltaActor \<Longrightarrow> \<not> absolute_movement srv"
  shows "sendPacket decide (varint_bytes h @ p) srv = (case decide (send_event srv h p) of
    Cancel \<Rightarrow> Dropped | Keep \<Rightarrow> Sent (varint_bytes h @ p) | Replace q \<Rightarrow> Sent (varint_bytes h @ q), srv)"
proof -
  obtain s where s: "getUnsignedVarInt (ReadOnlyBinaryStream (varint_bytes h @ p) False) = (Inr h, s)"
    "unat (getReadPointer s) = length (varint_bytes h)" "getView s = varint_bytes h @ p"
    using header_read [OF assms(1)] by blast
  show ?thesis using assms(2,3)
    by (auto simp: sendPacket_def s send_event_def finish_send_def with_header_eq Let_def split: decision.split)
qed

text \<open>Of the packets the peer below has, the first that the listeners do not cancel is received, with its own payload or the one
  they replaced it by and in either case with its own header; the packets before it are gone and those after it remain.\<close>

theorem receive_first_kept:
  assumes "\<forall>(h, p) \<in> set ps. length p + 5 < 2 ^ 64"
  shows "receivePacket decide srv (map (\<lambda>(h, p). (HasData, varint_bytes h @ p)) ps @ rest) =
    (case dropWhile (\<lambda>(h, p). decide (receive_event srv h p) = Cancel) ps of
      [] \<Rightarrow> receivePacket decide srv rest
    | (h, p) # ps' \<Rightarrow> (Status HasData (varint_bytes h @ (case decide (receive_event srv h p) of Replace q \<Rightarrow> q | _ \<Rightarrow> p)),
        map (\<lambda>(h, p). (HasData, varint_bytes h @ p)) ps' @ rest))"
  using assms
proof (induction ps)
  case (Cons hp ps)
  obtain h p where hp: "hp = (h, p)" by (cases hp)
  obtain s where s: "getUnsignedVarInt (ReadOnlyBinaryStream (varint_bytes h @ p) False) = (Inr h, s)"
    "unat (getReadPointer s) = length (varint_bytes h)" "getView s = varint_bytes h @ p"
    using header_read [of p h] Cons.prems hp by auto
  have e: "\<lparr>event_player = player_of srv (getRecipientSubId h), event_packet_id = getPacketId h, event_payload = p,
      event_sub_id = getRecipientSubId h\<rparr> = receive_event srv h p" by (simp add: receive_event_def)
  show ?case
  proof (cases "decide (receive_event srv h p)")
    case Cancel
    with Cons show ?thesis by (simp add: hp s e Let_def)
  qed (simp_all add: hp s e Let_def)
qed simp

text \<open>A movement is sent as an absolute position only to another player, only when it is on the ground and neither forced nor
  completed and the same holds of the position last sent for the mover; it then carries that position, under a header with
  the same recipient and sender.\<close>

theorem absolute_movement_sent:
  assumes "length (delta_bytes m fs) + 5 < 2 ^ 64" "delta_fields fs" "getPacketId h = MoveDeltaActor" "absolute_movement srv"
    "makeAbsolutePlayerMovement (level_players srv) (delta_bytes m fs) (player_of srv (getSenderSubId h)) = Some b"
    "h' = PacketHeader (getRecipientSubId h) MoveAbsoluteActor (getSenderSubId h)" "decide (send_event srv h' b) = Keep"
  shows "sendPacket decide (varint_bytes h @ delta_bytes m fs) srv = (Sent (varint_bytes h' @ b), srv) \<and>
    getPacketId h' = MoveAbsoluteActor \<and> getRecipientSubId h' = getRecipientSubId h \<and> getSenderSubId h' = getSenderSubId h \<and>
    (\<exists>obs level nd l. player_of srv (getSenderSubId h) = Some obs \<and> viewer_runtime_id obs \<noteq> runtime_id m \<and>
      on_ground m \<and> \<not> force_move m \<and> \<not> force_move_local_entity m \<and> \<not> force_completion m \<and>
      level_players srv = Some level \<and> level (runtime_id m) = Some nd \<and> has_initialized_last_sent nd \<and> l = last_sent_move_data nd \<and>
      sent_on_ground l \<and> \<not> sent_force_move l \<and> \<not> sent_force_move_local l \<and> \<not> sent_force_completion l \<and>
      b = varint_bytes (runtime_id m) @ [1] @ le_bytes 4 (pos_x l) @ le_bytes 4 (pos_y l) @ le_bytes 4 (pos_z l) @
        [rot_x l, rot_y l, rot_y_head l])"
proof -
  obtain s where s: "getUnsignedVarInt (ReadOnlyBinaryStream (varint_bytes h @ delta_bytes m fs) False) = (Inr h, s)"
    "unat (getReadPointer s) = length (varint_bytes h)" "getView s = varint_bytes h @ delta_bytes m fs"
    using header_read [OF assms(1)] by blast
  have id: "getPacketId h' = MoveAbsoluteActor" "getRecipientSubId h' = getRecipientSubId h" "getSenderSubId h' = getSenderSubId h"
    by (simp_all add: assms(6) header_parts header_fields) (simp add: MoveAbsoluteActor_def PACKET_ID_MASK_def)
  have "\<not> is_patched MoveAbsoluteActor" by (simp add: is_patched_def MoveAbsoluteActor_def)
  then have "sendPacket decide (varint_bytes h @ delta_bytes m fs) srv = (Sent (varint_bytes h' @ b), srv)"
    using assms(3-5,7) id
    by (simp add: sendPacket_def s send_event_def finish_send_def with_header_eq Let_def flip: assms(6))
  moreover have "absolute_bytes rid l = varint_bytes rid @ [1] @ le_bytes 4 (pos_x l) @ le_bytes 4 (pos_y l) @ le_bytes 4 (pos_z l) @
    [rot_x l, rot_y l, rot_y_head l]" for rid l
    by (simp add: absolute_bytes_def stream_writes getBuffer_def write_data_eq BinaryStream_def numeral_eq_Suc)
  then have "\<exists>obs level nd l. player_of srv (getSenderSubId h) = Some obs \<and> viewer_runtime_id obs \<noteq> runtime_id m \<and>
      on_ground m \<and> \<not> force_move m \<and> \<not> force_move_local_entity m \<and> \<not> force_completion m \<and>
      level_players srv = Some level \<and> level (runtime_id m) = Some nd \<and> has_initialized_last_sent nd \<and> l = last_sent_move_data nd \<and>
      sent_on_ground l \<and> \<not> sent_force_move l \<and> \<not> sent_force_move_local l \<and> \<not> sent_force_completion l \<and>
      b = varint_bytes (runtime_id m) @ [1] @ le_bytes 4 (pos_x l) @ le_bytes 4 (pos_y l) @ le_bytes 4 (pos_z l) @
        [rot_x l, rot_y l, rot_y_head l]"
    using assms(5) delta_roundtrip [OF assms(2), of m]
    by (auto simp: makeAbsolutePlayerMovement_def Let_def split: option.splits if_splits)
  ultimately show ?thesis using id by blast
qed

subsection \<open>The patched part of a map\<close>

text \<open>Writing a value that only depends on the place, place by place.\<close>

lemma put_fold:
  assumes "\<And>y. y \<in> set ys \<Longrightarrow> 0 \<le> k y \<and> k y < int (length px)" "\<And>y px. y \<in> set ys \<Longrightarrow> f y px = put px (k y) (v y)"
    "\<And>y y'. y \<in> set ys \<Longrightarrow> y' \<in> set ys \<Longrightarrow> k y = k y' \<Longrightarrow> v y = v y'"
  shows "\<exists>px'. fold_chain f ys px = Inr px' \<and> length px' = length px \<and> (\<forall>y \<in> set ys. px' ! nat (k y) = v y) \<and>
    (\<forall>i. i \<notin> (nat \<circ> k) ` set ys \<longrightarrow> px' ! i = px ! i)"
  using assms
proof (induction ys arbitrary: px)
  case (Cons y ys)
  let ?px = "px[nat (k y) := v y]"
  have k: "0 \<le> k y" "k y < int (length px)" using Cons.prems(1) by simp_all
  then have s: "f y px = Inr ?px" using Cons.prems(2) [of y px] by (simp add: put_def)
  have A: "0 \<le> k z \<and> k z < int (length ?px)" if "z \<in> set ys" for z using Cons.prems(1) that by simp
  have B: "f z q = put q (k z) (v z)" if "z \<in> set ys" for z q by (rule Cons.prems(2)) (use that in simp)
  have C: "v z = v z'" if "z \<in> set ys" "z' \<in> set ys" "k z = k z'" for z z' by (rule Cons.prems(3)) (use that in simp_all)
  have "\<exists>px'. fold_chain f ys ?px = Inr px' \<and> length px' = length ?px \<and> (\<forall>y \<in> set ys. px' ! nat (k y) = v y) \<and>
    (\<forall>i. i \<notin> (nat \<circ> k) ` set ys \<longrightarrow> px' ! i = ?px ! i)" by (rule Cons.IH [OF A B C])
  then obtain px' where px'0: "fold_chain f ys ?px = Inr px'" "length px' = length ?px" "\<forall>y \<in> set ys. px' ! nat (k y) = v y"
    "\<forall>i. i \<notin> (nat \<circ> k) ` set ys \<longrightarrow> px' ! i = ?px ! i" by (elim exE conjE) (rule that)
  note px' = px'0(1) px'0(2) [unfolded length_list_update] px'0(3,4)
  have "px' ! nat (k y) = v y"
  proof (cases "nat (k y) \<in> (nat \<circ> k) ` set ys")
    case True
    then obtain y' where y': "y' \<in> set ys" "nat (k y) = nat (k y')" by auto
    then have "k y = k y'" using k(1) Cons.prems(1) [of y'] by (simp add: nat_eq_iff)
    then have "v y = v y'" by (intro Cons.prems(3)) (use y'(1) in simp_all)
    with y' px'(3) show ?thesis by simp
  next
    case False
    then show ?thesis using px'(4) k by (simp add: zless_nat_conj nat_less_iff)
  qed
  moreover have "px' ! i = px ! i" if "i \<notin> (nat \<circ> k) ` set (y # ys)" for i using px'(4) that by auto
  ultimately show ?case using s px'(1-3) by (intro exI [of _ px']) auto
next
  case Nil
  show ?case by (intro exI [of _ px]) simp
qed

text \<open>The two loops are one over the pairs.\<close>

lemma fold_chain_concat: "fold_chain (\<lambda>x. fold_chain (f x) ys) xs s = fold_chain (\<lambda>(x, y). f x y) (List.product xs ys) s"
proof (induction xs arbitrary: s)
  case (Cons x xs)
  have "fold_chain (f x) ys s = fold_chain (\<lambda>(x, y). f x y) (map (Pair x) ys) s" for s
    by (induction ys arbitrary: s) (auto simp: chain_def split: sum.split)
  moreover have "fold_chain (\<lambda>x. fold_chain (f x) ys) xs = fold_chain (\<lambda>(x, y). f x y) (List.product xs ys)" using Cons by (rule ext)
  ultimately show ?case by (simp add: fold_chain_app)
qed simp

lemma grid_inject:
  fixes x y x' y' w :: int
  assumes "x + y * w = x' + y' * w" "0 \<le> x" "x < w" "0 \<le> x'" "x' < w"
  shows "x = x' \<and> y = y'"
proof -
  have "(x + y * w) mod w = x" "(x' + y' * w) mod w = x'" using assms(2-5) by (simp_all add: mod_pos_pos_trivial)
  then have "x = x'" using assms(1) by simp
  moreover have "y * w = y' * w" using assms(1) calculation by simp
  ultimately show ?thesis using assms(2,3) by simp
qed

lemma patch_pixels_ok:
  assumes "length buf = nat (MAP_SIZE * MAP_SIZE)" "\<not> out_of_map pk" "length (pk_pixels pk) = nat (pk_width pk * pk_height pk)"
  shows "\<exists>px. patch_pixels buf pk = Inr (pk\<lparr>pk_pixels := px\<rparr>) \<and> length px = length (pk_pixels pk) \<and>
    (\<forall>x y. 0 \<le> x \<and> x < pk_width pk \<and> 0 \<le> y \<and> y < pk_height pk \<longrightarrow>
      px ! nat (x + y * pk_width pk) = buf ! nat ((pk_start_x pk + x) + (pk_start_y pk + y) * MAP_SIZE))"
proof -
  let ?w = "pk_width pk" and ?h = "pk_height pk"
  let ?xs = "[0..?w - 1]" and ?ys = "[0..?h - 1]"
  let ?src = "\<lambda>x y. (pk_start_x pk + x) + (pk_start_y pk + y) * MAP_SIZE"
  let ?f = "\<lambda>x y px. chain (at buf (?src x y)) (\<lambda>n. put px (x + y * ?w) n)"
  have src: "0 \<le> ?src x y \<and> ?src x y < MAP_SIZE * MAP_SIZE" if "x \<in> set ?xs" "y \<in> set ?ys" for x y
  proof -
    have b: "0 \<le> pk_start_x pk + x" "pk_start_x pk + x \<le> 127" "0 \<le> pk_start_y pk + y" "pk_start_y pk + y \<le> 127"
      using that assms(2) by (auto simp: out_of_map_def MAP_SIZE_def)
    then show ?thesis by (simp add: MAP_SIZE_def)
  qed
  have step: "?f x y px = put px (x + y * ?w) (buf ! nat (?src x y))" if "x \<in> set ?xs" "y \<in> set ?ys" for x y px
    using src [OF that] assms(1) by (simp add: at_def)
  have dst: "0 \<le> x + y * ?w \<and> x + y * ?w < int (length (pk_pixels pk))" if "x \<in> set ?xs" "y \<in> set ?ys" for x y
  proof -
    have b: "0 \<le> x" "x < ?w" "0 \<le> y" "y + 1 \<le> ?h" using that by auto
    have "x + y * ?w < (y + 1) * ?w" using b by (simp add: algebra_simps)
    also have "\<dots> \<le> ?h * ?w" using b by (intro mult_right_mono) auto
    finally have "x + y * ?w < ?w * ?h" by (simp add: mult.commute)
    moreover have "0 \<le> y * ?w" using b by (intro mult_nonneg_nonneg) auto
    ultimately show ?thesis using b assms(3) by simp
  qed
  let ?k = "\<lambda>(x, y). x + y * ?w" and ?v = "\<lambda>(x, y). buf ! nat (?src x y)"
  have pair: "fst p \<in> set ?xs \<and> snd p \<in> set ?ys" if "p \<in> set (List.product ?xs ?ys)" for p
    using that by (auto simp: set_product simp del: set_upto)
  have d: "0 \<le> ?k p \<and> ?k p < int (length (pk_pixels pk))" if "p \<in> set (List.product ?xs ?ys)" for p
    using dst pair [OF that] by (cases p) simp
  have st: "(\<lambda>(x, y). ?f x y) p px = put px (?k p) (?v p)" if "p \<in> set (List.product ?xs ?ys)" for p px
    using step pair [OF that] by (cases p) simp
  have inj: "?v p = ?v q" if p: "p \<in> set (List.product ?xs ?ys)" and q: "q \<in> set (List.product ?xs ?ys)" and k: "?k p = ?k q" for p q
  proof -
    have "0 \<le> fst p" "fst p < ?w" "0 \<le> fst q" "fst q < ?w" using pair [OF p] pair [OF q] by auto
    then have "fst p = fst q \<and> snd p = snd q" using k by (intro grid_inject [where w = ?w]) (auto simp: case_prod_beta)
    then show ?thesis by (simp add: case_prod_beta)
  qed
  obtain px where px: "fold_chain (\<lambda>(x, y). ?f x y) (List.product ?xs ?ys) (pk_pixels pk) = Inr px" "length px = length (pk_pixels pk)"
    "\<forall>p \<in> set (List.product ?xs ?ys). px ! nat (?k p) = ?v p"
    using put_fold [where f = "\<lambda>(x, y). ?f x y" and k = ?k and v = ?v and px = "pk_pixels pk", OF d st inj] by blast
  have "patch_pixels buf pk = Inr (pk\<lparr>pk_pixels := px\<rparr>)" using px(1) by (simp add: patch_pixels_def fold_chain_concat)
  then show ?thesis using px(2,3) by (intro exI [of _ px]) (auto simp: set_product)
qed

lemma patch_map_ok:
  assumes "maps srv (pk_map_id pk) = Some v" "view_ok v" "paint_ok (map_code srv)" "viewer_id player \<noteq> INVALID_ID"
    "pk_pixels pk \<noteq> []" "\<not> out_of_map pk" "length (pk_pixels pk) = nat (pk_width pk * pk_height pk)"
  shows "\<exists>rd v' px. render (map_code srv) (viewer_id player) v = Inr (rd, v') \<and> view_ok v' \<and>
    patch_map player pk srv = Inr (pk\<lparr>pk_pixels := px, pk_unique_ids := map (\<lambda>_. INVALID_ID) (filter visible (shown_cursors rd)),
      pk_decorations := filter visible (shown_cursors rd)\<rparr>, srv\<lparr>maps := (maps srv)(pk_map_id pk \<mapsto> v')\<rparr>) \<and>
    length px = length (pk_pixels pk) \<and>
    (\<forall>x y. 0 \<le> x \<and> x < pk_width pk \<and> 0 \<le> y \<and> y < pk_height pk \<longrightarrow>
      px ! nat (x + y * pk_width pk) = rendered rd ! nat ((pk_start_x pk + x) + (pk_start_y pk + y) * MAP_SIZE))"
proof -
  obtain rd v' where r: "render (map_code srv) (viewer_id player) v = Inr (rd, v')" "view_ok v'"
    "length (rendered rd) = nat (MAP_SIZE * MAP_SIZE)"
    using render_result [OF assms(3,2,4)] by blast
  obtain px where px: "patch_pixels (rendered rd) pk = Inr (pk\<lparr>pk_pixels := px\<rparr>)" "length px = length (pk_pixels pk)"
    "\<forall>x y. 0 \<le> x \<and> x < pk_width pk \<and> 0 \<le> y \<and> y < pk_height pk \<longrightarrow>
      px ! nat (x + y * pk_width pk) = rendered rd ! nat ((pk_start_x pk + x) + (pk_start_y pk + y) * MAP_SIZE)"
    using patch_pixels_ok [OF r(3) assms(6,7)] by blast
  have "patch_map player pk srv = Inr (pk\<lparr>pk_pixels := px, pk_unique_ids := map (\<lambda>_. INVALID_ID) (filter visible (shown_cursors rd)),
      pk_decorations := filter visible (shown_cursors rd)\<rparr>, srv\<lparr>maps := (maps srv)(pk_map_id pk \<mapsto> v')\<rparr>)"
    using assms(1,5,6) r(1) px(1) by (simp add: patch_map_def patch_decorations_def Let_def)
  with r px(2,3) show ?thesis by blast
qed

text \<open>A map update that lies on the map is patched without an access outside its pixels or the rendering: each of its pixels
  is the rendered one at its place, its decorations are the visible cursors, with one identifier each, and nothing else
  of the packet changes; the view stays well formed.\<close>

theorem map_packet_patched:
  assumes "maps srv (pk_map_id pk) = Some v" "view_ok v" "paint_ok (map_code srv)" "viewer_id player \<noteq> INVALID_ID"
    "pk_pixels pk \<noteq> []" "\<not> out_of_map pk" "length (pk_pixels pk) = nat (pk_width pk * pk_height pk)"
  shows "\<exists>rd v' px. render (map_code srv) (viewer_id player) v = Inr (rd, v') \<and> view_ok v' \<and>
    patch_map player pk srv = Inr (pk\<lparr>pk_pixels := px, pk_unique_ids := map (\<lambda>_. INVALID_ID) (filter visible (shown_cursors rd)),
      pk_decorations := filter visible (shown_cursors rd)\<rparr>, srv\<lparr>maps := (maps srv)(pk_map_id pk \<mapsto> v')\<rparr>) \<and>
    length px = length (pk_pixels pk) \<and>
    (\<forall>x y. 0 \<le> x \<and> x < pk_width pk \<and> 0 \<le> y \<and> y < pk_height pk \<longrightarrow>
      px ! nat (x + y * pk_width pk) = rendered rd ! nat ((pk_start_x pk + x) + (pk_start_y pk + y) * MAP_SIZE))"
  by (rule patch_map_ok [OF assms])

subsection \<open>A peer at work\<close>

definition demo_sent :: last_sent where
  "demo_sent = \<lparr>sent_runtime_id = 9, sent_on_ground = True, sent_force_move = False, sent_force_move_local = False,
    sent_force_completion = False, pos_x = 1, pos_y = 2, pos_z = 3, rot_x = 4, rot_y = 5, rot_y_head = 6\<rparr>"

definition demo_server :: "unit server" where
  "demo_server = \<lparr>absolute_movement = True, level_players = Some (\<lambda>r. if r = 9 then Some \<lparr>has_initialized_last_sent = True,
      last_sent_move_data = demo_sent\<rparr> else None), client_generation = None, content_key = (\<lambda>_. None), allow_client_packs = False,
    maps = [5 \<mapsto> EndstoneMapView demo_map_data], map_code = demo_code, parse_packet = (\<lambda>_ _. None), print_packet = (\<lambda>_. []),
    player_of = (\<lambda>_. Some \<lparr>viewer_runtime_id = 2, viewer_id = 7\<rparr>)\<rparr>"

definition demo_move :: delta_header where
  "demo_move = \<lparr>runtime_id = 9, on_ground = True, force_move = False, force_move_local_entity = False, force_completion = False\<rparr>"

theorem send_keeps_header_witness:
  "sendPacket (\<lambda>e. if event_payload e = [1, 2] then Replace [3] else Keep) (varint_bytes (9 :: 32 word) @ [1, 2]) demo_server =
    (Sent (varint_bytes (9 :: 32 word) @ [3]), demo_server)"
proof -
  have "\<not> is_patched (getPacketId 9)" "getPacketId 9 = MoveDeltaActor \<Longrightarrow> \<not> absolute_movement demo_server"
    by (simp_all add: is_patched_def getPacketId_def PACKET_ID_MASK_def MoveDeltaActor_def)
  from send_keeps_header [OF _ this, of "[1, 2]" "\<lambda>e. if event_payload e = [1, 2] then Replace [3] else Keep"]
  show ?thesis by (simp add: send_event_def)
qed

theorem receive_first_kept_witness:
  "receivePacket (\<lambda>e. if event_packet_id e = 1 then Cancel else Keep) demo_server
      ([(HasData, varint_bytes (1 :: 32 word) @ [7]), (HasData, varint_bytes (2 :: 32 word) @ [8])] @ [(NoData, [])]) =
    (Status HasData (varint_bytes (2 :: 32 word) @ [8]), [(NoData, [])])"
proof -
  have i: "getPacketId 1 = 1" "getPacketId 2 = 2" by (simp_all add: getPacketId_def PACKET_ID_MASK_def)
  show ?thesis
    using receive_first_kept [of "[(1, [7]), (2, [8])]" "\<lambda>e. if event_packet_id e = 1 then Cancel else Keep" demo_server "[(NoData, [])]"]
    by (simp add: receive_event_def i del: receivePacket.simps)
qed

theorem absolute_movement_sent_witness:
  "\<exists>b h'. sendPacket (\<lambda>_. Keep) (varint_bytes MoveDeltaActor @ delta_bytes demo_move [None, None, None, None, None, None]) demo_server =
    (Sent (varint_bytes h' @ b), demo_server) \<and> getPacketId h' = MoveAbsoluteActor"
proof -
  let ?fs = "[None, None, None, None, None, None] :: bytes option list" and ?h = MoveDeltaActor
  have "length (varint_bytes (9 :: 64 word)) = 1" by (simp add: varint_bytes.simps [of 9] Let_def)
  then have l: "length (delta_bytes demo_move ?fs) + 5 < 2 ^ 64" by (simp add: delta_bytes_def demo_move_def)
  have f: "delta_fields ?fs" by (simp add: delta_fields_def)
  have i: "getPacketId ?h = MoveDeltaActor" by (simp add: getPacketId_def PACKET_ID_MASK_def MoveDeltaActor_def)
  have a: "absolute_movement demo_server" by (simp add: demo_server_def)
  have "\<exists>b. makeAbsolutePlayerMovement (level_players demo_server) (delta_bytes demo_move ?fs) (player_of demo_server (getSenderSubId ?h)) = Some b"
    using delta_roundtrip [OF f, of demo_move] by (simp add: makeAbsolutePlayerMovement_def demo_server_def demo_move_def demo_sent_def Let_def)
  then obtain b where b: "makeAbsolutePlayerMovement (level_players demo_server) (delta_bytes demo_move ?fs)
    (player_of demo_server (getSenderSubId ?h)) = Some b" ..
  show ?thesis using absolute_movement_sent [OF l f i a b refl, of "\<lambda>_. Keep"] by blast
qed

theorem map_packet_patched_witness:
  "\<exists>rd v' pk'. render demo_code 7 (EndstoneMapView demo_map_data) = Inr (rd, v') \<and>
    patch_map \<lparr>viewer_runtime_id = 2, viewer_id = 7\<rparr> \<lparr>pk_map_id = 5, pk_unique_ids = [], pk_decorations = [], pk_width = 2, pk_height = 1,
      pk_start_x = 3, pk_start_y = 4, pk_pixels = [0, 0]\<rparr> demo_server = Inr (pk', demo_server\<lparr>maps := (maps demo_server)(5 \<mapsto> v')\<rparr>) \<and>
    pk_pixels pk' ! 1 = rendered rd ! 516"
proof -
  let ?pk = "\<lparr>pk_map_id = 5, pk_unique_ids = [], pk_decorations = [], pk_width = 2, pk_height = 1,
      pk_start_x = 3, pk_start_y = 4, pk_pixels = [0, 0]\<rparr>" and ?pl = "\<lparr>viewer_runtime_id = 2, viewer_id = 7\<rparr>"
  have "maps demo_server (pk_map_id ?pk) = Some (EndstoneMapView demo_map_data)" "paint_ok (map_code demo_server)"
    "viewer_id ?pl \<noteq> INVALID_ID" "pk_pixels ?pk \<noteq> []" "\<not> out_of_map ?pk" "length (pk_pixels ?pk) = nat (pk_width ?pk * pk_height ?pk)"
    by (simp_all add: demo_server_def demo_code_ok INVALID_ID_def out_of_map_def MAP_SIZE_def)
  from map_packet_patched [OF this(1) EndstoneMapView_ok [OF demo_map_pixels] this(2-)] obtain rd v' px where
    r: "render (map_code demo_server) (viewer_id ?pl) (EndstoneMapView demo_map_data) = Inr (rd, v')"
      "patch_map ?pl ?pk demo_server = Inr (?pk\<lparr>pk_pixels := px, pk_unique_ids := map (\<lambda>_. INVALID_ID) (filter visible (shown_cursors rd)),
        pk_decorations := filter visible (shown_cursors rd)\<rparr>, demo_server\<lparr>maps := (maps demo_server)(pk_map_id ?pk \<mapsto> v')\<rparr>)"
      "\<forall>x y. 0 \<le> x \<and> x < pk_width ?pk \<and> 0 \<le> y \<and> y < pk_height ?pk \<longrightarrow>
        px ! nat (x + y * pk_width ?pk) = rendered rd ! nat ((pk_start_x ?pk + x) + (pk_start_y ?pk + y) * MAP_SIZE)" by blast
  from r(3) [rule_format, of 1 0] have "px ! 1 = rendered rd ! 516" by (simp add: MAP_SIZE_def)
  then show ?thesis using r(1,2) by (simp add: demo_server_def)
qed

end
