(* ===== verification/Server_Ping.thy ===== *)
theory Server_Ping
  imports Prelude
begin

text \<open>
  The answer to a server list ping (\<open>src/endstone/runtime/bedrock_hooks/rak_peer_helper.cpp\<close>): the default answer of the
  network library is split into its fields, the fields become an event, and what the listeners leave of the event is
  joined into the answer. Characters of the buffer are signed bytes, as on the hosts of the program. The lemmas show that
  the answer reads back as the event, and when the event is not called at all.
\<close>

subsection \<open>Fields\<close>

fun pieces :: "char \<Rightarrow> string \<Rightarrow> string list" where
  "pieces c [] = [[]]"
| "pieces c (x # xs) = (if x = c then [] # pieces c xs else (case pieces c xs of [] \<Rightarrow> [[x]] | p # ps \<Rightarrow> (x # p) # ps))"

definition splitAdvertisement :: "string \<Rightarrow> string list" where
  "splitAdvertisement s = (if s = [] then [] else pieces (CHR '';'') s)"

datatype game_mode = Survival | Creative | Adventure | Spectator

definition mode_name :: "game_mode \<Rightarrow> string" where
  "mode_name m = (case m of Survival \<Rightarrow> ''Survival'' | Creative \<Rightarrow> ''Creative'' | Adventure \<Rightarrow> ''Adventure'' | Spectator \<Rightarrow> ''Spectator'')"

definition mode_cast :: "string \<Rightarrow> game_mode option" where
  "mode_cast s = find (\<lambda>m. mode_name m = s) [Survival, Creative, Adventure, Spectator]"

record ping_event =
  motd :: string
  protocol_version :: int
  minecraft_version :: string
  num_players :: int
  max_players :: int
  server_guid :: string
  level_name :: string
  game_mode :: game_mode
  local_port :: int
  local_port_v6 :: int

definition to_string :: "int \<Rightarrow> string" where
  "to_string i = (if i < 0 then CHR ''-'' # decimal (nat (- i)) else decimal (nat i))"

definition is_digit :: "char \<Rightarrow> bool" where
  "is_digit c \<longleftrightarrow> (let n = of_char c :: nat in 48 \<le> n \<and> n \<le> 57)"

definition is_space :: "char \<Rightarrow> bool" where
  "is_space c \<longleftrightarrow> (let n = of_char c :: nat in n = 32 \<or> 9 \<le> n \<and> n \<le> 13)"

text \<open>\<open>std::stoi\<close>, which throws when there is no number or it does not fit.\<close>

definition stoi :: "string \<Rightarrow> int option" where
  "stoi s = (let t = dropWhile is_space s; neg = (t \<noteq> [] \<and> hd t = CHR ''-'');
     ds = takeWhile is_digit (if t \<noteq> [] \<and> (hd t = CHR ''-'' \<or> hd t = CHR ''+'') then tl t else t);
     v = (if neg then - int (undecimal ds) else int (undecimal ds)) in
     if ds = [] \<or> v < - (2 ^ 31) \<or> v \<ge> 2 ^ 31 then None else Some v)"

definition field :: "string list \<Rightarrow> nat \<Rightarrow> string" where
  "field parts i = (if length parts > i then parts ! i else [])"

definition int_field :: "string list \<Rightarrow> nat \<Rightarrow> int option" where
  "int_field parts i = (if length parts > i then stoi (parts ! i) else Some 0)"

definition mode_field :: "string list \<Rightarrow> nat \<Rightarrow> game_mode" where
  "mode_field parts i = (if length parts > i then (case mode_cast (parts ! i) of None \<Rightarrow> Survival | Some m \<Rightarrow> m) else Survival)"

text \<open>The event as it is made; \<open>None\<close> is an exception of \<open>stoi\<close>.\<close>

definition event_of :: "string list \<Rightarrow> ping_event option" where
  "event_of parts = Option.bind (int_field parts 2) (\<lambda>pv. Option.bind (int_field parts 4) (\<lambda>np. Option.bind (int_field parts 5) (\<lambda>mp.
     Option.bind (int_field parts 10) (\<lambda>lp. Option.bind (int_field parts 11) (\<lambda>lp6.
     Some \<lparr>motd = field parts 1, protocol_version = pv, minecraft_version = field parts 3, num_players = np, max_players = mp,
       server_guid = field parts 6, level_name = field parts 7, game_mode = mode_field parts 8, local_port = lp, local_port_v6 = lp6\<rparr>)))))"

definition resized :: "nat \<Rightarrow> string list \<Rightarrow> string list" where
  "resized n parts = take n parts @ replicate (n - length parts) []"

definition answer_fields :: "string list \<Rightarrow> ping_event \<Rightarrow> string list" where
  "answer_fields parts e = (resized (max (length parts) 14) parts)
     [0 := ''MCPE'', 1 := motd e, 2 := to_string (protocol_version e), 3 := minecraft_version e, 4 := to_string (num_players e),
      5 := to_string (max_players e), 6 := server_guid e, 7 := level_name e, 8 := mode_name (game_mode e),
      10 := to_string (local_port e), 11 := to_string (local_port_v6 e)]"

definition joined :: "string list \<Rightarrow> string" where
  "joined parts = hd parts @ concat (map (\<lambda>p. CHR '';'' # p) (tl parts))"

definition buildAdvertisement :: "string list \<Rightarrow> ping_event \<Rightarrow> string" where
  "buildAdvertisement parts e = joined (answer_fields parts e)"

subsection \<open>The ping\<close>

text \<open>\<open>Pass\<close> leaves the datagram to the network library; a reply is the time of the ping, the size of the answer and the answer.\<close>

datatype ping_result = Pass | Handled | Throws | Reply bytes "16 word" string

definition MIN_PING :: nat where "MIN_PING = 1 + 8 + 16"

text \<open>The size in front of the default answer, as the code computes it from two signed characters.\<close>

definition ping_data_size :: "bytes \<Rightarrow> 32 word" where
  "ping_data_size d = push_bit 8 (scast (d ! 0)) OR scast (d ! 1)"

definition chars_of :: "bytes \<Rightarrow> string" where
  "chars_of = map (\<lambda>b. char_of (unat b))"

definition handleUnconnectedPing :: "(ping_event \<Rightarrow> ping_event \<times> bool) \<Rightarrow> bytes \<Rightarrow> bytes \<Rightarrow> ping_result" where
  "handleUnconnectedPing listen ping_data recv =
     (if length recv < MIN_PING then Pass
      else if length ping_data < 2 \<or> ping_data_size ping_data \<noteq> of_nat (length ping_data) - 2 then Pass
      else let parts = splitAdvertisement (chars_of (drop 2 ping_data)) in
        case event_of parts of None \<Rightarrow> Throws
        | Some e \<Rightarrow> (case listen e of
            (_, True) \<Rightarrow> Handled
          | (e', False) \<Rightarrow> let response = buildAdvertisement parts e' in
              Reply (take 8 (drop 1 recv)) (of_nat (length response)) response))"

definition ID_UNCONNECTED_PING :: byte where "ID_UNCONNECTED_PING = 1"

definition handleIncomingDatagram :: "(ping_event \<Rightarrow> ping_event \<times> bool) \<Rightarrow> bytes \<Rightarrow> bytes \<Rightarrow> ping_result" where
  "handleIncomingDatagram listen ping_data recv =
     (if recv ! 0 = ID_UNCONNECTED_PING then handleUnconnectedPing listen ping_data recv else Pass)"

subsection \<open>Reading an answer back\<close>

lemma pieces_join:
  assumes "\<forall>p \<in> set (p # ps). c \<notin> set p"
  shows "pieces c (p @ concat (map (\<lambda>q. c # q) ps)) = p # ps"
  using assms
proof (induction ps arbitrary: p)
  case Nil
  then show ?case by (induction p) auto
next
  case (Cons q qs)
  have "pieces c (q @ concat (map (\<lambda>q. c # q) qs)) = q # qs" using Cons by simp
  moreover have "c \<notin> set p" using Cons.prems by simp
  ultimately show ?case by (induction p) auto
qed

lemma split_joined:
  assumes "2 \<le> length parts" "\<forall>p \<in> set parts. CHR '';'' \<notin> set p"
  shows "splitAdvertisement (joined parts) = parts"
proof -
  obtain p q ps where parts: "parts = p # q # ps" using assms(1) by (cases parts; cases "tl parts") auto
  then have "joined parts \<noteq> []" by (simp add: joined_def)
  then show ?thesis using pieces_join [of p "q # ps"] assms(2) by (simp add: splitAdvertisement_def joined_def parts)
qed

lemma pieces_clean: "p \<in> set (pieces c s) \<Longrightarrow> c \<notin> set p"
  by (induction s arbitrary: p) (auto split: if_splits list.splits)

lemma split_clean: "p \<in> set (splitAdvertisement s) \<Longrightarrow> CHR '';'' \<notin> set p"
  using pieces_clean by (auto simp: splitAdvertisement_def split: if_splits)

lemma decimal_all: "list_all is_digit (decimal n) \<and> decimal n \<noteq> []"
  using decimal_digits [of _ n] by (auto simp: list_all_iff is_digit_def Let_def) (subst (asm) decimal.simps, simp split: if_splits)

lemma digit_cases: "is_digit c \<Longrightarrow> \<not> is_space c \<and> c \<noteq> CHR ''-'' \<and> c \<noteq> CHR ''+'' \<and> c \<noteq> CHR '';''"
  by (auto simp: is_digit_def is_space_def Let_def)

lemma stoi_digits:
  assumes "list_all is_digit ds" "ds \<noteq> []" "int (undecimal ds) < 2 ^ 31"
  shows "stoi ds = Some (int (undecimal ds))" "stoi (CHR ''-'' # ds) = Some (- int (undecimal ds))"
proof -
  obtain d ds' where d: "ds = d # ds'" "is_digit d" using assms(1,2) by (cases ds) auto
  have t: "takeWhile is_digit ds = ds" using assms(1) by (simp add: list_all_iff)
  have sp: "dropWhile is_space ds = ds" "dropWhile is_space (CHR ''-'' # ds) = CHR ''-'' # ds"
    using digit_cases [OF d(2)] by (simp_all add: d is_space_def)
  have h: "hd ds = d" by (simp add: d(1))
  show "stoi ds = Some (int (undecimal ds))" using digit_cases [OF d(2)] assms(2,3) h by (simp add: stoi_def Let_def sp t del: takeWhile_eq_all_conv)
  have "\<not> is_space (CHR ''-'')" by (simp add: is_space_def)
  then show "stoi (CHR ''-'' # ds) = Some (- int (undecimal ds))" using assms(2,3) by (simp add: stoi_def Let_def sp t del: takeWhile_eq_all_conv)
qed

definition is_int :: "int \<Rightarrow> bool" where
  "is_int i \<longleftrightarrow> - (2 ^ 31) < i \<and> i < 2 ^ 31"

lemma stoi_to_string: "is_int i \<Longrightarrow> stoi (to_string i) = Some i"
  using decimal_all stoi_digits [of "decimal (nat i)"] stoi_digits [of "decimal (nat (- i))"]
  by (auto simp: to_string_def is_int_def)

lemma to_string_clean: "CHR '';'' \<notin> set (to_string i)"
  using decimal_all [of "nat i"] decimal_all [of "nat (- i)"] digit_cases by (auto simp: to_string_def list_all_iff)

lemma mode_cast_name [simp]: "mode_cast (mode_name m) = Some m"
  by (cases m) (simp_all add: mode_cast_def mode_name_def)

lemma mode_clean: "CHR '';'' \<notin> set (mode_name m)"
  by (cases m) (simp_all add: mode_name_def)

text \<open>What the listeners may leave in the event: text without semicolons and integers.\<close>

definition sendable :: "ping_event \<Rightarrow> bool" where
  "sendable e \<longleftrightarrow> (\<forall>s \<in> {motd e, minecraft_version e, server_guid e, level_name e}. CHR '';'' \<notin> set s) \<and>
     (\<forall>i \<in> {protocol_version e, num_players e, max_players e, local_port e, local_port_v6 e}. is_int i)"

lemma answer_length: "length (answer_fields parts e) = max (length parts) 14"
  by (simp add: answer_fields_def resized_def)

lemma answer_nth:
  "answer_fields parts e ! 1 = motd e" "answer_fields parts e ! 2 = to_string (protocol_version e)" "answer_fields parts e ! 3 = minecraft_version e"
  "answer_fields parts e ! 4 = to_string (num_players e)" "answer_fields parts e ! 5 = to_string (max_players e)"
  "answer_fields parts e ! 6 = server_guid e" "answer_fields parts e ! 7 = level_name e" "answer_fields parts e ! 8 = mode_name (game_mode e)"
  "answer_fields parts e ! 10 = to_string (local_port e)" "answer_fields parts e ! 11 = to_string (local_port_v6 e)"
  by (simp_all add: answer_fields_def resized_def nth_list_update)

lemmas answer_nth_Suc = answer_nth [unfolded One_nat_def]

lemma answer_event: "sendable e \<Longrightarrow> event_of (answer_fields parts e) = Some e"
  by (cases e) (simp add: event_of_def field_def int_field_def mode_field_def answer_length answer_nth_Suc less_max_iff_disj stoi_to_string sendable_def)

lemma set_update: "x \<in> set (xs[i := y]) \<Longrightarrow> x = y \<or> x \<in> set xs"
  using set_update_subset_insert [of xs i y] by blast

lemma answer_clean:
  assumes "sendable e" "\<forall>p \<in> set parts. CHR '';'' \<notin> set p" "p \<in> set (answer_fields parts e)"
  shows "CHR '';'' \<notin> set p"
proof -
  have "p \<in> {''MCPE'', motd e, minecraft_version e, server_guid e, level_name e, mode_name (game_mode e), to_string (protocol_version e),
      to_string (num_players e), to_string (max_players e), to_string (local_port e), to_string (local_port_v6 e), []} \<union> set parts"
    using assms(3) unfolding answer_fields_def resized_def by (auto dest!: set_update in_set_takeD)
  then show ?thesis using assms(1,2) mode_clean to_string_clean by (auto simp: sendable_def)
qed

lemma answer_split:
  assumes "sendable e" "\<forall>p \<in> set parts. CHR '';'' \<notin> set p"
  shows "splitAdvertisement (buildAdvertisement parts e) = answer_fields parts e"
  unfolding buildAdvertisement_def by (rule split_joined) (use answer_clean [OF assms] in \<open>auto simp: answer_length\<close>)

text \<open>The fields the event has no name for, 9 and those from 12 on; the fields up to 13 are there in every answer.\<close>

definition unnamed_kept :: "string list \<Rightarrow> string list \<Rightarrow> bool" where
  "unnamed_kept parts parts' \<longleftrightarrow> length parts' = max (length parts) 14 \<and> parts' ! 0 = ''MCPE'' \<and>
     (\<forall>k < length parts'. k = 9 \<or> 12 \<le> k \<longrightarrow> parts' ! k = field parts k)"

lemma answer_unnamed: "unnamed_kept parts (answer_fields parts e)"
proof -
  have r: "resized (max (length parts) 14) parts ! k = field parts k" if "k < max (length parts) 14" for k
    using that by (auto simp: resized_def field_def nth_append)
  show ?thesis unfolding unnamed_kept_def answer_length
    by (auto simp: answer_fields_def nth_list_update r) (auto simp: resized_def)
qed

text \<open>The size is right when neither of its characters is negative; when the low one is, it is no size at all.\<close>

lemma be_bytes_16: "be_bytes 2 (w :: 16 word) = [ucast (drop_bit 8 w), ucast w]"
  by (simp add: be_bytes_def numeral_eq_Suc)

lemma ping_size_bits:
  "bit (ping_data_size (be_bytes 2 (w :: 16 word) @ d)) k \<longleftrightarrow> k < 32 \<and> (8 \<le> k \<and> bit w (8 + min 7 (k - 8)) \<or> bit w (min 7 k))"
  unfolding be_bytes_16 ping_data_size_def by (auto simp: bit_simps min_def)

lemma ping_size_ok:
  assumes "\<not> bit w 7" "\<not> bit w 15"
  shows "ping_data_size (be_bytes 2 (w :: 16 word) @ d) = ucast w"
proof (rule bit_word_eqI)
  fix n
  have "n < 16 \<and> n \<noteq> 7 \<and> n \<noteq> 15" if "bit w n" using bit_imp_le_length [OF that] assms that by auto
  then show "bit (ping_data_size (be_bytes 2 w @ d)) n \<longleftrightarrow> bit (ucast w :: 32 word) n" if "n < LENGTH(32)"
    using assms that by (auto simp: ping_size_bits bit_simps min_def)
qed

lemma ping_size_wrong:
  assumes "bit (w :: 16 word) 7"
  shows "ping_data_size (be_bytes 2 w @ d) \<noteq> ucast w"
proof
  assume "ping_data_size (be_bytes 2 w @ d) = ucast w"
  moreover have "bit (ping_data_size (be_bytes 2 w @ d)) 31" using assms by (simp add: ping_size_bits)
  ultimately have "bit (ucast w :: 32 word) 31" by simp
  then show False by (auto simp: bit_simps dest: bit_imp_le_length)
qed

lemma size_bits:
  assumes "n < 2 ^ 16"
  shows "bit (of_nat n :: 16 word) 7 \<longleftrightarrow> 128 \<le> n mod 256" "bit (of_nat n :: 16 word) 15 \<longleftrightarrow> 2 ^ 15 \<le> n" "ucast (of_nat n :: 16 word) = (of_nat n :: 32 word)"
proof -
  have "bit (of_nat n :: 16 word) 7 \<longleftrightarrow> bit n 7" by (simp add: bit_simps)
  then have "bit (of_nat n :: 16 word) 7 \<longleftrightarrow> odd (n div 128)" by (simp add: bit_iff_odd [of n])
  moreover have "n mod 256 = 128 * (n div 128 mod 2) + n mod 128" using mod_mult2_eq [of n 128 2] by simp
  moreover have "n mod 128 < 128" by simp
  ultimately show "bit (of_nat n :: 16 word) 7 \<longleftrightarrow> 128 \<le> n mod 256" by (cases "even (n div 128)") (auto simp: even_iff_mod_2_eq_zero)
  have "bit (of_nat n :: 16 word) 15 \<longleftrightarrow> bit n 15" by (simp add: bit_simps)
  then have "bit (of_nat n :: 16 word) 15 \<longleftrightarrow> odd (n div 2 ^ 15)" by (simp add: bit_iff_odd [of n])
  moreover have "odd (n div 2 ^ 15) \<longleftrightarrow> 2 ^ 15 \<le> n"
  proof (cases "2 ^ 15 \<le> n")
    case True
    then have "n div 2 ^ 15 = 1" using assms by (intro div_nat_eqI) simp_all
    with True show ?thesis by simp
  qed simp
  ultimately show "bit (of_nat n :: 16 word) 15 \<longleftrightarrow> 2 ^ 15 \<le> n" by simp
  show "ucast (of_nat n :: 16 word) = (of_nat n :: 32 word)"
    using assms by (simp add: unsigned_of_nat take_bit_eq_mod)
qed

text \<open>The default answer as the network library hands it out.\<close>

definition offline_response :: "string \<Rightarrow> bytes" where
  "offline_response s = be_bytes 2 (of_nat (length s) :: 16 word) @ map (\<lambda>c. of_nat (of_char c)) s"

lemma offline_chars: "chars_of (drop 2 (offline_response s)) = s"
proof -
  have "char_of (unat (of_nat (of_char c) :: byte)) = c" for c :: char
  proof -
    have "(of_char c :: nat) < 256" by (metis nat_of_char_less_256)
    then have "unat (of_nat (of_char c) :: byte) = of_char c" by (simp add: unat_of_nat)
    then show ?thesis by simp
  qed
  then show ?thesis by (simp add: offline_response_def be_bytes_16 chars_of_def o_def)
qed

lemma offline_size:
  assumes "length s < 2 ^ 16"
  shows "length s < 2 ^ 15 \<Longrightarrow> length s mod 256 < 128 \<Longrightarrow> ping_data_size (offline_response s) = of_nat (length (offline_response s)) - 2"
    and "128 \<le> length s mod 256 \<Longrightarrow> ping_data_size (offline_response s) \<noteq> of_nat (length (offline_response s)) - 2"
proof -
  have l: "of_nat (length (offline_response s)) - 2 = (of_nat (length s) :: 32 word)" by (simp add: offline_response_def be_bytes_16)
  show "length s < 2 ^ 15 \<Longrightarrow> length s mod 256 < 128 \<Longrightarrow> ping_data_size (offline_response s) = of_nat (length (offline_response s)) - 2"
    unfolding l unfolding offline_response_def size_bits(3) [OF assms, symmetric] by (rule ping_size_ok) (simp_all add: size_bits(1,2) [OF assms])
  show "128 \<le> length s mod 256 \<Longrightarrow> ping_data_size (offline_response s) \<noteq> of_nat (length (offline_response s)) - 2"
    unfolding l unfolding offline_response_def size_bits(3) [OF assms, symmetric] by (rule ping_size_wrong) (simp add: size_bits(1) [OF assms])
qed

text \<open>C26: A ping is answered with what the listeners leave in the event, when its texts have no semicolon and its numbers fit: another
  reader of the answer finds exactly their event, and the answer repeats the time of the ping and keeps every field of the default answer the
  event has no name for. The default answer is one the check of its size accepts.\<close>

theorem ping_reply_shows_event:
  assumes "MIN_PING \<le> length recv" "length s < 2 ^ 15" "length s mod 256 < 128"
    "event_of (splitAdvertisement s) = Some e" "listen e = (e', False)" "sendable e'"
  shows "\<exists>r. handleUnconnectedPing listen (offline_response s) recv = Reply (take 8 (drop 1 recv)) (of_nat (length r)) r \<and>
    event_of (splitAdvertisement r) = Some e' \<and> unnamed_kept (splitAdvertisement s) (splitAdvertisement r)"
proof -
  have len: "length (offline_response s) = length s + 2" by (simp add: offline_response_def be_bytes_16)
  have "\<not> (length (offline_response s) < 2 \<or> ping_data_size (offline_response s) \<noteq> of_nat (length (offline_response s)) - 2)"
    using offline_size(1) [of s] assms(2,3) len by simp
  then have "handleUnconnectedPing listen (offline_response s) recv = Reply (take 8 (drop 1 recv))
      (of_nat (length (buildAdvertisement (splitAdvertisement s) e'))) (buildAdvertisement (splitAdvertisement s) e')"
    using assms(1,4,5) by (simp add: handleUnconnectedPing_def offline_chars Let_def)
  moreover have "splitAdvertisement (buildAdvertisement (splitAdvertisement s) e') = answer_fields (splitAdvertisement s) e'"
    by (rule answer_split [OF assms(6)]) (use split_clean in blast)
  ultimately show ?thesis using answer_event [OF assms(6)] answer_unnamed by metis
qed

text \<open>C27: When the low byte of the size of the default answer is 128 or more, the listeners are never called and the default
  answer goes out, whatever they would do.\<close>

theorem ping_event_skipped:
  assumes "length s < 2 ^ 16" "128 \<le> length s mod 256"
  shows "handleUnconnectedPing listen (offline_response s) recv = Pass"
  using offline_size(2) [OF assms] by (simp add: handleUnconnectedPing_def)

text \<open>A semicolon in the text of the server moves the fields: the protocol version is read from the text.\<close>

lemma semicolon_throws: "event_of (splitAdvertisement ''MCPE;a;b;800;1.21'') = None"
  by (simp add: splitAdvertisement_def event_of_def int_field_def stoi_def is_space_def is_digit_def Let_def)

definition demo_answer :: string where
  "demo_answer = ''MCPE;Hello;800;1.21;3;20;77;World;Survival;1;19132;19133;0;''"

definition demo_ping :: ping_event where
  "demo_ping = \<lparr>motd = ''Hello'', protocol_version = 800, minecraft_version = ''1.21'', num_players = 3, max_players = 20, server_guid = ''77'',
    level_name = ''World'', game_mode = Survival, local_port = 19132, local_port_v6 = 19133\<rparr>"

lemma demo_event: "event_of (splitAdvertisement demo_answer) = Some demo_ping"
  by (simp add: demo_answer_def splitAdvertisement_def event_of_def int_field_def field_def mode_field_def mode_cast_def mode_name_def
    stoi_def is_space_def is_digit_def undecimal_def demo_ping_def Let_def)

theorem ping_reply_shows_event_witness:
  "\<exists>r. handleUnconnectedPing (\<lambda>e. (e\<lparr>motd := ''Bye''\<rparr>, False)) (offline_response demo_answer) (replicate 33 1) =
      Reply (replicate 8 1) (of_nat (length r)) r \<and> event_of (splitAdvertisement r) = Some (demo_ping\<lparr>motd := ''Bye''\<rparr>)"
proof -
  have "sendable (demo_ping\<lparr>motd := ''Bye''\<rparr>)" by (simp add: sendable_def demo_ping_def is_int_def)
  from ping_reply_shows_event [of "replicate 33 1" demo_answer, OF _ _ _ demo_event _ this, of "\<lambda>e. (e\<lparr>motd := ''Bye''\<rparr>, False)"]
  show ?thesis by (auto simp: MIN_PING_def demo_answer_def)
qed

theorem ping_event_skipped_witness:
  "handleUnconnectedPing (\<lambda>e. (e, True)) (offline_response (replicate 130 CHR ''a'')) (replicate 33 1) = Pass"
  by (rule ping_event_skipped) simp_all

end
