(* ===== verification/Thread_Pool.thy ===== *)
theory Thread_Pool
  imports Prelude "HOL-Library.Multiset"
begin

text \<open>
  The thread pool that runs asynchronous tasks (\<open>src/endstone/core/scheduler/thread_pool_executor.cpp\<close>): the threads' loops, the
  queue they take tasks from, and the destructor, as a step relation over all interleavings. The concurrent queue gives out
  its tasks in no particular order, and is empty for a thread that finds nothing. Waiting ends by itself after a while, so
  a wake-up may be lost. A task ends, and keeps its exceptions to itself; what was submitted and has ended is recorded.
\<close>

subsection \<open>States and steps\<close>

text \<open>Where a worker is: at the test of its loop, before the queue, in a task, waiting, and the same after the loop.\<close>

datatype worker_state = Looping | Taking | Running nat | Waiting | Draining | Drain_Running nat | Stopped

record pool =
  threads :: "worker_state list"
  tasks :: "nat list"
  stopping :: bool
  joined :: bool
  submitted :: "nat list"
  finished :: "nat list"

definition ThreadPoolExecutor :: "nat \<Rightarrow> pool" where
  "ThreadPoolExecutor thread_count = \<lparr>threads = replicate (max thread_count 1) Looping, tasks = [], stopping = False, joined = False,
     submitted = [], finished = []\<rparr>"

definition goto :: "nat \<Rightarrow> worker_state \<Rightarrow> pool \<Rightarrow> pool" where
  "goto i w s = s\<lparr>threads := (threads s)[i := w]\<rparr>"

definition dequeue :: "nat \<Rightarrow> pool \<Rightarrow> pool" where
  "dequeue t s = s\<lparr>tasks := remove1 t (tasks s)\<rparr>"

definition finish :: "nat \<Rightarrow> pool \<Rightarrow> pool" where
  "finish t s = s\<lparr>finished := finished s @ [t]\<rparr>"

definition submit :: "nat \<Rightarrow> pool \<Rightarrow> pool" where
  "submit t s = s\<lparr>tasks := tasks s @ [t], submitted := submitted s @ [t]\<rparr>"

definition at :: "pool \<Rightarrow> nat \<Rightarrow> worker_state \<Rightarrow> bool" where
  "at s i w \<longleftrightarrow> i < length (threads s) \<and> threads s ! i = w"

inductive pool_step :: "pool \<Rightarrow> pool \<Rightarrow> bool" where
  submit: "\<not> stopping s \<Longrightarrow> pool_step s (submit t s)"
| destroy: "\<not> stopping s \<Longrightarrow> pool_step s (s\<lparr>stopping := True\<rparr>)"
| test: "at s i Looping \<Longrightarrow> pool_step s (goto i (if stopping s then Draining else Taking) s)"
| take: "at s i Taking \<Longrightarrow> t \<in> set (tasks s) \<Longrightarrow> pool_step s (goto i (Running t) (dequeue t s))"
| nothing: "at s i Taking \<Longrightarrow> tasks s = [] \<Longrightarrow> pool_step s (goto i Waiting s)"
| wake: "at s i Waiting \<Longrightarrow> pool_step s (goto i Looping s)"
| ends: "at s i (Running t) \<Longrightarrow> pool_step s (goto i Looping (finish t s))"
| drain: "at s i Draining \<Longrightarrow> t \<in> set (tasks s) \<Longrightarrow> pool_step s (goto i (Drain_Running t) (dequeue t s))"
| drain_ends: "at s i (Drain_Running t) \<Longrightarrow> pool_step s (goto i Draining (finish t s))"
| stop: "at s i Draining \<Longrightarrow> tasks s = [] \<Longrightarrow> pool_step s (goto i Stopped s)"
| join: "stopping s \<Longrightarrow> \<not> joined s \<Longrightarrow> \<forall>w \<in> set (threads s). w = Stopped \<Longrightarrow> pool_step s (s\<lparr>joined := True\<rparr>)"

inductive pool_reachable :: "nat \<Rightarrow> pool \<Rightarrow> bool" for n where
  start: "pool_reachable n (ThreadPoolExecutor n)"
| step: "pool_reachable n s \<Longrightarrow> pool_step s s' \<Longrightarrow> pool_reachable n s'"

inductive_cases pool_stepE: "pool_step s s'"

subsection \<open>The invariant\<close>

primrec in_task :: "worker_state \<Rightarrow> nat multiset" where
  "in_task Looping = {#}"
| "in_task Taking = {#}"
| "in_task (Running t) = {#t#}"
| "in_task Waiting = {#}"
| "in_task Draining = {#}"
| "in_task (Drain_Running t) = {#t#}"
| "in_task Stopped = {#}"

primrec after_loop :: "worker_state \<Rightarrow> bool" where
  "after_loop Looping = False"
| "after_loop Taking = False"
| "after_loop (Running t) = False"
| "after_loop Waiting = False"
| "after_loop Draining = True"
| "after_loop (Drain_Running t) = True"
| "after_loop Stopped = True"

definition running :: "pool \<Rightarrow> nat multiset" where
  "running s = sum_list (map in_task (threads s))"

lemma sum_list_goto:
  fixes f :: "worker_state \<Rightarrow> 'a::comm_monoid_add"
  shows "i < length ws \<Longrightarrow> sum_list (map f (ws[i := w])) + f (ws ! i) = sum_list (map f ws) + f w"
  by (induction ws arbitrary: i) (auto simp: nth_Cons ac_simps split: nat.splits)

lemma running_goto: "at s i v \<Longrightarrow> running (goto i w s) + in_task v = running s + in_task w"
  by (auto simp: running_def goto_def at_def sum_list_goto)

lemma running_other [simp]:
  "running (dequeue t s) = running s" "running (finish t s) = running s" "running (submit t s) = running s"
  "running (s\<lparr>stopping := b\<rparr>) = running s" "running (s\<lparr>joined := b\<rparr>) = running s"
  by (simp_all add: running_def dequeue_def finish_def submit_def)

lemma at_other [simp]: "at (dequeue t s) i w = at s i w" "at (finish t s) i w = at s i w"
  by (simp_all add: at_def dequeue_def finish_def)

lemma goto_sel [simp]:
  "tasks (goto i w s) = tasks s" "stopping (goto i w s) = stopping s" "joined (goto i w s) = joined s"
  "submitted (goto i w s) = submitted s" "finished (goto i w s) = finished s" "threads (goto i w s) = (threads s)[i := w]"
  by (simp_all add: goto_def)

lemma at_set: "at s i w \<Longrightarrow> w \<in> set (threads s)"
  by (auto simp: at_def)

text \<open>What a step keeps, by parts of the invariant.\<close>

definition counted :: "pool \<Rightarrow> bool" where
  "counted s \<longleftrightarrow> mset (submitted s) = mset (tasks s) + running s + mset (finished s)"

lemma counted_goto: "at s i v \<Longrightarrow> in_task v = in_task w \<Longrightarrow> counted s \<Longrightarrow> counted (goto i w s)"
  using running_goto [of s i v w] by (simp add: counted_def)

lemma counted_take:
  assumes "at s i v" "in_task v = {#}" "in_task w = {#t#}" "t \<in> set (tasks s)" "counted s"
  shows "counted (goto i w (dequeue t s))"
proof -
  have "mset (tasks s) = mset (remove1 t (tasks s)) + {#t#}" using assms(4) by simp
  moreover have "running (goto i w (dequeue t s)) = running s + {#t#}"
    using running_goto [of "dequeue t s" i v w] assms(1-3) by simp
  ultimately show ?thesis using assms(5) by (simp add: counted_def dequeue_def)
qed

lemma counted_ends:
  assumes "at s i v" "in_task v = {#t#}" "in_task w = {#}" "counted s"
  shows "counted (goto i w (finish t s))"
proof -
  have "running (goto i w (finish t s)) + {#t#} = running s"
    using running_goto [of "finish t s" i v w] assms(1-3) by simp
  then have "running s = running (goto i w (finish t s)) + {#t#}" by simp
  then show ?thesis using assms(4) by (simp add: counted_def finish_def)
qed

lemma step_counted: "pool_step s s' \<Longrightarrow> counted s \<Longrightarrow> counted s'"
proof (induction rule: pool_step.induct)
  case (submit s t)
  then show ?case by (simp add: counted_def) (simp add: submit_def)
next
  case (destroy s)
  then show ?case by (simp add: counted_def)
next
  case (join s)
  then show ?case by (simp add: counted_def)
qed (auto intro: counted_goto counted_take counted_ends)

definition phased :: "pool \<Rightarrow> bool" where
  "phased s \<longleftrightarrow> threads s \<noteq> [] \<and> (\<forall>w \<in> set (threads s). after_loop w \<longrightarrow> stopping s) \<and> (Stopped \<in> set (threads s) \<longrightarrow> tasks s = []) \<and>
     (joined s \<longrightarrow> (\<forall>w \<in> set (threads s). w = Stopped))"

lemma phased_goto:
  assumes "at s i v" "v \<noteq> Stopped" "after_loop w \<longrightarrow> stopping s" "w = Stopped \<longrightarrow> tasks s = []" "phased s"
  shows "phased (goto i w s)"
proof -
  have "\<not> joined s" using assms(1,2,5) at_set by (fastforce simp: phased_def)
  moreover have "set (threads (goto i w s)) \<subseteq> insert w (set (threads s))" by (simp add: set_update_subset_insert)
  moreover have "threads (goto i w s) \<noteq> []" using assms(5) by (simp add: phased_def)
  ultimately show ?thesis using assms(3-5) unfolding phased_def goto_sel by blast
qed

lemma phased_other: "phased s \<Longrightarrow> phased (dequeue t s)" "phased s \<Longrightarrow> phased (finish t s)"
  by (auto simp: phased_def dequeue_def finish_def)

lemma phased_stopping: "phased s \<Longrightarrow> at s i w \<Longrightarrow> after_loop w \<Longrightarrow> stopping s"
  by (auto simp: phased_def dest: at_set)

lemma other_stopping [simp]: "stopping (dequeue t s) = stopping s" "stopping (finish t s) = stopping s"
  by (simp_all add: dequeue_def finish_def)

lemma step_phased: "pool_step s s' \<Longrightarrow> phased s \<Longrightarrow> phased s'"
proof (induction rule: pool_step.induct)
  case (submit s t)
  then show ?case by (force simp: phased_def submit_def)
next
  case (take s i t)
  then show ?case by (intro phased_goto [where v = Taking]) (auto intro: phased_other)
next
  case (ends s i t)
  then show ?case by (intro phased_goto [where v = "Running t"]) (auto intro: phased_other)
next
  case (drain s i t)
  then show ?case using phased_stopping by (intro phased_goto [where v = Draining]) (auto intro: phased_other)
next
  case (drain_ends s i t)
  then show ?case using phased_stopping by (intro phased_goto [where v = "Drain_Running t"]) (auto intro: phased_other)
next
  case (stop s i)
  then show ?case using phased_stopping by (intro phased_goto [where v = Draining]) auto
next
  case (test s i)
  then show ?case by (intro phased_goto [where v = Looping]) auto
next
  case (nothing s i)
  then show ?case by (intro phased_goto [where v = Taking]) auto
next
  case (wake s i)
  then show ?case by (intro phased_goto [where v = Waiting]) auto
qed (auto simp: phased_def)

lemma idle_threads: "\<forall>w \<in> set ws. in_task w = {#} \<Longrightarrow> sum_list (map in_task ws) = {#}"
  by (induction ws) auto

lemma reachable_inv: "pool_reachable n s \<Longrightarrow> counted s \<and> phased s"
proof (induction rule: pool_reachable.induct)
  case start
  have "running (ThreadPoolExecutor n) = {#}" unfolding running_def ThreadPoolExecutor_def by (intro idle_threads) auto
  then show ?case by (auto simp: ThreadPoolExecutor_def counted_def phased_def)
next
  case (step s s')
  then show ?case by (blast intro: step_counted step_phased)
qed

text \<open>At every moment each submitted task is queued, in one thread, or has ended, and as often as it was submitted: no task is
  lost and none runs twice.\<close>

theorem tasks_conserved:
  assumes "pool_reachable n s"
  shows "mset (submitted s) = mset (tasks s) + running s + mset (finished s)"
  using reachable_inv [OF assms] by (simp add: counted_def)

subsection \<open>Shutting down\<close>

primrec weight :: "worker_state \<Rightarrow> nat" where
  "weight Looping = 2"
| "weight Taking = 4"
| "weight (Running t) = 3"
| "weight Waiting = 3"
| "weight Draining = 1"
| "weight (Drain_Running t) = 2"
| "weight Stopped = 0"

definition work :: "pool \<Rightarrow> nat" where
  "work s = 4 * length (tasks s) + sum_list (map weight (threads s)) + (if joined s then 0 else 1)"

lemma work_goto: "at s i v \<Longrightarrow> work (goto i w s) + weight v = work s + weight w"
  using sum_list_goto [of i "threads s" weight w] by (auto simp: work_def at_def)

lemma work_dequeue: "t \<in> set (tasks s) \<Longrightarrow> work (dequeue t s) + 4 = work s"
  using length_pos_if_in_set [of t "tasks s"] by (cases "length (tasks s)") (auto simp: work_def dequeue_def length_remove1)

lemma work_finish: "work (finish t s) = work s"
  by (simp add: work_def finish_def)

lemma step_work: "pool_step s s' \<Longrightarrow> stopping s \<Longrightarrow> work s' < work s \<and> stopping s'"
proof (induction rule: pool_step.induct)
  case (test s i)
  then show ?case using work_goto [of s i Looping Draining] by simp
next
  case (take s i t)
  then show ?case using work_goto [of "dequeue t s" i Taking "Running t"] work_dequeue [of t s] by simp
next
  case (nothing s i)
  then show ?case using work_goto [of s i Taking Waiting] by simp
next
  case (wake s i)
  then show ?case using work_goto [of s i Waiting Looping] by simp
next
  case (ends s i t)
  then show ?case using work_goto [of "finish t s" i "Running t" Looping] work_finish [of t s] by simp
next
  case (drain s i t)
  then show ?case using work_goto [of "dequeue t s" i Draining "Drain_Running t"] work_dequeue [of t s] by simp
next
  case (drain_ends s i t)
  then show ?case using work_goto [of "finish t s" i "Drain_Running t" Draining] work_finish [of t s] by simp
next
  case (stop s i)
  then show ?case using work_goto [of s i Draining Stopped] by simp
qed (simp_all add: work_def)

lemma pool_progress:
  assumes "stopping s" "\<not> joined s"
  shows "\<exists>s'. pool_step s s'"
proof (cases "\<forall>w \<in> set (threads s). w = Stopped")
  case True
  then show ?thesis using assms pool_step.join by blast
next
  case False
  then obtain i w where i: "at s i w" "w \<noteq> Stopped" by (auto simp: at_def in_set_conv_nth)
  show ?thesis
  proof (cases "tasks s")
    case Nil
    then show ?thesis using i by (cases w) (blast intro: pool_step.intros)+
  next
    case (Cons t ts)
    then have "t \<in> set (tasks s)" by simp
    then show ?thesis using i by (cases w) (blast intro: pool_step.intros)+
  qed
qed

lemma stopping_submitted: "pool_step s s' \<Longrightarrow> stopping s \<Longrightarrow> submitted s' = submitted s"
  by (induction rule: pool_step.induct) (auto simp: dequeue_def finish_def)

lemma run_work: "(pool_step ^^ k) s s' \<Longrightarrow> stopping s \<Longrightarrow> work s' + k \<le> work s \<and> stopping s' \<and> submitted s' = submitted s"
proof (induction k arbitrary: s')
  case (Suc k)
  then obtain s1 where s1: "(pool_step ^^ k) s s1" "pool_step s1 s'" by auto
  with Suc have "work s1 + k \<le> work s" "stopping s1" "submitted s1 = submitted s" by auto
  with step_work [OF s1(2)] stopping_submitted [OF s1(2)] show ?case by simp
qed simp

lemma run_reachable: "(pool_step ^^ k) s s' \<Longrightarrow> pool_reachable n s \<Longrightarrow> pool_reachable n s'"
  by (induction k arbitrary: s') (auto intro: pool_reachable.step)

text \<open>C28: Once the destructor has begun, every run ends after at most \<open>work s\<close> steps, and it ends nowhere but with all threads joined
  and every task that was ever submitted run to its end: a shutdown loses no task and does not hang on a lost wake-up.\<close>

theorem shutdown_runs_all:
  assumes "pool_reachable n s" "stopping s" "(pool_step ^^ k) s s'"
  shows "k \<le> work s \<and> ((\<nexists>s''. pool_step s' s'') \<longrightarrow> joined s') \<and>
    (joined s' \<longrightarrow> (\<forall>w \<in> set (threads s'). w = Stopped) \<and> mset (finished s') = mset (submitted s))"
proof -
  have inv: "counted s'" "phased s'" using reachable_inv [OF run_reachable [OF assms(3,1)]] by auto
  note run = run_work [OF assms(3,2)]
  have "mset (finished s') = mset (submitted s)" "\<forall>w \<in> set (threads s'). w = Stopped" if "joined s'"
  proof -
    show st: "\<forall>w \<in> set (threads s'). w = Stopped" using inv(2) that by (simp add: phased_def)
    then have "tasks s' = []" using inv(2) by (cases "threads s'") (auto simp: phased_def)
    moreover have "running s' = {#}" using st unfolding running_def by (intro idle_threads) auto
    ultimately show "mset (finished s') = mset (submitted s)" using inv(1) run by (simp add: counted_def)
  qed
  moreover have "joined s'" if "\<nexists>s''. pool_step s' s''" using pool_progress [of s'] run that by blast
  ultimately show ?thesis using run by auto
qed

text \<open>A pool of one thread that is stopped with one task in its queue.\<close>

definition demo_pool :: pool where
  "demo_pool = (submit 7 (ThreadPoolExecutor 0))\<lparr>stopping := True\<rparr>"

lemma demo_reachable: "pool_reachable 0 demo_pool"
proof -
  have "pool_reachable 0 (submit 7 (ThreadPoolExecutor 0))"
    by (rule pool_reachable.step [OF pool_reachable.start]) (rule pool_step.submit, simp add: ThreadPoolExecutor_def)
  then show ?thesis unfolding demo_pool_def
    by (rule pool_reachable.step) (rule pool_step.destroy, simp add: ThreadPoolExecutor_def submit_def)
qed

theorem tasks_conserved_witness: "tasks demo_pool = [7] \<and> mset [7] = {#7#} + running demo_pool + mset (finished demo_pool)"
  using tasks_conserved [OF demo_reachable] by (simp add: demo_pool_def submit_def ThreadPoolExecutor_def)

definition demo_joined :: pool where
  "demo_joined = \<lparr>threads = [Stopped], tasks = [], stopping = True, joined = True, submitted = [7], finished = [7]\<rparr>"

lemma pool_demo_run: "(pool_step ^^ 5) demo_pool demo_joined"
proof -
  let ?s = "\<lambda>w ts j f. \<lparr>threads = [w], tasks = ts, stopping = True, joined = j, submitted = [7], finished = f\<rparr> :: pool"
  have s1: "pool_step (?s Looping [7] False []) (?s Draining [7] False [])"
    using pool_step.test [of "?s Looping [7] False []" 0] by (simp add: at_def goto_def)
  have s2: "pool_step (?s Draining [7] False []) (?s (Drain_Running 7) [] False [])"
    using pool_step.drain [of "?s Draining [7] False []" 0 7] by (simp add: at_def goto_def dequeue_def)
  have s3: "pool_step (?s (Drain_Running 7) [] False []) (?s Draining [] False [7])"
    using pool_step.drain_ends [of "?s (Drain_Running 7) [] False []" 0 7] by (simp add: at_def goto_def finish_def)
  have s4: "pool_step (?s Draining [] False [7]) (?s Stopped [] False [7])"
    using pool_step.stop [of "?s Draining [] False [7]" 0] by (simp add: at_def goto_def)
  have s5: "pool_step (?s Stopped [] False [7]) demo_joined"
    using pool_step.join [of "?s Stopped [] False [7]"] by (simp add: demo_joined_def)
  have d: "demo_pool = ?s Looping [7] False []" by (simp add: demo_pool_def submit_def ThreadPoolExecutor_def)
  have five: "(5 :: nat) = Suc (Suc (Suc (Suc (Suc 0))))" by simp
  show ?thesis unfolding five d
    by (rule relpowp_Suc_I2 [of pool_step, OF s1], rule relpowp_Suc_I2 [of pool_step, OF s2], rule relpowp_Suc_I2 [of pool_step, OF s3], rule relpowp_Suc_I2 [of pool_step, OF s4],
      rule relpowp_Suc_I2 [of pool_step, OF s5], rule relpowp_0_I)
qed

theorem shutdown_runs_all_witness:
  "stopping demo_pool \<and> (pool_step ^^ 5) demo_pool demo_joined \<and> 5 \<le> work demo_pool \<and> mset (finished demo_joined) = mset (submitted demo_pool)"
proof -
  have "stopping demo_pool" "joined demo_joined" by (simp_all add: demo_pool_def demo_joined_def)
  with shutdown_runs_all [OF demo_reachable _ pool_demo_run] pool_demo_run show ?thesis by blast
qed

end
