(* ===== verification/Services.thy ===== *)
theory Services
  imports Prelude
begin

text \<open>
  The registry of services (\<open>src/endstone/core/plugin/service_manager.cpp\<close>): the providers of a service, best first. A plugin and
  a provider are their addresses. Every operation holds the mutex of the registry, so it is one step; the map of the
  providers is unordered: an association list in some order. The lemmas relate it to the plain history of registrations.
\<close>

subsection \<open>Operations\<close>

datatype service_priority = Lowest | Low | Normal | High | Highest

primrec rank :: "service_priority \<Rightarrow> nat" where
  "rank Lowest = 0"
| "rank Low = 1"
| "rank Normal = 2"
| "rank High = 3"
| "rank Highest = 4"

record registered =
  service_name :: string
  provider :: nat
  priority :: service_priority
  owner :: nat

type_synonym services = "(string \<times> registered list) list"

text \<open>\<open>lower_bound\<close> with \<open>greater\<close> finds the first entry that is not greater than the new one.\<close>

fun insert_provider :: "registered \<Rightarrow> registered list \<Rightarrow> registered list" where
  "insert_provider p [] = [p]"
| "insert_provider p (q # qs) = (if rank (priority q) > rank (priority p) then q # insert_provider p qs else p # q # qs)"

definition listed :: "services \<Rightarrow> string \<Rightarrow> registered list" where
  "listed ss n = (case map_of ss n of None \<Rightarrow> [] | Some ps \<Rightarrow> ps)"

definition registerService :: "string \<Rightarrow> nat \<Rightarrow> nat \<Rightarrow> service_priority \<Rightarrow> services \<Rightarrow> services" where
  "registerService n prov plugin prio ss =
     AList.update n (insert_provider \<lparr>service_name = n, provider = prov, priority = prio, owner = plugin\<rparr> (listed ss n)) ss"

text \<open>Removing entries from every list; a list that becomes empty goes with its name.\<close>

definition erase_everywhere :: "(registered \<Rightarrow> bool) \<Rightarrow> services \<Rightarrow> services" where
  "erase_everywhere P ss = filter (\<lambda>(n, ps). ps \<noteq> []) (map (\<lambda>(n, ps). (n, filter (\<lambda>p. \<not> P p) ps)) ss)"

definition unregisterAll :: "nat \<Rightarrow> services \<Rightarrow> services" where
  "unregisterAll plugin ss = erase_everywhere (\<lambda>p. owner p = plugin) ss"

definition unregister :: "nat \<Rightarrow> services \<Rightarrow> services" where
  "unregister prov ss = erase_everywhere (\<lambda>p. provider p = prov) ss"

definition unregister_named :: "string \<Rightarrow> nat \<Rightarrow> services \<Rightarrow> services" where
  "unregister_named n prov ss = (case map_of ss n of
     None \<Rightarrow> ss
   | Some ps \<Rightarrow> (let qs = filter (\<lambda>p. provider p \<noteq> prov) ps in
       if qs = [] then AList.delete n ss else AList.update n qs ss))"

definition get :: "string \<Rightarrow> services \<Rightarrow> nat option" where
  "get n ss = (case map_of ss n of
     None \<Rightarrow> None
   | Some ps \<Rightarrow> if ps \<noteq> [] then Some (provider (hd ps)) else None)"

subsection \<open>The history of registrations\<close>

text \<open>Specification: registrations in the order they were made; the best is the last one of the highest priority.\<close>

datatype service_call =
    Register string nat nat service_priority
  | Unregister_All nat
  | Unregister nat
  | Unregister_Named string nat

fun run_call :: "service_call \<Rightarrow> services \<Rightarrow> services" where
  "run_call (Register n prov plugin prio) ss = registerService n prov plugin prio ss"
| "run_call (Unregister_All plugin) ss = unregisterAll plugin ss"
| "run_call (Unregister prov) ss = unregister prov ss"
| "run_call (Unregister_Named n prov) ss = unregister_named n prov ss"

fun spec_call :: "service_call \<Rightarrow> registered list \<Rightarrow> registered list" where
  "spec_call (Register n prov plugin prio) rs = rs @ [\<lparr>service_name = n, provider = prov, priority = prio, owner = plugin\<rparr>]"
| "spec_call (Unregister_All plugin) rs = filter (\<lambda>p. owner p \<noteq> plugin) rs"
| "spec_call (Unregister prov) rs = filter (\<lambda>p. provider p \<noteq> prov) rs"
| "spec_call (Unregister_Named n prov) rs = filter (\<lambda>p. \<not> (service_name p = n \<and> provider p = prov)) rs"

fun better :: "registered option \<Rightarrow> registered \<Rightarrow> registered option" where
  "better None p = Some p"
| "better (Some q) p = (if rank (priority q) > rank (priority p) then Some q else Some p)"

definition best :: "string \<Rightarrow> registered list \<Rightarrow> registered option" where
  "best n rs = foldl better None (filter (\<lambda>p. service_name p = n) rs)"

text \<open>The lists hold what the history says, each in the order of a stable sort that puts the latest first.\<close>

definition arranged :: "registered list \<Rightarrow> registered list" where
  "arranged rs = foldl (\<lambda>ps p. insert_provider p ps) [] rs"

definition matches :: "services \<Rightarrow> registered list \<Rightarrow> bool" where
  "matches ss rs \<longleftrightarrow> distinct (map fst ss) \<and> (\<forall>(n, ps) \<in> set ss. ps \<noteq> []) \<and>
     (\<forall>n. listed ss n = arranged (filter (\<lambda>p. service_name p = n) rs))"

definition descending :: "registered list \<Rightarrow> bool" where
  "descending ps \<longleftrightarrow> sorted_wrt (\<lambda>p q. rank (priority p) \<ge> rank (priority q)) ps"

lemma set_insert_provider [simp]: "set (insert_provider p ps) = insert p (set ps)"
  by (induction ps) auto

lemma insert_provider_descending: "descending ps \<Longrightarrow> descending (insert_provider p ps)"
  by (induction ps) (auto simp: descending_def)

lemma arranged_snoc: "arranged (rs @ [p]) = insert_provider p (arranged rs)"
  by (simp add: arranged_def)

lemma arranged_descending: "descending (arranged rs)"
  by (induction rs rule: rev_induct) (simp_all add: arranged_snoc insert_provider_descending, simp add: arranged_def descending_def)

lemma set_arranged: "set (arranged rs) = set rs"
  by (induction rs rule: rev_induct) (simp_all add: arranged_snoc, simp add: arranged_def)

lemma filter_insert_provider:
  "descending ps \<Longrightarrow> filter P (insert_provider p ps) = (if P p then insert_provider p (filter P ps) else filter P ps)"
proof (induction ps)
  case (Cons q qs)
  have tail: "insert_provider p (filter P qs) = p # filter P qs" if "rank (priority q) \<le> rank (priority p)"
  proof (cases "filter P qs")
    case (Cons r rs)
    then have "r \<in> set qs" by (metis filter_is_subset list.set_intros(1) subsetD)
    then have "rank (priority r) \<le> rank (priority p)" using Cons.prems that by (auto simp: descending_def)
    then show ?thesis using Cons by simp
  qed simp
  show ?case using Cons tail by (auto simp: descending_def)
qed simp

lemma filter_arranged: "filter P (arranged rs) = arranged (filter P rs)"
proof (induction rs rule: rev_induct)
  case (snoc p rs)
  then show ?case by (simp add: arranged_snoc filter_insert_provider arranged_descending)
qed (simp add: arranged_def)

lemma arranged_best: "(case arranged rs of [] \<Rightarrow> None | p # ps \<Rightarrow> Some p) = foldl better None rs"
proof (induction rs rule: rev_induct)
  case (snoc p rs)
  then show ?case by (cases "arranged rs") (auto simp: arranged_snoc simp flip: snoc.IH)
qed (simp add: arranged_def)

lemma listed_erase: "distinct (map fst ss) \<Longrightarrow> listed (erase_everywhere P ss) n = filter (\<lambda>p. \<not> P p) (listed ss n)"
proof (induction ss)
  case (Cons m ss)
  obtain k ps where m: "m = (k, ps)" by (cases m)
  have "map_of (erase_everywhere P ss) k = None" if "k \<notin> fst ` set ss"
    using that by (force simp: erase_everywhere_def map_of_eq_None_iff)
  then show ?case using Cons m by (auto simp: erase_everywhere_def listed_def split: option.splits)
qed (simp add: erase_everywhere_def listed_def)

lemma erase_names: "map fst (erase_everywhere P ss) = map fst (filter (\<lambda>(n, ps). filter (\<lambda>p. \<not> P p) ps \<noteq> []) ss)"
  by (induction ss) (auto simp: erase_everywhere_def)

lemma erase_shape: "distinct (map fst ss) \<Longrightarrow> distinct (map fst (erase_everywhere P ss)) \<and> (\<forall>(n, ps) \<in> set (erase_everywhere P ss). ps \<noteq> [])"
  by (simp add: erase_names distinct_map_filter) (auto simp: erase_everywhere_def)

lemma matches_erase:
  assumes "matches ss rs"
  shows "matches (erase_everywhere P ss) (filter (\<lambda>p. \<not> P p) rs)"
  using assms erase_shape [of ss P] by (simp add: matches_def listed_erase filter_arranged conj_commute)

lemma listed_update [simp]: "listed (AList.update k ps ss) n = (if n = k then ps else listed ss n)"
  by (simp add: listed_def update_conv)

lemma set_update_entries: "e \<in> set (AList.update k v ss) \<Longrightarrow> e = (k, v) \<or> e \<in> set ss"
  by (induction ss) (auto split: if_splits)

lemma set_delete_entries: "e \<in> set (AList.delete k ss) \<Longrightarrow> e \<in> set ss"
  by (simp add: AList.delete_eq)

lemma update_shape:
  "matches ss rs \<Longrightarrow> ps \<noteq> [] \<Longrightarrow> distinct (map fst (AList.update k ps ss)) \<and> (\<forall>(n, ps) \<in> set (AList.update k ps ss). ps \<noteq> [])"
  using distinct_update [of ss k ps] by (auto simp: matches_def dest!: set_update_entries)

lemma insert_provider_nonempty [simp]: "insert_provider p ps \<noteq> []"
  by (cases ps) auto

lemma matches_register:
  assumes "matches ss rs"
  shows "matches (registerService n prov plugin prio ss) (rs @ [\<lparr>service_name = n, provider = prov, priority = prio, owner = plugin\<rparr>])"
  using assms update_shape [OF assms, of "insert_provider _ _" n]
  by (auto simp: matches_def registerService_def arranged_snoc)

lemma matches_unregister_named:
  assumes "matches ss rs"
  shows "matches (unregister_named n prov ss) (filter (\<lambda>p. \<not> (service_name p = n \<and> provider p = prov)) rs)"
proof -
  let ?keep = "\<lambda>p. \<not> (service_name p = n \<and> provider p = prov)"
  have named: "filter (\<lambda>p. service_name p = k) (filter ?keep rs) =
      (if k = n then filter (\<lambda>p. provider p \<noteq> prov) (filter (\<lambda>p. service_name p = n) rs) else filter (\<lambda>p. service_name p = k) rs)" for k
    by (induction rs) auto
  have listed: "listed (unregister_named n prov ss) k = (if k = n then filter (\<lambda>p. provider p \<noteq> prov) (listed ss n) else listed ss k)" for k
    by (auto simp: unregister_named_def Let_def listed_def delete_conv' update_conv split: option.splits)
  have "distinct (map fst (unregister_named n prov ss)) \<and> (\<forall>(n, ps) \<in> set (unregister_named n prov ss). ps \<noteq> [])"
    using assms update_shape [OF assms, of "filter _ _" n] distinct_delete [of ss n]
    by (auto simp: unregister_named_def Let_def matches_def dest!: set_delete_entries split: option.splits)
  then show ?thesis unfolding matches_def named listed using assms by (simp add: matches_def filter_arranged del: filter_filter)
qed

lemma matches_call: "matches ss rs \<Longrightarrow> matches (run_call c ss) (spec_call c rs)"
  by (cases c) (use matches_erase matches_register matches_unregister_named in \<open>auto simp: unregisterAll_def unregister_def\<close>)

lemma matches_get:
  assumes "matches ss rs"
  shows "get n ss = map_option provider (best n rs)"
proof -
  have "listed ss n = arranged (filter (\<lambda>p. service_name p = n) rs)" using assms by (simp add: matches_def)
  then have "best n rs = (case listed ss n of [] \<Rightarrow> None | p # ps \<Rightarrow> Some p)" by (simp add: best_def arranged_best)
  then show ?thesis by (cases "map_of ss n") (auto simp: get_def listed_def split: list.splits)
qed

text \<open>C29: After any calls the manager answers for a service with the provider the history names: the one registered last among those
  of the highest priority that no later call has removed, and nothing when there is none.\<close>

theorem services_answer_history:
  "get n (fold run_call cs []) = map_option provider (best n (fold spec_call cs []))"
proof -
  have "matches (fold run_call cs ss) (fold spec_call cs rs)" if "matches ss rs" for ss rs
    using that by (induction cs arbitrary: ss rs) (auto intro: matches_call)
  then show ?thesis by (rule matches_get) (simp add: matches_def listed_def arranged_def)
qed

text \<open>Providers of the same priority: the one registered last is found.\<close>

lemma latest_wins: "get ''s'' (fold run_call [Register ''s'' 1 10 Normal, Register ''s'' 2 11 Normal, Register ''s'' 3 12 Low] []) = Some 2"
  by code_simp

end
