(* ===== verification/Forms.thy ===== *)
theory Forms
  imports Prelude "HOL-Library.Char_ord" "HOL-Library.List_Lexorder"
begin

text \<open>
  Forms: the JSON a form is sent as (\<open>src/endstone/core/form/form_codec.cpp\<close>), and the forms a player has open with the
  answers to them (\<open>sendForm\<close>, \<open>closeForm\<close>, \<open>onFormClose\<close> and \<open>onFormResponse\<close> of \<open>src/endstone/core/player.cpp\<close>). JSON values are
  those of the library: an object is an ordered map. Its numbers with a fraction are of any type \<open>'f\<close>. A callback is a
  number; what it does to the player's forms, and whether it throws, is the parameter \<open>script\<close>.
\<close>

subsection \<open>Forms and controls\<close>

datatype message = Text string | Translatable string "string list"

record button =
  button_text :: message
  button_icon :: "string option"
  on_click :: "nat option"

datatype action_control = Action_Button button | Action_Divider | Action_Header message | Action_Label message

datatype 'f modal_control =
    Dropdown message "string list" "int option"
  | Label message
  | Slider message 'f 'f 'f "'f option"
  | Step_Slider message "string list" "int option"
  | Text_Input message message "string option"
  | Toggle message bool
  | Divider
  | Header message

datatype 'f form =
    Message_Form (title: message) (content: message) (button1: message) (button2: message) (on_submit: "nat option") (on_close: "nat option")
  | Action_Form (title: message) (content: message) (controls: "action_control list") (on_submit: "nat option") (on_close: "nat option")
  | Modal_Form (title: message) (modal_controls: "'f modal_control list") (submit_button: "message option") (icon: "string option")
      (on_submit: "nat option") (on_close: "nat option")

subsection \<open>JSON\<close>

datatype 'f json =
    JNull
  | JBool bool
  | JInt int
  | JReal 'f
  | JString string
  | JArray "'f json list"
  | JObject "(string \<times> 'f json) list"

text \<open>A value that is null at first and whose fields are assigned one after the other.\<close>

definition assign :: "(string \<times> 'f json) list \<Rightarrow> 'f json" where
  "assign es = JObject (fold (\<lambda>(k, v). omap_put k v) es [])"

definition strings :: "string list \<Rightarrow> 'f json" where
  "strings ss = JArray (map JString ss)"

primrec message_json :: "message \<Rightarrow> 'f json" where
  "message_json (Text t) = assign [(''rawtext'', JArray [assign [(''text'', JString t)]])]"
| "message_json (Translatable t ps) = assign [(''rawtext'', JArray [assign [(''translate'', JString t), (''with'', strings ps)]])]"

definition optional :: "string \<Rightarrow> ('a \<Rightarrow> 'f json) \<Rightarrow> 'a option \<Rightarrow> (string \<times> 'f json) list" where
  "optional k f v = (case v of None \<Rightarrow> [] | Some x \<Rightarrow> [(k, f x)])"

definition label_json :: "message \<Rightarrow> 'f json" where
  "label_json t = assign [(''type'', JString ''label''), (''text'', message_json t)]"

definition header_json :: "message \<Rightarrow> 'f json" where
  "header_json t = assign [(''type'', JString ''header''), (''text'', message_json t)]"

definition divider_json :: "'f json" where
  "divider_json = assign [(''type'', JString ''divider''), (''text'', JString [])]"

text \<open>\<open>rfind(p, 0) == 0\<close>.\<close>

fun starts_with :: "string \<Rightarrow> string \<Rightarrow> bool" where
  "starts_with [] s = True"
| "starts_with (c # p) [] = False"
| "starts_with (c # p) (d # s) = (c = d \<and> starts_with p s)"

definition icon_json :: "string \<Rightarrow> 'f json" where
  "icon_json i = assign [(''type'', JString (if starts_with ''http://'' i \<or> starts_with ''https://'' i then ''url'' else ''path'')),
     (''data'', JString i)]"

definition button_json :: "button \<Rightarrow> 'f json" where
  "button_json b = assign ([(''type'', JString ''button''), (''text'', message_json (button_text b))] @ optional ''image'' icon_json (button_icon b))"

primrec action_control_json :: "action_control \<Rightarrow> 'f json" where
  "action_control_json (Action_Button b) = button_json b"
| "action_control_json Action_Divider = divider_json"
| "action_control_json (Action_Header t) = header_json t"
| "action_control_json (Action_Label t) = label_json t"

primrec modal_control_json :: "'f modal_control \<Rightarrow> 'f json" where
  "modal_control_json (Dropdown l os d) = assign ([(''type'', JString ''dropdown''), (''text'', message_json l), (''options'', strings os)]
     @ optional ''default'' JInt d)"
| "modal_control_json (Label t) = label_json t"
| "modal_control_json (Slider l lo hi st d) = assign ([(''type'', JString ''slider''), (''text'', message_json l), (''min'', JReal lo),
     (''max'', JReal hi), (''step'', JReal st)] @ optional ''default'' JReal d)"
| "modal_control_json (Step_Slider l os d) = assign ([(''type'', JString ''step_slider''), (''text'', message_json l), (''steps'', strings os)]
     @ optional ''default'' JInt d)"
| "modal_control_json (Text_Input l p d) = assign ([(''type'', JString ''input''), (''text'', message_json l),
     (''placeholder'', message_json p)] @ optional ''default'' JString d)"
| "modal_control_json (Toggle l b) = assign [(''type'', JString ''toggle''), (''text'', message_json l), (''default'', JBool b)]"
| "modal_control_json Divider = divider_json"
| "modal_control_json (Header t) = header_json t"

primrec toJson :: "'f form \<Rightarrow> 'f json" where
  "toJson (Message_Form t c b1 b2 s cl) = assign [(''type'', JString ''modal''), (''title'', message_json t), (''content'', message_json c),
     (''button1'', message_json b1), (''button2'', message_json b2)]"
| "toJson (Action_Form t c cs s cl) = assign [(''type'', JString ''form''), (''title'', message_json t), (''content'', message_json c),
     (''elements'', JArray (map action_control_json cs))]"
| "toJson (Modal_Form t cs sb i s cl) = assign ([(''type'', JString ''custom_form''), (''title'', message_json t),
     (''content'', JArray (map modal_control_json cs))] @ optional ''submit'' message_json sb @ optional ''icon'' icon_json i)"

subsection \<open>What a client can read back\<close>

text \<open>Specification: a reader of forms, which finds fields by name and refuses what it does not know.\<close>

definition field :: "string \<Rightarrow> 'f json \<Rightarrow> 'f json option" where
  "field k j = (case j of JObject m \<Rightarrow> map_of m k | _ \<Rightarrow> None)"

definition string_of :: "'f json \<Rightarrow> string option" where
  "string_of j = (case j of JString s \<Rightarrow> Some s | _ \<Rightarrow> None)"

definition int_of :: "'f json \<Rightarrow> int option" where
  "int_of j = (case j of JInt i \<Rightarrow> Some i | _ \<Rightarrow> None)"

definition real_of :: "'f json \<Rightarrow> 'f option" where
  "real_of j = (case j of JReal r \<Rightarrow> Some r | _ \<Rightarrow> None)"

definition bool_of :: "'f json \<Rightarrow> bool option" where
  "bool_of j = (case j of JBool b \<Rightarrow> Some b | _ \<Rightarrow> None)"

primrec all_of :: "('a \<Rightarrow> 'b option) \<Rightarrow> 'a list \<Rightarrow> 'b list option" where
  "all_of f [] = Some []"
| "all_of f (x # xs) = Option.bind (f x) (\<lambda>y. map_option ((#) y) (all_of f xs))"

definition list_of :: "('f json \<Rightarrow> 'b option) \<Rightarrow> 'f json \<Rightarrow> 'b list option" where
  "list_of f j = (case j of JArray js \<Rightarrow> all_of f js | _ \<Rightarrow> None)"

text \<open>A field that must be there, and one that may be missing.\<close>

definition req :: "string \<Rightarrow> ('f json \<Rightarrow> 'b option) \<Rightarrow> 'f json \<Rightarrow> 'b option" where
  "req k f j = Option.bind (field k j) f"

definition opt :: "string \<Rightarrow> ('f json \<Rightarrow> 'b option) \<Rightarrow> 'f json \<Rightarrow> 'b option option" where
  "opt k f j = (case field k j of None \<Rightarrow> Some None | Some v \<Rightarrow> map_option Some (f v))"

definition read_message :: "'f json \<Rightarrow> message option" where
  "read_message j = Option.bind (req ''rawtext'' (list_of Some) j) (\<lambda>es. case es of
     [e] \<Rightarrow> (case field ''text'' e of Some t \<Rightarrow> map_option Text (string_of t)
       | None \<Rightarrow> Option.bind (req ''translate'' string_of e) (\<lambda>t. map_option (Translatable t) (req ''with'' (list_of string_of) e)))
   | _ \<Rightarrow> None)"

definition read_button :: "'f json \<Rightarrow> button option" where
  "read_button j = Option.bind (req ''text'' read_message j) (\<lambda>t. map_option (\<lambda>i. \<lparr>button_text = t, button_icon = i, on_click = None\<rparr>)
     (opt ''image'' (req ''data'' string_of) j))"

definition read_action_control :: "'f json \<Rightarrow> action_control option" where
  "read_action_control j = Option.bind (req ''type'' string_of j) (\<lambda>t.
     if t = ''button'' then map_option Action_Button (read_button j)
     else if t = ''divider'' then Some Action_Divider
     else if t = ''header'' then map_option Action_Header (req ''text'' read_message j)
     else if t = ''label'' then map_option Action_Label (req ''text'' read_message j) else None)"

definition read_modal_control :: "'f json \<Rightarrow> 'f modal_control option" where
  "read_modal_control j = Option.bind (req ''type'' string_of j) (\<lambda>t.
     if t = ''divider'' then Some Divider else Option.bind (req ''text'' read_message j) (\<lambda>l.
     if t = ''label'' then Some (Label l)
     else if t = ''header'' then Some (Header l)
     else if t = ''dropdown'' then Option.bind (req ''options'' (list_of string_of) j) (\<lambda>os. map_option (Dropdown l os) (opt ''default'' int_of j))
     else if t = ''step_slider'' then Option.bind (req ''steps'' (list_of string_of) j) (\<lambda>os. map_option (Step_Slider l os) (opt ''default'' int_of j))
     else if t = ''slider'' then Option.bind (req ''min'' real_of j) (\<lambda>lo. Option.bind (req ''max'' real_of j) (\<lambda>hi.
       Option.bind (req ''step'' real_of j) (\<lambda>st. map_option (Slider l lo hi st) (opt ''default'' real_of j))))
     else if t = ''input'' then Option.bind (req ''placeholder'' read_message j) (\<lambda>p. map_option (Text_Input l p) (opt ''default'' string_of j))
     else if t = ''toggle'' then map_option (Toggle l) (req ''default'' bool_of j) else None))"

definition read_form :: "'f json \<Rightarrow> 'f form option" where
  "read_form j = Option.bind (req ''type'' string_of j) (\<lambda>ty. Option.bind (req ''title'' read_message j) (\<lambda>t.
     if ty = ''modal'' then Option.bind (req ''content'' read_message j) (\<lambda>c. Option.bind (req ''button1'' read_message j) (\<lambda>b1.
       map_option (\<lambda>b2. Message_Form t c b1 b2 None None) (req ''button2'' read_message j)))
     else if ty = ''form'' then Option.bind (req ''content'' read_message j) (\<lambda>c.
       map_option (\<lambda>cs. Action_Form t c cs None None) (req ''elements'' (list_of read_action_control) j))
     else if ty = ''custom_form'' then Option.bind (req ''content'' (list_of read_modal_control) j) (\<lambda>cs.
       Option.bind (opt ''submit'' read_message j) (\<lambda>sb. map_option (\<lambda>i. Modal_Form t cs sb i None None) (opt ''icon'' (req ''data'' string_of) j)))
     else None))"

text \<open>A form without its callbacks.\<close>

primrec without_click :: "action_control \<Rightarrow> action_control" where
  "without_click (Action_Button b) = Action_Button (b\<lparr>on_click := None\<rparr>)"
| "without_click Action_Divider = Action_Divider"
| "without_click (Action_Header t) = Action_Header t"
| "without_click (Action_Label t) = Action_Label t"

primrec shown :: "'f form \<Rightarrow> 'f form" where
  "shown (Message_Form t c b1 b2 s cl) = Message_Form t c b1 b2 None None"
| "shown (Action_Form t c cs s cl) = Action_Form t c (map without_click cs) None None"
| "shown (Modal_Form t cs sb i s cl) = Modal_Form t cs sb i None None"

lemma map_of_fold_put: "map_of (fold (\<lambda>(k, v). omap_put k v) es m) k = (case map_of (rev es) k of None \<Rightarrow> map_of m k | Some v \<Rightarrow> Some v)"
  by (induction es arbitrary: m) (auto simp: map_add_def split: option.splits)

lemma field_assign: "field k (assign es) = map_of (rev es) k"
  by (simp add: field_def assign_def map_of_fold_put split: option.splits)

lemma all_of_map: "(\<And>x. x \<in> set xs \<Longrightarrow> f (g x) = Some (h x)) \<Longrightarrow> all_of f (map g xs) = Some (map h xs)"
  by (induction xs) auto

lemma readers [simp]:
  "string_of (JString s) = Some s" "int_of (JInt i) = Some i" "real_of (JReal r) = Some r" "bool_of (JBool b) = Some b"
  "list_of f (JArray js) = all_of f js" "list_of string_of (strings ss) = Some ss" "all_of Some js = Some js"
proof -
  show "all_of Some js = Some js" for js :: "'x list" by (induction js) auto
  show "list_of string_of (strings ss) = Some ss"
    using all_of_map [of ss string_of JString "\<lambda>s. s"] by (simp add: list_of_def strings_def string_of_def)
qed (simp_all add: string_of_def int_of_def real_of_def bool_of_def list_of_def)

lemmas reading = field_assign req_def opt_def optional_def

lemma read_message [simp]: "read_message (message_json m) = Some m"
  by (cases m) (simp_all add: read_message_def reading)

lemma read_icon [simp]: "req ''data'' string_of (icon_json i) = Some i"
  by (simp add: icon_json_def reading)

lemma read_button_json: "read_button (button_json b) = Some (b\<lparr>on_click := None\<rparr>)"
  using read_icon by (cases b) (auto simp: read_button_def button_json_def reading split: option.splits)

lemma button_type: "req ''type'' string_of (button_json b) = Some ''button''"
  by (auto simp: button_json_def reading split: option.splits)

lemma read_action: "read_action_control (action_control_json c) = Some (without_click c)"
proof (cases c)
  case (Action_Button b)
  then show ?thesis by (simp add: read_action_control_def button_type read_button_json)
qed (simp_all add: read_action_control_def divider_json_def header_json_def label_json_def reading)

lemma read_modal: "read_modal_control (modal_control_json c) = Some c"
  by (cases c) (auto simp: read_modal_control_def divider_json_def header_json_def label_json_def reading split: option.splits)

text \<open>C30: What a form is sent as determines what the client shows: reading the JSON back gives the form without its callbacks, for
  every form, its controls, texts, options, defaults and icons included.\<close>

theorem form_json_roundtrip: "read_form (toJson f) = Some (shown f)"
proof (cases f)
  case (Action_Form t c cs s cl)
  have "all_of read_action_control (map action_control_json cs) = Some (map without_click cs)" by (intro all_of_map read_action)
  then show ?thesis using Action_Form by (simp add: read_form_def reading)
next
  case (Modal_Form t cs sb i s cl)
  have "all_of read_modal_control (map modal_control_json cs) = Some (map (\<lambda>c. c) cs)" by (rule all_of_map) (rule read_modal)
  then have cs: "all_of read_modal_control (map modal_control_json cs) = Some cs" by simp
  show ?thesis using Modal_Form cs read_icon by (auto simp: read_form_def reading split: option.splits)
qed (simp add: read_form_def reading)

subsection \<open>The forms of a player\<close>

text \<open>What a callback is given, and what is recorded: a form that is sent, the screen that is closed, a form that is taken out for its
  answer, and a callback that is called.\<close>

datatype 'f argument = No_Argument | Selection int | Data "'f json"

datatype 'f entry =
    Sent "32 word" "'f json"
  | Screen_Closed
  | Taken "32 word"
  | Called "32 word" nat "'f argument"

record 'f session =
  form_ids :: "32 word"
  forms :: "(32 word \<times> 'f form) list"
  dead :: bool
  history :: "'f entry list"

definition new_session :: "'f session" where
  "new_session = \<lparr>form_ids = 0xFFFF, forms = [], dead = False, history = []\<rparr>"

definition logged :: "'f entry \<Rightarrow> 'f session \<Rightarrow> 'f session" where
  "logged n s = s\<lparr>history := history s @ [n]\<rparr>"

text \<open>\<open>emplace\<close> leaves an entry that is there already.\<close>

definition emplace :: "'k \<Rightarrow> 'v \<Rightarrow> ('k \<times> 'v) list \<Rightarrow> ('k \<times> 'v) list" where
  "emplace k v m = (if map_of m k = None then (k, v) # m else m)"

definition sendForm :: "'f form \<Rightarrow> 'f session \<Rightarrow> 'f session" where
  "sendForm f s = (if dead s then s
     else let i = form_ids s + 1 in logged (Sent i (toJson f)) (s\<lparr>form_ids := i, forms := emplace i f (forms s)\<rparr>))"

definition closeForm :: "'f session \<Rightarrow> 'f session" where
  "closeForm s = (logged Screen_Closed s)\<lparr>forms := []\<rparr>"

datatype 'f call = Send_Form "'f form" | Close_Form | Set_Dead bool

fun perform :: "'f call \<Rightarrow> 'f session \<Rightarrow> 'f session" where
  "perform (Send_Form f) s = sendForm f s"
| "perform Close_Form s = closeForm s"
| "perform (Set_Dead b) s = s\<lparr>dead := b\<rparr>"

text \<open>A callback: what it calls, and whether it then throws.\<close>

type_synonym 'f script = "nat \<Rightarrow> 'f argument \<Rightarrow> 'f call list \<times> bool"

definition invoke :: "'f script \<Rightarrow> 32 word \<Rightarrow> nat \<Rightarrow> 'f argument \<Rightarrow> 'f session \<Rightarrow> 'f session \<times> bool" where
  "invoke script i c a s = (let (calls, throws) = script c a in (fold perform calls (logged (Called i c a) s), throws))"

definition take_form :: "32 word \<Rightarrow> 'f session \<Rightarrow> 'f session" where
  "take_form i s = logged (Taken i) (s\<lparr>forms := AList.delete i (forms s)\<rparr>)"

definition onFormClose :: "'f script \<Rightarrow> 32 word \<Rightarrow> 'f session \<Rightarrow> 'f session" where
  "onFormClose script i s = (case map_of (forms s) i of
     None \<Rightarrow> s
   | Some f \<Rightarrow> let s' = take_form i s in
       if dead s' then s' else (case on_close f of None \<Rightarrow> s' | Some c \<Rightarrow> fst (invoke script i c No_Argument s')))"

text \<open>\<open>json.get<int>()\<close> takes numbers and truth values and narrows to 32 bits; \<open>whole\<close> drops a fraction. \<open>json.get<bool>()\<close> takes truth
  values only. Anything else throws.\<close>

definition get_int :: "('f \<Rightarrow> int) \<Rightarrow> 'f json \<Rightarrow> int option" where
  "get_int whole j = (case j of
     JInt n \<Rightarrow> Some (sint (word_of_int n :: 32 word))
   | JReal r \<Rightarrow> Some (whole r)
   | JBool b \<Rightarrow> Some (if b then 1 else 0)
   | _ \<Rightarrow> None)"

text \<open>The button the loop stops at: the selected one, counting buttons only.\<close>

fun clicked :: "action_control list \<Rightarrow> int \<Rightarrow> int \<Rightarrow> button option" where
  "clicked [] n selection = None"
| "clicked (c # cs) n selection = (case c of
     Action_Button b \<Rightarrow> if n = selection then Some b else clicked cs (n + 1) selection
   | _ \<Rightarrow> clicked cs n selection)"

definition onFormResponse :: "'f script \<Rightarrow> ('f \<Rightarrow> int) \<Rightarrow> 32 word \<Rightarrow> 'f json \<Rightarrow> 'f session \<Rightarrow> 'f session" where
  "onFormResponse script whole i j s = (case map_of (forms s) i of
     None \<Rightarrow> s
   | Some f \<Rightarrow> let s' = take_form i s in
       if dead s' then s' else (case f of
         Message_Form t c b1 b2 submit cl \<Rightarrow> (case submit of
           None \<Rightarrow> s'
         | Some cb \<Rightarrow> (case bool_of j of None \<Rightarrow> s' | Some b \<Rightarrow> fst (invoke script i cb (Selection (if b then 0 else 1)) s')))
       | Action_Form t c cs submit cl \<Rightarrow> (case get_int whole j of
           None \<Rightarrow> s'
         | Some selection \<Rightarrow>
             let (s1, throws) = (case submit of None \<Rightarrow> (s', False) | Some cb \<Rightarrow> invoke script i cb (Selection selection) s') in
             if throws then s1 else (case clicked cs 0 selection of
               None \<Rightarrow> s1
             | Some b \<Rightarrow> (case on_click b of None \<Rightarrow> s1 | Some cb \<Rightarrow> fst (invoke script i cb No_Argument s1))))
       | Modal_Form t cs sb ic submit cl \<Rightarrow> (case submit of None \<Rightarrow> s' | Some cb \<Rightarrow> fst (invoke script i cb (Data j) s'))))"

text \<open>What happens to a player: calls of plugins, and messages of the client, which may be about any form at any time.\<close>

datatype 'f happening = Plugin "'f call" | Closed "32 word" | Answered "32 word" "'f json"

fun happen :: "'f script \<Rightarrow> ('f \<Rightarrow> int) \<Rightarrow> 'f happening \<Rightarrow> 'f session \<Rightarrow> 'f session" where
  "happen script whole (Plugin c) s = perform c s"
| "happen script whole (Closed i) s = onFormClose script i s"
| "happen script whole (Answered i j) s = onFormResponse script whole i j s"

subsection \<open>Every form is answered at most once\<close>

fun sent_id :: "'f entry \<Rightarrow> 32 word list" where
  "sent_id (Sent i j) = [i]"
| "sent_id _ = []"

fun taken_id :: "'f entry \<Rightarrow> 32 word list" where
  "taken_id (Taken i) = [i]"
| "taken_id _ = []"

definition sent :: "'f session \<Rightarrow> 32 word list" where "sent s = concat (map sent_id (history s))"
definition taken :: "'f session \<Rightarrow> 32 word list" where "taken s = concat (map taken_id (history s))"

lemma logged_sel [simp]:
  "sent (logged n s) = sent s @ sent_id n" "taken (logged n s) = taken s @ taken_id n"
  "forms (logged n s) = forms s" "form_ids (logged n s) = form_ids s" "dead (logged n s) = dead s"
  "sent (s\<lparr>forms := m\<rparr>) = sent s" "taken (s\<lparr>forms := m\<rparr>) = taken s" "sent (s\<lparr>form_ids := i\<rparr>) = sent s" "taken (s\<lparr>form_ids := i\<rparr>) = taken s"
  "sent (s\<lparr>dead := b\<rparr>) = sent s" "taken (s\<lparr>dead := b\<rparr>) = taken s"
  by (simp_all add: logged_def sent_def taken_def)

text \<open>The identifiers sent are the successors of \<open>0xFFFF\<close> in order; the open forms and those taken out are among them, and are
  disjoint. The space of identifiers is the bound on the number of forms.\<close>

definition capacity :: nat where "capacity = 2 ^ 32 - 2 ^ 16"

definition session_inv :: "'f session \<Rightarrow> bool" where
  "session_inv s \<longleftrightarrow> length (sent s) \<le> capacity \<longrightarrow>
     form_ids s = of_nat (0xFFFF + length (sent s)) \<and> sent s = map (\<lambda>k. of_nat (0x10000 + k)) [0..<length (sent s)] \<and>
     distinct (map fst (forms s)) \<and> fst ` set (forms s) \<subseteq> set (sent s) \<and>
     distinct (taken s) \<and> set (taken s) \<subseteq> set (sent s) \<and> set (taken s) \<inter> fst ` set (forms s) = {}"

lemma next_id_new:
  assumes "n < capacity"
  shows "(of_nat (0x10000 + n) :: 32 word) \<notin> set (map (\<lambda>k. of_nat (0x10000 + k)) [0..<n])"
proof
  assume "(of_nat (0x10000 + n) :: 32 word) \<in> set (map (\<lambda>k. of_nat (0x10000 + k)) [0..<n])"
  then obtain k where k: "k < n" "(of_nat (0x10000 + n) :: 32 word) = of_nat (0x10000 + k)" by auto
  moreover have "unat (of_nat m :: 32 word) = m" if "m < 2 ^ 32" for m using that by (simp add: unat_of_nat)
  moreover have "0x10000 + n < 2 ^ 32" "0x10000 + k < 2 ^ 32" using assms k(1) by (simp_all add: capacity_def)
  ultimately have "0x10000 + n = 0x10000 + k" by metis
  then show False using k(1) by simp
qed

lemma sendForm_inv: "session_inv s \<Longrightarrow> session_inv (sendForm f s)"
proof (cases "dead s \<or> length (sent s) \<ge> capacity")
  case True
  assume "session_inv s"
  with True show ?thesis by (auto simp: sendForm_def session_inv_def Let_def)
next
  case False
  assume inv: "session_inv s"
  let ?n = "length (sent s)"
  let ?i = "of_nat (0x10000 + ?n) :: 32 word"
  have bound: "?n < capacity" using False by simp
  have s: "form_ids s = of_nat (0xFFFF + ?n)" "sent s = map (\<lambda>k. of_nat (0x10000 + k)) [0..<?n]" "distinct (map fst (forms s))"
      "fst ` set (forms s) \<subseteq> set (sent s)" "distinct (taken s)" "set (taken s) \<subseteq> set (sent s)"
      "set (taken s) \<inter> fst ` set (forms s) = {}"
    using inv bound unfolding session_inv_def by (meson less_imp_le)+
  have i: "form_ids s + 1 = ?i" using s(1) by simp
  have new: "?i \<notin> set (sent s)" using next_id_new [OF bound] s(2) by metis
  then have none: "map_of (forms s) ?i = None" using s(4) by (auto simp: map_of_eq_None_iff)
  have e: "sendForm f s = logged (Sent ?i (toJson f)) (s\<lparr>form_ids := ?i, forms := (?i, f) # forms s\<rparr>)"
    using False i none by (simp add: sendForm_def Let_def emplace_def)
  have sent: "sent s @ [?i] = map (\<lambda>k. of_nat (0x10000 + k)) [0..<Suc ?n]" using s(2) by simp
  have "?i \<notin> fst ` set (forms s)" "?i \<notin> set (taken s)" using new s(4,6) by blast+
  then show ?thesis unfolding session_inv_def e using s(3-7) sent by (auto simp: image_iff)
qed

lemma closeForm_inv: "session_inv s \<Longrightarrow> session_inv (closeForm s)"
  by (auto simp: session_inv_def closeForm_def)

lemma perform_inv: "session_inv s \<Longrightarrow> session_inv (perform c s)"
  by (cases c) (auto simp: sendForm_inv closeForm_inv, simp add: session_inv_def)

lemma invoke_inv: "session_inv s \<Longrightarrow> session_inv (fst (invoke script i c a s))"
proof -
  assume "session_inv s"
  then have "session_inv (logged (Called i c a) s)" by (simp add: session_inv_def)
  then have "session_inv (fold perform cs (logged (Called i c a) s))" for cs
    by (induction cs arbitrary: s rule: rev_induct) (simp_all add: perform_inv)
  then show ?thesis by (simp add: invoke_def split: prod.splits)
qed

lemma take_form_inv: "session_inv s \<Longrightarrow> map_of (forms s) i = Some f \<Longrightarrow> session_inv (take_form i s)"
proof -
  assume inv: "session_inv s" and f: "map_of (forms s) i = Some f"
  have "i \<in> fst ` set (forms s)" using f by (metis domI dom_map_of_conv_image_fst)
  moreover have "fst ` set (AList.delete i (forms s)) = fst ` set (forms s) - {i}" by (simp add: AList.delete_eq) force
  ultimately show ?thesis using inv by (auto simp: session_inv_def take_form_def distinct_delete)
qed

lemma happen_inv: "session_inv s \<Longrightarrow> session_inv (happen script whole h s)"
proof (cases h)
  case (Closed i)
  assume inv: "session_inv s"
  show ?thesis using inv take_form_inv [OF inv]
    by (auto simp: Closed onFormClose_def Let_def intro!: invoke_inv split: option.splits)
next
  case (Answered i j)
  assume inv: "session_inv s"
  have two: "session_inv (fst p) \<Longrightarrow> session_inv (case p of (s1, throws) \<Rightarrow> if throws then s1 else g s1)"
    if "\<And>s. session_inv s \<Longrightarrow> session_inv (g s)" for p g by (cases p) (auto intro: that)
  show ?thesis using inv take_form_inv [OF inv]
    by (auto simp: Answered onFormResponse_def Let_def intro!: two invoke_inv split: option.splits form.splits)
qed (simp add: perform_inv)

text \<open>C31: As long as no more forms were sent than there are identifiers, no two forms have the same identifier, and a form is taken
  out for its answer at most once, whatever the client claims and whatever the callbacks do.\<close>

theorem form_answered_once:
  assumes "s = fold (happen script whole) hs new_session" "length (sent s) \<le> capacity"
  shows "distinct (sent s) \<and> distinct (taken s) \<and> set (taken s) \<subseteq> set (sent s)"
proof -
  have "session_inv (new_session :: 'a session)" by (simp add: session_inv_def new_session_def sent_def taken_def)
  then have "session_inv s" unfolding assms(1) by (induction hs rule: rev_induct) (simp_all add: happen_inv)
  then have inv: "sent s = map (\<lambda>k. of_nat (0x10000 + k)) [0..<length (sent s)]" "distinct (taken s)" "set (taken s) \<subseteq> set (sent s)"
    using assms(2) unfolding session_inv_def by blast+
  have "distinct (map (\<lambda>k. of_nat (0x10000 + k) :: 32 word) [0..<n])" if "n \<le> capacity" for n
    using that
  proof (induction n)
    case (Suc n)
    then show ?case using next_id_new [of n] by simp
  qed simp
  from this [OF assms(2)] inv show ?thesis by metis
qed

subsection \<open>The button that is clicked\<close>

fun buttons :: "action_control list \<Rightarrow> button list" where
  "buttons [] = []"
| "buttons (Action_Button b # cs) = b # buttons cs"
| "buttons (c # cs) = buttons cs"

text \<open>Labels, headers and dividers are not counted; a selection out of range clicks nothing.\<close>

lemma clicked_nth:
  "clicked cs n k = (if n \<le> k \<and> nat (k - n) < length (buttons cs) then Some (buttons cs ! nat (k - n)) else None)"
proof (induction cs arbitrary: n rule: buttons.induct)
  case (2 b cs)
  show ?case
  proof (cases "n < k")
    case True
    then have "nat (k - n) = Suc (nat (k - (n + 1)))" by simp
    then show ?thesis using True 2 by simp
  next
    case False
    then show ?thesis using 2 by auto
  qed
qed auto

lemma response_clicks:
  assumes "map_of (forms s) i = Some (Action_Form t c cs None cl)" "\<not> dead s" "k < length (buttons cs)" "k < 2 ^ 31"
    "on_click (buttons cs ! k) = Some cb"
  shows "onFormResponse script whole i (JInt (int k)) s = fst (invoke script i cb No_Argument (take_form i s))"
proof -
  have "sint (word_of_int (int k) :: 32 word) = int k"
    unfolding int_word_sint using assms(4) by simp
  then show ?thesis using assms(1-3,5) by (simp add: onFormResponse_def get_int_def clicked_nth take_form_def)
qed

text \<open>A player answers a form twice; its callback, which sends another form, is called once.\<close>

definition demo_form :: "unit form" where
  "demo_form = Action_Form (Text ''Shop'') (Text [])
     [Action_Label (Text ''Pick''), Action_Button \<lparr>button_text = Text ''Sword'', button_icon = None, on_click = Some 5\<rparr>] None None"

definition demo_script :: "unit script" where
  "demo_script c a = (if c = 5 then ([Send_Form demo_form], False) else ([], True))"

definition demo_happenings :: "unit happening list" where
  "demo_happenings = [Plugin (Send_Form demo_form), Answered 0x10000 (JInt 0), Answered 0x10000 (JInt 0)]"

lemma demo_history:
  "sent (fold (happen demo_script (\<lambda>_. 0)) demo_happenings new_session) = [0x10000, 0x10001]"
  "taken (fold (happen demo_script (\<lambda>_. 0)) demo_happenings new_session) = [0x10000]"
  by code_simp+

theorem form_answered_once_witness:
  "let s = fold (happen demo_script (\<lambda>_. 0)) demo_happenings new_session in distinct (taken s) \<and> taken s = [0x10000]"
  using form_answered_once [OF refl, of demo_script "\<lambda>_. 0" demo_happenings] demo_history
  by (simp add: capacity_def Let_def)

end
