(* ===== verification/Player_Api.thy ===== *)
theory Player_Api
  imports Forms Binary_Stream
begin

text \<open>
  The player of the plugin interface (\<open>src/endstone/core/player.cpp\<close>): permissions, abilities, experience and the packets its
  methods send, over the layered abilities (\<open>src/bedrock/world/actor/player/abilities.cpp\<close>, \<open>layered_abilities.h\<close>) and the experience
  table of the game (\<open>player.cpp\<close> of the same directory). What is sent and what is done to the permissions and commands of
  the player is recorded in order. Floating point numbers are bit patterns.
\<close>

subsection \<open>Abilities\<close>

datatype ability_index = Build | Mine | DoorsAndSwitches | OpenContainers | AttackPlayers | AttackMobs | OperatorCommands | Teleport
  | Invulnerable | Flying | MayFly | Instabuild | Lightning | FlySpeed | WalkSpeed | Muted | WorldBuilder | NoClip | PrivilegedBuilder
  | VerticalFlySpeed

datatype ability_type = Invalid | Unset | Bool_Ability | Float_Ability

text \<open>The union of a truth value and a float: the truth value is its first byte.\<close>

record ability =
  ability_type :: ability_type
  memory :: "32 word"

definition getBool :: "ability \<Rightarrow> bool" where
  "getBool a \<longleftrightarrow> memory a AND 0xFF \<noteq> 0"

definition getFloat :: "ability \<Rightarrow> 32 word" where
  "getFloat a = memory a"

definition setBool :: "bool \<Rightarrow> ability \<Rightarrow> ability" where
  "setBool b a = (let a' = (if ability_type a = Unset then \<lparr>ability_type = Bool_Ability, memory = 0\<rparr> else a) in
     a'\<lparr>memory := (memory a' AND 0xFFFFFF00) OR (if b then 1 else 0)\<rparr>)"

definition setFloat :: "32 word \<Rightarrow> ability \<Rightarrow> ability" where
  "setFloat f a = (let a' = (if ability_type a = Unset then \<lparr>ability_type = Float_Ability, memory = 0\<rparr> else a) in a'\<lparr>memory := f\<rparr>)"

type_synonym layer = "ability_index \<Rightarrow> ability"

text \<open>The layers from the base upwards; \<open>custom\<close> is the layer below the base.\<close>

record abilities =
  custom :: layer
  base :: layer
  upper :: "layer list"

text \<open>The search goes from the top layer down and ends with the lowest.\<close>

fun topmost :: "ability list \<Rightarrow> ability \<Rightarrow> ability" where
  "topmost [] lowest = lowest"
| "topmost (a # as) lowest = (if ability_type a \<noteq> Unset then a else topmost as lowest)"

definition getAbility :: "abilities \<Rightarrow> ability_index \<Rightarrow> ability" where
  "getAbility l i = topmost (map (\<lambda>f. f i) (rev (upper l)) @ [base l i]) (custom l i)"

definition setBoolAbility :: "ability_index \<Rightarrow> bool \<Rightarrow> abilities \<Rightarrow> abilities" where
  "setBoolAbility i b l = l\<lparr>base := (base l)(i := setBool b (base l i))\<rparr>"

definition setFloatAbility :: "ability_index \<Rightarrow> 32 word \<Rightarrow> abilities \<Rightarrow> abilities" where
  "setFloatAbility i f l = l\<lparr>base := (base l)(i := setFloat f (base l i))\<rparr>"

lemma getBool_setBool [simp]: "getBool (setBool b a) = b"
proof -
  have "((m AND 0xFFFFFF00) OR 1) AND 0xFF = (1 :: 32 word)" "(m AND 0xFFFFFF00) AND 0xFF = (0 :: 32 word)" for m :: "32 word"
    by (simp_all add: bit.conj_disj_distrib2 and.assoc)
  then show ?thesis by (auto simp: getBool_def setBool_def Let_def)
qed

lemma getFloat_setFloat [simp]: "getFloat (setFloat f a) = f"
  by (simp add: getFloat_def setFloat_def Let_def)

lemma set_not_unset [simp]: "ability_type (setBool b a) \<noteq> Unset" "ability_type (setFloat f a) \<noteq> Unset"
  by (auto simp: setBool_def setFloat_def Let_def)

text \<open>An ability that no layer above the base sets.\<close>

definition uncovered :: "abilities \<Rightarrow> ability_index \<Rightarrow> bool" where
  "uncovered l i \<longleftrightarrow> (\<forall>f \<in> set (upper l). ability_type (f i) = Unset)"

lemma topmost_skip: "\<forall>a \<in> set as. ability_type a = Unset \<Longrightarrow> topmost (as @ bs) c = topmost bs c"
  by (induction as) auto

lemma getAbility_uncovered: "uncovered l i \<Longrightarrow> getAbility l i = (if ability_type (base l i) \<noteq> Unset then base l i else custom l i)"
  by (simp add: getAbility_def uncovered_def topmost_skip)

lemma uncovered_set [simp]:
  "uncovered (setBoolAbility j b l) i = uncovered l i" "uncovered (setFloatAbility j f l) i = uncovered l i"
  by (simp_all add: uncovered_def setBoolAbility_def setFloatAbility_def)

lemma getAbility_set [simp]:
  "uncovered l i \<Longrightarrow> getAbility (setBoolAbility i b l) i = setBool b (base l i)"
  "uncovered l i \<Longrightarrow> getAbility (setFloatAbility i f l) i = setFloat f (base l i)"
  "j \<noteq> i \<Longrightarrow> getAbility (setBoolAbility j b l) i = getAbility l i"
  "j \<noteq> i \<Longrightarrow> getAbility (setFloatAbility j f l) i = getAbility l i"
  by (simp_all add: getAbility_uncovered) (simp_all add: getAbility_def setBoolAbility_def setFloatAbility_def)

subsection \<open>Experience\<close>

function xp_loop :: "int \<Rightarrow> int \<Rightarrow> int \<Rightarrow> int" where
  "xp_loop xp current final = (if current < final then
     xp_loop (if current > 30 then xp + (9 * current - 138) else if current > 15 then xp + (5 * current - 38) else xp + (2 * current + 7))
       (current + 1) final
   else xp)"
  by pat_completeness auto
termination
  by (relation "measure (\<lambda>(xp, current, final). nat (final - current))") auto

declare xp_loop.simps [simp del]

definition getXpNeededForLevelRange :: "int \<Rightarrow> int \<Rightarrow> int" where
  "getXpNeededForLevelRange start final = xp_loop 0 start final"

text \<open>Specification: the experience at the beginning of a level, twice over to stay within integers.\<close>

definition xp_at :: "int \<Rightarrow> int" where
  "xp_at n = (if n \<le> 16 then 2 * n ^ 2 + 12 * n else if n \<le> 31 then 5 * n ^ 2 - 81 * n + 720 else 9 * n ^ 2 - 285 * n + 3200)"

lemma xp_at_step:
  "xp_at (n + 1) - xp_at n = 2 * (if n > 30 then 9 * n - 138 else if n > 15 then 5 * n - 38 else 2 * n + 7)"
proof -
  consider "n \<le> 15" | "n = 16" | "17 \<le> n" "n \<le> 30" | "n = 31" | "32 \<le> n" by linarith
  then show ?thesis by cases (auto simp: xp_at_def power2_eq_square algebra_simps)
qed

lemma xp_loop_eq: "start \<le> final \<Longrightarrow> 2 * xp_loop xp start final = 2 * xp + xp_at final - xp_at start"
proof (induction xp start final rule: xp_loop.induct)
  case (1 xp start final)
  show ?case
  proof (cases "start < final")
    case True
    with 1 xp_at_step [of start] show ?thesis by (simp add: xp_loop.simps [of xp start final] split: if_splits)
  next
    case False
    with "1.prems" show ?thesis by (subst xp_loop.simps) simp
  qed
qed

lemma xp_closed_form_eq: "start \<le> final \<Longrightarrow> 2 * getXpNeededForLevelRange start final = xp_at final - xp_at start"
  using xp_loop_eq [of start final 0] by (simp add: getXpNeededForLevelRange_def)

text \<open>The experience between two levels is the difference of a polynomial in three pieces, and so adds up over ranges.\<close>

theorem xp_closed_form:
  assumes "start \<le> final"
  shows "2 * getXpNeededForLevelRange start final = xp_at final - xp_at start"
  by (rule xp_closed_form_eq [OF assms])

theorem xp_closed_form_witness: "getXpNeededForLevelRange 0 32 = 1648 \<and> xp_at 32 - xp_at 0 = 3296"
  using xp_closed_form [of 0 32] by (simp add: xp_at_def)

lemma xp_nonneg: "0 \<le> start \<Longrightarrow> 0 \<le> getXpNeededForLevelRange start final"
proof -
  have "0 \<le> xp \<Longrightarrow> 0 \<le> start \<Longrightarrow> 0 \<le> xp_loop xp start final" for xp
    by (induction xp start final rule: xp_loop.induct) (subst xp_loop.simps, auto)
  then show "0 \<le> start \<Longrightarrow> 0 \<le> getXpNeededForLevelRange start final" by (simp add: getXpNeededForLevelRange_def)
qed

subsection \<open>The player\<close>

datatype command_permission = Any | GameDirectors | Admin | Host | Owner | Internal

primrec level_of :: "command_permission \<Rightarrow> nat" where
  "level_of Any = 0"
| "level_of GameDirectors = 1"
| "level_of Admin = 2"
| "level_of Host = 3"
| "level_of Owner = 4"
| "level_of Internal = 5"

datatype title_type = Main_Title | Subtitle

text \<open>The packets the methods send to their player. \<open>Payload\<close> is a packet given as bytes.\<close>

datatype 'f client_packet =
    Raw_Text string
  | Text_Object "'f json"
  | Popup string
  | Tip string
  | Toast string string
  | Set_Title title_type string int int int
  | Reset_Title
  | Transfer string int
  | Play_Sound string "int \<times> int \<times> int" "32 word" "32 word"
  | Stop_Sound string
  | Stop_All_Sounds
  | Update_Abilities abilities
  | Payload int bytes

text \<open>What is done: a packet that is sent, and the refreshing of permissions and commands (with the status it is done under).\<close>

datatype 'f effect = Sends "'f client_packet" | Recalculated | Commands_Updated bool

datatype api_error = Invalid_Argument

record 'f player =
  permission :: command_permission
  last_op_status :: bool
  abilities :: abilities
  exp_level :: int
  exp_progress :: "32 word"
  movement_default :: "32 word"
  effects :: "'f effect list"

definition effect :: "'f effect \<Rightarrow> 'f player \<Rightarrow> 'f player" where
  "effect e p = p\<lparr>effects := effects p @ [e]\<rparr>"

definition send :: "'f client_packet \<Rightarrow> 'f player \<Rightarrow> 'f player" where
  "send pk p = effect (Sends pk) p"

subsection \<open>Operators\<close>

definition isOp :: "'f player \<Rightarrow> bool" where
  "isOp p \<longleftrightarrow> level_of (permission p) > level_of Any"

datatype permission_level = Operator_Level | Default_Level

definition getPermissionLevel :: "'f player \<Rightarrow> permission_level" where
  "getPermissionLevel p = (if isOp p then Operator_Level else Default_Level)"

definition recalculatePermissions :: "'f player \<Rightarrow> 'f player" where
  "recalculatePermissions p = effect Recalculated p"

definition updateCommands :: "'f player \<Rightarrow> 'f player" where
  "updateCommands p = effect (Commands_Updated (isOp p)) p"

definition setOp :: "bool \<Rightarrow> 'f player \<Rightarrow> 'f player" where
  "setOp v p = (if v = isOp p then p
     else (updateCommands (recalculatePermissions (p\<lparr>permission := if v then Admin else Any\<rparr>)))\<lparr>last_op_status := v\<rparr>)"

definition checkOpStatus :: "'f player \<Rightarrow> 'f player" where
  "checkOpStatus p = (if last_op_status p \<noteq> isOp p
     then (updateCommands (recalculatePermissions p))\<lparr>last_op_status := isOp p\<rparr> else p)"

text \<open>The status the commands of the client were last computed under.\<close>

fun told :: "'f effect list \<Rightarrow> bool option" where
  "told [] = None"
| "told (e # es) = (case told es of Some b \<Rightarrow> Some b | None \<Rightarrow> (case e of Commands_Updated b \<Rightarrow> Some b | _ \<Rightarrow> None))"

lemma told_app: "told (xs @ ys) = (case told ys of Some b \<Rightarrow> Some b | None \<Rightarrow> told xs)"
  by (induction xs) (auto split: option.splits)

text \<open>Calls and what the game does on its own: a level set by the game's own commands, and the check of every tick.\<close>

datatype op_step = Set_Op bool | Game_Sets command_permission | Check

fun do_op :: "op_step \<Rightarrow> 'f player \<Rightarrow> 'f player" where
  "do_op (Set_Op v) p = setOp v p"
| "do_op (Game_Sets c) p = p\<lparr>permission := c\<rparr>"
| "do_op Check p = checkOpStatus p"

lemmas op_defs = setOp_def checkOpStatus_def updateCommands_def recalculatePermissions_def effect_def isOp_def told_app

lemma op_step_told: "told (effects p) = Some (last_op_status p) \<Longrightarrow> told (effects (do_op c p)) = Some (last_op_status (do_op c p))"
  by (cases c) (simp_all add: op_defs)

text \<open>From the first time the commands of a player are computed under the status on record, whatever plugins and the game do to
  the status, after the check of a tick the client has the commands of the present status.\<close>

theorem op_status_told:
  assumes "told (effects p) = Some (last_op_status p)"
  shows "told (effects (checkOpStatus (fold do_op cs p))) = Some (isOp (checkOpStatus (fold do_op cs p)))"
proof -
  have "told (effects (fold do_op cs p)) = Some (last_op_status (fold do_op cs p))"
    using assms by (induction cs arbitrary: p) (simp_all add: op_step_told)
  then show ?thesis by (simp add: op_defs)
qed

text \<open>A player created before the game grants the status, whose first commands are computed while it holds, and who has lost it
  again by the next check, keeps the commands of an operator.\<close>

lemma op_status_stale:
  assumes "last_op_status p = False" "permission p = Any"
  shows "told (effects (checkOpStatus (do_op (Game_Sets Any) (updateCommands (do_op (Game_Sets Admin) p))))) = Some True"
  using assms by (simp add: op_defs)

subsection \<open>Flight and speed\<close>

definition updateAbilities :: "'f player \<Rightarrow> 'f player" where
  "updateAbilities p = send (Update_Abilities (abilities p)) p"

definition isFlying :: "'f player \<Rightarrow> bool" where
  "isFlying p = getBool (getAbility (abilities p) Flying)"

definition getAllowFlight :: "'f player \<Rightarrow> bool" where
  "getAllowFlight p = getBool (getAbility (abilities p) MayFly)"

definition set_bool :: "ability_index \<Rightarrow> bool \<Rightarrow> 'f player \<Rightarrow> 'f player" where
  "set_bool i b p = p\<lparr>abilities := setBoolAbility i b (abilities p)\<rparr>"

definition set_float :: "ability_index \<Rightarrow> 32 word \<Rightarrow> 'f player \<Rightarrow> 'f player" where
  "set_float i f p = p\<lparr>abilities := setFloatAbility i f (abilities p)\<rparr>"

definition setAllowFlight :: "bool \<Rightarrow> 'f player \<Rightarrow> 'f player" where
  "setAllowFlight flight p = (let p' = (if isFlying p \<and> \<not> flight then set_bool Flying False p else p) in
     updateAbilities (set_bool MayFly flight p'))"

definition setFlying :: "bool \<Rightarrow> 'f player \<Rightarrow> api_error + 'f player" where
  "setFlying v p = (if \<not> getAllowFlight p \<and> v then Inl Invalid_Argument else Inr (updateAbilities (set_bool Flying v p)))"

definition getFlySpeed :: "'f player \<Rightarrow> 32 word" where
  "getFlySpeed p = getFloat (getAbility (abilities p) FlySpeed)"

definition setFlySpeed :: "32 word \<Rightarrow> 'f player \<Rightarrow> 'f player" where
  "setFlySpeed v p = updateAbilities (set_float FlySpeed v p)"

definition getWalkSpeed :: "'f player \<Rightarrow> 32 word" where
  "getWalkSpeed p = getFloat (getAbility (abilities p) WalkSpeed)"

definition setWalkSpeed :: "32 word \<Rightarrow> 'f player \<Rightarrow> 'f player" where
  "setWalkSpeed v p = (let p' = updateAbilities (set_float WalkSpeed v p) in p'\<lparr>movement_default := getWalkSpeed p'\<rparr>)"

datatype flight_call = Set_Allow_Flight bool | Set_Flying bool | Set_Fly_Speed "32 word" | Set_Walk_Speed "32 word"

text \<open>A call that throws leaves the player as it is.\<close>

fun do_flight :: "flight_call \<Rightarrow> 'f player \<Rightarrow> 'f player" where
  "do_flight (Set_Allow_Flight b) p = setAllowFlight b p"
| "do_flight (Set_Flying b) p = (case setFlying b p of Inl e \<Rightarrow> p | Inr p' \<Rightarrow> p')"
| "do_flight (Set_Fly_Speed v) p = setFlySpeed v p"
| "do_flight (Set_Walk_Speed v) p = setWalkSpeed v p"

definition flight_uncovered :: "'f player \<Rightarrow> bool" where
  "flight_uncovered p \<longleftrightarrow> uncovered (abilities p) Flying \<and> uncovered (abilities p) MayFly"

lemmas flight_defs = setAllowFlight_def setFlying_def setFlySpeed_def setWalkSpeed_def updateAbilities_def send_def effect_def
  set_bool_def set_float_def isFlying_def getAllowFlight_def Let_def

lemma flight_call_keeps:
  "flight_uncovered p \<Longrightarrow> isFlying p \<longrightarrow> getAllowFlight p \<Longrightarrow>
    flight_uncovered (do_flight c p) \<and> (isFlying (do_flight c p) \<longrightarrow> getAllowFlight (do_flight c p))"
  by (cases c) (auto simp: flight_defs flight_uncovered_def)

text \<open>As long as no layer above the base decides over flying, no sequence of calls makes a player fly who may not: taking the
  permission away ends the flight, and taking off without permission is refused.\<close>

theorem flight_needs_permission:
  assumes "flight_uncovered p" "isFlying p \<longrightarrow> getAllowFlight p"
  shows "isFlying (fold do_flight cs p) \<longrightarrow> getAllowFlight (fold do_flight cs p)"
  using assms by (induction cs arbitrary: p) (simp_all add: flight_call_keeps)

lemma setFlying_result:
  "flight_uncovered p \<Longrightarrow> setFlying v p = Inr p' \<Longrightarrow> isFlying p' = v \<and> (\<exists>es. effects p' = es @ [Sends (Update_Abilities (abilities p'))])"
  by (auto simp: flight_defs flight_uncovered_def split: if_splits)

lemma setAllowFlight_result:
  "flight_uncovered p \<Longrightarrow> getAllowFlight (setAllowFlight b p) = b \<and> (\<not> b \<longrightarrow> \<not> isFlying (setAllowFlight b p))"
  by (auto simp: flight_defs flight_uncovered_def)

lemma setWalkSpeed_result:
  "uncovered (abilities p) WalkSpeed \<Longrightarrow> getWalkSpeed (setWalkSpeed v p) = v \<and> movement_default (setWalkSpeed v p) = v"
  by (simp add: flight_defs getWalkSpeed_def)

text \<open>Where a layer above decides, the call has no effect: such a player stays in the air without the permission.\<close>

lemma covered_flight:
  assumes "upper (abilities p) = [f]" "ability_type (f Flying) = Bool_Ability" "getBool (f Flying)" "ability_type (f MayFly) = Unset"
  shows "isFlying (setAllowFlight False p) \<and> \<not> getAllowFlight (setAllowFlight False p)"
  using assms by (simp add: flight_defs getAbility_def setBoolAbility_def)

subsection \<open>Experience of a player\<close>

text \<open>\<open>addLevels\<close> and \<open>addExperience\<close> are code of the game; the former changes the level by its argument as long as the result is not
  negative.\<close>

definition giveExpLevels :: "(int \<Rightarrow> int \<Rightarrow> int) \<Rightarrow> int \<Rightarrow> 'f player \<Rightarrow> 'f player" where
  "giveExpLevels addLevels amount p = p\<lparr>exp_level := addLevels amount (exp_level p)\<rparr>"

definition setExpLevel :: "(int \<Rightarrow> int \<Rightarrow> int) \<Rightarrow> int \<Rightarrow> 'f player \<Rightarrow> api_error + 'f player" where
  "setExpLevel addLevels l p = (if l < 0 then Inl Invalid_Argument else Inr (giveExpLevels addLevels (l - exp_level p) p))"

text \<open>A float between 0 and 1 by its bits: those of 1 and below, and minus zero.\<close>

definition unit_interval :: "32 word \<Rightarrow> bool" where
  "unit_interval f \<longleftrightarrow> f \<le> 0x3F800000 \<or> f = 0x80000000"

definition setExpProgress :: "32 word \<Rightarrow> 'f player \<Rightarrow> api_error + 'f player" where
  "setExpProgress f p = (if \<not> unit_interval f then Inl Invalid_Argument else Inr (p\<lparr>exp_progress := f\<rparr>))"

text \<open>\<open>scaled f n\<close> is \<open>std::round(f * n)\<close>.\<close>

definition getTotalExp :: "(32 word \<Rightarrow> int \<Rightarrow> int) \<Rightarrow> 'f player \<Rightarrow> int" where
  "getTotalExp scaled p = getXpNeededForLevelRange 0 (exp_level p) +
     scaled (exp_progress p) (getXpNeededForLevelRange (exp_level p) (exp_level p + 1))"

definition scaled_law :: "(32 word \<Rightarrow> int \<Rightarrow> int) \<Rightarrow> bool" where
  "scaled_law scaled \<longleftrightarrow> (\<forall>f n. unit_interval f \<and> 0 \<le> n \<longrightarrow> 0 \<le> scaled f n \<and> scaled f n \<le> n)"

text \<open>The total experience of a player lies within the level the player has: between what the level and what the next one need.\<close>

theorem total_exp_bounds:
  assumes "scaled_law scaled" "0 \<le> exp_level p" "setExpProgress f p = Inr p'"
  shows "getXpNeededForLevelRange 0 (exp_level p) \<le> getTotalExp scaled p' \<and>
    getTotalExp scaled p' \<le> getXpNeededForLevelRange 0 (exp_level p + 1)"
proof -
  let ?n = "getXpNeededForLevelRange (exp_level p) (exp_level p + 1)"
  have p': "p' = p\<lparr>exp_progress := f\<rparr>" "unit_interval f" using assms(3) by (auto simp: setExpProgress_def split: if_splits)
  then have s: "0 \<le> scaled f ?n" "scaled f ?n \<le> ?n" using assms(1) xp_nonneg [OF assms(2)] by (auto simp: scaled_law_def)
  have "2 * getXpNeededForLevelRange 0 (exp_level p + 1) = 2 * getXpNeededForLevelRange 0 (exp_level p) + 2 * ?n"
    using assms(2) by (simp add: xp_closed_form_eq)
  then show ?thesis using s p' by (simp add: getTotalExp_def)
qed

lemma setExpLevel_result:
  "(\<And>n m. 0 \<le> n + m \<Longrightarrow> addLevels n m = n + m) \<Longrightarrow> setExpLevel addLevels l p = Inr p' \<Longrightarrow> exp_level p' = l"
  by (auto simp: setExpLevel_def giveExpLevels_def split: if_splits)

subsection \<open>Messages and other packets\<close>

definition RED :: string where "RED = [char_of (0xC2 :: nat), char_of (0xA7 :: nat), CHR ''c'']"

primrec empty_message :: "message \<Rightarrow> bool" where
  "empty_message (Text t) = (t = [])"
| "empty_message (Translatable t ps) = (t = [])"

primrec message_packet :: "message \<Rightarrow> 'f client_packet" where
  "message_packet (Text t) = Raw_Text t"
| "message_packet (Translatable t ps) = Text_Object (assign [(''rawtext'', JArray [assign ([(''translate'', JString t)] @
     (if ps \<noteq> [] then [(''with'', assign [(''rawtext'', JArray (map (\<lambda>q. assign [(''text'', JString q)]) ps))])] else []))])])"

definition sendMessage :: "message \<Rightarrow> 'f player \<Rightarrow> api_error + 'f player" where
  "sendMessage m p = (if empty_message m then Inl Invalid_Argument else Inr (send (message_packet m) p))"

primrec sendErrorMessage :: "message \<Rightarrow> 'f player \<Rightarrow> api_error + 'f player" where
  "sendErrorMessage (Text t) p = sendMessage (Text (RED @ t)) p"
| "sendErrorMessage (Translatable t ps) p = sendMessage (Translatable (RED @ ''%'' @ t) ps) p"

lemma sendErrorMessage_total: "\<exists>pk. sendErrorMessage m p = Inr (send pk p)"
  by (cases m) (auto simp: sendMessage_def RED_def)

definition sendPopup :: "string \<Rightarrow> 'f player \<Rightarrow> 'f player" where "sendPopup m p = send (Popup m) p"
definition sendTip :: "string \<Rightarrow> 'f player \<Rightarrow> 'f player" where "sendTip m p = send (Tip m) p"
definition sendToast :: "string \<Rightarrow> string \<Rightarrow> 'f player \<Rightarrow> 'f player" where "sendToast t c p = send (Toast t c) p"
definition resetTitle :: "'f player \<Rightarrow> 'f player" where "resetTitle p = send Reset_Title p"
definition transfer :: "string \<Rightarrow> int \<Rightarrow> 'f player \<Rightarrow> 'f player" where "transfer host port p = send (Transfer host port) p"
definition stopSound :: "string \<Rightarrow> 'f player \<Rightarrow> 'f player" where "stopSound s p = send (Stop_Sound s) p"
definition stopAllSounds :: "'f player \<Rightarrow> 'f player" where "stopAllSounds p = send Stop_All_Sounds p"

text \<open>The position of a sound is cut to whole numbers by \<open>to_int\<close>.\<close>

definition playSound :: "(32 word \<Rightarrow> int) \<Rightarrow> 32 word \<times> 32 word \<times> 32 word \<Rightarrow> string \<Rightarrow> 32 word \<Rightarrow> 32 word \<Rightarrow> 'f player \<Rightarrow> 'f player" where
  "playSound to_int loc s volume pitch p = (case loc of (x, y, z) \<Rightarrow> send (Play_Sound s (to_int x, to_int y, to_int z) volume pitch) p)"

definition sendTitleTimes :: "string \<Rightarrow> string \<Rightarrow> int \<Rightarrow> int \<Rightarrow> int \<Rightarrow> 'f player \<Rightarrow> 'f player" where
  "sendTitleTimes t s fade_in stay fade_out p =
     send (Set_Title Subtitle s fade_in stay fade_out) (send (Set_Title Main_Title t fade_in stay fade_out) p)"

definition sendTitle :: "string \<Rightarrow> string \<Rightarrow> 'f player \<Rightarrow> 'f player" where
  "sendTitle t s p = sendTitleTimes t s 10 70 20 p"

text \<open>The bytes of a particle packet: dimension, the player's own identifier, position, name, and the variables if there are any.\<close>

definition particle_bytes :: "byte \<Rightarrow> bytes \<Rightarrow> 32 word \<Rightarrow> 32 word \<Rightarrow> 32 word \<Rightarrow> bytes option \<Rightarrow> bytes" where
  "particle_bytes dim name x y z vars = getBuffer (
     (case vars of Some v \<Rightarrow> writeString v | None \<Rightarrow> (\<lambda>s. s)) (writeBool (vars \<noteq> None) (writeString name
       (writeFloat z (writeFloat y (writeFloat x (writeVarInt64 (- 1) (writeByte dim BinaryStream))))))))"

definition spawnParticle :: "byte \<Rightarrow> bytes \<Rightarrow> 32 word \<Rightarrow> 32 word \<Rightarrow> 32 word \<Rightarrow> bytes option \<Rightarrow> 'f player \<Rightarrow> 'f player" where
  "spawnParticle dim name x y z vars p = send (Payload 118 (particle_bytes dim name x y z vars)) p"

text \<open>The layout: the identifier -1 is one byte, and a name is preceded by its length.\<close>

lemma particle_layout:
  "particle_bytes dim name x y z vars = [dim, 1] @ le_bytes 4 x @ le_bytes 4 y @ le_bytes 4 z @ varint_bytes (of_nat (length name) :: 32 word) @ name @
     (case vars of None \<Rightarrow> [0] | Some v \<Rightarrow> [1] @ varint_bytes (of_nat (length v) :: 32 word) @ v)"
proof -
  have "varint_bytes (1 :: 64 word) = [1]" by (subst varint_bytes.simps) (simp add: Let_def)
  then show ?thesis
    by (cases vars) (simp_all add: particle_bytes_def stream_writes getBuffer_def write_data_eq BinaryStream_def)
qed

subsection \<open>Examples\<close>

definition demo_player :: "unit player" where
  "demo_player = \<lparr>permission = Any, last_op_status = False,
     abilities = \<lparr>custom = (\<lambda>_. \<lparr>ability_type = Unset, memory = 0\<rparr>), base = (\<lambda>_. \<lparr>ability_type = Bool_Ability, memory = 0\<rparr>),
       upper = replicate 4 (\<lambda>_. \<lparr>ability_type = Unset, memory = 0\<rparr>)\<rparr>,
     exp_level = 4, exp_progress = 0, movement_default = 0, effects = [Commands_Updated False]\<rparr>"

theorem op_status_told_witness:
  "told (effects (checkOpStatus (fold do_op [Set_Op True, Game_Sets Any] demo_player))) = Some False"
proof -
  have "told (effects demo_player) = Some (last_op_status demo_player)" by (simp add: demo_player_def)
  from op_status_told [OF this, of "[Set_Op True, Game_Sets Any]"] show ?thesis by (simp add: op_defs demo_player_def)
qed

theorem flight_needs_permission_witness:
  "\<not> isFlying demo_player \<and> (isFlying (fold do_flight [Set_Allow_Flight True, Set_Flying True] demo_player) \<longrightarrow>
     getAllowFlight (fold do_flight [Set_Allow_Flight True, Set_Flying True] demo_player))"
proof -
  have d: "flight_uncovered demo_player" "\<not> isFlying demo_player"
    by (simp_all add: flight_uncovered_def uncovered_def demo_player_def isFlying_def getAbility_def getBool_def topmost_skip)
  from flight_needs_permission [OF d(1), of "[Set_Allow_Flight True, Set_Flying True]"] d(2) show ?thesis by simp
qed

theorem total_exp_bounds_witness:
  "getXpNeededForLevelRange 0 4 \<le> getTotalExp (\<lambda>f n. if f = 0 then 0 else n) (demo_player\<lparr>exp_progress := 0x3F800000\<rparr>)"
proof -
  have "scaled_law (\<lambda>f n. if f = 0 then 0 else n)" by (simp add: scaled_law_def)
  moreover have "setExpProgress 0x3F800000 demo_player = Inr (demo_player\<lparr>exp_progress := 0x3F800000\<rparr>)"
    by (simp add: setExpProgress_def unit_interval_def)
  ultimately show ?thesis using total_exp_bounds [of "\<lambda>f n. if f = 0 then 0 else n" demo_player] by (auto simp: demo_player_def)
qed

end
