(* ===== verification/Movement.thy ===== *)
theory Movement
  imports Prelude
begin

text \<open>
  How a player moves: the hooks of \<open>teleportTo\<close> (\<open>src/endstone/runtime/bedrock_hooks/player.cpp\<close> and \<open>actor.cpp\<close>), \<open>teleport\<close> of the
  plugin interface and the handling of the client's input (\<open>src/endstone/core/player.cpp\<close>). The hook of the player's
  function suppresses the one of the actor's function below it, and a flag on the player suppresses the event of the next teleport.
  Coordinates are of any type \<open>'v\<close>; what the code asks of them is in \<open>geometry\<close>. Whether the game's function goes through the
  actor's one is the parameter \<open>via\<close>, and the listeners' answers are \<open>listeners\<close>.
\<close>

subsection \<open>Teleports\<close>

record 'v location =
  dim :: int
  pos :: 'v
  rot :: 'v

text \<open>What happens, in order. \<open>suppression\<close> is the depth that \<open>ScopedPlayerTeleportFallbackSuppression\<close> keeps for the thread; the mover is the
  one being teleported on it, and has the thread to itself.\<close>

datatype 'v happening =
    Teleport_Event "'v location" "'v location"
  | Actor_Teleport_Event "'v location" "'v location"
  | Jump_Event "'v location" "'v location"
  | Move_Event "'v location" "'v location"
  | Interact_Event 'v
  | Moved 'v
  | Dimension_Requested "'v location"
  | Movement_Corrected 'v

record 'v mover =
  here :: "'v location"
  is_player :: bool
  alive :: bool
  internal_teleport :: bool
  suppression :: nat
  log :: "'v happening list"

text \<open>\<open>None\<close> cancels; otherwise the place the event ends with.\<close>

record 'v listeners =
  on_teleport :: "'v location \<Rightarrow> 'v location \<Rightarrow> 'v location option"
  on_jump :: "'v location \<Rightarrow> 'v location \<Rightarrow> bool"
  on_move :: "'v location \<Rightarrow> 'v location \<Rightarrow> 'v location option"
  on_interact :: "'v \<Rightarrow> bool"

definition happens :: "'v happening \<Rightarrow> 'v mover \<Rightarrow> 'v mover" where
  "happens h p = p\<lparr>log := log p @ [h]\<rparr>"

text \<open>The game's own move.\<close>

definition move_to :: "'v \<Rightarrow> 'v mover \<Rightarrow> 'v mover" where
  "move_to v p = happens (Moved v) (p\<lparr>here := (here p)\<lparr>pos := v\<rparr>\<rparr>)"

text \<open>The hook of \<open>Actor::teleportTo\<close>.\<close>

definition actor_teleportTo :: "'v listeners \<Rightarrow> 'v \<Rightarrow> 'v mover \<Rightarrow> 'v mover" where
  "actor_teleportTo ls v p = (let to = (here p)\<lparr>pos := v\<rparr> in
     if is_player p \<and> suppression p = 0 then (case on_teleport ls (here p) to of
         None \<Rightarrow> happens (Teleport_Event (here p) to) p
       | Some t \<Rightarrow> move_to (pos t) (happens (Teleport_Event (here p) to) p))
     else if \<not> is_player p then (case on_teleport ls (here p) to of
         None \<Rightarrow> happens (Actor_Teleport_Event (here p) to) p
       | Some t \<Rightarrow> move_to (pos t) (happens (Actor_Teleport_Event (here p) to) p))
     else move_to v p)"

text \<open>\<open>ScopedPlayerTeleportFallbackSuppression\<close> around the original function.\<close>

definition suppressed :: "('v mover \<Rightarrow> 'v mover) \<Rightarrow> 'v mover \<Rightarrow> 'v mover" where
  "suppressed f p = (let q = f (p\<lparr>suppression := suppression p + 1\<rparr>) in q\<lparr>suppression := suppression q - 1\<rparr>)"

definition original_teleportTo :: "'v listeners \<Rightarrow> bool \<Rightarrow> 'v \<Rightarrow> 'v mover \<Rightarrow> 'v mover" where
  "original_teleportTo ls via v p = (if via then actor_teleportTo ls v p else move_to v p)"

text \<open>The hook of \<open>Player::teleportTo\<close>.\<close>

definition player_teleportTo :: "'v listeners \<Rightarrow> bool \<Rightarrow> 'v \<Rightarrow> 'v mover \<Rightarrow> 'v mover" where
  "player_teleportTo ls via v p =
     (if internal_teleport p then suppressed (original_teleportTo ls via v) (p\<lparr>internal_teleport := False\<rparr>)
      else let to = (here p)\<lparr>pos := v\<rparr>; q = happens (Teleport_Event (here p) to) p in
        case on_teleport ls (here p) to of
          None \<Rightarrow> q
        | Some t \<Rightarrow> suppressed (original_teleportTo ls via (pos t)) q)"

text \<open>\<open>EndstonePlayer::teleport\<close>: the rotation is set first, and another dimension is asked for.\<close>

definition teleport :: "'v listeners \<Rightarrow> bool \<Rightarrow> 'v location \<Rightarrow> 'v mover \<Rightarrow> 'v mover \<times> bool" where
  "teleport ls via to p = (if \<not> alive p then (p, False)
     else let p1 = p\<lparr>here := (here p)\<lparr>rot := rot to\<rparr>\<rparr> in
       (if dim to \<noteq> dim (here p) then happens (Dimension_Requested to) p1 else player_teleportTo ls via (pos to) p1, True))"

definition internal_teleportTo :: "'v listeners \<Rightarrow> bool \<Rightarrow> 'v location \<Rightarrow> 'v mover \<Rightarrow> 'v mover" where
  "internal_teleportTo ls via to p = fst (teleport ls via to (p\<lparr>internal_teleport := True\<rparr>))"

subsection \<open>The client's input\<close>

text \<open>What the comparisons of coordinates answer, from the place a player is to the place it asks for.\<close>

record 'v geometry =
  rises :: "'v location \<Rightarrow> 'v location \<Rightarrow> bool"
  far :: "'v location \<Rightarrow> 'v location \<Rightarrow> bool"
  turns :: "'v location \<Rightarrow> 'v location \<Rightarrow> bool"
  same :: "'v location \<Rightarrow> 'v location \<Rightarrow> bool"

datatype block_action = Start_Destroy | Other_Action

record 'v input =
  actions :: "(block_action \<times> 'v) list"
  target :: "'v location"
  jumping :: bool
  on_ground :: bool

text \<open>Starting to destroy a block is an interaction; a cancelled one is erased from the packet.\<close>

fun filter_actions :: "'v listeners \<Rightarrow> (block_action \<times> 'v) list \<Rightarrow> 'v mover \<Rightarrow> (block_action \<times> 'v) list \<times> 'v mover" where
  "filter_actions ls [] p = ([], p)"
| "filter_actions ls ((a, v) # as) p = (if a = Start_Destroy then
       let (as', p') = filter_actions ls as (happens (Interact_Event v) p) in
         (if on_interact ls v then as' else (a, v) # as', p')
     else let (as', p') = filter_actions ls as p in ((a, v) # as', p'))"

definition handle_move :: "'v listeners \<Rightarrow> bool \<Rightarrow> 'v geometry \<Rightarrow> 'v location \<Rightarrow> 'v mover \<Rightarrow> 'v mover \<times> bool" where
  "handle_move ls via g to p = (let from = here p in
     if far g from to then
       let q = happens (Move_Event from to) p in
       (case on_move ls from to of
         None \<Rightarrow> if turns g from to then (internal_teleportTo ls via from q, False)
           else (happens (Movement_Corrected (pos from)) q, False)
       | Some t \<Rightarrow> if \<not> same g to t then (internal_teleportTo ls via t q, False) else (q, True))
     else (p, True))"

text \<open>The input packet as it goes on to the game, the player, and whether it goes on at all.\<close>

definition handle_input :: "'v listeners \<Rightarrow> bool \<Rightarrow> 'v geometry \<Rightarrow> 'v input \<Rightarrow> 'v mover \<Rightarrow> 'v input \<times> 'v mover \<times> bool" where
  "handle_input ls via g i p = (let (as, p1) = filter_actions ls (actions i) p; from = here p1; to = target i; i' = i\<lparr>actions := as\<rparr> in
     if jumping i \<and> on_ground i \<and> rises g from to then
       let p2 = happens (Jump_Event from to) p1 in
       if on_jump ls from to then (i', internal_teleportTo ls via from p2, False)
       else (i', handle_move ls via g to p2)
     else (i', handle_move ls via g to p1))"

subsection \<open>One event for a teleport\<close>

definition teleport_events :: "'v mover \<Rightarrow> nat" where
  "teleport_events p = length (filter (\<lambda>h. case h of Teleport_Event a b \<Rightarrow> True | _ \<Rightarrow> False) (log p))"

lemma happens_sel [simp]:
  "here (happens h p) = here p" "alive (happens h p) = alive p" "is_player (happens h p) = is_player p"
  "internal_teleport (happens h p) = internal_teleport p" "suppression (happens h p) = suppression p"
  "teleport_events (happens h p) = teleport_events p + (case h of Teleport_Event a b \<Rightarrow> 1 | _ \<Rightarrow> 0)"
  by (simp_all add: happens_def teleport_events_def split: happening.splits)

lemma teleport_events_sel [simp]:
  "teleport_events (p\<lparr>here := l\<rparr>) = teleport_events p" "teleport_events (p\<lparr>internal_teleport := b\<rparr>) = teleport_events p"
  "teleport_events (p\<lparr>suppression := n\<rparr>) = teleport_events p"
  by (simp_all add: teleport_events_def)

lemma original_suppressed:
  assumes "is_player p"
  shows "suppressed (original_teleportTo ls via v) p = move_to v p"
  using assms by (simp add: suppressed_def original_teleportTo_def actor_teleportTo_def move_to_def happens_def Let_def)

text \<open>C32: A teleport of a player that does not carry the flag is announced exactly once, whether or not the game's function goes through
  the hooked function of actors; cancelled it moves nobody, else it goes where the listeners say. A teleport with the flag is not announced,
  goes where it was sent, and takes the flag with it. The suppression ends with the teleport.\<close>

theorem teleport_announced_once:
  assumes "is_player p"
  shows "let q = player_teleportTo ls via v p; to = (here p)\<lparr>pos := v\<rparr> in
    teleport_events q = teleport_events p + (if internal_teleport p then 0 else 1) \<and>
    here q = (if internal_teleport p then to else case on_teleport ls (here p) to of None \<Rightarrow> here p | Some t \<Rightarrow> (here p)\<lparr>pos := pos t\<rparr>) \<and>
    \<not> internal_teleport q \<and> suppression q = suppression p"
  using assms by (simp add: player_teleportTo_def original_suppressed Let_def move_to_def split: option.splits)

lemma filter_actions_spec:
  "fst (filter_actions ls as p) = filter (\<lambda>(a, v). \<not> (a = Start_Destroy \<and> on_interact ls v)) as"
  "log (snd (filter_actions ls as p)) = log p @ map (\<lambda>(a, v). Interact_Event v) (filter (\<lambda>(a, v). a = Start_Destroy) as)"
  "here (snd (filter_actions ls as p)) = here p" "alive (snd (filter_actions ls as p)) = alive p"
  "is_player (snd (filter_actions ls as p)) = is_player p" "internal_teleport (snd (filter_actions ls as p)) = internal_teleport p"
  "suppression (snd (filter_actions ls as p)) = suppression p" "teleport_events (snd (filter_actions ls as p)) = teleport_events p"
  by (induction ls as p rule: filter_actions.induct) (auto simp: happens_def teleport_events_def Let_def split: prod.splits)

text \<open>What becomes of an input: it goes on to the game, the client is put right where the player is, or the player is sent to a place.\<close>

datatype 'v decision = Goes_On | Put_Right | Sent "'v location"

definition asks_jump :: "'v geometry \<Rightarrow> 'v input \<Rightarrow> 'v location \<Rightarrow> bool" where
  "asks_jump g i from \<longleftrightarrow> jumping i \<and> on_ground i \<and> rises g from (target i)"

definition move_decision :: "'v listeners \<Rightarrow> 'v geometry \<Rightarrow> 'v location \<Rightarrow> 'v location \<Rightarrow> 'v decision" where
  "move_decision ls g from to = (if far g from to then (case on_move ls from to of
       None \<Rightarrow> if turns g from to then Sent from else Put_Right
     | Some t \<Rightarrow> if \<not> same g to t then Sent t else Goes_On) else Goes_On)"

definition decision :: "'v listeners \<Rightarrow> 'v geometry \<Rightarrow> 'v input \<Rightarrow> 'v location \<Rightarrow> 'v decision" where
  "decision ls g i from = (if asks_jump g i from \<and> on_jump ls from (target i) then Sent from else move_decision ls g from (target i))"

text \<open>What the listeners are told, in order.\<close>

definition announced :: "'v listeners \<Rightarrow> 'v geometry \<Rightarrow> 'v input \<Rightarrow> 'v location \<Rightarrow> 'v happening list" where
  "announced ls g i from = map (\<lambda>(a, v). Interact_Event v) (filter (\<lambda>(a, v). a = Start_Destroy) (actions i)) @
     (if asks_jump g i from then [Jump_Event from (target i)] else []) @
     (if \<not> (asks_jump g i from \<and> on_jump ls from (target i)) \<and> far g from (target i) then [Move_Event from (target i)] else [])"

text \<open>Where a decision leaves a player, what it does to them, and whether the next teleport is not announced. A dead player goes nowhere, and
  into another dimension a player is only asked for, with the rotation it will have there; both leave the flag behind.\<close>

fun place :: "'v mover \<Rightarrow> 'v decision \<Rightarrow> 'v location" where
  "place p (Sent t) = (if \<not> alive p then here p else if dim t \<noteq> dim (here p) then (here p)\<lparr>rot := rot t\<rparr> else t)"
| "place p _ = here p"

fun deeds :: "'v mover \<Rightarrow> 'v decision \<Rightarrow> 'v happening list" where
  "deeds p (Sent t) = (if \<not> alive p then [] else if dim t \<noteq> dim (here p) then [Dimension_Requested t] else [Moved (pos t)])"
| "deeds p Put_Right = [Movement_Corrected (pos (here p))]"
| "deeds p Goes_On = []"

fun flag_after :: "'v mover \<Rightarrow> 'v decision \<Rightarrow> bool" where
  "flag_after p (Sent t) \<longleftrightarrow> \<not> alive p \<or> dim t \<noteq> dim (here p)"
| "flag_after p _ \<longleftrightarrow> internal_teleport p"

lemma log_happens [simp]: "log (happens h p) = log p @ [h]"
  by (simp add: happens_def)

lemma internal_teleport_outcome:
  assumes "is_player p"
  shows "here (internal_teleportTo ls via t p) = place p (Sent t)" "log (internal_teleportTo ls via t p) = log p @ deeds p (Sent t)"
    "internal_teleport (internal_teleportTo ls via t p) = flag_after p (Sent t)"
proof -
  have t: "t\<lparr>dim := dim t\<rparr> = t" by simp
  show "here (internal_teleportTo ls via t p) = place p (Sent t)" "log (internal_teleportTo ls via t p) = log p @ deeds p (Sent t)"
    "internal_teleport (internal_teleportTo ls via t p) = flag_after p (Sent t)"
    using assms t by (auto simp: internal_teleportTo_def teleport_def player_teleportTo_def original_suppressed move_to_def Let_def)
qed

lemma handle_move_outcome:
  assumes "is_player p" "d = move_decision ls g (here p) to"
  shows "here (fst (handle_move ls via g to p)) = place p d"
    "log (fst (handle_move ls via g to p)) = log p @ (if far g (here p) to then [Move_Event (here p) to] else []) @ deeds p d"
    "internal_teleport (fst (handle_move ls via g to p)) = flag_after p d"
    "snd (handle_move ls via g to p) = (d = Goes_On)"
  using assms internal_teleport_outcome [of "happens (Move_Event (here p) to) p" ls via]
  by (auto simp: handle_move_def move_decision_def Let_def split: option.splits)

text \<open>C33: The input of a player goes on to the game exactly when no listener cancels its jump or its move or sends the move elsewhere. Otherwise a
  live player is where it was, or where the listener sent it, without a teleport event; for another dimension it is turned and the change of
  dimension is asked for; a dead one stays. The listeners are told of the blocks that are attacked, the jump and the move, once each and in this
  order, and the actions that go on are those no listener cancelled, in their order. The flag that silences the next teleport stays behind
  exactly when the player is dead or sent to another dimension, or had it and was not sent anywhere.\<close>

theorem input_decided:
  assumes "is_player p" "handle_input ls via g i p = (i', q, goes_on)" "d = decision ls g i (here p)"
  shows "goes_on = (d = Goes_On) \<and> here q = place p d \<and> log q = log p @ announced ls g i (here p) @ deeds p d \<and>
    internal_teleport q = flag_after p d \<and> teleport_events q = teleport_events p \<and>
    i' = i\<lparr>actions := filter (\<lambda>(a, v). \<not> (a = Start_Destroy \<and> on_interact ls v)) (actions i)\<rparr>"
proof -
  let ?from = "here p" and ?to = "target i"
  let ?acts = "filter (\<lambda>(a, v). \<not> (a = Start_Destroy \<and> on_interact ls v)) (actions i)"
  obtain as p1 where f: "filter_actions ls (actions i) p = (as, p1)" by fastforce
  have p1: "as = ?acts" "here p1 = ?from" "alive p1 = alive p" "is_player p1" "internal_teleport p1 = internal_teleport p"
      "log p1 = log p @ map (\<lambda>(a, v). Interact_Event v) (filter (\<lambda>(a, v). a = Start_Destroy) (actions i))"
    using filter_actions_spec [of ls "actions i" p] assms(1) f by auto
  define p2 where "p2 = (if asks_jump g i ?from then happens (Jump_Event ?from ?to) p1 else p1)"
  have p2: "here p2 = ?from" "alive p2 = alive p" "is_player p2" "internal_teleport p2 = internal_teleport p"
      "log p2 = log p1 @ (if asks_jump g i ?from then [Jump_Event ?from ?to] else [])"
    using p1 by (simp_all add: p2_def)
  have same: "place p2 d = place p d" "deeds p2 d = deeds p d" "flag_after p2 d = flag_after p d"
    using p2 by (cases d; simp)+
  have e: "handle_input ls via g i p = (if asks_jump g i ?from \<and> on_jump ls ?from ?to then (i\<lparr>actions := as\<rparr>, internal_teleportTo ls via ?from p2, False)
      else (i\<lparr>actions := as\<rparr>, handle_move ls via g ?to p2))"
    using f p1(2) by (simp add: handle_input_def p2_def asks_jump_def Let_def)
  have "goes_on = (d = Goes_On) \<and> here q = place p d \<and> log q = log p @ announced ls g i ?from @ deeds p d \<and>
    internal_teleport q = flag_after p d \<and> i' = i\<lparr>actions := as\<rparr>"
  proof (cases "asks_jump g i ?from \<and> on_jump ls ?from ?to")
    case True
    then have "d = Sent ?from" "goes_on = False" "q = internal_teleportTo ls via ?from p2" "i' = i\<lparr>actions := as\<rparr>"
      using e assms(2,3) by (simp_all add: decision_def)
    then show ?thesis using True same p1(6) p2(5) internal_teleport_outcome [OF p2(3), of ls via ?from] by (simp add: announced_def)
  next
    case False
    then have d: "d = move_decision ls g (here p2) ?to" and r: "handle_move ls via g ?to p2 = (q, goes_on)" "i' = i\<lparr>actions := as\<rparr>"
      using e assms(2,3) p2(1) by (auto simp: decision_def)
    show ?thesis using False same p1(6) p2(1,5) r handle_move_outcome [OF p2(3) d, of via] by (auto simp: announced_def)
  qed
  moreover have "teleport_events q = teleport_events p" if "log q = log p @ announced ls g i ?from @ deeds p d"
    using that by (cases d) (auto simp: teleport_events_def announced_def filter_empty_conv)
  ultimately show ?thesis using p1(1) by simp
qed

text \<open>A flag that is not consumed: a dead player is not teleported at all, and another dimension is asked for without the hook. The next
  teleport of the player is then not announced.\<close>

lemma flag_left_behind:
  assumes "\<not> alive p \<or> dim to \<noteq> dim (here p)"
  shows "internal_teleport (internal_teleportTo ls via to p)"
  using assms by (auto simp: internal_teleportTo_def teleport_def Let_def)

subsection \<open>Examples\<close>

definition demo_mover :: "int mover" where
  "demo_mover = \<lparr>here = \<lparr>dim = 0, pos = 5, rot = 0\<rparr>, is_player = True, alive = True, internal_teleport = False, suppression = 0, log = []\<rparr>"

text \<open>Listeners that send a move on by ten and cancel every interaction.\<close>

definition demo_listeners :: "int listeners" where
  "demo_listeners = \<lparr>on_teleport = (\<lambda>from to. Some to), on_jump = (\<lambda>from to. False),
     on_move = (\<lambda>from to. Some (to\<lparr>pos := pos to + 10\<rparr>)), on_interact = (\<lambda>v. True)\<rparr>"

definition demo_geometry :: "int geometry" where
  "demo_geometry = \<lparr>rises = (\<lambda>from to. False), far = (\<lambda>from to. pos from \<noteq> pos to), turns = (\<lambda>from to. False), same = (=)\<rparr>"

definition demo_input :: "int input" where
  "demo_input = \<lparr>actions = [(Start_Destroy, 1), (Other_Action, 2)], target = \<lparr>dim = 0, pos = 6, rot = 0\<rparr>, jumping = False, on_ground = True\<rparr>"

theorem teleport_announced_once_witness:
  "teleport_events (player_teleportTo demo_listeners True 9 demo_mover) = 1"
  using teleport_announced_once [of demo_mover demo_listeners True 9] by (simp add: demo_mover_def teleport_events_def Let_def)

theorem input_decided_witness:
  "\<exists>i q goes_on. handle_input demo_listeners True demo_geometry demo_input demo_mover = (i, q, goes_on) \<and>
     \<not> goes_on \<and> pos (here q) = 16 \<and> actions i = [(Other_Action, 2)]"
proof -
  obtain i q goes_on where h: "handle_input demo_listeners True demo_geometry demo_input demo_mover = (i, q, goes_on)" by (metis prod_cases3)
  have m: "is_player demo_mover" by (simp add: demo_mover_def)
  have "decision demo_listeners demo_geometry demo_input (here demo_mover) = Sent \<lparr>dim = 0, pos = 16, rot = 0\<rparr>"
    by (simp add: decision_def move_decision_def asks_jump_def demo_listeners_def demo_geometry_def demo_input_def demo_mover_def)
  with input_decided [OF m h refl] have "\<not> goes_on" "pos (here q) = 16" "actions i = [(Other_Action, 2)]"
    by (simp_all add: demo_listeners_def demo_input_def demo_mover_def)
  with h show ?thesis by blast
qed

end
