(* ===== verification/Player_Packets.thy ===== *)
theory Player_Packets
  imports Player_Api Network_Peer
begin

text \<open>
  The packets of a player: those of the client, which the server shows its plugins before the game handles them
  (\<open>handlePacket\<close> of \<open>src/endstone/core/player.cpp\<close>, the dispatcher of \<open>src/endstone/runtime/bedrock_hooks/packet.cpp\<close> and the lookup of
  the player in \<open>server_network_handler.cpp\<close>), and two packets the server computes for the client: its commands
  (\<open>updateCommands\<close>) and a map (\<open>sendMap\<close>), which the peer then fills with the picture. The movement packet is in
  \<open>Movement\<close>. The listeners' answers are parameters.
\<close>

subsection \<open>Whose packet it is\<close>

text \<open>The users of the level: an entity context may be empty or lack the identifier of a network user.\<close>

record user =
  network_id :: nat
  sub_id :: nat
  user_player :: nat

fun getServerPlayer :: "user option option list \<Rightarrow> nat \<Rightarrow> nat \<Rightarrow> nat option" where
  "getServerPlayer [] i j = None"
| "getServerPlayer (None # us) i j = getServerPlayer us i j"
| "getServerPlayer (Some None # us) i j = getServerPlayer us i j"
| "getServerPlayer (Some (Some u) # us) i j = (if network_id u = i \<and> sub_id u = j then Some (user_player u) else getServerPlayer us i j)"

subsection \<open>Packets of the client\<close>

datatype 's client_message =
    Player_Equipment (slot: int)
  | Stop_Sleeping
  | Other_Player_Action
  | Player_Skin (skin_owner: nat) (new_skin: 's) (persona: bool) (new_name: string) (old_name: string)
  | Set_Local_Player_As_Init
  | Emote (piece: string) (flags: "8 word")
  | Other_Message

text \<open>What is done meanwhile: events that are called, a message to everyone, a packet to the client, and the refreshing of permissions
  and commands.\<close>

datatype 's reaction =
    Held_Event int int
  | Bed_Leave_Event
  | Skin_Event 's message
  | Join_Event message
  | Emote_Event string bool
  | Broadcasts message
  | Slot_Sent int
  | Skin_Sent nat 's string string
  | Permissions_Recalculated
  | Commands_Sent

record 's client =
  client_name :: string
  client_uuid :: nat
  client_skin :: 's
  held_slot :: int
  sleeping :: bool
  spawned :: bool
  reactions :: "'s reaction list"

text \<open>The listeners: whether they cancel, and the message or the flag they leave.\<close>

record 's answers =
  answer_held :: "int \<Rightarrow> int \<Rightarrow> bool"
  answer_skin :: "'s \<Rightarrow> message \<Rightarrow> message option option"
  answer_join :: "message \<Rightarrow> message option"
  answer_emote :: "string \<Rightarrow> bool \<Rightarrow> bool option"
  skin_text :: bool
  connection_text :: bool

definition react :: "'s reaction \<Rightarrow> 's client \<Rightarrow> 's client" where
  "react r c = c\<lparr>reactions := reactions c @ [r]\<rparr>"

definition YELLOW :: string where "YELLOW = [char_of (0xC2 :: nat), char_of (0xA7 :: nat), CHR ''e'']"

text \<open>An empty text is not broadcast; a message that was removed counts as one.\<close>

definition announce :: "bool \<Rightarrow> message option \<Rightarrow> 's client \<Rightarrow> 's client" where
  "announce enabled_text m c = (let m' = (case m of None \<Rightarrow> Text [] | Some x \<Rightarrow> x) in
     if enabled_text \<and> m' \<noteq> Text [] then react (Broadcasts m') c else c)"

definition join_message :: "'s client \<Rightarrow> message" where
  "join_message c = Translatable (YELLOW @ ''%multiplayer.player.joined'') [client_name c]"

definition doFirstSpawn :: "'s answers \<Rightarrow> 's client \<Rightarrow> 's client" where
  "doFirstSpawn a c = (if spawned c then c
     else let c1 = react (Join_Event (join_message c)) (c\<lparr>spawned := True\<rparr>) in
       react Commands_Sent (react Permissions_Recalculated (announce (connection_text a) (answer_join a (join_message c)) c1)))"

definition HOTBAR_SIZE :: int where "HOTBAR_SIZE = 9"

text \<open>\<open>select\<close> is the game's \<open>selectSlot\<close>: whether the slot can be selected.\<close>

definition setHeldItemSlot :: "(int \<Rightarrow> bool) \<Rightarrow> int \<Rightarrow> 's client \<Rightarrow> api_error + 's client" where
  "setHeldItemSlot select s c = (if \<not> (0 \<le> s \<and> s < HOTBAR_SIZE) then Inl Invalid_Argument
     else Inr (if select s then react (Slot_Sent s) (c\<lparr>held_slot := s\<rparr>) else c))"

definition SERVER_SIDE :: "8 word" where "SERVER_SIDE = 1"
definition MUTE_EMOTE_CHAT :: "8 word" where "MUTE_EMOTE_CHAT = 2"

definition skin_message :: "bool \<Rightarrow> 's client \<Rightarrow> message" where
  "skin_message p c = Translatable (YELLOW @ (if p then ''%multiplayer.player.changeToPersona'' else ''%multiplayer.player.changeToSkin'')) [client_name c]"

text \<open>The packet as the game gets it, the player, and whether the game gets it; an exception leaves the handler with the state it has.\<close>

definition handlePacket :: "'s answers \<Rightarrow> (int \<Rightarrow> bool) \<Rightarrow> 's client_message \<Rightarrow> 's client \<Rightarrow> api_error + 's client_message \<times> 's client \<times> bool" where
  "handlePacket a select pk c = (case pk of
     Player_Equipment to \<Rightarrow> let from = held_slot c in
       if from = to then Inr (pk, c, True)
       else let c1 = react (Held_Event from to) c in
         if answer_held a from to then chain (setHeldItemSlot select from c1) (\<lambda>c2. Inr (pk, c2, False)) else Inr (pk, c1, True)
   | Stop_Sleeping \<Rightarrow> Inr (pk, if sleeping c then react Bed_Leave_Event c else c, True)
   | Other_Player_Action \<Rightarrow> Inr (pk, c, True)
   | Player_Skin owner skin p new old \<Rightarrow>
       if client_uuid c \<noteq> owner then Inr (pk, c, True)
       else let m = skin_message p c; c1 = react (Skin_Event skin m) c in
         (case answer_skin a skin m of
           None \<Rightarrow> Inr (pk, react (Skin_Sent owner (client_skin c) old new) c1, False)
         | Some m' \<Rightarrow> Inr (pk, announce (skin_text a) m' c1, True))
   | Set_Local_Player_As_Init \<Rightarrow> Inr (pk, doFirstSpawn a c, True)
   | Emote pc fl \<Rightarrow> if fl AND SERVER_SIDE \<noteq> 0 then Inr (pk, c, True)
       else let muted = (fl AND MUTE_EMOTE_CHAT \<noteq> 0); c1 = react (Emote_Event pc muted) c in
         (case answer_emote a pc muted of
           None \<Rightarrow> Inr (pk, c1, False)
         | Some m \<Rightarrow> Inr (Emote pc (if m then fl OR MUTE_EMOTE_CHAT else fl AND NOT MUTE_EMOTE_CHAT), c1, True))
   | Other_Message \<Rightarrow> Inr (pk, c, True))"

text \<open>The dispatcher: a packet whose player is not known is dropped; \<open>pass\<close> is the game's handler.\<close>

definition handle :: "'s answers \<Rightarrow> (int \<Rightarrow> bool) \<Rightarrow> user option option list \<Rightarrow> nat \<Rightarrow> nat \<Rightarrow> 's client_message \<Rightarrow>
    (nat \<rightharpoonup> 's client) \<Rightarrow> api_error + (nat \<rightharpoonup> 's client) \<times> 's client_message option" where
  "handle a select us i j pk cs = (case getServerPlayer us i j of
     None \<Rightarrow> Inr (cs, None)
   | Some k \<Rightarrow> (case cs k of
       None \<Rightarrow> Inr (cs, None)
     | Some c \<Rightarrow> chain (handlePacket a select pk c) (\<lambda>(pk', c', on). Inr (cs(k \<mapsto> c'), if on then Some pk' else None))))"

text \<open>A run of packets of one client; one that raises an exception leaves the client as it was.\<close>

definition after_packet :: "'s answers \<Rightarrow> (int \<Rightarrow> bool) \<Rightarrow> 's client_message \<Rightarrow> 's client \<Rightarrow> 's client" where
  "after_packet a select pk c = (case handlePacket a select pk c of Inl e \<Rightarrow> c | Inr (pk', c', on) \<Rightarrow> c')"

subsection \<open>Joining\<close>

fun joins :: "'s reaction list \<Rightarrow> nat" where
  "joins [] = 0"
| "joins (r # rs) = (case r of Join_Event m \<Rightarrow> 1 | _ \<Rightarrow> 0) + joins rs"

lemma joins_app [simp]: "joins (rs @ rs') = joins rs + joins rs'"
  by (induction rs) auto

definition join_count_ok :: "'s client \<Rightarrow> bool" where
  "join_count_ok c \<longleftrightarrow> joins (reactions c) = (if spawned c then 1 else 0)"

lemma react_sel [simp]:
  "spawned (react r c) = spawned c" "reactions (react r c) = reactions c @ [r]" "held_slot (react r c) = held_slot c"
  "client_name (react r c) = client_name c"
  by (simp_all add: react_def)

lemma announce_joins [simp]: "joins (reactions (announce b m c)) = joins (reactions c)" "spawned (announce b m c) = spawned c"
  by (simp_all add: announce_def Let_def)

lemma after_packet_joins:
  "join_count_ok c \<Longrightarrow> join_count_ok (after_packet a select pk c) \<and>
    spawned (after_packet a select pk c) = (spawned c \<or> pk = Set_Local_Player_As_Init)"
  by (cases pk)
    (auto simp: after_packet_def handlePacket_def join_count_ok_def doFirstSpawn_def setHeldItemSlot_def chain_def Let_def split: option.splits)

text \<open>Whatever packets a client sends, in whatever order, the server announces its joining at most once, and exactly when the client
  has reported itself ready.\<close>

theorem joins_once:
  assumes "\<not> spawned c" "joins (reactions c) = 0"
  shows "joins (reactions (fold (after_packet a select) pks c)) = (if Set_Local_Player_As_Init \<in> set pks then 1 else 0)"
proof -
  have "join_count_ok (fold (after_packet a select) pks d) \<and>
      spawned (fold (after_packet a select) pks d) = (spawned d \<or> Set_Local_Player_As_Init \<in> set pks)" if "join_count_ok d" for d
    using that by (induction pks arbitrary: d) (auto simp: after_packet_joins)
  from this [of c] show ?thesis using assms by (simp add: join_count_ok_def)
qed

text \<open>What goes on of an emote: nothing but the flag that mutes it changes, to what the listeners say.\<close>

lemma emote_flags:
  assumes "handlePacket a select (Emote pc fl) c = Inr (Emote pc' fl', c', True)" "fl AND SERVER_SIDE = 0"
  shows "pc' = pc \<and> answer_emote a pc (fl AND MUTE_EMOTE_CHAT \<noteq> 0) = Some (fl' AND MUTE_EMOTE_CHAT \<noteq> 0) \<and>
    (\<forall>n. n \<noteq> 1 \<longrightarrow> bit fl' n = bit fl n)"
proof -
  have e: "MUTE_EMOTE_CHAT = 2 ^ 1" by (simp add: MUTE_EMOTE_CHAT_def)
  have b: "(w AND MUTE_EMOTE_CHAT \<noteq> 0) = bit w 1" for w :: "8 word" unfolding e by (simp only: and_exp_eq_0_iff_not_bit) simp
  have m: "bit MUTE_EMOTE_CHAT n = (n = 1)" for n unfolding e bit_exp_iff by auto
  have l: "bit w n \<Longrightarrow> n < 8" for w :: "8 word" and n using bit_imp_le_length [of w n] by simp
  show ?thesis using assms by (auto simp: handlePacket_def Let_def b m bit_simps dest: l split: option.splits if_splits)
qed

subsection \<open>The client's commands\<close>

text \<open>What the registry serialises: a command by name with the level it needs, and the values of enumerations under constraints.
  The rest of the packet is not touched.\<close>

record command_data =
  command_name :: string
  command_level :: command_permission

record constrained_value =
  enum_value_symbol :: "32 word"
  enum_symbol :: "32 word"
  constraint_indices :: "8 word list"

datatype semantic_constraint = RequiresElevatedPermissions | RequiresHostPermissions

text \<open>The command map and the registry: which commands the player may use, the symbol of a command's name (0 for none), that of the
  enumeration of names, and the place of a constraint in its table.\<close>

record command_view =
  usable :: "string \<Rightarrow> bool"
  value_symbol :: "string \<Rightarrow> 32 word"
  names_symbol :: "32 word"
  constraint_lookup :: "semantic_constraint \<Rightarrow> 8 word option"

definition toIndex :: "32 word \<Rightarrow> 32 word" where
  "toIndex w = w AND 0xE00FFFFF"

definition lifted_constraint :: "command_permission \<Rightarrow> semantic_constraint option" where
  "lifted_constraint l = (if level_of l \<ge> level_of Host then Some RequiresHostPermissions
     else if level_of l > level_of Any then Some RequiresElevatedPermissions else None)"

text \<open>The loop over the commands: those kept, each for everyone, and the constraints to lift. \<open>emplace\<close> keeps the first under an index.\<close>

fun keep_commands :: "command_view \<Rightarrow> command_data list \<Rightarrow> (32 word \<times> semantic_constraint) list \<Rightarrow>
    command_data list \<times> (32 word \<times> semantic_constraint) list" where
  "keep_commands v [] lift = ([], lift)"
| "keep_commands v (c # cs) lift = (if usable v (command_name c) then
       let s = value_symbol v (command_name c);
           lift' = (if s \<noteq> 0 then (case lifted_constraint (command_level c) of
             None \<Rightarrow> lift | Some k \<Rightarrow> emplace (toIndex s) k lift) else lift);
           (kept, lift'') = keep_commands v cs lift' in (c\<lparr>command_level := Any\<rparr> # kept, lift'')
     else keep_commands v cs lift)"

datatype commands_error = Out_Of_Range

text \<open>\<open>std::erase\<close> of what \<open>at\<close> finds, which throws when there is nothing.\<close>

definition lift_constraints :: "command_view \<Rightarrow> (32 word \<times> semantic_constraint) list \<Rightarrow> constrained_value \<Rightarrow> commands_error + constrained_value" where
  "lift_constraints v lift d = (case map_of lift (enum_value_symbol d) of
     Some k \<Rightarrow> if enum_symbol d = toIndex (names_symbol v) then
         (case constraint_lookup v k of None \<Rightarrow> Inl Out_Of_Range
          | Some i \<Rightarrow> Inr (d\<lparr>constraint_indices := filter (\<lambda>j. j \<noteq> i) (constraint_indices d)\<rparr>))
       else Inr d
   | None \<Rightarrow> Inr d)"

fun each :: "('a \<Rightarrow> 'e + 'b) \<Rightarrow> 'a list \<Rightarrow> 'e + 'b list" where
  "each f [] = Inr []"
| "each f (x # xs) = chain (f x) (\<lambda>y. chain (each f xs) (\<lambda>ys. Inr (y # ys)))"

definition commands_packet :: "command_view \<Rightarrow> command_data list \<Rightarrow> constrained_value list \<Rightarrow>
    commands_error + command_data list \<times> constrained_value list" where
  "commands_packet v cs ds = (let (kept, lift) = keep_commands v cs [] in
     chain (each (lift_constraints v lift) ds) (\<lambda>ds'. Inr (kept, ds')))"

text \<open>Specification: the constraint a value of the names' enumeration loses is that of the first usable command with its symbol.\<close>

definition lifts :: "command_view \<Rightarrow> command_data list \<Rightarrow> 32 word \<Rightarrow> semantic_constraint option" where
  "lifts v cs i = (case find (\<lambda>c. usable v (command_name c) \<and> value_symbol v (command_name c) \<noteq> 0 \<and>
       lifted_constraint (command_level c) \<noteq> None \<and> toIndex (value_symbol v (command_name c)) = i) cs of
     None \<Rightarrow> None | Some c \<Rightarrow> lifted_constraint (command_level c))"

lemma map_of_emplace_iff: "map_of (emplace k x m) i = (if map_of m i = None \<and> i = k then Some x else map_of m i)"
  by (auto simp: emplace_def)

lemma keep_commands_spec:
  "fst (keep_commands v cs lift) = map (\<lambda>c. c\<lparr>command_level := Any\<rparr>) (filter (\<lambda>c. usable v (command_name c)) cs) \<and>
   map_of (snd (keep_commands v cs lift)) i = (case map_of lift i of Some k \<Rightarrow> Some k | None \<Rightarrow> lifts v cs i)"
proof (induction v cs lift rule: keep_commands.induct)
  case (1 v lift)
  then show ?case by (simp add: lifts_def split: option.splits)
next
  case (2 v c cs lift)
  show ?case
  proof (cases "usable v (command_name c)")
    case True
    show ?thesis using 2(1) [OF True refl refl]
      by (auto simp: True Let_def lifts_def map_of_emplace_iff split: prod.splits option.splits if_splits)
  next
    case False
    then show ?thesis using 2(2) [OF False] by (simp add: lifts_def False split: option.splits)
  qed
qed

lemma each_map: "(\<And>x. x \<in> set xs \<Longrightarrow> f x = Inr (g x)) \<Longrightarrow> each f xs = Inr (map g xs)"
  by (induction xs) auto

text \<open>C34: The client gets exactly the commands its player may use, in their order and free for everyone; a value under constraint loses
  the constraint on permissions of the command that has its symbol, and every other value and constraint stays.\<close>

theorem commands_of_player:
  assumes "\<And>k. constraint_lookup v k \<noteq> None"
  shows "commands_packet v cs ds = Inr (map (\<lambda>c. c\<lparr>command_level := Any\<rparr>) (filter (\<lambda>c. usable v (command_name c)) cs),
    map (\<lambda>d. case lifts v cs (enum_value_symbol d) of
        Some k \<Rightarrow> if enum_symbol d = toIndex (names_symbol v)
          then d\<lparr>constraint_indices := filter (\<lambda>j. constraint_lookup v k \<noteq> Some j) (constraint_indices d)\<rparr> else d
      | None \<Rightarrow> d) ds)"
proof -
  obtain kept lift where k: "keep_commands v cs [] = (kept, lift)" by fastforce
  then have "kept = map (\<lambda>c. c\<lparr>command_level := Any\<rparr>) (filter (\<lambda>c. usable v (command_name c)) cs)" "\<And>i. map_of lift i = lifts v cs i"
    using keep_commands_spec [of v cs "[]"] by auto
  moreover have "each (lift_constraints v lift) ds = Inr (map (\<lambda>d. case map_of lift (enum_value_symbol d) of
        Some k \<Rightarrow> if enum_symbol d = toIndex (names_symbol v)
          then d\<lparr>constraint_indices := filter (\<lambda>j. constraint_lookup v k \<noteq> Some j) (constraint_indices d)\<rparr> else d
      | None \<Rightarrow> d) ds)"
  proof (rule each_map)
    fix d
    show "lift_constraints v lift d = Inr (case map_of lift (enum_value_symbol d) of
        Some k \<Rightarrow> if enum_symbol d = toIndex (names_symbol v)
          then d\<lparr>constraint_indices := filter (\<lambda>j. constraint_lookup v k \<noteq> Some j) (constraint_indices d)\<rparr> else d
      | None \<Rightarrow> d)"
    proof (cases "map_of lift (enum_value_symbol d)")
      case None
      then show ?thesis by (simp add: lift_constraints_def)
    next
      case (Some k)
      then obtain i where "constraint_lookup v k = Some i" using assms [of k] by auto
      then show ?thesis using Some by (simp add: lift_constraints_def eq_commute [of i])
    qed
  qed
  ultimately show ?thesis using k by (simp add: commands_packet_def)
qed

subsection \<open>A map for the player\<close>

text \<open>The packet covers the whole map; its pixels are empty, since the peer renders the picture when it is sent.\<close>

definition sendMap :: "64 word \<Rightarrow> (64 word \<times> cursor) list \<Rightarrow> map_packet" where
  "sendMap i decs = \<lparr>pk_map_id = i, pk_unique_ids = map fst decs, pk_decorations = map snd decs, pk_width = MAP_SIZE, pk_height = MAP_SIZE,
     pk_start_x = 0, pk_start_y = 0, pk_pixels = replicate (nat (MAP_SIZE * MAP_SIZE)) 0\<rparr>"

text \<open>A map sent to a player arrives with the picture rendered for that player, pixel by pixel, and with its visible cursors: the
  packet of \<open>sendMap\<close> always passes the checks of the peer.\<close>

theorem sent_map_shows_picture:
  assumes "maps srv i = Some v" "view_ok v" "paint_ok (map_code srv)" "viewer_id player \<noteq> INVALID_ID"
  shows "\<exists>rd v' pk. render (map_code srv) (viewer_id player) v = Inr (rd, v') \<and> patch_map player (sendMap i decs) srv = Inr (pk, srv\<lparr>maps := (maps srv)(i \<mapsto> v')\<rparr>) \<and>
    pk_pixels pk = rendered rd \<and> pk_decorations pk = filter visible (shown_cursors rd)"
proof -
  let ?pk = "sendMap i decs"
  have pk: "maps srv (pk_map_id ?pk) = Some v" "pk_pixels ?pk \<noteq> []" "\<not> out_of_map ?pk"
      "length (pk_pixels ?pk) = nat (pk_width ?pk * pk_height ?pk)"
    using assms(1) by (simp_all add: sendMap_def out_of_map_def MAP_SIZE_def)
  obtain rd v' px where r: "render (map_code srv) (viewer_id player) v = Inr (rd, v')"
      "patch_map player ?pk srv = Inr (?pk\<lparr>pk_pixels := px, pk_unique_ids := map (\<lambda>_. INVALID_ID) (filter visible (shown_cursors rd)),
        pk_decorations := filter visible (shown_cursors rd)\<rparr>, srv\<lparr>maps := (maps srv)(i \<mapsto> v')\<rparr>)"
      "length px = length (pk_pixels ?pk)"
      "\<forall>x y. 0 \<le> x \<and> x < pk_width ?pk \<and> 0 \<le> y \<and> y < pk_height ?pk \<longrightarrow>
        px ! nat (x + y * pk_width ?pk) = rendered rd ! nat ((pk_start_x ?pk + x) + (pk_start_y ?pk + y) * MAP_SIZE)"
    using patch_map_ok [OF pk(1) assms(2-4) pk(2-4)] by (auto simp: sendMap_def)
  have len: "length (rendered rd) = nat (MAP_SIZE * MAP_SIZE)" using render_result [OF assms(3,2,4)] r(1) by auto
  have "px = rendered rd"
  proof (rule nth_equalityI)
    show "length px = length (rendered rd)" using r(3) len by (simp add: sendMap_def)
    fix n assume "n < length px"
    then have n: "n < 128 * 128" using r(3) by (simp add: sendMap_def MAP_SIZE_def)
    let ?x = "int n mod 128" and ?y = "int n div 128"
    have e: "?x + ?y * 128 = int n" by simp
    have "?y < 128" using n by linarith
    then have "px ! nat (?x + ?y * 128) = rendered rd ! nat (?x + ?y * 128)"
      using r(4) [rule_format, of ?x ?y] by (simp add: sendMap_def MAP_SIZE_def)
    then show "px ! n = rendered rd ! n" unfolding e by simp
  qed
  then show ?thesis using r(1,2) by auto
qed

subsection \<open>The details of a connection\<close>

record connection =
  locale_code :: string
  device_os :: string
  device_id :: string
  game_version :: string

record request =
  language_code :: string
  platform :: int
  request_device :: string
  request_version :: "string option"

text \<open>The names \<open>magic_enum\<close> knows for the platforms without a name of their own.\<close>

definition platform_name :: "int \<Rightarrow> string" where
  "platform_name n = (if n = - 1 then ''Unknown'' else if n = 2 then ''iOS'' else if n = 4 then ''Amazon'' else if n = 9 then ''Dedicated''
     else if n = 13 then ''Xbox'' else if n = 15 then ''Linux'' else [])"

definition device_os_of :: "int \<Rightarrow> string" where
  "device_os_of n = (if n = 1 then ''Android'' else if n = 3 then ''macOS'' else if n = 5 then ''Gear VR'' else if n = 7 \<or> n = 8 then ''Windows''
     else if n = 10 then ''Apple TV'' else if n = 11 then ''PlayStation'' else if n = 12 then ''Switch'' else if n = 14 then ''Windows Phone''
     else platform_name n)"

text \<open>A request of a sub client has no version of its own.\<close>

definition initFromConnectionRequest :: "string \<Rightarrow> request \<Rightarrow> connection \<Rightarrow> connection" where
  "initFromConnectionRequest server_version r c = c\<lparr>
     locale_code := (if language_code r \<noteq> [] then language_code r else locale_code c),
     device_os := device_os_of (platform r),
     device_id := (if request_device r \<noteq> [] then request_device r else device_id c),
     game_version := (case request_version r of Some v \<Rightarrow> if v \<noteq> [] then v else server_version | None \<Rightarrow> server_version)\<rparr>"

lemma request_version_known: "server_version \<noteq> [] \<Longrightarrow> game_version (initFromConnectionRequest server_version r c) \<noteq> []"
  by (auto simp: initFromConnectionRequest_def split: option.splits)

subsection \<open>Examples\<close>

definition demo_client :: "unit client" where
  "demo_client = \<lparr>client_name = ''Steve'', client_uuid = 1, client_skin = (), held_slot = 0, sleeping = False, spawned = False, reactions = []\<rparr>"

definition demo_answers :: "unit answers" where
  "demo_answers = \<lparr>answer_held = (\<lambda>_ _. False), answer_skin = (\<lambda>_ m. Some (Some m)), answer_join = Some, answer_emote = (\<lambda>_ b. Some b),
     skin_text = True, connection_text = True\<rparr>"

theorem joins_once_witness:
  "joins (reactions (fold (after_packet demo_answers (\<lambda>_. True)) [Set_Local_Player_As_Init, Player_Equipment 3, Set_Local_Player_As_Init] demo_client)) = 1"
proof -
  have "\<not> spawned demo_client" "joins (reactions demo_client) = 0" by (simp_all add: demo_client_def)
  from joins_once [OF this, of demo_answers "\<lambda>_. True" "[Set_Local_Player_As_Init, Player_Equipment 3, Set_Local_Player_As_Init]"]
  show ?thesis by simp
qed

definition demo_commands :: command_view where
  "demo_commands = \<lparr>usable = (\<lambda>n. n = ''give''), value_symbol = (\<lambda>n. if n = ''give'' then 0x100007 else 0), names_symbol = 0x200001,
     constraint_lookup = (\<lambda>k. Some (case k of RequiresElevatedPermissions \<Rightarrow> 1 | RequiresHostPermissions \<Rightarrow> 2))\<rparr>"

theorem commands_of_player_witness:
  "commands_packet demo_commands [\<lparr>command_name = ''stop'', command_level = Owner\<rparr>, \<lparr>command_name = ''give'', command_level = Admin\<rparr>]
      [\<lparr>enum_value_symbol = 7, enum_symbol = 1, constraint_indices = [0, 1]\<rparr>] =
    Inr ([\<lparr>command_name = ''give'', command_level = Any\<rparr>], [\<lparr>enum_value_symbol = 7, enum_symbol = 1, constraint_indices = [0]\<rparr>])"
  using commands_of_player [of demo_commands "[\<lparr>command_name = ''stop'', command_level = Owner\<rparr>, \<lparr>command_name = ''give'', command_level = Admin\<rparr>]"
      "[\<lparr>enum_value_symbol = 7, enum_symbol = 1, constraint_indices = [0, 1]\<rparr>]"]
  by (simp add: demo_commands_def lifts_def toIndex_def lifted_constraint_def)

theorem sent_map_shows_picture_witness:
  "\<exists>rd v' pk. render demo_code 7 (EndstoneMapView demo_map_data) = Inr (rd, v') \<and>
    patch_map \<lparr>viewer_runtime_id = 2, viewer_id = 7\<rparr> (sendMap 5 []) demo_server = Inr (pk, demo_server\<lparr>maps := (maps demo_server)(5 \<mapsto> v')\<rparr>) \<and>
    pk_pixels pk = rendered rd"
proof -
  let ?pl = "\<lparr>viewer_runtime_id = 2, viewer_id = 7\<rparr>"
  have "maps demo_server 5 = Some (EndstoneMapView demo_map_data)" "paint_ok (map_code demo_server)" "viewer_id ?pl \<noteq> INVALID_ID"
    by (simp_all add: demo_server_def demo_code_ok INVALID_ID_def)
  from sent_map_shows_picture [OF this(1) EndstoneMapView_ok [OF demo_map_pixels] this(2,3), of "[]"] show ?thesis
    by (auto simp: demo_server_def)
qed

end
