(* ===== verification/Player_Boards.thy ===== *)
theory Player_Boards
  imports Scoreboard
begin

text \<open>
  The boards of players: which scoreboard a player sees (\<open>player_boards_\<close> of \<open>src/endstone/core/server.cpp\<close>) and the packet
  sender of a board (\<open>src/endstone/core/scoreboard/scoreboard_packet_sender.cpp\<close>), which lets the packets of a board through to the
  players who see it. What the game's board does when a player joins it is the parameter \<open>joined\<close>.
\<close>

subsection \<open>The boards\<close>

text \<open>A player as the server knows it: its UUID, the identifier of its actor, and its network address.\<close>

record viewer =
  viewer_uuid :: nat
  unique_id :: "64 word"
  network :: nat
  sub_client :: nat

text \<open>Boards are kept by number; a player without an entry sees the main one.\<close>

record boards =
  main_board :: nat
  player_boards :: "(nat \<times> nat) list"
  board_at :: "nat \<Rightarrow> board"

definition getPlayerBoard :: "nat \<Rightarrow> boards \<Rightarrow> nat" where
  "getPlayerBoard u s = (case map_of (player_boards s) u of None \<Rightarrow> main_board s | Some b \<Rightarrow> b)"

text \<open>A board is its number; the code compares the boards of the game behind two boards of the interface, of which there is one each.\<close>

definition setPlayerBoard :: "board_game \<Rightarrow> (viewer \<Rightarrow> board \<Rightarrow> board) \<Rightarrow> viewer \<Rightarrow> nat \<Rightarrow> boards \<Rightarrow> boards" where
  "setPlayerBoard g joined v b s = (let old = getPlayerBoard (viewer_uuid v) s in
     if old = b then s
     else let s1 = s\<lparr>board_at := (board_at s)(old := resetScores g (Player_Entry (unique_id v)) (board_at s old))\<rparr>;
              s2 = s1\<lparr>board_at := (board_at s1)(b := joined v (board_at s1 b))\<rparr> in
       s2\<lparr>player_boards := (if b = main_board s2 then AList.delete (viewer_uuid v) (player_boards s2)
          else AList.update (viewer_uuid v) b (player_boards s2))\<rparr>)"

definition removePlayerBoard :: "viewer \<Rightarrow> boards \<Rightarrow> boards" where
  "removePlayerBoard v s = s\<lparr>player_boards := AList.delete (viewer_uuid v) (player_boards s)\<rparr>"

subsection \<open>The packets of a board\<close>

datatype 'p sender_call =
    Send 'p
  | Send_To nat nat 'p
  | Send_To_Server 'p
  | To_User viewer 'p
  | To_Address nat nat 'p
  | To_Clients "(nat \<times> nat) list" 'p
  | Broadcast 'p
  | Broadcast_Except nat nat 'p

datatype sender_error = Not_Supported

text \<open>The player with a UUID among those online.\<close>

fun online_player :: "nat \<Rightarrow> viewer list \<Rightarrow> viewer option" where
  "online_player u [] = None"
| "online_player u (v # vs) = (if viewer_uuid v = u then Some v else online_player u vs)"

text \<open>The loop over the players online up to the first with the address who sees the board.\<close>

fun to_address :: "boards \<Rightarrow> nat \<Rightarrow> nat \<Rightarrow> nat \<Rightarrow> 'p \<Rightarrow> viewer list \<Rightarrow> (nat \<times> nat \<times> 'p) list" where
  "to_address s b i j pk [] = []"
| "to_address s b i j pk (v # vs) = (if getPlayerBoard (viewer_uuid v) s \<noteq> b then to_address s b i j pk vs
     else if network v \<noteq> i \<or> sub_client v \<noteq> j then to_address s b i j pk vs
     else [(i, j, pk)])"

fun to_board :: "boards \<Rightarrow> nat \<Rightarrow> 'p \<Rightarrow> viewer list \<Rightarrow> (nat \<times> nat \<times> 'p) list" where
  "to_board s b pk [] = []"
| "to_board s b pk (v # vs) = (if getPlayerBoard (viewer_uuid v) s \<noteq> b then to_board s b pk vs
     else (network v, sub_client v, pk) # to_board s b pk vs)"

text \<open>What the sender of board \<open>b\<close> passes on to the game's sender.\<close>

definition packet_sender :: "boards \<Rightarrow> viewer list \<Rightarrow> nat \<Rightarrow> 'p sender_call \<Rightarrow> sender_error + (nat \<times> nat \<times> 'p) list" where
  "packet_sender s online b c = (case c of
     To_User u pk \<Rightarrow> (case online_player (viewer_uuid u) online of
         None \<Rightarrow> Inr []
       | Some v \<Rightarrow> if getPlayerBoard (viewer_uuid v) s \<noteq> b then Inr [] else Inr [(network u, sub_client u, pk)])
   | To_Address i j pk \<Rightarrow> Inr (to_address s b i j pk online)
   | Broadcast pk \<Rightarrow> Inr (to_board s b pk online)
   | _ \<Rightarrow> Inl Not_Supported)"

subsection \<open>A player sees one board\<close>

datatype board_call = Set_Board viewer nat | Leaves viewer

fun do_board :: "board_game \<Rightarrow> (viewer \<Rightarrow> board \<Rightarrow> board) \<Rightarrow> board_call \<Rightarrow> boards \<Rightarrow> boards" where
  "do_board g joined (Set_Board v b) s = setPlayerBoard g joined v b s"
| "do_board g joined (Leaves v) s = removePlayerBoard v s"

text \<open>Specification: the board set last since the player left last, at first the main one.\<close>

fun assigned :: "board_call list \<Rightarrow> nat \<Rightarrow> nat \<Rightarrow> nat" where
  "assigned [] u b = b"
| "assigned (Set_Board v c # cs) u b = (if viewer_uuid v = u then assigned cs u c else assigned cs u b)"
| "assigned (Leaves v # cs) u b = (if viewer_uuid v = u then assigned cs u 0 else assigned cs u b)"

lemma main_board_do [simp]: "main_board (do_board g joined c s) = main_board s"
  by (cases c) (simp_all add: setPlayerBoard_def removePlayerBoard_def Let_def)

lemma getPlayerBoard_set: "getPlayerBoard u (setPlayerBoard g joined v b s) = (if u = viewer_uuid v then b else getPlayerBoard u s)"
  by (auto simp: setPlayerBoard_def Let_def getPlayerBoard_def delete_conv' update_conv' split: option.splits)

lemma getPlayerBoard_remove: "getPlayerBoard u (removePlayerBoard v s) = (if u = viewer_uuid v then main_board s else getPlayerBoard u s)"
  by (auto simp: removePlayerBoard_def getPlayerBoard_def delete_conv' split: option.splits)

lemma getPlayerBoard_calls:
  "main_board s = 0 \<Longrightarrow> getPlayerBoard u (fold (do_board g joined) cs s) = assigned cs u (getPlayerBoard u s)"
proof (induction cs arbitrary: s)
  case (Cons c cs)
  have "fold (do_board g joined) (c # cs) s = fold (do_board g joined) cs (do_board g joined c s)" by simp
  moreover have "main_board (do_board g joined c s) = 0" using Cons.prems by simp
  ultimately show ?case using Cons by (cases c) (auto simp: getPlayerBoard_set getPlayerBoard_remove)
qed simp

lemma to_board_filter:
  "to_board s b pk vs = map (\<lambda>v. (network v, sub_client v, pk)) (filter (\<lambda>v. getPlayerBoard (viewer_uuid v) s = b) vs)"
  by (induction vs) auto

lemma to_address_set: "set (to_address s b i j pk vs) \<subseteq> {(i, j, pk)} \<and>
    (to_address s b i j pk vs \<noteq> [] \<longleftrightarrow> (\<exists>v \<in> set vs. network v = i \<and> sub_client v = j \<and> getPlayerBoard (viewer_uuid v) s = b))"
  by (induction vs) auto

text \<open>A server that starts with the main board, number 0, for everyone.\<close>

definition fresh_boards :: "(nat \<Rightarrow> board) \<Rightarrow> boards" where
  "fresh_boards bs = \<lparr>main_board = 0, player_boards = [], board_at = bs\<rparr>"

text \<open>C35: Whatever boards plugins give to players and whoever leaves, a broadcast of a board reaches exactly the players online who were
  given that board last and have not left since, in the order they are online; so no player gets the packets of two boards, and each
  gets those of one.\<close>

theorem board_packets_reach:
  "packet_sender (fold (do_board g joined) cs (fresh_boards bs)) online b (Broadcast pk) =
    Inr (map (\<lambda>v. (network v, sub_client v, pk)) (filter (\<lambda>v. assigned cs (viewer_uuid v) 0 = b) online))"
proof -
  have "getPlayerBoard u (fold (do_board g joined) cs (fresh_boards bs)) = assigned cs u 0" for u
    using getPlayerBoard_calls [of "fresh_boards bs" u g joined cs] by (simp add: fresh_boards_def getPlayerBoard_def)
  then show ?thesis by (simp add: packet_sender_def to_board_filter)
qed

text \<open>The main board is never entered, so it is not kept alive by its players.\<close>

lemma main_never_entered:
  "\<forall>e \<in> set (player_boards s). snd e \<noteq> main_board s \<Longrightarrow>
    \<forall>e \<in> set (player_boards (do_board g joined c s)). snd e \<noteq> main_board s"
proof (cases c)
  case (Set_Board v b)
  assume h: "\<forall>e \<in> set (player_boards s). snd e \<noteq> main_board s"
  have "set (AList.update k x m) \<subseteq> insert (k, x) (set m)" for k :: nat and x :: nat and m
    by (induction m) auto
  from this [of "viewer_uuid v" b "player_boards s"] h have "\<forall>e \<in> set (AList.update (viewer_uuid v) b (player_boards s)). snd e = b \<or> snd e \<noteq> main_board s"
    by auto
  with h Set_Board show ?thesis by (auto simp: setPlayerBoard_def Let_def AList.delete_eq)
qed (auto simp: removePlayerBoard_def AList.delete_eq)

text \<open>A player that is given another board loses all its scores on the old one; no other player changes its board, and no board
  but these two is touched.\<close>

theorem left_board_cleared:
  assumes "board_laws g" "getPlayerBoard (viewer_uuid v) s = old" "old \<noteq> b" "board_ok (board_at s old)" "refs_exact (board_at s old)"
    and "s' = setPlayerBoard g joined v b s"
  shows "getPlayerBoard (viewer_uuid v) s' = b \<and> (\<forall>u. u \<noteq> viewer_uuid v \<longrightarrow> getPlayerBoard u s' = getPlayerBoard u s) \<and>
    (\<forall>a ob. alive (board_at s old) a = Some ob \<longrightarrow>
       isScoreSet a (Player_Entry (unique_id v)) (board_at s' old) = Inr False \<and> getValue a (Player_Entry (unique_id v)) (board_at s' old) = Inr 0) \<and>
    (\<forall>c. c \<noteq> old \<and> c \<noteq> b \<longrightarrow> board_at s' c = board_at s c)"
proof -
  have b: "board_at s' = (board_at s)(old := resetScores g (Player_Entry (unique_id v)) (board_at s old), b := joined v (board_at s b))"
    using assms(2,3,6) by (auto simp: setPlayerBoard_def Let_def)
  have d: "direct (Player_Entry (unique_id v))" by (simp add: direct_def)
  have "board_at s' old = resetScores g (Player_Entry (unique_id v)) (board_at s old)" using b assms(3) by simp
  with resetScores_clears [OF assms(1,4,5) d this] b show ?thesis using assms(6) by (auto simp: getPlayerBoard_set)
qed

subsection \<open>Examples\<close>

definition demo_viewer :: viewer where
  "demo_viewer = \<lparr>viewer_uuid = 7, unique_id = 9, network = 1, sub_client = 0\<rparr>"

definition demo_boards :: boards where
  "demo_boards = fresh_boards (\<lambda>_. demo_board)"

theorem left_board_cleared_witness:
  "getPlayerBoard 7 demo_boards = 0 \<and> getPlayerBoard 7 (setPlayerBoard demo_game (\<lambda>_ b. b) demo_viewer 1 demo_boards) = 1"
proof -
  have h: "getPlayerBoard (viewer_uuid demo_viewer) demo_boards = 0"
    by (simp add: demo_boards_def fresh_boards_def getPlayerBoard_def)
  have n: "(0 :: nat) \<noteq> 1" by simp
  have "board_ok (board_at demo_boards 0)" "refs_exact (board_at demo_boards 0)"
    using demo_ok by (simp_all add: demo_boards_def fresh_boards_def)
  from left_board_cleared [OF demo_board_laws h n this refl] h show ?thesis by (simp add: demo_viewer_def)
qed

end
