(* ===== verification/Server_Core.thy ===== *)
theory Server_Core
  imports Complex_Main Plugin_Host Player_Api
begin

text \<open>
  The server object (\<open>src/endstone/core/server.cpp\<close>): enabling plugins with the permissions they declare, the resource packs that are put on
  the stack of the level, broadcasts, and the tick, which runs the scheduler, then the game, then the check of the operators, and keeps the
  times of the last ticks. Floating point arithmetic is a parameter.
\<close>

subsection \<open>Enabling plugins\<close>

datatype load_order = Startup | PostWorld

record description =
  load :: load_order
  declared :: "Permissions.permission list"

text \<open>A permission whose name is taken is reported and left as it is.\<close>

fun register_declared :: "nat \<Rightarrow> Permissions.permission list \<Rightarrow> perm_state \<Rightarrow> perm_error + perm_state \<times> string list" where
  "register_declared f [] s = Inr (s, [])"
| "register_declared f (q # qs) s = (if getPermission s (perm_name q) = None
     then (case addPermission f q s of Inl x \<Rightarrow> Inl x | Inr (r, s1) \<Rightarrow> register_declared f qs s1)
     else (case register_declared f qs s of Inl x \<Rightarrow> Inl x | Inr (s1, errs) \<Rightarrow> Inr (s1, perm_name q # errs)))"

definition server_enablePlugin :: "nat \<Rightarrow> (plugin_ref \<Rightarrow> description) \<Rightarrow> plugin_ref \<Rightarrow> 'act host \<Rightarrow> perm_error + 'act host" where
  "server_enablePlugin f d p h = (case register_declared f (declared (d p)) (perms h) of
     Inl x \<Rightarrow> Inl x
   | Inr (s, errs) \<Rightarrow> (case dirty_all f [Level_Default, Level_Operator, Level_Console] s of
       Inl x \<Rightarrow> Inl x
     | Inr s1 \<Rightarrow> Inr (enablePlugin p (h\<lparr>perms := s1\<rparr>))))"

text \<open>The loop of \<open>enablePlugins\<close> over the plugins that are loaded.\<close>

fun enable_loaded :: "nat \<Rightarrow> (plugin_ref \<Rightarrow> description) \<Rightarrow> load_order \<Rightarrow> plugin_ref list \<Rightarrow> 'act host \<Rightarrow> perm_error + 'act host" where
  "enable_loaded f d t [] h = Inr h"
| "enable_loaded f d t (p # ps) h = (if \<not> host_enabled p h \<and> load (d p) = t
     then (case server_enablePlugin f d p h of Inl x \<Rightarrow> Inl x | Inr h1 \<Rightarrow> enable_loaded f d t ps h1)
     else enable_loaded f d t ps h)"

definition known :: "perm_state \<Rightarrow> string \<Rightarrow> bool" where
  "known s n \<longleftrightarrow> getPermission s n \<noteq> None"

lemma recalculate_known:
  assumes "subs_inv s" "Permissions.recalculatePermissions f p s = Inr s'"
  shows "subs_inv s' \<and> registered s' = registered s"
  using recalculate_spec [OF assms(1), of f p] assms(2) by (auto simp: same_registry_def split: sum.splits)

lemma recalculate_all_known:
  "subs_inv s \<Longrightarrow> recalculate_all f ps s = Inr s' \<Longrightarrow> subs_inv s' \<and> registered s' = registered s"
proof (induction ps arbitrary: s)
  case (Cons p ps)
  obtain s1 where "Permissions.recalculatePermissions f p s = Inr s1" "recalculate_all f ps s1 = Inr s'"
    using Cons.prems(2) by (auto split: sum.splits)
  with recalculate_known [OF Cons.prems(1)] Cons.IH [of s1] show ?case by simp
qed simp

lemma dirty_all_known:
  "subs_inv s \<Longrightarrow> dirty_all f ls s = Inr s' \<Longrightarrow> subs_inv s' \<and> registered s' = registered s"
proof (induction ls arbitrary: s)
  case (Cons l ls)
  obtain s1 where "recalculate_all f (getDefaultPermSubscriptions l s) s = Inr s1" "dirty_all f ls s1 = Inr s'"
    using Cons.prems(2) by (auto simp: dirtyPermissibles_def split: sum.splits)
  with recalculate_all_known [OF Cons.prems(1)] Cons.IH [of s1] show ?case by simp
qed simp

lemma addPermission_known:
  assumes "subs_inv s" "addPermission f q s = Inr (r, s')"
  shows "subs_inv s' \<and> (\<forall>n. getPermission s' n = (if lower n = lower (perm_name q) then Some (next_address s) else getPermission s n))"
proof -
  define s1 where "s1 = s\<lparr>perm_store := (perm_store s)(next_address s := Some q), next_address := Suc (next_address s),
    registered := AList.update (lower (perm_name q)) (next_address s) (registered s)\<rparr>"
  define s2 where "s2 = fold (\<lambda>l. emplace_default l (next_address s)) (default_levels (perm_default q)) s1"
  have "calculatePermissionDefault f (next_address s) s1 = Inr s'"
    using assms(2) by (auto simp: addPermission_def Let_def s1_def split: if_splits sum.splits)
  then have d: "dirty_all f (default_levels (perm_default q)) s2 = Inr s'"
    by (simp add: calculatePermissionDefault_def s1_def s2_def Let_def)
  have r: "registered (fold (\<lambda>l. emplace_default l x) ls t) = registered t \<and> permissible_at (fold (\<lambda>l. emplace_default l x) ls t) = permissible_at t \<and>
      perm_subs (fold (\<lambda>l. emplace_default l x) ls t) = perm_subs t" for x ls t
    by (induction ls arbitrary: t) (simp_all add: emplace_default_def)
  have "subs_inv s2" using assms(1) by (rule subs_inv_cong [rotated 2]) (simp_all add: s2_def r s1_def)
  from dirty_all_known [OF this d] show ?thesis
    by (auto simp: getPermission_def s2_def r s1_def update_conv')
qed

lemma register_declared_known:
  "subs_inv s \<Longrightarrow> register_declared f qs s = Inr (s', errs) \<Longrightarrow>
    subs_inv s' \<and> (\<forall>n r. getPermission s n = Some r \<longrightarrow> getPermission s' n = Some r) \<and> (\<forall>q \<in> set qs. known s' (perm_name q))"
proof (induction f qs s arbitrary: s' errs rule: register_declared.induct)
  case (2 f q qs s)
  show ?case
  proof (cases "getPermission s (perm_name q)")
    case None
    then obtain r s1 where a: "addPermission f q s = Inr (r, s1)" "register_declared f qs s1 = Inr (s', errs)"
      using 2(4) by (auto split: sum.splits)
    note k = addPermission_known [OF 2(3) a(1)]
    note ih = 2(1) [OF None a(1) refl _ a(2)]
    have "known s' (perm_name q)" using ih k by (simp add: known_def)
    moreover have "getPermission s' n = Some r'" if "getPermission s n = Some r'" for n r'
    proof -
      have "lower n \<noteq> lower (perm_name q)" using that None by (auto simp: getPermission_def)
      then show ?thesis using that ih k by simp
    qed
    ultimately show ?thesis using ih k by simp
  next
    case (Some r)
    then obtain errs' where a: "register_declared f qs s = Inr (s', errs')" using 2(4) by (auto split: sum.splits)
    have "subs_inv s' \<and> (\<forall>n r. getPermission s n = Some r \<longrightarrow> getPermission s' n = Some r) \<and> (\<forall>q \<in> set qs. known s' (perm_name q))"
      using 2(2) [OF _ 2(3) a] Some by simp
    then show ?thesis using Some by (auto simp: known_def)
  qed
qed simp

lemma enable_host [simp]:
  "host_enabled q (enablePlugin p h) \<longleftrightarrow> q = p \<or> host_enabled q h" "perms (enablePlugin p h) = perms h"
  by (auto simp: enablePlugin_def host_enabled_def enable_plugin_def)

lemma server_enable_known:
  assumes "subs_inv (perms h)" "server_enablePlugin f d p h = Inr h'"
  shows "subs_inv (perms h') \<and> (\<forall>q. host_enabled q h' \<longleftrightarrow> q = p \<or> host_enabled q h) \<and>
    (\<forall>n r. getPermission (perms h) n = Some r \<longrightarrow> getPermission (perms h') n = Some r) \<and> (\<forall>q \<in> set (declared (d p)). known (perms h') (perm_name q))"
proof -
  obtain s errs s1 where r: "register_declared f (declared (d p)) (perms h) = Inr (s, errs)"
      "dirty_all f [Level_Default, Level_Operator, Level_Console] s = Inr s1" "h' = enablePlugin p (h\<lparr>perms := s1\<rparr>)"
    using assms(2) by (auto simp: server_enablePlugin_def split: sum.splits)
  note k = register_declared_known [OF assms(1) r(1)]
  then have "subs_inv s1 \<and> registered s1 = registered s" using dirty_all_known [OF _ r(2)] by blast
  then have "subs_inv s1" "getPermission s1 = getPermission s" by (simp_all add: getPermission_def fun_eq_iff)
  then show ?thesis using k r(3) by (auto simp: known_def host_enabled_def enablePlugin_def enable_plugin_def)
qed

text \<open>A phase of enabling turns on exactly the plugins that are loaded for it and were off; every permission these declare exists
  then, and a permission that existed is still the same.\<close>

theorem plugins_of_phase:
  assumes "subs_inv (perms h)" "enable_loaded f d t ps h = Inr h'"
  shows "(\<forall>q. host_enabled q h' \<longleftrightarrow> host_enabled q h \<or> q \<in> set ps \<and> load (d q) = t) \<and>
    (\<forall>q \<in> set ps. \<not> host_enabled q h \<and> load (d q) = t \<longrightarrow> (\<forall>x \<in> set (declared (d q)). known (perms h') (perm_name x))) \<and>
    (\<forall>n r. getPermission (perms h) n = Some r \<longrightarrow> getPermission (perms h') n = Some r)"
  using assms
proof (induction f d t ps h rule: enable_loaded.induct)
  case (2 f d t p ps h)
  show ?case
  proof (cases "\<not> host_enabled p h \<and> load (d p) = t")
    case True
    then obtain h1 where h1: "server_enablePlugin f d p h = Inr h1" "enable_loaded f d t ps h1 = Inr h'"
      using 2(4) by (auto split: sum.splits)
    note k = server_enable_known [OF 2(3) h1(1)]
    note ih = 2(1) [OF True h1(1) _ h1(2)]
    have "known (perms h') (perm_name x)" if "q \<in> set (p # ps)" "\<not> host_enabled q h" "load (d q) = t" "x \<in> set (declared (d q))" for q x
    proof (cases "q = p")
      case True
      then have "known (perms h1) (perm_name x)" using k that by blast
      then show ?thesis using ih k unfolding known_def by (metis not_Some_eq)
    next
      case False
      then show ?thesis using that ih k by simp
    qed
    then show ?thesis using True ih k by auto
  next
    case False
    then show ?thesis using 2 by auto
  qed
qed simp

subsection \<open>Threads\<close>

text \<open>Threads by number; \<open>None\<close> is the identifier of no thread.\<close>

definition isPrimaryThread :: "nat option \<Rightarrow> nat option \<Rightarrow> nat \<Rightarrow> bool" where
  "isPrimaryThread main_thread server_thread current = (case main_thread of
     None \<Rightarrow> False
   | Some m \<Rightarrow> (case server_thread of None \<Rightarrow> current = m | Some t \<Rightarrow> current = t))"

subsection \<open>Broadcasts\<close>

text \<open>What a permissible is as a sender of commands.\<close>

datatype sender = Console_Sender | Player_Sender

definition BroadcastChannelUser :: string where "BroadcastChannelUser = ''endstone.broadcast.user''"

definition recipients_of :: "(permissible_ref \<Rightarrow> sender option) \<Rightarrow> string \<Rightarrow> perm_state \<Rightarrow> permissible_ref list" where
  "recipients_of as_sender n s = remdups (filter (\<lambda>p. as_sender p \<noteq> None \<and> hasPermission s p n) (getPermissionSubscriptions n s))"

text \<open>The loop over the recipients: an empty message to a player throws and ends it.\<close>

fun deliver :: "(permissible_ref \<Rightarrow> sender option) \<Rightarrow> message \<Rightarrow> permissible_ref list \<Rightarrow> (permissible_ref \<times> message) list \<times> api_error option" where
  "deliver as_sender m [] = ([], None)"
| "deliver as_sender m (p # ps) = (if as_sender p = Some Player_Sender \<and> empty_message m then ([], Some Invalid_Argument)
     else let (ds, e) = deliver as_sender m ps in ((p, m) # ds, e))"

text \<open>\<open>listener\<close> answers the event, given whether it is asynchronous, the message and the recipients: \<open>None\<close> cancels it.\<close>

definition broadcast :: "(permissible_ref \<Rightarrow> sender option) \<Rightarrow> (bool \<Rightarrow> message \<Rightarrow> permissible_ref list \<Rightarrow> message option) \<Rightarrow> bool \<Rightarrow> message \<Rightarrow> string \<Rightarrow>
    perm_state \<Rightarrow> (permissible_ref \<times> message) list \<times> api_error option" where
  "broadcast as_sender listener primary m n s = (let ps = recipients_of as_sender n s in
     case listener (\<not> primary) m ps of None \<Rightarrow> ([], None) | Some m' \<Rightarrow> deliver as_sender m' ps)"

definition broadcastMessage where
  "broadcastMessage as_sender listener primary m s = broadcast as_sender listener primary m BroadcastChannelUser s"

lemma deliver_all: "\<not> empty_message m \<Longrightarrow> deliver as_sender m ps = (map (\<lambda>p. (p, m)) ps, None)"
  by (induction ps) auto

text \<open>An empty message stops at the first player.\<close>

lemma deliver_empty:
  "empty_message m \<Longrightarrow> deliver as_sender m ps =
    (map (\<lambda>p. (p, m)) (takeWhile (\<lambda>p. as_sender p \<noteq> Some Player_Sender) ps), if \<exists>p \<in> set ps. as_sender p = Some Player_Sender then Some Invalid_Argument else None)"
  by (induction ps) auto

text \<open>In every state plugins can bring the permissions to, a broadcast reaches exactly the senders that have its permission among
  their effective ones, set to true: each once, with the message the listeners leave, unless they cancel it or leave it empty.\<close>

theorem broadcast_reaches:
  assumes "perm_run f ops (empty_state lv) = Inr s"
    and "listener (\<not> primary) m (recipients_of as_sender n s) = Some m'" "\<not> empty_message m'"
    and "broadcast as_sender listener primary m n s = (ds, e)"
  shows "e = None \<and> distinct ds \<and>
    (\<forall>p x. (p, x) \<in> set ds \<longleftrightarrow> x = m' \<and> as_sender p \<noteq> None \<and> isPermissionSet s p n \<and> hasPermission s p n)"
proof -
  have inv: "subs_inv s" by (rule perm_run_inv [OF empty_state_inv assms(1)])
  have d: "ds = map (\<lambda>p. (p, m')) (recipients_of as_sender n s)" "e = None"
    using assms(2-4) by (simp_all add: broadcast_def Let_def deliver_all)
  have "distinct (recipients_of as_sender n s)"
    and "set (recipients_of as_sender n s) = {p. as_sender p \<noteq> None \<and> isPermissionSet s p n \<and> hasPermission s p n}"
    using inv by (auto simp: recipients_of_def getPermissionSubscriptions_def isPermissionSet_def subs_inv_def)
  then show ?thesis using d by (auto simp: distinct_map inj_on_def)
qed

subsection \<open>Resource packs\<close>

datatype pack_type = Resources | Other_Type

text \<open>A pack that was found, by the identity of its manifest and its path, and what its sidecar file holds: nothing, no readable
  content, or a text.\<close>

datatype sidecar = No_File | Unreadable | Content string

record 'i pack =
  pack_identity :: 'i
  pack_type :: pack_type
  pack_path :: string

definition ends_with :: "string \<Rightarrow> string \<Rightarrow> bool" where
  "ends_with t s \<longleftrightarrow> length t \<le> length s \<and> drop (length s - length t) s = t"

definition isArchivePack :: "string \<Rightarrow> bool" where
  "isArchivePack path \<longleftrightarrow> ends_with ''.mcpack'' (lower path) \<or> ends_with ''.zip'' (lower path)"

definition white :: "char \<Rightarrow> bool" where
  "white c \<longleftrightarrow> (let n = of_char c :: nat in n = 32 \<or> 9 \<le> n \<and> n \<le> 13)"

definition trim :: "string \<Rightarrow> string" where
  "trim s = rev (dropWhile white (rev (dropWhile white s)))"

definition readContentKey :: "(string \<Rightarrow> sidecar) \<Rightarrow> string \<Rightarrow> string" where
  "readContentKey files path = (case files (path @ ''.key'') of
     No_File \<Rightarrow> []
   | Unreadable \<Rightarrow> []
   | Content t \<Rightarrow> let key = trim t in if length key \<noteq> 32 then [] else key)"

text \<open>The loop over the packs found: the identities seen, the keys, and the packs to activate.\<close>

fun choose_packs :: "(string \<Rightarrow> sidecar) \<Rightarrow> 'i pack list \<Rightarrow> 'i set \<Rightarrow> ('i \<rightharpoonup> string) \<Rightarrow> ('i \<rightharpoonup> string) \<times> 'i list" where
  "choose_packs files [] seen keys = (keys, [])"
| "choose_packs files (p # ps) seen keys = (if pack_type p \<noteq> Resources then choose_packs files ps seen keys
     else if \<not> isArchivePack (pack_path p) then choose_packs files ps seen keys
     else if pack_identity p \<in> seen then choose_packs files ps seen keys
     else let key = readContentKey files (pack_path p);
              keys' = (if key \<noteq> [] then keys(pack_identity p \<mapsto> key) else keys);
              (keys'', chosen) = choose_packs files ps (insert (pack_identity p) seen) keys' in (keys'', pack_identity p # chosen))"

text \<open>\<open>instances\<close> is the game's \<open>getResourcePacksByPackId\<close>; the stack is given by identities.\<close>

definition loadResourcePacks :: "(string \<Rightarrow> sidecar) \<Rightarrow> ('i list \<Rightarrow> 'i list) \<Rightarrow> 'i pack list \<Rightarrow> ('i \<rightharpoonup> string) \<Rightarrow> 'i list \<Rightarrow> ('i \<rightharpoonup> string) \<times> 'i list" where
  "loadResourcePacks files instances packs keys stack = (let (keys', chosen) = choose_packs files packs (set stack) keys in (keys', stack @ instances chosen))"

definition getContentKey :: "('i \<rightharpoonup> string) \<Rightarrow> 'i \<Rightarrow> string option" where
  "getContentKey keys i = keys i"

definition archives :: "'i pack list \<Rightarrow> 'i pack list" where
  "archives ps = filter (\<lambda>p. pack_type p = Resources \<and> isArchivePack (pack_path p)) ps"

text \<open>The first pack with an identity decides about its key.\<close>

definition first_pack :: "'i pack list \<Rightarrow> 'i \<Rightarrow> 'i pack option" where
  "first_pack ps i = find (\<lambda>p. pack_identity p = i) (archives ps)"

definition passed_over :: "'i pack \<Rightarrow> 'i set \<Rightarrow> bool" where
  "passed_over p seen \<longleftrightarrow> pack_type p \<noteq> Resources \<or> \<not> isArchivePack (pack_path p) \<or> pack_identity p \<in> seen"

lemma choose_skip: "passed_over p seen \<Longrightarrow> choose_packs files (p # ps) seen keys = choose_packs files ps seen keys"
  by (simp add: passed_over_def)

lemma choose_take:
  assumes "\<not> passed_over p seen" "choose_packs files (p # ps) seen keys = (keys', chosen)"
  obtains chosen' where "chosen = pack_identity p # chosen'"
    "choose_packs files ps (insert (pack_identity p) seen) (if readContentKey files (pack_path p) \<noteq> []
        then keys(pack_identity p \<mapsto> readContentKey files (pack_path p)) else keys) = (keys', chosen')"
  using assms by (auto simp: passed_over_def Let_def split: prod.splits)

declare choose_packs.simps(2) [simp del]

lemma choose_packs_ids:
  "choose_packs files ps seen keys = (keys', chosen) \<Longrightarrow>
    distinct chosen \<and> set chosen = pack_identity ` set (archives ps) - seen"
proof (induction ps arbitrary: seen keys chosen)
  case (Cons p ps)
  show ?case
  proof (cases "passed_over p seen")
    case True
    then have "distinct chosen \<and> set chosen = pack_identity ` set (archives ps) - seen"
      using Cons.IH [of seen keys chosen] Cons.prems by (simp add: choose_skip)
    then show ?thesis using True by (auto simp: archives_def passed_over_def)
  next
    case False
    from choose_take [OF this Cons.prems] obtain chosen' where c: "chosen = pack_identity p # chosen'"
      "distinct chosen' \<and> set chosen' = pack_identity ` set (archives ps) - insert (pack_identity p) seen"
      using Cons.IH by metis
    have "archives (p # ps) = p # archives ps" "pack_identity p \<notin> seen" using False by (simp_all add: archives_def passed_over_def)
    then show ?thesis using c by auto
  qed
qed (simp add: archives_def)

lemma choose_packs_keys:
  "choose_packs files ps seen keys = (keys', chosen) \<Longrightarrow>
    keys' i = (if i \<in> seen then keys i else case first_pack ps i of None \<Rightarrow> keys i
      | Some p \<Rightarrow> if readContentKey files (pack_path p) \<noteq> [] then Some (readContentKey files (pack_path p)) else keys i)"
proof (induction ps arbitrary: seen keys chosen)
  case (Cons p ps)
  show ?case
  proof (cases "passed_over p seen")
    case True
    then have "first_pack (p # ps) i = first_pack ps i" if "i \<notin> seen"
      using that by (auto simp: first_pack_def archives_def passed_over_def)
    then show ?thesis using True Cons.IH [of seen keys chosen] Cons.prems by (simp add: choose_skip)
  next
    case False
    from choose_take [OF this Cons.prems] obtain chosen' where c:
      "choose_packs files ps (insert (pack_identity p) seen) (if readContentKey files (pack_path p) \<noteq> []
        then keys(pack_identity p \<mapsto> readContentKey files (pack_path p)) else keys) = (keys', chosen')" by metis
    have "archives (p # ps) = p # archives ps" "pack_identity p \<notin> seen" using False by (simp_all add: archives_def passed_over_def)
    then show ?thesis using Cons.IH [OF c] by (cases "i = pack_identity p") (auto simp: first_pack_def split: option.splits)
  qed
qed (simp add: first_pack_def archives_def)

text \<open>The stack keeps what it had and gets the archives of resource packs that were not on it, each identity once; a pack whose sidecar
  file holds a key of 32 characters, blanks around it aside, is known with this key, and every other key stays.\<close>

theorem packs_activated:
  assumes "loadResourcePacks files instances packs keys stack = (keys', stack')" "\<And>chosen. instances chosen = chosen"
  shows "(\<exists>chosen. stack' = stack @ chosen \<and> distinct chosen \<and> set chosen = pack_identity ` set (archives packs) - set stack) \<and>
    getContentKey keys' i = (if i \<in> set stack then keys i else case first_pack packs i of None \<Rightarrow> keys i
      | Some p \<Rightarrow> if readContentKey files (pack_path p) \<noteq> [] then Some (readContentKey files (pack_path p)) else keys i)"
proof -
  obtain chosen where "choose_packs files packs (set stack) keys = (keys', chosen)" "stack' = stack @ chosen"
    using assms by (auto simp: loadResourcePacks_def split: prod.splits)
  with choose_packs_ids [OF this(1)] choose_packs_keys [OF this(1), of i] show ?thesis by (auto simp: getContentKey_def)
qed

lemma readContentKey_length: "readContentKey files path \<noteq> [] \<longleftrightarrow> (\<exists>t. files (path @ ''.key'') = Content t \<and> length (trim t) = 32)"
  by (auto simp: readContentKey_def Let_def split: sidecar.splits)

subsection \<open>Ticks\<close>

definition TicksPerSecond :: nat where "TicksPerSecond = 20"

text \<open>Floating point arithmetic.\<close>

record 'r arithmetic =
  f_int :: "nat \<Rightarrow> 'r"
  f_add :: "'r \<Rightarrow> 'r \<Rightarrow> 'r"
  f_div :: "'r \<Rightarrow> 'r \<Rightarrow> 'r"
  f_min :: "'r \<Rightarrow> 'r \<Rightarrow> 'r"
  f_max :: "'r \<Rightarrow> 'r \<Rightarrow> 'r"

record 'r metrics =
  current_mspt :: 'r
  current_tps :: 'r
  current_usage :: 'r
  average_mspt :: "'r list"
  average_tps :: "'r list"
  average_usage :: "'r list"

text \<open>An array initialised with one value has it in the first place only.\<close>

definition new_metrics :: "'r arithmetic \<Rightarrow> 'r metrics" where
  "new_metrics a = \<lparr>current_mspt = f_int a 50, current_tps = f_int a TicksPerSecond, current_usage = f_int a 0,
     average_mspt = f_int a 50 # replicate 19 (f_int a 0), average_tps = f_int a TicksPerSecond # replicate 19 (f_int a 0),
     average_usage = replicate 20 (f_int a 0)\<rparr>"

definition average :: "'r arithmetic \<Rightarrow> 'r list \<Rightarrow> 'r" where
  "average a xs = f_div a (fold (\<lambda>x acc. f_add a acc x) xs (f_int a 0)) (f_int a TicksPerSecond)"

text \<open>The end of a tick that took so many milliseconds.\<close>

definition record_tick :: "'r arithmetic \<Rightarrow> tick \<Rightarrow> nat \<Rightarrow> 'r metrics \<Rightarrow> 'r metrics" where
  "record_tick a t ms m = (let mspt = f_int a ms;
       tps = f_min a (f_int a TicksPerSecond) (f_div a (f_int a 1000) (f_max a (f_int a 1) mspt));
       usage = f_min a (f_int a 1) (f_div a mspt (f_int a 50));
       i = unat t mod TicksPerSecond in
     m\<lparr>current_mspt := mspt, current_tps := tps, current_usage := usage,
       average_mspt := (average_mspt m)[i := mspt], average_tps := (average_tps m)[i := tps], average_usage := (average_usage m)[i := usage]\<rparr>)"

record ('act, 'g, 'r) server =
  scheduler :: "'act scheduler"
  players :: "nat \<Rightarrow> 'g player"
  online :: "nat list"
  tick_metrics :: "'r metrics"

definition check_players :: "nat list \<Rightarrow> (nat \<Rightarrow> 'g player) \<Rightarrow> nat \<Rightarrow> 'g player" where
  "check_players os ps = fold (\<lambda>i ps. ps(i := checkOpStatus (ps i))) os ps"

text \<open>\<open>tick_function\<close> is the game's own tick, and \<open>work\<close> what the tasks that ran do to the rest of the server; these tasks are
  returned with the server.\<close>

definition server_tick :: "'r arithmetic \<Rightarrow> 'act Scheduler.script \<Rightarrow> (task_ref list \<Rightarrow> ('act, 'g, 'r) server \<Rightarrow> ('act, 'g, 'r) server) \<Rightarrow>
    (('act, 'g, 'r) server \<Rightarrow> ('act, 'g, 'r) server) \<Rightarrow> tick \<Rightarrow> nat \<Rightarrow> ('act, 'g, 'r) server \<Rightarrow> (('act, 'g, 'r) server \<times> task_ref list) option" where
  "server_tick a script work tick_function t ms s = (case mainThreadHeartbeat script t (scheduler s) of
     None \<Rightarrow> None
   | Some (sch, executed) \<Rightarrow> let s1 = tick_function ((work executed s)\<lparr>scheduler := sch\<rparr>);
         s2 = s1\<lparr>players := check_players (online s1) (players s1)\<rparr> in
       Some (s2\<lparr>tick_metrics := record_tick a t ms (tick_metrics s2)\<rparr>, executed))"

lemma check_twice: "checkOpStatus (checkOpStatus p) = checkOpStatus p"
  by (simp add: op_defs)

lemma check_players_at: "check_players os ps i = (if i \<in> set os then checkOpStatus (ps i) else ps i)"
  unfolding check_players_def by (induction os arbitrary: ps) (auto simp: check_twice)

text \<open>C36: A tick of the server runs exactly the tasks that are due and not cancelled, each once; the game then ticks from the state they leave;
  and after the game every player online whose status as an operator is not the one on record, and no other player, has its permissions and
  its commands computed anew under the present status, which is put on record. So each client whose commands agreed with the record agrees
  with the present status at the end of the tick.\<close>

theorem tick_brings_up_to_date:
  assumes "execute script0 es EndstoneScheduler = Some (scheduler s, l)"
    and "server_tick a script work tick_function t ms s = Some (s', executed)"
  shows "\<exists>sch s1. s1 = tick_function ((work executed s)\<lparr>scheduler := sch\<rparr>) \<and>
    distinct executed \<and> (\<forall>r \<in> set executed. due (tick_of t (scheduler s)) (scheduler s) r \<and> \<not> isCancelled (scheduler s) r) \<and>
    (\<forall>r. due (tick_of t (scheduler s)) (scheduler s) r \<and> \<not> isCancelled sch r \<longrightarrow> r \<in> set executed) \<and>
    scheduler s' = scheduler s1 \<and> online s' = online s1 \<and>
    (\<forall>i. players s' i = (let p = players s1 i in if i \<in> set (online s1) \<and> last_op_status p \<noteq> isOp p
       then p\<lparr>last_op_status := isOp p, effects := effects p @ [Recalculated, Commands_Updated (isOp p)]\<rparr> else p)) \<and>
    (\<forall>i \<in> set (online s1). told (effects (players s1 i)) = Some (last_op_status (players s1 i)) \<longrightarrow>
       told (effects (players s' i)) = Some (isOp (players s' i))) \<and> current_mspt (tick_metrics s') = f_int a ms"
proof -
  obtain sch s1 where h: "mainThreadHeartbeat script t (scheduler s) = Some (sch, executed)" "s1 = tick_function ((work executed s)\<lparr>scheduler := sch\<rparr>)"
      "s' = (s1\<lparr>players := check_players (online s1) (players s1)\<rparr>)\<lparr>tick_metrics := record_tick a t ms (tick_metrics s1)\<rparr>"
    using assms(2) by (auto simp: server_tick_def Let_def split: option.splits prod.splits)
  have "sched_inv (scheduler s)" using execute_inv [OF inv_init assms(1)] by blast
  note d = heartbeat_spec [OF this h(1)]
  have p: "players s' i = (let p = players s1 i in if i \<in> set (online s1) \<and> last_op_status p \<noteq> isOp p
       then p\<lparr>last_op_status := isOp p, effects := effects p @ [Recalculated, Commands_Updated (isOp p)]\<rparr> else p)" for i
    by (simp add: h(3) check_players_at op_defs Let_def)
  moreover have "told (effects (players s' i)) = Some (isOp (players s' i))"
    if "i \<in> set (online s1)" "told (effects (players s1 i)) = Some (last_op_status (players s1 i))" for i
    unfolding p using that by (simp add: op_defs Let_def)
  moreover have "current_mspt (tick_metrics s') = f_int a ms" "scheduler s' = scheduler s1" "online s' = online s1"
    using h(3) by (simp_all add: record_tick_def Let_def)
  ultimately show ?thesis using d h(2) by blast
qed

text \<open>The first value of an array only: before the first tick the average is a twentieth of what a tick has.\<close>

lemma average_before_ticks: "average a (average_tps (new_metrics a)) =
    f_div a (fold (\<lambda>x acc. f_add a acc x) (f_int a 20 # replicate 19 (f_int a 0)) (f_int a 0)) (f_int a 20)"
  by (simp add: average_def new_metrics_def TicksPerSecond_def)

subsection \<open>The last twenty ticks\<close>

definition tick_values :: "'r arithmetic \<Rightarrow> (tick \<times> nat) list \<Rightarrow> 'r metrics \<Rightarrow> 'r metrics" where
  "tick_values a xs m = fold (\<lambda>(t, ms). record_tick a t ms) xs m"

lemma record_tick_mspt: "average_mspt (record_tick a t ms m) = (average_mspt m)[unat t mod 20 := f_int a ms]"
  by (simp add: record_tick_def Let_def TicksPerSecond_def)

lemma tick_values_snoc: "tick_values a (xs @ [(t, ms)]) m = record_tick a t ms (tick_values a xs m)"
  by (simp add: tick_values_def)

lemma tick_values_length: "length (average_mspt m) = 20 \<Longrightarrow> length (average_mspt (tick_values a xs m)) = 20"
  by (induction xs rule: rev_induct) (auto simp: tick_values_snoc record_tick_mspt tick_values_def)

text \<open>After consecutive ticks the array holds the times of the last twenty of them, each at its own place.\<close>

theorem last_ticks_kept:
  assumes "length (average_mspt m) = 20" "unat t + length mss \<le> 2 ^ 64" "k < 20" "k < length mss"
  shows "average_mspt (tick_values a (zip (map (\<lambda>i. t + of_nat i) [0..<length mss]) mss) m) ! ((unat t + (length mss - 1 - k)) mod 20) =
    f_int a (mss ! (length mss - 1 - k))"
  using assms(2-)
proof (induction mss arbitrary: k rule: rev_induct)
  case (snoc ms mss)
  define n where "n = length mss"
  define prev where "prev = tick_values a (zip (map (\<lambda>i. t + of_nat i) [0..<n]) mss) m"
  have u: "unat (t + of_nat n) = unat t + n"
    using snoc.prems(1) by (simp add: n_def unat_word_ariths unat_of_nat)
  have z: "zip (map (\<lambda>i. t + of_nat i) [0..<length (mss @ [ms])]) (mss @ [ms]) = zip (map (\<lambda>i. t + of_nat i) [0..<n]) mss @ [(t + of_nat n, ms)]"
    by (simp add: n_def)
  have l: "length (average_mspt prev) = 20" unfolding prev_def by (rule tick_values_length [OF assms(1)])
  have v: "average_mspt (tick_values a (zip (map (\<lambda>i. t + of_nat i) [0..<length (mss @ [ms])]) (mss @ [ms])) m) =
      (average_mspt prev)[(unat t + n) mod 20 := f_int a ms]"
    unfolding z tick_values_snoc record_tick_mspt u prev_def ..
  show ?case
  proof (cases k)
    case 0
    then show ?thesis unfolding v using l by (simp add: n_def)
  next
    case (Suc j)
    then have j: "j < length mss" "j < 20" "n - 1 - j = n - k" using snoc.prems by (simp_all add: n_def)
    have "(unat t + (n - k)) mod 20 \<noteq> (unat t + n) mod 20"
    proof
      assume e: "(unat t + (n - k)) mod 20 = (unat t + n) mod 20"
      have "k \<le> n" using Suc j by (simp add: n_def)
      then have "(unat t + n) - (unat t + (n - k)) = k" by simp
      moreover have "20 dvd (unat t + n) - (unat t + (n - k))" using e mod_eq_dvd_iff_nat [of "unat t + (n - k)" "unat t + n" 20] by simp
      ultimately have "20 dvd k" by simp
      then show False using Suc snoc.prems(2) by (auto dest: dvd_imp_le)
    qed
    moreover have "average_mspt prev ! ((unat t + (n - k)) mod 20) = f_int a (mss ! (n - k))"
    proof -
      have "unat t + n \<le> 2 ^ 64" "j < 20" "j < n" using snoc.prems(1) j by (simp_all add: n_def)
      from snoc.IH [folded n_def, OF this] show ?thesis unfolding j(3) prev_def .
    qed
    moreover have "length mss - Suc j < length mss" using j(1) by linarith
    ultimately show ?thesis unfolding v using Suc j by (simp add: n_def nth_append)
  qed
qed simp

subsection \<open>Examples\<close>

definition demo_plugins :: "plugin_ref \<Rightarrow> description" where
  "demo_plugins p = (if p = 1 then \<lparr>load = Startup, declared = [kick, kick]\<rparr> else \<lparr>load = PostWorld, declared = []\<rparr>)"

definition bare_host :: "nat host" where
  "bare_host = \<lparr>events = \<lparr>event_handlers = [], enabled = {}, next_handler = 0\<rparr>, loaded_plugins = PluginManager, tasks_of = EndstoneScheduler, perms = op_start\<rparr>"

theorem plugins_of_phase_witness:
  "\<exists>h'. enable_loaded 5 demo_plugins Startup [1, 2] bare_host = Inr h' \<and> host_enabled 1 h' \<and> \<not> host_enabled 2 h' \<and> known (perms h') ''Kick''"
proof -
  let ?x = "enable_loaded 5 demo_plugins Startup [1, 2] bare_host"
  have "isl ?x = False" by code_simp
  then obtain h' where h: "?x = Inr h'" by (cases ?x) auto
  have "subs_inv (perms bare_host)" by (simp add: bare_host_def op_start_def empty_state_inv)
  note p = plugins_of_phase [OF this h]
  moreover have "\<not> host_enabled q bare_host" for q by (simp add: host_enabled_def bare_host_def)
  ultimately have "host_enabled 1 h'" "\<not> host_enabled 2 h'" "known (perms h') ''Kick''"
    by (auto simp: demo_plugins_def kick_def)
  then show ?thesis using h by blast
qed

theorem broadcast_reaches_witness:
  "\<exists>s ds. perm_run 5 [Add_Permission kick, Set_Level 7 Level_Default] op_start = Inr s \<and>
     broadcast (\<lambda>p. if p = 7 then Some Player_Sender else None) (\<lambda>_ m _. Some m) True (Text ''hi'') ''Warn'' s = (ds, None) \<and> (7, Text ''hi'') \<in> set ds"
proof -
  let ?as = "\<lambda>p :: nat. if p = 7 then Some Player_Sender else None"
  let ?x = "perm_run 5 [Add_Permission kick, Set_Level 7 Level_Default] op_start"
  have x: "?x = Inr (projr ?x)" by (rule sum.collapse(2) [symmetric]) code_simp
  obtain ds e where b: "broadcast ?as (\<lambda>_ m _. Some m) True (Text ''hi'') ''Warn'' (projr ?x) = (ds, e)" by fastforce
  have "isPermissionSet (projr ?x) 7 ''Warn'' \<and> hasPermission (projr ?x) 7 ''Warn''" by code_simp
  with broadcast_reaches [OF x [unfolded op_start_def] refl _ b [unfolded op_start_def]] have "e = None" "(7, Text ''hi'') \<in> set ds"
    by (simp_all add: op_start_def)
  then show ?thesis using x b by blast
qed

definition demo_packs :: "nat pack list" where
  "demo_packs = [\<lparr>pack_identity = 1, pack_type = Resources, pack_path = ''a.MCPACK''\<rparr>, \<lparr>pack_identity = 2, pack_type = Resources, pack_path = ''b''\<rparr>,
     \<lparr>pack_identity = 1, pack_type = Resources, pack_path = ''c.zip''\<rparr>, \<lparr>pack_identity = 3, pack_type = Other_Type, pack_path = ''d.zip''\<rparr>]"

definition demo_sidecars :: "string \<Rightarrow> sidecar" where
  "demo_sidecars f = (if f = ''a.MCPACK.key'' then Content (replicate 32 CHR ''k'' @ [CHR '' '']) else No_File)"

theorem packs_activated_witness:
  "\<exists>keys stack. loadResourcePacks demo_sidecars (\<lambda>ids. ids) demo_packs (\<lambda>_. None) [4] = (keys, stack) \<and>
     getContentKey keys 1 = Some (replicate 32 CHR ''k'') \<and> set stack = {4, 1}"
proof -
  obtain keys stack where l: "loadResourcePacks demo_sidecars (\<lambda>ids. ids) demo_packs (\<lambda>_. None) [4] = (keys, stack)" by fastforce
  have a: "map pack_identity (archives demo_packs) = [1, 1]" by code_simp
  have r: "map_option (\<lambda>p. readContentKey demo_sidecars (pack_path p)) (first_pack demo_packs 1) = Some (replicate 32 CHR ''k'')" by code_simp
  note p = packs_activated [OF l refl, of 1]
  have "getContentKey keys 1 = Some (replicate 32 CHR ''k'')" using p r by (auto split: option.splits)
  moreover have "pack_identity ` set (archives demo_packs) = {1}" using arg_cong [OF a, of set] by simp
  then have "set stack = {4, 1}" using p by auto
  ultimately show ?thesis using l by blast
qed

definition demo_arithmetic :: "real arithmetic" where
  "demo_arithmetic = \<lparr>f_int = of_nat, f_add = (+), f_div = (/), f_min = min, f_max = max\<rparr>"

definition demo_server :: "(nat, unit, real) server" where
  "demo_server = \<lparr>scheduler = EndstoneScheduler, players = (\<lambda>_. demo_player), online = [3], tick_metrics = new_metrics demo_arithmetic\<rparr>"

theorem tick_brings_up_to_date_witness:
  "\<exists>s'. server_tick demo_arithmetic (\<lambda>_ _. []) (\<lambda>_ s. s) (\<lambda>s. s\<lparr>players := (players s)(3 := (players s 3)\<lparr>permission := Admin\<rparr>)\<rparr>) 40 12 demo_server =
     Some (s', []) \<and> told (effects (players s' 3)) = Some True"
proof -
  let ?g = "\<lambda>s :: (nat, unit, real) server. s\<lparr>players := (players s)(3 := (players s 3)\<lparr>permission := Admin\<rparr>)\<rparr>"
  have e: "execute (\<lambda>_ _. []) [] EndstoneScheduler = Some (scheduler demo_server, [])" by (simp add: demo_server_def)
  have "map_option snd (mainThreadHeartbeat (\<lambda>_ _. []) 40 (EndstoneScheduler :: nat scheduler)) = Some []" by code_simp
  then obtain sch where h: "mainThreadHeartbeat (\<lambda>_ _. []) 40 (scheduler demo_server) = Some (sch, [])" by (auto simp: demo_server_def)
  obtain s' where t: "server_tick demo_arithmetic (\<lambda>_ _. []) (\<lambda>_ s. s) ?g 40 12 demo_server = Some (s', [])"
    by (simp add: server_tick_def h Let_def)
  from tick_brings_up_to_date [OF e t] obtain sch1 where
    "\<forall>i. players s' i = (let p = players (?g (demo_server\<lparr>scheduler := sch1\<rparr>)) i in if i \<in> set (online (?g (demo_server\<lparr>scheduler := sch1\<rparr>))) \<and> last_op_status p \<noteq> isOp p
       then p\<lparr>last_op_status := isOp p, effects := effects p @ [Recalculated, Commands_Updated (isOp p)]\<rparr> else p)"
    by metis
  then have "told (effects (players s' 3)) = Some True" by (simp add: demo_server_def demo_player_def op_defs)
  then show ?thesis using t by blast
qed

theorem last_ticks_kept_witness:
  "average_mspt (tick_values demo_arithmetic [(39, 7), (40, 9)] (new_metrics demo_arithmetic)) ! 19 = 7"
proof -
  have "length (average_mspt (new_metrics demo_arithmetic)) = 20" by (simp add: new_metrics_def)
  from last_ticks_kept [OF this, of 39 "[7, 9]" 1 demo_arithmetic] show ?thesis by (simp add: demo_arithmetic_def)
qed

end
