(* ===== verification/Gameplay_Hooks.thy ===== *)
theory Gameplay_Hooks
  imports Command_Map Block_Hooks Player_Api
begin

text \<open>
  Hooks of gameplay (\<open>src/endstone/runtime/bedrock_hooks\<close>): chat, commands that are typed, actors that come and go, kicks, weather, explosions,
  items that are dropped, beds, and the death and the leaving of a player. Each turns what the game is about to do into an event and goes on by
  its answer; the listeners' answers and the original functions are parameters.
\<close>

subsection \<open>Chat\<close>

datatype coordinator_result = Continue | Cancel

text \<open>The sender and the targets are weak references, which may be gone.\<close>

record chat_event =
  chat_sender :: "nat option"
  chat_message :: string
  targets :: "nat option list option"

datatype chat_output = Raw_To nat string | Chat_To nat nat string | Logged string | Format_Error

text \<open>What the listeners leave: the player, the message, the format and, if asked for, the recipients.\<close>

record chat_answer =
  ans_player :: nat
  ans_message :: string
  ans_format :: string

definition DEFAULT_FORMAT :: string where "DEFAULT_FORMAT = ''<{0}> {1}''"

definition recipients_left :: "nat list \<Rightarrow> chat_event \<Rightarrow> nat list" where
  "recipients_left online e = (case targets e of None \<Rightarrow> online | Some ts \<Rightarrow> map the (filter (\<lambda>t. t \<noteq> None) ts))"

text \<open>\<open>sendMessage\<close> throws for an empty message.\<close>

fun send_raw :: "string \<Rightarrow> nat list \<Rightarrow> chat_output list \<times> bool" where
  "send_raw m [] = ([], True)"
| "send_raw m (p # ps) = (if m = [] then ([], False) else let (os, ok) = send_raw m ps in (Raw_To p m # os, ok))"

text \<open>\<open>vformat\<close> is the library's formatting of the name and the message, \<open>original\<close> the scripts' handler, which may change the message. The
  result is \<open>None\<close> when an exception leaves the hook.\<close>

definition handle_chat :: "(nat \<Rightarrow> string) \<Rightarrow> nat list \<Rightarrow> (string \<Rightarrow> string \<Rightarrow> string \<Rightarrow> string option) \<Rightarrow> (chat_event \<Rightarrow> chat_answer option) \<Rightarrow>
    (chat_event \<Rightarrow> chat_event \<times> coordinator_result) \<Rightarrow> chat_event \<Rightarrow> chat_event \<times> chat_output list \<times> coordinator_result option" where
  "handle_chat name online vformat listener original e = (case chat_sender e of
     None \<Rightarrow> (let (e', r) = original e in (e', [], Some r))
   | Some p \<Rightarrow> (case listener e of
       None \<Rightarrow> (e, [], Some Cancel)
     | Some a \<Rightarrow> (case vformat (ans_format a) (name (ans_player a)) (ans_message a) of
         None \<Rightarrow> (e, [Format_Error], Some Cancel)
       | Some m \<Rightarrow> (let (e', r) = original (e\<lparr>chat_message := ans_message a\<rparr>); rs = recipients_left online e in
           if r \<noteq> Continue then (e', [], Some r)
           else if ans_format a \<noteq> DEFAULT_FORMAT then
             (let (os, ok) = send_raw m rs in if ok then (e', os @ [Logged m], Some Cancel) else (e', os, None))
           else if ans_message a \<noteq> chat_message e' then (e', map (\<lambda>q. Chat_To q (ans_player a) (ans_message a)) rs, Some Cancel)
           else (e', [Logged m], Some r)))))"

fun addressee :: "chat_output \<Rightarrow> nat option" where
  "addressee (Raw_To q m) = Some q"
| "addressee (Chat_To q p m) = Some q"
| "addressee (Logged m) = None"
| "addressee Format_Error = None"

definition addressees :: "chat_output list \<Rightarrow> nat list" where
  "addressees os = map the (filter (\<lambda>x. x \<noteq> None) (map addressee os))"

lemma addressees_simps [simp]:
  "addressees [] = []" "addressees (Raw_To q m # os) = q # addressees os" "addressees (Chat_To q p m # os) = q # addressees os"
  "addressees (Logged m # os) = addressees os" "addressees (Format_Error # os) = addressees os"
  "addressees (os @ os') = addressees os @ addressees os'"
  by (simp_all add: addressees_def)


lemma addressees_map [simp]: "addressees (map (\<lambda>p. Raw_To p m) ps) = ps" "addressees (map (\<lambda>q. Chat_To q p m) ps) = ps"
  by (induction ps) simp_all


text \<open>The message of the event is set before the scripts run, so the second branch compares with what they made of it: a change by a listener
  alone goes the game's way, and one by a script is undone.\<close>

lemma script_change_undone:
  assumes "chat_sender e = Some p" "listener e = Some a" "ans_format a = DEFAULT_FORMAT" "vformat (ans_format a) (name (ans_player a)) (ans_message a) = Some m"
    and "original (e\<lparr>chat_message := ans_message a\<rparr>) = (e', Continue)" "chat_message e' \<noteq> ans_message a"
  shows "handle_chat name online vformat listener original e =
    (e', map (\<lambda>q. Chat_To q (ans_player a) (ans_message a)) (recipients_left online e), Some Cancel)"
  using assms by (auto simp: handle_chat_def)

subsection \<open>Commands\<close>

datatype origin_type = Player_Origin | Dedicated_Server | Other_Origin

datatype mc_result = Success | Command_Not_Found | Commands_Disabled | From_Game nat

text \<open>\<open>execute\<close> runs a command for the player or for the console; the command line goes through the map's own \<open>dispatch\<close>.\<close>

definition dispatched :: "(string \<Rightarrow> string list) \<Rightarrow> (string \<Rightarrow> string list + string list) \<Rightarrow> (command_ref \<Rightarrow> string list \<Rightarrow> 'x + bool) \<Rightarrow> command_map \<Rightarrow>
    string \<Rightarrow> map_error + mc_result" where
  "dispatched split compile execute m c = chain (dispatch split True compile execute m c) (\<lambda>(ok, ms). Inr (if ok then Success else Command_Not_Found))"

text \<open>The listeners of the two events leave a command line or cancel; a command of a player may be logged.\<close>

definition executeCommand :: "(bool \<Rightarrow> string \<Rightarrow> string option) \<Rightarrow> (string \<Rightarrow> string list) \<Rightarrow> (string \<Rightarrow> string list + string list) \<Rightarrow>
    (bool \<Rightarrow> command_ref \<Rightarrow> string list \<Rightarrow> 'x + bool) \<Rightarrow> command_map \<Rightarrow> bool \<Rightarrow> origin_type \<Rightarrow> nat \<Rightarrow> string \<Rightarrow> (map_error + mc_result) \<times> string list" where
  "executeCommand listener split compile execute m log_commands t original command_line = (case t of
     Player_Origin \<Rightarrow> (case listener True command_line of
         None \<Rightarrow> (Inr Commands_Disabled, [])
       | Some c \<Rightarrow> (dispatched split compile (execute True) m c, if log_commands then [c] else []))
   | Dedicated_Server \<Rightarrow> (case listener False command_line of
         None \<Rightarrow> (Inr Commands_Disabled, [])
       | Some c \<Rightarrow> (dispatched split compile (execute False) m c, []))
   | Other_Origin \<Rightarrow> (Inr (From_Game original), []))"

text \<open>The line that is dispatched is the one the listeners leave; with a slash in front it is the same command.\<close>

lemma leading_slash: "c \<noteq> [] \<Longrightarrow> hd c \<noteq> CHR ''/'' \<Longrightarrow> dispatched split compile execute m (CHR ''/'' # c) = dispatched split compile execute m c"
  by (simp add: dispatched_def dispatch_def)

subsection \<open>Actors that come and go\<close>

record actor =
  actor_is_player :: bool
  remove_flag :: bool
  spawn_events :: nat
  remove_events :: nat

text \<open>\<open>despawn\<close> is the game's; the actor is removed later, by a step of its own.\<close>

definition added_actor :: "bool \<Rightarrow> actor \<Rightarrow> actor" where
  "added_actor cancelled a = (if actor_is_player a then a
     else let b = a\<lparr>spawn_events := spawn_events a + 1\<rparr> in if cancelled then b\<lparr>remove_flag := True\<rparr> else b)"

definition removed_actor :: "actor \<Rightarrow> actor" where
  "removed_actor a = (if actor_is_player a then a
     else if remove_flag a then a\<lparr>remove_flag := False\<rparr>
     else a\<lparr>remove_events := remove_events a + 1\<rparr>)"

text \<open>Every actor but a player is announced when it comes, and when it goes if and only if it was allowed to come.\<close>

lemma removal_announced:
  assumes "\<not> remove_flag a" "a' = removed_actor (added_actor cancelled a)"
  shows "\<not> remove_flag a' \<and> spawn_events a' = spawn_events a + (if actor_is_player a then 0 else 1) \<and>
    remove_events a' = remove_events a + (if actor_is_player a \<or> cancelled then 0 else 1)"
  using assms by (simp add: removed_actor_def added_actor_def Let_def)

subsection \<open>Kicks\<close>

text \<open>The connection of a client: its player, if it has one, with the flag of an internal disconnect.\<close>

record session =
  joined_player :: bool
  internal_disconnect :: bool
  kick_events :: "string list"
  disconnected_with :: "string option"
  closed :: bool

text \<open>\<open>translate\<close> looks the message up; \<open>listener\<close> leaves a reason or cancels.\<close>

definition disconnectClientWithMessage :: "(string \<Rightarrow> string) \<Rightarrow> (string \<Rightarrow> string option) \<Rightarrow> bool \<Rightarrow> string \<Rightarrow> session \<Rightarrow> session" where
  "disconnectClientWithMessage translate listener primary message s =
     (let go = (\<lambda>m s. s\<lparr>disconnected_with := Some m, closed := (if primary then True else closed s)\<rparr>) in
      if \<not> joined_player s then go message s
      else if internal_disconnect s then go message (s\<lparr>internal_disconnect := False\<rparr>)
      else let kick_message = translate message; s1 = s\<lparr>kick_events := kick_events s @ [kick_message]\<rparr> in
        (case listener kick_message of
           None \<Rightarrow> s1
         | Some reason \<Rightarrow> go (if reason \<noteq> message then reason else message) s1))"

definition disconnect :: "(string \<Rightarrow> string) \<Rightarrow> (string \<Rightarrow> string option) \<Rightarrow> bool \<Rightarrow> string \<Rightarrow> session \<Rightarrow> session" where
  "disconnect translate listener primary reason s = disconnectClientWithMessage translate listener primary reason
     (if joined_player s then s\<lparr>internal_disconnect := True\<rparr> else s)"

text \<open>A refused login is put through without an event; a kick asks the listeners once, and is done with the reason they leave.\<close>

lemma disconnect_silent:
  "disconnect translate listener primary reason s =
    s\<lparr>internal_disconnect := (if joined_player s then False else internal_disconnect s), disconnected_with := Some reason, closed := (primary \<or> closed s)\<rparr>"
  by (simp add: disconnect_def disconnectClientWithMessage_def Let_def)

lemma kick_asks_once:
  assumes "joined_player s" "\<not> internal_disconnect s" "s' = disconnectClientWithMessage translate listener primary message s"
  shows "kick_events s' = kick_events s @ [translate message] \<and> \<not> internal_disconnect s' \<and>
    disconnected_with s' = (case listener (translate message) of None \<Rightarrow> disconnected_with s | Some r \<Rightarrow> Some r) \<and>
    closed s' = (closed s \<or> primary \<and> listener (translate message) \<noteq> None)"
  using assms by (auto simp: disconnectClientWithMessage_def Let_def split: option.splits)

subsection \<open>Weather\<close>

text \<open>Levels of rain and lightning; \<open>wet\<close> is the test whether one is greater than zero. \<open>None\<close> for a listener's answer is a cancelled event.\<close>

definition settle :: "('r \<Rightarrow> bool) \<Rightarrow> (bool \<Rightarrow> bool) \<Rightarrow> 'r \<Rightarrow> 'r \<Rightarrow> 'r" where
  "settle wet cancelled present wanted = (if wet present \<noteq> wet wanted \<and> cancelled (wet wanted) then present else wanted)"

definition updateWeather :: "('r \<Rightarrow> bool) \<Rightarrow> (bool \<Rightarrow> bool) \<Rightarrow> (bool \<Rightarrow> bool) \<Rightarrow> bool \<Rightarrow> 'r \<times> 'r \<Rightarrow> 'r \<times> 'r \<Rightarrow> 'r \<times> 'r" where
  "updateWeather wet rain_cancelled lightning_cancelled has_level present wanted = (if has_level
     then (settle wet rain_cancelled (fst present) (fst wanted), settle wet lightning_cancelled (snd present) (snd wanted)) else wanted)"

definition weather_changed :: "(bool \<Rightarrow> bool) \<Rightarrow> (bool \<Rightarrow> bool) \<Rightarrow> bool \<times> bool \<Rightarrow> bool \<times> bool \<Rightarrow> bool \<times> bool" where
  "weather_changed rain_cancelled lightning_cancelled present wanted =
     (if fst present \<noteq> fst wanted \<and> rain_cancelled (fst wanted) then fst present else fst wanted,
      if snd present \<noteq> snd wanted \<and> lightning_cancelled (snd wanted) then snd present else snd wanted)"

lemma weather_cancelled:
  "wet (settle wet cancelled present wanted) = (if wet present \<noteq> wet wanted \<and> cancelled (wet wanted) then wet present else wet wanted)"
  by (simp add: settle_def)

subsection \<open>Explosions\<close>

text \<open>The position of the explosion that goes on, which the events of damage and knockback read. An explosion may set off others
  while it goes on: \<open>Explode\<close> has what happens inside.\<close>

datatype 'v blast = Explode 'v "'v blast list" | Damage

text \<open>The positions the events see, and the one that is left.\<close>

fun explode :: "'v blast \<Rightarrow> 'v option \<Rightarrow> 'v option list \<times> 'v option"
and explode_all :: "'v blast list \<Rightarrow> 'v option \<Rightarrow> 'v option list \<times> 'v option" where
  "explode Damage at_pos = ([at_pos], at_pos)"
| "explode (Explode v bs) at_pos = (fst (explode_all bs (Some v)), None)"
| "explode_all [] at_pos = ([], at_pos)"
| "explode_all (b # bs) at_pos = (let (es, at_pos1) = explode b at_pos; (fs, at_pos2) = explode_all bs at_pos1 in (es @ fs, at_pos2))"

text \<open>An explosion within another takes the position away from what the outer one does after it.\<close>

lemma nested_explosion: "fst (explode (Explode v [Damage, Explode w [Damage], Damage]) None) = [Some v, Some w, None]"
  by simp

text \<open>What is left of the blocks of an explosion: \<open>None\<close> when it is cancelled, else those the listeners leave. Without a source and without a
  position there is no event.\<close>

definition explosion_started :: "('b list \<Rightarrow> 'b option list option) \<Rightarrow> bool \<Rightarrow> 'v option \<Rightarrow> 'b list \<Rightarrow> 'b set option" where
  "explosion_started listener has_source at_pos blocks = (if \<not> has_source \<and> at_pos = None then Some (set blocks)
     else (case listener blocks of None \<Rightarrow> None | Some bs \<Rightarrow> Some {b. Some b \<in> set bs}))"

subsection \<open>Items that are dropped\<close>

datatype transaction_error = Unknown | No_Error

text \<open>\<open>Player::drop\<close>: the listeners are asked for a living player; \<open>original\<close> is what the game's function returns.\<close>

definition player_drop :: "bool \<Rightarrow> bool \<Rightarrow> bool \<Rightarrow> bool" where
  "player_drop alive cancelled original = (if alive \<and> cancelled then False else original)"

text \<open>An action by its slot and whether it has an item to take from and one to put.\<close>

definition executeWorldInteraction :: "nat \<Rightarrow> bool \<Rightarrow> bool \<Rightarrow> bool \<Rightarrow> bool \<Rightarrow> bool \<Rightarrow> transaction_error" where
  "executeWorldInteraction slot from_item to_item alive cancelled original =
     (if slot = 0 \<and> \<not> from_item \<and> to_item then (if player_drop alive cancelled original then No_Error else Unknown)
      else if slot = 1 \<and> from_item \<and> \<not> to_item then No_Error
      else Unknown)"

definition player_take :: "bool \<Rightarrow> bool \<Rightarrow> bool \<Rightarrow> bool \<Rightarrow> bool \<Rightarrow> bool" where
  "player_take client_side can_interact is_item cancelled original =
     (if client_side \<or> \<not> can_interact then False else if is_item \<and> cancelled then False else original)"

text \<open>A drop that was cancelled fails, so the client puts the item back.\<close>

lemma cancelled_drop_fails: "executeWorldInteraction 0 False True True True original = Unknown"
  by (simp add: executeWorldInteraction_def player_drop_def)

subsection \<open>Going to bed\<close>

datatype bed_result = Bed_OK | Not_Possible_Here | Not_Possible_Now | Too_Far_Away | Other_Problem | Not_Safe | Bed_Obstructed

text \<open>What is asked of the player and its surroundings; \<open>far_from\<close> compares positions in floating point numbers.\<close>

record sleeper =
  asleep :: bool
  lives :: bool
  can_sleep :: bool
  far_from :: "pos \<Rightarrow> bool"
  natural_dimension :: bool
  bright_outside :: bool
  creative :: bool
  peaceful :: bool
  monsters_near :: "pos \<Rightarrow> bool"

definition getBedResult :: "bed_region \<Rightarrow> sleeper \<Rightarrow> pos \<Rightarrow> hook_error + bed_result" where
  "getBedResult w s p = (if \<not> asleep s \<and> lives s \<and> can_sleep s then
       (if far_from s p then Inr Too_Far_Away
        else if \<not> natural_dimension s then Inr Not_Possible_Here
        else chain (findWakeupPosition w p None) (\<lambda>wakeup.
          Inr (if wakeup = None then Bed_Obstructed
            else if bright_outside s then Not_Possible_Now
            else if \<not> creative s \<and> \<not> peaceful s \<and> monsters_near s p then Not_Safe
            else Bed_OK)))
     else Inr Other_Problem)"

text \<open>The listeners are asked when the player may sleep; \<open>None\<close> hands over to the game's function.\<close>

definition startSleepInBed :: "bed_region \<Rightarrow> sleeper \<Rightarrow> bool \<Rightarrow> pos \<Rightarrow> hook_error + bed_result option" where
  "startSleepInBed w s cancelled p = chain (getBedResult w s p) (\<lambda>r. Inr (if r = Bed_OK \<and> cancelled then Some Other_Problem else None))"

lemma found_in: "find P xs = Some x \<Longrightarrow> x \<in> set xs \<and> P x"
  by (auto simp: find_Some_iff)

text \<open>A player may sleep exactly when it is awake, alive and able to, close to the bed, in a dimension that has nights, has a place to get up
  at that is on the list of the bed, it is dark, and no monster is near that matters to it.\<close>

theorem bed_ok_iff:
  assumes "getBedResult w s p = Inr r" "is_bed w p"
  shows "r = Bed_OK \<longleftrightarrow> \<not> asleep s \<and> lives s \<and> can_sleep s \<and> \<not> far_from s p \<and> natural_dimension s \<and> \<not> bright_outside s \<and>
    (creative s \<or> peaceful s \<or> \<not> monsters_near s p) \<and>
    (\<exists>ps q. wakeup_positions w p None = Inr ps \<and> q \<in> set ps \<and> isValidStandUpPosition w q)"
proof (cases "\<not> asleep s \<and> lives s \<and> can_sleep s \<and> \<not> far_from s p \<and> natural_dimension s")
  case True
  then obtain wake where f: "findWakeupPosition w p None = Inr wake"
    using assms(1) by (cases "findWakeupPosition w p None") (auto simp: getBedResult_def chain_def)
  then obtain ps where ps: "wakeup_positions w p None = Inr ps" "wake = first_standup w ps None"
    using assms(2) by (cases "wakeup_positions w p None") (auto simp: findWakeupPosition_def chain_def)
  have "wake \<noteq> None \<longleftrightarrow> (\<exists>q \<in> set ps. isValidStandUpPosition w q)"
  proof (cases "find (\<lambda>p. isValidStandUpPosition w p \<and> \<not> isDangerousSpawnPosition w p) ps")
    case None
    have "find (isValidStandUpPosition w) ps = None \<longleftrightarrow> \<not> (\<exists>q \<in> set ps. isValidStandUpPosition w q)"
      unfolding find_None_iff by blast
    then show ?thesis using None by (simp add: ps(2) first_standup_eq)
  next
    case (Some q)
    then show ?thesis using found_in [OF Some] by (auto simp: ps(2) first_standup_eq)
  qed
  then show ?thesis using assms(1) True f ps(1) by (auto simp: getBedResult_def chain_def split: if_splits)
next
  case False
  then show ?thesis using assms(1) by (auto simp: getBedResult_def split: if_splits)
qed

subsection \<open>Death and leaving\<close>

datatype farewell = Death_Info message | Told_Everyone message | Board_Removed | Quit_Asked message

definition told_if :: "bool \<Rightarrow> message \<Rightarrow> farewell list" where
  "told_if wanted m = (if wanted \<and> m \<noteq> Text [] then [Told_Everyone m] else [])"

text \<open>A player that was hurt and is not alive any more: its forms are closed, and the death is told to its client and to everyone. The packet
  shows a plain text as one without parameters.\<close>

definition as_translatable :: "message \<Rightarrow> message" where
  "as_translatable m = (case m of Text t \<Rightarrow> Translatable t [] | _ \<Rightarrow> m)"

definition player_damaged :: "(message \<Rightarrow> message option) \<Rightarrow> bool \<Rightarrow> bool \<Rightarrow> message \<Rightarrow> 'f Forms.session \<Rightarrow> 'f Forms.session \<times> farewell list" where
  "player_damaged listener show_deaths alive m s = (if alive then (s, [])
     else let m' = (case listener m of None \<Rightarrow> Text [] | Some x \<Rightarrow> x) in (closeForm s, Death_Info (as_translatable m') # told_if show_deaths m'))"

definition player_disconnects :: "(message \<Rightarrow> message option) \<Rightarrow> bool \<Rightarrow> message \<Rightarrow> farewell list" where
  "player_disconnects listener connection_text m = [Board_Removed, Quit_Asked m] @
     told_if connection_text (case listener m of None \<Rightarrow> Text [] | Some x \<Rightarrow> x)"

text \<open>No answer to a form that was open at the death has any effect, not even when the player lives again.\<close>

lemma forms_die:
  "player_damaged listener show_deaths False m s = (s', fs) \<Longrightarrow> onFormResponse script whole i j (s'\<lparr>dead := b\<rparr>) = s'\<lparr>dead := b\<rparr> \<and>
    onFormClose script i (s'\<lparr>dead := b\<rparr>) = s'\<lparr>dead := b\<rparr>"
  by (auto simp: player_damaged_def Let_def closeForm_def logged_def onFormResponse_def onFormClose_def)

subsection \<open>Examples\<close>



definition demo_sleeper :: sleeper where
  "demo_sleeper = \<lparr>asleep = False, lives = True, can_sleep = True, far_from = (\<lambda>_. False), natural_dimension = True, bright_outside = True,
     creative = False, peaceful = False, monsters_near = (\<lambda>_. False)\<rparr>"

definition demo_bed :: bed_region where
  "demo_bed = \<lparr>is_bed = (\<lambda>p. p = (0, 0, 0)), bed_direction = (\<lambda>_. 0), has_head_bit = (\<lambda>_. False), second_part = (\<lambda>p. p),
     hurts = (\<lambda>_. False), collides = (\<lambda>_. False), obstructs = (\<lambda>_. False), is_empty = (\<lambda>_. False)\<rparr>"

theorem bed_ok_iff_witness:
  "\<exists>r. getBedResult demo_bed demo_sleeper (0, 0, 0) = Inr r \<and> r \<noteq> Bed_OK"
proof -
  have "isl (getBedResult demo_bed demo_sleeper (0, 0, 0)) = False" by code_simp
  then obtain r where r: "getBedResult demo_bed demo_sleeper (0, 0, 0) = Inr r" by (cases "getBedResult demo_bed demo_sleeper (0, 0, 0)") auto
  have "is_bed demo_bed (0, 0, 0)" by (simp add: demo_bed_def)
  from bed_ok_iff [OF r this] have "r \<noteq> Bed_OK" by (simp add: demo_sleeper_def)
  then show ?thesis using r by blast
qed

end
