(* ===== verification/Item_Stack.thy ===== *)
theory Item_Stack
  imports Nbt
begin

text \<open>
  The item stacks of the game (\<open>src/bedrock/world/item/item_stack_base.cpp\<close>): making, copying, assigning, comparing and clearing them, and
  reading their data from the network (\<open>src/endstone/runtime/bedrock_hooks/item.cpp\<close>). Items, block types and block states are numbers; what
  the game's tables say of them, the lookup of an item by its number, the reading of a charged item and the clock are parameters.
\<close>

subsection \<open>State\<close>

record parts =
  the_item :: "nat option"
  the_block :: "nat option"
  aux :: "16 word"
  amount :: byte
  valid :: bool
  tags :: "tag_map option"
  show_pick_up :: bool
  was_picked_up :: bool
  can_place_on :: "nat list"
  place_hash :: "64 word"
  can_destroy :: "nat list"
  destroy_hash :: "64 word"
  blocking_tick :: "64 word"
  pick_up_time :: int

text \<open>A stack and the item it is charged with.\<close>

datatype item_stack = Stack parts "item_stack option"

fun parts_of :: "item_stack \<Rightarrow> parts" where "parts_of (Stack p c) = p"
fun charged_item :: "item_stack \<Rightarrow> item_stack option" where "charged_item (Stack p c) = c"

text \<open>The tables of the game. \<open>set_item\<close> is \<open>_setItem\<close>, which is code of the game.\<close>

record item_tables =
  set_item :: "int \<Rightarrow> bool \<Rightarrow> parts \<Rightarrow> parts"
  item_id :: "nat \<Rightarrow> int"
  is_air :: "nat \<Rightarrow> bool"
  item_block_type :: "nat \<Rightarrow> nat option"
  max_stack_size :: "parts \<Rightarrow> int"
  block_type_of :: "nat \<Rightarrow> nat"
  block_data :: "nat \<Rightarrow> 16 word"
  render_block :: "nat \<Rightarrow> nat"
  block_item_id :: "nat \<Rightarrow> int"
  legacy_state :: "nat \<Rightarrow> int \<Rightarrow> nat option"
  hash :: "nat \<Rightarrow> 64 word"
  checks_version :: bool
  item_fits :: "nat \<Rightarrow> bool"
  block_fits :: "nat \<Rightarrow> bool"
  charged_from :: "tag_map \<Rightarrow> item_stack"

definition ANY_AUX_VALUE :: "16 word" where "ANY_AUX_VALUE = 0x7FFF"
definition START_ITEM_ID :: int where "START_ITEM_ID = 256"
definition INVALID_ITEM_ID :: int where "INVALID_ITEM_ID = - 1"

definition ascii :: "string \<Rightarrow> bytes" where "ascii s = map of_char s"
definition TAG_DISPLAY :: bytes where "TAG_DISPLAY = ascii ''display''"
definition TAG_DISPLAY_NAME :: bytes where "TAG_DISPLAY_NAME = ascii ''Name''"
definition TAG_CHARGED_ITEM :: bytes where "TAG_CHARGED_ITEM = ascii ''chargedItem''"

subsection \<open>Hashes and the empty stack\<close>

definition compare_hash :: "item_tables \<Rightarrow> nat list \<Rightarrow> 64 word" where
  "compare_hash g bs = fold (\<lambda>b h. h XOR (hash g b + 0x9e3779b9 + push_bit 6 h + drop_bit 2 h)) bs 0"

definition update_hashes :: "item_tables \<Rightarrow> parts \<Rightarrow> parts" where
  "update_hashes g p = p\<lparr>can_place_on := sort (can_place_on p), place_hash := compare_hash g (sort (can_place_on p)),
     can_destroy := sort (can_destroy p), destroy_hash := compare_hash g (sort (can_destroy p))\<rparr>"

text \<open>A stack before its constructor runs.\<close>

definition blank :: item_stack where
  "blank = Stack \<lparr>the_item = None, the_block = None, aux = 0, amount = 0, valid = True, tags = None, show_pick_up = True, was_picked_up = False,
     can_place_on = [], place_hash = 0, can_destroy = [], destroy_hash = 0, blocking_tick = 0, pick_up_time = 0\<rparr> None"

text \<open>Everything but the flag of validity and the time of picking up is reset.\<close>

definition setNull :: "item_tables \<Rightarrow> item_stack \<Rightarrow> item_stack" where
  "setNull g s = Stack (update_hashes g ((parts_of s)\<lparr>amount := 0, the_block := None, aux := 0, the_item := None, tags := None, show_pick_up := True,
     was_picked_up := False, can_place_on := [], can_destroy := [], blocking_tick := 0\<rparr>)) None"

definition isNull :: "item_tables \<Rightarrow> item_stack \<Rightarrow> bool" where
  "isNull g s = (let p = parts_of s in
     if \<not> valid p then True
     else if (case the_item p of Some i \<Rightarrow> is_air g i | None \<Rightarrow> False) then True
     else amount p = 0 \<and> the_block p = None \<and> aux p = 0 \<and> the_item p = None \<and> tags p = None \<and> destroy_hash p = 0 \<and> place_hash p = 0)"

text \<open>\<open>operator bool\<close>.\<close>

definition usable :: "item_tables \<Rightarrow> item_stack \<Rightarrow> bool" where
  "usable g s \<longleftrightarrow> valid (parts_of s) \<and> the_item (parts_of s) \<noteq> None \<and> \<not> isNull g s \<and> amount (parts_of s) \<noteq> 0"

subsection \<open>Accessors\<close>

definition getId :: "item_tables \<Rightarrow> parts \<Rightarrow> int" where
  "getId g p = (if \<not> valid p then INVALID_ITEM_ID else case the_item p of None \<Rightarrow> 0 | Some i \<Rightarrow> item_id g i)"

definition getAuxValue :: "item_tables \<Rightarrow> parts \<Rightarrow> 16 word" where
  "getAuxValue g p = (case the_block p of None \<Rightarrow> aux p | Some b \<Rightarrow> if aux p = ANY_AUX_VALUE then aux p else block_data g b)"

definition setAuxValue :: "16 word \<Rightarrow> item_stack \<Rightarrow> item_stack" where
  "setAuxValue a s = Stack ((parts_of s)\<lparr>aux := a\<rparr>) (charged_item s)"

definition isBlock :: "item_tables \<Rightarrow> parts \<Rightarrow> bool" where
  "isBlock g p = (case the_item p of None \<Rightarrow> False | Some i \<Rightarrow> item_block_type g i \<noteq> None)"

definition hasCustomHoverName :: "parts \<Rightarrow> bool" where
  "hasCustomHoverName p = (case tags p of None \<Rightarrow> False | Some ts \<Rightarrow>
     (case getCompound ts TAG_DISPLAY of None \<Rightarrow> False | Some d \<Rightarrow> compound_contains d TAG_DISPLAY_NAME))"

definition getCustomName :: "parts \<Rightarrow> bytes" where
  "getCustomName p = (case tags p of None \<Rightarrow> [] | Some ts \<Rightarrow>
     (case getCompound ts TAG_DISPLAY of None \<Rightarrow> []
      | Some d \<Rightarrow> if compound_contains d TAG_DISPLAY_NAME then getStringValue d TAG_DISPLAY_NAME else []))"

text \<open>\<open>described\<close> is the item's own description of a stack.\<close>

definition getName :: "(parts \<Rightarrow> bytes) \<Rightarrow> parts \<Rightarrow> bytes" where
  "getName described p = (if hasCustomHoverName p then getCustomName p else if the_item p = None then [] else described p)"

text \<open>The charged item is read anew from the data.\<close>

definition setUserData :: "item_tables \<Rightarrow> tag_map option \<Rightarrow> item_stack \<Rightarrow> item_stack" where
  "setUserData g t s = Stack ((parts_of s)\<lparr>tags := t\<rparr>) (case t of None \<Rightarrow> None
     | Some ts \<Rightarrow> (case getCompound ts TAG_CHARGED_ITEM of None \<Rightarrow> None | Some c \<Rightarrow> Some (charged_from g c)))"

definition clone :: "tag_map \<Rightarrow> tag_map" where
  "clone ts = (case copy_tag (Compound_Tag ts) of Compound_Tag us \<Rightarrow> us | _ \<Rightarrow> [])"

text \<open>The amount is narrowed to a byte.\<close>

definition set_amount :: "item_tables \<Rightarrow> int \<Rightarrow> item_stack \<Rightarrow> item_stack" where
  "set_amount g n s = (let p = parts_of s; m = (if the_item p = None then - 1 else max_stack_size g p);
       s' = Stack (p\<lparr>amount := (if n > m then word_of_int m else if n = 0 then 0 else word_of_int n)\<rparr>) (charged_item s) in
     if \<not> usable g s' then setNull g s' else s')"

subsection \<open>Comparing\<close>

definition same_user_data :: "item_tables \<Rightarrow> item_stack \<Rightarrow> item_stack \<Rightarrow> bool" where
  "same_user_data g s t = (if isNull g s \<and> isNull g t then True else if isNull g s \<or> isNull g t then False
     else let some = (\<lambda>x. case tags (parts_of x) of None \<Rightarrow> False | Some ts \<Rightarrow> \<not> compound_isEmpty ts) in
       if \<not> some s \<and> \<not> some t then True else if \<not> some s \<or> \<not> some t then False
       else tag_equals (Compound_Tag (the (tags (parts_of s)))) (Compound_Tag (the (tags (parts_of t)))))"

fun matches :: "item_tables \<Rightarrow> item_stack \<Rightarrow> item_stack \<Rightarrow> bool" where
  "matches g (Stack p c) (Stack q d) = (
     the_item p = the_item q \<and> aux p = aux q \<and> (the_block p \<noteq> None \<longrightarrow> the_block p = the_block q) \<and>
     same_user_data g (Stack p c) (Stack q d) \<and> destroy_hash p = destroy_hash q \<and> place_hash p = place_hash q \<and> blocking_tick p = blocking_tick q \<and>
     (case c of
        Some x \<Rightarrow> if isNull g x then (case d of Some y \<Rightarrow> isNull g y | None \<Rightarrow> True)
          else (case d of None \<Rightarrow> False
            | Some y \<Rightarrow> \<not> isNull g y \<and> matches g x y \<and> amount (parts_of x) = amount (parts_of y))
      | None \<Rightarrow> (case d of Some y \<Rightarrow> isNull g y | None \<Rightarrow> True)))"


subsection \<open>Making stacks\<close>

text \<open>\<open>now\<close> is the time a stack is made.\<close>

definition init_id :: "item_tables \<Rightarrow> int \<Rightarrow> int \<Rightarrow> int \<Rightarrow> int \<Rightarrow> bool \<Rightarrow> item_stack \<Rightarrow> item_stack" where
  "init_id g now i n a remap s = (let p = (parts_of s)\<lparr>amount := (if n < 0 then 0 else word_of_int n)\<rparr>;
       p1 = (if the_block p = None then p\<lparr>aux := (if a > 0 then word_of_int a else 0)\<rparr> else p);
       s2 = Stack ((set_item g i remap p1)\<lparr>pick_up_time := now\<rparr>) (charged_item s) in
     if amount (parts_of s2) = 0 then setNull g s2 else s2)"

text \<open>The item may be given the version of the block; that is a change of the item, not of the stack.\<close>

definition init_block :: "item_tables \<Rightarrow> int \<Rightarrow> nat \<Rightarrow> int \<Rightarrow> item_stack \<Rightarrow> item_stack" where
  "init_block g now b n s = init_id g now (block_item_id g b) n 0 True s"

definition with_block :: "nat option \<Rightarrow> item_stack \<Rightarrow> item_stack" where
  "with_block b s = Stack ((parts_of s)\<lparr>the_block := b\<rparr>) (charged_item s)"

definition init_item :: "item_tables \<Rightarrow> int \<Rightarrow> nat \<Rightarrow> int \<Rightarrow> int \<Rightarrow> tag_map option \<Rightarrow> bool \<Rightarrow> item_stack \<Rightarrow> item_stack" where
  "init_item g now i n a ud remap s = (let s1 = (case item_block_type g i of
       Some b \<Rightarrow> if item_id g i < START_ITEM_ID then
           (if a = uint ANY_AUX_VALUE then setAuxValue ANY_AUX_VALUE (init_block g now b n (with_block (Some (render_block g b)) s))
            else (case legacy_state g b a of
              None \<Rightarrow> init_block g now b n (with_block None s)
            | Some x \<Rightarrow> init_block g now (block_type_of g x) n (with_block (Some x) s)))
         else init_id g now (item_id g i) n a True (with_block (legacy_state g b a) s)
     | None \<Rightarrow> init_id g now (item_id g i) n a remap s) in
     case ud of None \<Rightarrow> s1 | Some ts \<Rightarrow> setUserData g (Some (clone ts)) s1)"

definition check_compatibility :: "item_tables \<Rightarrow> item_stack \<Rightarrow> item_stack" where
  "check_compatibility g s = (if \<not> checks_version g then s
     else if (case the_item (parts_of s) of Some i \<Rightarrow> item_fits g i
        | None \<Rightarrow> (case the_block (parts_of s) of Some b \<Rightarrow> block_fits g (block_type_of g b) | None \<Rightarrow> False)) then s
     else setNull g s)"

definition stack_of_block :: "item_tables \<Rightarrow> int \<Rightarrow> nat \<Rightarrow> int \<Rightarrow> item_stack" where
  "stack_of_block g now b n = check_compatibility g (init_block g now b n (with_block (Some (render_block g b)) blank))"

text \<open>\<open>lookup\<close> finds an item by its name and may change the auxiliary value.\<close>

definition stack_of_name :: "item_tables \<Rightarrow> int \<Rightarrow> (string \<Rightarrow> int \<Rightarrow> (nat \<times> int) option) \<Rightarrow> string \<Rightarrow> int \<Rightarrow> int \<Rightarrow> tag_map option \<Rightarrow> item_stack" where
  "stack_of_name g now lookup n c a ud = check_compatibility g (case lookup n a of
     Some (i, a') \<Rightarrow> init_item g now i c a' ud False blank
   | None \<Rightarrow> setNull g blank)"

definition stack_of_item :: "item_tables \<Rightarrow> int \<Rightarrow> nat \<Rightarrow> int \<Rightarrow> int \<Rightarrow> tag_map option \<Rightarrow> item_stack" where
  "stack_of_item g now i n a ud = check_compatibility g (init_item g now i n a ud True blank)"



text \<open>Assignment of another stack; the data stays when the other one has none.\<close>

definition assign_stack :: "item_tables \<Rightarrow> item_stack \<Rightarrow> item_stack \<Rightarrow> item_stack" where
  "assign_stack g s t = (let q = parts_of t;
       s1 = Stack ((parts_of s)\<lparr>amount := amount q, aux := aux q, the_item := the_item q, the_block := the_block q, valid := valid q,
         pick_up_time := pick_up_time q, show_pick_up := show_pick_up q, was_picked_up := was_picked_up q\<rparr>) (charged_item s);
       s2 = (case tags q of None \<Rightarrow> s1 | Some ts \<Rightarrow> setUserData g (Some (clone ts)) s1);
       p = (parts_of s2)\<lparr>can_place_on := can_place_on q, can_destroy := can_destroy q, blocking_tick := blocking_tick q\<rparr> in
     Stack (update_hashes g p) (charged_item s2))"


subsection \<open>Reading a stack from the network\<close>

text \<open>The names of the blocks; \<open>load_block\<close> is \<open>_loadBlocksForCanPlaceOnCanDestroy\<close>, which is code of the game. The flag tells that all names
  were read.\<close>

fun read_blocks :: "'s data_input \<Rightarrow> (bytes \<Rightarrow> nat list \<Rightarrow> nat list) \<Rightarrow> nat \<Rightarrow> nat list \<Rightarrow> 's \<Rightarrow> bool \<times> nat list \<times> 's" where
  "read_blocks inp load_block 0 bs s = (True, bs, s)"
| "read_blocks inp load_block (Suc n) bs s = (case in_string inp s of
     (Inl _, s') \<Rightarrow> (False, bs, s')
   | (Inr v, s') \<Rightarrow> read_blocks inp load_block n (load_block v bs) s')"

definition read_block_list :: "'s data_input \<Rightarrow> (bytes \<Rightarrow> nat list \<Rightarrow> nat list) \<Rightarrow> nat list \<Rightarrow> 's \<Rightarrow> bool \<times> nat list \<times> 's" where
  "read_block_list inp load_block bs s = (case in_int inp s of
     (Inl _, s') \<Rightarrow> (False, bs, s')
   | (Inr n, s') \<Rightarrow> read_blocks inp load_block (nat (sint n)) bs s')"

text \<open>The hashes are brought up to date only when both lists were read.\<close>

definition deserializeComponents :: "item_tables \<Rightarrow> 's data_input \<Rightarrow> (bytes \<Rightarrow> nat list \<Rightarrow> nat list) \<Rightarrow> 's \<Rightarrow> item_stack \<Rightarrow> item_stack \<times> 's" where
  "deserializeComponents g inp load_block s x = (let p = parts_of x in
     case read_block_list inp load_block (can_place_on p) s of
       (False, bs, s1) \<Rightarrow> (Stack (p\<lparr>can_place_on := bs\<rparr>) (charged_item x), s1)
     | (True, bs, s1) \<Rightarrow> (case read_block_list inp load_block (can_destroy p) s1 of
           (False, ds, s2) \<Rightarrow> (Stack (p\<lparr>can_place_on := bs, can_destroy := ds\<rparr>) (charged_item x), s2)
         | (True, ds, s2) \<Rightarrow> (Stack (update_hashes g (p\<lparr>can_place_on := bs, can_destroy := ds\<rparr>)) (charged_item x), s2)))"

definition tag_entries :: "tag \<Rightarrow> tag_map" where
  "tag_entries t = (case t of Compound_Tag ts \<Rightarrow> ts | _ \<Rightarrow> [])"

text \<open>\<open>f\<close> is the fuel of the reading of the tags.\<close>

definition readUserData ::
  "item_tables \<Rightarrow> 's data_input \<Rightarrow> (bytes \<Rightarrow> nat list \<Rightarrow> nat list) \<Rightarrow> nat \<Rightarrow> 's \<Rightarrow> item_stack \<Rightarrow> (item_stack \<times> 's) run" where
  "readUserData g inp load_block f s x = (case in_short inp s of
     (Inl _, s1) \<Rightarrow> Done (x, s1)
   | (Inr m, s1) \<Rightarrow>
       if m = - 1 then (case in_byte inp s1 of
           (Inl _, s2) \<Rightarrow> Done (x, s2)
         | (Inr v, s2) \<Rightarrow> if v \<noteq> 1 then Done (x, s2)
             else (case readNamedCompoundTag inp f s2 [] of
                 No_Fuel \<Rightarrow> No_Fuel
               | Length_Error \<Rightarrow> Length_Error
               | Done (r, _, s3) \<Rightarrow> Done (deserializeComponents g inp load_block s3
                   (setUserData g (Some (case r of Inl _ \<Rightarrow> [] | Inr t \<Rightarrow> tag_entries t)) x))))
       else if m \<noteq> 0 then Done (x, s1)
       else Done (deserializeComponents g inp load_block s1 x))"

subsection \<open>Lemmas\<close>


lemma update_hashes_twice [simp]: "update_hashes g (update_hashes g p) = update_hashes g p"
  by (simp add: update_hashes_def sorted_sort_id)

lemma no_blocks_no_hash [simp]: "compare_hash g [] = 0"
  by (simp add: compare_hash_def)

lemma setNull_parts:
  "parts_of (setNull g s) = (parts_of blank)\<lparr>valid := valid (parts_of s), pick_up_time := pick_up_time (parts_of s)\<rparr>" "charged_item (setNull g s) = None"
  by (simp_all add: setNull_def update_hashes_def blank_def)

lemma setNull_isNull: "isNull g (setNull g s)" "\<not> usable g (setNull g s)"
  by (simp_all add: isNull_def usable_def setNull_parts Let_def) (simp_all add: blank_def)

lemma setNull_twice: "setNull g (setNull g s) = setNull g s"
  by (simp add: setNull_def update_hashes_def)





definition charge_agrees :: "item_tables \<Rightarrow> item_stack \<Rightarrow> bool" where
  "charge_agrees g s \<longleftrightarrow> charged_item s = charged_item (setUserData g (tags (parts_of s)) s)"

fun plain_stack :: "item_stack \<Rightarrow> bool" where
  "plain_stack (Stack p c) \<longleftrightarrow> (case tags p of None \<Rightarrow> True | Some ts \<Rightarrow> plain_tag (Compound_Tag ts)) \<and> (case c of None \<Rightarrow> True | Some x \<Rightarrow> plain_stack x)"

lemma clone_plain: "plain_tag (Compound_Tag ts) \<Longrightarrow> clone ts = ts"
  by (simp add: clone_def copy_plain del: copy_tag.simps)

lemma same_data_refl: "plain_stack s \<Longrightarrow> same_user_data g s s"
  by (cases s) (auto simp: same_user_data_def Let_def equals_refl simp del: tag_equals.simps split: option.splits)

lemma matches_refl: "plain_stack s \<Longrightarrow> matches g s s"
proof (induction s)
  case (Stack p c)
  have "same_user_data g (Stack p c) (Stack p c)" using Stack.prems by (rule same_data_refl)
  with Stack show ?case by (auto split: option.splits)
qed




lemma hash_fields [simp]:
  "the_item (update_hashes g p) = the_item p" "the_block (update_hashes g p) = the_block p" "aux (update_hashes g p) = aux p"
  "amount (update_hashes g p) = amount p" "valid (update_hashes g p) = valid p" "tags (update_hashes g p) = tags p"
  "show_pick_up (update_hashes g p) = show_pick_up p" "was_picked_up (update_hashes g p) = was_picked_up p"
  "blocking_tick (update_hashes g p) = blocking_tick p" "pick_up_time (update_hashes g p) = pick_up_time p"
  "can_place_on (update_hashes g p) = sort (can_place_on p)" "can_destroy (update_hashes g p) = sort (can_destroy p)"
  "place_hash (update_hashes g p) = compare_hash g (sort (can_place_on p))" "destroy_hash (update_hashes g p) = compare_hash g (sort (can_destroy p))"
  by (simp_all add: update_hashes_def)







lemma clamped_amount:
  assumes "valid (parts_of s)" "the_item (parts_of s) = Some i" "\<not> is_air g i"
    and "0 < max_stack_size g (parts_of s)" "max_stack_size g (parts_of s) < 256" "- 256 < n"
  shows "uint (amount (parts_of (set_amount g n s))) = (if n < 0 then 256 + n else min n (max_stack_size g (parts_of s)))"
    and "n \<noteq> 0 \<Longrightarrow> the_item (parts_of (set_amount g n s)) = Some i"
    and "n = 0 \<Longrightarrow> isNull g (set_amount g n s)"
proof -
  let ?m = "max_stack_size g (parts_of s)"
  let ?a = "if n > ?m then word_of_int ?m else if n = 0 then 0 else word_of_int n :: byte"
  have u: "uint ?a = (if n < 0 then 256 + n else min n ?m)"
  proof (cases "n < 0")
    case True
    then have "(n + 1 * 256) mod 256 = 256 + n" using assms(6) by (subst mod_pos_pos_trivial) auto
    then show ?thesis using True assms(4) by (auto simp: uint_word_of_int)
  qed (use assms(4,5) in \<open>auto simp: uint_word_of_int min_def\<close>)
  then have z: "?a = 0 \<longleftrightarrow> n = 0" using assms(4,6) by (auto simp: uint_0_iff min_def split: if_splits)
  have "usable g (Stack ((parts_of s)\<lparr>amount := ?a\<rparr>) (charged_item s)) \<longleftrightarrow> n \<noteq> 0"
    using assms(1-3) z by (auto simp: usable_def isNull_def Let_def)
  moreover have "(if the_item (parts_of s) = None then - 1 else ?m) = ?m" using assms(2) by simp
  ultimately have e: "set_amount g n s = (if n = 0 then setNull g (Stack ((parts_of s)\<lparr>amount := ?a\<rparr>) (charged_item s)) else Stack ((parts_of s)\<lparr>amount := ?a\<rparr>) (charged_item s))"
    by (simp only: set_amount_def Let_def not_not)
  show "uint (amount (parts_of (set_amount g n s))) = (if n < 0 then 256 + n else min n ?m)"
  proof (cases "n = 0")
    case True
    then show ?thesis using assms(4) unfolding e by (simp add: setNull_parts blank_def)
  next
    case False
    then show ?thesis using u by (simp add: e)
  qed
  show "n \<noteq> 0 \<Longrightarrow> the_item (parts_of (set_amount g n s)) = Some i" using assms(2) unfolding e by simp
  show "n = 0 \<Longrightarrow> isNull g (set_amount g n s)" unfolding e by (simp add: setNull_isNull)
qed

text \<open>Assignment copies the data of the other stack, or leaves the data there was.\<close>

lemma assigned_data:
  "tags (parts_of (assign_stack g s t)) = (case tags (parts_of t) of None \<Rightarrow> tags (parts_of s) | Some ts \<Rightarrow> Some (clone ts))"
  by (simp add: assign_stack_def Let_def setUserData_def update_hashes_def split: option.splits)

lemma assign_exact:
  assumes "tags (parts_of t) = Some ts" "charge_agrees g t" "update_hashes g (parts_of t) = parts_of t" "plain_stack t"
  shows "assign_stack g s t = t"
proof (cases t)
  case (Stack q d)
  have "clone ts = ts" using assms(1,4) by (simp add: Stack clone_plain)
  moreover have "update_hashes g ((parts_of s)\<lparr>amount := amount q, aux := aux q, the_item := the_item q, the_block := the_block q, valid := valid q,
      pick_up_time := pick_up_time q, show_pick_up := show_pick_up q, was_picked_up := was_picked_up q, tags := Some ts, can_place_on := can_place_on q,
      can_destroy := can_destroy q, blocking_tick := blocking_tick q\<rparr>) = q"
    using assms(1,3) by (cases q) (simp add: Stack update_hashes_def)
  ultimately show ?thesis
    using assms(1,2) by (simp add: Stack assign_stack_def Let_def setUserData_def charge_agrees_def)
qed

context data_channel
begin

lemma read_blocks_ok:
  "left s = concat (map (emit (out_string out)) bs) @ r \<Longrightarrow> \<forall>b\<in>set bs. length b < 2 ^ 15 \<Longrightarrow>
    \<exists>s'. read_blocks inp ld (length bs) acc s = (True, fold ld bs acc, s') \<and> left s' = r"
proof (induction bs arbitrary: s acc)
  case (Cons b bs)
  then obtain s1 where "in_string inp s = (Inr b, s1)" "left s1 = concat (map (emit (out_string out)) bs) @ r"
    using in_string [of s b] by auto
  with Cons show ?case by simp
qed simp

lemma read_block_list_ok:
  assumes "left s = emit (out_int out) (of_nat (length bs)) @ concat (map (emit (out_string out)) bs) @ r"
    and "\<forall>b\<in>set bs. length b < 2 ^ 15" "length bs < 2 ^ 31"
  shows "\<exists>s'. read_block_list inp ld acc s = (True, fold ld bs acc, s') \<and> left s' = r"
proof -
  obtain s1 where "in_int inp s = (Inr (of_nat (length bs)), s1)" "left s1 = concat (map (emit (out_string out)) bs) @ r"
    using in_int [OF assms(1)] by auto
  then show ?thesis using read_blocks_ok [of s1 bs r ld acc] assms(2,3) by (simp add: read_block_list_def sint_of_nat_32)
qed

lemma readNamedCompoundTag_ok:
  assumes "wf_tag (Compound_Tag ts)" "length n < 2 ^ 15" "tag_fuel (Compound_Tag ts) \<le> f"
    and "left s = emit_named out (n, Compound_Tag ts) @ r"
  shows "\<exists>s'. readNamedCompoundTag inp f s name = Done (Inr (Compound_Tag ts), n, s') \<and> left s' = r"
proof -
  obtain s1 where s1: "in_byte inp s = (Inr Type_Compound, s1)"
      "left s1 = emit (out_string out) n @ emit (write_tag out) (Compound_Tag ts) @ r"
    using in_byte [of s Type_Compound] assms(4) by (auto simp: emit_named_eq)
  obtain s2 where s2: "in_string inp s1 = (Inr n, s2)" "left s2 = emit (write_tag out) (Compound_Tag ts) @ r"
    using in_string [OF s1(2) assms(2)] by auto
  obtain s3 err where "load inp f (Compound_Tag []) s2 = Done (Compound_Tag ts, err, s3)" "left s3 = r"
    using loads_wf [OF assms(1,3)] s2(2) unfolding loads_def by (metis getId.simps(11))
  with s1(1) s2(1) show ?thesis by (simp add: readNamedCompoundTag_def)
qed

text \<open>The layout of the data of a stack on the network.\<close>

lemma readUserData_ok:
  assumes "wf_tag (Compound_Tag ts)" "length n < 2 ^ 15" "tag_fuel (Compound_Tag ts) \<le> f"
    and "\<forall>b\<in>set bs \<union> set ds. length b < 2 ^ 15" "length bs < 2 ^ 31" "length ds < 2 ^ 31"
    and "left s = emit (out_short out) (- 1) @ emit (out_byte out) 1 @ emit_named out (n, Compound_Tag ts) @
      emit (out_int out) (of_nat (length bs)) @ concat (map (emit (out_string out)) bs) @
      emit (out_int out) (of_nat (length ds)) @ concat (map (emit (out_string out)) ds) @ r"
  shows "\<exists>s'. readUserData g inp ld f s x = Done (Stack (update_hashes g ((parts_of x)\<lparr>tags := Some ts,
      can_place_on := fold ld bs (can_place_on (parts_of x)), can_destroy := fold ld ds (can_destroy (parts_of x))\<rparr>))
      (charged_item (setUserData g (Some ts) x)), s') \<and> left s' = r"
proof -
  obtain s1 where s1: "in_short inp s = (Inr (- 1), s1)" "left s1 = emit (out_byte out) 1 @ emit_named out (n, Compound_Tag ts) @
      emit (out_int out) (of_nat (length bs)) @ concat (map (emit (out_string out)) bs) @
      emit (out_int out) (of_nat (length ds)) @ concat (map (emit (out_string out)) ds) @ r"
    using in_short [OF assms(7)] by blast
  obtain s2 where s2: "in_byte inp s1 = (Inr 1, s2)" "left s2 = emit_named out (n, Compound_Tag ts) @
      emit (out_int out) (of_nat (length bs)) @ concat (map (emit (out_string out)) bs) @
      emit (out_int out) (of_nat (length ds)) @ concat (map (emit (out_string out)) ds) @ r"
    using in_byte [OF s1(2)] by blast
  obtain s3 where s3: "readNamedCompoundTag inp f s2 [] = Done (Inr (Compound_Tag ts), n, s3)"
      "left s3 = emit (out_int out) (of_nat (length bs)) @ concat (map (emit (out_string out)) bs) @
        emit (out_int out) (of_nat (length ds)) @ concat (map (emit (out_string out)) ds) @ r"
    using readNamedCompoundTag_ok [OF assms(1-3) s2(2)] by blast
  obtain s4 where s4: "read_block_list inp ld (can_place_on (parts_of x)) s3 = (True, fold ld bs (can_place_on (parts_of x)), s4)"
      "left s4 = emit (out_int out) (of_nat (length ds)) @ concat (map (emit (out_string out)) ds) @ r"
    using read_block_list_ok [OF s3(2) _ assms(5)] assms(4) by blast
  obtain s5 where s5: "read_block_list inp ld (can_destroy (parts_of x)) s4 = (True, fold ld ds (can_destroy (parts_of x)), s5)" "left s5 = r"
    using read_block_list_ok [OF s4(2) _ assms(6)] assms(4) by blast
  show ?thesis using s5(2)
    by (simp add: readUserData_def s1(1) s2(1) s3(1) deserializeComponents_def setUserData_def Let_def s4(1) s5(1) tag_entries_def split: option.splits)
qed

end

text \<open>A stack with a known item leaves \<open>set\<close> with the amount asked for, at most the maximum of the item, but one that is below zero wraps
  around: \<open>set(-1)\<close> makes 255 of them.\<close>

lemma negative_amount_wraps:
  assumes "valid (parts_of s)" "the_item (parts_of s) = Some i" "\<not> is_air g i" "0 < max_stack_size g (parts_of s)" "max_stack_size g (parts_of s) < 256"
  shows "uint (amount (parts_of (set_amount g (- 1) s))) = 255"
  using clamped_amount(1) [OF assms, of "- 1"] by simp

text \<open>A stack matches one with the same item and a block when it has none itself, and not the other way round.\<close>

lemma matches_one_way:
  assumes "plain_stack (Stack p c)" "the_block p = None" "the_item p = Some i"
  shows "matches g (Stack p c) (Stack (p\<lparr>the_block := Some b\<rparr>) c)" "\<not> matches g (Stack (p\<lparr>the_block := Some b\<rparr>) c) (Stack p c)"
proof -
  have "isNull g (Stack (p\<lparr>the_block := Some b\<rparr>) c) = isNull g (Stack p c)" using assms(3) by (simp add: isNull_def Let_def)
  then have "same_user_data g (Stack p c) (Stack (p\<lparr>the_block := Some b\<rparr>) c) = same_user_data g (Stack p c) (Stack p c)"
    by (simp add: same_user_data_def Let_def)
  with matches_refl [OF assms(1), of g] same_data_refl [OF assms(1), of g] assms(2)
  show "matches g (Stack p c) (Stack (p\<lparr>the_block := Some b\<rparr>) c)" "\<not> matches g (Stack (p\<lparr>the_block := Some b\<rparr>) c) (Stack p c)" by simp_all
qed

subsection \<open>Properties\<close>






end
