(* ===== verification/Logging.thy ===== *)
theory Logging
  imports Prelude "HOL-Library.Sublist"
begin

text \<open>
  The logging of the server (\<open>src/endstone/core/spdlog\<close>, \<open>logger_factory.cpp\<close>, \<open>console/console.cpp\<close>): the codes of colours in a message,
  the lines of a message, what the console prints, and the log file with its archives. The logging library, compression, the calendar and the
  operations of the file system, which may fail, are parameters. A file is the bytes it holds.
\<close>

subsection \<open>The text of a message\<close>

definition ascii :: "string \<Rightarrow> bytes" where "ascii s = map of_char s"

definition escape :: "string \<Rightarrow> bytes" where "escape s = 0x1b # ascii s"

definition ansi_codes :: "(byte \<times> bytes) list" where
  "ansi_codes = map (\<lambda>(c, s). (of_char c, escape s)) [
     (CHR ''0'', ''[30m''), (CHR ''1'', ''[34m''), (CHR ''2'', ''[32m''), (CHR ''3'', ''[36m''), (CHR ''4'', ''[31m''), (CHR ''5'', ''[35m''),
     (CHR ''6'', ''[33m''), (CHR ''7'', ''[37m''), (CHR ''8'', ''[90m''), (CHR ''9'', ''[94m''), (CHR ''a'', ''[92m''), (CHR ''b'', ''[96m''),
     (CHR ''c'', ''[91m''), (CHR ''d'', ''[95m''), (CHR ''e'', ''[93m''), (CHR ''f'', ''[97m''), (CHR ''g'', ''[38;2;221;214;5m''),
     (CHR ''h'', ''[38;2;227;212;209m''), (CHR ''i'', ''[38;2;206;202;202m''), (CHR ''j'', ''[38;2;68;58;59m''), (CHR ''m'', ''[38;2;151;22;7m''),
     (CHR ''n'', ''[38;2;180;104;77m''), (CHR ''p'', ''[38;2;222;177;45m''), (CHR ''q'', ''[38;2;17;160;54m''), (CHR ''s'', ''[38;2;44;186;168m''),
     (CHR ''t'', ''[38;2;33;73;123m''), (CHR ''u'', ''[38;2;154;92;198m''), (CHR ''v'', ''[38;2;234;113;19m''),
     (CHR ''k'', ''[8m''), (CHR ''l'', ''[1m''), (CHR ''o'', ''[3m''), (CHR ''r'', ''[0m'')]"

definition code_text :: "bool \<Rightarrow> byte \<Rightarrow> bytes" where
  "code_text colours c = (if colours then (case map_of ansi_codes c of Some s \<Rightarrow> s | None \<Rightarrow> [c]) else [])"

text \<open>The section sign is the two bytes \<open>C2 A7\<close>; one at the end of the text is kept.\<close>

fun format_text :: "bool \<Rightarrow> bytes \<Rightarrow> bytes" where
  "format_text colours (a # b # c # r) =
     (if a = 0xC2 \<and> b = 0xA7 then code_text colours c @ format_text colours r else a # format_text colours (b # c # r))"
| "format_text colours t = t"

subsection \<open>Lines and levels\<close>

datatype log_level = Trace | Debug | Info | Warning | Error | Critical | Off

fun level_number :: "log_level \<Rightarrow> nat" where
  "level_number Trace = 0" | "level_number Debug = 1" | "level_number Info = 2" | "level_number Warning = 3"
| "level_number Error = 4" | "level_number Critical = 5" | "level_number Off = 6"

fun level_name :: "log_level \<Rightarrow> string" where
  "level_name Trace = ''TRACE''" | "level_name Debug = ''DEBUG''" | "level_name Info = ''INFO''" | "level_name Warning = ''WARNING''"
| "level_name Error = ''ERROR''" | "level_name Critical = ''CRITICAL''" | "level_name Off = ''OFF''"

text \<open>\<open>std::views::split\<close>: an empty message has no parts at all.\<close>

fun split_parts :: "byte \<Rightarrow> bytes \<Rightarrow> bytes \<Rightarrow> bytes list" where
  "split_parts nl part [] = [part]"
| "split_parts nl part (c # cs) = (if c = nl then part # split_parts nl [] cs else split_parts nl (part @ [c]) cs)"

definition split_view :: "byte \<Rightarrow> bytes \<Rightarrow> bytes list" where
  "split_view nl m = (if m = [] then [] else split_parts nl [] m)"

text \<open>\<open>should_log\<close> compares the level with that of the logger.\<close>

definition isEnabledFor :: "log_level \<Rightarrow> log_level \<Rightarrow> bool" where
  "isEnabledFor threshold l \<longleftrightarrow> level_number l \<ge> level_number threshold"

definition log_message :: "log_level \<Rightarrow> log_level \<Rightarrow> bytes \<Rightarrow> (log_level \<times> bytes) list" where
  "log_message threshold l m = (if isEnabledFor threshold l then map (\<lambda>line. (l, line)) (split_view 0x0A m) else [])"

text \<open>A logger is made the first time its name is asked for; \<open>fresh\<close> makes one.\<close>

definition getLogger :: "(string \<Rightarrow> 'l) \<Rightarrow> string \<Rightarrow> (string \<times> 'l) list \<Rightarrow> 'l \<times> (string \<times> 'l) list" where
  "getLogger fresh n ls = (case map_of ls n of Some l \<Rightarrow> (l, ls) | None \<Rightarrow> (fresh n, (n, fresh n) # ls))"

text \<open>The name of the thread of the game is shortened; a thread without name is shown by its number.\<close>

definition thread_text :: "string option \<Rightarrow> string \<Rightarrow> string" where
  "thread_text name number = (case name of
     Some n \<Rightarrow> if n = [] then number else if n = ''MC_SERVER'' then ''Server'' else n
   | None \<Rightarrow> number)"

subsection \<open>The console\<close>

definition reset :: bytes where "reset = escape ''[m''"

fun level_colour :: "log_level \<Rightarrow> bytes" where
  "level_colour Trace = escape ''[37m''" | "level_colour Debug = escape ''[36m''" | "level_colour Info = reset"
| "level_colour Warning = escape ''[33m'' @ escape ''[1m''" | "level_colour Error = escape ''[31m'' @ escape ''[1m''"
| "level_colour Critical = escape ''[1m'' @ escape ''[41m''" | "level_colour Off = reset"

text \<open>What is passed to the console: the part of the formatted message from \<open>b\<close> to \<open>e\<close> is coloured.\<close>

definition console_text :: "bool \<Rightarrow> log_level \<Rightarrow> nat \<Rightarrow> nat \<Rightarrow> bytes \<Rightarrow> bytes" where
  "console_text colours l b e m = (if colours \<and> e > b
     then take b m @ level_colour l @ drop b (take e m) @ reset @ drop e m else m)"

definition printAbove :: "bytes \<Rightarrow> bytes" where
  "printAbove m = (if m \<noteq> [] \<and> last m = 0x0A then m else m @ [0x0A])"

definition is_true :: "string option \<Rightarrow> bool" where
  "is_true v = (case v of None \<Rightarrow> False | Some s \<Rightarrow> lower s \<in> {''1'', ''true'', ''yes'', ''on''})"

subsection \<open>The log file\<close>

type_synonym disk = "string \<Rightarrow> bytes option"

text \<open>How an operation of the file system ends: it works, or it fails before anything happened, after the target was removed, or with something
  written to the target. A copy can also stop short, after so many bytes of the source: the stream that cannot read on says so in a state
  that \<open>compress\<close> does not look at, so this counts as a success and the source is removed.\<close>

datatype attempt = Works | Fails_Early | Fails_Removed | Fails_Written bytes | Stops_Short nat

definition whole :: "attempt \<Rightarrow> bool" where
  "whole a \<longleftrightarrow> (\<forall>n. a \<noteq> Stops_Short n)"

definition rename_file :: "attempt \<Rightarrow> string \<Rightarrow> string \<Rightarrow> disk \<Rightarrow> bool \<times> disk" where
  "rename_file a src target d = (case a of
     Works \<Rightarrow> (True, (d(target := d src))(src := None))
   | Fails_Early \<Rightarrow> (False, d)
   | _ \<Rightarrow> (False, d(target := None)))"

definition compress :: "(bytes \<Rightarrow> bytes) \<Rightarrow> attempt \<Rightarrow> string \<Rightarrow> string \<Rightarrow> disk \<Rightarrow> bool \<times> disk" where
  "compress gz a src target d = (case a of
     Works \<Rightarrow> (True, (d(target := map_option gz (d src)))(src := None))
   | Fails_Early \<Rightarrow> (False, d)
   | Fails_Removed \<Rightarrow> (False, d(target := None))
   | Fails_Written x \<Rightarrow> (False, d(target := Some x))
   | Stops_Short n \<Rightarrow> (True, (d(target := map_option (\<lambda>x. gz (take n x)) (d src)))(src := None)))"

text \<open>\<open>archive\<close> fills in the pattern of the names. The clock, which the code reads for each name, is read once for a rotation.\<close>

definition calcFilename :: "string \<Rightarrow> ('day \<Rightarrow> nat \<Rightarrow> string) \<Rightarrow> 'day \<Rightarrow> nat \<Rightarrow> string" where
  "calcFilename base archive today i = (if i = 0 then base else archive today i)"

text \<open>A file is compressed as it becomes the first archive and renamed afterwards; a move that fails is tried again.\<close>

definition move_file :: "(bytes \<Rightarrow> bytes) \<Rightarrow> nat \<Rightarrow> (bool \<Rightarrow> attempt) \<Rightarrow> string \<Rightarrow> string \<Rightarrow> disk \<Rightarrow> bool \<times> disk" where
  "move_file gz i os src target d = (let func = (if i = 1 then compress gz else rename_file); (ok, d1) = func (os False) src target d in
     if ok then (True, d1) else func (os True) src target d1)"

text \<open>The loop of \<open>rotate\<close> from file \<open>n\<close> downwards; \<open>os i second\<close> is how the first or the second try for file \<open>i\<close> ends. The flag tells
  whether the loop ran to its end.\<close>

fun shift_files :: "(nat \<Rightarrow> string) \<Rightarrow> (bytes \<Rightarrow> bytes) \<Rightarrow> (nat \<Rightarrow> bool \<Rightarrow> attempt) \<Rightarrow> nat \<Rightarrow> disk \<Rightarrow> bool \<times> disk" where
  "shift_files name gz os 0 d = (True, d)"
| "shift_files name gz os (Suc i) d = (if d (name i) = None then shift_files name gz os i d
     else let (ok, d1) = move_file gz (Suc i) (os (Suc i)) (name i) (name (Suc i)) d in
       if ok then shift_files name gz os i d1 else (False, d1))"

text \<open>Opening a file to append creates it when it is missing.\<close>

definition reopen :: "string \<Rightarrow> disk \<Rightarrow> disk" where
  "reopen f d = d(f := Some (case d f of None \<Rightarrow> [] | Some c \<Rightarrow> c))"

text \<open>The setting of a sink: its file, the names of the archives, how many there are at most, the compression, the local date of a time and the
  local midnight before it, in seconds.\<close>

record 'day log_setting =
  base_filename :: string
  file_pattern :: "'day \<Rightarrow> nat \<Rightarrow> string"
  max_files :: nat
  gzip :: "bytes \<Rightarrow> bytes"
  local_day :: "int \<Rightarrow> 'day"
  midnight :: "int \<Rightarrow> int"

text \<open>The file that is logged to is closed first; when it cannot be opened again, an exception leaves the rotation, which is the flag.\<close>

definition rotate_files :: "'day log_setting \<Rightarrow> (nat \<Rightarrow> bool \<Rightarrow> attempt) \<Rightarrow> bool \<Rightarrow> int \<Rightarrow> disk \<Rightarrow> disk \<times> bool" where
  "rotate_files c os reopens now d = (let
       d1 = snd (shift_files (calcFilename (base_filename c) (file_pattern c) (local_day c now)) (gzip c) os (max_files c) d) in
     if reopens then (reopen (base_filename c) d1, True) else (d1, False))"

definition nextRotation :: "'day log_setting \<Rightarrow> int \<Rightarrow> int" where
  "nextRotation c now = (if midnight c now > now then midnight c now else midnight c now + 24 * 3600)"

text \<open>A sink whose file could not be opened again has none.\<close>

record log_sink =
  rotation_tp :: int
  disk :: disk
  is_open :: bool

text \<open>A constructor that cannot open the file throws: there is no sink, and the files are as they are then.\<close>

definition FileLogSink :: "'day log_setting \<Rightarrow> (nat \<Rightarrow> bool \<Rightarrow> attempt) \<Rightarrow> bool \<Rightarrow> bool \<Rightarrow> int \<Rightarrow> disk \<Rightarrow> disk + log_sink" where
  "FileLogSink c os opens reopens now d = (let should_rotate = d (base_filename c) \<noteq> None in
     if \<not> opens then Inl d
     else let (d1, ok) = (if should_rotate then rotate_files c os reopens now (reopen (base_filename c) d) else (reopen (base_filename c) d, True)) in
       if \<not> ok then Inl d1 else Inr \<lparr>rotation_tp = nextRotation c now, disk = d1, is_open = True\<rparr>)"

text \<open>A message: when it was made, when it is written, how the file system behaves then, whether the file can be opened again after a rotation,
  after how many bytes the write fails if it does, and its formatted text.\<close>

record log_entry =
  made :: int
  written :: int
  file_system :: "nat \<Rightarrow> bool \<Rightarrow> attempt"
  reopens :: bool
  fails_after :: "nat option"
  formatted :: bytes

definition append_to :: "string \<Rightarrow> bytes \<Rightarrow> disk \<Rightarrow> disk" where
  "append_to f x d = d(f := map_option (\<lambda>y. y @ x) (d f))"

text \<open>The flag tells whether the message was written. An exception, which the logger catches, leaves the time of the next rotation as it is when
  the rotation throws it; the library writes nothing to a file that is not open.\<close>

definition sink_it :: "'day log_setting \<Rightarrow> log_entry \<Rightarrow> log_sink \<Rightarrow> log_sink \<times> bool" where
  "sink_it c m s = (let (s1, thrown) = (if made m \<ge> rotation_tp s
       then let (d1, ok) = rotate_files c (file_system m) (reopens m) (written m) (disk s) in
         if ok then (\<lparr>rotation_tp = nextRotation c (written m), disk = d1, is_open = True\<rparr>, False) else (s\<lparr>disk := d1, is_open := False\<rparr>, True)
       else (s, False)) in
     if thrown \<or> \<not> is_open s1 then (s1, False)
     else (case fails_after m of
       None \<Rightarrow> (s1\<lparr>disk := append_to (base_filename c) (formatted m) (disk s1)\<rparr>, True)
     | Some n \<Rightarrow> (s1\<lparr>disk := append_to (base_filename c) (take n (formatted m)) (disk s1)\<rparr>, False)))"

text \<open>A run of messages, and those that were written.\<close>

fun log_all :: "'day log_setting \<Rightarrow> log_entry list \<Rightarrow> log_sink \<Rightarrow> log_sink \<times> log_entry list" where
  "log_all c [] s = (s, [])"
| "log_all c (m # ms) s = (let (s1, ok) = sink_it c m s; (s2, ws) = log_all c ms s1 in (s2, if ok then m # ws else ws))"

subsection \<open>Lemmas\<close>

text \<open>Text without section signs, which does not end with half of one.\<close>

fun unmarked :: "bytes \<Rightarrow> bool" where
  "unmarked [] \<longleftrightarrow> True"
| "unmarked [a] \<longleftrightarrow> a \<noteq> 0xC2"
| "unmarked (a # b # t) \<longleftrightarrow> \<not> (a = 0xC2 \<and> b = 0xA7) \<and> unmarked (b # t)"

lemma format_unmarked: "unmarked t \<Longrightarrow> format_text colours (t @ r) = t @ format_text colours r"
proof (induction t rule: unmarked.induct)
  case (2 a)
  then show ?case by (cases r rule: unmarked.cases) auto
next
  case (3 a b t)
  then show ?case by (cases "t @ r") auto
qed simp

lemma format_mark: "format_text colours (0xC2 # 0xA7 # c # r) = code_text colours c @ format_text colours r"
  by simp

lemma join_split: "concat (map (\<lambda>p. p @ [nl]) (split_parts nl part m)) = part @ m @ [nl]"
  by (induction nl part m rule: split_parts.induct) auto

lemma split_no_newline: "nl \<notin> set part \<Longrightarrow> p \<in> set (split_parts nl part m) \<Longrightarrow> nl \<notin> set p"
  by (induction nl part m rule: split_parts.induct) (auto split: if_splits)

text \<open>An empty message is dropped.\<close>

lemma empty_message_dropped: "log_message threshold l [] = []"
  by (simp add: log_message_def split_view_def)

text \<open>A move that copies all it reports to have copied succeeds, or leaves its source where it was.\<close>

lemma func_effect:
  assumes "src \<noteq> target" "(if i = 1 then compress gz else rename_file) a src target d = (ok, d')" "d src = Some x" "whole a"
  shows "(\<forall>p. p \<noteq> target \<and> p \<noteq> src \<longrightarrow> d' p = d p) \<and> (if ok then d' src = None \<and> d' target = Some (if i = 1 then gz x else x) else d' src = Some x)"
  using assms by (cases a) (auto simp: whole_def compress_def rename_file_def split: if_splits)

lemma move_effect:
  assumes "src \<noteq> target" "move_file gz i os src target d = (ok, d')" "d src = Some x" "\<And>second. whole (os second)"
  shows "(\<forall>p. p \<noteq> target \<and> p \<noteq> src \<longrightarrow> d' p = d p) \<and> (if ok then d' src = None \<and> d' target = Some (if i = 1 then gz x else x) else d' src = Some x)"
proof -
  let ?func = "if i = 1 then compress gz else rename_file"
  obtain ok1 d1 where 1: "?func (os False) src target d = (ok1, d1)" by fastforce
  note e = func_effect [OF assms(1) 1 assms(3,4)]
  show ?thesis
  proof (cases ok1)
    case True
    then show ?thesis using assms(2) 1 e by (simp add: move_file_def Let_def)
  next
    case False
    then have "?func (os True) src target d1 = (ok, d')" "d1 src = Some x" using assms(2) 1 e by (simp_all add: move_file_def Let_def)
    from func_effect [OF assms(1) this assms(4)] show ?thesis using e by auto
  qed
qed

text \<open>What one rotation does to the files, however its operations end: a file moves one place up, or stays when the rotation stopped, and
  other files are untouched.\<close>

definition shifted :: "(nat \<Rightarrow> string) \<Rightarrow> (bytes \<Rightarrow> bytes) \<Rightarrow> nat \<Rightarrow> disk \<Rightarrow> bool \<Rightarrow> disk \<Rightarrow> bool" where
  "shifted name gz n d ok d' \<longleftrightarrow> (\<forall>p. p \<notin> name ` {..n} \<longrightarrow> d' p = d p) \<and>
    (\<forall>k<n. \<forall>x. d (name k) = Some x \<longrightarrow> d' (name (Suc k)) = Some (if k = 0 then gz x else x) \<or> \<not> ok \<and> d' (name k) = Some x) \<and>
    (\<forall>k<n. d (name k) = None \<longrightarrow> d (name (Suc k)) = None \<longrightarrow> d' (name (Suc k)) = None)"

lemma shiftedI:
  assumes "\<And>p. p \<notin> name ` {..n} \<Longrightarrow> d' p = d p"
    and "\<And>k x. k < n \<Longrightarrow> d (name k) = Some x \<Longrightarrow> d' (name (Suc k)) = Some (if k = 0 then gz x else x) \<or> \<not> ok \<and> d' (name k) = Some x"
    and "\<And>k. k < n \<Longrightarrow> d (name k) = None \<Longrightarrow> d (name (Suc k)) = None \<Longrightarrow> d' (name (Suc k)) = None"
  shows "shifted name gz n d ok d'"
  unfolding shifted_def by (intro conjI allI impI; (rule assms; assumption))

lemma shiftedD:
  assumes "shifted name gz n d ok d'"
  shows "p \<notin> name ` {..n} \<Longrightarrow> d' p = d p"
    and "k < n \<Longrightarrow> d (name k) = Some x \<Longrightarrow> d' (name (Suc k)) = Some (if k = 0 then gz x else x) \<or> \<not> ok \<and> d' (name k) = Some x"
    and "k < n \<Longrightarrow> d (name k) = None \<Longrightarrow> d (name (Suc k)) = None \<Longrightarrow> d' (name (Suc k)) = None"
proof -
  note a = assms [unfolded shifted_def]
  note b = conjunct2 [OF a]
  show "p \<notin> name ` {..n} \<Longrightarrow> d' p = d p" using conjunct1 [OF a] by blast
  show "k < n \<Longrightarrow> d (name k) = Some x \<Longrightarrow> d' (name (Suc k)) = Some (if k = 0 then gz x else x) \<or> \<not> ok \<and> d' (name k) = Some x"
    using conjunct1 [OF b] by blast
  show "k < n \<Longrightarrow> d (name k) = None \<Longrightarrow> d (name (Suc k)) = None \<Longrightarrow> d' (name (Suc k)) = None" using conjunct2 [OF b] by blast
qed

lemma above: "inj_on name {..Suc i} \<Longrightarrow> name (Suc i) \<notin> name ` {..i}"
  by (auto dest!: inj_onD)

lemma shifted_above:
  assumes "inj_on name {..Suc i}" "shifted name gz i d ok d'" "d (name i) = None"
  shows "shifted name gz (Suc i) d ok d'"
proof (rule shiftedI)
  note D = shiftedD [OF assms(2)]
  have top: "d' (name (Suc i)) = d (name (Suc i))" using D(1) above [OF assms(1)] .
  show "d' p = d p" if "p \<notin> name ` {..Suc i}" for p using that D(1) [of p] by (simp add: atMost_Suc)
  show "d' (name (Suc k)) = Some (if k = 0 then gz x else x) \<or> \<not> ok \<and> d' (name k) = Some x" if "k < Suc i" "d (name k) = Some x" for k x
    using that assms(3) D(2) [of k x] by (cases "k = i") simp_all
  show "d' (name (Suc k)) = None" if "k < Suc i" "d (name k) = None" "d (name (Suc k)) = None" for k
    using that top D(3) [of k] by (cases "k = i") simp_all
qed

lemma shifted_moved:
  assumes "inj_on name {..Suc i}" "d (name i) = Some x" "shifted name gz i e ok d'"
    and "\<forall>p. p \<noteq> name (Suc i) \<and> p \<noteq> name i \<longrightarrow> e p = d p" "e (name i) = None" "e (name (Suc i)) = Some (if i = 0 then gz x else x)"
  shows "shifted name gz (Suc i) d ok d'"
proof (rule shiftedI)
  note D = shiftedD [OF assms(3)]
  have ne: "name k \<noteq> name (Suc i)" if "k \<le> i" for k using assms(1) that by (auto dest: inj_onD)
  have same: "e (name k) = d (name k)" if "k < i" for k
    using that assms(1,4) ne [of k] by (metis atMost_iff inj_onD le_SucI less_imp_le less_irrefl order_refl)
  have top: "d' (name (Suc i)) = Some (if i = 0 then gz x else x)" using D(1) [OF above [OF assms(1)]] assms(6) by simp
  show "d' p = d p" if "p \<notin> name ` {..Suc i}" for p using that D(1) [of p] assms(4) by (simp add: atMost_Suc image_iff)
  show "d' (name (Suc k)) = Some (if k = 0 then gz y else y) \<or> \<not> ok \<and> d' (name k) = Some y" if "k < Suc i" "d (name k) = Some y" for k y
    using that assms(2) top same [of k] D(2) [of k y] by (cases "k = i") simp_all
  show "d' (name (Suc k)) = None" if "k < Suc i" "d (name k) = None" "d (name (Suc k)) = None" for k
  proof -
    have "k < i" "Suc k \<noteq> i" using that assms(2) by (auto simp: less_Suc_eq)
    then show ?thesis using that same [of k] same [of "Suc k"] D(3) [of k] by simp
  qed
qed

lemma shifted_stuck:
  assumes "inj_on name {..Suc i}" "d (name i) = Some x" "d' (name i) = Some x" "\<forall>p. p \<noteq> name (Suc i) \<and> p \<noteq> name i \<longrightarrow> d' p = d p"
  shows "shifted name gz (Suc i) d False d'"
proof (rule shiftedI)
  have ne: "name k \<noteq> name (Suc i)" if "k \<le> i" for k using assms(1) that by (auto dest: inj_onD)
  have same: "d' (name k) = d (name k)" if "k \<le> i" for k using that assms(2-4) ne [of k] by (cases "name k = name i") simp_all
  show "d' p = d p" if "p \<notin> name ` {..Suc i}" for p using that assms(4) by (simp add: atMost_Suc image_iff)
  show "d' (name (Suc k)) = Some (if k = 0 then gz y else y) \<or> \<not> False \<and> d' (name k) = Some y" if "k < Suc i" "d (name k) = Some y" for k y
    using that same [of k] by simp
  show "d' (name (Suc k)) = None" if "k < Suc i" "d (name k) = None" "d (name (Suc k)) = None" for k
    using that assms(2) same [of "Suc k"] by (cases "k = i") simp_all
qed

lemma shift_effect: "inj_on name {..n} \<Longrightarrow> \<forall>i second. whole (os i second) \<Longrightarrow> shift_files name gz os n d = (ok, d') \<Longrightarrow> shifted name gz n d ok d'"
proof (induction n arbitrary: d)
  case (Suc i)
  have inj: "inj_on name {..i}" using Suc.prems(1) by (rule inj_on_subset) auto
  have ne: "name k \<noteq> name (Suc i)" if "k \<le> i" for k using Suc.prems(1) that by (auto dest: inj_onD)
  show ?case
  proof (cases "d (name i)")
    case None
    then show ?thesis using Suc.IH [OF inj Suc.prems(2)] Suc.prems(1,3) by (auto intro!: shifted_above)
  next
    case (Some x)
    obtain ok1 d1 where 1: "move_file gz (Suc i) (os (Suc i)) (name i) (name (Suc i)) d = (ok1, d1)" by fastforce
    note e = move_effect [OF ne [OF order_refl] 1 Some Suc.prems(2) [rule_format]]
    show ?thesis
    proof (cases ok1)
      case True
      then have "shifted name gz i d1 ok d'" using Suc.IH [OF inj Suc.prems(2)] Suc.prems(3) 1 Some by simp
      then show ?thesis using shifted_moved [OF Suc.prems(1), of d x] Some e True by simp
    next
      case False
      then have "\<not> ok" "d' = d1" using Suc.prems(3) 1 Some by simp_all
      then show ?thesis using shifted_stuck [OF Suc.prems(1), of d x] Some e False by simp
    qed
  qed
qed (simp add: shifted_def)

subsection \<open>No line is lost\<close>

text \<open>No two files share a name.\<close>

definition distinct_names :: "'day log_setting \<Rightarrow> bool" where
  "distinct_names c \<longleftrightarrow> (\<forall>d k d' k'. file_pattern c d (Suc k) = file_pattern c d' (Suc k') \<longrightarrow> d = d' \<and> k = k') \<and>
     (\<forall>d k. file_pattern c d (Suc k) \<noteq> base_filename c)"

text \<open>The text \<open>l\<close> can be read in the log file or in an archive.\<close>

definition readable :: "'day log_setting \<Rightarrow> disk \<Rightarrow> bytes \<Rightarrow> bool" where
  "readable c d l \<longleftrightarrow> (\<exists>x. d (base_filename c) = Some x \<and> sublist l x) \<or> (\<exists>day k x. d (file_pattern c day (Suc k)) = Some (gzip c x) \<and> sublist l x)"

text \<open>No copy stops short, for no message.\<close>

definition sound_copies :: "(nat \<Rightarrow> bool \<Rightarrow> attempt) \<Rightarrow> bool" where
  "sound_copies os \<longleftrightarrow> (\<forall>i second. whole (os i second))"

text \<open>No day has more than \<open>r\<close> archives.\<close>

definition archived :: "'day log_setting \<Rightarrow> nat \<Rightarrow> disk \<Rightarrow> bool" where
  "archived c r d \<longleftrightarrow> (\<forall>day k. r \<le> k \<longrightarrow> d (file_pattern c day (Suc k)) = None)"

definition rotations_of :: "'day log_setting \<Rightarrow> log_entry \<Rightarrow> log_sink \<Rightarrow> nat" where
  "rotations_of c m s = (if made m \<ge> rotation_tp s then 1 else 0)"

fun rotations :: "'day log_setting \<Rightarrow> log_entry list \<Rightarrow> log_sink \<Rightarrow> nat" where
  "rotations c [] s = 0"
| "rotations c (m # ms) s = rotations_of c m s + rotations c ms (fst (sink_it c m s))"

lemma names_inj: "distinct_names c \<Longrightarrow> inj_on (calcFilename (base_filename c) (file_pattern c) today) {..n}"
  by (rule inj_onI) (case_tac x; case_tac y; auto simp: calcFilename_def distinct_names_def dest: sym)

lemma rotate_keeps:
  assumes "distinct_names c" "archived c r d" "r < max_files c" "readable c d l" "sound_copies os"
  shows "readable c (fst (rotate_files c os re now d)) l"
proof -
  let ?name = "calcFilename (base_filename c) (file_pattern c) (local_day c now)"
  obtain ok d1 where 1: "shift_files ?name (gzip c) os (max_files c) d = (ok, d1)" by fastforce
  note D = shiftedD [OF shift_effect [OF names_inj [OF assms(1)] assms(5) [unfolded sound_copies_def] 1]]
  have n: "?name 0 = base_filename c" "\<And>k. ?name (Suc k) = file_pattern c (local_day c now) (Suc k)" by (simp_all add: calcFilename_def)
  have kept: "d1 p = Some y \<Longrightarrow> fst (rotate_files c os re now d) p = Some y" for p y using 1 by (auto simp: rotate_files_def reopen_def)
  consider (base) x where "d (?name 0) = Some x" "sublist l x"
    | (arch) day k x where "d (file_pattern c day (Suc k)) = Some (gzip c x)" "sublist l x"
    using assms(4) by (auto simp: readable_def n)
  then show ?thesis
  proof cases
    case base
    then have "d1 (?name (Suc 0)) = Some (gzip c x) \<or> d1 (?name 0) = Some x" using D(2) [of 0 x] assms(3) by auto
    then show ?thesis using base(2) kept unfolding readable_def n by blast
  next
    case arch
    have "k < r" using assms(2) arch(1) by (metis archived_def not_less option.distinct(1))
    show ?thesis
    proof (cases "day = local_day c now")
      case True
      then have "d1 (?name (Suc (Suc k))) = Some (gzip c x) \<or> d1 (?name (Suc k)) = Some (gzip c x)"
        using D(2) [of "Suc k" "gzip c x"] arch(1) \<open>k < r\<close> assms(3) by (auto simp: n)
      then show ?thesis using arch(2) kept unfolding readable_def n by blast
    next
      case False
      have "file_pattern c day (Suc k) \<notin> ?name ` {..max_files c}"
      proof
        assume "file_pattern c day (Suc k) \<in> ?name ` {..max_files c}"
        then obtain j where "file_pattern c day (Suc k) = ?name j" by auto
        then show False using assms(1) False by (cases j) (auto simp: calcFilename_def distinct_names_def)
      qed
      then have "d1 (file_pattern c day (Suc k)) = Some (gzip c x)" using D(1) arch(1) by simp
      then show ?thesis using arch(2) kept unfolding readable_def by blast
    qed
  qed
qed

lemma rotate_archived:
  assumes "distinct_names c" "archived c r d" "r < max_files c" "sound_copies os"
  shows "archived c (Suc r) (fst (rotate_files c os re now d))"
proof -
  let ?name = "calcFilename (base_filename c) (file_pattern c) (local_day c now)"
  obtain ok d1 where 1: "shift_files ?name (gzip c) os (max_files c) d = (ok, d1)" by fastforce
  note D = shiftedD [OF shift_effect [OF names_inj [OF assms(1)] assms(4) [unfolded sound_copies_def] 1]]
  have "d1 (file_pattern c day (Suc k)) = None" if k: "Suc r \<le> k" for day k
  proof (cases "file_pattern c day (Suc k) \<in> ?name ` {..max_files c}")
    case False
    then show ?thesis using D(1) assms(2) k by (simp add: archived_def)
  next
    case True
    then obtain j where j: "file_pattern c day (Suc k) = ?name j" "j \<le> max_files c" by auto
    then have "j = Suc k" "day = local_day c now" using assms(1) by (cases j; auto simp: calcFilename_def distinct_names_def)+
    then show ?thesis using D(3) [of k] assms(2) j k by (cases k) (auto simp: archived_def calcFilename_def)
  qed
  moreover have "file_pattern c day (Suc k) \<noteq> base_filename c" for day k using assms(1) by (simp add: distinct_names_def)
  ultimately show ?thesis using 1 by (simp add: rotate_files_def reopen_def archived_def)
qed

text \<open>A sink that has its file open has the file.\<close>

definition file_there :: "'day log_setting \<Rightarrow> log_sink \<Rightarrow> bool" where
  "file_there c s \<longleftrightarrow> (is_open s \<longrightarrow> disk s (base_filename c) \<noteq> None)"

lemma rotate_opens: "rotate_files c os re now d = (d1, ok) \<Longrightarrow> ok = re \<and> (re \<longrightarrow> d1 (base_filename c) \<noteq> None)"
  by (auto simp: rotate_files_def reopen_def Let_def split: if_splits)

lemma appended:
  assumes "d (base_filename c) = Some x" "distinct_names c"
  shows "readable c d l \<Longrightarrow> readable c (append_to (base_filename c) y d) l" "readable c (append_to (base_filename c) y d) y"
    "archived c r d \<Longrightarrow> archived c r (append_to (base_filename c) y d)"
proof -
  have b: "file_pattern c day (Suc k) \<noteq> base_filename c" for day k using assms(2) by (simp add: distinct_names_def)
  show "readable c d l \<Longrightarrow> readable c (append_to (base_filename c) y d) l" using assms(1) b
    unfolding readable_def append_to_def by (auto intro: sublist_append_rightI sublist_order.order_trans)
  show "readable c (append_to (base_filename c) y d) y" using assms(1) by (auto simp: readable_def append_to_def intro: sublist_append_leftI)
  show "archived c r d \<Longrightarrow> archived c r (append_to (base_filename c) y d)" using b by (simp add: archived_def append_to_def)
qed

lemma sink_it_keeps:
  assumes "distinct_names c" "archived c r (disk s)" "r + rotations_of c m s \<le> max_files c" "file_there c s" "sound_copies (file_system m)"
    and "sink_it c m s = (s', ok)"
  shows "readable c (disk s) l \<Longrightarrow> readable c (disk s') l"
    and "ok \<Longrightarrow> readable c (disk s') (formatted m)"
    and "archived c (r + rotations_of c m s) (disk s')" "file_there c s'"
    and "is_open s \<Longrightarrow> reopens m \<Longrightarrow> fails_after m = None \<Longrightarrow> ok \<and> is_open s'"
proof -
  define s1 where "s1 = (if made m \<ge> rotation_tp s
       then let (d1, ok) = rotate_files c (file_system m) (reopens m) (written m) (disk s) in
         if ok then \<lparr>rotation_tp = nextRotation c (written m), disk = d1, is_open = True\<rparr> else s\<lparr>disk := d1, is_open := False\<rparr>
       else s)"
  have s': "(s', ok) = (if \<not> is_open s1 then (s1, False) else case fails_after m of
       None \<Rightarrow> (s1\<lparr>disk := append_to (base_filename c) (formatted m) (disk s1)\<rparr>, True)
     | Some n \<Rightarrow> (s1\<lparr>disk := append_to (base_filename c) (take n (formatted m)) (disk s1)\<rparr>, False))"
    unfolding assms(6) [symmetric] sink_it_def s1_def
    by (cases "rotate_files c (file_system m) (reopens m) (written m) (disk s)"; cases "made m \<ge> rotation_tp s") (simp_all add: Let_def split: option.split)
  have d1: "disk s1 = (if made m \<ge> rotation_tp s then fst (rotate_files c (file_system m) (reopens m) (written m) (disk s)) else disk s)"
    by (auto simp: s1_def split: prod.splits)
  have there: "file_there c s1" using assms(4) rotate_opens [of c "file_system m" "reopens m" "written m" "disk s"]
    by (auto simp: s1_def file_there_def split: prod.splits)
  have keeps: "readable c (disk s) l \<Longrightarrow> readable c (disk s1) l"
    using rotate_keeps [OF assms(1,2) _ _ assms(5)] assms(3) by (auto simp: rotations_of_def d1)
  have arch: "archived c (r + rotations_of c m s) (disk s1)"
    using rotate_archived [OF assms(1,2) _ assms(5)] assms(2,3) by (auto simp: rotations_of_def d1)
  have "(readable c (disk s) l \<longrightarrow> readable c (disk s') l) \<and> (ok \<longrightarrow> readable c (disk s') (formatted m)) \<and>
    archived c (r + rotations_of c m s) (disk s') \<and> file_there c s'"
  proof (cases "is_open s1")
    case False
    then show ?thesis using s' keeps arch there by simp
  next
    case True
    then obtain x where x: "disk s1 (base_filename c) = Some x" using there by (auto simp: file_there_def)
    obtain y where y: "s' = s1\<lparr>disk := append_to (base_filename c) y (disk s1)\<rparr>" "ok \<longrightarrow> y = formatted m"
      using s' True by (cases "fails_after m") auto
    note a = appended [where d = "disk s1" and c = c and y = y, OF x assms(1)]
    have "file_there c s'" using x by (simp add: y(1) file_there_def append_to_def)
    then show ?thesis using a(1) [OF keeps] a(2) a(3) [OF arch] y by auto
  qed
  then show "readable c (disk s) l \<Longrightarrow> readable c (disk s') l" "ok \<Longrightarrow> readable c (disk s') (formatted m)"
    "archived c (r + rotations_of c m s) (disk s')" "file_there c s'" by blast+
  assume "is_open s" "reopens m" "fails_after m = None"
  moreover from this have "is_open s1" using rotate_opens [of c "file_system m" "reopens m" "written m" "disk s"] by (auto simp: s1_def split: prod.splits)
  ultimately show "ok \<and> is_open s'" using s' by simp
qed

lemma run_keeps:
  assumes "distinct_names c" "archived c r (disk s)" "r + rotations c ms s \<le> max_files c" "file_there c s"
    and "\<forall>m\<in>set ms. sound_copies (file_system m)" "log_all c ms s = (s', written_ones)"
  shows "(\<forall>l. readable c (disk s) l \<longrightarrow> readable c (disk s') l) \<and> (\<forall>m\<in>set written_ones. readable c (disk s') (formatted m)) \<and>
    (is_open s \<and> (\<forall>m\<in>set ms. reopens m \<and> fails_after m = None) \<longrightarrow> written_ones = ms)"
  using assms
proof (induction ms arbitrary: s r written_ones)
  case (Cons m ms)
  obtain s1 ok where 1: "sink_it c m s = (s1, ok)" by fastforce
  obtain ws where 2: "log_all c ms s1 = (s', ws)" "written_ones = (if ok then m # ws else ws)"
    using Cons.prems(6) 1 by (cases "log_all c ms s1") (simp add: Let_def)
  have r: "r + rotations_of c m s \<le> max_files c" "(r + rotations_of c m s) + rotations c ms s1 \<le> max_files c" using Cons.prems(3) 1 by simp_all
  have sound: "sound_copies (file_system m)" "\<forall>m\<in>set ms. sound_copies (file_system m)" using Cons.prems(5) by simp_all
  note k = sink_it_keeps [OF Cons.prems(1,2) r(1) Cons.prems(4) sound(1) 1]
  note ih = Cons.IH [OF Cons.prems(1) k(3) r(2) k(4) sound(2) 2(1)]
  have "readable c (disk s') (formatted m)" if ok using ih k(2) that by blast
  moreover have "readable c (disk s) l \<longrightarrow> readable c (disk s') l" for l using ih k(1) by blast
  moreover have "written_ones = m # ms" if "is_open s" "\<forall>m\<in>set (m # ms). reopens m \<and> fails_after m = None"
    using ih k(5) that 2(2) by simp
  ultimately show ?case using ih 2(2) by (cases ok) auto
qed simp

lemma start_keeps:
  assumes "distinct_names c" "archived c r d" "r < max_files c" "sound_copies os" "FileLogSink c os opens re now d = Inr s"
  shows "archived c (Suc r) (disk s)" "d (base_filename c) = Some x \<Longrightarrow> readable c (disk s) x" "is_open s" "file_there c s"
proof -
  let ?d = "reopen (base_filename c) d"
  have "file_pattern c day (Suc k) \<noteq> base_filename c" for day k using assms(1) by (simp add: distinct_names_def)
  then have a: "archived c r ?d" using assms(2) by (simp add: archived_def reopen_def)
  then have a': "archived c (Suc r) ?d" by (simp add: archived_def)
  have s: "s = \<lparr>rotation_tp = nextRotation c now, disk = (if d (base_filename c) \<noteq> None then fst (rotate_files c os re now ?d) else ?d), is_open = True\<rparr>"
    "d (base_filename c) \<noteq> None \<Longrightarrow> snd (rotate_files c os re now ?d)"
    using assms(5) by (auto simp: FileLogSink_def Let_def split: if_splits prod.splits)
  show "archived c (Suc r) (disk s)" using rotate_archived [OF assms(1) a assms(3,4)] a' by (simp add: s(1))
  show "is_open s" by (simp add: s(1))
  show "file_there c s" using s(2) rotate_opens [of c os re now ?d]
    by (cases "rotate_files c os re now ?d") (auto simp: s(1) file_there_def reopen_def)
  assume "d (base_filename c) = Some x"
  moreover from this have "readable c ?d x" by (auto simp: readable_def reopen_def)
  ultimately show "readable c (disk s) x" using rotate_keeps [OF assms(1) a assms(3) _ assms(4)] by (simp add: s(1))
qed

text \<open>What a copy that stops short does: the rotation reports success, and the text after that point is in no file.\<close>

lemma short_copy_loses:
  assumes "d (base_filename c) = Some x" "distinct_names c" "max_files c = 1" "os 1 False = Stops_Short n"
  shows "fst (rotate_files c os True now d) (base_filename c) = Some []"
    and "fst (rotate_files c os True now d) (file_pattern c (local_day c now) 1) = Some (gzip c (take n x))"
proof -
  have "file_pattern c (local_day c now) (Suc 0) \<noteq> base_filename c" using assms(2) by (simp add: distinct_names_def)
  then show "fst (rotate_files c os True now d) (base_filename c) = Some []"
    "fst (rotate_files c os True now d) (file_pattern c (local_day c now) 1) = Some (gzip c (take n x))"
    using assms by (simp_all add: rotate_files_def reopen_def calcFilename_def move_file_def compress_def Let_def)
qed

text \<open>A rotation that cannot open the file again is tried again with the next message, and the message is gone.\<close>

lemma failed_reopen:
  assumes "made m \<ge> rotation_tp s" "\<not> reopens m"
  shows "snd (sink_it c m s) = False \<and> rotation_tp (fst (sink_it c m s)) = rotation_tp s"
  using assms by (auto simp: sink_it_def rotate_files_def Let_def)

text \<open>The next rotation is later than the last one exactly on a day that has not lasted 24 hours yet; on a day of 25 hours every message of
  the last hour rotates the files.\<close>

lemma rotation_not_later:
  "midnight c now \<le> now \<Longrightarrow> now < nextRotation c now \<longleftrightarrow> now < midnight c now + 24 * 3600"
  by (auto simp: nextRotation_def)

lemma long_day:
  "rotation_tp s \<le> z + 24 * 3600 \<Longrightarrow> \<forall>m\<in>set ms. midnight c (written m) = z \<and> z \<le> written m \<and> z + 24 * 3600 \<le> made m \<Longrightarrow>
    rotations c ms s = length ms"
proof (induction ms arbitrary: s)
  case (Cons m ms)
  then have "rotation_tp (fst (sink_it c m s)) \<le> z + 24 * 3600"
    by (auto simp: sink_it_def rotate_files_def nextRotation_def Let_def split: option.splits)
  with Cons show ?case by (auto simp: rotations_of_def)
qed simp

text \<open>An archive bears the date of the day after.\<close>

lemma archived_under_later_date:
  assumes "distinct_names c" "d (base_filename c) = Some x" "max_files c = 1" "\<And>i second. os i second = Works"
  shows "fst (rotate_files c os True now d) (file_pattern c (local_day c now) 1) = Some (gzip c x)"
proof -
  have "file_pattern c (local_day c now) (Suc 0) \<noteq> base_filename c" using assms(1) by (simp add: distinct_names_def)
  then show ?thesis using assms(2-4)
    by (simp add: rotate_files_def reopen_def calcFilename_def move_file_def compress_def Let_def One_nat_def)
qed

text \<open>Without colours every code disappears, with them it becomes the sequence of the terminal; the text between stays.\<close>

lemma text_formatted:
  assumes "\<forall>s\<in>set segs. unmarked (snd s)" "unmarked t"
  shows "format_text colours (t @ concat (map (\<lambda>(c, u). [0xC2, 0xA7, c] @ u) segs)) = t @ concat (map (\<lambda>(c, u). code_text colours c @ u) segs)"
  using assms
proof (induction segs arbitrary: t)
  case Nil
  then show ?case using format_unmarked [OF Nil.prems(2), of colours "[]"] by simp
next
  case (Cons s segs)
  obtain c u where s: "s = (c, u)" by fastforce
  have "format_text colours (u @ concat (map (\<lambda>(c, u). [0xC2, 0xA7, c] @ u) segs)) = u @ concat (map (\<lambda>(c, u). code_text colours c @ u) segs)"
    using Cons.IH [of u] Cons.prems(1) s by simp
  then show ?case using format_unmarked [OF Cons.prems(2)] by (simp add: s)
qed

text \<open>The lines that are logged are those of the message.\<close>

lemma logged_lines:
  assumes "m \<noteq> []" "isEnabledFor threshold l"
  shows "concat (map (\<lambda>e. snd e @ [0x0A]) (log_message threshold l m)) = m @ [0x0A]"
    and "e \<in> set (log_message threshold l m) \<Longrightarrow> fst e = l \<and> 0x0A \<notin> set (snd e)"
  using assms join_split [of "0x0A" "[]" m] split_no_newline [of "0x0A" "[]" _ m]
  by (auto simp: log_message_def split_view_def comp_def)

subsection \<open>Properties\<close>

text \<open>C39: From the start of a sink on, through every sequence of messages and rotations and at whatever times, each message whose write was not
  refused, and what the log held before, can be read in the log file or in an archive, whatever removals, renamings, compressions, writes and
  reopenings of files fail on the way; and no message is missed when the file can be opened again and written. This holds as long as the
  archives of a day and the rotations together stay within the number of files that are kept, and no copy that stops short passes for a whole
  one, as \<open>compress\<close> lets it.\<close>

theorem log_text_kept:
  assumes "distinct_names c" "archived c r d" "r + 1 + rotations c ms s \<le> max_files c"
    and "FileLogSink c os opens re now d = Inr s" "log_all c ms s = (s', written_ones)"
    and "sound_copies os" "\<forall>m\<in>set ms. sound_copies (file_system m)"
  shows "(\<forall>m\<in>set written_ones. readable c (disk s') (formatted m)) \<and> (\<forall>x. d (base_filename c) = Some x \<longrightarrow> readable c (disk s') x) \<and>
    ((\<forall>m\<in>set ms. reopens m \<and> fails_after m = None) \<longrightarrow> written_ones = ms)"
proof -
  have r: "r < max_files c" "Suc r + rotations c ms s \<le> max_files c" using assms(3) by simp_all
  note k = start_keeps [OF assms(1,2) r(1) assms(6,4)]
  show ?thesis using run_keeps [OF assms(1) k(1) r(2) k(4) assms(7,5)] k(2,3) by blast
qed

lemma replicate_sep: "a \<noteq> b \<Longrightarrow> replicate m a @ b # u = replicate n a @ b # v \<longleftrightarrow> m = n \<and> u = v"
  by (induction m arbitrary: n; case_tac n; auto)

definition demo_setting :: "nat log_setting" where
  "demo_setting = \<lparr>base_filename = ''latest.log'', file_pattern = (\<lambda>day k. replicate day (CHR ''d'') @ CHR ''-'' # replicate k (CHR ''i'')),
     max_files = 4, gzip = (\<lambda>x. 0x1f # x), local_day = (\<lambda>t. nat (t div 86400)), midnight = (\<lambda>t. t - t mod 86400)\<rparr>"

definition demo_entries :: "log_entry list" where
  "demo_entries = [\<lparr>made = 10, written = 10, file_system = (\<lambda>_ _. Works), reopens = True, fails_after = None, formatted = [1]\<rparr>,
     \<lparr>made = 86400, written = 86401, file_system = (\<lambda>i second. if i = 1 then Fails_Written [9] else Works), reopens = True, fails_after = None, formatted = [2]\<rparr>,
     \<lparr>made = 86402, written = 86402, file_system = (\<lambda>_ _. Works), reopens = True, fails_after = Some 1, formatted = [5, 6]\<rparr>,
     \<lparr>made = 172800, written = 172800, file_system = (\<lambda>_ _. Works), reopens = True, fails_after = None, formatted = [3]\<rparr>]"

definition demo_sink :: log_sink where
  "demo_sink = projr (FileLogSink demo_setting (\<lambda>_ _. Works) True True 5 [''latest.log'' \<mapsto> [0]])"

theorem log_text_kept_witness:
  "readable demo_setting (disk (fst (log_all demo_setting demo_entries demo_sink))) [2]"
proof -
  let ?run = "log_all demo_setting demo_entries demo_sink"
  have n: "distinct_names demo_setting" by (simp add: distinct_names_def demo_setting_def replicate_sep append_eq_Cons_conv Cons_eq_append_conv)
  have a: "archived demo_setting 0 [''latest.log'' \<mapsto> [0]]" using n by (simp add: archived_def distinct_names_def demo_setting_def)
  have r: "0 + 1 + rotations demo_setting demo_entries demo_sink \<le> max_files demo_setting" by code_simp
  have s: "FileLogSink demo_setting (\<lambda>_ _. Works) True True 5 [''latest.log'' \<mapsto> [0]] = Inr demo_sink"
    by (simp add: demo_sink_def FileLogSink_def rotate_files_def Let_def)
  have w: "map formatted (snd ?run) = [[1], [2], [3]]" by code_simp
  have c: "sound_copies (\<lambda>_ _. Works)" "\<forall>m\<in>set demo_entries. sound_copies (file_system m)"
    by (auto simp: sound_copies_def whole_def demo_entries_def)
  have "\<forall>m\<in>set (snd ?run). readable demo_setting (disk (fst ?run)) (formatted m)"
    by (rule log_text_kept [OF n a r s surjective_pairing c, THEN conjunct1])
  moreover have "[2] \<in> formatted ` set (snd ?run)" using arg_cong [OF w, of set] by simp
  ultimately show ?thesis by auto
qed

end
