(* ===== verification/Command_Adapter.thy ===== *)
theory Command_Adapter
  imports Command_Map Forms
begin

text \<open>
  The bridge between the commands of the game and those of plugins (\<open>src/endstone/core/command/minecraft_command_adapter.cpp\<close>,
  \<open>minecraft_command_wrapper.cpp\<close>, \<open>command_origin_wrapper.cpp\<close>, \<open>command_sender.cpp\<close>, \<open>src/bedrock/server/commands/command_output.cpp\<close>):
  the arguments of a plugin command are read off the parse tokens of the game, a command of the game runs for a plugin's sender. The parser of the
  game, which makes the tokens and compiles commands, and the commands themselves are parameters.
\<close>

subsection \<open>Tokens\<close>

text \<open>A token; its text is a place in the command line, \<open>tok_id\<close> tells that its type is \<open>Id\<close>.\<close>

datatype token = Token (tok_text: "nat option") (tok_length: nat) (tok_id: bool) (tok_child: "token option") (tok_next: "token option")

datatype parse_error = Null_Text | Outside_Line | End_Before_Begin

definition removeQuotes :: "bytes \<Rightarrow> bytes" where
  "removeQuotes s = (if length s < 2 then s else if hd s = 0x22 \<and> last s = 0x22 then take (length s - 2) (drop 1 s) else s)"

text \<open>\<open>findFirstWithText\<close>: of the token only the text is used.\<close>

fun findFirstWithText :: "token \<Rightarrow> nat option" where
  "findFirstWithText (Token t n i c x) = (case t of Some p \<Rightarrow> Some p
   | None \<Rightarrow> (case (case c of None \<Rightarrow> None | Some k \<Rightarrow> findFirstWithText k) of Some p \<Rightarrow> Some p
     | None \<Rightarrow> (case x of None \<Rightarrow> None | Some k \<Rightarrow> findFirstWithText k)))"

definition is_space :: "byte \<Rightarrow> bool" where
  "is_space b \<longleftrightarrow> b \<in> {0x20, 0x09, 0x0A, 0x0D, 0x0C, 0x0B}"

definition rstrip :: "bytes \<Rightarrow> bytes" where
  "rstrip s = rev (dropWhile is_space (rev s))"

text \<open>The text from one place on for a number of bytes, and up to the end of the line.\<close>

definition view :: "bytes \<Rightarrow> nat \<Rightarrow> nat \<Rightarrow> parse_error + bytes" where
  "view line p n = (if p + n \<le> length line then Inr (take n (drop p line)) else Inl Outside_Line)"

definition c_string :: "bytes \<Rightarrow> nat \<Rightarrow> parse_error + bytes" where
  "c_string line p = (if p \<le> length line then Inr (takeWhile (\<lambda>b. b \<noteq> 0) (drop p line)) else Inl Outside_Line)"

definition unquoted :: "bool \<Rightarrow> bytes \<Rightarrow> bytes" where
  "unquoted is_id s = (if is_id then removeQuotes s else s)"

definition parseNode :: "bytes \<Rightarrow> token \<Rightarrow> parse_error + bytes option" where
  "parseNode line root = (case tok_child root of
     None \<Rightarrow> if tok_length root = 0 then Inr None
       else (case tok_text root of None \<Rightarrow> Inl Null_Text
         | Some p \<Rightarrow> chain (view line p (tok_length root)) (\<lambda>v. Inr (Some (unquoted (tok_id root) v))))
   | Some child \<Rightarrow> (case findFirstWithText child of
       None \<Rightarrow> Inr None
     | Some b \<Rightarrow> (case (case tok_next root of None \<Rightarrow> None | Some x \<Rightarrow> findFirstWithText x) of
           None \<Rightarrow> chain (c_string line b) (\<lambda>v. Inr (Some (unquoted (tok_id child) (rstrip v))))
         | Some e \<Rightarrow> if e < b then Inl End_Before_Begin
             else chain (view line b (e - b)) (\<lambda>v. Inr (Some (unquoted (tok_id child) (rstrip v)))))))"

text \<open>The game calls \<open>parse\<close> for every parameter that was given.\<close>

definition parse_param :: "bytes \<Rightarrow> token \<Rightarrow> bytes list \<Rightarrow> parse_error + bytes list" where
  "parse_param line t args = chain (parseNode line t) (\<lambda>r. Inr (case r of None \<Rightarrow> args | Some a \<Rightarrow> args @ [a]))"

subsection \<open>The output of a command\<close>

datatype output_type = No_Output | Last_Output | Silent | All_Output | Data_Set

datatype message_type = Success | Failure

record command_output =
  output_kind :: output_type
  output_messages :: "(message_type \<times> string \<times> string list) list"
  success_count :: nat

definition CommandOutput :: "output_type \<Rightarrow> command_output" where
  "CommandOutput k = \<lparr>output_kind = k, output_messages = [], success_count = 0\<rparr>"

definition success :: "command_output \<Rightarrow> command_output" where
  "success out = out\<lparr>success_count := success_count out + 1\<rparr>"

definition addMessage :: "string \<Rightarrow> string list \<Rightarrow> message_type \<Rightarrow> command_output \<Rightarrow> command_output" where
  "addMessage m ps k out = out\<lparr>output_messages := (if output_kind out = Last_Output then [] else output_messages out) @ [(k, m, ps)]\<rparr>"

definition forceOutput :: "string \<Rightarrow> string list \<Rightarrow> command_output \<Rightarrow> command_output" where
  "forceOutput m ps out = (if output_kind out \<noteq> No_Output then addMessage m ps Success out else out)"

definition output_error :: "string \<Rightarrow> string list \<Rightarrow> command_output \<Rightarrow> command_output" where
  "output_error m ps out = (if output_kind out \<noteq> No_Output then addMessage m ps Failure out else out)"

subsection \<open>Senders\<close>

datatype origin_type = Origin_Player | Origin_CommandBlock | Origin_MinecartCommandBlock | Origin_DedicatedServer | Origin_Entity | Origin_Other

datatype sender = Console_Sender | Actor_Sender | Block_Sender | Wrapped_Origin

fun getEndstoneSender :: "origin_type \<Rightarrow> sender" where
  "getEndstoneSender Origin_DedicatedServer = Console_Sender"
| "getEndstoneSender Origin_Player = Actor_Sender"
| "getEndstoneSender Origin_Entity = Actor_Sender"
| "getEndstoneSender Origin_CommandBlock = Block_Sender"
| "getEndstoneSender _ = Wrapped_Origin"

text \<open>Senders without an inbox of their own write to the output of the command. A plain text is one without parameters.\<close>

fun toTranslatable :: "Forms.message \<Rightarrow> string \<times> string list" where
  "toTranslatable (Text t) = (t, [])"
| "toTranslatable (Translatable t ps) = (t, ps)"

definition wrapped_sendMessage :: "Forms.message \<Rightarrow> command_output \<Rightarrow> command_output" where
  "wrapped_sendMessage m out = (let (t, ps) = toTranslatable m in forceOutput t ps out)"

definition wrapped_sendErrorMessage :: "Forms.message \<Rightarrow> command_output \<Rightarrow> command_output" where
  "wrapped_sendErrorMessage m out = (let (t, ps) = toTranslatable m in output_error t ps out)"

text \<open>The level of permissions of an origin: 0 is \<open>Any\<close>, 3 is \<open>Host\<close>.\<close>

datatype sender_level = Sender_Default | Sender_Operator | Sender_Console

definition wrapped_level :: "nat \<Rightarrow> sender_level" where
  "wrapped_level n = (if n \<ge> 3 then Sender_Console else if n > 0 then Sender_Operator else Sender_Default)"

subsection \<open>A plugin command that is run by the game\<close>

datatype run_error = Map_Failed map_error | Command_Not_Found

definition adapter_execute ::
  "command_map \<Rightarrow> string \<Rightarrow> (command_ref \<Rightarrow> sender \<Rightarrow> bytes list \<Rightarrow> command_output \<Rightarrow> bool \<times> command_output)
   \<Rightarrow> origin_type \<Rightarrow> bytes list \<Rightarrow> command_output \<Rightarrow> run_error + command_output" where
  "adapter_execute m name execute origin args out = (case getCommand m name of
     Inl e \<Rightarrow> Inl (Map_Failed e)
   | Inr None \<Rightarrow> Inl Command_Not_Found
   | Inr (Some c) \<Rightarrow> (case execute c (getEndstoneSender origin) args out of (ok, out1) \<Rightarrow> Inr (if ok then success out1 else out1)))"

subsection \<open>A command of the game that is run by a plugin\<close>

datatype told = Message_Sent Forms.message | Error_Sent Forms.message

definition testPermission :: "(string \<Rightarrow> bool) \<Rightarrow> command \<Rightarrow> bool \<times> told list" where
  "testPermission has c = (if testPermissionSilently has c then (True, [])
     else (False, [Error_Sent (Translatable ''commands.generic.error.permissions'' [cmd_name c])]))"

definition getPermission :: "string \<Rightarrow> string" where
  "getPermission name = ''minecraft.command.'' @ name"

fun join_words :: "string list \<Rightarrow> string" where
  "join_words [] = []"
| "join_words [w] = w"
| "join_words (w # ws) = w @ CHR '' '' # join_words ws"

text \<open>What the game compiled: the level the command asks for, and how it runs at a level.\<close>

record compiled =
  asked_level :: nat
  run_at :: "nat \<Rightarrow> command_output \<Rightarrow> command_output"

definition redirected :: "message_type \<times> string \<times> string list \<Rightarrow> told" where
  "redirected e = (case e of (Success, t, ps) \<Rightarrow> Message_Sent (Translatable t ps) | (Failure, t, ps) \<Rightarrow> Error_Sent (Translatable t ps))"

text \<open>\<open>origin\<close> is the kind of output for the sender's origin, \<open>None\<close> for a sender without one. \<open>compile_command\<close> reports errors or compiles.
  The command runs at level 0, \<open>Any\<close>; the result is with it whether it succeeded, what the sender was told and the level the command has
  afterwards.\<close>

definition wrapper_execute ::
  "(string \<Rightarrow> bool) \<Rightarrow> output_type option \<Rightarrow> (string \<Rightarrow> string list \<times> compiled option) \<Rightarrow> command \<Rightarrow> string list \<Rightarrow> bool \<times> told list \<times> nat option" where
  "wrapper_execute has origin compile_command c args = (case testPermission has c of
     (False, ts) \<Rightarrow> (True, ts, None)
   | (True, ts) \<Rightarrow> (case origin of
       None \<Rightarrow> (False, ts @ [Error_Sent (Text ''Unsupported sender type!'')], None)
     | Some kind \<Rightarrow> (case compile_command (join_words ((CHR ''/'' # cmd_name c) # args)) of
         (errors, None) \<Rightarrow> (False, ts @ map (\<lambda>e. Error_Sent (Text e)) errors, None)
       | (errors, Some k) \<Rightarrow> (let permission_level = asked_level k; k0 = k\<lparr>asked_level := 0\<rparr>; out = run_at k (asked_level k0) (CommandOutput kind);
             k1 = k0\<lparr>asked_level := permission_level\<rparr> in
           (success_count out > 0, ts @ map (\<lambda>e. Error_Sent (Text e)) errors @ map redirected (output_messages out), Some (asked_level k1))))))"

subsection \<open>Lemmas\<close>

lemma removeQuotes_quoted: "removeQuotes (0x22 # s @ [0x22]) = s"
  by (simp add: removeQuotes_def)

lemma rstrip_spaces: "\<forall>b\<in>set r. is_space b \<Longrightarrow> w \<noteq> [] \<Longrightarrow> \<not> is_space (last w) \<Longrightarrow> rstrip (w @ r) = w"
proof (cases w rule: rev_cases)
  case (snoc ys y)
  assume "\<forall>b\<in>set r. is_space b" "\<not> is_space (last w)"
  moreover from this have "dropWhile is_space (rev r @ y # rev ys) = dropWhile is_space (y # rev ys)" by (intro dropWhile_append2) simp
  ultimately show ?thesis using snoc by (simp add: rstrip_def)
qed simp

lemma rstrip_idem: "rstrip (rstrip s) = rstrip s"
  by (simp add: rstrip_def dropWhile_idem)

text \<open>What the sender of a command sees of its output: nothing, the last message, or every one in order.\<close>

lemma sent_message:
  "output_kind (wrapped_sendMessage m out) = output_kind out"
  "output_messages (wrapped_sendMessage m out) = (if output_kind out = No_Output then output_messages out
     else (if output_kind out = Last_Output then [] else output_messages out) @ [(Success, toTranslatable m)])"
  by (simp_all add: wrapped_sendMessage_def forceOutput_def addMessage_def split: prod.splits)

lemma sent_kind: "output_kind (fold wrapped_sendMessage ms out) = output_kind out"
  by (induction ms arbitrary: out) (simp_all add: sent_message)

lemma shown_messages:
  "output_messages (fold wrapped_sendMessage ms (CommandOutput k)) = (let xs = map (\<lambda>m. (Success, toTranslatable m)) ms in
    if k = No_Output then [] else if k = Last_Output then (if xs = [] then [] else [last xs]) else xs)"
proof (induction ms rule: rev_induct)
  case (snoc m ms)
  have "output_kind (fold wrapped_sendMessage ms (CommandOutput k)) = k" by (simp add: sent_kind CommandOutput_def)
  with snoc show ?case by (cases k) (simp_all add: sent_message Let_def)
qed (simp add: CommandOutput_def Let_def)

subsection \<open>Arguments as they are written\<close>

text \<open>The arguments of a command line, each with whether its token is an \<open>Id\<close> and the white space that follows it.\<close>

type_synonym written_arg = "bool \<times> bytes \<times> bytes"

definition arg_text :: "written_arg \<Rightarrow> bytes" where
  "arg_text a = fst (snd a) @ snd (snd a)"

definition proper_arg :: "written_arg \<Rightarrow> bool" where
  "proper_arg a \<longleftrightarrow> fst (snd a) \<noteq> [] \<and> \<not> is_space (last (fst (snd a))) \<and> 0 \<notin> set (fst (snd a)) \<and> (\<forall>b\<in>set (snd (snd a)). is_space b)"

text \<open>Tokens of the arguments that start at a place of the line, as the comments of \<open>parseNode\<close> describe them: the nodes of the parameters follow
  one another; a leaf is the text of its argument; of any other node the first text below is where its argument starts, whatever else is
  below; a node without any text stands for no argument.\<close>

definition textless :: "token \<Rightarrow> bool" where
  "textless t \<longleftrightarrow> tok_text t = None \<and> (case tok_child t of None \<Rightarrow> tok_length t = 0 | Some c \<Rightarrow> findFirstWithText c = None)"

definition holds_arg :: "nat \<Rightarrow> token \<Rightarrow> written_arg \<Rightarrow> bool" where
  "holds_arg p t a \<longleftrightarrow> (case tok_child t of
     None \<Rightarrow> tok_text t = Some p \<and> tok_length t = length (fst (snd a)) \<and> tok_id t = fst a
   | Some c \<Rightarrow> (tok_text t = None \<or> tok_text t = Some p) \<and> findFirstWithText c = Some p \<and> tok_id c = fst a)"

fun laid_out :: "nat \<Rightarrow> token \<Rightarrow> written_arg list \<Rightarrow> bool" where
  "laid_out p (Token t n i c x) as \<longleftrightarrow> (if textless (Token t n i c x) then (case x of None \<Rightarrow> as = [] | Some k \<Rightarrow> laid_out p k as)
     else (case as of [] \<Rightarrow> False | a # as' \<Rightarrow> holds_arg p (Token t n i c x) a \<and>
       (case x of None \<Rightarrow> as' = [] | Some k \<Rightarrow> laid_out (p + length (arg_text a)) k as')))"

fun nodes :: "token \<Rightarrow> token list" where
  "nodes (Token t n i c x) = Token t n i c x # (case x of None \<Rightarrow> [] | Some k \<Rightarrow> nodes k)"

definition parse_all :: "bytes \<Rightarrow> token \<Rightarrow> parse_error + bytes list" where
  "parse_all line t = fold_chain (parse_param line) (nodes t) []"

lemma strip_arg: "proper_arg a \<Longrightarrow> rstrip (arg_text a) = fst (snd a)"
  by (auto simp: arg_text_def proper_arg_def intro!: rstrip_spaces)

lemma no_nul: "proper_arg a \<Longrightarrow> takeWhile (\<lambda>b. b \<noteq> 0) (arg_text a) = arg_text a"
  by (auto simp: arg_text_def proper_arg_def takeWhile_eq_all_conv is_space_def)

text \<open>The first text of the tokens is where the first argument starts.\<close>

lemma first_text: "laid_out p t as \<Longrightarrow> findFirstWithText t = (if as = [] then None else Some p)"
proof (induction p t as rule: laid_out.induct)
  case (1 p t n i c x as)
  show ?case
  proof (cases "textless (Token t n i c x)")
    case True
    then have "t = None" "c = None \<or> (\<exists>k. c = Some k \<and> findFirstWithText k = None)" by (auto simp: textless_def split: option.splits)
    moreover have "findFirstWithText k = (if as = [] then None else Some p)" if "x = Some k" for k using 1(1) [OF True that] 1(3) True that by simp
    ultimately show ?thesis using 1(3) True by (cases x) auto
  next
    case False
    then obtain a as' where "as = a # as'" "holds_arg p (Token t n i c x) a" using 1(3) by (cases as) simp_all
    then show ?thesis by (cases c; cases t) (auto simp: holds_arg_def)
  qed
qed

lemma parse_textless: "textless t \<Longrightarrow> parseNode line t = Inr None"
  by (auto simp: textless_def parseNode_def split: option.splits)

lemma parse_holding:
  assumes "holds_arg (length pre) t a" "proper_arg a" "line = pre @ arg_text a @ r"
    and "(case tok_next t of None \<Rightarrow> None | Some x \<Rightarrow> findFirstWithText x) = e"
    and "e = None \<and> r = [] \<or> e = Some (length pre + length (arg_text a))"
  shows "parseNode line t = Inr (Some (unquoted (fst a) (fst (snd a))))"
proof (cases "tok_child t")
  case None
  then show ?thesis using assms(1-3) by (auto simp: holds_arg_def parseNode_def view_def arg_text_def proper_arg_def)
next
  case (Some c)
  then have c: "findFirstWithText c = Some (length pre)" "tok_id c = fst a" using assms(1) by (simp_all add: holds_arg_def)
  show ?thesis using assms(5)
  proof
    assume "e = None \<and> r = []"
    then show ?thesis using Some c assms(2-4) by (simp add: parseNode_def c_string_def no_nul strip_arg)
  next
    assume "e = Some (length pre + length (arg_text a))"
    then show ?thesis using Some c assms(2-4) by (simp add: parseNode_def view_def strip_arg)
  qed
qed

lemma parse_nodes:
  "laid_out (length pre) t as \<Longrightarrow> \<forall>a\<in>set as. proper_arg a \<Longrightarrow> line = pre @ concat (map arg_text as) \<Longrightarrow>
    fold_chain (parse_param line) (nodes t) acc = Inr (acc @ map (\<lambda>a. unquoted (fst a) (fst (snd a))) as)"
proof (induction "length pre" t as arbitrary: pre acc rule: laid_out.induct)
  case (1 t n i c x as)
  let ?t = "Token t n i c x"
  show ?case
  proof (cases "textless ?t")
    case True
    have p: "parse_param line ?t acc = Inr acc" using parse_textless [OF True, of line] by (simp add: parse_param_def)
    show ?thesis
    proof (cases x)
      case None
      then show ?thesis using 1(3) True p by simp
    next
      case (Some k)
      then have "laid_out (length pre) k as" using 1(3) True by simp
      from 1(1) [OF True Some refl this 1(4,5)] show ?thesis using Some p by simp
    qed
  next
    case False
    then obtain a as' where a: "as = a # as'" "holds_arg (length pre) ?t a"
        "case x of None \<Rightarrow> as' = [] | Some k \<Rightarrow> laid_out (length pre + length (arg_text a)) k as'"
      using 1(3) by (cases as) simp_all
    have args: "proper_arg a" "\<forall>a\<in>set as'. proper_arg a" using 1(4) a(1) by simp_all
    have line: "line = pre @ arg_text a @ concat (map arg_text as')" using 1(5) a(1) by simp
    have next_text: "(case tok_next ?t of None \<Rightarrow> None | Some k \<Rightarrow> findFirstWithText k) = (if as' = [] then None else Some (length pre + length (arg_text a)))"
      using a(3) first_text by (cases x) auto
    have "(if as' = [] then None else Some q) = None \<and> concat (map arg_text as') = [] \<or> (if as' = [] then None else Some q) = Some q" for q :: nat
      by (cases as') simp_all
    from parse_holding [OF a(2) args(1) line next_text this]
    have p: "parse_param line ?t acc = Inr (acc @ [unquoted (fst a) (fst (snd a))])" by (simp add: parse_param_def)
    show ?thesis
    proof (cases x)
      case None
      then show ?thesis using a(1,3) p by simp
    next
      case (Some k)
      then have "laid_out (length (pre @ arg_text a)) k as'" using a(3) by simp
      moreover have "line = (pre @ arg_text a) @ concat (map arg_text as')" using line by simp
      moreover have "length pre + length (arg_text a) = length (pre @ arg_text a)" by simp
      ultimately have "fold_chain (parse_param line) (nodes k) acc' = Inr (acc' @ map (\<lambda>a. unquoted (fst a) (fst (snd a))) as')" for acc'
        using 1(2) [OF False a(1) Some _ _ args(2), of "pre @ arg_text a" acc'] by blast
      then show ?thesis using Some p a(1) by simp
    qed
  qed
qed

subsection \<open>Properties\<close>

text \<open>C40: From the tokens of a line in which arguments follow one another, each not empty and without white space at its own end, the adapter reads
  these arguments in order, an \<open>Id\<close> without the quotes around it and any other as it was written; white space inside an argument is kept, that
  after it is not. The tokens may be of any shape in which the first text of a parameter's node is where its argument starts: leaves, nodes
  with children to any depth, and nodes without text, which give no argument.\<close>

theorem arguments_read_back:
  assumes "laid_out (length pre) t as" "\<forall>a\<in>set as. proper_arg a"
  shows "parse_all (pre @ concat (map arg_text as)) t = Inr (map (\<lambda>a. unquoted (fst a) (fst (snd a))) as)"
  unfolding parse_all_def using parse_nodes [OF assms refl, of "[]"] by simp

text \<open>A line with a quoted \<open>Id\<close> below two nodes, a parameter without text, and a leaf.\<close>

definition demo_args :: "written_arg list" where
  "demo_args = [(True, [0x22, 0x62, 0x20, 0x63, 0x22], [0x20, 0x20]), (False, [0x64], [])]"

definition demo_tokens :: token where
  "demo_tokens = Token None 0 False (Some (Token None 0 True (Some (Token (Some 3) 5 False None None)) None))
     (Some (Token None 0 False None (Some (Token (Some 10) 1 False None None))))"

theorem arguments_read_back_witness:
  "parse_all ([0x2F, 0x61, 0x20] @ concat (map arg_text demo_args)) demo_tokens = Inr [[0x62, 0x20, 0x63], [0x64]]"
proof -
  have l: "laid_out (length [0x2F, 0x61, 0x20 :: byte]) demo_tokens demo_args"
    by (simp add: demo_tokens_def demo_args_def textless_def holds_arg_def arg_text_def)
  have "\<forall>a\<in>set demo_args. proper_arg a" by (simp add: demo_args_def proper_arg_def is_space_def)
  from arguments_read_back [OF l this] show ?thesis by (simp add: demo_args_def unquoted_def removeQuotes_def numeral_3_eq_3)
qed

subsection \<open>More of the bridge\<close>

text \<open>A command of the game runs only for those with its permission, at the level that bypasses the check of the game, and asks for its own level
  again afterwards; the sender is told what the command wrote, in order.\<close>

lemma vanilla_runs:
  assumes "testPermissionSilently has c" "compile_command (join_words ((CHR ''/'' # cmd_name c) # args)) = (errors, Some k)"
  shows "wrapper_execute has (Some kind) compile_command c args =
    (success_count (run_at k 0 (CommandOutput kind)) > 0,
     map (\<lambda>e. Error_Sent (Text e)) errors @ map redirected (output_messages (run_at k 0 (CommandOutput kind))), Some (asked_level k))"
  using assms by (simp add: wrapper_execute_def testPermission_def Let_def)

lemma vanilla_refused:
  "\<not> testPermissionSilently has c \<Longrightarrow> wrapper_execute has origin compile_command c args =
    (True, [Error_Sent (Translatable ''commands.generic.error.permissions'' [cmd_name c])], None)"
  by (simp add: wrapper_execute_def testPermission_def)

text \<open>The last argument takes the rest of the line.\<close>

lemma last_takes_rest:
  assumes "tok_child t = Some (Token (Some b) n i None None)" "tok_next t = None" "b \<le> length line" "0 \<notin> set line"
  shows "parseNode line t = Inr (Some (unquoted i (rstrip (drop b line))))"
proof -
  have "takeWhile (\<lambda>b. b \<noteq> 0) (drop b line) = drop b line" using assms(4) by (intro takeWhile_eq_all_conv [THEN iffD2]) (auto dest: in_set_dropD)
  then show ?thesis using assms(1-3) by (simp add: parseNode_def c_string_def del: takeWhile_eq_all_conv)
qed

end
