(* ===== verification/World.thy ===== *)
theory World
  imports Block_Hooks Nbt
begin

text \<open>
  Dimensions, chunks and blocks as plugins see them (\<open>src/endstone/core/level\<close>, \<open>src/endstone/core/block\<close>) and the registries
  (\<open>src/endstone/core/registry.h\<close>). The chunk source, the setting of blocks and the tables of the game are parameters; positions are unbounded integers; blocks, chunks and types are
  numbers.
\<close>

subsection \<open>Chunks\<close>

definition chunkKey :: "32 word \<Rightarrow> 32 word \<Rightarrow> 64 word" where
  "chunkKey x z = push_bit 32 (ucast x) OR ucast z"

text \<open>The chunks a plugin keeps loaded: shared pointers under their keys. \<open>chunk_state\<close> tells how far the game is with a chunk.\<close>

definition LOADED :: nat where "LOADED = 13"

record chunk_source =
  existing_chunk :: "32 word \<Rightarrow> 32 word \<Rightarrow> nat option"
  get_or_load :: "32 word \<Rightarrow> 32 word \<Rightarrow> nat option"
  chunk_state :: "nat \<Rightarrow> nat"
  storage :: "nat option list"

type_synonym chunk_tickets = "(64 word \<times> nat) list"

definition loadChunk :: "chunk_source \<Rightarrow> 32 word \<Rightarrow> 32 word \<Rightarrow> chunk_tickets \<Rightarrow> bool \<times> chunk_tickets" where
  "loadChunk g x z ts = (case get_or_load g x z of None \<Rightarrow> (False, ts) | Some c \<Rightarrow> (True, AList.update (chunkKey x z) c ts))"

definition unloadChunk :: "32 word \<Rightarrow> 32 word \<Rightarrow> chunk_tickets \<Rightarrow> bool \<times> chunk_tickets" where
  "unloadChunk x z ts = (True, AList.delete (chunkKey x z) ts)"

definition isChunkLoaded :: "chunk_source \<Rightarrow> 32 word \<Rightarrow> 32 word \<Rightarrow> chunk_tickets \<Rightarrow> bool" where
  "isChunkLoaded g x z ts = (case map_of ts (chunkKey x z) of
     Some c \<Rightarrow> chunk_state g c \<ge> LOADED
   | None \<Rightarrow> (case existing_chunk g x z of None \<Rightarrow> False | Some c \<Rightarrow> chunk_state g c \<ge> LOADED))"

definition getLoadedChunks :: "chunk_source \<Rightarrow> nat list" where
  "getLoadedChunks g = filter (\<lambda>c. chunk_state g c \<ge> LOADED) (map the (filter (\<lambda>w. w \<noteq> None) (storage g)))"

datatype chunk_call = Load_Chunk "32 word" "32 word" | Unload_Chunk "32 word" "32 word"

fun call_chunk :: "chunk_call \<times> chunk_source \<Rightarrow> chunk_tickets \<Rightarrow> chunk_tickets" where
  "call_chunk (Load_Chunk x z, g) ts = snd (loadChunk g x z ts)"
| "call_chunk (Unload_Chunk x z, g) ts = snd (unloadChunk x z ts)"

subsection \<open>Dimensions\<close>

datatype dimension_type = Overworld | Nether | The_End | Custom

fun getType :: "int \<Rightarrow> dimension_type" where
  "getType i = (if i = 0 then Overworld else if i = 1 then Nether else if i = 2 then The_End else Custom)"

definition addDimension :: "int \<Rightarrow> 'd \<Rightarrow> (int \<times> 'd) list \<Rightarrow> (int \<times> 'd) list" where
  "addDimension i d ds = AList.update i d ds"

text \<open>\<open>boost::iequals\<close> ignores case; the order of the table is the one it is walked in.\<close>

definition getDimension :: "('d \<Rightarrow> string) \<Rightarrow> string \<Rightarrow> (int \<times> 'd) list \<Rightarrow> 'd option" where
  "getDimension dim_name n ds = (let n' = (if n = ''the_end'' then ''TheEnd'' else n) in
     find (\<lambda>d. lower (dim_name d) = lower n') (map snd ds))"

definition getHighestBlockYAt :: "(pos \<Rightarrow> bool) \<Rightarrow> ((int \<Rightarrow> bool) \<Rightarrow> int) \<Rightarrow> int \<Rightarrow> int \<Rightarrow> int" where
  "getHighestBlockYAt is_air_at height x z = height (\<lambda>y. \<not> is_air_at (x, y, z)) - 1"

definition actors_of :: "('a \<Rightarrow> 'd) \<Rightarrow> 'd \<Rightarrow> 'a option list \<Rightarrow> 'a list" where
  "actors_of dimension_of d as = filter (\<lambda>a. dimension_of a = d) (map the (filter (\<lambda>a. a \<noteq> None) as))"

subsection \<open>Blocks\<close>

type_synonym world = "pos \<Rightarrow> nat"

text \<open>\<open>set_block\<close> is the game's, with the flags for the neighbours and the clients.\<close>

record block_tables =
  set_block :: "pos \<Rightarrow> nat \<Rightarrow> nat \<Rightarrow> world \<Rightarrow> world"
  type_name :: "nat \<Rightarrow> string"
  runtime_id :: "nat \<Rightarrow> nat"
  block_for_type :: "string \<Rightarrow> nat option"

definition UPDATE_NEIGHBORS :: nat where "UPDATE_NEIGHBORS = 1"
definition UPDATE_CLIENTS :: nat where "UPDATE_CLIENTS = 2"

definition setData :: "block_tables \<Rightarrow> pos \<Rightarrow> nat \<Rightarrow> bool \<Rightarrow> world \<Rightarrow> world" where
  "setData g p b physics w = (if physics then set_block g p b (or UPDATE_NEIGHBORS UPDATE_CLIENTS) w else set_block g p b UPDATE_CLIENTS w)"

text \<open>An unknown type is an error; the world stays as it is.\<close>

definition setType :: "block_tables \<Rightarrow> pos \<Rightarrow> string \<Rightarrow> bool \<Rightarrow> world \<Rightarrow> string + world" where
  "setType g p t physics w = (case block_for_type g t of None \<Rightarrow> Inl t | Some b \<Rightarrow> Inr (setData g p b physics w))"

definition getRelative :: "pos \<Rightarrow> block_face \<Rightarrow> int \<Rightarrow> pos" where
  "getRelative p f n = (case (p, getOffset f) of ((x, y, z), (dx, dy, dz)) \<Rightarrow> (x + dx * n, y + dy * n, z + dz * n))"

text \<open>A captured state: where, and which block.\<close>

record block_state =
  state_pos :: pos
  state_block :: nat

definition captureState :: "pos \<Rightarrow> world \<Rightarrow> block_state" where
  "captureState p w = \<lparr>state_pos = p, state_block = w p\<rparr>"

definition state_setType :: "block_tables \<Rightarrow> string \<Rightarrow> block_state \<Rightarrow> string + block_state" where
  "state_setType g t s = (if type_name g (state_block s) = t then Inr s
     else case block_for_type g t of None \<Rightarrow> Inl t | Some b \<Rightarrow> Inr (s\<lparr>state_block := b\<rparr>))"

definition state_update :: "block_tables \<Rightarrow> bool \<Rightarrow> bool \<Rightarrow> block_state \<Rightarrow> world \<Rightarrow> bool \<times> world" where
  "state_update g force physics s w = (if type_name g (w (state_pos s)) \<noteq> type_name g (state_block s) \<and> \<not> force then (False, w)
     else (True, setData g (state_pos s) (state_block s) physics w))"

datatype state_value = Bool_State bool | Int_State "32 word" | String_State bytes

datatype states_error = Unexpected_Type

text \<open>The states of a block as its serialisation has them, a byte above zero is true; bytes are unsigned in tags.\<close>

definition state_entry :: "tag \<Rightarrow> states_error + state_value" where
  "state_entry t = (case t of Byte_Tag b \<Rightarrow> Inr (Bool_State (b > 0)) | Int_Tag i \<Rightarrow> Inr (Int_State i) | String_Tag s \<Rightarrow> Inr (String_State s)
   | _ \<Rightarrow> Inl Unexpected_Type)"

definition getBlockStates :: "bytes \<Rightarrow> tag_map \<Rightarrow> states_error + (bytes \<times> state_value) list" where
  "getBlockStates states_key ts = (case compound_get ts states_key of
     None \<Rightarrow> Inr []
   | Some (Compound_Tag es) \<Rightarrow> fold_chain (\<lambda>e acc. chain (state_entry (snd e)) (\<lambda>v. Inr (acc @ [(fst e, v)]))) es []
   | Some _ \<Rightarrow> Inl Unexpected_Type)"

text \<open>A change of a block is announced when it is another block, on the thread of the server.\<close>

definition change_announced :: "block_tables \<Rightarrow> bool \<Rightarrow> nat \<Rightarrow> nat \<Rightarrow> bool" where
  "change_announced g primary_thread old new \<longleftrightarrow> runtime_id g old \<noteq> runtime_id g new \<and> primary_thread"

subsection \<open>Registries\<close>

text \<open>A registry keeps what it once made; \<open>minecraft\<close> looks a name up in the game, \<open>wrap\<close> makes the entry.\<close>

definition registry_get :: "('i \<Rightarrow> 'm option) \<Rightarrow> ('i \<Rightarrow> 'm \<Rightarrow> 'e) \<Rightarrow> 'i \<Rightarrow> ('i \<times> 'e) list \<Rightarrow> 'e option \<times> ('i \<times> 'e) list" where
  "registry_get minecraft wrap i c = (case map_of c i of
     Some e \<Rightarrow> (Some e, c)
   | None \<Rightarrow> (case minecraft i of None \<Rightarrow> (None, c) | Some m \<Rightarrow> (Some (wrap i m), (i, wrap i m) # c)))"

definition getOrThrow :: "('i \<Rightarrow> 'm option) \<Rightarrow> ('i \<Rightarrow> 'm \<Rightarrow> 'e) \<Rightarrow> 'i \<Rightarrow> ('i \<times> 'e) list \<Rightarrow> ('i + 'e) \<times> ('i \<times> 'e) list" where
  "getOrThrow minecraft wrap i c = (case registry_get minecraft wrap i c of (None, c') \<Rightarrow> (Inl i, c') | (Some e, c') \<Rightarrow> (Inr e, c'))"

fun for_each :: "('i \<Rightarrow> 'm option) \<Rightarrow> ('i \<Rightarrow> 'm \<Rightarrow> 'e) \<Rightarrow> ('e \<Rightarrow> bool) \<Rightarrow> 'i list \<Rightarrow> ('i \<times> 'e) list \<Rightarrow> ('i + 'e list) \<times> ('i \<times> 'e) list" where
  "for_each minecraft wrap func [] c = (Inr [], c)"
| "for_each minecraft wrap func (i # is) c = (case getOrThrow minecraft wrap i c of
     (Inl x, c') \<Rightarrow> (Inl x, c')
   | (Inr e, c') \<Rightarrow> if func e then (case for_each minecraft wrap func is c' of (Inl x, c'') \<Rightarrow> (Inl x, c'') | (Inr es, c'') \<Rightarrow> (Inr (e # es), c''))
       else (Inr [e], c'))"

text \<open>The game finds an enchantment by the key of its identifier alone.\<close>

definition enchantment_lookup :: "(string \<Rightarrow> 'm option) \<Rightarrow> string \<times> string \<Rightarrow> 'm option" where
  "enchantment_lookup from_name i = from_name (snd i)"

subsection \<open>Lemmas\<close>

lemma chunkKey_inj: "chunkKey x z = chunkKey x' z' \<longleftrightarrow> x = x' \<and> z = z'"
proof
  assume e: "chunkKey x z = chunkKey x' z'"
  have lo: "(ucast (chunkKey x z) :: 32 word) = z" for x z :: "32 word"
    by (rule bit_word_eqI) (auto simp: chunkKey_def bit_simps)
  have hi: "(ucast (drop_bit 32 (chunkKey x z)) :: 32 word) = x" for x z :: "32 word"
    by (rule bit_word_eqI) (auto simp: chunkKey_def bit_simps dest: bit_imp_le_length)
  show "x = x' \<and> z = z'" using e lo [of x z] lo [of x' z'] hi [of x z] hi [of x' z'] by simp
qed simp

text \<open>A chunk is kept by the last call that loaded it and no later one that let it go; calls for other chunks do not matter.\<close>

definition keeps :: "32 word \<Rightarrow> 32 word \<Rightarrow> chunk_call \<times> chunk_source \<Rightarrow> nat option \<Rightarrow> nat option" where
  "keeps x z cg k = (case cg of
     (Load_Chunk x' z', g) \<Rightarrow> if x' = x \<and> z' = z then (case get_or_load g x z of None \<Rightarrow> k | Some c \<Rightarrow> Some c) else k
   | (Unload_Chunk x' z', g) \<Rightarrow> if x' = x \<and> z' = z then None else k)"

lemma kept_by_call: "map_of (call_chunk cg ts) (chunkKey x z) = keeps x z cg (map_of ts (chunkKey x z))"
  by (cases cg; case_tac "fst cg")
    (auto simp: keeps_def loadChunk_def unloadChunk_def update_conv' delete_conv chunkKey_inj split: option.splits)

lemma kept_chunks: "map_of (fold call_chunk cgs ts) (chunkKey x z) = fold (keeps x z) cgs (map_of ts (chunkKey x z))"
  by (induction cgs arbitrary: ts) (simp_all add: kept_by_call)

lemma loaded_then_kept:
  assumes "loadChunk g x z ts = (True, ts')" "\<forall>cg\<in>set cgs. fst cg \<noteq> Unload_Chunk x z"
  shows "map_of (fold call_chunk cgs ts') (chunkKey x z) \<noteq> None"
proof -
  have "map_of ts' (chunkKey x z) \<noteq> None" using assms(1) by (auto simp: loadChunk_def update_conv' split: option.splits)
  then have "fold (keeps x z) cgs (map_of ts' (chunkKey x z)) \<noteq> None" using assms(2)
  proof (induction cgs arbitrary: ts')
    case (Cons cg cgs)
    have "keeps x z cg (map_of ts' (chunkKey x z)) \<noteq> None"
      using Cons.prems by (cases cg; cases "fst cg") (auto simp: keeps_def split: option.splits)
    then obtain c where c: "keeps x z cg (map_of ts' (chunkKey x z)) = Some c" by auto
    have "fold (keeps x z) cgs (map_of [(chunkKey x z, c)] (chunkKey x z)) \<noteq> None" by (rule Cons.IH) (use Cons.prems in auto)
    then show ?case using c by simp
  qed simp
  then show ?thesis by (simp add: kept_chunks)
qed

text \<open>A captured state that is brought back changes its own block only, and only over a block of the same type unless it is forced.\<close>

definition sets_exactly :: "block_tables \<Rightarrow> bool" where
  "sets_exactly g \<longleftrightarrow> (\<forall>p b w. set_block g p b UPDATE_CLIENTS w = w(p := b))"

lemma update_restores:
  assumes "sets_exactly g"
  shows "state_update g force False (captureState p w0) w =
    (if type_name g (w p) = type_name g (w0 p) \<or> force then (True, w(p := w0 p)) else (False, w))"
  using assms by (cases p) (simp add: state_update_def captureState_def setData_def sets_exactly_def)

lemma update_unchanged: "sets_exactly g \<Longrightarrow> state_update g force False (captureState p w) w = (True, w)"
  by (simp add: update_restores)

lemma relative_back: "getRelative (getRelative p f n) (getOpposite f) n = p"
  by (cases p; cases f) (simp_all add: getRelative_def getOffset_def getOpposite_def)

text \<open>Every state of a block of the supported types is read, under its own key and in order.\<close>

lemma states_read:
  assumes "compound_get ts k = Some (Compound_Tag es)" "\<forall>e\<in>set es. \<exists>v. state_entry (snd e) = Inr v"
  shows "\<exists>vs. getBlockStates k ts = Inr (zip (map fst es) vs) \<and> map Inr vs = map (\<lambda>e. state_entry (snd e)) es"
proof -
  have "\<exists>vs. fold_chain (\<lambda>e acc. chain (state_entry (snd e)) (\<lambda>v. Inr (acc @ [(fst e, v)]))) es acc = Inr (acc @ zip (map fst es) vs) \<and>
      map Inr vs = map (\<lambda>e. state_entry (snd e)) es" for acc
    using assms(2)
  proof (induction es arbitrary: acc)
    case (Cons e es)
    obtain v where v: "state_entry (snd e) = Inr v" using Cons.prems by auto
    obtain vs where "fold_chain (\<lambda>e acc. chain (state_entry (snd e)) (\<lambda>v. Inr (acc @ [(fst e, v)]))) es (acc @ [(fst e, v)]) =
        Inr ((acc @ [(fst e, v)]) @ zip (map fst es) vs)" "map Inr vs = map (\<lambda>e. state_entry (snd e)) es"
      using Cons.IH [of "acc @ [(fst e, v)]"] Cons.prems by auto
    then show ?case using v by (intro exI [of _ "v # vs"]) simp
  qed simp
  from this [of "[]"] assms(1) show ?thesis by (simp add: getBlockStates_def)
qed

text \<open>An entry of a registry stays the same for good.\<close>

lemma registry_stable:
  assumes "registry_get minecraft wrap i c = (Some e, c')"
  shows "registry_get minecraft' wrap i c' = (Some e, c')" and "map_of c j = Some x \<Longrightarrow> map_of c' j = Some x"
  using assms by (auto simp: registry_get_def split: option.splits)

lemma for_each_all:
  "\<forall>i\<in>set is. minecraft i \<noteq> None \<Longrightarrow> \<exists>es c'. for_each minecraft wrap (\<lambda>_. True) is c = (Inr es, c') \<and> length es = length is"
proof (induction "is" arbitrary: c)
  case (Cons i "is")
  obtain e c1 where g: "getOrThrow minecraft wrap i c = (Inr e, c1)"
    using Cons.prems(1) by (cases "map_of c i") (auto simp: getOrThrow_def registry_get_def)
  obtain es c' where "for_each minecraft wrap (\<lambda>_. True) is c1 = (Inr es, c')" "length es = length is" using Cons.IH [of c1] Cons.prems by auto
  then show ?case using g by simp
qed simp

text \<open>Identifiers of any namespace find the enchantment of the game.\<close>

lemma foreign_enchantment: "enchantment_lookup from_name (''other'', k) = enchantment_lookup from_name (''minecraft'', k)"
  by (simp add: enchantment_lookup_def)

end
