(* ===== verification/Plugin_Loader.thy ===== *)
theory Plugin_Loader
  imports Prelude "HOL-Library.Sublist"
begin

text \<open>
  The loader of plugins in shared libraries (\<open>src/endstone/core/plugin/cpp_plugin_loader.cpp\<close>). Files, libraries and what an entry point makes
  are parameters; a library that is open is a number, a plugin the number of its library with its description.
\<close>

subsection \<open>State\<close>

record plugin_info =
  plugin_name :: string
  api_version :: string

text \<open>What the system answers: whether a file exists, the hash of a path, whether a copy is made, the library that is opened, whether it has the
  entry point, and the plugin this makes.\<close>

record system =
  file_exists :: "string \<Rightarrow> bool"
  path_hash :: "string \<Rightarrow> string"
  copy_file :: "string \<Rightarrow> string \<Rightarrow> bool"
  open_library :: "string \<Rightarrow> nat option"
  entry_point :: "nat \<Rightarrow> bool"
  init_plugin :: "nat \<Rightarrow> plugin_info option"

datatype load_failure = File_Missing | Copy_Failed | Library_Failed | No_Entry_Point | Invalid_Plugin | Wrong_Api_Version string string

text \<open>The plugins of the loader with their libraries, the libraries that are open, and the plugins that exist.\<close>

record loader =
  loaded_plugins :: "(nat \<times> plugin_info) list"
  open_libraries :: "nat list"
  living :: "nat list"
  errors :: "load_failure list"

subsection \<open>Operations\<close>

definition is_plugin_file :: "string \<Rightarrow> string \<Rightarrow> bool" where
  "is_plugin_file extension f = suffix extension f"

text \<open>The constructor empties the folder of shadow copies of earlier runs.\<close>

definition remove_old :: "string \<Rightarrow> (string \<times> bool) list \<Rightarrow> (string \<times> bool) list" where
  "remove_old extension entries = filter (\<lambda>(f, regular). \<not> (regular \<and> is_plugin_file extension f)) entries"

definition new_loader :: loader where
  "new_loader = \<lparr>loaded_plugins = [], open_libraries = [], living = [], errors = []\<rparr>"

text \<open>\<open>stem\<close> and \<open>extension\<close> are the parts of the name of the file.\<close>

definition temp_path :: "system \<Rightarrow> string \<Rightarrow> string \<Rightarrow> string \<Rightarrow> string" where
  "temp_path sys path stem extension = stem @ CHR ''-'' # path_hash sys path @ extension"

definition failed :: "load_failure \<Rightarrow> loader \<Rightarrow> (nat \<times> plugin_info) option \<times> loader" where
  "failed e l = (None, l\<lparr>errors := errors l @ [e]\<rparr>)"

definition close_library :: "nat \<Rightarrow> loader \<Rightarrow> loader" where
  "close_library m l = l\<lparr>open_libraries := remove1 m (open_libraries l)\<rparr>"

definition check_plugin :: "string \<Rightarrow> nat \<Rightarrow> plugin_info option \<Rightarrow> loader \<Rightarrow> (nat \<times> plugin_info) option \<times> loader" where
  "check_plugin supported m made l = (case made of
     None \<Rightarrow> failed Invalid_Plugin (close_library m l)
   | Some i \<Rightarrow> (let l1 = l\<lparr>living := m # living l\<rparr> in
       if api_version i \<noteq> supported then failed (Wrong_Api_Version (plugin_name i) (api_version i)) l1
       else (Some (m, i), l1\<lparr>loaded_plugins := loaded_plugins l1 @ [(m, i)]\<rparr>)))"

definition loadPlugin :: "system \<Rightarrow> string \<Rightarrow> string \<Rightarrow> string \<Rightarrow> string \<Rightarrow> loader \<Rightarrow> (nat \<times> plugin_info) option \<times> loader" where
  "loadPlugin sys supported path stem extension l =
     (if \<not> file_exists sys path then failed File_Missing l
      else let temp = temp_path sys path stem extension in
        if \<not> copy_file sys path temp then failed Copy_Failed l
        else (case open_library sys temp of
          None \<Rightarrow> failed Library_Failed l
        | Some m \<Rightarrow> (let l1 = l\<lparr>open_libraries := m # open_libraries l\<rparr> in
            if \<not> entry_point sys m then
              (let l2 = close_library m l1 in if prefix ''endstone_'' (stem @ extension) then failed No_Entry_Point l2 else (None, l2))
            else check_plugin supported m (init_plugin sys m) l1)))"

text \<open>A plugin that is destroyed closes its library after it.\<close>

definition destroy_plugins :: "loader \<Rightarrow> loader" where
  "destroy_plugins l = (let ms = map fst (loaded_plugins l) in
     l\<lparr>loaded_plugins := [], living := fold remove1 ms (living l), open_libraries := fold remove1 ms (open_libraries l)\<rparr>)"

subsection \<open>Lemmas\<close>

lemma close_opened: "close_library m (l\<lparr>open_libraries := m # open_libraries l\<rparr>) = l"
  by (simp add: close_library_def)

text \<open>A failed load leaves libraries and plugins as they were, except when the version of the interface is wrong: then the library stays open
  and the plugin is never destroyed.\<close>

lemma failed_load:
  assumes "loadPlugin sys supported path stem extension l = (None, l')"
  shows "(open_libraries l' = open_libraries l \<and> living l' = living l \<and> loaded_plugins l' = loaded_plugins l) \<or>
    (\<exists>m n v. open_libraries l' = m # open_libraries l \<and> living l' = m # living l \<and> loaded_plugins l' = loaded_plugins l \<and>
      errors l' = errors l @ [Wrong_Api_Version n v] \<and> v \<noteq> supported)"
  using assms by (auto simp: loadPlugin_def check_plugin_def failed_def Let_def close_opened split: if_splits option.splits)

lemma loaded_version:
  assumes "loadPlugin sys supported path stem extension l = (Some (m, i), l')"
  shows "api_version i = supported \<and> loaded_plugins l' = loaded_plugins l @ [(m, i)] \<and> open_libraries l' = m # open_libraries l \<and>
    living l' = m # living l \<and> errors l' = errors l"
  using assms by (auto simp: loadPlugin_def check_plugin_def failed_def Let_def split: if_splits option.splits)

text \<open>Without such plugins the loader owns every library that is open, and its end closes them all.\<close>

definition owns_all :: "loader \<Rightarrow> bool" where
  "owns_all l \<longleftrightarrow> open_libraries l = rev (map fst (loaded_plugins l)) \<and> living l = open_libraries l"

lemma remove_rev: "fold remove1 ms (rev ms) = []"
proof -
  have "mset (fold remove1 ms xs) = mset xs - mset ms" for xs :: "'a list"
    by (induction ms arbitrary: xs) (simp_all add: diff_diff_add_mset)
  from this [of "rev ms"] show ?thesis by simp
qed

lemma owner_kept:
  assumes "owns_all l" "loadPlugin sys supported path stem extension l = (r, l')" "\<forall>n v. Wrong_Api_Version n v \<notin> set (errors l')"
  shows "owns_all l'"
proof (cases r)
  case None
  have "errors l' \<noteq> errors l @ [Wrong_Api_Version n v]" for n v
  proof
    assume "errors l' = errors l @ [Wrong_Api_Version n v]"
    then have "Wrong_Api_Version n v \<in> set (errors l')" by simp
    then show False using assms(3) by blast
  qed
  then show ?thesis using failed_load [of sys supported path stem extension l l'] assms(1,2) None by (auto simp: owns_all_def)
next
  case (Some p)
  then show ?thesis using loaded_version [of sys supported path stem extension l "fst p" "snd p" l'] assms(1,2) by (cases p) (auto simp: owns_all_def)
qed

lemma all_closed: "owns_all l \<Longrightarrow> open_libraries (destroy_plugins l) = [] \<and> living (destroy_plugins l) = []"
  by (simp add: owns_all_def destroy_plugins_def Let_def remove_rev)

end
