(* ===== verification/Spec2Isabelle.thy ===== *)
theory Spec2Isabelle
  imports Binary_Stream Nbt Scheduler Async_Task Events Plugins Permissions Plugin_Host Command_Map Ban_File Ban_Commands
    Inventory Nbt_Api Map_View Boss_Bar Scoreboard Block_Hooks Network_Peer Server_Ping Thread_Pool Services Forms Player_Api Movement Player_Packets Player_Boards Server_Core Gameplay_Hooks Item_Stack Logging Command_Adapter World Plugin_Loader
begin

text \<open>
  A verification library for Endstone, a plugin platform for the Bedrock dedicated server. Paths below are relative to the
  root of the repository.

  \<^bold>\<open>The program.\<close> Endstone runs inside the process of the game's server. \<open>src/bedrock\<close> declares the types of the game and
  reimplements some of its functions; \<open>src/endstone/runtime\<close> detours functions of the game (the hooks);
  \<open>src/endstone/core\<close> implements the interfaces plugins see (\<open>include/endstone\<close>) on top of both. A hook usually turns what the
  game is about to do into an event, lets the plugin manager call the registered handlers, and then goes on, changes or drops
  the action. Plugins act through the scheduler, the command map, permissions, ban lists, inventories, maps, boss bars
  and scoreboards. Code of the game binary and of third-party libraries is not in the repository; it appears as a
  parameter of the definitions that use it, with what the code relies on as a named law.

  \<^bold>\<open>Theories and the code they model.\<close>
  \<^item> \<open>Prelude\<close>: words and their bytes, \<open>chain\<close> and \<open>fold_chain\<close> for code that may fail, ordered and unordered maps as association
    lists, and the locale \<open>table\<close> of a lookup table, interpreted for ordered maps and again for the tags of a compound.
  \<^item> \<open>Binary_Stream\<close>: \<open>ReadOnlyBinaryStream\<close> and \<open>BinaryStream\<close> (\<open>src/bedrock/core/utility/binary_stream.cpp\<close>). Every integer
    encoding is read back as it was written, and no read leaves the buffer.
  \<^item> \<open>Data_Io\<close>: \<open>src/bedrock/util/data_io.cpp\<close>. The locale \<open>data_channel\<close> states that a reader returns what an output wrote; it is
    interpreted for the little- and the big-endian output.
  \<^item> \<open>Nbt\<close>: the tags of the game (\<open>src/bedrock/nbt\<close>), read back through any data channel.
  \<^item> \<open>Nbt_Api\<close>: the tags of the plugin interface (\<open>include/endstone/nbt\<close>) and their conversion from and to those of the game.
  \<^item> \<open>Scheduler\<close> and \<open>Async_Task\<close>: \<open>src/endstone/core/scheduler\<close>. The scheduler is sequential code on the main thread; an
    asynchronous task is a step relation over all interleavings of its workers, the main thread and threads that cancel it.
  \<^item> \<open>Events\<close>, \<open>Plugins\<close>, \<open>Permissions\<close>, \<open>Plugin_Host\<close>: the four parts of \<open>src/endstone/core/plugin/plugin_manager.cpp\<close> with
    \<open>include/endstone/event\<close>, \<open>include/endstone/plugin\<close> and \<open>src/endstone/core/permissions\<close>; the last theory puts them together with
    the scheduler for enabling and disabling a plugin.
  \<^item> \<open>Command_Usage\<close> and \<open>Command_Map\<close>: \<open>src/endstone/core/command\<close> over the tables of the game's command registry
    (\<open>src/bedrock/server/commands/command_registry.cpp\<close>).
  \<^item> \<open>Command_Adapter\<close>: the bridge between commands of the game and of plugins (\<open>minecraft_command_adapter.cpp\<close>,
    \<open>minecraft_command_wrapper.cpp\<close>, \<open>src/bedrock/server/commands/command_output.cpp\<close>): arguments, outputs and senders.
  \<^item> \<open>Uuid\<close>: the two representations of identifiers and the conversions between them.
  \<^item> \<open>Bans\<close>, \<open>Ban_File\<close>, \<open>Ban_Commands\<close>: \<open>src/endstone/core/ban\<close>, the five ban commands, and the check of a login. The class
    template of the lists is the locale \<open>matcher\<close>, the JSON form of an identity the locale \<open>identity_json\<close>; both are interpreted for
    addresses and for players.
  \<^item> \<open>Item_Meta\<close> and \<open>Inventory\<close>: \<open>src/endstone/core/inventory\<close>.
  \<^item> \<open>Item_Stack\<close>: the item stacks of the game (\<open>src/bedrock/world/item/item_stack_base.cpp\<close>): how they are made, copied and compared, and
    how their data are read from the network; the copy of a stack equals it and differs only in the time it was picked up.
  \<^item> \<open>Images\<close> and \<open>Map_View\<close>: \<open>include/endstone/util/color.h\<close>, \<open>image.h\<close>, \<open>src/endstone/core/map\<close> and the saved map of the game
    (\<open>src/bedrock/world/level/saveddata\<close>).
  \<^item> \<open>Boss_Bar\<close> and \<open>Scoreboard\<close>: \<open>src/endstone/core/boss\<close>, \<open>src/endstone/core/scoreboard\<close> and \<open>src/bedrock/world/scores\<close>.
  \<^item> \<open>Player_Boards\<close>: which board a player sees, and the sender that lets the packets of a board through to those who see it
    (\<open>src/endstone/core/server.cpp\<close>, \<open>scoreboard/scoreboard_packet_sender.cpp\<close>).
  \<^item> \<open>Thread_Pool\<close>: \<open>src/endstone/core/scheduler/thread_pool_executor.cpp\<close> as a step relation over all interleavings of its workers, of
    threads that submit tasks and of the destructor.
  \<^item> \<open>Services\<close>: \<open>src/endstone/core/plugin/service_manager.cpp\<close>.
  \<^item> \<open>Forms\<close>: \<open>src/endstone/core/form/form_codec.cpp\<close>, \<open>include/endstone/form\<close>, and the forms of a player between sending and answer.
  \<^item> \<open>Player_Api\<close>, \<open>Movement\<close>, \<open>Player_Packets\<close>: \<open>src/endstone/core/player.cpp\<close> with the abilities of the game
    (\<open>src/bedrock/world/actor/player\<close>) and the hooks of teleports: operator status, flight, experience, messages; where a player is
    allowed to go; the packets of its client, the commands and the maps it is sent.
  \<^item> \<open>Server_Core\<close>: \<open>src/endstone/core/server.cpp\<close>: phases of enabling plugins, resource packs, broadcasts over the permissions, and
    the tick, which puts the scheduler, the game and the players together.
  \<^item> \<open>Gameplay_Hooks\<close>: chat, typed commands, kicks, spawns, weather, explosions, drops, beds, death and leaving, as the hooks of
    \<open>src/endstone/runtime/bedrock_hooks\<close> decide on them.
  \<^item> \<open>World\<close>: dimensions, chunks and blocks (\<open>src/endstone/core/level\<close>, \<open>src/endstone/core/block\<close>) and the cache of the registries.
  \<^item> \<open>Plugin_Loader\<close>: \<open>src/endstone/core/plugin/cpp_plugin_loader.cpp\<close>, the ways a load fails and the libraries that are open.
  \<^item> \<open>Logging\<close>: \<open>src/endstone/core/spdlog\<close>, \<open>logger_factory.cpp\<close>, \<open>console/console.cpp\<close>: codes of colours, lines of a message, and the log
    file with its archives.
  \<^item> \<open>Block_Hooks\<close>, \<open>Network_Peer\<close>, \<open>Server_Ping\<close>: hooks of \<open>src/endstone/runtime/bedrock_hooks\<close> with logic of their own: leaves,
    pistons, beds and redstone; packets that are sent, received and patched; the answer to a server list ping.

  \<^bold>\<open>How state and operations correspond.\<close> A class is a record of its members under their names, an enumeration a datatype with
  its constructors, an operation a definition under the name of the function (suffixed where two classes share a name).
  Objects that are shared and changed (tasks, permissions, handlers) are entries of a store, and pointers are their keys;
  following a pointer to a destroyed object is an error value. Exceptions, error results and undefined behaviour are values of
  a sum type. Callbacks of plugins are scripts: lists of calls to the public operations, which may depend on
  the state they start in. Integers are words where bits or wrap-around matter, and bounded integers otherwise; floating point
  numbers are bit patterns.

  \<^bold>\<open>What the lemmas show.\<close> For every component the well-formedness of its state and that the operations keep it; what each
  operation returns, on its error paths too; and the contract the component has with its users: a delayed task runs when it is
  due and not before, handlers are called in the order of their priorities, dependencies are loaded first, the attachment added
  last wins, a usage string parses back to the parameters it was printed from, a ban lasts until it is lifted, items are neither
  made nor lost, a picture shows the layers of its canvases, the clients show the boss bar of their player, a score that is set is read back, a leaf
  decays exactly when no wood is near, a packet keeps its header, a pool that is shut down has run every task, a service is answered by the best
  provider, a form is answered once, a teleport and a joining are announced once, a client has the commands its player may use, a broadcast
  reaches those with its permission, a chat message is sent once, the arguments of a command reach its plugin, the copy of a stack
  equals it, what was written to the log is kept. Where the code departs from this, a lemma shows the case.

  \<^bold>\<open>Bounds and termination.\<close> The search for a free task identifier gets as much fuel as there are tasks plus one, which is enough
  by the pigeonhole principle (\<open>nextId_fresh\<close>). Reading a tag gets as much depth as the tag that was written (\<open>tag_fuel\<close>). The
  recursion over child permissions has a depth, beyond which it is \<open>Stack_Overflow\<close>; cyclic children reach every depth. Resolving the
  order of plugins decreases a measure on the candidates, the parser consumes the remaining text, a
  variable-length integer ends by its shift. The loops of \<open>Inventory\<close> that may not end are partial functions with lemmas that say
  when they return. A pool that is being destroyed takes at most \<open>work\<close> steps; identifiers of forms are distinct up to
  \<open>capacity\<close> of them, as many as the counter has before it wraps. The table of enumeration names is checked entry by entry.

  \<^bold>\<open>What is not modelled.\<close> The layouts of the game's types, calls into the game binary, the wrappers whose methods are one such
  call (actors, and what is left of levels, blocks and players), hooks that only call an event, start-up and reload, the line editor, crash handlers, the developer tools, the Python bindings
  and package, translation; they hold no logic that definitions could state beyond the call. Formatting of
  floating point numbers, JSON, dates, sockets and regular expressions belong to libraries and are parameters.
\<close>

end
